(* ===== verification/Prelude.thy ===== *)
theory Prelude
  imports Main "HOL-Library.Char_ord" "HOL-Library.List_Lexorder" "HOL-Library.Multiset"
begin

text \<open>
  Shared vocabulary of the development: the collections of facts the component theories
  extend, the list lemmas they have in common, and the two interfaces that several
  components rely on (a strict preference scanned by a linear winner loop, and a bounded
  window that keeps the most recent items).
\<close>

section \<open>Collections\<close>

named_theorems gostr "facts about the Go string functions"
named_theorems inv_intro "preservation of component invariants"
named_theorems abs_simp "equations between an operation and its abstract counterpart"

section \<open>Results\<close>

text \<open>
  Fallible Go functions return \<open>(value, error)\<close>; the model returns a sum, the error on the left.
\<close>

type_synonym ('e, 'a) result = "'e + 'a"

definition is_ok :: "('e, 'a) result \<Rightarrow> bool" where
  "is_ok r = (case r of Inl _ \<Rightarrow> False | Inr _ \<Rightarrow> True)"

lemma is_ok_simps [simp]: "is_ok (Inr x)" "\<not> is_ok (Inl e)"
  by (simp_all add: is_ok_def)

section \<open>The last items of a list\<close>

definition last_n :: "nat \<Rightarrow> 'a list \<Rightarrow> 'a list" where
  "last_n n xs = drop (length xs - n) xs"

lemma length_last_n [simp]: "length (last_n n xs) = min n (length xs)"
  by (simp add: last_n_def)

lemma last_n_all: "length xs \<le> n \<Longrightarrow> last_n n xs = xs"
  by (simp add: last_n_def)

lemma last_n_0 [simp]: "last_n 0 xs = []"
  by (simp add: last_n_def)

lemma last_n_Nil [simp]: "last_n n [] = []"
  by (simp add: last_n_def)

lemma last_n_append_ge: "n \<le> length ys \<Longrightarrow> last_n n (xs @ ys) = last_n n ys"
  by (simp add: last_n_def)

lemma last_n_snoc: "0 < n \<Longrightarrow> last_n n (last_n n xs @ [x]) = last_n n (xs @ [x])"
  by (simp add: last_n_def Suc_diff_le drop_Cons' split: nat_diff_split)

lemma last_n_append: "last_n n (last_n n xs @ ys) = last_n n (xs @ ys)"
  by (simp add: last_n_def) (metis (no_types, opaque_lifting) Nat.add_diff_assoc2 add.commute
      diff_diff_cancel diff_is_0_eq drop0 drop_drop le_add_diff_inverse2 nat_le_linear
      ordered_cancel_comm_monoid_diff_class.diff_diff_right)

lemma set_last_n: "set (last_n n xs) \<subseteq> set xs"
  by (simp add: last_n_def set_drop_subset)

section \<open>Linear scans for a winner\<close>

text \<open>
  Several components pick one element with the same loop: start with the first, and replace
  the winner when a later element is strictly better. \<open>better x w\<close> is the test of the loop.
\<close>

fun scan_winner :: "('a \<Rightarrow> 'a \<Rightarrow> bool) \<Rightarrow> 'a \<Rightarrow> 'a list \<Rightarrow> 'a" where
  "scan_winner better w [] = w"
| "scan_winner better w (x # xs) = scan_winner better (if better x w then x else w) xs"

lemma scan_winner_in: "scan_winner better w xs \<in> set (w # xs)"
proof (induction xs arbitrary: w)
  case Nil
  show ?case by simp
next
  case (Cons x xs)
  from Cons.IH [of "if better x w then x else w"] show ?case
    by (auto split: if_splits)
qed

lemma scan_winner_snoc:
  "scan_winner better w (xs @ [y])
     = (if better y (scan_winner better w xs) then y else scan_winner better w xs)"
  by (induction xs arbitrary: w) simp_all

text \<open>The specification of such a scan: the first element of the list that nothing beats.\<close>

definition first_best :: "('a \<Rightarrow> 'a \<Rightarrow> bool) \<Rightarrow> 'a list \<Rightarrow> 'a \<Rightarrow> bool" where
  "first_best better xs e \<longleftrightarrow>
     (\<exists>pre post. xs = pre @ e # post \<and> (\<forall>y \<in> set pre. better e y) \<and> (\<forall>y \<in> set post. \<not> better y e))"

text \<open>
  The interface the loop relies on: the test is a strict preference, that is irreflexive,
  transitive, and "not better" is transitive as well (ties form classes).
\<close>

locale strict_preference =
  fixes better :: "'a \<Rightarrow> 'a \<Rightarrow> bool"
  assumes irrefl: "\<not> better x x"
    and weak_trans: "\<not> better x y \<Longrightarrow> \<not> better y z \<Longrightarrow> \<not> better x z"
    and trans: "better x y \<Longrightarrow> better y z \<Longrightarrow> better x z"
begin

lemma asym: "better x y \<Longrightarrow> \<not> better y x"
  using irrefl trans by blast

lemma winner_unbeaten_start: "\<not> better w (scan_winner better w xs)"
proof (induction xs arbitrary: w)
  case Nil
  show ?case by (simp add: irrefl)
next
  case (Cons x xs)
  show ?case
  proof (cases "better x w")
    case True
    with Cons.IH [of x] asym [OF True] show ?thesis
      using weak_trans by auto
  next
    case False
    with Cons.IH [of w] show ?thesis by simp
  qed
qed

text \<open>Nothing in the scanned list beats the winner.\<close>

lemma winner_unbeaten: "x \<in> set (w # xs) \<Longrightarrow> \<not> better x (scan_winner better w xs)"
proof (induction xs arbitrary: w)
  case Nil
  then show ?case by (simp add: irrefl)
next
  case (Cons y xs)
  let ?v = "if better y w then y else w"
  have v: "\<not> better ?v (scan_winner better ?v xs)" by (rule winner_unbeaten_start)
  have "\<not> better y ?v" "\<not> better w ?v"
    by (auto simp: irrefl asym)
  then have "\<not> better y (scan_winner better ?v xs)" "\<not> better w (scan_winner better ?v xs)"
    using v weak_trans by blast+
  with Cons.IH [of ?v] Cons.prems show ?case by auto
qed

text \<open>
  The winner is the first of its class: it strictly beats everything scanned before it.
\<close>

lemma winner_first_split:
  "\<exists>pre post. w # xs = pre @ scan_winner better w xs # post
     \<and> (\<forall>y \<in> set pre. better (scan_winner better w xs) y)"
proof (induction xs arbitrary: w)
  case Nil
  show ?case by (rule exI [of _ "[]"]) simp
next
  case (Cons x xs)
  let ?v = "if better x w then x else w" and ?r = "scan_winner better w (x # xs)"
  obtain pre post where split: "?v # xs = pre @ scan_winner better ?v xs # post"
    and pre: "\<forall>y \<in> set pre. better (scan_winner better ?v xs) y"
    using Cons.IH [of ?v] by blast
  show ?case
  proof (cases "better x w")
    case True
    have "better ?r w"
    proof (cases pre)
      case Nil
      with True split have "scan_winner better x xs = x" by auto
      with True show ?thesis by simp
    next
      case (Cons p ps)
      with True split pre have "better ?r x" by auto
      with True show ?thesis using trans by blast
    qed
    moreover from True have r: "?r = scan_winner better x xs" by simp
    from True split r have "w # x # xs = (w # pre) @ ?r # post" by simp
    moreover from True pre r have "\<forall>y \<in> set pre. better ?r y" by simp
    ultimately have "w # x # xs = (w # pre) @ ?r # post" "\<forall>y \<in> set (w # pre). better ?r y"
      unfolding list.set by blast+
    then show ?thesis by blast
  next
    case False
    show ?thesis
    proof (cases pre)
      case Nil
      with False split have "?r = w" by auto
      then show ?thesis
        by (intro exI [of _ "[]"] exI [of _ "x # xs"]) simp
    next
      case (Cons p ps)
      with False split pre have r: "xs = ps @ ?r # post" and w: "better ?r w"
        and ps: "\<forall>y \<in> set ps. better ?r y" by auto
      from False w have "better ?r x"
        using weak_trans asym by blast
      with r w ps have "w # x # xs = (w # x # ps) @ ?r # post" "\<forall>y \<in> set (w # x # ps). better ?r y"
        by auto
      then show ?thesis by blast
    qed
  qed
qed

lemma first_best_unique:
  assumes "first_best better xs a" "first_best better xs b"
  shows "a = b"
proof -
  obtain p1 q1 where a: "xs = p1 @ a # q1" "\<forall>y \<in> set p1. better a y" "\<forall>y \<in> set q1. \<not> better y a"
    using assms(1) unfolding first_best_def by blast
  obtain p2 q2 where b: "xs = p2 @ b # q2" "\<forall>y \<in> set p2. better b y" "\<forall>y \<in> set q2. \<not> better y b"
    using assms(2) unfolding first_best_def by blast
  from a(1) b(1) have "p1 @ a # q1 = p2 @ b # q2" by simp
  then consider "a = b" | "a \<in> set p2" "b \<in> set q1" | "b \<in> set p1" "a \<in> set q2"
    by (auto simp: append_eq_append_conv2 append_eq_Cons_conv Cons_eq_append_conv)
  then show ?thesis
    using a b by cases blast+
qed

lemma winner_first_best: "first_best better (w # xs) (scan_winner better w xs)"
proof -
  obtain pre post where s: "w # xs = pre @ scan_winner better w xs # post"
    and pre: "\<forall>y \<in> set pre. better (scan_winner better w xs) y"
    using winner_first_split by blast
  have "\<forall>y \<in> set post. \<not> better y (scan_winner better w xs)"
    using winner_unbeaten [of _ w xs] s by (metis in_set_conv_decomp append_Cons append_assoc)
  with s pre show ?thesis
    unfolding first_best_def by blast
qed

lemma first_best_iff: "first_best better (w # xs) e \<longleftrightarrow> e = scan_winner better w xs"
  using winner_first_best first_best_unique by blast

end

text \<open>A numeric key gives a strict preference in both directions.\<close>

locale keyed_preference =
  fixes key :: "'a \<Rightarrow> int"
begin

sublocale smaller: strict_preference "\<lambda>x y. key x < key y"
  by unfold_locales auto

sublocale larger: strict_preference "\<lambda>x y. key y < key x"
  by unfold_locales auto

end

section \<open>Loops that stop\<close>

text \<open>
  A loop that makes its steps \<open>k\<close>, \<open>k + 1\<close>, \dots, at most \<open>left\<close> of them, and goes on after step
  \<open>i\<close> only while \<open>ok i\<close>: its last step is \<open>n\<close>.
\<close>

definition stops_at :: "(nat \<Rightarrow> bool) \<Rightarrow> nat \<Rightarrow> nat \<Rightarrow> nat \<Rightarrow> bool" where
  "stops_at ok k left n \<longleftrightarrow>
     k \<le> n \<and> n < k + left \<and> (\<forall>i. k \<le> i \<and> i < n \<longrightarrow> ok i) \<and> (ok n \<longrightarrow> Suc n = k + left)"

lemma stops_at_now:
  "0 < left \<Longrightarrow> \<not> ok k \<or> left = 1 \<Longrightarrow> stops_at ok k left k"
  by (auto simp: stops_at_def)

lemma stops_at_later:
  assumes "ok k" "stops_at ok' (Suc k) left n" "\<And>i. k < i \<Longrightarrow> ok' i = ok i"
  shows "stops_at ok k (Suc left) n"
proof -
  have "ok i" if "k \<le> i" "i < n" for i
    using assms that by (cases "i = k") (auto simp: stops_at_def)
  then show ?thesis using assms by (auto simp: stops_at_def)
qed

lemma stops_at_unique:
  assumes "stops_at ok k left n" "stops_at ok k left n'"
  shows "n = n'"
  using assms unfolding stops_at_def by (metis Suc_leI le_neq_implies_less linorder_neqE_nat not_less)

text \<open>The length of a streak of \<open>ov\<close> after the steps of a list, when it was \<open>c\<close> before.\<close>

fun streak :: "(nat \<Rightarrow> bool) \<Rightarrow> nat \<Rightarrow> nat list \<Rightarrow> nat" where
  "streak ov c [] = c"
| "streak ov c (i # is) = streak ov (if ov i then Suc c else 0) is"

end
