(* ===== verification/GoStrings.thy ===== *)
theory GoStrings
  imports Prelude
begin

text \<open>
  The part of Go's \<^verbatim>\<open>strings\<close>, \<^verbatim>\<open>strconv\<close> and \<^verbatim>\<open>path/filepath\<close> packages that the modelled
  code uses. A Go string is a sequence of bytes, here a \<open>char list\<close>, so \<open>length\<close> is Go's
  \<^verbatim>\<open>len\<close> and slices are byte slices. \<open>to_lower\<close>, \<open>trim_space\<close> and the glob matcher are the
  ASCII behaviour of their Go originals (Go folds and classifies further Unicode letters and
  spaces; every literal the modelled code searches for is ASCII).
\<close>

section \<open>Prefixes, suffixes, searching\<close>

definition has_prefix :: "string \<Rightarrow> string \<Rightarrow> bool" where
  "has_prefix s p = (take (length p) s = p)"

definition has_suffix :: "string \<Rightarrow> string \<Rightarrow> bool" where
  "has_suffix s p = (length p \<le> length s \<and> drop (length s - length p) s = p)"

definition trim_prefix :: "string \<Rightarrow> string \<Rightarrow> string" where
  "trim_prefix s p = (if has_prefix s p then drop (length p) s else s)"

text \<open>\<^verbatim>\<open>strings.Index\<close>: the first position of a substring.\<close>

fun str_index :: "string \<Rightarrow> string \<Rightarrow> nat option" where
  "str_index [] p = (if p = [] then Some 0 else None)"
| "str_index (c # cs) p =
     (if has_prefix (c # cs) p then Some 0 else map_option Suc (str_index cs p))"

definition str_contains :: "string \<Rightarrow> string \<Rightarrow> bool" where
  "str_contains s p = (str_index s p \<noteq> None)"

definition contains_any :: "string \<Rightarrow> string list \<Rightarrow> bool" where
  "contains_any s ps = list_ex (str_contains s) ps"

text \<open>\<^verbatim>\<open>strings.IndexByte\<close> and \<^verbatim>\<open>strings.LastIndexByte\<close>.\<close>

fun index_byte :: "char \<Rightarrow> string \<Rightarrow> nat option" where
  "index_byte c [] = None"
| "index_byte c (x # xs) = (if x = c then Some 0 else map_option Suc (index_byte c xs))"

fun last_index_byte :: "char \<Rightarrow> string \<Rightarrow> nat option" where
  "last_index_byte c [] = None"
| "last_index_byte c (x # xs) =
     (case last_index_byte c xs of
        Some i \<Rightarrow> Some (Suc i)
      | None \<Rightarrow> if x = c then Some 0 else None)"

lemma has_prefix_append [simp, gostr]: "has_prefix (p @ s) p"
  by (simp add: has_prefix_def)

lemma has_prefix_Nil [simp, gostr]: "has_prefix s []"
  by (simp add: has_prefix_def)

lemma has_prefix_iff: "has_prefix s p \<longleftrightarrow> (\<exists>r. s = p @ r)"
  by (metis append_take_drop_id has_prefix_append has_prefix_def)

lemma has_prefix_Cons [simp, gostr]:
  "has_prefix (x # xs) (y # ys) \<longleftrightarrow> x = y \<and> has_prefix xs ys"
  "\<not> has_prefix [] (y # ys)"
  by (auto simp: has_prefix_def)

lemma has_suffix_append [simp, gostr]: "has_suffix (s @ p) p"
  by (simp add: has_suffix_def)

lemma has_suffix_iff: "has_suffix s p \<longleftrightarrow> (\<exists>r. s = r @ p)"
proof
  assume "has_suffix s p"
  then have "s = take (length s - length p) s @ p"
    unfolding has_suffix_def by (metis append_take_drop_id)
  then show "\<exists>r. s = r @ p" ..
next
  assume "\<exists>r. s = r @ p"
  then show "has_suffix s p" by auto
qed

lemma str_index_Some:
  "str_index s p = Some i \<Longrightarrow> i + length p \<le> length s \<and> take (length p) (drop i s) = p"
proof (induction s arbitrary: i)
  case Nil
  then show ?case by (simp split: if_splits)
next
  case (Cons c cs)
  show ?case
  proof (cases "has_prefix (c # cs) p")
    case True
    with Cons.prems have "i = 0" by simp
    moreover obtain r where "c # cs = p @ r" using True by (auto simp: has_prefix_iff)
    ultimately show ?thesis by (auto dest: arg_cong [where f = length])
  next
    case False
    with Cons.prems obtain j where "i = Suc j" "str_index cs p = Some j" by auto
    with Cons.IH show ?thesis by auto
  qed
qed

lemma str_index_append: "\<exists>i. str_index (l @ p @ r) p = Some i"
proof (induction l)
  case Nil
  have "has_prefix (p @ r) p" by simp
  then have "str_index (p @ r) p = Some 0"
    by (cases "p @ r") (auto simp del: has_prefix_append)
  then show ?case by simp
next
  case (Cons c l)
  then show ?case by auto
qed

text \<open>\<^verbatim>\<open>strings.Contains\<close> means what it says: the pattern occurs as a factor.\<close>

lemma str_contains_iff: "str_contains s p \<longleftrightarrow> (\<exists>l r. s = l @ p @ r)"
proof
  assume "str_contains s p"
  then obtain i where "str_index s p = Some i" by (auto simp: str_contains_def)
  then have "i + length p \<le> length s" "take (length p) (drop i s) = p"
    by (auto dest: str_index_Some)
  then have "s = take i s @ p @ drop (i + length p) s"
    by (metis append_take_drop_id drop_drop add.commute)
  then show "\<exists>l r. s = l @ p @ r" by blast
next
  assume "\<exists>l r. s = l @ p @ r"
  then obtain l r where "s = l @ p @ r" by blast
  then show "str_contains s p" using str_index_append [of l p r] by (auto simp: str_contains_def)
qed

lemma index_byte_Some:
  "index_byte c s = Some i \<Longrightarrow> i < length s \<and> s ! i = c \<and> c \<notin> set (take i s)"
  by (induction s arbitrary: i) (auto split: if_splits)

lemma index_byte_None [simp, gostr]: "index_byte c s = None \<longleftrightarrow> c \<notin> set s"
  by (induction s) auto

lemma index_byte_append [simp, gostr]: "c \<notin> set s \<Longrightarrow> index_byte c (s @ c # t) = Some (length s)"
  by (induction s) auto

lemma last_index_byte_None [simp, gostr]: "last_index_byte c s = None \<longleftrightarrow> c \<notin> set s"
  by (induction s) (auto split: option.splits)

lemma last_index_byte_append [simp, gostr]:
  "c \<notin> set t \<Longrightarrow> last_index_byte c (s @ c # t) = Some (length s)"
  by (induction s) (auto split: option.splits)

lemma last_index_byte_Some:
  "last_index_byte c s = Some i \<Longrightarrow> i < length s \<and> s ! i = c \<and> c \<notin> set (drop (Suc i) s)"
  by (induction s arbitrary: i) (auto split: option.splits if_splits)

section \<open>Replacing\<close>

text \<open>
  \<^verbatim>\<open>strings.ReplaceAll\<close> for a non-empty pattern, left to right without overlaps.
\<close>

function replace_all :: "string \<Rightarrow> string \<Rightarrow> string \<Rightarrow> string" where
  "replace_all old new [] = []"
| "replace_all old new (c # cs) =
     (if old \<noteq> [] \<and> has_prefix (c # cs) old
      then new @ replace_all old new (drop (length old) (c # cs))
      else c # replace_all old new cs)"
  by pat_completeness auto
termination
proof (relation "measure (\<lambda>(_, _, s). length s)", goal_cases)
  case 1
  show ?case by simp
next
  case (2 old new c cs)
  then show ?case by (cases old) auto
next
  case 3
  show ?case by simp
qed

section \<open>Case folding, blanks\<close>

definition char_between :: "char \<Rightarrow> char \<Rightarrow> char \<Rightarrow> bool" where
  "char_between a c b =
     ((of_char a :: nat) \<le> of_char c \<and> (of_char c :: nat) \<le> of_char b)"

definition lower_char :: "char \<Rightarrow> char" where
  "lower_char c = (if char_between CHR ''A'' c CHR ''Z'' then char_of ((of_char c :: nat) + 32) else c)"

definition to_lower :: "string \<Rightarrow> string" where
  "to_lower s = map lower_char s"

definition is_space :: "char \<Rightarrow> bool" where
  "is_space c = (c = CHR '' '' \<or> c = CHR 0x09 \<or> c = CHR 0x0A \<or> c = CHR 0x0B \<or> c = CHR 0x0C \<or> c = CHR 0x0D)"

definition trim_space :: "string \<Rightarrow> string" where
  "trim_space s = rev (dropWhile is_space (rev (dropWhile is_space s)))"

lemma length_to_lower [simp]: "length (to_lower s) = length s"
  by (simp add: to_lower_def)

lemma to_lower_append [simp]: "to_lower (s @ t) = to_lower s @ to_lower t"
  by (simp add: to_lower_def)

lemma trim_space_id: "(\<forall>c \<in> set s. \<not> is_space c) \<Longrightarrow> trim_space s = s"
proof -
  assume a: "\<forall>c \<in> set s. \<not> is_space c"
  then have "dropWhile is_space s = s" by (cases s) auto
  moreover from a have "dropWhile is_space (rev s) = rev s" by (cases "rev s") (auto dest: arg_cong [where f = set])
  ultimately show ?thesis by (simp add: trim_space_def)
qed

lemma trim_space_Nil [simp]: "trim_space [] = []"
  by (simp add: trim_space_def)

lemma trim_space_Nil_iff: "trim_space s = [] \<longleftrightarrow> (\<forall>c \<in> set s. is_space c)"
proof -
  have "(\<forall>c \<in> set (dropWhile is_space s). is_space c) \<longleftrightarrow> (\<forall>c \<in> set s. is_space c)"
    by (induction s) auto
  then show ?thesis
    by (simp add: trim_space_def dropWhile_eq_Nil_conv)
qed

lemma set_trim_space: "set (trim_space s) \<subseteq> set s"
  unfolding trim_space_def by (auto dest!: set_dropWhileD)

section \<open>Splitting and joining\<close>

text \<open>\<^verbatim>\<open>strings.Split\<close> at a one-byte separator; the result is never empty.\<close>

fun split_on :: "char \<Rightarrow> string \<Rightarrow> string list" where
  "split_on c [] = [[]]"
| "split_on c (x # xs) =
     (if x = c then [] # split_on c xs
      else (case split_on c xs of [] \<Rightarrow> [[x]] | w # ws \<Rightarrow> (x # w) # ws))"

fun join_with :: "string \<Rightarrow> string list \<Rightarrow> string" where
  "join_with sep [] = []"
| "join_with sep [w] = w"
| "join_with sep (w # ws) = w @ sep @ join_with sep ws"

lemma split_on_not_Nil [simp]: "split_on c s \<noteq> []"
  by (induction s) (auto split: list.splits)

lemma join_with_Cons: "join_with sep (w # ws) = w @ (if ws = [] then [] else sep @ join_with sep ws)"
  by (cases ws) simp_all

lemma join_split: "join_with [c] (split_on c s) = s"
  by (induction s) (auto simp: join_with_Cons split: list.splits)

lemma split_on_no_sep: "w \<in> set (split_on c s) \<Longrightarrow> c \<notin> set w"
  by (induction s arbitrary: w) (auto split: list.splits if_splits)

lemma split_on_single: "c \<notin> set s \<Longrightarrow> split_on c s = [s]"
  by (induction s) auto

lemma split_on_append: "c \<notin> set s \<Longrightarrow> split_on c (s @ c # t) = s # split_on c t"
  by (induction s) auto

section \<open>Decimal numbers\<close>

definition is_digit :: "char \<Rightarrow> bool" where
  "is_digit c = char_between CHR ''0'' c CHR ''9''"

definition digit_val :: "char \<Rightarrow> nat" where
  "digit_val c = of_char c - 48"

definition digits_val :: "string \<Rightarrow> nat" where
  "digits_val s = foldl (\<lambda>n c. 10 * n + digit_val c) 0 s"

definition all_digits :: "string \<Rightarrow> bool" where
  "all_digits s = (s \<noteq> [] \<and> list_all is_digit s)"

text \<open>
  \<^verbatim>\<open>strconv.Atoi\<close> on a 64-bit platform: an optional sign and decimal digits, an error (None)
  for anything else and for values outside the \<^verbatim>\<open>int\<close> range.
\<close>

definition int64_ok :: "int \<Rightarrow> bool" where
  "int64_ok i = (- (2 ^ 63) \<le> i \<and> i < 2 ^ 63)"

definition atoi :: "string \<Rightarrow> int option" where
  "atoi s =
     (let neg = has_prefix s ''-'';
          body = (if neg \<or> has_prefix s ''+'' then tl s else s);
          v = (if neg then - int (digits_val body) else int (digits_val body))
      in if all_digits body \<and> int64_ok v then Some v else None)"

text \<open>\<^verbatim>\<open>strconv.Itoa\<close> / \<^verbatim>\<open>%d\<close>.\<close>

fun nat_digits :: "nat \<Rightarrow> string" where
  "nat_digits n =
     (if n < 10 then [char_of (48 + n)] else nat_digits (n div 10) @ [char_of (48 + n mod 10)])"

declare nat_digits.simps [simp del]

definition itoa :: "int \<Rightarrow> string" where
  "itoa i = (if i < 0 then ''-'' @ nat_digits (nat (- i)) else nat_digits (nat i))"

lemma of_char_digit [simp]: "d < 10 \<Longrightarrow> of_char (char_of (48 + d) :: char) = (48 + d :: nat)"
  by (simp add: of_char_of)

lemma is_digit_char_of: "d < 10 \<Longrightarrow> is_digit (char_of (48 + d :: nat))"
  by (simp add: is_digit_def char_between_def)

lemma digit_val_char_of: "d < 10 \<Longrightarrow> digit_val (char_of (48 + d :: nat)) = d"
  by (simp add: digit_val_def)

lemma digits_val_snoc: "digits_val (s @ [c]) = 10 * digits_val s + digit_val c"
  by (simp add: digits_val_def)

lemma nat_digits_correct: "all_digits (nat_digits n) \<and> digits_val (nat_digits n) = n"
proof (induction n rule: nat_digits.induct)
  case (1 n)
  show ?case
  proof (cases "n < 10")
    case True
    then show ?thesis
      by (simp add: nat_digits.simps [of n] all_digits_def digits_val_def is_digit_char_of digit_val_char_of)
  next
    case False
    with "1.IH" have "all_digits (nat_digits (n div 10))" "digits_val (nat_digits (n div 10)) = n div 10"
      by simp_all
    with False show ?thesis
      by (simp add: nat_digits.simps [of n] all_digits_def digits_val_snoc is_digit_char_of digit_val_char_of)
  qed
qed

lemma nat_digits_head: "\<exists>c cs. nat_digits n = c # cs \<and> is_digit c"
  using nat_digits_correct [of n] by (cases "nat_digits n") (auto simp: all_digits_def)

lemma nat_digits_unsigned: "\<not> has_prefix (nat_digits n) ''-''" "\<not> has_prefix (nat_digits n) ''+''"
  using nat_digits_head [of n] by (auto simp: is_digit_def char_between_def)

text \<open>Printing and reading back an \<^verbatim>\<open>int\<close> is the identity.\<close>

lemma atoi_itoa: "int64_ok i \<Longrightarrow> atoi (itoa i) = Some i"
  using nat_digits_correct [of "nat i"] nat_digits_correct [of "nat (- i)"]
    nat_digits_unsigned [of "nat i"]
  by (auto simp: atoi_def itoa_def Let_def)

text \<open>The canonical decimal form of a number: no leading zero but in \<open>0\<close> itself.\<close>

definition canonical_digits :: "string \<Rightarrow> bool" where
  "canonical_digits s = (all_digits s \<and> (length s = 1 \<or> hd s \<noteq> CHR ''0''))"

lemma digit_val_less: "is_digit c \<Longrightarrow> digit_val c < 10"
  by (auto simp: is_digit_def char_between_def digit_val_def)

lemma char_of_digit_val: "is_digit c \<Longrightarrow> char_of (48 + digit_val c) = c"
  by (simp add: is_digit_def char_between_def digit_val_def)

lemma digits_val_pos: "s \<noteq> [] \<Longrightarrow> list_all is_digit s \<Longrightarrow> hd s \<noteq> CHR ''0'' \<Longrightarrow> 0 < digits_val s"
proof (induction s rule: rev_induct)
  case Nil
  then show ?case by simp
next
  case (snoc c s)
  show ?case
  proof (cases "s = []")
    case True
    have "digit_val c \<noteq> 0"
    proof
      assume "digit_val c = 0"
      with snoc.prems(2) have "char_of (48 + 0 :: nat) = c" using char_of_digit_val [of c] by simp
      moreover have "char_of (48 + 0 :: nat) = CHR ''0''" by code_simp
      ultimately show False using snoc.prems(3) True by simp
    qed
    with True show ?thesis by (simp add: digits_val_def)
  next
    case False
    with snoc show ?thesis by (simp add: digits_val_snoc)
  qed
qed

lemma nat_digits_digits_val: "canonical_digits s \<Longrightarrow> nat_digits (digits_val s) = s"
proof (induction s rule: rev_induct)
  case Nil
  then show ?case by (simp add: canonical_digits_def all_digits_def)
next
  case (snoc c s)
  then have c: "is_digit c" by (simp add: canonical_digits_def all_digits_def)
  show ?case
  proof (cases "s = []")
    case True
    with c show ?thesis
      by (simp add: digits_val_def nat_digits.simps [of "digit_val c"] digit_val_less char_of_digit_val)
  next
    case False
    then have can: "canonical_digits s" and hd: "hd s \<noteq> CHR ''0''" "list_all is_digit s"
      using snoc.prems by (auto simp: canonical_digits_def all_digits_def)
    have "0 < digits_val s" using digits_val_pos [OF False hd(2,1)] .
    moreover have "(10 * digits_val s + digit_val c) div 10 = digits_val s"
      and "(10 * digits_val s + digit_val c) mod 10 = digit_val c"
      using digit_val_less [OF c] by simp_all
    ultimately show ?thesis
      using snoc.IH [OF can] c
      by (simp add: digits_val_snoc nat_digits.simps [of "10 * digits_val s + digit_val c"] char_of_digit_val)
  qed
qed

lemma nat_digits_canonical: "canonical_digits (nat_digits n)"
proof -
  have "length (nat_digits n) = 1 \<or> hd (nat_digits n) \<noteq> CHR ''0''"
  proof (induction n rule: nat_digits.induct)
    case (1 n)
    show ?case
    proof (cases "n < 10")
      case True
      then show ?thesis by (simp add: nat_digits.simps [of n])
    next
      case False
      then have IH: "length (nat_digits (n div 10)) = 1 \<or> hd (nat_digits (n div 10)) \<noteq> CHR ''0''"
        by (rule "1.IH")
      have "hd (nat_digits (n div 10)) \<noteq> CHR ''0''"
      proof (cases "length (nat_digits (n div 10)) = 1")
        case True
        then obtain c where c: "nat_digits (n div 10) = [c]" by (auto simp: length_Suc_conv)
        with nat_digits_correct [of "n div 10"] have "digit_val c = n div 10" by (simp add: digits_val_def)
        moreover have "digit_val CHR ''0'' = 0" by code_simp
        ultimately show ?thesis using c False by auto
      next
        case False
        with IH show ?thesis by simp
      qed
      moreover have "nat_digits (n div 10) \<noteq> []" using nat_digits_head [of "n div 10"] by auto
      ultimately show ?thesis using False by (simp add: nat_digits.simps [of n])
    qed
  qed
  then show ?thesis using nat_digits_correct [of n] by (simp add: canonical_digits_def)
qed

end
