(* ===== verification/AsyncRuns.thy ===== *)
theory AsyncRuns
  imports GoStrings "HOL-Library.AList"
begin

text \<open>
  Runs in the background, \<^verbatim>\<open>src/internal/domain/chat/async_executor.go\<close>, with the table of runs
  (\<^verbatim>\<open>src/internal/domain/chat/repository.go\<close>) and the handler that cancels a run (\<^verbatim>\<open>src/internal/domain/chat/handler.go\<close>): a
  machine in which requests to enqueue and to cancel, the tasks of the workers of several processes, the clock and a
  shutdown take turns. Each access to the table, to the queue or to a map that goroutines share is a step of its own; what
  the systems outside answer is part of the step. A run's event buffer is the list of the events appended to it.
\<close>

section \<open>The table of runs\<close>

datatype run_status = RunQueued | RunActive | RunCompleted | RunFailed | RunCancelled

record chat_run =
  cr_id :: string
  cr_session :: string
  cr_status :: run_status
  cr_last_event :: string
  cr_started :: "nat option"
  cr_completed :: "nat option"
  cr_reason :: "string option"
  cr_created :: nat

definition is_open :: "chat_run \<Rightarrow> bool" where
  "is_open r \<longleftrightarrow> cr_status r = RunQueued \<or> cr_status r = RunActive"

text \<open>The partial unique index on the table: at most one open run of a session.\<close>

definition one_open :: "chat_run list \<Rightarrow> bool" where
  "one_open rs \<longleftrightarrow> distinct (map cr_session (filter is_open rs))"

datatype db_error = UniqueViolation | ForeignKey | Unavailable

definition run_of :: "string \<Rightarrow> chat_run list \<Rightarrow> chat_run option" where
  "run_of i rs = find (\<lambda>r. cr_id r = i) rs"

definition change_run :: "string \<Rightarrow> (chat_run \<Rightarrow> chat_run) \<Rightarrow> chat_run list \<Rightarrow> chat_run list" where
  "change_run i f rs = map (\<lambda>r. if cr_id r = i then f r else r) rs"

definition create_run :: "nat \<Rightarrow> string \<Rightarrow> string \<Rightarrow> run_status \<Rightarrow> chat_run list \<Rightarrow> db_error + chat_run list" where
  "create_run now i session st rs =
     (let r = \<lparr>cr_id = i, cr_session = session, cr_status = st, cr_last_event = '''',
               cr_started = (if st = RunQueued then None else Some now), cr_completed = None, cr_reason = None,
               cr_created = now\<rparr>
      in if one_open (rs @ [r]) then Inr (rs @ [r]) else Inl UniqueViolation)"

text \<open>The newest open run of a session.\<close>

definition active_run_of :: "string \<Rightarrow> chat_run list \<Rightarrow> chat_run option" where
  "active_run_of session rs =
     (case rev (sort_key cr_created (filter (\<lambda>r. cr_session r = session \<and> is_open r) rs)) of
        [] \<Rightarrow> None | r # _ \<Rightarrow> Some r)"

definition update_run_status :: "nat \<Rightarrow> string \<Rightarrow> run_status \<Rightarrow> chat_run list \<Rightarrow> db_error + chat_run list" where
  "update_run_status now i st rs =
     (let rs' = change_run i (\<lambda>r. if st = RunActive
                then r\<lparr>cr_status := st, cr_last_event := '''', cr_started := Some (case cr_started r of None \<Rightarrow> now | Some t \<Rightarrow> t)\<rparr>
                else r\<lparr>cr_status := st, cr_last_event := ''''\<rparr>) rs
      in if one_open rs' then Inr rs' else Inl UniqueViolation)"

definition mark_run_completed :: "nat \<Rightarrow> string \<Rightarrow> chat_run list \<Rightarrow> chat_run list" where
  "mark_run_completed now i = change_run i (\<lambda>r. r\<lparr>cr_status := RunCompleted, cr_completed := Some now\<rparr>)"

definition mark_run_failed :: "nat \<Rightarrow> string \<Rightarrow> string \<Rightarrow> chat_run list \<Rightarrow> chat_run list" where
  "mark_run_failed now i reason =
     change_run i (\<lambda>r. r\<lparr>cr_status := RunFailed, cr_completed := Some now, cr_reason := Some reason\<rparr>)"

section \<open>Requests, cancellations and tasks\<close>

datatype enqueue_error =
  SessionNotFound | LookupFailed string | SessionArchived | AgentNotFound | ActiveCheckFailed | RunAlreadyActive
| CreateFailed | QueueUnavailable string

text \<open>
  \<open>EqExpire\<close> has the run that is to be expired and the reason, \<open>EqPublish\<close> and \<open>EqFail\<close> have the new run.
\<close>

datatype enqueue_phase =
  EqSession | EqActive | EqExpire string string | EqCreate | EqPublish string | EqFail string string
| EqRefused enqueue_error | EqAccepted string

record enqueue_req =
  eq_pod :: nat
  eq_session :: string
  eq_voice :: bool
  eq_override :: bool
  eq_phase :: enqueue_phase

datatype cancel_phase = CnCheck | CnStore | CnLoad | CnCall nat | CnWrite | CnCancelled | CnNotFound

record cancel_req =
  cn_pod :: nat
  cn_session :: string
  cn_run :: string
  cn_phase :: cancel_phase

text \<open>
  The phases of \<^verbatim>\<open>processTask\<close> are named by what comes next. \<open>TkFail\<close> has the reason, the text for the buffer and
  the cause for a message to the user; \<open>TkComplete\<close> counts the attempts.
\<close>

datatype task_phase =
  TkStore | TkCheck | TkDrop | TkRead | TkActivate | TkSession | TkRoute | TkBind string | TkStart
| TkFail string string "string option" | TkDrain | TkJudge | TkAborted | TkCancelWrite | TkTimeout | TkLlmFail | TkComplete nat
| TkExit | TkUnregister | TkForget | TkGone

record run_task =
  rt_pod :: nat
  rt_run :: string
  rt_session :: string
  rt_voice :: bool
  rt_override :: bool
  rt_phase :: task_phase
  rt_deadline :: nat
  rt_cancelled :: bool
  rt_agent :: string
  rt_voice_on :: bool
  rt_text :: string
  rt_audio :: bool
  rt_wrote :: bool
  rt_llm_error :: string

record run_event =
  re_type :: string
  re_data :: string

record run_buffer =
  rb_events :: "run_event list"
  rb_done :: bool

text \<open>What goes to other tables and to the hooks. The texts for the user are named by their cause.\<close>

datatype user_text = StartupText string | TimeoutText

datatype async_effect =
  BindAgent string string | SaveSnapshots string | UserMessage string user_text
| HookFired string string run_status int int string | MetricsRecorded string string int int

record async_env =
  ae_timeout :: nat
  ae_timeout_text :: string
  ae_checks_agent :: bool
  ae_has_queue :: bool
  ae_metrics :: bool
  ae_error_data :: "string \<Rightarrow> string \<Rightarrow> string"
  ae_error_info :: "string \<Rightarrow> (string \<times> string) option"
  ae_content :: "string \<Rightarrow> string option"
  ae_redact :: "string \<Rightarrow> string"

text \<open>
  The queue has a message for each run: the run, its session, whether it wants speech and whether it has a prompt of its own.
\<close>

record async_state =
  as_now :: nat
  as_runs :: "chat_run list"
  as_queue :: "(string \<times> string \<times> bool \<times> bool) list"
  as_requests :: "enqueue_req list"
  as_cancels :: "cancel_req list"
  as_tasks :: "run_task list"
  as_cancellers :: "((nat \<times> string) \<times> nat) list"
  as_cancelled :: "(nat \<times> string) set"
  as_buffers :: "((nat \<times> string) \<times> run_buffer) list"
  as_effects :: "async_effect list"

definition new_async :: async_state where
  "new_async = \<lparr>as_now = 0, as_runs = [], as_queue = [], as_requests = [], as_cancels = [], as_tasks = [],
                as_cancellers = [], as_cancelled = {}, as_buffers = [], as_effects = []\<rparr>"

definition set_runs :: "chat_run list \<Rightarrow> async_state \<Rightarrow> async_state" where
  "set_runs rs s = s\<lparr>as_runs := rs\<rparr>"

definition add_effect :: "async_effect \<Rightarrow> async_state \<Rightarrow> async_state" where
  "add_effect e s = s\<lparr>as_effects := as_effects s @ [e]\<rparr>"

text \<open>A write whose error is ignored: it takes effect if the database takes it.\<close>

definition try_runs :: "bool \<Rightarrow> db_error + chat_run list \<Rightarrow> async_state \<Rightarrow> async_state" where
  "try_runs ok r s = (case r of Inr rs \<Rightarrow> if ok then set_runs rs s else s | Inl _ \<Rightarrow> s)"

section \<open>Buffers\<close>

definition open_buffer :: "nat \<Rightarrow> string \<Rightarrow> async_state \<Rightarrow> async_state" where
  "open_buffer pod run s =
     (case map_of (as_buffers s) (pod, run) of
        Some _ \<Rightarrow> s
      | None \<Rightarrow> s\<lparr>as_buffers := AList.update (pod, run) \<lparr>rb_events = [], rb_done = False\<rparr> (as_buffers s)\<rparr>)"

definition change_buffer :: "nat \<Rightarrow> string \<Rightarrow> (run_buffer \<Rightarrow> run_buffer) \<Rightarrow> async_state \<Rightarrow> async_state" where
  "change_buffer pod run f s =
     (case map_of (as_buffers s) (pod, run) of
        None \<Rightarrow> s
      | Some b \<Rightarrow> s\<lparr>as_buffers := AList.update (pod, run) (f b) (as_buffers s)\<rparr>)"

definition append_event :: "run_event \<Rightarrow> run_task \<Rightarrow> async_state \<Rightarrow> async_state" where
  "append_event ev t = change_buffer (rt_pod t) (rt_run t) (\<lambda>b. b\<lparr>rb_events := rb_events b @ [ev]\<rparr>)"

definition append_buffered_error :: "async_env \<Rightarrow> string \<Rightarrow> string \<Rightarrow> run_task \<Rightarrow> async_state \<Rightarrow> async_state" where
  "append_buffered_error env msg code = append_event \<lparr>re_type = ''error'', re_data = ae_error_data env msg code\<rparr>"
section \<open>Enqueueing\<close>

text \<open>The session as the lookup returns it: whether it is archived, and its agent.\<close>

datatype lookup_error = NoSuchRow | OtherError string

definition check_session :: "lookup_error + (bool \<times> string option) \<Rightarrow> bool \<Rightarrow> enqueue_error option" where
  "check_session row agent_exists =
     (case row of
        Inl NoSuchRow \<Rightarrow> Some SessionNotFound
      | Inl (OtherError e) \<Rightarrow> Some (LookupFailed e)
      | Inr (archived, agent) \<Rightarrow>
          if archived then Some SessionArchived
          else if agent \<noteq> None \<and> \<not> agent_exists then Some AgentNotFound
          else None)"

datatype enqueue_event =
  EqSkipCheck | EqChecked "lookup_error + (bool \<times> string option)" bool
| EqLookedUp bool | EqExpireQueued | EqExpireActive | EqWritten bool | EqInserted string "db_error option" | EqPublished bool

definition queue_expired :: "async_env \<Rightarrow> nat \<Rightarrow> chat_run \<Rightarrow> bool" where
  "queue_expired env now r \<longleftrightarrow> cr_status r = RunQueued \<and> cr_created r + 2 * ae_timeout env < now"

definition run_expired :: "async_env \<Rightarrow> nat \<Rightarrow> chat_run \<Rightarrow> bool" where
  "run_expired env now r \<longleftrightarrow> (case cr_started r of None \<Rightarrow> False | Some t \<Rightarrow> t + ae_timeout env < now)"

text \<open>The guard against a second run: where to go on, with the event that tells the cases apart.\<close>

definition guard_active :: "async_env \<Rightarrow> nat \<Rightarrow> chat_run option \<Rightarrow> enqueue_event \<times> enqueue_phase" where
  "guard_active env now found =
     (case found of
        None \<Rightarrow> (EqLookedUp True, EqCreate)
      | Some r \<Rightarrow>
          if queue_expired env now r then (EqExpireQueued, EqExpire (cr_id r) (''run expired in queue '' @ [CHR 0xE2, CHR 0x80, CHR 0x94] @ '' worker may be down''))
          else if run_expired env now r
          then (EqExpireActive, EqExpire (cr_id r) ''run exceeded maximum duration and was auto-expired'')
          else (EqLookedUp True, EqRefused RunAlreadyActive))"

definition put_request :: "nat \<Rightarrow> enqueue_req \<Rightarrow> enqueue_phase \<Rightarrow> async_state \<Rightarrow> async_state" where
  "put_request k q ph s = s\<lparr>as_requests := (as_requests s)[k := q\<lparr>eq_phase := ph\<rparr>]\<rparr>"

text \<open>A new run has an identifier that no run has.\<close>

definition insert_run :: "async_env \<Rightarrow> nat \<Rightarrow> string \<Rightarrow> db_error option \<Rightarrow> enqueue_req \<Rightarrow> async_state \<Rightarrow> async_state option" where
  "insert_run env k i err q s =
     (if i \<in> cr_id ` set (as_runs s) then None
      else case err of
        Some ForeignKey \<Rightarrow> Some (put_request k q (EqRefused SessionNotFound) s)
      | Some _ \<Rightarrow> Some (put_request k q (EqRefused CreateFailed) s)
      | None \<Rightarrow>
          (case create_run (as_now s) i (eq_session q) RunQueued (as_runs s) of
             Inl _ \<Rightarrow> Some (put_request k q (EqRefused RunAlreadyActive) s)
           | Inr rs \<Rightarrow>
               Some (put_request k q (if ae_has_queue env then EqPublish i else EqAccepted i)
                       (open_buffer (eq_pod q) i (set_runs rs s)))))"

definition enqueue_step :: "async_env \<Rightarrow> nat \<Rightarrow> enqueue_event \<Rightarrow> enqueue_req \<Rightarrow> async_state \<Rightarrow> async_state option" where
  "enqueue_step env k ev q s =
     (case eq_phase q of
        EqSession \<Rightarrow>
          (case ev of
             EqSkipCheck \<Rightarrow> if ae_checks_agent env then None else Some (put_request k q EqActive s)
           | EqChecked row exists \<Rightarrow>
               if \<not> ae_checks_agent env then None
               else Some (put_request k q (case check_session row exists of Some e \<Rightarrow> EqRefused e | None \<Rightarrow> EqActive) s)
           | _ \<Rightarrow> None)
      | EqActive \<Rightarrow>
          if ev = EqLookedUp False then Some (put_request k q (EqRefused ActiveCheckFailed) s)
          else (case guard_active env (as_now s) (active_run_of (eq_session q) (as_runs s)) of
                  (ev', ph) \<Rightarrow> if ev = ev' then Some (put_request k q ph s) else None)
      | EqExpire i reason \<Rightarrow>
          (case ev of
             EqWritten ok \<Rightarrow> Some (put_request k q EqCreate (try_runs ok (Inr (mark_run_failed (as_now s) i reason (as_runs s))) s))
           | _ \<Rightarrow> None)
      | EqCreate \<Rightarrow> (case ev of EqInserted i err \<Rightarrow> insert_run env k i err q s | _ \<Rightarrow> None)
      | EqPublish i \<Rightarrow>
          (case ev of
             EqPublished ok \<Rightarrow>
               if ok then Some (put_request k q (EqAccepted i) (s\<lparr>as_queue := as_queue s @ [(i, eq_session q, eq_voice q, eq_override q)]\<rparr>))
               else Some (put_request k q (EqFail i ''chat queue is temporarily unavailable'') s)
           | _ \<Rightarrow> None)
      | EqFail i reason \<Rightarrow>
          (case ev of
             EqWritten ok \<Rightarrow>
               Some (put_request k q (EqRefused (QueueUnavailable i))
                       ((try_runs ok (Inr (mark_run_failed (as_now s) i reason (as_runs s))) s)
                          \<lparr>as_buffers := AList.delete (eq_pod q, i) (as_buffers s)\<rparr>))
           | _ \<Rightarrow> None)
      | _ \<Rightarrow> None)"

section \<open>Cancelling\<close>

text \<open>
  \<^verbatim>\<open>cancelRun\<close> for a run of the executor, with \<^verbatim>\<open>Cancel\<close>: the intent is stored before the cancel function is looked up. The
  session of the address must be the run's.
\<close>

datatype cancel_event = CnRead bool | CnGo | CnWritten bool

definition put_cancel :: "nat \<Rightarrow> cancel_req \<Rightarrow> cancel_phase \<Rightarrow> async_state \<Rightarrow> async_state" where
  "put_cancel k c ph s = s\<lparr>as_cancels := (as_cancels s)[k := c\<lparr>cn_phase := ph\<rparr>]\<rparr>"

definition cancel_context :: "nat \<Rightarrow> async_state \<Rightarrow> async_state" where
  "cancel_context i s = s\<lparr>as_tasks := (as_tasks s)[i := (as_tasks s ! i)\<lparr>rt_cancelled := True\<rparr>]\<rparr>"

definition cancel_step :: "nat \<Rightarrow> cancel_event \<Rightarrow> cancel_req \<Rightarrow> async_state \<Rightarrow> async_state option" where
  "cancel_step k ev c s =
     (case cn_phase c of
        CnCheck \<Rightarrow>
          (case ev of
             CnRead ok \<Rightarrow>
               Some (put_cancel k c
                 (case run_of (cn_run c) (as_runs s) of
                    None \<Rightarrow> CnNotFound
                  | Some r \<Rightarrow>
                      if \<not> ok \<or> (cn_session c \<noteq> '''' \<and> cr_session r \<noteq> cn_session c) then CnNotFound else CnStore) s)
           | _ \<Rightarrow> None)
      | CnStore \<Rightarrow>
          if ev = CnGo then Some (put_cancel k c CnLoad (s\<lparr>as_cancelled := insert (cn_pod c, cn_run c) (as_cancelled s)\<rparr>)) else None
      | CnLoad \<Rightarrow>
          if ev = CnGo
          then Some (put_cancel k c
                 (case map_of (as_cancellers s) (cn_pod c, cn_run c) of Some i \<Rightarrow> CnCall i | None \<Rightarrow> CnWrite) s)
          else None
      | CnCall i \<Rightarrow> if ev = CnGo then Some (put_cancel k c CnCancelled (cancel_context i s)) else None
      | CnWrite \<Rightarrow>
          (case ev of
             CnWritten ok \<Rightarrow>
               (case update_run_status (as_now s) (cn_run c) RunCancelled (as_runs s) of
                  Inr rs \<Rightarrow> Some (if ok then put_cancel k c CnCancelled (set_runs rs s) else put_cancel k c CnNotFound s)
                | Inl _ \<Rightarrow> Some (put_cancel k c CnNotFound s))
           | _ \<Rightarrow> None)
      | _ \<Rightarrow> None)"

text \<open>\<^verbatim>\<open>Shutdown\<close>, for one run that it finds.\<close>

definition shutdown_one :: "nat \<Rightarrow> string \<Rightarrow> async_state \<Rightarrow> async_state option" where
  "shutdown_one pod run s =
     (case map_of (as_cancellers s) (pod, run) of
        None \<Rightarrow> None
      | Some i \<Rightarrow> Some (cancel_context i (s\<lparr>as_cancelled := insert (pod, run) (as_cancelled s)\<rparr>)))"
section \<open>Tasks\<close>

text \<open>What the systems outside answer to a task, in the order of its phases.\<close>

datatype task_event =
  TkGo | TkWritten bool | TkLoaded bool | TkSessionRow "string + string option" | TkRouted "string + string option"
| TkBound "string option" bool | TkStarted "string option" bool bool | TkEvent run_event "string option" | TkClosed "string option"
| TkPersisted bool "(int \<times> int \<times> int) option" | TkStored bool bool

definition context_done :: "nat \<Rightarrow> run_task \<Rightarrow> bool" where
  "context_done now t \<longleftrightarrow> rt_cancelled t \<or> rt_deadline t \<le> now"

definition put_task :: "nat \<Rightarrow> run_task \<Rightarrow> async_state \<Rightarrow> async_state" where
  "put_task i t s = s\<lparr>as_tasks := (as_tasks s)[i := t]\<rparr>"

definition goto :: "nat \<Rightarrow> run_task \<Rightarrow> task_phase \<Rightarrow> async_state \<Rightarrow> async_state" where
  "goto i t ph = put_task i (t\<lparr>rt_phase := ph\<rparr>)"

definition fire_hooks :: "run_status \<Rightarrow> int \<Rightarrow> int \<Rightarrow> string \<Rightarrow> run_task \<Rightarrow> async_state \<Rightarrow> async_state" where
  "fire_hooks st turns tokens msg t = add_effect (HookFired (rt_run t) (rt_session t) st turns tokens msg)"

definition append_voice :: "run_task \<Rightarrow> string option \<Rightarrow> run_task \<times> (async_state \<Rightarrow> async_state)" where
  "append_voice t synth =
     (case (trim_space (rt_text t) \<noteq> [] \<and> rt_voice_on t, synth) of
        (True, Some audio) \<Rightarrow> (t\<lparr>rt_audio := True\<rparr>, append_event \<lparr>re_type = ''audio_delta'', re_data = audio\<rparr> t)
      | _ \<Rightarrow> (t\<lparr>rt_audio := False\<rparr>, id))"

text \<open>One event of the runner.\<close>

definition note_error :: "async_env \<Rightarrow> run_event \<Rightarrow> run_task \<Rightarrow> run_task" where
  "note_error env ev t =
     (case ae_error_info env (re_data ev) of
        Some (code, msg) \<Rightarrow>
          if re_type ev = ''error'' \<and> code \<in> {''stream_consume'', ''llm_call''}
          then t\<lparr>rt_wrote := True, rt_llm_error := msg\<rparr> else t
      | None \<Rightarrow> t)"

definition drain_event :: "async_env \<Rightarrow> run_event \<Rightarrow> string option \<Rightarrow> run_task \<Rightarrow> run_task \<times> (async_state \<Rightarrow> async_state)" where
  "drain_event env ev synth t =
     (let t1 = (if re_type ev = ''text_delta''
                then t\<lparr>rt_text := rt_text t @ (case ae_content env (re_data ev) of None \<Rightarrow> '''' | Some c \<Rightarrow> c)\<rparr> else t);
          (t2, voice) = (if rt_voice t \<and> re_type ev = ''run_complete'' then append_voice t1 synth else (t1, id))
      in (note_error env ev t2, append_event ev t \<circ> voice))"

text \<open>The end of the events: without speech so far it is tried once more.\<close>

definition close_events :: "string option \<Rightarrow> run_task \<Rightarrow> run_task \<times> (async_state \<Rightarrow> async_state)" where
  "close_events synth t = (if rt_voice t \<and> \<not> rt_audio t then append_voice t synth else (t, id))"

text \<open>
  The metrics of a run with tokens. The numbers are the turns, input and output tokens that the metadata of the run has.
\<close>

definition record_metrics :: "async_env \<Rightarrow> (int \<times> int \<times> int) option \<Rightarrow> run_task \<Rightarrow> async_state \<Rightarrow> async_state" where
  "record_metrics env meta t s =
     (case meta of
        Some (turns, input, output) \<Rightarrow>
          if ae_metrics env \<and> (input \<noteq> 0 \<or> output \<noteq> 0) then add_effect (MetricsRecorded (rt_run t) (rt_agent t) input output) s
          else s
      | None \<Rightarrow> s)"

definition complete_hooks :: "(int \<times> int \<times> int) option \<Rightarrow> run_task \<Rightarrow> async_state \<Rightarrow> async_state" where
  "complete_hooks meta t =
     (case meta of
        Some (turns, input, output) \<Rightarrow> fire_hooks RunCompleted turns (input + output) '''' t
      | None \<Rightarrow> fire_hooks RunCompleted 0 0 '''' t)"

definition max_persist_attempts :: nat where
  "max_persist_attempts = 3"

text \<open>A write or a read with the context of the run fails when the context is done.\<close>

definition startup_failure :: "async_env \<Rightarrow> nat \<Rightarrow> run_task \<Rightarrow> string \<Rightarrow> string \<Rightarrow> string option \<Rightarrow> bool \<Rightarrow> bool \<Rightarrow> async_state \<Rightarrow> async_state" where
  "startup_failure env i t reason shown user marked stored s =
     (let ctx = \<not> context_done (as_now s) t;
          s1 = try_runs (marked \<and> ctx) (Inr (mark_run_failed (as_now s) (rt_run t) reason (as_runs s))) s;
          s2 = append_buffered_error env shown ''startup'' t s1;
          s3 = (case user of
                  Some cause \<Rightarrow> if stored \<and> ctx then add_effect (UserMessage (rt_session t) (StartupText cause)) s2 else s2
                | None \<Rightarrow> s2)
      in goto i t TkExit s3)"

definition drop_cancelled :: "async_env \<Rightarrow> nat \<Rightarrow> run_task \<Rightarrow> async_state \<Rightarrow> async_state" where
  "drop_cancelled env i t s =
     goto i t TkExit (fire_hooks RunCancelled 0 0 ''cancelled by user'' t
       (append_buffered_error env ''run cancelled by user'' ''cancelled'' t s))"
definition no_agent_available :: string where
  "no_agent_available = ''no published agent available for routing''"

text \<open>
  The phases before the runner starts. A read with a context that is done gives an error.
\<close>

definition startup_step :: "async_env \<Rightarrow> nat \<Rightarrow> task_event \<Rightarrow> run_task \<Rightarrow> async_state \<Rightarrow> async_state option" where
  "startup_step env i ev t s =
     (let ctx = \<not> context_done (as_now s) t in
      case rt_phase t of
        TkStore \<Rightarrow>
          if ev = TkGo
          then Some (goto i t TkCheck
                 (open_buffer (rt_pod t) (rt_run t) (s\<lparr>as_cancellers := AList.update (rt_pod t, rt_run t) i (as_cancellers s)\<rparr>)))
          else None
      | TkCheck \<Rightarrow>
          if ev = TkGo then Some (goto i t (if (rt_pod t, rt_run t) \<in> as_cancelled s then TkDrop else TkRead) s) else None
      | TkDrop \<Rightarrow>
          (case ev of
             TkWritten ok \<Rightarrow> Some (drop_cancelled env i t (try_runs ok (update_run_status (as_now s) (rt_run t) RunCancelled (as_runs s)) s))
           | _ \<Rightarrow> None)
      | TkRead \<Rightarrow>
          (case ev of
             TkLoaded ok \<Rightarrow>
               (case run_of (rt_run t) (as_runs s) of
                  Some r \<Rightarrow> Some (if ok \<and> cr_status r = RunCancelled then drop_cancelled env i t s else goto i t TkActivate s)
                | None \<Rightarrow> Some (goto i t TkActivate s))
           | _ \<Rightarrow> None)
      | TkActivate \<Rightarrow>
          (case ev of
             TkWritten ok \<Rightarrow> Some (goto i t TkSession (try_runs (ok \<and> ctx) (update_run_status (as_now s) (rt_run t) RunActive (as_runs s)) s))
           | _ \<Rightarrow> None)
      | TkSession \<Rightarrow>
          (case ev of
             TkSessionRow (Inl e) \<Rightarrow> Some (goto i t (TkFail (''failed to load session: '' @ e) (''failed to load session: '' @ e) None) s)
           | TkSessionRow (Inr None) \<Rightarrow> if ctx then Some (goto i t TkRoute s) else None
           | TkSessionRow (Inr (Some a)) \<Rightarrow> if ctx then Some (put_task i (t\<lparr>rt_agent := a, rt_phase := TkStart\<rparr>) s) else None
           | _ \<Rightarrow> None)
      | TkRoute \<Rightarrow>
          (case ev of
             TkRouted (Inl e) \<Rightarrow> Some (goto i t (TkFail e e (Some no_agent_available)) s)
           | TkRouted (Inr None) \<Rightarrow> Some (goto i t (TkFail no_agent_available no_agent_available (Some no_agent_available)) s)
           | TkRouted (Inr (Some a)) \<Rightarrow> if ctx then Some (goto i t (TkBind a) s) else None
           | _ \<Rightarrow> None)
      | TkBind a \<Rightarrow>
          (case ev of
             TkBound (Some e) _ \<Rightarrow>
               Some (goto i t (TkFail (''failed to bind routed agent: '' @ e) (''failed to bind routed agent: '' @ e) None) s)
           | TkBound None saved \<Rightarrow>
               if ctx then Some (put_task i (t\<lparr>rt_agent := a, rt_phase := TkStart\<rparr>)
                             ((if saved then add_effect (SaveSnapshots (rt_session t)) else id)
                                (add_effect (BindAgent (rt_session t) a) s)))
               else None
           | _ \<Rightarrow> None)
      | TkStart \<Rightarrow>
          (case ev of
             TkStarted err voice saved \<Rightarrow>
               (let s1 = (if rt_override t \<and> saved \<and> ctx then add_effect (SaveSnapshots (rt_session t)) s else s)
                in Some (case err of
                     Some e \<Rightarrow> goto i t (TkFail e (ae_redact env e) (Some e)) s1
                   | None \<Rightarrow> put_task i (t\<lparr>rt_voice_on := voice, rt_phase := TkDrain\<rparr>) s1))
           | _ \<Rightarrow> None)
      | TkFail reason shown user \<Rightarrow>
          (case ev of TkStored marked stored \<Rightarrow> Some (startup_failure env i t reason shown user marked stored s) | _ \<Rightarrow> None)
      | _ \<Rightarrow> None)"

text \<open>The phases after it has started, to the deferred calls.\<close>

definition timeout_text :: "async_env \<Rightarrow> string" where
  "timeout_text env = ''run exceeded the '' @ ae_timeout_text env @ '' timeout''"

definition ending_step :: "async_env \<Rightarrow> nat \<Rightarrow> task_event \<Rightarrow> run_task \<Rightarrow> async_state \<Rightarrow> async_state option" where
  "ending_step env i ev t s =
     (case rt_phase t of
        TkDrain \<Rightarrow>
          (case ev of
             TkEvent e synth \<Rightarrow> (case drain_event env e synth t of (t', f) \<Rightarrow> Some (put_task i t' (f s)))
           | TkClosed synth \<Rightarrow> (case close_events synth t of (t', f) \<Rightarrow> Some (goto i t' TkJudge (f s)))
           | _ \<Rightarrow> None)
      | TkJudge \<Rightarrow>
          if ev = TkGo
          then Some (goto i t (if context_done (as_now s) t then TkAborted
                               else if rt_llm_error t \<noteq> '''' then TkLlmFail else TkComplete 1) s)
          else None
      | TkAborted \<Rightarrow>
          if ev = TkGo then Some (goto i t (if (rt_pod t, rt_run t) \<in> as_cancelled s then TkCancelWrite else TkTimeout) s) else None
      | TkCancelWrite \<Rightarrow>
          (case ev of
             TkWritten ok \<Rightarrow> Some (drop_cancelled env i t (try_runs ok (update_run_status (as_now s) (rt_run t) RunCancelled (as_runs s)) s))
           | _ \<Rightarrow> None)
      | TkTimeout \<Rightarrow>
          (case ev of
             TkStored marked stored \<Rightarrow>
               (let s1 = try_runs marked (Inr (mark_run_failed (as_now s) (rt_run t) (timeout_text env) (as_runs s))) s;
                    s2 = append_buffered_error env (timeout_text env) ''timeout'' t s1;
                    s3 = (if \<not> rt_wrote t \<and> stored then add_effect (UserMessage (rt_session t) TimeoutText) s2 else s2)
                in Some (goto i t TkExit (fire_hooks RunFailed 0 0 ''timeout'' t s3)))
           | _ \<Rightarrow> None)
      | TkLlmFail \<Rightarrow>
          (case ev of
             TkWritten ok \<Rightarrow>
               Some (goto i t TkExit (fire_hooks RunFailed 0 0 (rt_llm_error t) t
                       (try_runs ok (Inr (mark_run_failed (as_now s) (rt_run t) (rt_llm_error t) (as_runs s))) s)))
           | _ \<Rightarrow> None)
      | TkComplete n \<Rightarrow>
          (case ev of
             TkPersisted ok meta \<Rightarrow>
               Some (if ok then goto i t TkExit (record_metrics env meta t (complete_hooks meta t
                       (set_runs (mark_run_completed (as_now s) (rt_run t) (as_runs s)) s)))
                     else goto i t (if n = max_persist_attempts then TkExit else TkComplete (n + 1)) s)
           | _ \<Rightarrow> None)
      | TkExit \<Rightarrow>
          if ev = TkGo
          then Some (goto i t TkUnregister (change_buffer (rt_pod t) (rt_run t) (\<lambda>b. b\<lparr>rb_done := True\<rparr>) s))
          else None
      | TkUnregister \<Rightarrow>
          if ev = TkGo
          then Some (goto i t TkForget (s\<lparr>as_cancellers := AList.delete (rt_pod t, rt_run t) (as_cancellers s)\<rparr>))
          else None
      | TkForget \<Rightarrow>
          if ev = TkGo
          then Some (put_task i (t\<lparr>rt_phase := TkGone, rt_cancelled := True\<rparr>)
                 (s\<lparr>as_cancelled := as_cancelled s - {(rt_pod t, rt_run t)}\<rparr>))
          else None
      | _ \<Rightarrow> None)"

definition task_step :: "async_env \<Rightarrow> nat \<Rightarrow> task_event \<Rightarrow> run_task \<Rightarrow> async_state \<Rightarrow> async_state option" where
  "task_step env i ev t s = (case startup_step env i ev t s of Some s' \<Rightarrow> Some s' | None \<Rightarrow> ending_step env i ev t s)"
section \<open>The machine\<close>

datatype async_label =
  NewRequest nat string bool bool | RequestStep nat enqueue_event | NewCancel nat string string | CancelStep nat cancel_event
| Deliver nat bool | TaskStep nat task_event | Tick | ShutdownRun nat string

text \<open>
  A worker starts a task for the first message. When its acknowledgement is lost, the message stays in the queue.
\<close>

definition new_task :: "async_env \<Rightarrow> nat \<Rightarrow> nat \<Rightarrow> string \<times> string \<times> bool \<times> bool \<Rightarrow> run_task" where
  "new_task env now pod m =
     (case m of (run, session, voice, override) \<Rightarrow>
        \<lparr>rt_pod = pod, rt_run = run, rt_session = session, rt_voice = voice, rt_override = override, rt_phase = TkStore,
         rt_deadline = now + ae_timeout env, rt_cancelled = False, rt_agent = '''', rt_voice_on = False, rt_text = '''',
         rt_audio = False, rt_wrote = False, rt_llm_error = ''''\<rparr>)"

definition deliver :: "async_env \<Rightarrow> nat \<Rightarrow> bool \<Rightarrow> async_state \<Rightarrow> async_state option" where
  "deliver env pod acked s =
     (case as_queue s of
        [] \<Rightarrow> None
      | m # q \<Rightarrow> Some (s\<lparr>as_queue := (if acked then q else as_queue s), as_tasks := as_tasks s @ [new_task env (as_now s) pod m]\<rparr>))"

definition async_step :: "async_env \<Rightarrow> async_label \<Rightarrow> async_state \<Rightarrow> async_state option" where
  "async_step env l s =
     (case l of
        NewRequest pod session voice override \<Rightarrow>
          Some (s\<lparr>as_requests := as_requests s
                    @ [\<lparr>eq_pod = pod, eq_session = session, eq_voice = voice, eq_override = override, eq_phase = EqSession\<rparr>]\<rparr>)
      | RequestStep k ev \<Rightarrow> if k < length (as_requests s) then enqueue_step env k ev (as_requests s ! k) s else None
      | NewCancel pod session run \<Rightarrow>
          Some (s\<lparr>as_cancels := as_cancels s @ [\<lparr>cn_pod = pod, cn_session = session, cn_run = run, cn_phase = CnCheck\<rparr>]\<rparr>)
      | CancelStep k ev \<Rightarrow> if k < length (as_cancels s) then cancel_step k ev (as_cancels s ! k) s else None
      | Deliver pod acked \<Rightarrow> deliver env pod acked s
      | TaskStep i ev \<Rightarrow> if i < length (as_tasks s) then task_step env i ev (as_tasks s ! i) s else None
      | Tick \<Rightarrow> Some (s\<lparr>as_now := as_now s + 1\<rparr>)
      | ShutdownRun pod run \<Rightarrow> shutdown_one pod run s)"

fun async_run :: "async_env \<Rightarrow> async_label list \<Rightarrow> async_state \<Rightarrow> async_state option" where
  "async_run env [] s = Some s"
| "async_run env (l # ls) s = (case async_step env l s of None \<Rightarrow> None | Some s' \<Rightarrow> async_run env ls s')"

lemma async_run_snoc: "async_run env (ls @ [l]) s = (case async_run env ls s of None \<Rightarrow> None | Some s' \<Rightarrow> async_step env l s')"
  by (induction ls arbitrary: s) (auto split: option.splits)

text \<open>An invariant of the steps whose labels satisfy \<open>P\<close>.\<close>

lemma async_invariant:
  assumes "async_run env ls new_async = Some s" and "list_all P ls"
    and "I new_async" and "\<And>l s s'. P l \<Longrightarrow> I s \<Longrightarrow> async_step env l s = Some s' \<Longrightarrow> I s'"
  shows "I s"
  using assms(1,2)
proof (induction ls arbitrary: s rule: rev_induct)
  case Nil
  then show ?case using assms(3) by simp
next
  case (snoc l ls)
  then show ?case using assms(4) by (auto simp: async_run_snoc split: option.splits)
qed

end
