(* ===== verification/AsyncRunFacts.thy ===== *)
theory AsyncRunFacts
  imports AsyncRuns
begin

text \<open>
  What the machine of background runs guarantees in every interleaving, and traces that show what it does not.
\<close>

section \<open>Traces\<close>

definition sample_async :: async_env where
  "sample_async =
     \<lparr>ae_timeout = 1, ae_timeout_text = ''1s'', ae_checks_agent = False, ae_has_queue = True, ae_metrics = False,
      ae_error_data = (\<lambda>msg code. code), ae_error_info = (\<lambda>d. None), ae_content = Some, ae_redact = id\<rparr>"

definition enqueue_trace :: "nat \<Rightarrow> string \<Rightarrow> async_label list" where
  "enqueue_trace k run =
     [NewRequest 0 ''s'' False False, RequestStep k EqSkipCheck, RequestStep k (EqLookedUp True),
      RequestStep k (EqInserted run None), RequestStep k (EqPublished True)]"

definition start_trace :: "nat \<Rightarrow> async_label list" where
  "start_trace i =
     [TaskStep i TkGo, TaskStep i TkGo, TaskStep i (TkLoaded True), TaskStep i (TkWritten True),
      TaskStep i (TkSessionRow (Inr (Some ''a''))), TaskStep i (TkStarted None False False)]"

definition finish_trace :: "nat \<Rightarrow> async_label list" where
  "finish_trace i = [TaskStep i (TkClosed None), TaskStep i TkGo, TaskStep i (TkPersisted True None), TaskStep i TkGo, TaskStep i TkGo, TaskStep i TkGo]"

text \<open>What a trace shows: the statuses in the table and the phases of the tasks with whether their context is done.\<close>

definition async_view :: "async_label list \<Rightarrow> ((string \<times> run_status) list \<times> (string \<times> task_phase \<times> bool) list) option" where
  "async_view ls =
     map_option (\<lambda>s. (map (\<lambda>r. (cr_id r, cr_status r)) (as_runs s),
                      map (\<lambda>t. (rt_run t, rt_phase t, context_done (as_now s) t)) (as_tasks s)))
       (async_run sample_async ls new_async)"

lemma run_reaches_completed:
  "async_view (enqueue_trace 0 ''r1'' @ [Deliver 0 True] @ start_trace 0 @ finish_trace 0)
   = Some ([(''r1'', RunCompleted)], [(''r1'', TkGone, True)])"
  by code_simp

text \<open>
  A run that waited too long in the queue is marked as failed so that another can start. Nobody withdraws its message: when
  the worker comes to it, it is executed beside the other, although its activation was refused.
\<close>

lemma expired_run_still_executes:
  "async_view (enqueue_trace 0 ''r1'' @ [Tick, Tick, Tick]
     @ [NewRequest 0 ''s'' False False, RequestStep 1 EqSkipCheck, RequestStep 1 EqExpireQueued, RequestStep 1 (EqWritten True),
        RequestStep 1 (EqInserted ''r2'' None), RequestStep 1 (EqPublished True)]
     @ [Deliver 0 True, Deliver 0 True] @ start_trace 0 @ start_trace 1)
   = Some ([(''r1'', RunFailed), (''r2'', RunActive)], [(''r1'', TkDrain, False), (''r2'', TkDrain, False)])"
  by code_simp

text \<open>
  A cancellation that reaches another process than the run's is written to the table, where the run's worker does not look
  again: the run goes on beside the next one and in the end is completed.
\<close>

lemma cancel_on_other_pod_ignored:
  "async_view (enqueue_trace 0 ''r1'' @ [Deliver 0 True] @ start_trace 0
     @ [NewCancel 1 ''s'' ''r1'', CancelStep 0 (CnRead True), CancelStep 0 CnGo, CancelStep 0 CnGo, CancelStep 0 (CnWritten True)]
     @ enqueue_trace 1 ''r2'' @ [Deliver 0 True] @ start_trace 1)
   = Some ([(''r1'', RunCancelled), (''r2'', RunActive)], [(''r1'', TkDrain, False), (''r2'', TkDrain, False)])"
  by code_simp

lemma cancelled_run_completed:
  "async_view (enqueue_trace 0 ''r1'' @ [Deliver 0 True] @ start_trace 0
     @ [NewCancel 1 ''s'' ''r1'', CancelStep 0 (CnRead True), CancelStep 0 CnGo, CancelStep 0 CnGo, CancelStep 0 (CnWritten True)]
     @ finish_trace 0)
   = Some ([(''r1'', RunCompleted)], [(''r1'', TkGone, True)])"
  by code_simp

text \<open>Cancelling a run that has ended rewrites its status.\<close>

lemma completed_run_cancelled:
  "async_view (enqueue_trace 0 ''r1'' @ [Deliver 0 True] @ start_trace 0 @ finish_trace 0
     @ [NewCancel 0 ''s'' ''r1'', CancelStep 0 (CnRead True), CancelStep 0 CnGo, CancelStep 0 CnGo, CancelStep 0 (CnWritten True)])
   = Some ([(''r1'', RunCancelled)], [(''r1'', TkGone, True)])"
  by code_simp

text \<open>A message delivered twice is executed twice; a completed run is active again.\<close>

lemma redelivered_run_executes_again:
  "async_view (enqueue_trace 0 ''r1'' @ [Deliver 0 False] @ start_trace 0 @ finish_trace 0 @ [Deliver 0 True] @ start_trace 1)
   = Some ([(''r1'', RunActive)], [(''r1'', TkGone, True), (''r1'', TkDrain, False)])"
  by code_simp

text \<open>
  A run that is cancelled while it starts fails with its own context, which is done: the failure is not written, so the run
  stays active until it expires, and no hook is called.
\<close>

lemma cancelled_startup_stays_active:
  "async_view (enqueue_trace 0 ''r1'' @ [Deliver 0 True, TaskStep 0 TkGo, TaskStep 0 TkGo, TaskStep 0 (TkLoaded True), TaskStep 0 (TkWritten True)]
     @ [NewCancel 0 ''s'' ''r1'', CancelStep 0 (CnRead True), CancelStep 0 CnGo, CancelStep 0 CnGo, CancelStep 0 CnGo]
     @ [TaskStep 0 (TkSessionRow (Inl ''context canceled'')), TaskStep 0 (TkStored True True), TaskStep 0 TkGo, TaskStep 0 TkGo, TaskStep 0 TkGo])
   = Some ([(''r1'', RunActive)], [(''r1'', TkGone, True)])"
  by code_simp

section \<open>What a step changes\<close>

text \<open>The state without buffers and effects, and the helpers that leave it alone.\<close>

definition core_of where
  "core_of s = (as_now s, as_runs s, as_queue s, as_requests s, as_cancels s, as_tasks s, as_cancellers s, as_cancelled s)"

lemma core_ofD:
  assumes "core_of s' = core_of s"
  shows "as_now s' = as_now s" "as_runs s' = as_runs s" "as_queue s' = as_queue s" "as_requests s' = as_requests s"
    "as_cancels s' = as_cancels s" "as_tasks s' = as_tasks s" "as_cancellers s' = as_cancellers s" "as_cancelled s' = as_cancelled s"
  using assms by (auto simp: core_of_def)

named_theorems core_simps \<open>the helpers that change buffers and effects only\<close>

lemma core_change_buffer [core_simps]: "core_of (change_buffer pod run f s) = core_of s"
  by (simp add: change_buffer_def core_of_def split: option.split)

lemma core_open_buffer [core_simps]: "core_of (open_buffer pod run s) = core_of s"
  by (simp add: open_buffer_def core_of_def split: option.split)

lemma core_add_effect [core_simps]: "core_of (add_effect e s) = core_of s"
  by (simp add: add_effect_def core_of_def)

lemma core_append [core_simps]:
  "core_of (append_event ev t s) = core_of s" "core_of (append_buffered_error env msg code t s) = core_of s"
  "core_of (fire_hooks st a b m t s) = core_of s" "core_of (record_metrics env meta t s) = core_of s"
  "core_of (complete_hooks meta t s) = core_of s"
  by (simp_all add: append_event_def append_buffered_error_def fire_hooks_def record_metrics_def complete_hooks_def core_simps
      split: option.split)

lemmas core_fields [simp] =
  core_ofD [OF core_change_buffer] core_ofD [OF core_open_buffer] core_ofD [OF core_add_effect]
  core_ofD [OF core_append(1)] core_ofD [OF core_append(2)] core_ofD [OF core_append(3)] core_ofD [OF core_append(4)]
  core_ofD [OF core_append(5)]

lemma set_runs_fields [simp]:
  "as_now (set_runs rs s) = as_now s" "as_runs (set_runs rs s) = rs" "as_queue (set_runs rs s) = as_queue s"
  "as_requests (set_runs rs s) = as_requests s" "as_cancels (set_runs rs s) = as_cancels s" "as_tasks (set_runs rs s) = as_tasks s"
  "as_cancellers (set_runs rs s) = as_cancellers s" "as_cancelled (set_runs rs s) = as_cancelled s"
  by (simp_all add: set_runs_def)

lemma try_runs_fields [simp]:
  "as_now (try_runs ok r s) = as_now s" "as_queue (try_runs ok r s) = as_queue s"
  "as_requests (try_runs ok r s) = as_requests s" "as_cancels (try_runs ok r s) = as_cancels s"
  "as_tasks (try_runs ok r s) = as_tasks s" "as_cancellers (try_runs ok r s) = as_cancellers s"
  "as_cancelled (try_runs ok r s) = as_cancelled s"
  "as_runs (try_runs ok r s) = (case r of Inr rs \<Rightarrow> if ok then rs else as_runs s | Inl _ \<Rightarrow> as_runs s)"
  by (simp_all add: try_runs_def split: sum.split)

lemma put_fields [simp]:
  "as_now (put_task i t s) = as_now s" "as_runs (put_task i t s) = as_runs s" "as_queue (put_task i t s) = as_queue s"
  "as_requests (put_task i t s) = as_requests s" "as_cancels (put_task i t s) = as_cancels s"
  "as_tasks (put_task i t s) = (as_tasks s)[i := t]" "as_cancellers (put_task i t s) = as_cancellers s"
  "as_cancelled (put_task i t s) = as_cancelled s"
  "as_now (put_request k q ph s) = as_now s" "as_runs (put_request k q ph s) = as_runs s" "as_queue (put_request k q ph s) = as_queue s"
  "as_requests (put_request k q ph s) = (as_requests s)[k := q\<lparr>eq_phase := ph\<rparr>]" "as_cancels (put_request k q ph s) = as_cancels s"
  "as_tasks (put_request k q ph s) = as_tasks s" "as_cancellers (put_request k q ph s) = as_cancellers s"
  "as_cancelled (put_request k q ph s) = as_cancelled s"
  "as_now (put_cancel k c cph s) = as_now s" "as_runs (put_cancel k c cph s) = as_runs s" "as_queue (put_cancel k c cph s) = as_queue s"
  "as_requests (put_cancel k c cph s) = as_requests s" "as_cancels (put_cancel k c cph s) = (as_cancels s)[k := c\<lparr>cn_phase := cph\<rparr>]"
  "as_tasks (put_cancel k c cph s) = as_tasks s" "as_cancellers (put_cancel k c cph s) = as_cancellers s"
  "as_cancelled (put_cancel k c cph s) = as_cancelled s"
  by (simp_all add: put_task_def put_request_def put_cancel_def)

lemma goto_is [simp]: "goto i t ph = put_task i (t\<lparr>rt_phase := ph\<rparr>)"
  by (simp add: goto_def fun_eq_iff)

text \<open>The parts of a task that its steps do not change.\<close>

definition same_task :: "run_task \<Rightarrow> run_task \<Rightarrow> bool" where
  "same_task t t' \<longleftrightarrow> rt_pod t' = rt_pod t \<and> rt_run t' = rt_run t \<and> rt_session t' = rt_session t \<and> rt_deadline t' = rt_deadline t"

lemma drain_event_core:
  assumes "drain_event env e synth t = (t', f)"
  shows "core_of (f s) = core_of s" and "same_task t t'" "rt_phase t' = rt_phase t" "rt_cancelled t' = rt_cancelled t"
  using assms
  by (auto simp: drain_event_def append_voice_def note_error_def same_task_def Let_def core_simps split: if_splits option.splits prod.splits bool.splits)

lemma close_events_core:
  assumes "close_events synth t = (t', f)"
  shows "core_of (f s) = core_of s" and "same_task t t'" "rt_phase t' = rt_phase t" "rt_cancelled t' = rt_cancelled t"
  using assms
  by (auto simp: close_events_def append_voice_def same_task_def core_simps split: if_splits option.splits prod.splits bool.splits)
definition executing :: "task_phase \<Rightarrow> bool" where
  "executing ph \<longleftrightarrow> ph \<notin> {TkStore, TkCheck, TkDrop, TkExit, TkUnregister, TkForget, TkGone}"

definition waiting :: "task_phase \<Rightarrow> bool" where
  "waiting ph \<longleftrightarrow> ph = TkStore \<or> ph = TkCheck"

lemma phase_kinds [simp]:
  "\<not> executing TkStore" "\<not> executing TkCheck" "\<not> executing TkDrop" "\<not> executing TkExit" "\<not> executing TkUnregister" "\<not> executing TkForget" "\<not> executing TkGone"
  "executing TkRead" "executing TkActivate" "executing TkSession" "executing TkRoute" "executing (TkBind a)" "executing TkStart"
  "executing (TkFail x y z)" "executing TkDrain" "executing TkJudge" "executing TkAborted" "executing TkCancelWrite"
  "executing TkTimeout" "executing TkLlmFail" "executing (TkComplete n)"
  "waiting TkStore" "waiting TkCheck" "\<not> waiting TkDrop" "\<not> waiting TkExit" "\<not> waiting TkUnregister" "\<not> waiting TkForget" "\<not> waiting TkGone" "\<not> waiting TkRead"
  "\<not> waiting TkSession"
  by (simp_all add: executing_def waiting_def)

lemma executing_not_waiting [simp]: "executing ph \<Longrightarrow> \<not> waiting ph"
  by (auto simp: executing_def waiting_def)

text \<open>A change of a row that ends its run.\<close>

definition closing :: "(chat_run \<Rightarrow> chat_run) \<Rightarrow> bool" where
  "closing f \<longleftrightarrow> (\<forall>r. cr_id (f r) = cr_id r \<and> cr_session (f r) = cr_session r \<and> cr_started (f r) = cr_started r
                  \<and> cr_created (f r) = cr_created r \<and> \<not> is_open (f r))"

definition closes :: "string \<Rightarrow> chat_run list \<Rightarrow> chat_run list \<Rightarrow> bool" where
  "closes i rs rs' \<longleftrightarrow> rs' = rs \<or> (\<exists>f. closing f \<and> rs' = change_run i f rs)"

lemma closes_change: "closing f \<Longrightarrow> closes i rs (change_run i f rs)"
  by (auto simp: closes_def)

lemma closes_simps [simp]:
  "closes i rs rs" "closes i rs (mark_run_failed now i reason rs)" "closes i rs (mark_run_completed now i rs)"
  unfolding mark_run_failed_def mark_run_completed_def
  by (simp add: closes_def, (rule closes_change, simp add: closing_def is_open_def)+)

lemma closes_cancel: "update_run_status now i RunCancelled rs = Inr rs' \<Longrightarrow> closes i rs rs'"
  by (auto simp: update_run_status_def closing_def Let_def is_open_def split: if_splits intro!: closes_change)

text \<open>The kinds of steps of a task.\<close>

inductive task_move :: "nat \<Rightarrow> run_task \<Rightarrow> run_task \<Rightarrow> async_state \<Rightarrow> async_state \<Rightarrow> bool" where
  register: "task_move i t t' s s'"
    if "rt_phase t = TkStore" "rt_phase t' = TkCheck" "as_runs s' = as_runs s" "as_cancelled s' = as_cancelled s"
       "as_cancellers s' = AList.update (rt_pod t, rt_run t) i (as_cancellers s)"
| check: "task_move i t t' s s'"
    if "rt_phase t = TkCheck" "rt_phase t' = (if (rt_pod t, rt_run t) \<in> as_cancelled s then TkDrop else TkRead)"
       "as_runs s' = as_runs s" "as_cancelled s' = as_cancelled s" "as_cancellers s' = as_cancellers s"
| activate: "task_move i t t' s s'"
    if "rt_phase t = TkActivate" "rt_phase t' = TkSession" "as_cancelled s' = as_cancelled s" "as_cancellers s' = as_cancellers s"
       "as_runs s' = as_runs s
        \<or> \<not> context_done (as_now s) t \<and> update_run_status (as_now s) (rt_run t) RunActive (as_runs s) = Inr (as_runs s')"
| proceed: "task_move i t t' s s'"
    if "executing (rt_phase t)" "executing (rt_phase t')" "rt_phase t' = TkActivate \<longrightarrow> rt_phase t = TkRead" "rt_phase t' \<noteq> TkRead"
       "as_runs s' = as_runs s" "as_cancelled s' = as_cancelled s" "as_cancellers s' = as_cancellers s"
| leave: "task_move i t t' s s'"
    if "executing (rt_phase t) \<or> rt_phase t = TkDrop" "rt_phase t' = TkExit" "closes (rt_run t) (as_runs s) (as_runs s')"
       "as_cancelled s' = as_cancelled s" "as_cancellers s' = as_cancellers s"
| announce_end: "task_move i t t' s s'"
    if "rt_phase t = TkExit" "rt_phase t' = TkUnregister" "as_runs s' = as_runs s" "as_cancelled s' = as_cancelled s"
       "as_cancellers s' = as_cancellers s"
| unregister: "task_move i t t' s s'"
    if "rt_phase t = TkUnregister" "rt_phase t' = TkForget" "as_runs s' = as_runs s" "as_cancelled s' = as_cancelled s"
       "as_cancellers s' = AList.delete (rt_pod t, rt_run t) (as_cancellers s)"
| forget: "task_move i t t' s s'"
    if "rt_phase t = TkForget" "rt_phase t' = TkGone" "as_runs s' = as_runs s"
       "as_cancelled s' = as_cancelled s - {(rt_pod t, rt_run t)}" "as_cancellers s' = as_cancellers s"

definition framed :: "nat \<Rightarrow> run_task \<Rightarrow> run_task \<Rightarrow> async_state \<Rightarrow> async_state \<Rightarrow> bool" where
  "framed i t t' s s' \<longleftrightarrow>
     as_tasks s' = (as_tasks s)[i := t'] \<and> same_task t t' \<and> (rt_phase t' = TkGone \<or> rt_cancelled t' = rt_cancelled t)
     \<and> as_now s' = as_now s \<and> as_queue s' = as_queue s \<and> as_requests s' = as_requests s \<and> as_cancels s' = as_cancels s"

lemma framedI [intro]:
  "as_tasks s' = (as_tasks s)[i := t'] \<Longrightarrow> same_task t t' \<Longrightarrow> rt_phase t' = TkGone \<or> rt_cancelled t' = rt_cancelled t
   \<Longrightarrow> as_now s' = as_now s \<Longrightarrow> as_queue s' = as_queue s \<Longrightarrow> as_requests s' = as_requests s \<Longrightarrow> as_cancels s' = as_cancels s
   \<Longrightarrow> framed i t t' s s'"
  by (simp add: framed_def)

lemma drop_cancelled_moves:
  assumes "executing (rt_phase t) \<or> rt_phase t = TkDrop" and "closes (rt_run t) (as_runs s) (as_runs s1)"
    and "as_tasks s1 = as_tasks s" "as_now s1 = as_now s" "as_queue s1 = as_queue s" "as_requests s1 = as_requests s"
      "as_cancels s1 = as_cancels s" "as_cancelled s1 = as_cancelled s" "as_cancellers s1 = as_cancellers s"
  shows "\<exists>t'. framed i t t' s (drop_cancelled env i t s1) \<and> task_move i t t' s (drop_cancelled env i t s1)"
  using assms
  by (intro exI [of _ "t\<lparr>rt_phase := TkExit\<rparr>"] conjI framedI task_move.leave)
    (auto simp: drop_cancelled_def same_task_def)

lemma startup_failure_moves:
  assumes "executing (rt_phase t)"
  shows "\<exists>t'. framed i t t' s (startup_failure env i t reason shown user marked stored s)
     \<and> task_move i t t' s (startup_failure env i t reason shown user marked stored s)"
  using assms
  by (intro exI [of _ "t\<lparr>rt_phase := TkExit\<rparr>"] conjI framedI task_move.leave)
    (auto simp: startup_failure_def same_task_def Let_def split: option.split)

text \<open>Steps that only set the phase, or a field of the task that no other part reads.\<close>

lemma proceed_moves:
  assumes "executing (rt_phase t)" "executing (rt_phase t')" "rt_phase t' = TkActivate \<longrightarrow> rt_phase t = TkRead" "rt_phase t' \<noteq> TkRead"
    and "same_task t t'" "rt_cancelled t' = rt_cancelled t" "core_of s1 = core_of s"
  shows "\<exists>u. framed i t u s (put_task i t' s1) \<and> task_move i t u s (put_task i t' s1)"
  using assms core_ofD [OF assms(7)] by (intro exI [of _ t'] conjI framedI task_move.proceed) auto
lemma same_task_phase [simp]: "same_task t (t\<lparr>rt_phase := ph\<rparr>)" "same_task t (t\<lparr>rt_agent := a, rt_phase := ph\<rparr>)"
  "same_task t (t\<lparr>rt_agent := a\<rparr>)" "same_task t (t\<lparr>rt_voice_on := v\<rparr>)"
  "same_task t (t\<lparr>rt_voice_on := v, rt_phase := ph\<rparr>)" "same_task t (t\<lparr>rt_phase := ph, rt_cancelled := c\<rparr>)"
  "same_task t (t1\<lparr>rt_phase := ph\<rparr>) \<longleftrightarrow> same_task t t1"
  by (simp_all add: same_task_def)

lemma startup_step_moves:
  assumes "startup_step env i ev t s = Some s'"
  shows "\<exists>t'. framed i t t' s s' \<and> task_move i t t' s s'"
proof (cases "rt_phase t")
  case TkStore
  with assms show ?thesis
    by (intro exI [of _ "t\<lparr>rt_phase := TkCheck\<rparr>"] conjI framedI task_move.register)
      (auto simp: startup_step_def Let_def split: if_splits)
next
  case TkCheck
  with assms show ?thesis
    by (intro exI [of _ "t\<lparr>rt_phase := (if (rt_pod t, rt_run t) \<in> as_cancelled s then TkDrop else TkRead)\<rparr>"] conjI framedI task_move.check)
      (auto simp: startup_step_def Let_def split: if_splits)
next
  case TkDrop
  with assms obtain ok where "s' = drop_cancelled env i t (try_runs ok (update_run_status (as_now s) (rt_run t) RunCancelled (as_runs s)) s)"
    by (auto simp: startup_step_def Let_def split: task_event.splits)
  with TkDrop show ?thesis by (auto intro!: drop_cancelled_moves dest: closes_cancel split: sum.splits)
next
  case TkRead
  with assms have "s' = drop_cancelled env i t s \<or> s' = goto i t TkActivate s"
    by (auto simp: startup_step_def Let_def split: task_event.splits option.splits if_splits)
  then show ?thesis
  proof
    assume "s' = drop_cancelled env i t s"
    with TkRead show ?thesis by (auto intro!: drop_cancelled_moves)
  next
    assume "s' = goto i t TkActivate s"
    with TkRead show ?thesis by (auto intro!: proceed_moves)
  qed
next
  case TkActivate
  with assms obtain ok where "s' = goto i t TkSession
      (try_runs (ok \<and> \<not> context_done (as_now s) t) (update_run_status (as_now s) (rt_run t) RunActive (as_runs s)) s)"
    by (auto simp: startup_step_def Let_def split: task_event.splits)
  with TkActivate show ?thesis
    by (intro exI [of _ "t\<lparr>rt_phase := TkSession\<rparr>"] conjI framedI task_move.activate) (auto split: sum.splits)
next
  case (TkFail reason shown user)
  with assms show ?thesis by (auto simp: startup_step_def Let_def split: task_event.splits intro!: startup_failure_moves)
qed (use assms in \<open>auto simp: startup_step_def Let_def core_simps split: task_event.splits sum.splits option.splits if_splits intro!: proceed_moves\<close>)

lemma ending_step_moves:
  assumes "ending_step env i ev t s = Some s'"
  shows "\<exists>t'. framed i t t' s s' \<and> task_move i t t' s s'"
proof (cases "rt_phase t")
  case TkDrain
  with assms show ?thesis
    by (auto simp: ending_step_def split: task_event.splits prod.splits
        intro!: proceed_moves dest: drain_event_core close_events_core)
next
  case TkCancelWrite
  with assms obtain ok where "s' = drop_cancelled env i t (try_runs ok (update_run_status (as_now s) (rt_run t) RunCancelled (as_runs s)) s)"
    by (auto simp: ending_step_def split: task_event.splits)
  with TkCancelWrite show ?thesis by (auto intro!: drop_cancelled_moves dest: closes_cancel split: sum.splits)
next
  case TkTimeout
  with assms show ?thesis
    by (intro exI [of _ "t\<lparr>rt_phase := TkExit\<rparr>"] conjI framedI task_move.leave)
      (auto simp: ending_step_def Let_def split: task_event.splits if_splits)
next
  case TkLlmFail
  with assms show ?thesis
    by (intro exI [of _ "t\<lparr>rt_phase := TkExit\<rparr>"] conjI framedI task_move.leave)
      (auto simp: ending_step_def split: task_event.splits)
next
  case (TkComplete n)
  with assms obtain ok meta where s': "s' = (if ok then goto i t TkExit (record_metrics env meta t (complete_hooks meta t
                       (set_runs (mark_run_completed (as_now s) (rt_run t) (as_runs s)) s)))
                     else goto i t (if n = max_persist_attempts then TkExit else TkComplete (n + 1)) s)"
    by (auto simp: ending_step_def split: task_event.splits)
  show ?thesis
  proof (cases "ok \<or> n = max_persist_attempts")
    case True
    with s' TkComplete show ?thesis
      by (intro exI [of _ "t\<lparr>rt_phase := TkExit\<rparr>"] conjI framedI task_move.leave) auto
  next
    case False
    with s' TkComplete show ?thesis by (auto intro!: proceed_moves)
  qed
next
  case TkExit
  with assms show ?thesis
    by (intro exI [of _ "t\<lparr>rt_phase := TkUnregister\<rparr>"] conjI framedI task_move.announce_end)
      (auto simp: ending_step_def split: if_splits)
next
  case TkUnregister
  with assms show ?thesis
    by (intro exI [of _ "t\<lparr>rt_phase := TkForget\<rparr>"] conjI framedI task_move.unregister)
      (auto simp: ending_step_def split: if_splits)
next
  case TkForget
  with assms show ?thesis
    by (intro exI [of _ "t\<lparr>rt_phase := TkGone, rt_cancelled := True\<rparr>"] conjI framedI task_move.forget)
      (auto simp: ending_step_def split: if_splits)
qed (use assms in \<open>auto simp: ending_step_def split: if_splits intro!: proceed_moves\<close>)

lemma task_step_moves:
  assumes "task_step env i ev t s = Some s'"
  shows "\<exists>t'. framed i t t' s s' \<and> task_move i t t' s s'"
  using assms startup_step_moves ending_step_moves by (auto simp: task_step_def split: option.splits)
section \<open>Requests and cancellations\<close>

fun phase_ids :: "enqueue_phase \<Rightarrow> string list" where
  "phase_ids (EqPublish i) = [i]"
| "phase_ids (EqFail i _) = [i]"
| "phase_ids _ = []"

text \<open>The kinds of steps of a request.\<close>

inductive request_move :: "enqueue_event \<Rightarrow> enqueue_req \<Rightarrow> enqueue_phase \<Rightarrow> async_env \<Rightarrow> async_state \<Rightarrow> async_state \<Rightarrow> bool" where
  stay: "request_move ev q ph env s s'"
    if "phase_ids ph = phase_ids (eq_phase q)" "\<And>i reason. ph \<noteq> EqExpire i reason" "as_runs s' = as_runs s" "as_queue s' = as_queue s"
| found: "request_move ev q (EqExpire (cr_id r) reason) env s s'"
    if "eq_phase q = EqActive" "r \<in> set (as_runs s)" "ev = EqExpireQueued \<or> run_expired env (as_now s) r"
       "as_runs s' = as_runs s" "as_queue s' = as_queue s"
| expired: "request_move ev q EqCreate env s s'"
    if "eq_phase q = EqExpire i reason" "closes i (as_runs s) (as_runs s')" "as_queue s' = as_queue s"
| inserted: "request_move ev q ph env s s'"
    if "eq_phase q = EqCreate" "i \<notin> cr_id ` set (as_runs s)"
       "create_run (as_now s) i (eq_session q) RunQueued (as_runs s) = Inr (as_runs s')"
       "ph = EqPublish i \<or> ph = EqAccepted i" "as_queue s' = as_queue s"
| published: "request_move ev q (EqAccepted i) env s s'"
    if "eq_phase q = EqPublish i" "as_runs s' = as_runs s" "as_queue s' = as_queue s @ [(i, eq_session q, eq_voice q, eq_override q)]"
| failed: "request_move ev q (EqRefused (QueueUnavailable i)) env s s'"
    if "eq_phase q = EqFail i reason" "closes i (as_runs s) (as_runs s')" "as_queue s' = as_queue s"

lemma active_run_ofD: "active_run_of session rs = Some r \<Longrightarrow> r \<in> set rs \<and> cr_session r = session \<and> is_open r"
proof -
  assume "active_run_of session rs = Some r"
  then obtain xs where "rev (sort_key cr_created (filter (\<lambda>r. cr_session r = session \<and> is_open r) rs)) = r # xs"
    by (auto simp: active_run_of_def split: list.splits)
  then have "r \<in> set (rev (sort_key cr_created (filter (\<lambda>r. cr_session r = session \<and> is_open r) rs)))" by simp
  then show ?thesis by simp
qed

lemma enqueue_step_moves:
  assumes "enqueue_step env k ev q s = Some s'"
  shows "\<exists>ph. request_move ev q ph env s s' \<and> as_requests s' = (as_requests s)[k := q\<lparr>eq_phase := ph\<rparr>]
     \<and> as_tasks s' = as_tasks s \<and> as_now s' = as_now s \<and> as_cancels s' = as_cancels s \<and> as_cancelled s' = as_cancelled s
     \<and> as_cancellers s' = as_cancellers s"
proof (cases "eq_phase q")
  case EqSession
  with assms have "s' = put_request k q EqActive s \<or> (\<exists>e. s' = put_request k q (EqRefused e) s)"
    by (auto simp: enqueue_step_def split: enqueue_event.splits if_splits option.splits)
  then obtain ph where "s' = put_request k q ph s" "phase_ids ph = []" "\<And>i reason. ph \<noteq> EqExpire i reason" by auto
  with EqSession show ?thesis by (intro exI [of _ ph]) (auto intro!: request_move.stay)
next
  case EqActive
  show ?thesis
  proof (cases "ev = EqLookedUp False")
    case True
    with assms EqActive show ?thesis by (intro exI [of _ "EqRefused ActiveCheckFailed"]) (auto simp: enqueue_step_def intro: request_move.stay)
  next
    case False
    then obtain ph where g: "guard_active env (as_now s) (active_run_of (eq_session q) (as_runs s)) = (ev, ph)" "s' = put_request k q ph s"
      using assms EqActive by (auto simp: enqueue_step_def split: prod.splits if_splits)
    have "request_move ev q ph env s s'"
    proof (cases "active_run_of (eq_session q) (as_runs s)")
      case None
      with g EqActive show ?thesis by (auto simp: guard_active_def intro: request_move.stay)
    next
      case (Some r)
      with g EqActive active_run_ofD [OF Some] show ?thesis
        by (auto simp: guard_active_def split: if_splits intro: request_move.stay request_move.found)
    qed
    with g show ?thesis by auto
  qed
next
  case (EqExpire i reason)
  with assms show ?thesis
    by (intro exI [of _ EqCreate]) (auto simp: enqueue_step_def split: enqueue_event.splits intro!: request_move.expired)
next
  case EqCreate
  with assms obtain i err where i: "insert_run env k i err q s = Some s'" by (auto simp: enqueue_step_def split: enqueue_event.splits)
  show ?thesis
  proof (cases "err = None \<and> (\<exists>rs. create_run (as_now s) i (eq_session q) RunQueued (as_runs s) = Inr rs)")
    case True
    then obtain rs where "create_run (as_now s) i (eq_session q) RunQueued (as_runs s) = Inr rs" "err = None" by blast
    with i EqCreate show ?thesis
      by (intro exI [of _ "if ae_has_queue env then EqPublish i else EqAccepted i"])
        (auto simp: insert_run_def split: if_splits intro: request_move.inserted)
  next
    case False
    then have "\<exists>e. s' = put_request k q (EqRefused e) s"
      using i by (auto simp: insert_run_def split: if_splits option.splits db_error.splits sum.splits)
    then obtain e where "s' = put_request k q (EqRefused e) s" by blast
    with EqCreate show ?thesis by (intro exI [of _ "EqRefused e"]) (auto intro: request_move.stay)
  qed
next
  case (EqPublish i)
  with assms obtain ok where "ev = EqPublished ok" by (auto simp: enqueue_step_def split: enqueue_event.splits)
  show ?thesis
  proof (cases ok)
    case True
    with \<open>ev = EqPublished ok\<close> EqPublish assms show ?thesis
      by (intro exI [of _ "EqAccepted i"]) (auto simp: enqueue_step_def intro!: request_move.published)
  next
    case False
    with \<open>ev = EqPublished ok\<close> EqPublish assms show ?thesis
      by (intro exI [of _ "EqFail i ''chat queue is temporarily unavailable''"]) (auto simp: enqueue_step_def intro!: request_move.stay)
  qed
next
  case (EqFail i reason)
  with assms show ?thesis
    by (intro exI [of _ "EqRefused (QueueUnavailable i)"]) (auto simp: enqueue_step_def split: enqueue_event.splits intro!: request_move.failed)
qed (use assms in \<open>auto simp: enqueue_step_def\<close>)
section \<open>Every run has one place\<close>

definition row_keys :: "chat_run list \<Rightarrow> (string \<times> string) list" where
  "row_keys rs = map (\<lambda>r. (cr_id r, cr_session r)) rs"

lemma row_keys_simps [simp]: "row_keys [] = []" "row_keys (rs @ rs') = row_keys rs @ row_keys rs'"
  by (simp_all add: row_keys_def)

lemma closes_keys: "closes i rs rs' \<Longrightarrow> row_keys rs' = row_keys rs"
  by (auto simp: closes_def closing_def row_keys_def change_run_def)

lemma update_keys: "update_run_status now i st rs = Inr rs' \<Longrightarrow> row_keys rs' = row_keys rs"
  by (auto simp: update_run_status_def row_keys_def change_run_def Let_def split: if_splits)

lemma update_one_open: "update_run_status now i st rs = Inr rs' \<Longrightarrow> one_open rs'"
  by (auto simp: update_run_status_def Let_def split: if_splits)

lemma create_runD:
  assumes "create_run now i session st rs = Inr rs'"
  obtains r where "rs' = rs @ [r]" "cr_id r = i" "cr_session r = session" "cr_status r = st" "one_open rs'"
    "cr_started r = (if st = RunQueued then None else Some now)"
  using assms by (auto simp: create_run_def Let_def split: if_splits)

lemma closes_one_open:
  assumes "one_open rs" and "closes i rs rs'"
  shows "one_open rs'"
proof -
  have open_rest: "filter is_open (change_run i f rs) = filter (\<lambda>r. cr_id r \<noteq> i) (filter is_open rs)" if "closing f" for f
    using that by (induction rs) (auto simp: change_run_def closing_def)
  show ?thesis using assms distinct_map_filter [of cr_session "filter is_open rs" "\<lambda>r. cr_id r \<noteq> i"]
    unfolding closes_def one_open_def by (metis open_rest)
qed

definition held_ids :: "enqueue_req list \<Rightarrow> string list" where
  "held_ids qs = concat (map (\<lambda>q. phase_ids (eq_phase q)) qs)"

definition tokens :: "async_state \<Rightarrow> string multiset" where
  "tokens s = mset (held_ids (as_requests s)) + mset (map fst (as_queue s)) + mset (map rt_run (as_tasks s))"

lemma held_update:
  assumes "k < length qs"
  shows "mset (held_ids (qs[k := q'])) + mset (phase_ids (eq_phase (qs ! k))) = mset (held_ids qs) + mset (phase_ids (eq_phase q'))"
  unfolding held_ids_def by (subst (3) id_take_nth_drop [OF assms]) (simp add: upd_conv_take_nth_drop [OF assms])

lemma map_run_same:
  assumes "i < length ts" and "same_task (ts ! i) t'"
  shows "map rt_run (ts[i := t']) = map rt_run ts"
proof -
  have "rt_run t' = map rt_run ts ! i" using assms by (simp add: same_task_def)
  then show ?thesis by (simp add: map_update)
qed

definition registered :: "async_state \<Rightarrow> bool" where
  "registered s \<longleftrightarrow> (\<forall>i < length (as_tasks s). rt_phase (as_tasks s ! i) \<notin> {TkStore, TkForget, TkGone} \<longrightarrow>
     map_of (as_cancellers s) (rt_pod (as_tasks s ! i), rt_run (as_tasks s ! i)) = Some i)"

definition known :: "async_state \<Rightarrow> bool" where
  "known s \<longleftrightarrow> set (map (\<lambda>t. (rt_run t, rt_session t)) (as_tasks s)) \<subseteq> set (row_keys (as_runs s))
     \<and> (\<forall>m\<in>set (as_queue s). (fst m, fst (snd m)) \<in> set (row_keys (as_runs s)))
     \<and> (\<forall>q\<in>set (as_requests s). \<forall>i\<in>set (phase_ids (eq_phase q)). (i, eq_session q) \<in> set (row_keys (as_runs s)))"

definition wf_async :: "async_state \<Rightarrow> bool" where
  "wf_async s \<longleftrightarrow> (\<forall>r. count (tokens s) r \<le> 1) \<and> distinct (map cr_id (as_runs s)) \<and> one_open (as_runs s) \<and> known s \<and> registered s"

definition acked :: "async_label \<Rightarrow> bool" where
  "acked l \<longleftrightarrow> (case l of Deliver _ a \<Rightarrow> a | _ \<Rightarrow> True)"

lemma wf_new: "wf_async new_async"
  by (simp add: wf_async_def new_async_def tokens_def held_ids_def one_open_def known_def registered_def)

lemma keys_ids: "row_keys rs' = row_keys rs \<Longrightarrow> map cr_id rs' = map cr_id rs"
proof -
  assume "row_keys rs' = row_keys rs"
  then have "map fst (row_keys rs') = map fst (row_keys rs)" by simp
  then show ?thesis by (simp add: row_keys_def o_def)
qed

lemma known_tokens: "known s \<Longrightarrow> r \<in># tokens s \<Longrightarrow> r \<in> cr_id ` set (as_runs s)"
proof -
  assume k: "known s" and r: "r \<in># tokens s"
  have "\<exists>session. (r, session) \<in> set (row_keys (as_runs s))"
    using k r unfolding known_def tokens_def held_ids_def by (auto 0 3)
  then show ?thesis by (auto simp: row_keys_def)
qed

lemma tasks_distinct:
  assumes "wf_async s" "i < length (as_tasks s)" "j < length (as_tasks s)" "rt_run (as_tasks s ! i) = rt_run (as_tasks s ! j)"
  shows "i = j"
proof -
  have "count (mset (map rt_run (as_tasks s))) r \<le> 1" for r
    using assms(1) unfolding wf_async_def tokens_def by (metis add_leD2 count_union)
  then have "distinct (map rt_run (as_tasks s))"
    unfolding distinct_count_atmost_1 by (metis count_greater_zero_iff le_antisym less_one not_le not_in_iff set_mset_mset)
  with assms show ?thesis by (metis length_map nth_eq_iff_index_eq nth_map)
qed
lemma move_table:
  assumes "task_move i t t' s s'"
  shows "row_keys (as_runs s') = row_keys (as_runs s)" and "one_open (as_runs s) \<Longrightarrow> one_open (as_runs s')"
proof -
  show "row_keys (as_runs s') = row_keys (as_runs s)"
    using assms by cases (auto simp: closes_keys update_keys)
  show "one_open (as_runs s')" if "one_open (as_runs s)"
    using assms by cases (use that closes_one_open update_one_open in auto)
qed

lemma wfI:
  assumes "wf_async s" and "tokens s' = tokens s" and "row_keys (as_runs s') = row_keys (as_runs s)" and "one_open (as_runs s')"
    and "known s'" and "registered s'"
  shows "wf_async s'"
  using assms keys_ids [OF assms(3)] by (simp add: wf_async_def)

lemma nth_update_cases: "j < length (xs[i := x]) \<Longrightarrow> (j = i \<and> xs[i := x] ! j = x) \<or> (j \<noteq> i \<and> xs[i := x] ! j = xs ! j)"
  by (cases "j = i") simp_all

lemma registered_move:
  assumes wf: "wf_async s" and i: "i < length (as_tasks s)" and f: "framed i (as_tasks s ! i) t' s s'"
    and m: "task_move i (as_tasks s ! i) t' s s'"
  shows "registered s'"
  unfolding registered_def
proof (intro allI impI)
  let ?t = "as_tasks s ! i"
  have reg: "rt_phase (as_tasks s ! j) \<notin> {TkStore, TkForget, TkGone} \<Longrightarrow>
      map_of (as_cancellers s) (rt_pod (as_tasks s ! j), rt_run (as_tasks s ! j)) = Some j" if "j < length (as_tasks s)" for j
    using wf that by (simp add: wf_async_def registered_def)
  fix j assume j: "j < length (as_tasks s')" and ph: "rt_phase (as_tasks s' ! j) \<notin> {TkStore, TkForget, TkGone}"
  have len: "j < length (as_tasks s)" and ts: "as_tasks s' = (as_tasks s)[i := t']" and same: "same_task ?t t'"
    using f j by (auto simp: framed_def)
  show "map_of (as_cancellers s') (rt_pod (as_tasks s' ! j), rt_run (as_tasks s' ! j)) = Some j"
  proof (cases "j = i")
    case True
    have t': "as_tasks s' ! j = t'" "rt_pod t' = rt_pod ?t" "rt_run t' = rt_run ?t" using True ts i same by (simp_all add: same_task_def)
    from m show ?thesis
      by cases (use reg [OF i] ph t' True in \<open>auto simp: update_conv executing_def split: if_splits\<close>)
  next
    case False
    have tj: "as_tasks s' ! j = as_tasks s ! j" using False ts by simp
    have "rt_run (as_tasks s ! j) \<noteq> rt_run ?t" using tasks_distinct [OF wf len i] False by blast
    with m have "map_of (as_cancellers s') (rt_pod (as_tasks s ! j), rt_run (as_tasks s ! j))
        = map_of (as_cancellers s) (rt_pod (as_tasks s ! j), rt_run (as_tasks s ! j))"
      by cases (auto simp: update_conv delete_conv)
    then show ?thesis using reg [OF len] ph tj by simp
  qed
qed

lemma wf_task:
  assumes wf: "wf_async s" and i: "i < length (as_tasks s)" and f: "framed i (as_tasks s ! i) t' s s'"
    and m: "task_move i (as_tasks s ! i) t' s s'"
  shows "wf_async s'"
proof (rule wfI [OF wf])
  have ts: "as_tasks s' = (as_tasks s)[i := t']" and same: "same_task (as_tasks s ! i) t'"
    and rest: "as_queue s' = as_queue s" "as_requests s' = as_requests s" using f by (auto simp: framed_def)
  show "tokens s' = tokens s" by (simp add: tokens_def rest ts map_run_same [OF i same])
  show keys: "row_keys (as_runs s') = row_keys (as_runs s)" by (rule move_table(1) [OF m])
  show "one_open (as_runs s')" using move_table(2) [OF m] wf by (simp add: wf_async_def)
  show "registered s'" by (rule registered_move [OF wf i f m])
  have "(rt_run t, rt_session t) \<in> set (row_keys (as_runs s))" if "t \<in> set (as_tasks s')" for t
  proof -
    have "t = t' \<or> t \<in> set (as_tasks s)" using that ts set_update_subset_insert [of "as_tasks s" i t'] by auto
    moreover have "(rt_run t', rt_session t') = (rt_run (as_tasks s ! i), rt_session (as_tasks s ! i))" using same by (simp add: same_task_def)
    ultimately show ?thesis using wf i by (auto simp: wf_async_def known_def)
  qed
  then show "known s'" using wf by (auto simp: wf_async_def known_def rest keys )
qed

text \<open>Cancelling a context changes nothing that these properties are about.\<close>

lemma cancel_context_fields [simp]:
  "as_now (cancel_context i s) = as_now s" "as_runs (cancel_context i s) = as_runs s" "as_queue (cancel_context i s) = as_queue s"
  "as_requests (cancel_context i s) = as_requests s" "as_cancels (cancel_context i s) = as_cancels s"
  "as_cancellers (cancel_context i s) = as_cancellers s" "as_cancelled (cancel_context i s) = as_cancelled s"
  "length (as_tasks (cancel_context i s)) = length (as_tasks s)"
  by (simp_all add: cancel_context_def)

lemma cancel_context_nth:
  "j < length (as_tasks s) \<Longrightarrow>
     as_tasks (cancel_context i s) ! j = (if j = i then (as_tasks s ! j)\<lparr>rt_cancelled := True\<rparr> else as_tasks s ! j)"
  by (simp add: cancel_context_def)

lemma cancel_context_map: "(\<And>t. f (t\<lparr>rt_cancelled := True\<rparr>) = f t) \<Longrightarrow> map f (as_tasks (cancel_context i s)) = map f (as_tasks s)"
  by (rule nth_equalityI) (auto simp: cancel_context_nth)

lemma wf_cancel_context:
  assumes "wf_async s"
  shows "wf_async (cancel_context i s)"
proof (rule wfI [OF assms])
  show "tokens (cancel_context i s) = tokens s" by (simp add: tokens_def cancel_context_map)
  have "map (\<lambda>t. (rt_run t, rt_session t)) (as_tasks (cancel_context i s)) = map (\<lambda>t. (rt_run t, rt_session t)) (as_tasks s)"
    by (rule cancel_context_map) simp
  with assms show "known (cancel_context i s)" unfolding wf_async_def known_def cancel_context_fields by metis
  show "registered (cancel_context i s)" using assms by (auto simp: wf_async_def registered_def cancel_context_nth)
qed (use assms in \<open>simp_all add: wf_async_def\<close>)
lemma registered_cong:
  "as_tasks s' = as_tasks s \<Longrightarrow> as_cancellers s' = as_cancellers s \<Longrightarrow> registered s' = registered s"
  by (simp add: registered_def)

text \<open>The rows that a request leaves, and the identifiers it holds.\<close>

lemma request_table:
  assumes "request_move ev q ph env s s'" and "wf_async s" and "k < length (as_requests s)" and "q = as_requests s ! k"
    and "as_requests s' = (as_requests s)[k := q\<lparr>eq_phase := ph\<rparr>]" and "as_tasks s' = as_tasks s"
  shows "set (row_keys (as_runs s)) \<subseteq> set (row_keys (as_runs s'))" and "distinct (map cr_id (as_runs s'))" and "one_open (as_runs s')"
    and "\<forall>i\<in>set (phase_ids ph). (i, eq_session q) \<in> set (row_keys (as_runs s'))"
    and "\<forall>m\<in>set (as_queue s'). (fst m, fst (snd m)) \<in> set (row_keys (as_runs s'))"
    and "\<forall>r. count (tokens s') r \<le> 1"
proof -
  have q: "q \<in> set (as_requests s)" using assms(3,4) by simp
  have wf: "distinct (map cr_id (as_runs s))" "one_open (as_runs s)" "\<And>r. count (tokens s) r \<le> 1"
    and ids: "\<forall>i\<in>set (phase_ids (eq_phase q)). (i, eq_session q) \<in> set (row_keys (as_runs s))"
    and queue: "\<forall>m\<in>set (as_queue s). (fst m, fst (snd m)) \<in> set (row_keys (as_runs s))"
    using assms(2) q unfolding wf_async_def known_def by blast+
  have held: "mset (held_ids (as_requests s')) + mset (phase_ids (eq_phase q)) = mset (held_ids (as_requests s)) + mset (phase_ids ph)"
    using held_update [OF assms(3), of "q\<lparr>eq_phase := ph\<rparr>"] assms(4,5) by simp
  have tok: "tokens s' + mset (phase_ids (eq_phase q)) + mset (map fst (as_queue s))
      = tokens s + mset (phase_ids ph) + mset (map fst (as_queue s'))"
    using held assms(6) unfolding tokens_def by (simp add: ac_simps)
  have "set (row_keys (as_runs s)) \<subseteq> set (row_keys (as_runs s')) \<and> distinct (map cr_id (as_runs s')) \<and> one_open (as_runs s')
    \<and> (\<forall>i\<in>set (phase_ids ph). (i, eq_session q) \<in> set (row_keys (as_runs s')))
    \<and> (\<forall>m\<in>set (as_queue s'). (fst m, fst (snd m)) \<in> set (row_keys (as_runs s'))) \<and> (\<forall>r. count (tokens s') r \<le> 1)"
    using assms(1)
  proof cases
    case (inserted i)
    then obtain r where r: "as_runs s' = as_runs s @ [r]" "cr_id r = i" "cr_session r = eq_session q" "one_open (as_runs s')"
      by (auto elim: create_runD)
    have "i \<notin># tokens s" using inserted(2) assms(2) known_tokens by (auto simp: wf_async_def)
    moreover have "tokens s' = tokens s + mset (phase_ids ph)" using tok inserted by simp
    ultimately have "\<forall>r. count (tokens s') r \<le> 1" using wf(3) inserted(4) by (auto simp: not_in_iff)
    then show ?thesis using r inserted wf queue by (auto simp: row_keys_def)
  next
    case (published i)
    then have "tokens s' = tokens s" using tok by simp
    then show ?thesis using published wf ids queue by auto
  next
    case (expired i reason)
    then have "tokens s' = tokens s" using tok by simp
    then show ?thesis using expired wf queue closes_keys [OF expired(3)] keys_ids [OF closes_keys [OF expired(3)]] closes_one_open [OF wf(2) expired(3)] by simp
  next
    case (failed i reason)
    then have "tokens s' + {#i#} = tokens s" using tok by simp
    then have "\<forall>r. count (tokens s') r \<le> 1" using wf(3) by (metis count_union le_add1 le_trans)
    then show ?thesis using failed wf queue closes_keys [OF failed(3)] keys_ids [OF closes_keys [OF failed(3)]] closes_one_open [OF wf(2) failed(3)] by simp
  next
    case stay
    then have "tokens s' = tokens s" using tok by simp
    then show ?thesis using stay wf ids queue by auto
  next
    case (found r reason)
    then have "tokens s' = tokens s" using tok by simp
    then show ?thesis using found wf queue by auto
  qed
  then show "set (row_keys (as_runs s)) \<subseteq> set (row_keys (as_runs s'))" and "distinct (map cr_id (as_runs s'))"
    and "one_open (as_runs s')" and "\<forall>i\<in>set (phase_ids ph). (i, eq_session q) \<in> set (row_keys (as_runs s'))"
    and "\<forall>m\<in>set (as_queue s'). (fst m, fst (snd m)) \<in> set (row_keys (as_runs s'))" and "\<forall>r. count (tokens s') r \<le> 1"
    by blast+
qed

lemma wf_request:
  assumes wf: "wf_async s" and k: "k < length (as_requests s)" and step: "enqueue_step env k ev (as_requests s ! k) s = Some s'"
  shows "wf_async s'"
proof -
  let ?q = "as_requests s ! k"
  obtain ph where m: "request_move ev ?q ph env s s'" and rq: "as_requests s' = (as_requests s)[k := ?q\<lparr>eq_phase := ph\<rparr>]"
    and rest: "as_tasks s' = as_tasks s" "as_cancellers s' = as_cancellers s"
    using enqueue_step_moves [OF step] by auto
  note table = request_table [OF m wf k refl rq rest(1)]
  have "(i, eq_session q) \<in> set (row_keys (as_runs s'))" if "q \<in> set (as_requests s')" "i \<in> set (phase_ids (eq_phase q))" for q i
  proof -
    have "q = ?q\<lparr>eq_phase := ph\<rparr> \<or> q \<in> set (as_requests s)" using that(1) rq set_update_subset_insert [of "as_requests s" k] by auto
    with that(2) table(1,4) wf show ?thesis unfolding wf_async_def known_def by auto
  qed
  moreover have "set (map (\<lambda>t. (rt_run t, rt_session t)) (as_tasks s')) \<subseteq> set (row_keys (as_runs s'))"
    using wf table(1) rest(1) unfolding wf_async_def known_def by auto
  ultimately have "known s'" using table(5) unfolding known_def by blast
  moreover have "registered s'" using wf registered_cong [OF rest] unfolding wf_async_def by simp
  ultimately show ?thesis using table(2,3,6) unfolding wf_async_def by blast
qed

lemma wf_deliver:
  assumes "wf_async s" and "deliver env pod True s = Some s'"
  shows "wf_async s'"
proof -
  obtain m q where q: "as_queue s = m # q" and s': "s' = s\<lparr>as_queue := q, as_tasks := as_tasks s @ [new_task env (as_now s) pod m]\<rparr>"
    using assms(2) by (auto simp: deliver_def split: list.splits)
  have new: "rt_run (new_task env (as_now s) pod m) = fst m" "rt_session (new_task env (as_now s) pod m) = fst (snd m)"
    "rt_phase (new_task env (as_now s) pod m) = TkStore"
    by (simp_all add: new_task_def split: prod.splits)
  show ?thesis
  proof (rule wfI [OF assms(1)])
    show "tokens s' = tokens s" by (simp add: tokens_def s' q new)
    show "known s'" using assms(1) by (auto simp: wf_async_def known_def s' q new)
    show "registered s'" using assms(1) by (auto simp: wf_async_def registered_def s' new nth_append)
  qed (use assms(1) in \<open>simp_all add: s' wf_async_def\<close>)
qed
text \<open>The kinds of steps of a cancellation: the state before the phase is set.\<close>

inductive cancel_move :: "cancel_req \<Rightarrow> cancel_phase \<Rightarrow> async_state \<Rightarrow> async_state \<Rightarrow> bool" where
  lost: "cancel_move c CnNotFound s s" if "cn_phase c \<in> {CnCheck, CnWrite}"
| seen: "cancel_move c CnStore s s" if "cn_phase c = CnCheck" "cn_run c \<in> cr_id ` set (as_runs s)"
| stored: "cancel_move c CnLoad s (s\<lparr>as_cancelled := insert (cn_pod c, cn_run c) (as_cancelled s)\<rparr>)" if "cn_phase c = CnStore"
| loaded: "cancel_move c (CnCall i) s s" if "cn_phase c = CnLoad" "map_of (as_cancellers s) (cn_pod c, cn_run c) = Some i"
| absent: "cancel_move c CnWrite s s" if "cn_phase c = CnLoad" "map_of (as_cancellers s) (cn_pod c, cn_run c) = None"
| called: "cancel_move c CnCancelled s (cancel_context i s)" if "cn_phase c = CnCall i"
| written: "cancel_move c CnCancelled s (set_runs rs s)" if "cn_phase c = CnWrite" "closes (cn_run c) (as_runs s) rs"

lemma run_of_Some: "run_of i rs = Some r \<Longrightarrow> r \<in> set rs \<and> cr_id r = i"
  unfolding run_of_def by (auto simp: find_Some_iff)

lemma cancel_step_moves:
  assumes "cancel_step k ev c s = Some s'"
  shows "\<exists>ph s1. cancel_move c ph s s1 \<and> s' = put_cancel k c ph s1"
proof (cases "cn_phase c")
  case CnCheck
  with assms obtain ph where "s' = put_cancel k c ph s" "ph = CnNotFound \<or> ph = CnStore \<and> run_of (cn_run c) (as_runs s) \<noteq> None"
    by (auto simp: cancel_step_def split: cancel_event.splits option.splits if_splits)
  moreover have "cn_run c \<in> cr_id ` set (as_runs s)" if "run_of (cn_run c) (as_runs s) \<noteq> None"
    using that by (auto dest: run_of_Some intro!: rev_image_eqI)
  ultimately show ?thesis using CnCheck cancel_move.lost cancel_move.seen by blast
next
  case CnWrite
  with assms show ?thesis
    by (auto simp: cancel_step_def split: cancel_event.splits sum.splits if_splits
        intro: cancel_move.lost cancel_move.written closes_cancel)
qed (use assms in \<open>auto simp: cancel_step_def split: if_splits option.splits intro: cancel_move.intros\<close>)

lemma wf_cong:
  assumes "wf_async s" and "as_runs s' = as_runs s" "as_tasks s' = as_tasks s" "as_queue s' = as_queue s"
    "as_requests s' = as_requests s" "as_cancellers s' = as_cancellers s"
  shows "wf_async s'"
  using assms by (simp add: wf_async_def tokens_def known_def registered_def)

lemma wf_closes:
  assumes "wf_async s" and "closes i (as_runs s) rs"
  shows "wf_async (set_runs rs s)"
  using assms closes_keys [OF assms(2)] keys_ids [OF closes_keys [OF assms(2)]] closes_one_open [OF _ assms(2)]
  by (simp add: wf_async_def tokens_def known_def registered_def)

lemma wf_cancel:
  assumes wf: "wf_async s" and step: "cancel_step k ev c s = Some s'"
  shows "wf_async s'"
proof -
  obtain ph s1 where m: "cancel_move c ph s s1" and s': "s' = put_cancel k c ph s1" using cancel_step_moves [OF step] by blast
  from m have "wf_async s1"
    by cases (use wf wf_cancel_context wf_closes in \<open>auto intro: wf_cong\<close>)
  then show ?thesis by (rule wf_cong) (simp_all add: s')
qed

lemma wf_shutdown:
  assumes "wf_async s" and "shutdown_one pod run s = Some s'"
  shows "wf_async s'"
proof -
  obtain i where "s' = cancel_context i (s\<lparr>as_cancelled := insert (pod, run) (as_cancelled s)\<rparr>)"
    using assms(2) by (auto simp: shutdown_one_def split: option.splits)
  moreover have "wf_async (s\<lparr>as_cancelled := insert (pod, run) (as_cancelled s)\<rparr>)" by (rule wf_cong [OF assms(1)]) simp_all
  ultimately show ?thesis by (simp add: wf_cancel_context)
qed

lemma wf_step:
  assumes "acked l" and wf: "wf_async s" and "async_step env l s = Some s'"
  shows "wf_async s'"
proof (cases l)
  case (RequestStep k ev)
  with assms show ?thesis by (auto simp: async_step_def split: if_splits intro: wf_request)
next
  case (CancelStep k ev)
  with assms show ?thesis by (auto simp: async_step_def split: if_splits intro: wf_cancel)
next
  case (Deliver pod a)
  with assms show ?thesis by (auto simp: async_step_def acked_def intro: wf_deliver)
next
  case (TaskStep i ev)
  with assms have i: "i < length (as_tasks s)" and step: "task_step env i ev (as_tasks s ! i) s = Some s'"
    by (auto simp: async_step_def split: if_splits)
  from task_step_moves [OF step] wf_task [OF wf i] show ?thesis by blast
next
  case (ShutdownRun pod run)
  with assms show ?thesis by (auto simp: async_step_def intro: wf_shutdown)
next
  case (NewRequest pod session voice override)
  then have s': "s' = s\<lparr>as_requests := as_requests s
      @ [\<lparr>eq_pod = pod, eq_session = session, eq_voice = voice, eq_override = override, eq_phase = EqSession\<rparr>]\<rparr>"
    using assms(3) by (simp add: async_step_def)
  have "known s'" using wf unfolding wf_async_def known_def s' by simp
  with wf show ?thesis by (simp add: wf_async_def tokens_def held_ids_def registered_def s')
next
  case (NewCancel pod session run)
  with assms(3) wf show ?thesis by (auto simp: async_step_def intro: wf_cong)
next
  case Tick
  with assms(3) wf show ?thesis by (auto simp: async_step_def intro: wf_cong)
qed

lemma wf_reachable:
  assumes "async_run env ls new_async = Some s" and "list_all acked ls"
  shows "wf_async s"
  using assms by (rule async_invariant) (auto simp: wf_new intro: wf_step)
section \<open>A cancellation is heard\<close>

definition cancel_pending :: "nat \<Rightarrow> nat \<Rightarrow> string \<Rightarrow> async_state \<Rightarrow> bool" where
  "cancel_pending i pod run s \<longleftrightarrow>
     (\<exists>c\<in>set (as_cancels s). cn_pod c = pod \<and> cn_run c = run \<and> (cn_phase c = CnLoad \<or> cn_phase c = CnCall i))"

definition heard_by :: "async_state \<Rightarrow> nat \<Rightarrow> run_task \<Rightarrow> bool" where
  "heard_by s i t \<longleftrightarrow> (executing (rt_phase t) \<and> (rt_pod t, rt_run t) \<in> as_cancelled s
     \<longrightarrow> rt_cancelled t \<or> cancel_pending i (rt_pod t) (rt_run t) s)"

definition heard :: "async_state \<Rightarrow> bool" where
  "heard s \<longleftrightarrow> (\<forall>i < length (as_tasks s). heard_by s i (as_tasks s ! i))"

lemma in_update_cases: "k < length xs \<Longrightarrow> x \<in> set xs \<Longrightarrow> x = xs ! k \<or> x \<in> set (xs[k := y])"
  by (metis in_set_conv_nth length_list_update nth_list_update_neq)

lemma registered_executing:
  "wf_async s \<Longrightarrow> i < length (as_tasks s) \<Longrightarrow> executing (rt_phase (as_tasks s ! i)) \<Longrightarrow>
     map_of (as_cancellers s) (rt_pod (as_tasks s ! i), rt_run (as_tasks s ! i)) = Some i"
  by (auto simp: wf_async_def registered_def executing_def)

lemma heard_cong:
  assumes "heard s" and "as_tasks s' = as_tasks s" "as_cancelled s' = as_cancelled s" "set (as_cancels s) \<subseteq> set (as_cancels s')"
  shows "heard s'"
proof -
  have "cancel_pending i pod run s'" if "cancel_pending i pod run s" for i pod run
    using that assms(4) unfolding cancel_pending_def by blast
  with assms show ?thesis unfolding heard_def heard_by_def by (simp, blast)
qed

lemma heard_task:
  assumes "heard s" and "i < length (as_tasks s)" and f: "framed i (as_tasks s ! i) t' s s'"
    and m: "task_move i (as_tasks s ! i) t' s s'"
  shows "heard s'"
  unfolding heard_def
proof (intro allI impI)
  fix j assume j: "j < length (as_tasks s')"
  have ts: "as_tasks s' = (as_tasks s)[i := t']" and same: "same_task (as_tasks s ! i) t'" and cn: "as_cancels s' = as_cancels s"
    and rc: "rt_phase t' = TkGone \<or> rt_cancelled t' = rt_cancelled (as_tasks s ! i)"
    using f by (auto simp: framed_def)
  have sub: "as_cancelled s' \<subseteq> as_cancelled s" using m by cases auto
  have pend: "cancel_pending j pod run s' = cancel_pending j pod run s" for pod run by (simp add: cancel_pending_def cn)
  have old: "heard_by s j (as_tasks s ! j)" using assms(1) j ts by (simp add: heard_def)
  show "heard_by s' j (as_tasks s' ! j)"
  proof (cases "j = i")
    case True
    have t': "as_tasks s' ! j = t'" using True ts assms(2) by simp
    have id: "rt_pod t' = rt_pod (as_tasks s ! i)" "rt_run t' = rt_run (as_tasks s ! i)" using same by (simp_all add: same_task_def)
    have "executing (rt_phase (as_tasks s ! i))"
      if "executing (rt_phase t')" "(rt_pod (as_tasks s ! i), rt_run (as_tasks s ! i)) \<in> as_cancelled s'"
      using m by cases (use that in \<open>simp_all split: if_splits\<close>)
    moreover have "rt_cancelled t' = rt_cancelled (as_tasks s ! i)" if "executing (rt_phase t')" using rc that by auto
    ultimately show ?thesis using old sub True unfolding heard_by_def t' pend id by blast
  next
    case False
    then have "as_tasks s' ! j = as_tasks s ! j" using ts by simp
    with old sub pend show ?thesis by (auto simp: heard_by_def)
  qed
qed

text \<open>Storing the intent and cancelling the context of the registered task.\<close>

lemma heard_shutdown:
  assumes wf: "wf_async s" and "heard s" and i: "map_of (as_cancellers s) (pod, run) = Some i"
  shows "heard (cancel_context i (s\<lparr>as_cancelled := insert (pod, run) (as_cancelled s)\<rparr>))" (is "heard ?s")
  unfolding heard_def
proof (intro allI impI)
  fix j assume "j < length (as_tasks ?s)"
  then have j: "j < length (as_tasks s)" by simp
  have old: "heard_by s j (as_tasks s ! j)" using assms(2) j by (simp add: heard_def)
  have "as_tasks ?s ! j = (if j = i then (as_tasks s ! j)\<lparr>rt_cancelled := True\<rparr> else as_tasks s ! j)"
    using cancel_context_nth [of j "s\<lparr>as_cancelled := insert (pod, run) (as_cancelled s)\<rparr>" i] j by simp
  moreover have "j = i" if "executing (rt_phase (as_tasks s ! j))" "(rt_pod (as_tasks s ! j), rt_run (as_tasks s ! j)) = (pod, run)"
    using registered_executing [OF wf j that(1)] i that(2) by simp
  moreover have "cancel_pending j p r ?s = cancel_pending j p r s" for p r by (simp add: cancel_pending_def)
  ultimately show "heard_by ?s j (as_tasks ?s ! j)" using old unfolding heard_by_def by (cases "j = i") fastforce+
qed

lemma heard_cancel:
  assumes wf: "wf_async s" and h: "heard s" and k: "k < length (as_cancels s)" and step: "cancel_step k ev (as_cancels s ! k) s = Some s'"
  shows "heard s'"
  unfolding heard_def
proof (intro allI impI)
  let ?c = "as_cancels s ! k"
  obtain ph s1 where m: "cancel_move ?c ph s s1" and s': "s' = put_cancel k ?c ph s1" using cancel_step_moves [OF step] by blast
  fix j assume "j < length (as_tasks s')"
  moreover have "length (as_tasks s') = length (as_tasks s)" using m by cases (simp_all add: s')
  ultimately have j: "j < length (as_tasks s)" by simp
  let ?t = "as_tasks s ! j"
  have old: "heard_by s j ?t" using h j by (simp add: heard_def)
  have cs: "as_cancels s' = (as_cancels s)[k := ?c\<lparr>cn_phase := ph\<rparr>]" using m by cases (simp_all add: s')
  have new: "?c\<lparr>cn_phase := ph\<rparr> \<in> set (as_cancels s')" using k by (simp add: cs set_update_memI)
  have reg: "executing (rt_phase ?t) \<Longrightarrow> map_of (as_cancellers s) (rt_pod ?t, rt_run ?t) = Some j"
    by (rule registered_executing [OF wf j])
  have made: "cancel_pending j (cn_pod ?c) (cn_run ?c) s'" if "ph = CnLoad \<or> ph = CnCall j"
    using new that unfolding cancel_pending_def by (intro bexI [of _ "?c\<lparr>cn_phase := ph\<rparr>"]) auto
  show "heard_by s' j (as_tasks s' ! j)"
  proof (cases "cn_pod ?c = rt_pod ?t \<and> cn_run ?c = rt_run ?t")
    case False
    have "cancel_pending j (rt_pod ?t) (rt_run ?t) s'" if "cancel_pending j (rt_pod ?t) (rt_run ?t) s"
      using that False in_update_cases [OF k, of _ "?c\<lparr>cn_phase := ph\<rparr>"] unfolding cancel_pending_def cs by metis
    with m old False j show ?thesis by cases (auto simp: heard_by_def s' cancel_context_nth)
  next
    case True
    have keep: "cancel_pending j (rt_pod ?t) (rt_run ?t) s'"
      if "cancel_pending j (rt_pod ?t) (rt_run ?t) s" "cn_phase ?c \<noteq> CnLoad" "cn_phase ?c \<noteq> CnCall j"
      using that in_update_cases [OF k, of _ "?c\<lparr>cn_phase := ph\<rparr>"] unfolding cancel_pending_def cs by metis
    from m show ?thesis
    proof cases
      case stored
      with made True show ?thesis by (simp add: heard_by_def s')
    next
      case (loaded i)
      with made True reg show ?thesis by (simp add: heard_by_def s')
    next
      case absent
      with True reg show ?thesis by (fastforce simp: heard_by_def s')
    next
      case (called i)
      show ?thesis
      proof (cases "i = j")
        case True
        with called j show ?thesis by (simp add: heard_by_def s' cancel_context_nth)
      next
        case False
        with called keep old j show ?thesis by (fastforce simp: heard_by_def s' cancel_context_nth)
      qed
    qed ((use old keep in \<open>fastforce simp: heard_by_def s'\<close>)+)
  qed
qed
lemma heard_step:
  assumes "acked l" and wf: "wf_async s" and h: "heard s" and "async_step env l s = Some s'"
  shows "heard s'"
proof (cases l)
  case (RequestStep k ev)
  with assms have "enqueue_step env k ev (as_requests s ! k) s = Some s'" by (auto simp: async_step_def split: if_splits)
  from enqueue_step_moves [OF this] h show ?thesis by (auto intro: heard_cong)
next
  case (CancelStep k ev)
  with assms show ?thesis by (auto simp: async_step_def split: if_splits intro: heard_cancel)
next
  case (Deliver pod a)
  then obtain m where "as_tasks s' = as_tasks s @ [new_task env (as_now s) pod m]" "as_cancels s' = as_cancels s" "as_cancelled s' = as_cancelled s"
    using assms(4) by (auto simp: async_step_def deliver_def split: list.splits)
  moreover have "rt_phase (new_task env (as_now s) pod m) = TkStore" by (simp add: new_task_def split: prod.splits)
  ultimately show ?thesis using h by (auto simp: heard_def heard_by_def nth_append cancel_pending_def)
next
  case (TaskStep i ev)
  with assms have i: "i < length (as_tasks s)" and step: "task_step env i ev (as_tasks s ! i) s = Some s'"
    by (auto simp: async_step_def split: if_splits)
  from task_step_moves [OF step] heard_task [OF h i] show ?thesis by blast
next
  case (ShutdownRun pod run)
  with assms show ?thesis by (auto simp: async_step_def shutdown_one_def split: option.splits intro: heard_shutdown)
qed (use assms(4) h in \<open>auto simp: async_step_def intro: heard_cong\<close>)

lemma heard_reachable:
  assumes "async_run env ls new_async = Some s" and "list_all acked ls"
  shows "wf_async s \<and> heard s"
  using assms
proof (rule async_invariant)
  show "wf_async new_async \<and> heard new_async" using wf_new by (simp add: heard_def new_async_def)
qed (blast intro: wf_step heard_step)

text \<open>
  C16: If every delivered message is acknowledged, so that a run has one task, then however the requests, the workers of all processes
  and the cancellations are interleaved: when a cancellation on the process of a run has stored its intent, the run is either
  not executed at all or executed with a context that is done, as soon as no cancellation is between storing the intent and
  calling the cancel function. (A message delivered again gives a second task of the run, and a cancellation reaches only the one
  that registered last.)
\<close>

theorem cancellation_is_heard:
  assumes "async_run env ls new_async = Some s" and "list_all acked ls"
    and "i < length (as_tasks s)" and "t = as_tasks s ! i" and "(rt_pod t, rt_run t) \<in> as_cancelled s"
    and "\<not> cancel_pending i (rt_pod t) (rt_run t) s"
  shows "(executing (rt_phase t) \<longrightarrow> context_done (as_now s) t)
    \<and> (rt_phase t = TkCheck \<longrightarrow> task_step env i TkGo t s = Some (goto i t TkDrop s))
    \<and> (rt_phase t = TkAborted \<longrightarrow> task_step env i TkGo t s = Some (goto i t TkCancelWrite s))"
proof -
  have "heard_by s i t" using heard_reachable [OF assms(1,2)] assms(3,4) by (simp add: heard_def)
  with assms(5,6) show ?thesis
    by (simp add: heard_by_def context_done_def task_step_def startup_step_def ending_step_def)
qed

text \<open>A cancellation that finds its run in the runner.\<close>

lemma map_option_SomeE:
  assumes "map_option f x = Some y" obtains z where "x = Some z" "f z = y"
  using assms by (cases x) simp_all

definition cancel_trace :: "async_label list" where
  "cancel_trace = enqueue_trace 0 ''r1'' @ [Deliver 0 True] @ start_trace 0
     @ [NewCancel 0 ''s'' ''r1'', CancelStep 0 (CnRead True), CancelStep 0 CnGo, CancelStep 0 CnGo, CancelStep 0 CnGo]"

theorem cancellation_is_heard_witness:
  "\<exists>s. async_run sample_async cancel_trace new_async = Some s \<and> length (as_tasks s) = 1
     \<and> rt_phase (as_tasks s ! 0) = TkDrain \<and> context_done (as_now s) (as_tasks s ! 0)"
proof -
  have "map_option (\<lambda>s. (map (\<lambda>t. (rt_pod t, rt_run t, rt_phase t)) (as_tasks s), map cn_phase (as_cancels s), (0, ''r1'') \<in> as_cancelled s))
      (async_run sample_async cancel_trace new_async) = Some ([(0, ''r1'', TkDrain)], [CnCancelled], True)"
    by code_simp
  then obtain s where run: "async_run sample_async cancel_trace new_async = Some s"
    and v: "(map (\<lambda>t. (rt_pod t, rt_run t, rt_phase t)) (as_tasks s), map cn_phase (as_cancels s), (0, ''r1'') \<in> as_cancelled s)
      = ([(0, ''r1'', TkDrain)], [CnCancelled], True)"
    by (rule map_option_SomeE)
  from v have ts: "map (\<lambda>t. (rt_pod t, rt_run t, rt_phase t)) (as_tasks s) = [(0, ''r1'', TkDrain)]"
    and cn: "map cn_phase (as_cancels s) = [CnCancelled]" and c: "(0, ''r1'') \<in> as_cancelled s"
    by simp_all
  obtain t where t: "as_tasks s = [t]" "rt_pod t = 0" "rt_run t = ''r1''" "rt_phase t = TkDrain" using ts by auto
  have a: "list_all acked cancel_trace" by code_simp
  have i: "0 < length (as_tasks s)" "t = as_tasks s ! 0" using t(1) by simp_all
  have m: "(rt_pod t, rt_run t) \<in> as_cancelled s" using t(2,3) c by simp
  have p: "\<not> cancel_pending 0 (rt_pod t) (rt_run t) s"
  proof
    assume "cancel_pending 0 (rt_pod t) (rt_run t) s"
    then obtain c where "c \<in> set (as_cancels s)" "cn_phase c \<noteq> CnCancelled" by (auto simp: cancel_pending_def)
    with cn show False by (cases "as_cancels s") auto
  qed
  from cancellation_is_heard [OF run a i m p] have "context_done (as_now s) t" unfolding t(4) by (simp only: phase_kinds simp_thms)
  with run t(1,4) show ?thesis by (intro exI [of _ s]) (simp only: list.size nth_Cons_0 simp_thms One_nat_def add_0)
qed

end
