(* ===== verification/AsyncExclusive.thy ===== *)
theory AsyncExclusive
  imports AsyncRunFacts
begin

text \<open>
  When the runs of a session are executed one after the other: the invariant of the machine of background runs with one
  worker process and no run that expires in the queue.
\<close>

section \<open>The invariant\<close>

definition calm :: "nat \<Rightarrow> async_label \<Rightarrow> bool" where
  "calm p l \<longleftrightarrow>
     (case l of
        Deliver pod a \<Rightarrow> a \<and> pod = p
      | NewCancel pod _ _ \<Rightarrow> pod = p
      | ShutdownRun pod _ \<Rightarrow> pod = p
      | RequestStep _ ev \<Rightarrow> ev \<noteq> EqExpireQueued
      | _ \<Rightarrow> True)"

lemma calm_acked: "calm p l \<Longrightarrow> acked l"
  by (auto simp: calm_def acked_def split: async_label.splits)

text \<open>A run whose task has not looked yet whether it was cancelled.\<close>

definition to_come :: "string \<Rightarrow> async_state \<Rightarrow> bool" where
  "to_come r s \<longleftrightarrow> r \<in> set (held_ids (as_requests s)) \<or> r \<in> fst ` set (as_queue s)
     \<or> (\<exists>t\<in>set (as_tasks s). rt_run t = r \<and> waiting (rt_phase t))"

definition task_ok :: "async_env \<Rightarrow> nat \<Rightarrow> chat_run \<Rightarrow> run_task \<Rightarrow> bool" where
  "task_ok env now row t \<longleftrightarrow>
     (executing (rt_phase t) \<and> \<not> context_done now t \<longrightarrow> is_open row)
     \<and> (rt_phase t = TkRead \<or> rt_phase t = TkActivate \<longrightarrow> cr_started row = None)
     \<and> (\<forall>x. cr_started row = Some x \<longrightarrow> rt_deadline t \<le> x + ae_timeout env)"

definition row_ok :: "nat \<Rightarrow> async_env \<Rightarrow> async_state \<Rightarrow> chat_run \<Rightarrow> bool" where
  "row_ok p env s row \<longleftrightarrow>
     (to_come (cr_id row) s \<longrightarrow> cr_started row = None \<and> ((p, cr_id row) \<in> as_cancelled s \<or> cr_status row = RunQueued))
     \<and> (\<forall>t\<in>set (as_tasks s). rt_run t = cr_id row \<longrightarrow> task_ok env (as_now s) row t)"

definition expire_ok :: "async_state \<Rightarrow> string \<Rightarrow> bool" where
  "expire_ok s r \<longleftrightarrow> r \<in> cr_id ` set (as_runs s) \<and> \<not> to_come r s
     \<and> (\<forall>t\<in>set (as_tasks s). rt_run t = r \<and> executing (rt_phase t) \<longrightarrow> context_done (as_now s) t)"

definition cancel_ok :: "nat \<Rightarrow> async_state \<Rightarrow> cancel_req \<Rightarrow> bool" where
  "cancel_ok p s c \<longleftrightarrow> cn_pod c = p
     \<and> (cn_phase c \<in> {CnStore, CnLoad, CnWrite} \<longrightarrow> cn_run c \<in> cr_id ` set (as_runs s))
     \<and> (cn_phase c \<in> {CnLoad, CnWrite} \<and> to_come (cn_run c) s \<longrightarrow> (p, cn_run c) \<in> as_cancelled s)
     \<and> (cn_phase c = CnWrite \<longrightarrow> (\<forall>t\<in>set (as_tasks s). rt_run t = cn_run c \<longrightarrow> \<not> executing (rt_phase t)))"

definition rows_ok :: "nat \<Rightarrow> async_env \<Rightarrow> async_state \<Rightarrow> bool" where
  "rows_ok p env s \<longleftrightarrow> (\<forall>row\<in>set (as_runs s). row_ok p env s row)"

definition tasks_ok :: "nat \<Rightarrow> async_env \<Rightarrow> async_state \<Rightarrow> bool" where
  "tasks_ok p env s \<longleftrightarrow> (\<forall>t\<in>set (as_tasks s). rt_pod t = p \<and> rt_deadline t \<le> as_now s + ae_timeout env)"

definition expires_ok :: "async_state \<Rightarrow> bool" where
  "expires_ok s \<longleftrightarrow> (\<forall>q\<in>set (as_requests s). \<forall>r reason. eq_phase q = EqExpire r reason \<longrightarrow> expire_ok s r)"

definition cancels_ok :: "nat \<Rightarrow> async_state \<Rightarrow> bool" where
  "cancels_ok p s \<longleftrightarrow> (\<forall>c\<in>set (as_cancels s). cancel_ok p s c)"

definition calm_inv :: "nat \<Rightarrow> async_env \<Rightarrow> async_state \<Rightarrow> bool" where
  "calm_inv p env s \<longleftrightarrow> wf_async s \<and> tasks_ok p env s \<and> rows_ok p env s \<and> expires_ok s \<and> cancels_ok p s"

lemma calm_invD:
  assumes "calm_inv p env s"
  shows "wf_async s" "tasks_ok p env s" "rows_ok p env s" "expires_ok s" "cancels_ok p s"
  using assms unfolding calm_inv_def by blast+

section \<open>Each run in its place\<close>

lemma to_come_tokens: "to_come r s \<Longrightarrow> r \<in># tokens s"
  by (auto simp: to_come_def tokens_def)

lemma token_count: "wf_async s \<Longrightarrow> count (tokens s) r \<le> 1"
  by (simp add: wf_async_def)

lemma looked_not_to_come:
  assumes wf: "wf_async s" and t: "t \<in> set (as_tasks s)" and "\<not> waiting (rt_phase t)"
  shows "\<not> to_come (rt_run t) s"
proof
  assume "to_come (rt_run t) s"
  moreover have one: "count (mset (map rt_run (as_tasks s))) (rt_run t) \<ge> 1"
    using t by (simp add: count_greater_eq_one_iff)
  moreover have sum: "count (mset (held_ids (as_requests s))) (rt_run t) + count (mset (map fst (as_queue s))) (rt_run t)
      + count (mset (map rt_run (as_tasks s))) (rt_run t) \<le> 1"
    using token_count [OF wf, of "rt_run t"] by (simp add: tokens_def)
  ultimately have "count (mset (held_ids (as_requests s))) (rt_run t) = 0" "count (mset (map fst (as_queue s))) (rt_run t) = 0"
    by linarith+
  then have "rt_run t \<notin> set (held_ids (as_requests s))" "rt_run t \<notin> set (map fst (as_queue s))"
    by (simp_all only: count_eq_zero_iff set_mset_mset not_False_eq_True)
  then obtain u where u: "u \<in> set (as_tasks s)" "rt_run u = rt_run t" "waiting (rt_phase u)"
    using \<open>to_come (rt_run t) s\<close> by (auto simp: to_come_def)
  then have "u = t" using t tasks_distinct [OF wf] by (metis in_set_conv_nth)
  with u assms(3) show False by simp
qed

lemma other_tasks:
  assumes wf: "wf_async s" and i: "i < length (as_tasks s)" and "same_task (as_tasks s ! i) t'" and "t \<in> set ((as_tasks s)[i := t'])"
  shows "t = t' \<or> (t \<in> set (as_tasks s) \<and> rt_run t \<noteq> rt_run t')"
proof -
  obtain j where j: "j < length (as_tasks s)" "t = (as_tasks s)[i := t'] ! j" using assms(4) by (metis in_set_conv_nth length_list_update)
  show ?thesis
  proof (cases "j = i")
    case False
    then have "t = as_tasks s ! j" using j by simp
    moreover have "rt_run (as_tasks s ! j) \<noteq> rt_run (as_tasks s ! i)" using tasks_distinct [OF wf j(1) i] False by blast
    ultimately show ?thesis using assms(3) j(1) by (simp add: same_task_def)
  qed (use i j in simp)
qed

lemma rowD:
  assumes "calm_inv p env s" and "row \<in> set (as_runs s)"
  shows "to_come (cr_id row) s \<Longrightarrow> cr_started row = None"
    and "to_come (cr_id row) s \<Longrightarrow> (p, cr_id row) \<in> as_cancelled s \<or> cr_status row = RunQueued"
    and "t \<in> set (as_tasks s) \<Longrightarrow> rt_run t = cr_id row \<Longrightarrow> task_ok env (as_now s) row t"
  using assms unfolding calm_inv_def rows_ok_def row_ok_def by blast+

lemma rows_unique: "wf_async s \<Longrightarrow> row \<in> set (as_runs s) \<Longrightarrow> row' \<in> set (as_runs s) \<Longrightarrow> cr_id row = cr_id row' \<Longrightarrow> row = row'"
  unfolding wf_async_def distinct_map inj_on_def by blast

lemma task_row:
  assumes "wf_async s" and "t \<in> set (as_tasks s)"
  obtains row where "row \<in> set (as_runs s)" "cr_id row = rt_run t" "cr_session row = rt_session t"
proof -
  have "(rt_run t, rt_session t) \<in> set (row_keys (as_runs s))"
    using assms unfolding wf_async_def known_def by auto
  then show ?thesis using that by (auto simp: row_keys_def)
qed
section \<open>A step of a task\<close>

lemma set_ids: "row_keys rs' = row_keys rs \<Longrightarrow> cr_id ` set rs' = cr_id ` set rs"
  using keys_ids [of rs' rs] by (metis set_map)

lemma move_executing:
  assumes "task_move i t t' s s'" and "executing (rt_phase t')"
  shows "executing (rt_phase t) \<or> (rt_phase t = TkCheck \<and> (rt_pod t, rt_run t) \<notin> as_cancelled s)"
  using assms by cases (auto split: if_splits)

lemma move_waiting: "task_move i t t' s s' \<Longrightarrow> waiting (rt_phase t') \<Longrightarrow> waiting (rt_phase t)"
  by (erule task_move.cases) (auto split: if_splits)

lemma move_cancelled: "task_move i t t' s s' \<Longrightarrow> x \<in> as_cancelled s \<Longrightarrow> x \<in> as_cancelled s' \<or> (x = (rt_pod t, rt_run t) \<and> rt_phase t' = TkGone)"
  by (erule task_move.cases) auto

text \<open>What a task's step leaves of a row, and what it makes of its own.\<close>

lemma move_row:
  assumes "task_move i t t' s s'" and "row' \<in> set (as_runs s')"
  obtains row where "row \<in> set (as_runs s)" "cr_id row' = cr_id row"
    "row' = row \<or> (cr_id row = rt_run t \<and> rt_phase t' = TkExit \<and> cr_started row' = cr_started row)
     \<or> (cr_id row = rt_run t \<and> rt_phase t = TkActivate \<and> rt_phase t' = TkSession \<and> is_open row'
        \<and> cr_started row' = Some (case cr_started row of None \<Rightarrow> as_now s | Some x \<Rightarrow> x))"
  using assms(1)
proof cases
  case activate
  show ?thesis
  proof (cases "as_runs s' = as_runs s")
    case True
    with that [of row'] assms(2) show ?thesis by simp
  next
    case False
    with activate have "as_runs s' = change_run (rt_run t) (\<lambda>r. r\<lparr>cr_status := RunActive, cr_last_event := '''',
        cr_started := Some (case cr_started r of None \<Rightarrow> as_now s | Some x \<Rightarrow> x)\<rparr>) (as_runs s)"
      by (auto simp: update_run_status_def Let_def split: if_splits)
    with assms(2) obtain row where "row \<in> set (as_runs s)" "row' = (if cr_id row = rt_run t then row\<lparr>cr_status := RunActive, cr_last_event := '''',
        cr_started := Some (case cr_started row of None \<Rightarrow> as_now s | Some x \<Rightarrow> x)\<rparr> else row)"
      by (auto simp: change_run_def)
    with that [of row] activate show ?thesis by (auto simp: is_open_def split: if_splits)
  qed
next
  case leave
  show ?thesis
  proof (cases "as_runs s' = as_runs s")
    case True
    with that [of row'] assms(2) show ?thesis by simp
  next
    case False
    with leave obtain f where f: "closing f" "as_runs s' = change_run (rt_run t) f (as_runs s)" by (auto simp: closes_def)
    with assms(2) obtain row where "row \<in> set (as_runs s)" "row' = (if cr_id row = rt_run t then f row else row)" by (auto simp: change_run_def)
    with that [of row] leave f show ?thesis by (auto simp: closing_def split: if_splits)
  qed
qed (use that [of row'] assms(2) in simp_all)

lemma calm_task:
  assumes inv: "calm_inv p env s" and i: "i < length (as_tasks s)" and f: "framed i (as_tasks s ! i) t' s s'"
    and m: "task_move i (as_tasks s ! i) t' s s'"
  shows "calm_inv p env s'"
proof -
  let ?t = "as_tasks s ! i"
  note wf = calm_invD(1) [OF inv]
  have wf': "wf_async s'" by (rule wf_task [OF wf i f m])
  have ts: "as_tasks s' = (as_tasks s)[i := t']" and same: "same_task ?t t'" and rest: "as_now s' = as_now s" "as_queue s' = as_queue s"
      "as_requests s' = as_requests s" "as_cancels s' = as_cancels s"
    and rc: "rt_phase t' = TkGone \<or> rt_cancelled t' = rt_cancelled ?t" using f by (auto simp: framed_def)
  have t: "?t \<in> set (as_tasks s)" using i by simp
  have t'in: "t' \<in> set (as_tasks s')" using i by (simp add: ts set_update_memI)
  have id: "rt_run t' = rt_run ?t" "rt_pod t' = rt_pod ?t" "rt_deadline t' = rt_deadline ?t" using same by (simp_all add: same_task_def)
  have pod: "rt_pod ?t = p" using calm_invD(2) [OF inv] t by (simp add: tasks_ok_def)
  have others: "u = t' \<or> (u \<in> set (as_tasks s) \<and> rt_run u \<noteq> rt_run t')" if "u \<in> set (as_tasks s')" for u
    using other_tasks [OF wf i same] that by (simp add: ts)
  have ids: "cr_id ` set (as_runs s') = cr_id ` set (as_runs s)" by (rule set_ids [OF move_table(1) [OF m]])
  have come: "to_come r s" if "to_come r s'" for r
    using that others move_waiting [OF m] t unfolding to_come_def rest id by (metis id(1))
  have gone: "\<not> to_come (rt_run ?t) s'" if "\<not> waiting (rt_phase t')"
    using looked_not_to_come [OF wf' t'in that] id by simp
  have cancelled: "(p, r) \<in> as_cancelled s'" if "to_come r s'" "(p, r) \<in> as_cancelled s" for r
    using move_cancelled [OF m that(2)] gone that(1) by auto
  have ctx: "context_done (as_now s) t' = context_done (as_now s) ?t" if "executing (rt_phase t')"
    using rc that by (auto simp: context_done_def id)
  have ex: "executing (rt_phase ?t) \<or> (to_come (rt_run ?t) s \<and> (p, rt_run ?t) \<notin> as_cancelled s)" if "executing (rt_phase t')"
    using move_executing [OF m that] t pod by (auto simp: to_come_def)
  have "tasks_ok p env s'"
    using calm_invD(2) [OF inv] others t unfolding tasks_ok_def rest by (metis id(2,3))
  moreover have "rows_ok p env s'"
    unfolding rows_ok_def
  proof
    fix row' assume "row' \<in> set (as_runs s')"
    then obtain row where row: "row \<in> set (as_runs s)" "cr_id row' = cr_id row" and kind:
        "row' = row \<or> (cr_id row = rt_run ?t \<and> rt_phase t' = TkExit \<and> cr_started row' = cr_started row)
         \<or> (cr_id row = rt_run ?t \<and> rt_phase ?t = TkActivate \<and> rt_phase t' = TkSession \<and> is_open row'
            \<and> cr_started row' = Some (case cr_started row of None \<Rightarrow> as_now s | Some x \<Rightarrow> x))"
      by (rule move_row [OF m])
    note rd = rowD [OF inv row(1)]
    have "cr_started row' = None \<and> ((p, cr_id row') \<in> as_cancelled s' \<or> cr_status row' = RunQueued)" if "to_come (cr_id row') s'"
    proof -
      have eq: "row' = row" using kind gone that row(2) by auto
      with that have c: "to_come (cr_id row) s'" by simp
      show ?thesis using rd(1,2) [OF come [OF c]] cancelled [OF c] eq by auto
    qed
    moreover have "task_ok env (as_now s) row' u" if "u \<in> set (as_tasks s')" "rt_run u = cr_id row'" for u
    proof (cases "u = t'")
      case False
      then have u: "u \<in> set (as_tasks s)" "rt_run u \<noteq> rt_run ?t" using others [OF that(1)] id by auto
      then have "row' = row" using kind that(2) row(2) by auto
      then show ?thesis using rd(3) [OF u(1)] that(2) by simp
    next
      case True
      have run: "rt_run ?t = cr_id row" using that(2) True id row(2) by simp
      have old: "task_ok env (as_now s) row ?t" by (rule rd(3) [OF t run])
      from kind show ?thesis
      proof (elim disjE conjE)
        assume eq: "row' = row"
        have "is_open row" if "executing (rt_phase t')" "\<not> context_done (as_now s) t'"
          using ex [OF that(1)] old that ctx rd(2) run by (auto simp: task_ok_def is_open_def)
        moreover have "cr_started row = None" if "rt_phase t' = TkRead \<or> rt_phase t' = TkActivate"
          using m that
        proof cases
          case check
          then have "waiting (rt_phase ?t)" by simp
          then have "to_come (cr_id row) s" using t run unfolding to_come_def by blast
          then show ?thesis by (rule rd(1))
        next
          case proceed
          then show ?thesis using that old by (auto simp: task_ok_def)
        qed auto
        ultimately show ?thesis using old eq True id by (simp add: task_ok_def)
      next
        assume "rt_phase t' = TkExit" "cr_started row' = cr_started row"
        then show ?thesis using old True id by (simp add: task_ok_def)
      next
        assume a: "rt_phase ?t = TkActivate" "rt_phase t' = TkSession" "is_open row'"
          "cr_started row' = Some (case cr_started row of None \<Rightarrow> as_now s | Some x \<Rightarrow> x)"
        then have "cr_started row' = Some (as_now s)" using old by (simp add: task_ok_def)
        moreover have "rt_deadline t' \<le> as_now s + ae_timeout env" using calm_invD(2) [OF inv] t id by (simp add: tasks_ok_def)
        ultimately show ?thesis using a True by (simp add: task_ok_def)
      qed
    qed
    ultimately show "row_ok p env s' row'" unfolding row_ok_def rest by blast
  qed
  moreover have "expires_ok s'"
  proof -
    have "expire_ok s' r" if e: "expire_ok s r" for r
    proof -
      have "context_done (as_now s) u" if "u \<in> set (as_tasks s')" "rt_run u = r" "executing (rt_phase u)" for u
        using others [OF that(1)] that e ex ctx t id unfolding expire_ok_def by metis
      then show ?thesis using e come unfolding expire_ok_def rest ids by blast
    qed
    then show ?thesis using calm_invD(4) [OF inv] unfolding expires_ok_def rest by blast
  qed
  moreover have "cancels_ok p s'"
  proof -
    have "cancel_ok p s' c" if e: "cancel_ok p s c" for c
    proof -
      have "\<not> executing (rt_phase u)" if "cn_phase c = CnWrite" "u \<in> set (as_tasks s')" "rt_run u = cn_run c" for u
        using others [OF that(2)] that e ex t id unfolding cancel_ok_def by (metis insertCI)
      then show ?thesis using e come cancelled unfolding cancel_ok_def ids by blast
    qed
    then show ?thesis using calm_invD(5) [OF inv] unfolding cancels_ok_def rest by blast
  qed
  ultimately show ?thesis using wf' unfolding calm_inv_def by blast
qed
section \<open>Cancellations\<close>

definition calm_core :: "nat \<Rightarrow> async_env \<Rightarrow> async_state \<Rightarrow> bool" where
  "calm_core p env s \<longleftrightarrow> tasks_ok p env s \<and> rows_ok p env s \<and> expires_ok s \<and> cancels_ok p s"

lemma calm_inv_core: "calm_inv p env s \<longleftrightarrow> wf_async s \<and> calm_core p env s"
  by (simp add: calm_inv_def calm_core_def)

text \<open>Nothing but places to wait in is taken away, and intents to cancel are added.\<close>

lemma core_frame:
  assumes "calm_core p env s" and "as_now s' = as_now s" "as_runs s' = as_runs s" "as_tasks s' = as_tasks s" "as_cancels s' = as_cancels s"
    and "as_cancelled s \<subseteq> as_cancelled s'" and come: "\<And>r. to_come r s' \<Longrightarrow> to_come r s"
    and exp: "\<And>q r reason. q \<in> set (as_requests s') \<Longrightarrow> eq_phase q = EqExpire r reason \<Longrightarrow> q \<in> set (as_requests s) \<or> expire_ok s r"
  shows "calm_core p env s'"
proof -
  have "rows_ok p env s'" using assms(1,6) come unfolding calm_core_def rows_ok_def row_ok_def assms(2-5) by blast
  moreover have "cancels_ok p s'" using assms(1,6) come unfolding calm_core_def cancels_ok_def cancel_ok_def assms(2-5) by blast
  moreover have "expire_ok s' r" if "expire_ok s r" for r using that come unfolding expire_ok_def assms(2-5) by blast
  then have "expires_ok s'" using assms(1) exp unfolding calm_core_def expires_ok_def by blast
  moreover have "tasks_ok p env s'" using assms(1) unfolding calm_core_def tasks_ok_def assms(2-5) by blast
  ultimately show ?thesis unfolding calm_core_def by blast
qed

lemma closes_row:
  assumes "closes i rs rs'" and "row' \<in> set rs'"
  shows "\<exists>row\<in>set rs. cr_id row' = cr_id row \<and> cr_started row' = cr_started row \<and> (row' = row \<or> cr_id row = i)"
proof (cases "rs' = rs")
  case True
  with assms(2) show ?thesis by blast
next
  case False
  then obtain f where f: "closing f" "rs' = change_run i f rs" using assms(1) unfolding closes_def by blast
  then obtain row where row: "row \<in> set rs" "row' = (if cr_id row = i then f row else row)" using assms(2) by (auto simp: change_run_def)
  with f show ?thesis by (intro bexI [OF _ row(1)]) (simp add: closing_def)
qed

lemma to_come_set_runs [simp]: "to_come r (set_runs rs s) = to_come r s"
  by (simp add: to_come_def)

lemma core_set_runs:
  assumes core: "calm_core p env s" and cl: "closes i (as_runs s) rs" and "to_come i s \<Longrightarrow> (p, i) \<in> as_cancelled s"
    and dead: "\<And>t. t \<in> set (as_tasks s) \<Longrightarrow> rt_run t = i \<Longrightarrow> executing (rt_phase t) \<Longrightarrow> context_done (as_now s) t"
  shows "calm_core p env (set_runs rs s)"
proof -
  have ids: "cr_id ` set rs = cr_id ` set (as_runs s)" by (rule set_ids [OF closes_keys [OF cl]])
  have "row_ok p env (set_runs rs s) row'" if "row' \<in> set rs" for row'
  proof -
    obtain row where row: "row \<in> set (as_runs s)" "cr_id row' = cr_id row" "cr_started row' = cr_started row" "row' = row \<or> cr_id row = i"
      using closes_row [OF cl \<open>row' \<in> set rs\<close>] by blast
    have old: "row_ok p env s row" using core row(1) unfolding calm_core_def rows_ok_def by blast
    show ?thesis
    proof (cases "row' = row")
      case True
      with old show ?thesis by (simp add: row_ok_def)
    next
      case False
      then have i: "cr_id row = i" using row(4) by blast
      have "task_ok env (as_now s) row' t" if "t \<in> set (as_tasks s)" "rt_run t = i" for t
        using old that i dead [OF that] row(3) unfolding row_ok_def task_ok_def by auto
      with old i row assms(3) show ?thesis by (auto simp: row_ok_def)
    qed
  qed
  then have "rows_ok p env (set_runs rs s)" by (simp add: rows_ok_def)
  moreover have "expires_ok (set_runs rs s)" using core by (simp add: calm_core_def expires_ok_def expire_ok_def ids)
  moreover have "cancels_ok p (set_runs rs s)" using core by (simp add: calm_core_def cancels_ok_def cancel_ok_def ids)
  moreover have "tasks_ok p env (set_runs rs s)" using core by (simp add: calm_core_def tasks_ok_def)
  ultimately show ?thesis by (simp add: calm_core_def)
qed

lemma context_tasks:
  "u \<in> set (as_tasks (cancel_context i s)) \<Longrightarrow> \<exists>t\<in>set (as_tasks s). u = t \<or> u = t\<lparr>rt_cancelled := True\<rparr>"
proof -
  assume "u \<in> set (as_tasks (cancel_context i s))"
  then obtain j where "j < length (as_tasks s)" "u = as_tasks (cancel_context i s) ! j" by (auto simp: in_set_conv_nth)
  then show ?thesis by (intro bexI [of _ "as_tasks s ! j"]) (simp_all add: cancel_context_nth)
qed

lemma to_come_context: "to_come r (cancel_context i s) = to_come r s"
proof -
  have "map (\<lambda>t. (rt_run t, rt_phase t)) (as_tasks (cancel_context i s)) = map (\<lambda>t. (rt_run t, rt_phase t)) (as_tasks s)"
    by (rule cancel_context_map) simp
  moreover have "(\<exists>t\<in>set ts. rt_run t = r \<and> waiting (rt_phase t))
      \<longleftrightarrow> (\<exists>x\<in>set (map (\<lambda>t. (rt_run t, rt_phase t)) ts). fst x = r \<and> waiting (snd x))" for ts :: "run_task list"
    by auto
  ultimately show ?thesis by (simp only: to_come_def cancel_context_fields)
qed

lemma core_context:
  assumes core: "calm_core p env s"
  shows "calm_core p env (cancel_context i s)"
proof -
  have mono: "context_done now (t\<lparr>rt_cancelled := True\<rparr>)" for now t by (simp add: context_done_def)
  have "rows_ok p env (cancel_context i s)"
    unfolding rows_ok_def cancel_context_fields
  proof
    fix row assume "row \<in> set (as_runs s)"
    then have old: "row_ok p env s row" using core unfolding calm_core_def rows_ok_def by blast
    have "task_ok env (as_now s) row u" if u: "u \<in> set (as_tasks (cancel_context i s))" "rt_run u = cr_id row" for u
    proof -
      obtain t where "t \<in> set (as_tasks s)" "u = t \<or> u = t\<lparr>rt_cancelled := True\<rparr>" using context_tasks [OF u(1)] by blast
      with old u(2) mono show ?thesis unfolding row_ok_def task_ok_def by auto
    qed
    with old show "row_ok p env (cancel_context i s) row" by (auto simp: row_ok_def to_come_context)
  qed
  moreover have "expire_ok (cancel_context i s) r" if "expire_ok s r" for r
    using that context_tasks [of _ i s] mono unfolding expire_ok_def to_come_context by fastforce
  then have "expires_ok (cancel_context i s)" using core by (auto simp: calm_core_def expires_ok_def)
  moreover have "cancel_ok p (cancel_context i s) c" if "cancel_ok p s c" for c
    using that context_tasks [of _ i s] unfolding cancel_ok_def to_come_context by fastforce
  then have "cancels_ok p (cancel_context i s)" using core by (auto simp: calm_core_def cancels_ok_def)
  moreover have "tasks_ok p env (cancel_context i s)"
    using core context_tasks [of _ i s] unfolding calm_core_def tasks_ok_def by fastforce
  ultimately show ?thesis by (simp add: calm_core_def)
qed
lemma core_put_cancel:
  assumes core: "calm_core p env s" and k: "k < length (as_cancels s)" and new: "cancel_ok p s (c\<lparr>cn_phase := ph\<rparr>)"
  shows "calm_core p env (put_cancel k c ph s)"
proof -
  have come: "to_come r (put_cancel k c ph s) = to_come r s" for r by (simp add: to_come_def)
  have "cancel_ok p (put_cancel k c ph s) d" if "d \<in> set ((as_cancels s)[k := c\<lparr>cn_phase := ph\<rparr>])" for d
  proof -
    have "d = c\<lparr>cn_phase := ph\<rparr> \<or> d \<in> set (as_cancels s)" using that set_update_subset_insert [of "as_cancels s" k] by auto
    with new core have "cancel_ok p s d" unfolding calm_core_def cancels_ok_def by blast
    then show ?thesis by (simp add: cancel_ok_def come)
  qed
  with core show ?thesis
    by (simp add: calm_core_def tasks_ok_def rows_ok_def row_ok_def expires_ok_def expire_ok_def cancels_ok_def come)
qed

lemma calm_cancel:
  assumes inv: "calm_inv p env s" and k: "k < length (as_cancels s)" and step: "cancel_step k ev (as_cancels s ! k) s = Some s'"
  shows "calm_inv p env s'"
proof -
  let ?c = "as_cancels s ! k"
  have wf: "wf_async s" and core: "calm_core p env s" using inv by (simp_all add: calm_inv_core)
  obtain ph s1 where m: "cancel_move ?c ph s s1" and s': "s' = put_cancel k ?c ph s1" using cancel_step_moves [OF step] by blast
  have c: "cancel_ok p s ?c" using core k by (simp add: calm_core_def cancels_ok_def)
  have len: "k < length (as_cancels s1)" using m k by cases simp_all
  have "calm_core p env s1 \<and> cancel_ok p s1 (?c\<lparr>cn_phase := ph\<rparr>)"
    using m
  proof cases
    case stored
    have "calm_core p env s1"
      by (rule core_frame [OF core]) (auto simp: stored to_come_def)
    with stored c show ?thesis by (simp add: cancel_ok_def)
  next
    case absent
    have "\<not> executing (rt_phase t)" if t: "t \<in> set (as_tasks s)" "rt_run t = cn_run ?c" for t
    proof
      assume "executing (rt_phase t)"
      moreover obtain j where "j < length (as_tasks s)" "t = as_tasks s ! j" using t(1) by (auto simp: in_set_conv_nth)
      moreover have "rt_pod t = p" using core t(1) by (simp add: calm_core_def tasks_ok_def)
      moreover have "cn_pod ?c = p" using c by (simp add: cancel_ok_def)
      ultimately show False using registered_executing [OF wf, of j] absent t(2) by simp
    qed
    with absent c core show ?thesis by (auto simp: cancel_ok_def)
  next
    case (called i)
    with c core_context [OF core] show ?thesis by (simp add: cancel_ok_def)
  next
    case (written rs)
    have "calm_core p env (set_runs rs s)"
      by (rule core_set_runs [OF core written(4)]) (use c written(3) in \<open>auto simp: cancel_ok_def\<close>)
    with written c show ?thesis by (simp add: cancel_ok_def)
  qed (use core c in \<open>auto simp: cancel_ok_def\<close>)
  then have "calm_core p env s'" using core_put_cancel len s' by blast
  with wf_cancel [OF wf step] show ?thesis by (simp add: calm_inv_core)
qed

section \<open>Requests\<close>

lemma held_to_come: "q \<in> set (as_requests s) \<Longrightarrow> r \<in> set (phase_ids (eq_phase q)) \<Longrightarrow> to_come r s"
  by (auto simp: to_come_def held_ids_def)

text \<open>A run that a request holds has no task.\<close>

lemma held_no_task:
  assumes wf: "wf_async s" and q: "q \<in> set (as_requests s)" "r \<in> set (phase_ids (eq_phase q))" and t: "t \<in> set (as_tasks s)"
  shows "rt_run t \<noteq> r"
proof
  assume r: "rt_run t = r"
  have "r \<in> set (held_ids (as_requests s))" using q by (auto simp: held_ids_def)
  then have "1 \<le> count (mset (held_ids (as_requests s))) r" by (simp add: count_greater_eq_one_iff)
  moreover have "r \<in> set (map rt_run (as_tasks s))" using t r by auto
  then have "1 \<le> count (mset (map rt_run (as_tasks s))) r" by (simp only: count_greater_eq_one_iff set_mset_mset)
  moreover have "count (tokens s) r \<le> 1" by (rule token_count [OF wf])
  ultimately show False unfolding tokens_def count_union by linarith
qed

lemma calm_request:
  assumes inv: "calm_inv p env s" and k: "k < length (as_requests s)" and ev: "ev \<noteq> EqExpireQueued"
    and step: "enqueue_step env k ev (as_requests s ! k) s = Some s'"
  shows "calm_inv p env s'"
proof -
  let ?q = "as_requests s ! k"
  have wf: "wf_async s" and core: "calm_core p env s" using inv by (simp_all add: calm_inv_core)
  have wf': "wf_async s'" by (rule wf_request [OF wf k step])
  obtain ph where m: "request_move ev ?q ph env s s'" and rq: "as_requests s' = (as_requests s)[k := ?q\<lparr>eq_phase := ph\<rparr>]"
    and rest: "as_tasks s' = as_tasks s" "as_now s' = as_now s" "as_cancels s' = as_cancels s" "as_cancelled s' = as_cancelled s"
    using enqueue_step_moves [OF step] by auto
  have q: "?q \<in> set (as_requests s)" using k by simp
  have rq_cases: "q = ?q\<lparr>eq_phase := ph\<rparr> \<or> q \<in> set (as_requests s)" if "q \<in> set (as_requests s')" for q
    using that rq set_update_subset_insert [of "as_requests s" k] by auto
  have held: "r \<in> set (held_ids (as_requests s)) \<or> r \<in> set (phase_ids ph)" if r: "r \<in> set (held_ids (as_requests s'))" for r
  proof -
    obtain x where x: "x \<in> set (as_requests s')" "r \<in> set (phase_ids (eq_phase x))" using r by (auto simp: held_ids_def)
    from rq_cases [OF x(1)] show ?thesis
    proof
      assume "x \<in> set (as_requests s)"
      with x(2) show ?thesis by (auto simp: held_ids_def)
    qed (use x(2) in simp)
  qed
  have expi: "q \<in> set (as_requests s) \<or> ph = EqExpire r reason" if "q \<in> set (as_requests s')" "eq_phase q = EqExpire r reason" for q r reason
    using rq_cases [OF that(1)] that(2) by auto
  have expiring: "expire_ok s r" if "q \<in> set (as_requests s)" "eq_phase q = EqExpire r reason" for q r reason
    using core that unfolding calm_core_def expires_ok_def by blast
  have "calm_core p env s'"
    using m
  proof cases
    case stay
    show ?thesis
    proof (rule core_frame [OF core])
      show "to_come r s" if "to_come r s'" for r
        using that held held_to_come [OF q] unfolding to_come_def rest stay(1,4) by blast
    qed (use stay rest expi in \<open>auto\<close>)
  next
    case (found row reason)
    have "\<exists>x. cr_started row = Some x \<and> x + ae_timeout env < as_now s"
      using found(4) ev by (auto simp: run_expired_def split: option.splits)
    then obtain x where x: "cr_started row = Some x" "x + ae_timeout env < as_now s" by blast
    note rd = rowD [OF inv found(3)]
    have "\<not> to_come (cr_id row) s" using rd(1) x by auto
    moreover have "context_done (as_now s) t" if "t \<in> set (as_tasks s)" "rt_run t = cr_id row" for t
      using rd(3) [OF that] x by (auto simp: task_ok_def context_done_def)
    ultimately have new: "expire_ok s (cr_id row)" using found(3) by (simp add: expire_ok_def)
    show ?thesis
    proof (rule core_frame [OF core])
      show "to_come r s" if "to_come r s'" for r
        using that held found unfolding to_come_def rest found by auto
    qed (use found rest expi new in \<open>auto\<close>)
  next
    case (published i)
    show ?thesis
    proof (rule core_frame [OF core])
      show "to_come r s" if "to_come r s'" for r
        using that held held_to_come [OF q, of i] published unfolding to_come_def rest by auto
    qed (use published rest expi in \<open>auto\<close>)
  next
    case (expired i reason)
    have e: "expire_ok s i" by (rule expiring [OF q expired(2)])
    have "calm_core p env (set_runs (as_runs s') s)"
      by (rule core_set_runs [OF core expired(3)]) (use e in \<open>auto simp: expire_ok_def\<close>)
    then show ?thesis
    proof (rule core_frame)
      show "to_come r (set_runs (as_runs s') s)" if "to_come r s'" for r
        using that held expired unfolding to_come_set_runs by (auto simp: to_come_def rest)
      show "q \<in> set (as_requests (set_runs (as_runs s') s)) \<or> expire_ok (set_runs (as_runs s') s) r"
        if "q \<in> set (as_requests s')" "eq_phase q = EqExpire r reason'" for q r reason'
        using expi [OF that] expired by simp
    qed (simp_all add: rest)
  next
    case (failed i reason)
    have "calm_core p env (set_runs (as_runs s) s')"
    proof (rule core_frame [OF core])
      show "to_come r s" if "to_come r (set_runs (as_runs s) s')" for r
        using that held failed unfolding to_come_set_runs by (auto simp: to_come_def rest)
      show "q \<in> set (as_requests s) \<or> expire_ok s r"
        if "q \<in> set (as_requests (set_runs (as_runs s) s'))" "eq_phase q = EqExpire r reason'" for q r reason'
        using expi [of q r reason'] that failed by simp
    qed (simp_all add: rest)
    moreover have "\<not> to_come i s'"
    proof
      assume "to_come i s'"
      moreover have "tokens s' + {#i#} = tokens s"
        using held_update [OF k, of "?q\<lparr>eq_phase := ph\<rparr>"] failed unfolding tokens_def rest rq by (simp add: ac_simps)
      then have "count (tokens s') i + 1 = count (tokens s) i" by (metis count_single count_union)
      then have "count (tokens s') i = 0" using token_count [OF wf, of i] by linarith
      ultimately show False using to_come_tokens by (metis not_in_iff)
    qed
    moreover have "rt_run t \<noteq> i" if "t \<in> set (as_tasks s')" for t
      using held_no_task [OF wf q, of i t] that failed by (simp add: rest)
    ultimately have "calm_core p env (set_runs (as_runs s') (set_runs (as_runs s) s'))"
      using failed(3) core_set_runs [of p env "set_runs (as_runs s) s'" i "as_runs s'"] by simp
    then show ?thesis by (simp add: set_runs_def)
  next
    case (inserted i)
    then obtain row where row: "as_runs s' = as_runs s @ [row]" "cr_id row = i" "cr_status row = RunQueued" "cr_started row = None"
      by (auto elim: create_runD)
    have come: "to_come r s \<or> r = i" if "to_come r s'" for r
    proof -
      have "set (phase_ids ph) \<subseteq> {i}" using inserted(4) by auto
      with that held [of r] inserted(5) show ?thesis unfolding to_come_def rest by auto
    qed
    have "row_ok p env s' r" if "r \<in> set (as_runs s')" for r
    proof (cases "r = row")
      case True
      have "rt_run t \<noteq> i" if "t \<in> set (as_tasks s)" for t
        using task_row [OF wf that] inserted(2) by (metis image_eqI)
      with True row show ?thesis by (auto simp: row_ok_def rest)
    next
      case False
      then have r: "r \<in> set (as_runs s)" using that row by simp
      then have "cr_id r \<noteq> i" using inserted(2) by blast
      with rowD [OF inv r] come show ?thesis unfolding row_ok_def rest by blast
    qed
    moreover have "expire_ok s' r" if "expire_ok s r" for r
      using that come [of r] inserted(2) row(1) unfolding expire_ok_def rest by auto
    moreover have "cancel_ok p s' c" if "cancel_ok p s c" for c
      using that come [of "cn_run c"] inserted(2) row(1) unfolding cancel_ok_def rest by auto
    moreover have "ph \<noteq> EqExpire r reason" for r reason using inserted(4) by auto
    ultimately show ?thesis
      using core expi unfolding calm_core_def rows_ok_def expires_ok_def cancels_ok_def tasks_ok_def rest by blast
  qed
  with wf' show ?thesis by (simp add: calm_inv_core)
qed
section \<open>All steps\<close>

lemma calm_deliver:
  assumes inv: "calm_inv p env s" and step: "deliver env p True s = Some s'"
  shows "calm_inv p env s'"
proof -
  have wf: "wf_async s" and core: "calm_core p env s" using inv by (simp_all add: calm_inv_core)
  obtain m q where q: "as_queue s = m # q" and s': "s' = s\<lparr>as_queue := q, as_tasks := as_tasks s @ [new_task env (as_now s) p m]\<rparr>"
    using step by (auto simp: deliver_def split: list.splits)
  let ?t = "new_task env (as_now s) p m"
  have t: "rt_run ?t = fst m" "rt_pod ?t = p" "rt_phase ?t = TkStore" "rt_deadline ?t = as_now s + ae_timeout env"
    by (simp_all add: new_task_def split: prod.splits)
  have come: "to_come r s' \<longleftrightarrow> to_come r s" for r by (auto simp: to_come_def s' q t)
  have m: "to_come (fst m) s" by (simp add: to_come_def q)
  have "row_ok p env s' row" if "row \<in> set (as_runs s)" for row
  proof -
    note rd = rowD [OF inv that]
    have "task_ok env (as_now s) row ?t" if "fst m = cr_id row"
      using rd(1) m that by (simp add: task_ok_def t)
    with rd show ?thesis unfolding row_ok_def come by (auto simp: s' t)
  qed
  moreover have "expire_ok s' r" if "expire_ok s r" for r using that come by (auto simp: expire_ok_def s' t)
  moreover have "cancel_ok p s' c" if "cancel_ok p s c" for c using that come by (auto simp: cancel_ok_def s' t)
  ultimately have "calm_core p env s'" using core by (auto simp: calm_core_def tasks_ok_def rows_ok_def expires_ok_def cancels_ok_def s' t)
  with wf_deliver [OF wf step] show ?thesis by (simp add: calm_inv_core)
qed

lemma calm_tick: "calm_inv p env s \<Longrightarrow> calm_inv p env (s\<lparr>as_now := as_now s + 1\<rparr>)"
proof -
  let ?s = "s\<lparr>as_now := as_now s + 1\<rparr>"
  assume inv: "calm_inv p env s"
  have come: "to_come r ?s = to_come r s" for r by (simp add: to_come_def)
  then have come': "to_come r (s\<lparr>as_now := Suc (as_now s)\<rparr>) = to_come r s" for r by simp
  have later: "context_done (as_now s) t \<Longrightarrow> context_done (as_now s + 1) t" for t by (auto simp: context_done_def)
  have "row_ok p env ?s row" if "row_ok p env s row" for row
    using that later unfolding row_ok_def task_ok_def come by (auto simp: context_done_def)
  moreover have "expire_ok ?s r" if "expire_ok s r" for r
    using that later unfolding expire_ok_def come by simp
  moreover have "cancel_ok p ?s c" if "cancel_ok p s c" for c using that by (simp add: cancel_ok_def come')
  moreover have "wf_async ?s" by (rule wf_cong [OF calm_invD(1) [OF inv]]) simp_all
  ultimately show ?thesis
    using inv by (auto simp: calm_inv_def tasks_ok_def rows_ok_def expires_ok_def cancels_ok_def)
qed

lemma calm_shutdown:
  assumes "calm_inv p env s" and "shutdown_one p run s = Some s'"
  shows "calm_inv p env s'"
proof -
  obtain i where s': "s' = cancel_context i (s\<lparr>as_cancelled := insert (p, run) (as_cancelled s)\<rparr>)"
    using assms(2) by (auto simp: shutdown_one_def split: option.splits)
  have "calm_core p env (s\<lparr>as_cancelled := insert (p, run) (as_cancelled s)\<rparr>)"
    by (rule core_frame [of p env s]) (use assms(1) in \<open>auto simp: calm_inv_core to_come_def\<close>)
  then have "calm_core p env s'" unfolding s' by (rule core_context)
  moreover have "wf_async s'" by (rule wf_shutdown [OF calm_invD(1) [OF assms(1)] assms(2)])
  ultimately show ?thesis by (simp add: calm_inv_core)
qed

lemma calm_step:
  assumes l: "calm p l" and inv: "calm_inv p env s" and step: "async_step env l s = Some s'"
  shows "calm_inv p env s'"
proof (cases l)
  case (RequestStep k ev)
  with assms show ?thesis by (auto simp: async_step_def calm_def split: if_splits intro: calm_request)
next
  case (CancelStep k ev)
  with assms show ?thesis by (auto simp: async_step_def split: if_splits intro: calm_cancel)
next
  case (Deliver pod a)
  with assms show ?thesis by (auto simp: async_step_def calm_def intro: calm_deliver)
next
  case (TaskStep i ev)
  with step have i: "i < length (as_tasks s)" and st: "task_step env i ev (as_tasks s ! i) s = Some s'"
    by (auto simp: async_step_def split: if_splits)
  from task_step_moves [OF st] calm_task [OF inv i] show ?thesis by blast
next
  case (ShutdownRun pod run)
  with assms show ?thesis by (auto simp: async_step_def calm_def intro: calm_shutdown)
next
  case Tick
  with assms show ?thesis by (auto simp: async_step_def intro: calm_tick [simplified])
next
  case (NewRequest pod session voice override)
  with step have s': "s' = s\<lparr>as_requests := as_requests s
      @ [\<lparr>eq_pod = pod, eq_session = session, eq_voice = voice, eq_override = override, eq_phase = EqSession\<rparr>]\<rparr>"
    by (simp add: async_step_def)
  have "calm_core p env s'"
    by (rule core_frame [of p env s]) (use inv in \<open>auto simp: s' calm_inv_core to_come_def held_ids_def\<close>)
  with wf_step [OF calm_acked [OF l] calm_invD(1) [OF inv] step] show ?thesis by (simp add: calm_inv_core)
next
  case (NewCancel pod session run)
  with step l have s': "s' = s\<lparr>as_cancels := as_cancels s @ [\<lparr>cn_pod = p, cn_session = session, cn_run = run, cn_phase = CnCheck\<rparr>]\<rparr>"
    by (simp add: async_step_def calm_def)
  have come: "to_come r s' = to_come r s" for r by (simp add: to_come_def s')
  have "cancel_ok p s' c" if "cancel_ok p s c" for c using that come by (simp add: cancel_ok_def s')
  then have "calm_core p env s'"
    using inv come unfolding calm_inv_def calm_core_def
    by (auto simp: tasks_ok_def rows_ok_def row_ok_def expires_ok_def expire_ok_def cancels_ok_def s' cancel_ok_def)
  with wf_step [OF calm_acked [OF l] calm_invD(1) [OF inv] step] show ?thesis by (simp add: calm_inv_core)
qed

lemma calm_reachable:
  assumes "async_run env ls new_async = Some s" and "list_all (calm p) ls"
  shows "calm_inv p env s"
  using assms
proof (rule async_invariant)
  show "calm_inv p env new_async"
    using wf_new by (simp add: calm_inv_def tasks_ok_def rows_ok_def expires_ok_def cancels_ok_def new_async_def)
qed (rule calm_step)

text \<open>
  C17: With one worker process that takes every message, if every delivered message is acknowledged, every cancellation and every
  shutdown happens on that process, and no run is given up while it waits in the queue, then the runs of a session are
  executed one after the other, whatever is enqueued, cancelled, timed out and expired in the meantime: of two tasks of the
  same session that are being executed at most one has a context that is not done. (The traces above show what happens without
  these conditions.)
\<close>

theorem one_live_run_per_session:
  assumes "async_run env ls new_async = Some s" and "list_all (calm p) ls"
    and "i < length (as_tasks s)" and "j < length (as_tasks s)" and "i \<noteq> j"
    and "rt_session (as_tasks s ! i) = rt_session (as_tasks s ! j)"
    and "executing (rt_phase (as_tasks s ! i))" and "\<not> context_done (as_now s) (as_tasks s ! i)"
  shows "executing (rt_phase (as_tasks s ! j)) \<longrightarrow> context_done (as_now s) (as_tasks s ! j)"
proof (rule impI, rule ccontr)
  assume j: "executing (rt_phase (as_tasks s ! j))" "\<not> context_done (as_now s) (as_tasks s ! j)"
  have inv: "calm_inv p env s" by (rule calm_reachable [OF assms(1,2)])
  note wf = calm_invD(1) [OF inv]
  have live: "\<exists>row\<in>set (as_runs s). cr_id row = rt_run t \<and> cr_session row = rt_session t \<and> is_open row"
    if t: "t \<in> set (as_tasks s)" "executing (rt_phase t)" "\<not> context_done (as_now s) t" for t
  proof -
    obtain row where "row \<in> set (as_runs s)" "cr_id row = rt_run t" "cr_session row = rt_session t" by (rule task_row [OF wf t(1)])
    with rowD(3) [OF inv _ t(1)] t(2,3) show ?thesis unfolding task_ok_def by metis
  qed
  obtain r1 where r1: "r1 \<in> set (as_runs s)" "cr_id r1 = rt_run (as_tasks s ! i)" "cr_session r1 = rt_session (as_tasks s ! i)" "is_open r1"
    using live [of "as_tasks s ! i"] assms(3,7,8) by auto
  obtain r2 where r2: "r2 \<in> set (as_runs s)" "cr_id r2 = rt_run (as_tasks s ! j)" "cr_session r2 = rt_session (as_tasks s ! j)" "is_open r2"
    using live [of "as_tasks s ! j"] assms(4) j by auto
  have "r1 = r2" using wf r1 r2 assms(6) unfolding wf_async_def one_open_def distinct_map inj_on_def by auto
  then have "i = j" using tasks_distinct [OF wf assms(3,4)] r1 r2 by simp
  with assms(5) show False by simp
qed

definition expiry_trace :: "async_label list" where
  "expiry_trace = enqueue_trace 0 ''r1'' @ [Deliver 0 True] @ start_trace 0 @ [Tick, Tick]
     @ [NewRequest 0 ''s'' False False, RequestStep 1 EqSkipCheck, RequestStep 1 EqExpireActive, RequestStep 1 (EqWritten True),
        RequestStep 1 (EqInserted ''r2'' None), RequestStep 1 (EqPublished True)]
     @ [Deliver 0 True] @ start_trace 1"

text \<open>A run that does not return when its time is over is expired, and the next one starts beside it.\<close>

theorem one_live_run_per_session_witness:
  "\<exists>s. async_run sample_async expiry_trace new_async = Some s \<and> length (as_tasks s) = 2
     \<and> \<not> context_done (as_now s) (as_tasks s ! 1) \<and> rt_phase (as_tasks s ! 0) = TkDrain \<and> context_done (as_now s) (as_tasks s ! 0)"
proof -
  have view: "map_option (\<lambda>s. map (\<lambda>t. (rt_session t, rt_phase t, context_done (as_now s) t)) (as_tasks s)) (async_run sample_async expiry_trace new_async)
      = Some [(''s'', TkDrain, True), (''s'', TkDrain, False)]"
    by code_simp
  then obtain s where run: "async_run sample_async expiry_trace new_async = Some s"
    and ts: "map (\<lambda>t. (rt_session t, rt_phase t, context_done (as_now s) t)) (as_tasks s) = [(''s'', TkDrain, True), (''s'', TkDrain, False)]"
    by auto
  have len: "length (as_tasks s) = 2" using arg_cong [OF ts, of length] by simp
  have calm: "list_all (calm 0) expiry_trace" by code_simp
  have t0: "rt_session (as_tasks s ! 0) = ''s''" "rt_phase (as_tasks s ! 0) = TkDrain"
    and t1: "rt_session (as_tasks s ! 1) = ''s''" "rt_phase (as_tasks s ! 1) = TkDrain" "\<not> context_done (as_now s) (as_tasks s ! 1)"
    using arg_cong [OF ts, of "\<lambda>xs. xs ! 0"] arg_cong [OF ts, of "\<lambda>xs. xs ! 1"] len by simp_all
  have "context_done (as_now s) (as_tasks s ! 0)"
    using one_live_run_per_session [OF run calm, of 1 0] len t0 t1 by simp
  with run len t0 t1 show ?thesis by blast
qed

section \<open>Tasks end\<close>

text \<open>The steps that a task has before it, those that read an event of the runner apart.\<close>

fun phase_rank :: "task_phase \<Rightarrow> nat" where
  "phase_rank TkStore = 16"
| "phase_rank TkCheck = 15"
| "phase_rank TkRead = 14"
| "phase_rank TkActivate = 13"
| "phase_rank TkSession = 12"
| "phase_rank TkRoute = 11"
| "phase_rank (TkBind _) = 10"
| "phase_rank TkStart = 9"
| "phase_rank TkDrain = 8"
| "phase_rank TkJudge = 7"
| "phase_rank (TkComplete n) = max_persist_attempts + 4 - n"
| "phase_rank TkAborted = 5"
| "phase_rank TkExit = 3"
| "phase_rank TkUnregister = 2"
| "phase_rank TkForget = 1"
| "phase_rank TkGone = 0"
| "phase_rank _ = 4"

fun reads_event :: "task_event \<Rightarrow> bool" where
  "reads_event (TkEvent _ _) = True"
| "reads_event _ = False"

fun attempts_ok :: "task_phase \<Rightarrow> bool" where
  "attempts_ok (TkComplete n) = (1 \<le> n \<and> n \<le> max_persist_attempts)"
| "attempts_ok _ = True"

lemma startup_failure_tasks: "as_tasks (startup_failure env i t reason shown user marked stored s) = (as_tasks s)[i := t\<lparr>rt_phase := TkExit\<rparr>]"
  by (simp add: startup_failure_def Let_def split: option.split)

lemma drop_cancelled_tasks: "as_tasks (drop_cancelled env i t s) = (as_tasks s)[i := t\<lparr>rt_phase := TkExit\<rparr>]"
  by (simp add: drop_cancelled_def)

lemma stream_tasks:
  "drain_event env e synth t = (t', f) \<Longrightarrow> as_tasks (f s) = as_tasks s"
  "close_events synth t = (t', f) \<Longrightarrow> as_tasks (f s) = as_tasks s"
  using core_ofD(6) drain_event_core(1) close_events_core(1) by blast+

lemma startup_rank:
  assumes "startup_step env i ev t s = Some s'" and "i < length (as_tasks s)"
  shows "phase_rank (rt_phase (as_tasks s' ! i)) < phase_rank (rt_phase t) \<and> attempts_ok (rt_phase (as_tasks s' ! i)) \<and> \<not> reads_event ev"
  using assms
  by (cases "rt_phase t")
    (auto simp: startup_step_def startup_failure_tasks drop_cancelled_tasks Let_def
      split: if_splits task_event.splits sum.splits option.splits)

lemma ending_rank:
  assumes "ending_step env i ev t s = Some s'" and "i < length (as_tasks s)" and "attempts_ok (rt_phase t)"
  shows "(if reads_event ev then rt_phase (as_tasks s' ! i) = rt_phase t else phase_rank (rt_phase (as_tasks s' ! i)) < phase_rank (rt_phase t))
    \<and> attempts_ok (rt_phase (as_tasks s' ! i))"
proof (cases "rt_phase t")
  case TkDrain
  with assms show ?thesis
    by (auto simp: ending_step_def stream_tasks drain_event_core(3) split: task_event.splits prod.splits)
next
  case (TkComplete n)
  with assms show ?thesis
    by (auto simp: ending_step_def max_persist_attempts_def split: task_event.splits if_splits)
qed (use assms in \<open>auto simp: ending_step_def drop_cancelled_tasks Let_def max_persist_attempts_def split: task_event.splits if_splits\<close>)

lemma task_rank:
  assumes "task_step env i ev t s = Some s'" and "i < length (as_tasks s)" and "attempts_ok (rt_phase t)"
  shows "(if reads_event ev then rt_phase (as_tasks s' ! i) = rt_phase t else phase_rank (rt_phase (as_tasks s' ! i)) < phase_rank (rt_phase t))
    \<and> attempts_ok (rt_phase (as_tasks s' ! i))"
  using assms startup_rank ending_rank by (auto simp: task_step_def split: option.splits)

text \<open>Steps that are not the task's leave its phase.\<close>

lemma other_step_phase:
  assumes "async_step env l s = Some s'" and "\<And>ev. l \<noteq> TaskStep i ev" and "i < length (as_tasks s')"
  shows "(i < length (as_tasks s) \<and> rt_phase (as_tasks s' ! i) = rt_phase (as_tasks s ! i))
    \<or> (\<not> i < length (as_tasks s) \<and> rt_phase (as_tasks s' ! i) = TkStore)"
proof (cases l)
  case (RequestStep k ev)
  with assms have "enqueue_step env k ev (as_requests s ! k) s = Some s'" by (auto simp: async_step_def split: if_splits)
  from enqueue_step_moves [OF this] assms(3) show ?thesis by auto
next
  case (CancelStep k ev)
  with assms have "cancel_step k ev (as_cancels s ! k) s = Some s'" by (auto simp: async_step_def split: if_splits)
  then obtain ph s1 where m: "cancel_move (as_cancels s ! k) ph s s1" and s': "s' = put_cancel k (as_cancels s ! k) ph s1"
    using cancel_step_moves by blast
  from m show ?thesis by cases (use assms(3) s' in \<open>simp_all add: cancel_context_nth\<close>)
next
  case (Deliver pod a)
  then obtain m where "as_tasks s' = as_tasks s @ [new_task env (as_now s) pod m]"
    using assms(1) by (auto simp: async_step_def deliver_def split: list.splits)
  moreover have "rt_phase (new_task env (as_now s) pod m) = TkStore" by (simp add: new_task_def split: prod.splits)
  ultimately show ?thesis using assms(3) by (auto simp: nth_append)
next
  case (TaskStep j ev)
  with assms have st: "task_step env j ev (as_tasks s ! j) s = Some s'" and j: "j \<noteq> i" by (auto simp: async_step_def split: if_splits)
  from task_step_moves [OF st] obtain t' where "as_tasks s' = (as_tasks s)[j := t']" by (auto simp: framed_def)
  with assms(3) j show ?thesis by simp
next
  case (ShutdownRun pod run)
  then obtain k where "s' = cancel_context k (s\<lparr>as_cancelled := insert (pod, run) (as_cancelled s)\<rparr>)"
    using assms(1) by (auto simp: async_step_def shutdown_one_def split: option.splits)
  with assms(3) show ?thesis using cancel_context_nth [of i "s\<lparr>as_cancelled := insert (pod, run) (as_cancelled s)\<rparr>" k] by simp
qed (use assms(1,3) in \<open>auto simp: async_step_def\<close>)

lemma step_length: "async_step env l s = Some s' \<Longrightarrow> length (as_tasks s) \<le> length (as_tasks s')"
proof (cases l)
  case (RequestStep k ev)
  assume "async_step env l s = Some s'"
  with RequestStep have "enqueue_step env k ev (as_requests s ! k) s = Some s'" by (auto simp: async_step_def split: if_splits)
  from enqueue_step_moves [OF this] show ?thesis by auto
next
  case (CancelStep k ev)
  assume "async_step env l s = Some s'"
  with CancelStep have "cancel_step k ev (as_cancels s ! k) s = Some s'" by (auto simp: async_step_def split: if_splits)
  then obtain ph s1 where m: "cancel_move (as_cancels s ! k) ph s s1" and s': "s' = put_cancel k (as_cancels s ! k) ph s1"
    using cancel_step_moves by blast
  from m show ?thesis by cases (simp_all add: s')
next
  case (TaskStep j ev)
  assume "async_step env l s = Some s'"
  with TaskStep have "task_step env j ev (as_tasks s ! j) s = Some s'" by (auto simp: async_step_def split: if_splits)
  from task_step_moves [OF this] show ?thesis by (auto simp: framed_def)
qed (auto simp: async_step_def deliver_def shutdown_one_def split: list.splits option.splits)

definition own_steps :: "nat \<Rightarrow> async_label list \<Rightarrow> nat" where
  "own_steps i ls = length (filter (\<lambda>l. case l of TaskStep j ev \<Rightarrow> j = i \<and> \<not> reads_event ev | _ \<Rightarrow> False) ls)"

lemma own_steps_rank:
  assumes "async_run env ls new_async = Some s"
  shows "if i < length (as_tasks s) then own_steps i ls + phase_rank (rt_phase (as_tasks s ! i)) \<le> 16 \<and> attempts_ok (rt_phase (as_tasks s ! i))
         else own_steps i ls = 0"
  using assms
proof (induction ls arbitrary: s rule: rev_induct)
  case Nil
  then have "as_tasks s = []" by (auto simp: new_async_def)
  then show ?case by (simp add: own_steps_def)
next
  case (snoc l ls)
  then obtain s0 where s0: "async_run env ls new_async = Some s0" and step: "async_step env l s0 = Some s"
    by (auto simp: async_run_snoc split: option.splits)
  note IH = snoc.IH [OF s0]
  show ?case
  proof (cases "\<exists>ev. l = TaskStep i ev")
    case True
    then obtain ev where l: "l = TaskStep i ev" by blast
    with step have i: "i < length (as_tasks s0)" and st: "task_step env i ev (as_tasks s0 ! i) s0 = Some s"
      by (auto simp: async_step_def split: if_splits)
    have "length (as_tasks s) = length (as_tasks s0)" using task_step_moves [OF st] by (auto simp: framed_def)
    moreover have "own_steps i (ls @ [l]) = own_steps i ls + (if reads_event ev then 0 else 1)" by (simp add: own_steps_def l)
    ultimately show ?thesis using IH i task_rank [OF st i] by (auto split: if_splits)
  next
    case False
    then have "own_steps i (ls @ [l]) = own_steps i ls" by (auto simp: own_steps_def split: async_label.splits)
    moreover have "(i < length (as_tasks s0) \<and> rt_phase (as_tasks s ! i) = rt_phase (as_tasks s0 ! i))
        \<or> (\<not> i < length (as_tasks s0) \<and> rt_phase (as_tasks s ! i) = TkStore)" if "i < length (as_tasks s)"
      using other_step_phase [OF step _ that] False by blast
    ultimately show ?thesis using IH step_length [OF step] by (cases "i < length (as_tasks s)") (auto split: if_splits)
  qed
qed

text \<open>
  C18: A task never waits for another part of the program: until it is gone some step of its own is possible, whatever the
  state; and it takes at most sixteen steps, those that read an event of the runner apart, in every interleaving. So it ends
  when the runner's events end.
\<close>

theorem tasks_end:
  assumes "async_run env ls new_async = Some s" and "i < length (as_tasks s)" and "t = as_tasks s ! i"
  shows "own_steps i ls \<le> 16 \<and> (own_steps i ls = 16 \<longrightarrow> rt_phase t = TkGone)
    \<and> (rt_phase t \<noteq> TkGone \<longrightarrow> (\<exists>ev s'. task_step env i ev t s = Some s' \<and> \<not> reads_event ev))"
proof (intro conjI impI)
  have rank: "own_steps i ls + phase_rank (rt_phase t) \<le> 16" "attempts_ok (rt_phase t)"
    using own_steps_rank [OF assms(1), of i] assms(2,3) by simp_all
  then show "own_steps i ls \<le> 16" by simp
  show "rt_phase t = TkGone" if "own_steps i ls = 16"
    using rank that by (cases "rt_phase t") (auto simp: max_persist_attempts_def)
  assume "rt_phase t \<noteq> TkGone"
  then show "\<exists>ev s'. task_step env i ev t s = Some s' \<and> \<not> reads_event ev"
  proof (cases "rt_phase t")
    case TkStore
    then show ?thesis by (intro exI [of _ TkGo]) (simp add: task_step_def startup_step_def)
  next
    case TkCheck
    then show ?thesis by (intro exI [of _ TkGo]) (simp add: task_step_def startup_step_def)
  next
    case TkDrop
    then show ?thesis by (intro exI [of _ "TkWritten True"]) (simp add: task_step_def startup_step_def)
  next
    case TkRead
    then show ?thesis by (intro exI [of _ "TkLoaded True"]) (simp add: task_step_def startup_step_def Let_def split: option.split)
  next
    case TkActivate
    then show ?thesis by (intro exI [of _ "TkWritten True"]) (simp add: task_step_def startup_step_def Let_def)
  next
    case TkSession
    then show ?thesis by (intro exI [of _ "TkSessionRow (Inl [])"]) (simp add: task_step_def startup_step_def Let_def)
  next
    case TkRoute
    then show ?thesis by (intro exI [of _ "TkRouted (Inl [])"]) (simp add: task_step_def startup_step_def Let_def)
  next
    case (TkBind a)
    then show ?thesis by (intro exI [of _ "TkBound (Some []) False"]) (simp add: task_step_def startup_step_def Let_def)
  next
    case TkStart
    then show ?thesis by (intro exI [of _ "TkStarted (Some []) False False"]) (simp add: task_step_def startup_step_def Let_def)
  next
    case (TkFail x y z)
    then show ?thesis by (intro exI [of _ "TkStored True True"]) (simp add: task_step_def startup_step_def Let_def)
  next
    case TkDrain
    then show ?thesis
      by (intro exI [of _ "TkClosed None"]) (simp add: task_step_def startup_step_def ending_step_def Let_def split: prod.split)
  next
    case TkCancelWrite
    then show ?thesis by (intro exI [of _ "TkWritten True"]) (simp add: task_step_def startup_step_def ending_step_def Let_def)
  next
    case TkTimeout
    then show ?thesis by (intro exI [of _ "TkStored True True"]) (simp add: task_step_def startup_step_def ending_step_def Let_def)
  next
    case TkLlmFail
    then show ?thesis by (intro exI [of _ "TkWritten True"]) (simp add: task_step_def startup_step_def ending_step_def Let_def)
  next
    case (TkComplete n)
    then show ?thesis by (intro exI [of _ "TkPersisted True None"]) (simp add: task_step_def startup_step_def ending_step_def Let_def)
  qed (intro exI [of _ TkGo], simp add: task_step_def startup_step_def ending_step_def Let_def)+
qed

text \<open>A run without events that is completed takes twelve steps of its own.\<close>

theorem tasks_end_witness:
  "\<exists>s. async_run sample_async (enqueue_trace 0 ''r1'' @ [Deliver 0 True] @ start_trace 0 @ finish_trace 0) new_async = Some s
     \<and> own_steps 0 (enqueue_trace 0 ''r1'' @ [Deliver 0 True] @ start_trace 0 @ finish_trace 0) = 12
     \<and> own_steps 0 (enqueue_trace 0 ''r1'' @ [Deliver 0 True] @ start_trace 0 @ finish_trace 0) \<le> 16"
proof -
  let ?ls = "enqueue_trace 0 ''r1'' @ [Deliver 0 True] @ start_trace 0 @ finish_trace 0"
  have "map_option (\<lambda>s. length (as_tasks s)) (async_run sample_async ?ls new_async) = Some 1" by code_simp
  then obtain s where run: "async_run sample_async ?ls new_async = Some s" and "length (as_tasks s) = 1"
    unfolding map_option_eq_Some by blast
  then have s: "async_run sample_async ?ls new_async = Some s" "0 < length (as_tasks s)" by simp_all
  have "own_steps 0 ?ls = 12" by code_simp
  with s(1) tasks_end [OF s refl] show ?thesis by blast
qed

end
