(* ===== verification/AsyncHooks.thy ===== *)
theory AsyncHooks
  imports AsyncExclusive
begin

text \<open>
  The completion hooks of a background run (FireOnComplete, called by completeTask, failTask and dropCancelledTask of
  src/internal/domain/chat/async_executor.go): in every interleaving they are called at most once for a run, by a task that
  has nothing more to do with it.
\<close>

section \<open>Hooks\<close>

fun hook_of :: "string \<Rightarrow> async_effect \<Rightarrow> bool" where
  "hook_of r (HookFired r' _ _ _ _ _) = (r' = r)"
| "hook_of r _ = False"

definition hook_count :: "string \<Rightarrow> async_state \<Rightarrow> nat" where
  "hook_count r s = length (filter (hook_of r) (as_effects s))"

lemma hook_count_simps [simp]:
  "hook_count r (put_task i t s) = hook_count r s" "hook_count r (set_runs rs s) = hook_count r s"
  "hook_count r (try_runs ok x s) = hook_count r s" "hook_count r (change_buffer pod run f s) = hook_count r s"
  "hook_count r (open_buffer pod run s) = hook_count r s" "hook_count r (append_event ev t s) = hook_count r s"
  "hook_count r (append_buffered_error env msg code t s) = hook_count r s"
  "hook_count r (add_effect e s) = hook_count r s + (if hook_of r e then 1 else 0)"
  "hook_count r (record_metrics env meta t s) = hook_count r s"
  "hook_count r (complete_hooks meta t s) = hook_count r s + (if r = rt_run t then 1 else 0)"
  "hook_count r (fire_hooks st a b msg t s) = hook_count r s + (if r = rt_run t then 1 else 0)"
  by (auto simp: hook_count_def put_task_def set_runs_def try_runs_def change_buffer_def open_buffer_def append_event_def
      append_buffered_error_def add_effect_def record_metrics_def complete_hooks_def fire_hooks_def split: sum.split option.split)

lemma hook_count_update [simp]:
  "hook_count r (s\<lparr>as_cancellers := c\<rparr>) = hook_count r s" "hook_count r (s\<lparr>as_cancelled := d\<rparr>) = hook_count r s"
  by (simp_all add: hook_count_def)

lemma stream_hooks:
  "drain_event env e synth t = (t', f) \<Longrightarrow> hook_count r (f s) = hook_count r s"
  "close_events synth t = (t', f) \<Longrightarrow> hook_count r (f s) = hook_count r s"
  by (auto simp: drain_event_def close_events_def append_voice_def Let_def split: if_splits option.splits prod.splits bool.splits)

text \<open>A step fires the hooks of its own run at most, and only when the task leaves.\<close>

lemma drop_hooks: "hook_count r (drop_cancelled env i t s) = hook_count r s + (if r = rt_run t then 1 else 0)"
  by (simp add: drop_cancelled_def)

lemma startup_failure_hooks: "hook_count r (startup_failure env i t reason shown user marked stored s) = hook_count r s"
  by (simp add: startup_failure_def Let_def split: option.split)

lemma startup_hooks:
  assumes "startup_step env i ev t s = Some s'" and "i < length (as_tasks s)"
  shows "hook_count r s' = hook_count r s \<or> (r = rt_run t \<and> hook_count r s' = hook_count r s + 1
    \<and> (rt_phase t = TkDrop \<or> rt_phase t = TkRead) \<and> rt_phase (as_tasks s' ! i) = TkExit)"
  using assms
  by (cases "rt_phase t")
    (auto simp: startup_step_def Let_def drop_hooks drop_cancelled_tasks startup_failure_hooks
      split: if_splits task_event.splits sum.splits option.splits)

lemma ending_hooks:
  assumes "ending_step env i ev t s = Some s'" and "i < length (as_tasks s)"
  shows "hook_count r s' = hook_count r s \<or> (r = rt_run t \<and> hook_count r s' = hook_count r s + 1
    \<and> executing (rt_phase t) \<and> rt_phase (as_tasks s' ! i) = TkExit)"
proof (cases "rt_phase t")
  case TkDrain
  with assms show ?thesis by (auto simp: ending_step_def stream_hooks split: task_event.splits prod.splits)
qed (use assms in \<open>auto simp: ending_step_def Let_def drop_hooks drop_cancelled_tasks split: task_event.splits if_splits\<close>)

lemma task_hooks:
  assumes "task_step env i ev t s = Some s'" and "i < length (as_tasks s)"
  shows "hook_count r s' = hook_count r s \<or> (r = rt_run t \<and> hook_count r s' = hook_count r s + 1
    \<and> (rt_phase t = TkDrop \<or> executing (rt_phase t)) \<and> rt_phase (as_tasks s' ! i) = TkExit)"
  using assms startup_hooks [of env i ev t s s' r] ending_hooks [of env i ev t s s' r] by (auto simp: task_step_def split: option.splits)

text \<open>Hooks have been called at most once for a run, and only if its task has left.\<close>

definition left :: "task_phase \<Rightarrow> bool" where
  "left ph \<longleftrightarrow> ph = TkExit \<or> ph = TkUnregister \<or> ph = TkForget \<or> ph = TkGone"

definition hooks_ok :: "async_state \<Rightarrow> bool" where
  "hooks_ok s \<longleftrightarrow> (\<forall>r. hook_count r s \<le> 1 \<and> (hook_count r s = 1 \<longrightarrow> (\<exists>t\<in>set (as_tasks s). rt_run t = r \<and> left (rt_phase t))))"

lemma move_left: "task_move i t t' s s' \<Longrightarrow> left (rt_phase t) \<Longrightarrow> left (rt_phase t')"
  by (erule task_move.cases) (auto simp: left_def)

lemma hooks_task:
  assumes wf: "wf_async s" and ok: "hooks_ok s" and i: "i < length (as_tasks s)" and st: "task_step env i ev (as_tasks s ! i) s = Some s'"
  shows "hooks_ok s'"
  unfolding hooks_ok_def
proof (intro allI conjI impI)
  let ?t = "as_tasks s ! i"
  fix r
  obtain t' where f: "framed i ?t t' s s'" and m: "task_move i ?t t' s s'" using task_step_moves [OF st] by blast
  have ts: "as_tasks s' = (as_tasks s)[i := t']" and same: "same_task ?t t'" using f by (auto simp: framed_def)
  have old: "hook_count r s \<le> 1" "hook_count r s = 1 \<Longrightarrow> \<exists>t\<in>set (as_tasks s). rt_run t = r \<and> left (rt_phase t)"
    using ok by (auto simp: hooks_ok_def)
  have keep: "\<exists>t\<in>set (as_tasks s'). rt_run t = r \<and> left (rt_phase t)" if l: "\<exists>t\<in>set (as_tasks s). rt_run t = r \<and> left (rt_phase t)"
  proof -
    obtain j where j: "j < length (as_tasks s)" "rt_run (as_tasks s ! j) = r" "left (rt_phase (as_tasks s ! j))"
      using l by (auto simp: in_set_conv_nth)
    have "rt_run (as_tasks s' ! j) = r \<and> left (rt_phase (as_tasks s' ! j))"
      using j same move_left [OF m] by (cases "j = i") (simp_all add: ts same_task_def)
    then show ?thesis using j(1) by (intro bexI [of _ "as_tasks s' ! j"]) (simp_all add: ts)
  qed
  have fired: "hook_count r s = 0" if "r = rt_run ?t" "\<not> left (rt_phase ?t)"
  proof (rule ccontr)
    assume "hook_count r s \<noteq> 0"
    then have "hook_count r s = 1" using old(1) by simp
    then obtain j where j: "j < length (as_tasks s)" "rt_run (as_tasks s ! j) = r" "left (rt_phase (as_tasks s ! j))"
      using old(2) by (auto simp: in_set_conv_nth)
    then have "j = i" using tasks_distinct [OF wf j(1) i] that(1) by simp
    with j that(2) show False by simp
  qed
  have notleft: "\<not> left (rt_phase ?t)" if "rt_phase ?t = TkDrop \<or> executing (rt_phase ?t)"
    using that by (auto simp: left_def)
  from task_hooks [OF st i, of r] show "hook_count r s' \<le> 1" using old(1) fired notleft by auto
  assume "hook_count r s' = 1"
  from task_hooks [OF st i, of r] show "\<exists>t\<in>set (as_tasks s'). rt_run t = r \<and> left (rt_phase t)"
  proof
    assume "hook_count r s' = hook_count r s"
    with \<open>hook_count r s' = 1\<close> show ?thesis using old(2) keep by simp
  next
    assume a: "r = rt_run ?t \<and> hook_count r s' = hook_count r s + 1 \<and> (rt_phase ?t = TkDrop \<or> executing (rt_phase ?t))
      \<and> rt_phase (as_tasks s' ! i) = TkExit"
    then show ?thesis using i same by (intro bexI [of _ "as_tasks s' ! i"]) (auto simp: ts same_task_def left_def set_update_memI)
  qed
qed

lemma hooks_cong:
  assumes "hooks_ok s" and "\<And>r. hook_count r s' = hook_count r s"
    and "\<And>t. t \<in> set (as_tasks s) \<Longrightarrow> \<exists>t'\<in>set (as_tasks s'). rt_run t' = rt_run t \<and> rt_phase t' = rt_phase t"
  shows "hooks_ok s'"
  using assms unfolding hooks_ok_def by metis

lemma hook_count_frames [simp]:
  "hook_count r (put_request k q ph s) = hook_count r s" "hook_count r (put_cancel k c cph s) = hook_count r s"
  "hook_count r (cancel_context i s) = hook_count r s" "hook_count r (s\<lparr>as_queue := xs\<rparr>) = hook_count r s"
  "hook_count r (s\<lparr>as_buffers := bs\<rparr>) = hook_count r s"
  by (simp_all add: hook_count_def put_request_def put_cancel_def cancel_context_def)

lemma enqueue_hooks:
  assumes "enqueue_step env k ev q s = Some s'"
  shows "hook_count r s' = hook_count r s"
  using assms
  by (cases "eq_phase q"; cases ev)
    (auto simp: enqueue_step_def insert_run_def split: if_splits option.splits prod.splits db_error.splits sum.splits)

lemma context_keeps: "t \<in> set (as_tasks s) \<Longrightarrow> \<exists>t'\<in>set (as_tasks (cancel_context i s)). rt_run t' = rt_run t \<and> rt_phase t' = rt_phase t"
proof -
  assume "t \<in> set (as_tasks s)"
  then obtain j where "j < length (as_tasks s)" "t = as_tasks s ! j" by (auto simp: in_set_conv_nth)
  moreover from this(1) have "as_tasks (cancel_context i s) ! j \<in> set (as_tasks (cancel_context i s))" by (intro nth_mem) simp
  ultimately show ?thesis by (intro bexI [of _ "as_tasks (cancel_context i s) ! j"]) (simp_all add: cancel_context_nth)
qed

lemma hooks_step:
  assumes "acked l" and wf: "wf_async s" and ok: "hooks_ok s" and step: "async_step env l s = Some s'"
  shows "hooks_ok s'"
proof (cases l)
  case (RequestStep k ev)
  with step have e: "enqueue_step env k ev (as_requests s ! k) s = Some s'" by (auto simp: async_step_def split: if_splits)
  have "as_tasks s' = as_tasks s" using enqueue_step_moves [OF e] by auto
  then show ?thesis using enqueue_hooks [OF e] by (intro hooks_cong [OF ok]) auto
next
  case (CancelStep k ev)
  with step have "cancel_step k ev (as_cancels s ! k) s = Some s'" by (auto simp: async_step_def split: if_splits)
  then obtain ph s1 where m: "cancel_move (as_cancels s ! k) ph s s1" and s': "s' = put_cancel k (as_cancels s ! k) ph s1"
    using cancel_step_moves by blast
  from m have "hooks_ok s1"
  proof cases
    case stored
    then show ?thesis by (intro hooks_cong [OF ok]) auto
  next
    case (called i)
    then show ?thesis by (intro hooks_cong [OF ok]) (auto intro: context_keeps)
  next
    case written
    then show ?thesis by (intro hooks_cong [OF ok]) auto
  qed (simp_all add: ok)
  then show ?thesis by (rule hooks_cong) (auto simp: s')
next
  case (Deliver pod a)
  with step obtain m q where "s' = s\<lparr>as_queue := (if a then q else as_queue s), as_tasks := as_tasks s @ [new_task env (as_now s) pod m]\<rparr>"
    by (auto simp: async_step_def deliver_def split: list.splits)
  then show ?thesis by (intro hooks_cong [OF ok]) (auto simp: hook_count_def)
next
  case (TaskStep i ev)
  with step have "i < length (as_tasks s)" "task_step env i ev (as_tasks s ! i) s = Some s'" by (auto simp: async_step_def split: if_splits)
  then show ?thesis by (rule hooks_task [OF wf ok])
next
  case (ShutdownRun pod run)
  with step obtain i where s': "s' = cancel_context i (s\<lparr>as_cancelled := insert (pod, run) (as_cancelled s)\<rparr>)"
    by (auto simp: async_step_def shutdown_one_def split: option.splits)
  have "hooks_ok (s\<lparr>as_cancelled := insert (pod, run) (as_cancelled s)\<rparr>)" by (rule hooks_cong [OF ok]) auto
  then show ?thesis unfolding s' by (rule hooks_cong) (auto intro: context_keeps)
next
  case (NewRequest pod session voice override)
  with step show ?thesis by (intro hooks_cong [OF ok]) (auto simp: async_step_def hook_count_def)
next
  case (NewCancel pod session run)
  with step show ?thesis by (intro hooks_cong [OF ok]) (auto simp: async_step_def hook_count_def)
next
  case Tick
  with step show ?thesis by (intro hooks_cong [OF ok]) (auto simp: async_step_def hook_count_def)
qed

text \<open>
  C19: If every delivered message is acknowledged, the completion hooks are called at most once for a run, in every interleaving of
  requests, cancellations, shutdowns, timeouts and all workers, and only by a task that does nothing to the run any more. (A message
  delivered again executes its run again, with the hooks.)
\<close>

theorem hooks_fire_once:
  assumes "async_run env ls new_async = Some s" and "list_all acked ls"
  shows "hook_count r s \<le> 1 \<and> (hook_count r s = 1 \<longrightarrow> (\<exists>t\<in>set (as_tasks s). rt_run t = r \<and> left (rt_phase t)))"
proof -
  have "wf_async s \<and> hooks_ok s"
    using assms
  proof (rule async_invariant)
    show "wf_async new_async \<and> hooks_ok new_async" using wf_new by (simp add: hooks_ok_def hook_count_def new_async_def)
  qed (blast intro: wf_step hooks_step)
  then show ?thesis by (simp add: hooks_ok_def)
qed

theorem hooks_fire_once_witness:
  "\<exists>s. async_run sample_async (enqueue_trace 0 ''r1'' @ [Deliver 0 True] @ start_trace 0 @ finish_trace 0) new_async = Some s
     \<and> hook_count ''r1'' s = 1 \<and> (\<exists>t\<in>set (as_tasks s). rt_run t = ''r1'' \<and> left (rt_phase t))"
proof -
  let ?ls = "enqueue_trace 0 ''r1'' @ [Deliver 0 True] @ start_trace 0 @ finish_trace 0"
  have "map_option (hook_count ''r1'') (async_run sample_async ?ls new_async) = Some 1" by code_simp
  then obtain s where s: "async_run sample_async ?ls new_async = Some s" "hook_count ''r1'' s = 1"
    unfolding map_option_eq_Some by blast
  have "list_all acked ?ls" by code_simp
  from hooks_fire_once [OF s(1) this, of "''r1''"] s show ?thesis by blast
qed

text \<open>A run that fails before the runner starts calls no hook.\<close>

lemma failed_startup_without_hook:
  "map_option (\<lambda>s. (map cr_status (as_runs s), map rt_phase (as_tasks s), as_effects s))
     (async_run sample_async (enqueue_trace 0 ''r1'' @ [Deliver 0 True, TaskStep 0 TkGo, TaskStep 0 TkGo, TaskStep 0 (TkLoaded True),
        TaskStep 0 (TkWritten True), TaskStep 0 (TkSessionRow (Inl ''no rows'')), TaskStep 0 (TkStored True True), TaskStep 0 TkGo, TaskStep 0 TkGo, TaskStep 0 TkGo])
      new_async)
   = Some ([RunFailed], [TkGone], [])"
  by code_simp

end
