(* ===== verification/Budget.thy ===== *)
theory Budget
  imports GoStrings
begin

text \<open>
  The output budget of a run (\<^verbatim>\<open>src/internal/domain/chat/agentic/budget.go\<close>: the tracker, its check and the
  nudge) and the tracker of context usage (\<^verbatim>\<open>budgettracker.go\<close>, without its timestamps). Token counts
  are integers. Nine tenths of a budget are computed with integers: a float product of 0.9 and an integer below
  \<open>2 ^ 49\<close> truncates to the same number. The percentage of context usage is compared in the same way.
\<close>

section \<open>The output budget\<close>

record budget_tracker =
  bt_continuations :: nat
  bt_last_delta :: int
  bt_last_tokens :: int

definition new_budget_tracker :: budget_tracker where
  "new_budget_tracker = \<lparr>bt_continuations = 0, bt_last_delta = 0, bt_last_tokens = 0\<rparr>"

datatype budget_decision = KeepWorking string | StopWorking bool

definition format_budget_nudge :: "int \<Rightarrow> int \<Rightarrow> int \<Rightarrow> string" where
  "format_budget_nudge pct used budget =
     ''Stopped at '' @ itoa pct @ ''% of token target ('' @ itoa used @ '' / '' @ itoa budget @ ''). Keep working ''
     @ [CHR 0xE2, CHR 0x80, CHR 0x94] @ '' do not summarize.''"

text \<open>Division of Go rounds towards zero.\<close>

definition go_div :: "int \<Rightarrow> int \<Rightarrow> int" where
  "go_div a b = (if 0 \<le> a then a div b else - (- a div b))"

definition check_token_budget :: "int \<Rightarrow> int \<Rightarrow> budget_tracker \<Rightarrow> budget_decision \<times> budget_tracker" where
  "check_token_budget budget used bt =
     (if budget \<le> 0 then (StopWorking False, bt)
      else let delta = used - bt_last_tokens bt;
               diminishing = (3 \<le> bt_continuations bt \<and> delta < 500 \<and> bt_last_delta bt < 500)
           in if \<not> diminishing \<and> used < 9 * budget div 10
              then (KeepWorking (format_budget_nudge (go_div (used * 100) budget) used budget),
                    \<lparr>bt_continuations = bt_continuations bt + 1, bt_last_delta = delta, bt_last_tokens = used\<rparr>)
              else (StopWorking diminishing, bt))"

text \<open>Checks at successive totals; the number of checks that let the run go on before the first that stops it.\<close>

fun continuations :: "int \<Rightarrow> int list \<Rightarrow> budget_tracker \<Rightarrow> nat" where
  "continuations budget [] bt = 0"
| "continuations budget (used # rest) bt =
     (case check_token_budget budget used bt of
        (KeepWorking _, bt') \<Rightarrow> Suc (continuations budget rest bt')
      | (StopWorking _, _) \<Rightarrow> 0)"

lemma check_keeps:
  "check_token_budget budget used bt = (KeepWorking m, bt') \<longleftrightarrow>
     0 < budget \<and> used < 9 * budget div 10
     \<and> (bt_continuations bt < 3 \<or> 500 \<le> used - bt_last_tokens bt \<or> 500 \<le> bt_last_delta bt)
     \<and> m = format_budget_nudge (go_div (used * 100) budget) used budget
     \<and> bt' = \<lparr>bt_continuations = bt_continuations bt + 1, bt_last_delta = used - bt_last_tokens bt, bt_last_tokens = used\<rparr>"
  by (auto simp: check_token_budget_def Let_def)

text \<open>
  From the third continuation on two consecutive ones produce at least 500 tokens; \<open>owed\<close> is 250 for each of them,
  with half a step of credit for a large last one.
\<close>

lemma continuations_paid:
  assumes "sorted (bt_last_tokens bt # used)" "bt_continuations bt \<ge> 3"
  shows "250 * int (continuations budget used bt)
    \<le> max 0 (9 * budget div 10 - bt_last_tokens bt) + (if 500 \<le> bt_last_delta bt then 500 else 250)"
  using assms
proof (induction used arbitrary: bt)
  case (Cons u used)
  show ?case
  proof (cases "check_token_budget budget u bt")
    case (Pair d bt')
    show ?thesis
    proof (cases d)
      case (KeepWorking m)
      with Pair have k: "u < 9 * budget div 10"
        "500 \<le> u - bt_last_tokens bt \<or> 500 \<le> bt_last_delta bt"
        "bt' = \<lparr>bt_continuations = bt_continuations bt + 1, bt_last_delta = u - bt_last_tokens bt, bt_last_tokens = u\<rparr>"
        using Cons.prems(2) by (auto simp: check_keeps)
      have "250 * int (continuations budget used bt')
          \<le> max 0 (9 * budget div 10 - bt_last_tokens bt') + (if 500 \<le> bt_last_delta bt' then 500 else 250)"
        using Cons.prems by (intro Cons.IH) (auto simp: k(3))
      moreover have "bt_last_tokens bt \<le> u" using Cons.prems(1) by simp
      ultimately show ?thesis
        using k by (auto simp: Pair KeepWorking split: if_splits)
    qed (simp add: Pair)
  qed
qed simp

text \<open>
  A run is told to keep working only while it has produced less than nine tenths of its budget, and, whatever
  totals it reports, at most five times and once more for every 250 tokens of those nine tenths.
\<close>

theorem budget_nudges_bounded:
  assumes "sorted (0 # used)"
  shows "250 * int (continuations budget used new_budget_tracker) \<le> max 0 (9 * budget div 10) + 1250
    \<and> (\<forall>u m bt. fst (check_token_budget budget u bt) = KeepWorking m \<longrightarrow> u < 9 * budget div 10)"
proof
  have first: "250 * int (continuations budget used bt) \<le> max 0 (9 * budget div 10 - bt_last_tokens bt) + 500
      + 250 * int (3 - bt_continuations bt)"
    if "sorted (bt_last_tokens bt # used)" for used bt
    using that
  proof (induction used arbitrary: bt)
    case (Cons u used)
    show ?case
    proof (cases "3 \<le> bt_continuations bt")
      case True
      with continuations_paid [OF Cons.prems, of budget] show ?thesis by (auto split: if_splits)
    next
      case less: False
      show ?thesis
      proof (cases "check_token_budget budget u bt")
        case (Pair d bt')
        show ?thesis
        proof (cases d)
          case (KeepWorking m)
          with Pair have bt': "u < 9 * budget div 10"
            "bt' = \<lparr>bt_continuations = bt_continuations bt + 1, bt_last_delta = u - bt_last_tokens bt, bt_last_tokens = u\<rparr>"
            by (auto simp: check_keeps)
          have "250 * int (continuations budget used bt') \<le> max 0 (9 * budget div 10 - bt_last_tokens bt') + 500
              + 250 * int (3 - bt_continuations bt')"
            using Cons.prems by (intro Cons.IH) (auto simp: bt'(2))
          with bt' less Cons.prems show ?thesis
            by (auto simp: Pair KeepWorking)
        qed (simp add: Pair)
      qed
    qed
  qed simp
  from first [of new_budget_tracker used] assms
  show "250 * int (continuations budget used new_budget_tracker) \<le> max 0 (9 * budget div 10) + 1250"
    by (simp add: new_budget_tracker_def)
  show "\<forall>u m bt. fst (check_token_budget budget u bt) = KeepWorking m \<longrightarrow> u < 9 * budget div 10"
    by (auto simp: check_token_budget_def Let_def split: if_splits)
qed

lemma budget_nudges_bounded_witness:
  "continuations 2000 [100, 200, 300, 400, 500] new_budget_tracker = 3
   \<and> 250 * int (continuations 2000 [100, 200, 300, 400, 500] new_budget_tracker) \<le> 3050"
  using budget_nudges_bounded [of "[100, 200, 300, 400, 500]" 2000]
  by (simp add: check_token_budget_def new_budget_tracker_def)
end
