(* ===== verification/CommandQueue.thy ===== *)
theory CommandQueue
  imports Prelude
begin

text \<open>
  The priority queue of commands (\<^verbatim>\<open>src/internal/domain/chat/agentic/commandqueue.go\<close>). A priority
  is a Go \<^verbatim>\<open>int\<close>, of which \<open>0\<close>, \<open>1\<close>, \<open>2\<close> have names. Listeners are called on every change; the
  model counts the notifications.
\<close>

section \<open>State\<close>

definition priority_now :: int where "priority_now = 0"
definition priority_next :: int where "priority_next = 1"
definition priority_later :: int where "priority_later = 2"

record queued_command =
  qc_id :: string
  qc_priority :: int
  qc_content :: string
  qc_source :: string
  qc_editable :: bool
  qc_visible :: bool

record command_queue =
  cq_commands :: "queued_command list"
  cq_notified :: nat

definition priority_label :: "int \<Rightarrow> string" where
  "priority_label p =
     (if p = priority_now then ''now'' else if p = priority_next then ''next''
      else if p = priority_later then ''later'' else ''unknown'')"

definition new_command_queue :: command_queue where
  "new_command_queue = \<lparr>cq_commands = [], cq_notified = 0\<rparr>"

definition store_commands :: "queued_command list \<Rightarrow> command_queue \<Rightarrow> command_queue" where
  "store_commands cs q = q\<lparr>cq_commands := cs, cq_notified := cq_notified q + 1\<rparr>"

section \<open>Operations\<close>

definition enqueue :: "queued_command \<Rightarrow> command_queue \<Rightarrow> command_queue" where
  "enqueue c q = store_commands (cq_commands q @ [c]) q"

text \<open>The scan for the best index, with the current index, best priority and best index.\<close>

fun best_scan ::
  "(queued_command \<Rightarrow> bool) option \<Rightarrow> nat \<Rightarrow> int \<Rightarrow> nat option \<Rightarrow> queued_command list \<Rightarrow> nat option" where
  "best_scan filt i best idx [] = idx"
| "best_scan filt i best idx (c # cs) =
     (if (case filt of None \<Rightarrow> False | Some f \<Rightarrow> \<not> f c) then best_scan filt (Suc i) best idx cs
      else if qc_priority c < best then best_scan filt (Suc i) (qc_priority c) (Some i) cs
      else best_scan filt (Suc i) best idx cs)"

definition peek_filtered :: "(queued_command \<Rightarrow> bool) option \<Rightarrow> command_queue \<Rightarrow> queued_command option" where
  "peek_filtered filt q = map_option (\<lambda>i. cq_commands q ! i) (best_scan filt 0 999 None (cq_commands q))"

definition dequeue_filtered ::
  "(queued_command \<Rightarrow> bool) option \<Rightarrow> command_queue \<Rightarrow> queued_command option \<times> command_queue" where
  "dequeue_filtered filt q =
     (case best_scan filt 0 999 None (cq_commands q) of
        None \<Rightarrow> (None, q)
      | Some i \<Rightarrow>
          (Some (cq_commands q ! i),
           store_commands (take i (cq_commands q) @ drop (Suc i) (cq_commands q)) q))"

definition dequeue :: "command_queue \<Rightarrow> queued_command option \<times> command_queue" where
  "dequeue q = dequeue_filtered None q"

definition peek :: "command_queue \<Rightarrow> queued_command option" where
  "peek q = peek_filtered None q"

definition sorted_copy :: "queued_command list \<Rightarrow> queued_command list" where
  "sorted_copy cs =
     filter (\<lambda>c. qc_priority c = priority_now) cs @ filter (\<lambda>c. qc_priority c = priority_next) cs
     @ filter (\<lambda>c. qc_priority c \<noteq> priority_now \<and> qc_priority c \<noteq> priority_next) cs"

definition queue_snapshot :: "command_queue \<Rightarrow> queued_command list" where
  "queue_snapshot q = sorted_copy (cq_commands q)"

definition dequeue_all :: "command_queue \<Rightarrow> queued_command list \<times> command_queue" where
  "dequeue_all q =
     (if cq_commands q = [] then ([], q) else (sorted_copy (cq_commands q), store_commands [] q))"

definition dequeue_all_matching ::
  "(queued_command \<Rightarrow> bool) \<Rightarrow> command_queue \<Rightarrow> queued_command list \<times> command_queue" where
  "dequeue_all_matching p q =
     (let removed = filter p (cq_commands q)
      in if removed = [] then ([], q)
         else (removed, store_commands (filter (\<lambda>c. \<not> p c) (cq_commands q)) q))"

definition get_by_max_priority :: "int \<Rightarrow> command_queue \<Rightarrow> queued_command list" where
  "get_by_max_priority m q = filter (\<lambda>c. qc_priority c \<le> m) (cq_commands q)"

definition clear_queue :: "command_queue \<Rightarrow> command_queue" where
  "clear_queue q = (if cq_commands q \<noteq> [] then store_commands [] q else q)"

section \<open>The scan finds the first best command\<close>

interpretation by_priority: keyed_preference qc_priority .

definition eligible :: "(queued_command \<Rightarrow> bool) option \<Rightarrow> queued_command \<Rightarrow> bool" where
  "eligible filt c = (case filt of None \<Rightarrow> True | Some f \<Rightarrow> f c)"

lemma best_scan_cons:
  "best_scan filt i best idx (c # cs) =
     (if eligible filt c \<and> qc_priority c < best then best_scan filt (Suc i) (qc_priority c) (Some i) cs
      else best_scan filt (Suc i) best idx cs)"
  by (auto simp: eligible_def split: option.split)

declare best_scan.simps(2) [simp del]

text \<open>The index at the start is returned only if nothing improves on it.\<close>

lemma best_scan_start:
  "best_scan filt i best idx cs = (case best_scan filt i best None cs of None \<Rightarrow> idx | Some j \<Rightarrow> Some j)"
proof (induction cs arbitrary: i best idx)
  case Nil
  show ?case by simp
next
  case (Cons c cs)
  show ?case
    using Cons [of "Suc i" best idx] Cons [of "Suc i" "qc_priority c" "Some i"]
    by (auto simp: best_scan_cons split: option.splits)
qed

text \<open>A scan finds the first eligible command of the lowest priority below the bound.\<close>

definition scan_found ::
  "(queued_command \<Rightarrow> bool) option \<Rightarrow> nat \<Rightarrow> int \<Rightarrow> queued_command list \<Rightarrow> nat \<Rightarrow> bool" where
  "scan_found filt i best cs j \<longleftrightarrow>
     (\<exists>pre c post. cs = pre @ c # post \<and> j = i + length pre \<and> eligible filt c \<and> qc_priority c < best
        \<and> (\<forall>x \<in> set pre. eligible filt x \<longrightarrow> qc_priority c < qc_priority x)
        \<and> (\<forall>x \<in> set post. eligible filt x \<longrightarrow> qc_priority c \<le> qc_priority x))"

lemma scan_found_Cons:
  assumes "scan_found filt (Suc i) best cs j" and "eligible filt d \<Longrightarrow> best \<le> qc_priority d" and "best \<le> best'"
  shows "scan_found filt i best' (d # cs) j"
proof -
  obtain pre c post where "cs = pre @ c # post" "j = Suc i + length pre" "eligible filt c" "qc_priority c < best"
    "\<forall>x \<in> set pre. eligible filt x \<longrightarrow> qc_priority c < qc_priority x"
    "\<forall>x \<in> set post. eligible filt x \<longrightarrow> qc_priority c \<le> qc_priority x"
    using assms(1) unfolding scan_found_def by blast
  then have "d # cs = (d # pre) @ c # post" "j = i + length (d # pre)" "eligible filt c" "qc_priority c < best'"
    "\<forall>x \<in> set (d # pre). eligible filt x \<longrightarrow> qc_priority c < qc_priority x"
    "\<forall>x \<in> set post. eligible filt x \<longrightarrow> qc_priority c \<le> qc_priority x"
    using assms(2,3) by auto
  then show ?thesis unfolding scan_found_def by blast
qed

lemma best_scan_spec:
  "case best_scan filt i best None cs of
     None \<Rightarrow> filter (\<lambda>c. eligible filt c \<and> qc_priority c < best) cs = []
   | Some j \<Rightarrow> scan_found filt i best cs j"
proof (induction cs arbitrary: i best)
  case Nil
  show ?case by simp
next
  case (Cons d cs)
  show ?case
  proof (cases "eligible filt d \<and> qc_priority d < best")
    case True
    then have step: "best_scan filt i best None (d # cs)
        = (case best_scan filt (Suc i) (qc_priority d) None cs of None \<Rightarrow> Some i | Some j \<Rightarrow> Some j)"
      using best_scan_start [of filt "Suc i" "qc_priority d" "Some i" cs] by (simp add: best_scan_cons)
    show ?thesis
    proof (cases "best_scan filt (Suc i) (qc_priority d) None cs")
      case None
      with Cons.IH [of "qc_priority d" "Suc i"] have "\<forall>x \<in> set cs. eligible filt x \<longrightarrow> qc_priority d \<le> qc_priority x"
        by (auto simp: filter_empty_conv)
      with True have "scan_found filt i best (d # cs) i"
        unfolding scan_found_def by (intro exI [of _ "[]"] exI [of _ d] exI [of _ cs]) auto
      with None step show ?thesis by simp
    next
      case (Some j)
      with Cons.IH [of "qc_priority d" "Suc i"] True have "scan_found filt i best (d # cs) j"
        by (intro scan_found_Cons [of filt i "qc_priority d"]) auto
      with Some step show ?thesis by simp
    qed
  next
    case False
    then have "best_scan filt i best None (d # cs) = best_scan filt (Suc i) best None cs"
      by (auto simp: best_scan_cons)
    with Cons.IH [of best "Suc i"] False show ?thesis
      by (auto intro: scan_found_Cons split: option.splits)
  qed
qed

lemma dequeue_None:
  "fst (dequeue_filtered filt q) = None \<longleftrightarrow> filter (\<lambda>c. eligible filt c \<and> qc_priority c < 999) (cq_commands q) = []"
  using best_scan_spec [where filt = filt and i = 0 and best = 999 and cs = "cq_commands q"]
  by (auto simp: dequeue_filtered_def scan_found_def filter_empty_conv split: option.splits)

lemma dequeue_Some:
  assumes "fst (dequeue_filtered filt q) = Some c"
  shows "\<exists>pre post. cq_commands q = pre @ c # post \<and> cq_commands (snd (dequeue_filtered filt q)) = pre @ post
    \<and> eligible filt c \<and> qc_priority c < 999
    \<and> (\<forall>x \<in> set pre. eligible filt x \<longrightarrow> qc_priority c < qc_priority x)
    \<and> (\<forall>x \<in> set post. eligible filt x \<longrightarrow> qc_priority c \<le> qc_priority x)"
proof -
  obtain i where i: "best_scan filt 0 999 None (cq_commands q) = Some i" and c: "c = cq_commands q ! i"
    using assms by (auto simp: dequeue_filtered_def split: option.splits)
  with best_scan_spec [where filt = filt and i = 0 and best = 999 and cs = "cq_commands q"] obtain pre d post where
    s: "cq_commands q = pre @ d # post" "i = length pre" and d: "eligible filt d" "qc_priority d < 999"
    "\<forall>x \<in> set pre. eligible filt x \<longrightarrow> qc_priority d < qc_priority x"
    "\<forall>x \<in> set post. eligible filt x \<longrightarrow> qc_priority d \<le> qc_priority x"
    by (auto simp: scan_found_def)
  from s c have "c = d" by simp
  moreover have "cq_commands (snd (dequeue_filtered filt q)) = pre @ post"
    using i s by (simp add: dequeue_filtered_def store_commands_def)
  ultimately show ?thesis using s d by blast
qed

text \<open>
  A filtered dequeue takes the first matching command of the best priority and leaves the others in
  place and order; it finds nothing exactly when no matching command has a priority below 999.
\<close>

theorem dequeue_takes_first_best:
  "case fst (dequeue_filtered filt q) of
     None \<Rightarrow> filter (\<lambda>c. eligible filt c \<and> qc_priority c < 999) (cq_commands q) = [] \<and> snd (dequeue_filtered filt q) = q
   | Some c \<Rightarrow> first_best (\<lambda>x y. qc_priority x < qc_priority y) (filter (eligible filt) (cq_commands q)) c
       \<and> (\<exists>pre post. cq_commands q = pre @ c # post \<and> c \<notin> set pre
            \<and> cq_commands (snd (dequeue_filtered filt q)) = pre @ post)"
proof (cases "fst (dequeue_filtered filt q)")
  case None
  then show ?thesis using dequeue_None [of filt q] by (auto simp: dequeue_filtered_def split: option.splits)
next
  case (Some c)
  from dequeue_Some [OF Some] obtain pre post where s: "cq_commands q = pre @ c # post"
    "cq_commands (snd (dequeue_filtered filt q)) = pre @ post" "eligible filt c"
    "\<forall>x \<in> set pre. eligible filt x \<longrightarrow> qc_priority c < qc_priority x"
    "\<forall>x \<in> set post. eligible filt x \<longrightarrow> qc_priority c \<le> qc_priority x" by blast
  then have "first_best (\<lambda>x y. qc_priority x < qc_priority y) (filter (eligible filt) (cq_commands q)) c"
    unfolding first_best_def
    by (intro exI [of _ "filter (eligible filt) pre"] exI [of _ "filter (eligible filt) post"]) auto
  moreover have "c \<notin> set pre" using s(3,4) by auto
  ultimately show ?thesis using Some s(1,2) by auto
qed

section \<open>Draining\<close>

fun drain :: "nat \<Rightarrow> command_queue \<Rightarrow> queued_command list" where
  "drain 0 q = []"
| "drain (Suc n) q = (case dequeue q of (None, _) \<Rightarrow> [] | (Some c, q') \<Rightarrow> c # drain n q')"

definition named_priority :: "queued_command \<Rightarrow> bool" where
  "named_priority c = (qc_priority c \<in> {priority_now, priority_next, priority_later})"

lemmas priority_defs = priority_now_def priority_next_def priority_later_def

lemma sorted_constant: "sorted (map f (filter (\<lambda>x. f x = (k::int)) xs))"
  by (induction xs) auto

lemma sorted_copy_buckets:
  "list_all named_priority cs \<Longrightarrow> sorted_copy cs =
     filter (\<lambda>c. qc_priority c = 0) cs @ filter (\<lambda>c. qc_priority c = 1) cs @ filter (\<lambda>c. qc_priority c = 2) cs"
  by (auto simp: sorted_copy_def priority_defs list_all_iff named_priority_def intro!: filter_cong)

lemma filter_priority:
  "filter (\<lambda>x. qc_priority x = n \<and> p = qc_priority x) cs = (if p = n then filter (\<lambda>x. p = qc_priority x) cs else [])"
  by (auto simp: filter_empty_conv intro: filter_cong)

lemma sorted_copy_stable:
  assumes named: "list_all named_priority cs"
  shows "sorted_copy cs = sort_key qc_priority cs"
proof (rule properties_for_sort_key [symmetric])
  show "mset (sorted_copy cs) = mset cs"
    unfolding sorted_copy_def priority_defs by (induction cs) auto
  show "sorted (map qc_priority (sorted_copy cs))"
    by (auto simp: sorted_copy_buckets [OF named] sorted_append sorted_constant)
  show "filter (\<lambda>x. qc_priority k = qc_priority x) (sorted_copy cs) = filter (\<lambda>x. qc_priority k = qc_priority x) cs"
    if "k \<in> set (sorted_copy cs)" for k
  proof -
    have "qc_priority k = 0 \<or> qc_priority k = 1 \<or> qc_priority k = 2"
      using that by (auto simp: sorted_copy_buckets [OF named])
    then show ?thesis
      by (elim disjE) (simp_all add: sorted_copy_buckets [OF named] filter_priority)
  qed
qed

text \<open>Removing the first command of the best priority is one step of a stable sort.\<close>

lemma sort_key_take_first:
  assumes "\<forall>x \<in> set pre. k c < k x" "\<forall>x \<in> set post. k c \<le> (k x :: int)"
  shows "sort_key k (pre @ c # post) = c # sort_key k (pre @ post)"
proof (rule properties_for_sort_key)
  show "mset (c # sort_key k (pre @ post)) = mset (pre @ c # post)" by simp
  show "sorted (map k (c # sort_key k (pre @ post)))" using assms by auto
  show "filter (\<lambda>x. k a = k x) (c # sort_key k (pre @ post)) = filter (\<lambda>x. k a = k x) (pre @ c # post)" for a
  proof -
    have "filter (\<lambda>x. k a = k x) (sort_key k (pre @ post)) = filter (\<lambda>x. k a = k x) (pre @ post)"
      using sort_key_stable [of k "k a" "pre @ post"] by (simp only: eq_commute [of "k a"])
    moreover have "k a = k c \<Longrightarrow> filter (\<lambda>x. k a = k x) pre = []"
      using assms(1) by (auto simp: filter_empty_conv)
    ultimately show ?thesis by auto
  qed
qed

lemma drain_sorts:
  "list_all (\<lambda>c. qc_priority c < 999) (cq_commands q) \<Longrightarrow> length (cq_commands q) \<le> n \<Longrightarrow>
     drain n q = sort_key qc_priority (cq_commands q)"
proof (induction n arbitrary: q)
  case 0
  then show ?case by simp
next
  case (Suc n)
  show ?case
  proof (cases "fst (dequeue q)")
    case None
    then have "cq_commands q = []"
      using Suc.prems(1) dequeue_None [of None q]
      by (cases "cq_commands q") (auto simp: dequeue_def eligible_def)
    with None show ?thesis by (simp add: split_beta)
  next
    case (Some c)
    then obtain pre post where s: "cq_commands q = pre @ c # post" "cq_commands (snd (dequeue q)) = pre @ post"
      "\<forall>x \<in> set pre. qc_priority c < qc_priority x" "\<forall>x \<in> set post. qc_priority c \<le> qc_priority x"
      using dequeue_Some [of None q c] by (auto simp: dequeue_def eligible_def)
    have "drain (Suc n) q = c # drain n (snd (dequeue q))"
      using Some by (cases "dequeue q") auto
    moreover have "drain n (snd (dequeue q)) = sort_key qc_priority (pre @ post)"
      using Suc.IH [of "snd (dequeue q)"] Suc.prems s(1,2) by simp
    ultimately show ?thesis
      using sort_key_take_first [OF s(3,4)] s(1) by simp
  qed
qed

text \<open>
  For commands with the named priorities all the ways of reading the queue agree: dequeuing one by
  one until it is empty, \<^verbatim>\<open>DequeueAll\<close> and \<^verbatim>\<open>Snapshot\<close> give the stable sort by priority.
\<close>

theorem drain_agrees_with_snapshot:
  assumes "list_all named_priority (cq_commands q)"
  shows "drain (length (cq_commands q)) q = sort_key qc_priority (cq_commands q)
    \<and> fst (dequeue_all q) = sort_key qc_priority (cq_commands q)
    \<and> queue_snapshot q = sort_key qc_priority (cq_commands q)"
proof -
  have "list_all (\<lambda>c. qc_priority c < 999) (cq_commands q)"
    using assms by (auto simp: list_all_iff named_priority_def priority_defs)
  then show ?thesis
    using drain_sorts [of q "length (cq_commands q)"] sorted_copy_stable [OF assms]
    by (simp add: dequeue_all_def queue_snapshot_def)
qed

text \<open>Three commands of the three priorities.\<close>

definition test_command :: "string \<Rightarrow> int \<Rightarrow> queued_command" where
  "test_command i p = \<lparr>qc_id = i, qc_priority = p, qc_content = [], qc_source = [], qc_editable = False, qc_visible = False\<rparr>"

theorem drain_agrees_with_snapshot_witness:
  "map qc_id (drain 3 (enqueue (test_command ''c'' 0) (enqueue (test_command ''b'' 1)
     (enqueue (test_command ''a'' 2) new_command_queue)))) = [''c'', ''b'', ''a'']"
proof -
  let ?q = "enqueue (test_command ''c'' 0) (enqueue (test_command ''b'' 1) (enqueue (test_command ''a'' 2) new_command_queue))"
  have "list_all named_priority (cq_commands ?q)"
    by (simp add: enqueue_def store_commands_def new_command_queue_def test_command_def named_priority_def priority_defs)
  note sorts = drain_agrees_with_snapshot [OF this]
  have cs: "cq_commands ?q = [test_command ''a'' 2, test_command ''b'' 1, test_command ''c'' 0]"
    by (simp add: enqueue_def store_commands_def new_command_queue_def)
  then have "length (cq_commands ?q) = 3" by simp
  with sorts have "drain 3 ?q = sort_key qc_priority (cq_commands ?q)" by metis
  then show ?thesis unfolding cs by (simp add: test_command_def)
qed

text \<open>
  Outside the named priorities the readings disagree: of a negative and a now command the dequeue
  takes the negative one first and the snapshot puts it last, and a command of priority 999 or more
  is never dequeued, though the snapshot shows it.
\<close>

theorem unnamed_priorities_disagree:
  "map qc_id (drain 2 (enqueue (test_command ''a'' (-1)) (enqueue (test_command ''b'' 0) new_command_queue))) = [''a'', ''b'']
   \<and> map qc_id (queue_snapshot (enqueue (test_command ''a'' (-1)) (enqueue (test_command ''b'' 0) new_command_queue))) = [''b'', ''a'']
   \<and> fst (dequeue (enqueue (test_command ''a'' 999) new_command_queue)) = None
   \<and> queue_snapshot (enqueue (test_command ''a'' 999) new_command_queue) = [test_command ''a'' 999]"
proof -
  have "drain 2 q = sort_key qc_priority (cq_commands q)"
    if "cq_commands q = [test_command ''b'' 0, test_command ''a'' (-1)]" for q
    using drain_sorts [of q 2] that by (simp add: test_command_def)
  then show ?thesis
    by (simp add: enqueue_def store_commands_def new_command_queue_def queue_snapshot_def
        sorted_copy_def priority_defs dequeue_None [of None, folded dequeue_def] test_command_def)
qed

end
