(* ===== verification/ConcExecutor.thy ===== *)
theory ConcExecutor
  imports GoStrings "HOL-Library.Sublist"
begin

text \<open>
  The concurrent tool executor of
  \<^verbatim>\<open>src/internal/domain/chat/agentic/streamingtoolexec.go\<close>: a list of tracked tools with their
  life cycle, a counter of executing tools, an exclusive lock for tools that are not safe to run
  in parallel, and results that are handed out in the order the tools were added. Every operation
  holds the mutex, so a run is a sequence of operations.
\<close>

section \<open>State\<close>

datatype conc_status = ConcQueued | ConcExecuting | ConcCompleted | ConcYielded | ConcFailed

record conc_tool =
  ct_id :: string
  ct_tool_name :: string
  ct_status :: conc_status
  ct_safe :: bool
  ct_result :: "string option"
  ct_error :: "string option"
  ct_progress :: "string list"

record conc_executor =
  ce_is_safe :: "string \<Rightarrow> bool"
  ce_max :: int
  ce_tools :: "conc_tool list"
  ce_executing :: int
  ce_exclusive :: bool
  ce_discarded :: bool

definition new_conc_executor :: "(string \<Rightarrow> bool) option \<Rightarrow> int \<Rightarrow> conc_executor" where
  "new_conc_executor safe m =
     \<lparr>ce_is_safe = (case safe of None \<Rightarrow> (\<lambda>_. False) | Some f \<Rightarrow> f), ce_max = m, ce_tools = [],
      ce_executing = 0, ce_exclusive = False, ce_discarded = False\<rparr>"

section \<open>Operations\<close>

definition add_tool :: "string \<Rightarrow> string \<Rightarrow> conc_executor \<Rightarrow> conc_tool option \<times> conc_executor" where
  "add_tool i name e =
     (if ce_discarded e then (None, e)
      else let tt = \<lparr>ct_id = i, ct_tool_name = name, ct_status = ConcQueued, ct_safe = ce_is_safe e name,
                     ct_result = None, ct_error = None, ct_progress = []\<rparr>
           in (Some tt, e\<lparr>ce_tools := ce_tools e @ [tt]\<rparr>))"

text \<open>The loop of \<^verbatim>\<open>GetReady\<close>; \<open>n\<close> is the number of tools already selected.\<close>

fun ready_scan :: "int \<Rightarrow> int \<Rightarrow> nat \<Rightarrow> conc_tool list \<Rightarrow> conc_tool list" where
  "ready_scan executing m n [] = []"
| "ready_scan executing m n (tt # ts) =
     (if ct_status tt \<noteq> ConcQueued then ready_scan executing m n ts
      else if \<not> ct_safe tt then (if 0 < executing then [] else [tt])
      else if 0 < m \<and> m \<le> executing + int n then []
      else tt # ready_scan executing m (Suc n) ts)"

definition get_ready :: "conc_executor \<Rightarrow> conc_tool list" where
  "get_ready e =
     (if ce_discarded e \<or> ce_exclusive e then []
      else ready_scan (ce_executing e) (ce_max e) 0 (ce_tools e))"

definition find_tool :: "string \<Rightarrow> conc_tool list \<Rightarrow> conc_tool option" where
  "find_tool i ts = find (\<lambda>tt. ct_id tt = i) ts"

text \<open>The Go code mutates the tool \<^verbatim>\<open>findTool\<close> returns: the first one with the identifier.\<close>

fun modify_tool :: "string \<Rightarrow> (conc_tool \<Rightarrow> conc_tool) \<Rightarrow> conc_tool list \<Rightarrow> conc_tool list" where
  "modify_tool i f [] = []"
| "modify_tool i f (tt # ts) = (if ct_id tt = i then f tt # ts else tt # modify_tool i f ts)"

definition mark_executing :: "string \<Rightarrow> conc_executor \<Rightarrow> bool \<times> conc_executor" where
  "mark_executing i e =
     (case find_tool i (ce_tools e) of
        None \<Rightarrow> (False, e)
      | Some tt \<Rightarrow>
          if ct_status tt \<noteq> ConcQueued then (False, e)
          else (True, e\<lparr>ce_tools := modify_tool i (\<lambda>t. t\<lparr>ct_status := ConcExecuting\<rparr>) (ce_tools e),
                        ce_executing := ce_executing e + 1,
                        ce_exclusive := (if ct_safe tt then ce_exclusive e else True)\<rparr>))"

definition finish_tool :: "string \<Rightarrow> (conc_tool \<Rightarrow> conc_tool) \<Rightarrow> conc_executor \<Rightarrow> bool \<times> conc_executor" where
  "finish_tool i f e =
     (case find_tool i (ce_tools e) of
        None \<Rightarrow> (False, e)
      | Some tt \<Rightarrow>
          if ct_status tt \<noteq> ConcExecuting then (False, e)
          else (True, e\<lparr>ce_tools := modify_tool i f (ce_tools e),
                        ce_executing := ce_executing e - 1,
                        ce_exclusive := (if ct_safe tt then ce_exclusive e else False)\<rparr>))"

definition mark_completed :: "string \<Rightarrow> string \<Rightarrow> conc_executor \<Rightarrow> bool \<times> conc_executor" where
  "mark_completed i res e = finish_tool i (\<lambda>t. t\<lparr>ct_status := ConcCompleted, ct_result := Some res\<rparr>) e"

definition mark_failed :: "string \<Rightarrow> string \<Rightarrow> conc_executor \<Rightarrow> bool \<times> conc_executor" where
  "mark_failed i err e = finish_tool i (\<lambda>t. t\<lparr>ct_status := ConcFailed, ct_error := Some err\<rparr>) e"

definition add_progress :: "string \<Rightarrow> string \<Rightarrow> conc_executor \<Rightarrow> conc_executor" where
  "add_progress i p e = e\<lparr>ce_tools := modify_tool i (\<lambda>t. t\<lparr>ct_progress := ct_progress t @ [p]\<rparr>) (ce_tools e)\<rparr>"

definition yield_progress :: "conc_executor \<Rightarrow> string list \<times> conc_executor" where
  "yield_progress e =
     (concat (map ct_progress (ce_tools e)), e\<lparr>ce_tools := map (\<lambda>t. t\<lparr>ct_progress := []\<rparr>) (ce_tools e)\<rparr>)"

text \<open>The tools returned are pointers, so their status reads yielded as well.\<close>

fun results_scan :: "conc_tool list \<Rightarrow> conc_tool list \<times> conc_tool list" where
  "results_scan [] = ([], [])"
| "results_scan (tt # ts) =
     (case ct_status tt of
        ConcQueued \<Rightarrow> ([], tt # ts)
      | ConcExecuting \<Rightarrow> ([], tt # ts)
      | ConcYielded \<Rightarrow> (case results_scan ts of (rs, ts') \<Rightarrow> (rs, tt # ts'))
      | _ \<Rightarrow> (case results_scan ts of
                 (rs, ts') \<Rightarrow> (tt\<lparr>ct_status := ConcYielded\<rparr> # rs, tt\<lparr>ct_status := ConcYielded\<rparr> # ts')))"

definition get_results :: "conc_executor \<Rightarrow> conc_tool list \<times> conc_executor" where
  "get_results e = (case results_scan (ce_tools e) of (rs, ts) \<Rightarrow> (rs, e\<lparr>ce_tools := ts\<rparr>))"

definition discard_tool :: "conc_tool \<Rightarrow> conc_tool" where
  "discard_tool t =
     (if ct_status t = ConcQueued \<or> ct_status t = ConcExecuting
      then t\<lparr>ct_status := ConcFailed, ct_error := Some ''discarded''\<rparr> else t)"

definition discard :: "conc_executor \<Rightarrow> conc_executor" where
  "discard e =
     e\<lparr>ce_discarded := True, ce_tools := map discard_tool (ce_tools e), ce_executing := 0, ce_exclusive := False\<rparr>"

definition all_done :: "conc_executor \<Rightarrow> bool" where
  "all_done e = list_all (\<lambda>t. ct_status t \<notin> {ConcQueued, ConcExecuting}) (ce_tools e)"

definition conc_summary :: "conc_executor \<Rightarrow> nat \<times> nat \<times> nat \<times> nat" where
  "conc_summary e =
     (let n = (\<lambda>ss. length (filter (\<lambda>t. ct_status t \<in> ss) (ce_tools e)))
      in (n {ConcQueued}, n {ConcExecuting}, n {ConcCompleted, ConcYielded}, n {ConcFailed}))"

section \<open>The step relation\<close>

text \<open>A client may start a tool only if it is the first one \<^verbatim>\<open>GetReady\<close> offers at that moment.\<close>

inductive conc_step :: "conc_executor \<Rightarrow> conc_executor \<Rightarrow> bool" where
  step_add: "conc_step e (snd (add_tool i name e))"
| step_start: "get_ready e = tt # rest \<Longrightarrow> conc_step e (snd (mark_executing (ct_id tt) e))"
| step_complete: "conc_step e (snd (mark_completed i res e))"
| step_fail: "conc_step e (snd (mark_failed i err e))"
| step_progress: "conc_step e (add_progress i p e)"
| step_yield: "conc_step e (snd (yield_progress e))"
| step_results: "conc_step e (snd (get_results e))"
| step_discard: "conc_step e (discard e)"

inductive_cases conc_stepE: "conc_step e e'"

inductive conc_reachable :: "(string \<Rightarrow> bool) option \<Rightarrow> int \<Rightarrow> conc_executor \<Rightarrow> bool" where
  reach_new: "conc_reachable safe m (new_conc_executor safe m)"
| reach_step: "conc_reachable safe m e \<Longrightarrow> conc_step e e' \<Longrightarrow> conc_reachable safe m e'"

text \<open>How many tools execute, and how many of them need exclusive access.\<close>

fun running_count :: "conc_tool list \<Rightarrow> nat" where
  "running_count [] = 0"
| "running_count (t # ts) = (if ct_status t = ConcExecuting then 1 else 0) + running_count ts"

fun exclusive_count :: "conc_tool list \<Rightarrow> nat" where
  "exclusive_count [] = 0"
| "exclusive_count (t # ts) = (if ct_status t = ConcExecuting \<and> \<not> ct_safe t then 1 else 0) + exclusive_count ts"

definition conc_inv :: "int \<Rightarrow> conc_executor \<Rightarrow> bool" where
  "conc_inv m e \<longleftrightarrow>
     ce_max e = m \<and> ce_executing e = int (running_count (ce_tools e))
     \<and> ce_exclusive e = (0 < exclusive_count (ce_tools e))
     \<and> (0 < exclusive_count (ce_tools e) \<longrightarrow> running_count (ce_tools e) = 1)
     \<and> (0 < m \<longrightarrow> ce_executing e \<le> m)"

lemma counts_append [simp]:
  "running_count (xs @ ys) = running_count xs + running_count ys"
  "exclusive_count (xs @ ys) = exclusive_count xs + exclusive_count ys"
  by (induction xs) auto

lemma exclusive_le_running: "exclusive_count ts \<le> running_count ts"
  by (induction ts) auto

lemma counts_modify:
  "(\<And>t. ct_status (f t) = ct_status t \<and> ct_safe (f t) = ct_safe t) \<Longrightarrow>
     running_count (modify_tool i f ts) = running_count ts \<and> exclusive_count (modify_tool i f ts) = exclusive_count ts"
  by (induction ts) auto

lemma counts_map:
  "(\<And>t. ct_status (f t) = ct_status t \<and> ct_safe (f t) = ct_safe t) \<Longrightarrow>
     running_count (map f ts) = running_count ts \<and> exclusive_count (map f ts) = exclusive_count ts"
  by (induction ts) auto

lemma counts_results:
  "running_count (snd (results_scan ts)) = running_count ts \<and> exclusive_count (snd (results_scan ts)) = exclusive_count ts"
  by (induction ts) (auto simp: split_beta split: conc_status.split)

lemma counts_discard: "running_count (map discard_tool ts) = 0 \<and> exclusive_count (map discard_tool ts) = 0"
  by (induction ts) (auto simp: discard_tool_def)

lemma modify_split:
  "find_tool i ts = Some tt \<Longrightarrow> \<exists>pre post. ts = pre @ tt # post \<and> ct_id tt = i
     \<and> (\<forall>t \<in> set pre. ct_id t \<noteq> i) \<and> (\<forall>f. modify_tool i f ts = pre @ f tt # post)"
proof (induction ts)
  case Nil
  then show ?case by (simp add: find_tool_def)
next
  case (Cons t ts)
  show ?case
  proof (cases "ct_id t = i")
    case True
    with Cons.prems show ?thesis by (intro exI [of _ "[]"] exI [of _ ts]) (auto simp: find_tool_def)
  next
    case False
    with Cons obtain pre post where s: "ts = pre @ tt # post" "ct_id tt = i" "\<forall>t \<in> set pre. ct_id t \<noteq> i"
      "\<forall>f. modify_tool i f ts = pre @ f tt # post"
      by (auto simp: find_tool_def)
    with False show ?thesis by (intro exI [of _ "t # pre"] exI [of _ post]) auto
  qed
qed

lemma ready_scan_head:
  "ready_scan ex m 0 ts = tt # rest \<Longrightarrow>
     \<exists>pre post. ts = pre @ tt # post \<and> (\<forall>t \<in> set pre. ct_status t \<noteq> ConcQueued) \<and> ct_status tt = ConcQueued
       \<and> (if ct_safe tt then \<not> (0 < m \<and> m \<le> ex) else ex \<le> 0)"
proof (induction ts)
  case Nil
  then show ?case by simp
next
  case (Cons t ts)
  show ?case
  proof (cases "ct_status t = ConcQueued")
    case True
    with Cons.prems show ?thesis
      by (intro exI [of _ "[]"] exI [of _ ts]) (auto split: if_splits)
  next
    case False
    with Cons obtain pre post where "ts = pre @ tt # post" "\<forall>t \<in> set pre. ct_status t \<noteq> ConcQueued"
      "ct_status tt = ConcQueued" "if ct_safe tt then \<not> (0 < m \<and> m \<le> ex) else ex \<le> 0"
      by auto
    with False show ?thesis by (intro exI [of _ "t # pre"] exI [of _ post]) auto
  qed
qed

text \<open>Starting the first ready tool changes exactly that tool, or nothing (an earlier tool has its identifier).\<close>

lemma start_first:
  assumes "get_ready e = tt # rest"
  shows "mark_executing (ct_id tt) e = (False, e)
    \<or> (\<exists>pre post. ce_tools e = pre @ tt # post \<and> ct_status tt = ConcQueued \<and> \<not> ce_exclusive e
         \<and> (if ct_safe tt then \<not> (0 < ce_max e \<and> ce_max e \<le> ce_executing e) else ce_executing e \<le> 0)
         \<and> snd (mark_executing (ct_id tt) e)
             = e\<lparr>ce_tools := pre @ tt\<lparr>ct_status := ConcExecuting\<rparr> # post, ce_executing := ce_executing e + 1,
                 ce_exclusive := (if ct_safe tt then ce_exclusive e else True)\<rparr>)"
proof -
  have lock: "\<not> ce_exclusive e" and "ready_scan (ce_executing e) (ce_max e) 0 (ce_tools e) = tt # rest"
    using assms by (auto simp: get_ready_def split: if_splits)
  from ready_scan_head [OF this(2)] obtain pre post where
    split: "ce_tools e = pre @ tt # post" and pre: "\<forall>t \<in> set pre. ct_status t \<noteq> ConcQueued"
    and tt: "ct_status tt = ConcQueued"
      "if ct_safe tt then \<not> (0 < ce_max e \<and> ce_max e \<le> ce_executing e) else ce_executing e \<le> 0"
    by blast
  have "find_tool (ct_id tt) (ce_tools e) \<noteq> None"
    by (auto simp: find_tool_def find_None_iff split)
  then obtain u where u: "find_tool (ct_id tt) (ce_tools e) = Some u" by blast
  from modify_split [OF this] obtain pre' post' where
    s: "ce_tools e = pre' @ u # post'" and id: "ct_id u = ct_id tt" and pre': "\<forall>t \<in> set pre'. ct_id t \<noteq> ct_id tt"
    and m: "\<forall>f. modify_tool (ct_id tt) f (ce_tools e) = pre' @ f u # post'"
    by blast
  show ?thesis
  proof (cases "ct_status u = ConcQueued")
    case False
    with u show ?thesis by (simp add: mark_executing_def)
  next
    case True
    from split s have "pre @ tt # post = pre' @ u # post'" by simp
    with pre True pre' have "u = tt \<and> pre' = pre \<and> post' = post"
      by (auto simp: append_eq_append_conv2 append_eq_Cons_conv Cons_eq_append_conv)
    with u m lock split tt True show ?thesis by (auto simp: mark_executing_def)
  qed
qed

lemma start_inv:
  assumes inv: "conc_inv m e" and ready: "get_ready e = tt # rest"
  shows "conc_inv m (snd (mark_executing (ct_id tt) e))"
  using start_first [OF ready] inv
proof (elim disjE exE conjE)
  fix pre post
  assume s: "ce_tools e = pre @ tt # post" "ct_status tt = ConcQueued" "\<not> ce_exclusive e"
    "if ct_safe tt then \<not> (0 < ce_max e \<and> ce_max e \<le> ce_executing e) else ce_executing e \<le> 0"
    "snd (mark_executing (ct_id tt) e)
       = e\<lparr>ce_tools := pre @ tt\<lparr>ct_status := ConcExecuting\<rparr> # post, ce_executing := ce_executing e + 1,
           ce_exclusive := (if ct_safe tt then ce_exclusive e else True)\<rparr>"
  with inv show ?thesis
    unfolding s(5) by (cases "ct_safe tt") (auto simp: conc_inv_def)
qed simp

lemma finish_inv:
  assumes "conc_inv m e" and "\<And>t. ct_status (f t) \<noteq> ConcExecuting"
  shows "conc_inv m (snd (finish_tool i f e))"
proof (cases "find_tool i (ce_tools e)")
  case None
  then show ?thesis using assms by (simp add: finish_tool_def)
next
  case (Some tt)
  show ?thesis
  proof (cases "ct_status tt = ConcExecuting")
    case False
    with Some assms show ?thesis by (simp add: finish_tool_def)
  next
    case True
    from modify_split [OF Some] obtain pre post where s: "ce_tools e = pre @ tt # post"
      "\<forall>f. modify_tool i f (ce_tools e) = pre @ f tt # post" by blast
    have "exclusive_count pre \<le> running_count pre" "exclusive_count post \<le> running_count post"
      by (simp_all add: exclusive_le_running)
    with assms(1) s True Some assms(2) show ?thesis
      by (cases "ct_safe tt") (auto simp: conc_inv_def finish_tool_def)
  qed
qed

lemma conc_step_inv:
  assumes "conc_step e e'" "conc_inv m e"
  shows "conc_inv m e'"
  using assms
proof cases
  case (step_add i name)
  then show ?thesis using assms(2) by (auto simp: add_tool_def conc_inv_def Let_def)
next
  case (step_start tt rest)
  then show ?thesis using assms(2) start_inv by simp
next
  case (step_complete i res)
  then show ?thesis using assms(2) by (simp add: mark_completed_def finish_inv)
next
  case (step_fail i err)
  then show ?thesis using assms(2) by (simp add: mark_failed_def finish_inv)
next
  case (step_progress i p)
  then show ?thesis using assms(2) by (auto simp: add_progress_def conc_inv_def counts_modify)
next
  case step_yield
  then show ?thesis using assms(2) by (auto simp: yield_progress_def conc_inv_def counts_map)
next
  case step_results
  then show ?thesis using assms(2) by (auto simp: get_results_def conc_inv_def counts_results split_beta)
next
  case step_discard
  then show ?thesis using assms(2) by (auto simp: discard_def conc_inv_def counts_discard)
qed

text \<open>
  If a client starts tools one at a time, always the first that \<^verbatim>\<open>GetReady\<close> offers, then in every
  reachable state a tool that needs exclusive access executes alone, the counter equals the number
  of executing tools, and the concurrency limit holds.
\<close>

theorem conc_exclusive_access:
  assumes "conc_reachable safe m e"
  shows "(0 < exclusive_count (ce_tools e) \<longrightarrow> running_count (ce_tools e) = 1)
    \<and> ce_executing e = int (running_count (ce_tools e)) \<and> (0 < m \<longrightarrow> int (running_count (ce_tools e)) \<le> m)"
proof -
  from assms have "conc_inv m e"
  proof induction
    case (reach_new safe m)
    show ?case by (simp add: conc_inv_def new_conc_executor_def)
  next
    case (reach_step safe m e e')
    then show ?case using conc_step_inv by blast
  qed
  then show ?thesis by (auto simp: conc_inv_def)
qed

text \<open>One exclusive tool started in a fresh executor.\<close>

theorem conc_exclusive_access_witness:
  "ce_executing (snd (mark_executing ''1'' (snd (add_tool ''1'' ''write'' (new_conc_executor None 2))))) = 1"
proof -
  let ?e = "snd (add_tool ''1'' ''write'' (new_conc_executor None 2))"
  have "conc_reachable None 2 ?e" by (rule reach_step [OF reach_new step_add])
  moreover have "get_ready ?e = [\<lparr>ct_id = ''1'', ct_tool_name = ''write'', ct_status = ConcQueued, ct_safe = False,
      ct_result = None, ct_error = None, ct_progress = []\<rparr>]"
    by (simp add: add_tool_def get_ready_def new_conc_executor_def Let_def)
  ultimately have "conc_reachable None 2 (snd (mark_executing ''1'' ?e))"
    using reach_step [OF _ step_start] by fastforce
  from conc_exclusive_access [OF this] show ?thesis
    by (simp add: add_tool_def mark_executing_def new_conc_executor_def find_tool_def Let_def)
qed

text \<open>
  Started together, the tools \<^verbatim>\<open>GetReady\<close> offers break both rules: with a limit of one, a queued
  parallel-safe tool and an exclusive tool after it are offered in one batch, and marking both
  leaves two tools executing, one of which needs exclusive access.
\<close>

theorem conc_batch_breaks_exclusivity:
  "let e0 = new_conc_executor (Some (\<lambda>n. n = ''read'')) 1;
       e = snd (add_tool ''2'' ''write'' (snd (add_tool ''1'' ''read'' e0)));
       e' = snd (mark_executing ''2'' (snd (mark_executing ''1'' e)))
   in map ct_id (get_ready e) = [''1'', ''2''] \<and> ce_executing e' = 2
      \<and> exclusive_count (ce_tools e') = 1 \<and> running_count (ce_tools e') = 2"
  by (simp add: Let_def add_tool_def get_ready_def new_conc_executor_def mark_executing_def find_tool_def)

section \<open>Results in order\<close>

datatype conc_op =
  OpAdd string string | OpStart string | OpComplete string string | OpFail string string
| OpProgress string string | OpYieldProgress | OpResults | OpDiscard

text \<open>One operation of an arbitrary client: the identifiers of the results it returns and the new state.\<close>

fun apply_conc :: "conc_op \<Rightarrow> conc_executor \<Rightarrow> string list \<times> conc_executor" where
  "apply_conc (OpAdd i n) e = ([], snd (add_tool i n e))"
| "apply_conc (OpStart i) e = ([], snd (mark_executing i e))"
| "apply_conc (OpComplete i r) e = ([], snd (mark_completed i r e))"
| "apply_conc (OpFail i r) e = ([], snd (mark_failed i r e))"
| "apply_conc (OpProgress i p) e = ([], add_progress i p e)"
| "apply_conc OpYieldProgress e = ([], snd (yield_progress e))"
| "apply_conc OpResults e = (map ct_id (fst (get_results e)), snd (get_results e))"
| "apply_conc OpDiscard e = ([], discard e)"

fun run_conc :: "conc_op list \<Rightarrow> conc_executor \<Rightarrow> string list \<times> conc_executor" where
  "run_conc [] e = ([], e)"
| "run_conc (op # ops) e =
     (case apply_conc op e of (out, e1) \<Rightarrow> (case run_conc ops e1 of (out', e2) \<Rightarrow> (out @ out', e2)))"

definition finished :: "conc_tool \<Rightarrow> bool" where
  "finished t = (ct_status t \<notin> {ConcQueued, ConcExecuting})"

definition fifo_inv :: "string list \<Rightarrow> conc_tool list \<Rightarrow> bool" where
  "fifo_inv outs ts \<longleftrightarrow>
     (\<exists>pre post. ts = pre @ post \<and> map ct_id pre = outs
        \<and> (\<forall>t \<in> set pre. ct_status t = ConcYielded) \<and> (\<forall>t \<in> set post. ct_status t \<noteq> ConcYielded))"

lemma modify_pending:
  assumes "fifo_inv outs ts" and "find_tool i ts = Some tt" and "ct_status tt \<noteq> ConcYielded"
    and "\<And>t. ct_id (f t) = ct_id t \<and> ct_status (f t) \<noteq> ConcYielded"
  shows "fifo_inv outs (modify_tool i f ts)"
proof -
  obtain pre post where p: "ts = pre @ post" "map ct_id pre = outs"
    "\<forall>t \<in> set pre. ct_status t = ConcYielded" "\<forall>t \<in> set post. ct_status t \<noteq> ConcYielded"
    using assms(1) unfolding fifo_inv_def by blast
  obtain a b where s: "ts = a @ tt # b" "modify_tool i f ts = a @ f tt # b"
    using modify_split [OF assms(2)] by blast
  from p s(1) assms(3) obtain c where "a = pre @ c" "post = c @ tt # b"
    by (auto simp: append_eq_append_conv2 append_eq_Cons_conv Cons_eq_append_conv)
  with p s(2) assms(4) show ?thesis
    unfolding fifo_inv_def by (intro exI [of _ pre] exI [of _ "c @ f tt # b"]) auto
qed

lemma fifo_map:
  assumes "fifo_inv outs ts"
    and "\<And>t. ct_id (f t) = ct_id t \<and> (ct_status (f t) = ConcYielded \<longleftrightarrow> ct_status t = ConcYielded)"
  shows "fifo_inv outs (map f ts)"
proof -
  obtain pre post where p: "ts = pre @ post" "map ct_id pre = outs"
    "\<forall>t \<in> set pre. ct_status t = ConcYielded" "\<forall>t \<in> set post. ct_status t \<noteq> ConcYielded"
    using assms(1) unfolding fifo_inv_def by blast
  with assms(2) show ?thesis
    unfolding fifo_inv_def by (intro exI [of _ "map f pre"] exI [of _ "map f post"]) (auto simp: comp_def)
qed

lemma fifo_modify_same:
  assumes "fifo_inv outs ts"
    and "\<And>t. ct_id (f t) = ct_id t \<and> ct_status (f t) = ct_status t"
  shows "fifo_inv outs (modify_tool i f ts)"
proof -
  have ids: "map ct_id (modify_tool i f xs) = map ct_id xs" and sts: "map ct_status (modify_tool i f xs) = map ct_status xs" for xs
    using assms(2) by (induction xs) auto
  obtain pre post where p: "ts = pre @ post" "map ct_id pre = outs"
    "\<forall>t \<in> set pre. ct_status t = ConcYielded" "\<forall>t \<in> set post. ct_status t \<noteq> ConcYielded"
    using assms(1) unfolding fifo_inv_def by blast
  let ?n = "length pre" and ?m = "modify_tool i f ts"
  have "map ct_status (take ?n ?m) = map ct_status pre" "map ct_status (drop ?n ?m) = map ct_status post"
    "map ct_id (take ?n ?m) = map ct_id pre"
    using ids [of ts] sts [of ts] p(1) by (simp_all add: take_map [symmetric] drop_map [symmetric])
  then have "\<forall>t \<in> set (take ?n ?m). ct_status t = ConcYielded" "\<forall>t \<in> set (drop ?n ?m). ct_status t \<noteq> ConcYielded"
    using p(3,4) by (metis (no_types, lifting) image_iff set_map)+
  with p(2) \<open>map ct_id (take ?n ?m) = map ct_id pre\<close> show ?thesis
    unfolding fifo_inv_def by (intro exI [of _ "take ?n ?m"] exI [of _ "drop ?n ?m"]) simp
qed

lemma results_scan_yielded:
  "(\<forall>t \<in> set pre. ct_status t = ConcYielded) \<Longrightarrow>
     results_scan (pre @ post) = (fst (results_scan post), pre @ snd (results_scan post))"
  by (induction pre) (auto simp: split_beta)

lemma results_scan_pending:
  "(\<forall>t \<in> set post. ct_status t \<noteq> ConcYielded) \<Longrightarrow>
     results_scan post = (map (\<lambda>t. t\<lparr>ct_status := ConcYielded\<rparr>) (takeWhile finished post),
                          map (\<lambda>t. t\<lparr>ct_status := ConcYielded\<rparr>) (takeWhile finished post) @ dropWhile finished post)"
  by (induction post) (auto simp: finished_def split: conc_status.split)

lemma fifo_results:
  assumes "fifo_inv outs (ce_tools e)"
  shows "fifo_inv (outs @ map ct_id (fst (get_results e))) (ce_tools (snd (get_results e)))"
    and "outs @ map ct_id (fst (get_results e)) = map ct_id (takeWhile finished (ce_tools e))"
proof -
  obtain pre post where p: "ce_tools e = pre @ post" "map ct_id pre = outs"
    "\<forall>t \<in> set pre. ct_status t = ConcYielded" "\<forall>t \<in> set post. ct_status t \<noteq> ConcYielded"
    using assms unfolding fifo_inv_def by blast
  let ?y = "map (\<lambda>t. t\<lparr>ct_status := ConcYielded\<rparr>) (takeWhile finished post)"
  have r: "results_scan (ce_tools e) = (?y, pre @ ?y @ dropWhile finished post)"
    by (simp add: p(1) results_scan_yielded [OF p(3)] results_scan_pending [OF p(4)])
  show "fifo_inv (outs @ map ct_id (fst (get_results e))) (ce_tools (snd (get_results e)))"
    unfolding fifo_inv_def get_results_def r
    using p(2,3,4) by (intro exI [of _ "pre @ ?y"] exI [of _ "dropWhile finished post"]) (auto dest: set_dropWhileD)
  have "takeWhile finished (pre @ post) = pre @ takeWhile finished post"
    using p(3) by (intro takeWhile_append2) (simp add: finished_def)
  moreover have "fst (get_results e) = ?y" by (simp add: get_results_def r)
  ultimately show "outs @ map ct_id (fst (get_results e)) = map ct_id (takeWhile finished (ce_tools e))"
    by (simp add: p(1) p(2) [symmetric] comp_def)
qed

lemma finish_fifo:
  assumes "fifo_inv outs (ce_tools e)" and "\<And>t. ct_id (f t) = ct_id t \<and> ct_status (f t) \<noteq> ConcYielded"
  shows "fifo_inv outs (ce_tools (snd (finish_tool i f e)))"
  using assms modify_pending [OF assms(1) _ _ assms(2)]
  by (auto simp: finish_tool_def split: option.split)

lemma apply_conc_fifo:
  assumes "fifo_inv outs (ce_tools e)"
  shows "fifo_inv (outs @ fst (apply_conc op e)) (ce_tools (snd (apply_conc op e)))"
proof (cases op)
  case (OpAdd i n)
  obtain pre post where p: "ce_tools e = pre @ post" "map ct_id pre = outs"
    "\<forall>t \<in> set pre. ct_status t = ConcYielded" "\<forall>t \<in> set post. ct_status t \<noteq> ConcYielded"
    using assms unfolding fifo_inv_def by blast
  then have "fifo_inv outs (ce_tools e @ [tt])" if "ct_status tt = ConcQueued" for tt
    unfolding fifo_inv_def using that by (intro exI [of _ pre] exI [of _ "post @ [tt]"]) auto
  with assms show ?thesis by (simp add: OpAdd add_tool_def Let_def)
next
  case (OpStart i)
  show ?thesis
    using assms modify_pending [OF assms, of i _ "\<lambda>t. t\<lparr>ct_status := ConcExecuting\<rparr>"]
    by (auto simp: OpStart mark_executing_def split: option.split)
next
  case (OpComplete i r)
  then show ?thesis using assms by (simp add: mark_completed_def finish_fifo)
next
  case (OpFail i r)
  then show ?thesis using assms by (simp add: mark_failed_def finish_fifo)
next
  case (OpProgress i p)
  then show ?thesis using assms by (simp add: add_progress_def fifo_modify_same)
next
  case OpYieldProgress
  then show ?thesis using assms by (simp add: yield_progress_def fifo_map)
next
  case OpResults
  then show ?thesis using fifo_results(1) [OF assms] by simp
next
  case OpDiscard
  have "ct_id (discard_tool t) = ct_id t \<and> (ct_status (discard_tool t) = ConcYielded \<longleftrightarrow> ct_status t = ConcYielded)" for t
    by (simp add: discard_tool_def)
  then show ?thesis using assms by (simp add: OpDiscard discard_def fifo_map)
qed

lemma run_conc_fifo:
  "fifo_inv outs (ce_tools e) \<Longrightarrow> fifo_inv (outs @ fst (run_conc ops e)) (ce_tools (snd (run_conc ops e)))"
proof (induction ops arbitrary: outs e)
  case Nil
  then show ?case by simp
next
  case (Cons op ops)
  from Cons.IH [OF apply_conc_fifo [OF Cons.prems, of op]] show ?case by (simp add: split_beta)
qed

lemma run_conc_snoc:
  "run_conc (ops @ [op]) e =
     (fst (run_conc ops e) @ fst (apply_conc op (snd (run_conc ops e))), snd (apply_conc op (snd (run_conc ops e))))"
  by (induction ops arbitrary: e) (auto simp: split_beta)

text \<open>
  Whatever the order in which tools finish, fail or are discarded, the results a client has received
  after a call of \<^verbatim>\<open>GetResults\<close> are, over its whole run, exactly the tools added before the first one
  still queued or executing, each once and in the order they were added.
\<close>

theorem conc_results_fifo:
  "fst (run_conc (ops @ [OpResults]) (new_conc_executor safe m))
     = map ct_id (takeWhile finished (ce_tools (snd (run_conc ops (new_conc_executor safe m)))))"
proof -
  have "fifo_inv [] (ce_tools (new_conc_executor safe m))"
    by (simp add: fifo_inv_def new_conc_executor_def)
  from fifo_results(2) [OF run_conc_fifo [OF this, of ops]] show ?thesis
    by (simp add: run_conc_snoc)
qed

end
