(* ===== verification/Utf8.thy ===== *)
theory Utf8
  imports GoStrings
begin

text \<open>
  UTF-8 as Go's \<^verbatim>\<open>unicode/utf8\<close> reads it, \<^verbatim>\<open>strings.ToValidUTF8\<close>, and the quoting of the verb \<^verbatim>\<open>%q\<close>
  (\<^verbatim>\<open>strconv.Quote\<close>), which the texts of \<^verbatim>\<open>runner.go\<close> use.
\<close>

section \<open>UTF-8\<close>

definition byte :: "char \<Rightarrow> nat" where
  "byte c = of_char c"

definition continuation :: "char \<Rightarrow> bool" where
  "continuation c \<longleftrightarrow> 128 \<le> byte c \<and> byte c < 192"

text \<open>The length of the character at the start, as \<^verbatim>\<open>DecodeRuneInString\<close> has it; None if there is no valid one.\<close>

definition second_ok :: "nat \<Rightarrow> char \<Rightarrow> bool" where
  "second_ok b c \<longleftrightarrow> continuation c
     \<and> (b = 224 \<longrightarrow> 160 \<le> byte c) \<and> (b = 237 \<longrightarrow> byte c < 160) \<and> (b = 240 \<longrightarrow> 144 \<le> byte c) \<and> (b = 244 \<longrightarrow> byte c < 144)"

definition lead_len :: "char \<Rightarrow> nat" where
  "lead_len c =
     (if byte c < 128 then 1 else if 194 \<le> byte c \<and> byte c < 224 then 2
      else if 224 \<le> byte c \<and> byte c < 240 then 3 else if 240 \<le> byte c \<and> byte c < 245 then 4 else 0)"

definition rune_len :: "string \<Rightarrow> nat option" where
  "rune_len s =
     (case s of
        [] \<Rightarrow> None
      | c # r \<Rightarrow>
          (let n = lead_len c
           in if n = 1 then Some 1
              else if n = 0 \<or> length r < n - 1 then None
              else if second_ok (byte c) (r ! 0) \<and> list_all continuation (take (n - 2) (tl r)) then Some n
              else None))"

lemma rune_len_bounds: "rune_len s = Some n \<Longrightarrow> 0 < n \<and> n \<le> length s"
  by (auto simp: rune_len_def Let_def Suc_le_eq split: list.splits if_splits)

text \<open>\<^verbatim>\<open>strings.ToValidUTF8\<close> with the empty replacement.\<close>

function to_valid_utf8 :: "string \<Rightarrow> string" where
  "to_valid_utf8 s =
     (if s = [] then []
      else case rune_len s of
        None \<Rightarrow> to_valid_utf8 (tl s)
      | Some n \<Rightarrow> take n s @ to_valid_utf8 (drop n s))"
  by pat_completeness auto
termination
  by (relation "measure length") (auto dest: rune_len_bounds)

declare to_valid_utf8.simps [simp del]

definition valid_utf8 :: "string \<Rightarrow> bool" where
  "valid_utf8 s \<longleftrightarrow> to_valid_utf8 s = s"

text \<open>The number of characters of a text in valid UTF-8.\<close>

definition char_count :: "string \<Rightarrow> nat" where
  "char_count s = length (filter (\<lambda>c. \<not> continuation c) s)"

section \<open>Quoting\<close>

text \<open>
  One ASCII character between quotes: the quote and the backslash with a backslash, the named control characters, the others
  as two hexadecimal digits.
\<close>

definition hex_digit :: "nat \<Rightarrow> char" where
  "hex_digit n = ''0123456789abcdef'' ! (n mod 16)"

definition hex_byte :: "char \<Rightarrow> string" where
  "hex_byte c = [hex_digit (byte c div 16), hex_digit (byte c)]"

definition quote_ascii :: "char \<Rightarrow> string" where
  "quote_ascii c =
     (if c = CHR 0x22 \<or> c = CHR 0x5C then [CHR 0x5C, c]
      else if 32 \<le> byte c \<and> byte c < 127 then [c]
      else case map_of (zip [7, 8, 9, 10, 11, 12, 13] ''abtnvfr'') (byte c) of
             Some x \<Rightarrow> [CHR 0x5C, x]
           | None \<Rightarrow> CHR 0x5C # CHR ''x'' # hex_byte c)"

text \<open>
  A character of several bytes is written as it is if it is printable. Of those that are not, the ones below U+00FF
  are escaped here (U+0080 to U+00A0 and U+00AD); the rest of the Unicode tables of Go is not modelled. A byte that starts
  no character is written in hexadecimal.
\<close>

definition quote_wide :: "string \<Rightarrow> string" where
  "quote_wide r =
     (if r ! 0 = CHR 0xC2 \<and> (byte (r ! 1) \<le> 160 \<or> byte (r ! 1) = 173)
      then CHR 0x5C # ''u00'' @ hex_byte (r ! 1) else r)"

function quote_body :: "string \<Rightarrow> string" where
  "quote_body s =
     (if s = [] then []
      else case rune_len s of
        None \<Rightarrow> CHR 0x5C # CHR ''x'' # hex_byte (hd s) @ quote_body (tl s)
      | Some n \<Rightarrow> (if n = 1 then quote_ascii (hd s) else quote_wide (take n s)) @ quote_body (drop n s))"
  by pat_completeness auto
termination
  by (relation "measure length") (auto dest: rune_len_bounds)

declare quote_body.simps [simp del]

definition go_quote :: "string \<Rightarrow> string" where
  "go_quote s = CHR 0x22 # quote_body s @ [CHR 0x22]"

text \<open>A plain name is only put between quotes; a quote inside is escaped.\<close>

lemma quote_plain:
  "list_all (\<lambda>c. 32 \<le> byte c \<and> byte c < 127 \<and> c \<noteq> CHR 0x22 \<and> c \<noteq> CHR 0x5C) s \<Longrightarrow> go_quote s = CHR 0x22 # s @ [CHR 0x22]"
proof -
  have "list_all (\<lambda>c. 32 \<le> byte c \<and> byte c < 127 \<and> c \<noteq> CHR 0x22 \<and> c \<noteq> CHR 0x5C) s \<Longrightarrow> quote_body s = s"
    by (induction s) (auto simp: quote_body.simps [of "[]"] quote_body.simps [of "_ # _"] rune_len_def lead_len_def quote_ascii_def)
  then show "list_all (\<lambda>c. 32 \<le> byte c \<and> byte c < 127 \<and> c \<noteq> CHR 0x22 \<and> c \<noteq> CHR 0x5C) s \<Longrightarrow> ?thesis"
    by (simp add: go_quote_def)
qed

lemma quote_examples:
  "go_quote ''weather'' = CHR 0x22 # ''weather'' @ [CHR 0x22]"
  "go_quote [CHR ''a'', CHR 0x22, CHR 0x0A, CHR 0x01, CHR 0xFF]
     = CHR 0x22 # CHR ''a'' # CHR 0x5C # CHR 0x22 # CHR 0x5C # CHR ''n'' # CHR 0x5C # ''x01'' @ CHR 0x5C # ''xff'' @ [CHR 0x22]"
  "go_quote [CHR 0xC3, CHR 0xA9] = [CHR 0x22, CHR 0xC3, CHR 0xA9, CHR 0x22]"
  by code_simp+

end
