(* ===== verification/RunState.thy ===== *)
theory RunState
  imports Utf8
begin

text \<open>
  Per-run state and pure helpers of \<^verbatim>\<open>src/internal/domain/chat/agentic/runner.go\<close>: the limit on
  calls of one tool, the test for read-only operations (\<^verbatim>\<open>readonlyop.go\<close>), the memory key
  (\<^verbatim>\<open>memory.go\<close>), and the formatting and truncation of tool results.
\<close>

section \<open>Tool calls and their results\<close>

record tool_call =
  tc_id :: string
  tc_name :: string
  tc_args :: string

text \<open>
  \<^verbatim>\<open>LatencyMs\<close> is a measurement no decision of the modelled code reads; it is left out. Costs are whole
  numbers of some small unit.
\<close>

record tool_exec_result =
  er_output :: string
  er_error :: "string option"
  er_tool_name :: string
  er_emitted :: bool
  er_inject :: string
  er_subtask_tokens :: int
  er_subtask_cost :: int

definition zero_result :: tool_exec_result where
  "zero_result = \<lparr>er_output = '''', er_error = None, er_tool_name = '''', er_emitted = False, er_inject = '''',
     er_subtask_tokens = 0, er_subtask_cost = 0\<rparr>"

definition error_result :: "string \<Rightarrow> string \<Rightarrow> tool_exec_result" where
  "error_result name msg = zero_result\<lparr>er_error := Some msg, er_tool_name := name\<rparr>"

definition output_result :: "string \<Rightarrow> string \<Rightarrow> tool_exec_result" where
  "output_result name out = zero_result\<lparr>er_output := out, er_tool_name := name\<rparr>"

section \<open>The retry limit\<close>

definition max_tool_retries :: nat where
  "max_tool_retries = 3"

definition retry_exempt :: "string \<Rightarrow> bool" where
  "retry_exempt name = (name = ''memory_store'' \<or> name = ''memory_store_bulk'')"

text \<open>The message: None when the call may go on, with the counter bumped.\<close>

definition check_and_increment_retry :: "string \<Rightarrow> (string \<Rightarrow> nat) \<Rightarrow> string option \<times> (string \<Rightarrow> nat)" where
  "check_and_increment_retry name retries =
     (if max_tool_retries \<le> retries name
      then (Some (''tool '' @ go_quote name @ '' reached the maximum call limit (''
                  @ itoa (int max_tool_retries) @ '' per run) '' @ [CHR 0xE2, CHR 0x80, CHR 0x94]
                  @ '' please proceed without it''), retries)
      else (None, retries(name := retries name + 1)))"

section \<open>Read-only operations\<close>

definition read_only_operation_verbs :: "string list" where
  "read_only_operation_verbs =
     [''list'', ''get'', ''read'', ''show'', ''describe'', ''view'', ''find'', ''search'', ''query'',
      ''count'', ''fetch'', ''stat'', ''stats'', ''inspect'', ''exists'', ''check'']"

text \<open>
  \<open>parse_object\<close> decodes a JSON object into its raw members and \<open>parse_string\<close> a raw member into a
  string (\<^verbatim>\<open>encoding/json\<close>); None is a decoding error.
\<close>

definition operation_is_read_only :: "(string \<Rightarrow> string option) \<Rightarrow> (string \<times> string) list \<Rightarrow> string \<Rightarrow> bool" where
  "operation_is_read_only parse_string members key =
     (case map_of members key of
        None \<Rightarrow> False
      | Some raw \<Rightarrow>
          (case parse_string raw of
             None \<Rightarrow> False
           | Some v \<Rightarrow> to_lower (trim_space v) \<in> set read_only_operation_verbs))"

definition is_read_only_operation ::
  "(string \<Rightarrow> (string \<times> string) list option) \<Rightarrow> (string \<Rightarrow> string option) \<Rightarrow> string \<Rightarrow> bool" where
  "is_read_only_operation parse_object parse_string args =
     (let s = trim_space args
      in if s = [] \<or> hd s \<noteq> CHR ''{'' \<and> hd s \<noteq> CHR ''['' then False
         else case parse_object s of
                None \<Rightarrow> False
              | Some members \<Rightarrow>
                  list_ex (operation_is_read_only parse_string members)
                    [''operation'', ''action'', ''op'', ''verb'', ''method''])"

section \<open>Memory keys\<close>

definition key_char :: "char \<Rightarrow> bool" where
  "key_char c = (char_between CHR ''a'' c CHR ''z'' \<or> char_between CHR ''0'' c CHR ''9'')"

fun hyphenate :: "bool \<Rightarrow> string \<Rightarrow> string" where
  "hyphenate prev [] = []"
| "hyphenate prev (c # cs) =
     (if key_char c then c # hyphenate False cs
      else if \<not> prev then CHR ''-'' # hyphenate True cs
      else hyphenate prev cs)"

definition trim_right_hyphens :: "string \<Rightarrow> string" where
  "trim_right_hyphens s = rev (dropWhile (\<lambda>c. c = CHR ''-'') (rev s))"

definition normalize_key :: "string \<Rightarrow> string" where
  "normalize_key k =
     (if k = [] then ''general''
      else let r = trim_right_hyphens (hyphenate True (to_lower k));
               r1 = (if r = [] then ''general'' else r)
           in if 100 < length r1 then take 100 r1 else r1)"

lemma hyphenate_chars: "c \<in> set (hyphenate prev s) \<Longrightarrow> key_char c \<or> c = CHR ''-''"
  by (induction prev s rule: hyphenate.induct) (auto split: if_splits)

lemma hyphenate_head: "hyphenate True s \<noteq> [] \<Longrightarrow> key_char (hd (hyphenate True s))"
  by (induction s) (auto split: if_splits)

fun double_hyphen :: "string \<Rightarrow> bool" where
  "double_hyphen (a # b # s) = (a = CHR ''-'' \<and> b = CHR ''-'' \<or> double_hyphen (b # s))"
| "double_hyphen _ = False"

lemma hyphenate_runs:
  "\<not> double_hyphen (hyphenate prev s) \<and> (prev \<longrightarrow> \<not> has_prefix (hyphenate prev s) ''-'')"
proof (induction s arbitrary: prev)
  case Nil
  show ?case by simp
next
  case (Cons c s)
  have not_hyphen: "\<not> key_char CHR ''-''" by code_simp
  show ?case
    using Cons.IH [of False] Cons.IH [of True] not_hyphen
    by (cases "hyphenate False s"; cases "hyphenate True s") (auto split: if_splits)
qed

lemma double_hyphen_append: "double_hyphen xs \<Longrightarrow> double_hyphen (xs @ ys)"
  by (induction xs rule: double_hyphen.induct) (auto simp: neq_Nil_conv)

lemma trim_right_hyphens_prefix: "\<exists>z. s = trim_right_hyphens s @ z"
proof -
  have "s = rev (dropWhile (\<lambda>c. c = CHR ''-'') (rev s)) @ rev (takeWhile (\<lambda>c. c = CHR ''-'') (rev s))"
    by (metis rev_append rev_rev_ident takeWhile_dropWhile_id)
  then show ?thesis unfolding trim_right_hyphens_def by blast
qed

lemma key_char_general: "list_all key_char ''general''"
  by code_simp

text \<open>
  A memory key is never empty, has at most 100 characters, is made of lower-case letters, digits
  and single hyphens, and starts with a letter or digit, whatever the content.
\<close>

theorem normalize_key_shape:
  "normalize_key k \<noteq> [] \<and> length (normalize_key k) \<le> 100
   \<and> list_all (\<lambda>c. key_char c \<or> c = CHR ''-'') (normalize_key k)
   \<and> key_char (hd (normalize_key k)) \<and> \<not> double_hyphen (normalize_key k)"
proof -
  let ?h = "hyphenate True (to_lower k)"
  let ?r = "trim_right_hyphens ?h"
  obtain z where z: "?h = ?r @ z" using trim_right_hyphens_prefix by blast
  have cut: "normalize_key k = ''general'' \<or> ?r \<noteq> [] \<and> normalize_key k = take 100 ?r"
    by (auto simp: normalize_key_def Let_def)
  have "list_all (\<lambda>c. key_char c \<or> c = CHR ''-'') (take 100 ?r)"
    using z hyphenate_chars [of _ True "to_lower k"] unfolding list_all_iff
    by (metis Un_iff in_set_takeD set_append)
  moreover have "key_char (hd (take 100 ?r))" if "?r \<noteq> []"
    using that z hyphenate_head [of "to_lower k"] by (metis append_is_Nil_conv hd_append2 hd_take zero_less_numeral)
  moreover have "\<not> double_hyphen (take 100 ?r)"
    using hyphenate_runs [of True "to_lower k"] double_hyphen_append z by (metis append_take_drop_id append_assoc)
  moreover have "list_all (\<lambda>c. key_char c \<or> c = CHR ''-'') ''general''" "key_char (hd ''general'')"
    "\<not> double_hyphen ''general''" by code_simp+
  ultimately show ?thesis using cut by auto
qed

section \<open>Result limits and formatting\<close>

definition resolve_tool_result_limit :: "string \<Rightarrow> (string \<times> int) list \<Rightarrow> int \<Rightarrow> int" where
  "resolve_tool_result_limit name limits global =
     (case map_of limits name of None \<Rightarrow> global | Some l \<Rightarrow> if 0 < l then l else global)"

text \<open>The dash of the note is one character in the source (three bytes); here it is kept as three bytes.\<close>

definition truncation_note :: "int \<Rightarrow> nat \<Rightarrow> string" where
  "truncation_note max_chars n =
     CHR 0x0A # ''[TRUNCATED: showing first '' @ itoa max_chars @ '' of '' @ itoa (int n)
     @ '' chars '' @ [CHR 0xE2, CHR 0x80, CHR 0x94] @ '' full result available on request]''"

definition truncate_tool_result :: "tool_exec_result \<Rightarrow> int \<Rightarrow> tool_exec_result" where
  "truncate_tool_result r max_chars =
     (if max_chars \<le> 0 \<or> int (length (er_output r)) \<le> max_chars then r
      else let note = truncation_note max_chars (length (er_output r));
               shown = max_chars - int (length note)
           in r\<lparr>er_output := take (nat (if shown < 0 then 0 else shown)) (er_output r) @ note\<rparr>)"

text \<open>\<open>strip\<close> stands for the removal of status codes from HTTP outputs (\<^verbatim>\<open>stripStatusCodeFromToolOutput\<close>).\<close>

definition format_tool_result :: "(string \<Rightarrow> string) \<Rightarrow> tool_exec_result \<Rightarrow> string" where
  "format_tool_result strip r =
     (case er_error r of
        Some e \<Rightarrow>
          ''Error: '' @ e @ [CHR 0x0A, CHR 0x0A]
          @ ''[SYSTEM] If this failure is server-side (configuration, network, or internal error), ''
          @ ''do NOT call ask_user and do NOT output JSON tool call formats in your text response ''
          @ [CHR 0xE2, CHR 0x80, CHR 0x94]
          @ '' respond directly to the user in plain natural language about what went wrong.''
      | None \<Rightarrow>
          let s = strip (er_output r)
          in if er_output r \<noteq> [] \<and> trim_space s \<noteq> [] \<and> s \<noteq> ''{}'' \<and> s \<noteq> ''null'' then s
             else if er_tool_name r \<noteq> [] then ''('' @ er_tool_name r @ '' completed with no output)''
             else ''(tool completed with no output)'')"

text \<open>
  A truncated result has exactly the limit or, when the limit is smaller than the note, exactly
  the length of the note (so it can exceed the limit, and even the original); an output within
  the limit, or a limit that is not positive, leaves the result alone.
\<close>

theorem truncate_tool_result_length:
  "length (er_output (truncate_tool_result r m)) =
     (if m \<le> 0 \<or> int (length (er_output r)) \<le> m then length (er_output r)
      else max (nat m) (length (truncation_note m (length (er_output r)))))
   \<and> er_error (truncate_tool_result r m) = er_error r"
proof -
  have "min (length (er_output r)) (nat (m - int (length n))) + length n = nat m"
    if "int (length n) \<le> m" "m < int (length (er_output r))" for n :: string
    using that by linarith
  then show ?thesis
    by (auto simp: truncate_tool_result_def Let_def max_def not_le)
qed

text \<open>
  The model never receives an empty tool result: the formatted text of any result has at least one
  character that is not white space.
\<close>

theorem format_tool_result_visible: "trim_space (format_tool_result strip r) \<noteq> []"
proof -
  have vis: "\<not> is_space CHR ''E''" "\<not> is_space CHR ''(''" by code_simp+
  show ?thesis
  proof (cases "er_error r")
    case (Some e)
    then have "CHR ''E'' \<in> set (format_tool_result strip r)"
      by (simp add: format_tool_result_def)
    with vis show ?thesis unfolding trim_space_Nil_iff by blast
  next
    case None
    then have "trim_space (format_tool_result strip r) \<noteq> [] \<or> CHR ''('' \<in> set (format_tool_result strip r)"
      by (simp add: format_tool_result_def Let_def)
    with vis show ?thesis unfolding trim_space_Nil_iff by blast
  qed
qed

end
