(* ===== verification/ConsumeStream.thy ===== *)
theory ConsumeStream
  imports RunState
begin

text \<open>
  Reading the stream of a model's answer: \<^verbatim>\<open>consumeStream\<close> of
  \<^verbatim>\<open>src/internal/domain/chat/agentic/runner.go\<close>. The stream is the list of what the loop receives: a
  chunk, or the end of the per-call context while it waits; the end of the list is the closed channel. The recognizer
  of tool calls written as text is an argument: None means that the text is not such a payload. The time of the first
  output is not modelled, and of a tool call neither is the type, which is copied unread.
\<close>

section \<open>Chunks\<close>

record token_usage =
  tu_prompt :: int
  tu_completion :: int
  tu_cache_read :: int
  tu_cache_creation :: int
  tu_total :: int

definition zero_usage :: token_usage where
  "zero_usage = \<lparr>tu_prompt = 0, tu_completion = 0, tu_cache_read = 0, tu_cache_creation = 0, tu_total = 0\<rparr>"

record stream_chunk =
  ck_error :: "string option"
  ck_usage :: "token_usage option"
  ck_thinking :: string
  ck_delta :: string
  ck_call :: "tool_call option"
  ck_response_id :: string
  ck_finish :: string

datatype stream_item = Chunk stream_chunk | CallTimedOut string

datatype stream_event = ThinkingDelta string | TextDelta string

record stream_state =
  ss_content :: string
  ss_calls :: "tool_call list"
  ss_last :: "string option"
  ss_finish :: string
  ss_usage :: token_usage
  ss_response_id :: string
  ss_events :: "stream_event list"

definition new_stream :: stream_state where
  "new_stream = \<lparr>ss_content = [], ss_calls = [], ss_last = None, ss_finish = [], ss_usage = zero_usage,
     ss_response_id = [], ss_events = []\<rparr>"

definition later :: "int \<Rightarrow> int \<Rightarrow> int" where
  "later new old = (if 0 < new then new else old)"

definition add_usage :: "token_usage option \<Rightarrow> token_usage \<Rightarrow> token_usage" where
  "add_usage c u =
     (case c of
        None \<Rightarrow> u
      | Some v \<Rightarrow>
          (let p = later (tu_prompt v) (tu_prompt u); q = later (tu_completion v) (tu_completion u)
           in \<lparr>tu_prompt = p, tu_completion = q, tu_cache_read = later (tu_cache_read v) (tu_cache_read u),
               tu_cache_creation = later (tu_cache_creation v) (tu_cache_creation u), tu_total = p + q\<rparr>))"

section \<open>Tool calls built from deltas\<close>

definition extend_call :: "tool_call \<Rightarrow> tool_call \<Rightarrow> tool_call" where
  "extend_call d c = c\<lparr>tc_name := (if tc_name c = [] then tc_name d else tc_name c), tc_args := tc_args c @ tc_args d\<rparr>"

definition extend_at :: "string \<Rightarrow> tool_call \<Rightarrow> tool_call list \<Rightarrow> tool_call list" where
  "extend_at i d cs = map (\<lambda>c. if tc_id c = i then extend_call d c else c) cs"

text \<open>The calls in the order in which their identifiers were first seen, and the one the last delta went to.\<close>

definition merge_delta :: "tool_call list \<times> string option \<Rightarrow> tool_call \<Rightarrow> tool_call list \<times> string option" where
  "merge_delta s d =
     (case s of (cs, recent) \<Rightarrow>
        if tc_id d \<noteq> []
        then (if list_ex (\<lambda>c. tc_id c = tc_id d) cs then extend_at (tc_id d) d cs else cs @ [d], Some (tc_id d))
        else (case recent of None \<Rightarrow> (cs, None) | Some i \<Rightarrow> (extend_at i d cs, Some i)))"

section \<open>The loop\<close>

text \<open>\<^verbatim>\<open>strings.Count\<close>: occurrences that do not overlap, from the left.\<close>

function occurrences :: "string \<Rightarrow> string \<Rightarrow> nat" where
  "occurrences pat [] = 0"
| "occurrences pat (c # cs) =
     (if has_prefix (c # cs) pat then Suc (occurrences pat (drop (length pat - 1) cs)) else occurrences pat cs)"
  by pat_completeness auto
termination by (relation "measure (\<lambda>(pat, s). length s)") auto

definition runaway :: "string \<Rightarrow> bool" where
  "runaway content =
     (50000 < length content \<and> 5 < occurrences ([CHR 0x22] @ ''arguments'' @ [CHR 0x22] @ '':{'') content)"

definition runaway_error :: string where
  "runaway_error =
     ''runaway recursive output detected (>50KB with nested JSON pattern) '' @ [CHR 0xE2, CHR 0x80, CHR 0x94]
     @ '' model may be generating malformed tool calls as text''"

definition replace_by :: "string \<Rightarrow> string \<Rightarrow> string" where
  "replace_by new old = (if new \<noteq> [] then new else old)"

text \<open>The chunk up to its text, then the rest of it.\<close>

definition read_text :: "bool \<Rightarrow> stream_chunk \<Rightarrow> stream_state \<Rightarrow> stream_state" where
  "read_text emit_text c s =
     s\<lparr>ss_usage := add_usage (ck_usage c) (ss_usage s),
       ss_content := ss_content s @ ck_delta c,
       ss_events := ss_events s @ (if ck_thinking c \<noteq> [] then [ThinkingDelta (ck_thinking c)] else [])
                      @ (if ck_delta c \<noteq> [] \<and> emit_text then [TextDelta (ck_delta c)] else [])\<rparr>"

definition read_rest :: "stream_chunk \<Rightarrow> stream_state \<Rightarrow> stream_state" where
  "read_rest c s =
     (let (cs, recent) = (case ck_call c of None \<Rightarrow> (ss_calls s, ss_last s)
                        | Some d \<Rightarrow> merge_delta (ss_calls s, ss_last s) d)
      in s\<lparr>ss_calls := cs, ss_last := recent, ss_response_id := replace_by (ck_response_id c) (ss_response_id s),
           ss_finish := replace_by (ck_finish c) (ss_finish s)\<rparr>)"

fun consume_items :: "bool \<Rightarrow> stream_item list \<Rightarrow> stream_state \<Rightarrow> string option \<times> stream_state" where
  "consume_items emit_text [] s = (None, s)"
| "consume_items emit_text (CallTimedOut e # items) s = (Some e, s)"
| "consume_items emit_text (Chunk c # items) s =
     (case ck_error c of
        Some e \<Rightarrow> (Some e, s)
      | None \<Rightarrow>
          (let s1 = read_text emit_text c s
           in if ck_delta c \<noteq> [] \<and> runaway (ss_content s1) then (Some runaway_error, s1)
              else consume_items emit_text items (read_rest c s1)))"

record stream_result =
  sr_content :: string
  sr_calls :: "tool_call list"
  sr_finish :: string
  sr_usage :: token_usage
  sr_response_id :: string

definition finish_stream :: "(string \<Rightarrow> tool_call list option) \<Rightarrow> stream_state \<Rightarrow> stream_result" where
  "finish_stream parse_text s =
     (let parsed = (if ss_calls s = [] \<and> ss_content s \<noteq> [] then parse_text (ss_content s) else None);
          calls = (case parsed of Some cs \<Rightarrow> cs | None \<Rightarrow> ss_calls s);
          content = (case parsed of Some _ \<Rightarrow> [] | None \<Rightarrow> ss_content s);
          finish0 = (case parsed of Some _ \<Rightarrow> ''tool_calls'' | None \<Rightarrow> ss_finish s);
          finish1 = (if calls \<noteq> [] \<and> finish0 = [] then ''tool_calls'' else finish0)
      in \<lparr>sr_content = content, sr_calls = calls, sr_finish = (if finish1 = [] then ''stop'' else finish1),
          sr_usage = ss_usage s, sr_response_id = ss_response_id s\<rparr>)"

definition consume_stream ::
  "(string \<Rightarrow> tool_call list option) \<Rightarrow> bool \<Rightarrow> stream_item list \<Rightarrow> (string + stream_result) \<times> stream_event list" where
  "consume_stream parse_text emit_text items =
     (case consume_items emit_text items new_stream of
        (Some e, s) \<Rightarrow> (Inl e, ss_events s)
      | (None, s) \<Rightarrow> (Inr (finish_stream parse_text s), ss_events s))"

section \<open>Which delta belongs to which call\<close>

text \<open>A delta with an identifier belongs to its call, one without to the call of the delta before it.\<close>

fun attributed :: "string option \<Rightarrow> tool_call list \<Rightarrow> (string \<times> tool_call) list" where
  "attributed recent [] = []"
| "attributed recent (d # ds) =
     (case (if tc_id d \<noteq> [] then Some (tc_id d) else recent) of
        None \<Rightarrow> attributed None ds
      | Some i \<Rightarrow> (i, d) # attributed (Some i) ds)"

fun last_owner :: "string option \<Rightarrow> tool_call list \<Rightarrow> string option" where
  "last_owner recent [] = recent"
| "last_owner recent (d # ds) = last_owner (if tc_id d \<noteq> [] then Some (tc_id d) else recent) ds"

definition first_seen :: "'a list \<Rightarrow> 'a list" where
  "first_seen xs = rev (remdups (rev xs))"

definition deltas_of :: "string \<Rightarrow> (string \<times> tool_call) list \<Rightarrow> tool_call list" where
  "deltas_of i ps = map snd (filter (\<lambda>p. fst p = i) ps)"

definition first_name :: "tool_call list \<Rightarrow> string" where
  "first_name ds = (case find (\<lambda>n. n \<noteq> []) (map tc_name ds) of Some n \<Rightarrow> n | None \<Rightarrow> [])"

definition assembled :: "(string \<times> tool_call) list \<Rightarrow> tool_call list" where
  "assembled ps =
     map (\<lambda>i. \<lparr>tc_id = i, tc_name = first_name (deltas_of i ps), tc_args = concat (map tc_args (deltas_of i ps))\<rparr>)
       (first_seen (map fst ps))"

lemma attributed_snoc:
  "attributed recent (ds @ [d]) = attributed recent ds @
     (case (if tc_id d \<noteq> [] then Some (tc_id d) else last_owner recent ds) of None \<Rightarrow> [] | Some i \<Rightarrow> [(i, d)])"
  by (induction ds arbitrary: recent) (auto split: option.splits)

lemma last_owner_snoc:
  "last_owner recent (ds @ [d]) = (if tc_id d \<noteq> [] then Some (tc_id d) else last_owner recent ds)"
  by (induction ds arbitrary: recent) auto

lemma last_owner_seen: "last_owner None ds = Some i \<Longrightarrow> i \<in> fst ` set (attributed None ds)"
proof (induction ds rule: rev_induct)
  case (snoc d ds)
  then show ?case by (auto simp: attributed_snoc last_owner_snoc split: if_splits option.splits)
qed simp

lemma set_first_seen [simp]: "set (first_seen xs) = set xs"
  by (simp add: first_seen_def)

lemma distinct_first_seen [simp]: "distinct (first_seen xs)"
  by (simp add: first_seen_def)

lemma first_seen_snoc: "first_seen (xs @ [x]) = (if x \<in> set xs then first_seen xs else first_seen xs @ [x])"
  by (simp add: first_seen_def)

lemma deltas_of_snoc: "deltas_of i (ps @ [(j, d)]) = (if i = j then deltas_of i ps @ [d] else deltas_of i ps)"
  by (simp add: deltas_of_def)

lemma first_name_snoc: "first_name (ds @ [d]) = (if first_name ds = [] then tc_name d else first_name ds)"
  by (induction ds) (auto simp: first_name_def)

lemma deltas_of_fresh: "i \<notin> fst ` set ps \<Longrightarrow> deltas_of i ps = []"
  by (induction ps) (auto simp: deltas_of_def)

lemma assembled_extend:
  "i \<in> fst ` set ps \<Longrightarrow> assembled (ps @ [(i, d)]) = extend_at i d (assembled ps)"
  by (auto simp: assembled_def extend_at_def extend_call_def first_seen_snoc deltas_of_snoc first_name_snoc)

lemma assembled_new:
  assumes "tc_id d \<notin> fst ` set ps"
  shows "assembled (ps @ [(tc_id d, d)]) = assembled ps @ [d]"
proof -
  have "first_name [d] = tc_name d" by (simp add: first_name_def)
  moreover have "i \<noteq> tc_id d" if "(i, x) \<in> set ps" for i x
    using that assms by force
  ultimately show ?thesis
    using assms by (auto simp: assembled_def first_seen_snoc deltas_of_snoc deltas_of_fresh)
qed

lemma assembled_ids: "list_ex (\<lambda>c. tc_id c = i) (assembled ps) \<longleftrightarrow> i \<in> fst ` set ps"
  by (auto simp: assembled_def list_ex_iff)

lemma merge_deltas:
  "foldl merge_delta ([], None) ds = (assembled (attributed None ds), last_owner None ds)"
proof (induction ds rule: rev_induct)
  case Nil
  then show ?case by (simp add: assembled_def first_seen_def)
next
  case (snoc d ds)
  then show ?case
    using last_owner_seen [of ds]
    by (auto simp: merge_delta_def attributed_snoc last_owner_snoc assembled_ids assembled_extend assembled_new
        split: option.splits)
qed

section \<open>The result of a stream\<close>

definition chunk_deltas :: "stream_chunk list \<Rightarrow> tool_call list" where
  "chunk_deltas cs = List.map_filter ck_call cs"

definition last_set :: "string list \<Rightarrow> string" where
  "last_set xs = foldl (\<lambda>old new. replace_by new old) [] xs"

definition chunk_events :: "bool \<Rightarrow> stream_chunk \<Rightarrow> stream_event list" where
  "chunk_events emit_text c =
     (if ck_thinking c \<noteq> [] then [ThinkingDelta (ck_thinking c)] else [])
     @ (if ck_delta c \<noteq> [] \<and> emit_text then [TextDelta (ck_delta c)] else [])"

lemma consume_items_None:
  assumes "consume_items emit_text items s = (None, s')"
  shows "\<exists>cs. items = map Chunk cs \<and> (\<forall>c \<in> set cs. ck_error c = None)
    \<and> ss_content s' = ss_content s @ concat (map ck_delta cs)
    \<and> (ss_calls s', ss_last s') = foldl merge_delta (ss_calls s, ss_last s) (chunk_deltas cs)
    \<and> ss_finish s' = foldl (\<lambda>old new. replace_by new old) (ss_finish s) (map ck_finish cs)
    \<and> ss_response_id s' = foldl (\<lambda>old new. replace_by new old) (ss_response_id s) (map ck_response_id cs)
    \<and> ss_usage s' = foldl (\<lambda>u c. add_usage (ck_usage c) u) (ss_usage s) cs
    \<and> ss_events s' = ss_events s @ concat (map (chunk_events emit_text) cs)"
  using assms
proof (induction emit_text items s rule: consume_items.induct)
  case (1 emit_text s)
  then show ?case by (intro exI [of _ "[]"]) (auto simp: chunk_deltas_def map_filter_simps)
next
  case (3 emit_text c items s)
  let ?s1 = "read_text emit_text c s"
  from 3(2) have e: "ck_error c = None" and rest: "consume_items emit_text items (read_rest c ?s1) = (None, s')"
    and ok: "\<not> (ck_delta c \<noteq> [] \<and> runaway (ss_content ?s1))"
    by (auto simp: Let_def split: option.splits if_splits)
  from 3(1) [OF e refl ok rest] obtain cs where cs: "items = map Chunk cs" "\<forall>c \<in> set cs. ck_error c = None"
    "ss_content s' = ss_content (read_rest c ?s1) @ concat (map ck_delta cs)"
    "(ss_calls s', ss_last s') = foldl merge_delta (ss_calls (read_rest c ?s1), ss_last (read_rest c ?s1)) (chunk_deltas cs)"
    "ss_finish s' = foldl (\<lambda>old new. replace_by new old) (ss_finish (read_rest c ?s1)) (map ck_finish cs)"
    "ss_response_id s' = foldl (\<lambda>old new. replace_by new old) (ss_response_id (read_rest c ?s1)) (map ck_response_id cs)"
    "ss_usage s' = foldl (\<lambda>u c. add_usage (ck_usage c) u) (ss_usage (read_rest c ?s1)) cs"
    "ss_events s' = ss_events (read_rest c ?s1) @ concat (map (chunk_events emit_text) cs)" by blast
  have "ss_content (read_rest c ?s1) = ss_content s @ ck_delta c"
    "(ss_calls (read_rest c ?s1), ss_last (read_rest c ?s1))
       = (case ck_call c of None \<Rightarrow> (ss_calls s, ss_last s) | Some d \<Rightarrow> merge_delta (ss_calls s, ss_last s) d)"
    "ss_finish (read_rest c ?s1) = replace_by (ck_finish c) (ss_finish s)"
    "ss_response_id (read_rest c ?s1) = replace_by (ck_response_id c) (ss_response_id s)"
    "ss_usage (read_rest c ?s1) = add_usage (ck_usage c) (ss_usage s)"
    "ss_events (read_rest c ?s1) = ss_events s @ chunk_events emit_text c"
    by (auto simp: read_rest_def read_text_def chunk_events_def split: prod.splits option.splits)
  with cs e show ?case
    by (intro exI [of _ "c # cs"]) (auto simp: chunk_deltas_def map_filter_simps split: option.splits)
qed simp

text \<open>
  C15: a stream that is read to its end without an error yields its whole text and, in the order in which their
  identifiers first appeared, its calls, each with the first name given to it and all its argument deltas in order, a
  delta without an identifier counting to the call before it; the last finish reason and response identifier given
  win. Only a text without calls that is a written-out call is replaced by the calls it holds. A missing finish reason
  is filled in, so it is never empty.
\<close>

theorem stream_result_exact:
  assumes "consume_stream parse_text emit_text items = (Inr r, evs)"
  shows "\<exists>cs. items = map Chunk cs \<and> (\<forall>c \<in> set cs. ck_error c = None)
    \<and> evs = concat (map (chunk_events emit_text) cs)
    \<and> sr_response_id r = last_set (map ck_response_id cs)
    \<and> (let content = concat (map ck_delta cs); calls = assembled (attributed None (chunk_deltas cs));
           reason = last_set (map ck_finish cs)
       in (case (if calls = [] \<and> content \<noteq> [] then parse_text content else None) of
             Some written \<Rightarrow> sr_content r = [] \<and> sr_calls r = written \<and> sr_finish r = ''tool_calls''
           | None \<Rightarrow> sr_content r = content \<and> sr_calls r = calls
               \<and> sr_finish r = (if reason \<noteq> [] then reason else if calls \<noteq> [] then ''tool_calls'' else ''stop'')))"
proof -
  from assms obtain s where s: "consume_items emit_text items new_stream = (None, s)"
    and r: "r = finish_stream parse_text s" "evs = ss_events s"
    by (auto simp: consume_stream_def split: prod.splits option.splits)
  from consume_items_None [OF s] obtain cs where cs: "items = map Chunk cs" "\<forall>c \<in> set cs. ck_error c = None"
    "ss_content s = concat (map ck_delta cs)"
    "(ss_calls s, ss_last s) = foldl merge_delta ([], None) (chunk_deltas cs)"
    "ss_finish s = last_set (map ck_finish cs)" "ss_response_id s = last_set (map ck_response_id cs)"
    "ss_events s = concat (map (chunk_events emit_text) cs)"
    by (auto simp: new_stream_def last_set_def)
  have calls: "ss_calls s = assembled (attributed None (chunk_deltas cs))"
    using cs(4) merge_deltas [of "chunk_deltas cs"] by simp
  show ?thesis
    by (rule exI [of _ cs]) (simp add: cs(1,2,5,6,7) r finish_stream_def Let_def calls [symmetric] cs(3) [symmetric]
        split: option.splits)
qed

text \<open>The identifiers of assembled calls are different and not empty.\<close>

lemma attributed_nonempty: "recent \<noteq> Some [] \<Longrightarrow> [] \<notin> fst ` set (attributed recent ds)"
  by (induction ds arbitrary: recent) (auto split: option.splits if_splits)

lemma assembled_distinct:
  "distinct (map tc_id (assembled (attributed None ds))) \<and> [] \<notin> tc_id ` set (assembled (attributed None ds))"
  using attributed_nonempty [of None ds] by (auto simp: assembled_def comp_def image_image)

definition delta_chunk :: "string \<Rightarrow> string \<Rightarrow> string \<Rightarrow> stream_chunk" where
  "delta_chunk i n a = \<lparr>ck_error = None, ck_usage = None, ck_thinking = [], ck_delta = [],
     ck_call = Some \<lparr>tc_id = i, tc_name = n, tc_args = a\<rparr>, ck_response_id = [], ck_finish = []\<rparr>"

definition sample_chunks :: "stream_chunk list" where
  "sample_chunks = [delta_chunk ''a'' ''f'' ''{'', delta_chunk ''b'' ''g'' ''[]'', delta_chunk ''a'' [] ''1'',
     delta_chunk [] [] ''}'']"

lemma stream_result_exact_witness:
  "\<exists>r evs. consume_stream (\<lambda>_. None) True (map Chunk sample_chunks) = (Inr r, evs)
     \<and> sr_calls r = [\<lparr>tc_id = ''a'', tc_name = ''f'', tc_args = ''{1}''\<rparr>, \<lparr>tc_id = ''b'', tc_name = ''g'', tc_args = ''[]''\<rparr>]
     \<and> sr_finish r = ''tool_calls''"
proof -
  have "fst (consume_items True (map Chunk sample_chunks) new_stream) = None"
    by (simp add: sample_chunks_def delta_chunk_def Let_def)
  then obtain r evs where r: "consume_stream (\<lambda>_. None) True (map Chunk sample_chunks) = (Inr r, evs)"
    by (cases "consume_items True (map Chunk sample_chunks) new_stream") (auto simp: consume_stream_def)
  from stream_result_exact [OF r] obtain cs where cs: "map Chunk sample_chunks = map Chunk cs"
    and res: "sr_calls r = assembled (attributed None (chunk_deltas cs))"
      "assembled (attributed None (chunk_deltas cs)) \<noteq> [] \<Longrightarrow> last_set (map ck_finish cs) = [] \<Longrightarrow> sr_finish r = ''tool_calls''"
    by (auto simp: Let_def split: if_splits)
  from cs have "cs = sample_chunks" by (metis list.inj_map_strong stream_item.inject(1))
  moreover have "assembled (attributed None (chunk_deltas sample_chunks))
      = [\<lparr>tc_id = ''a'', tc_name = ''f'', tc_args = ''{1}''\<rparr>, \<lparr>tc_id = ''b'', tc_name = ''g'', tc_args = ''[]''\<rparr>]"
    "last_set (map ck_finish sample_chunks) = []" by code_simp+
  ultimately show ?thesis using r res by simp
qed

end
