(* ===== verification/ContextWindow.thy ===== *)
theory ContextWindow
  imports GoStrings Prelude
begin

text \<open>
  The context window of \<^verbatim>\<open>src/internal/domain/chat/agentic/context.go\<close>: token estimates, window
  sizes, the stages of compaction, the eviction of stale tool results, the cut after a rejected prompt,
  and the circuit breaker. Sizes are natural numbers (the code's are never negative: a negative tail
  makes its slices panic). The JSON decoder of tool call lists is an argument: \<open>dec\<close> gives the call
  identifiers, or None on an error. The usage thresholds 75, 80, 85 and 90 per cent are compared as
  integers; a correctly rounded quotient of integers below \<open>2 ^ 40\<close> compares in the same way.
\<close>

section \<open>Messages and token estimates\<close>

datatype message_type = TypeText | TypeToolUse | TypeToolResult | TypeSystem | TypeCompactSummary | TypeOther string

record ctx_message =
  xm_role :: string
  xm_content :: string
  xm_type :: message_type
  xm_calls :: string
  xm_call_id :: "string option"

definition estimate_message_tokens :: "ctx_message \<Rightarrow> nat" where
  "estimate_message_tokens m =
     4 + length (xm_content m) div 4 + (if 0 < length (xm_calls m) then length (xm_calls m) div 4 else 0)"

definition estimate_tokens :: "ctx_message list \<Rightarrow> nat" where
  "estimate_tokens ms = foldl (\<lambda>used m. used + estimate_message_tokens m) 0 ms"

definition estimate_string_tokens :: "string \<Rightarrow> nat" where
  "estimate_string_tokens s = (if length s = 0 then 0 else length s div 4 + 3)"

definition estimate_string_tokens_for_type :: "string \<Rightarrow> string \<Rightarrow> nat" where
  "estimate_string_tokens_for_type s ext =
     (if length s = 0 then 0
      else length s div (if to_lower ext \<in> set [''.json'', ''.jsonl'', ''.jsonc'', ''.geojson''] then 2 else 4) + 3)"

section \<open>Window sizes\<close>

definition known_context_windows :: "(string \<times> nat) list" where
  "known_context_windows =
     [(''claude-opus-4'', 200000), (''claude-opus-4-6'', 1000000), (''claude-sonnet-4'', 200000),
      (''claude-sonnet-4-6'', 1000000), (''claude-haiku-4'', 200000), (''claude-3.5-sonnet'', 200000),
      (''claude-3-opus'', 200000), (''claude-3-sonnet'', 200000), (''claude-3-haiku'', 200000),
      (''openai/gpt-oss-20b'', 131072), (''llama3.3'', 128000), (''gpt-4o'', 128000), (''gpt-4-turbo'', 128000),
      (''gpt-4'', 8192), (''gpt-3.5-turbo'', 16385), (''o1'', 200000), (''o3'', 200000)]"

text \<open>The loop over the table, which Go visits in any order.\<close>

fun longest_prefix :: "string \<Rightarrow> (string \<times> nat) list \<Rightarrow> nat \<Rightarrow> nat \<Rightarrow> nat \<times> nat" where
  "longest_prefix model [] best_size best_len = (best_size, best_len)"
| "longest_prefix model ((prefix, window) # table) best_size best_len =
     (if has_prefix model prefix \<and> best_len < length prefix
      then longest_prefix model table window (length prefix)
      else longest_prefix model table best_size best_len)"

definition context_window_size_from :: "(string \<times> nat) list \<Rightarrow> string \<Rightarrow> int \<Rightarrow> int" where
  "context_window_size_from table model fallback =
     (case map_of table model of
        Some window \<Rightarrow> int window
      | None \<Rightarrow>
          (case longest_prefix model table 0 0 of
             (best_size, best_len) \<Rightarrow>
               if 0 < best_len then int best_size else if 0 < fallback then fallback else 200000))"

definition get_context_window_size :: "string \<Rightarrow> int \<Rightarrow> int" where
  "get_context_window_size = context_window_size_from known_context_windows"

text \<open>The threshold is the product of the window size and the configured fraction, rounded down.\<close>

definition should_compact :: "ctx_message list \<Rightarrow> nat \<Rightarrow> int \<Rightarrow> bool" where
  "should_compact ms system_tokens threshold = (threshold < int (estimate_tokens ms + system_tokens))"

section \<open>Tool pairs\<close>

definition use_ids :: "(string \<Rightarrow> string list option) \<Rightarrow> ctx_message \<Rightarrow> string list" where
  "use_ids dec m =
     (if xm_type m = TypeToolUse \<and> xm_calls m \<noteq> []
      then (case dec (xm_calls m) of Some ids \<Rightarrow> ids | None \<Rightarrow> [])
      else [])"

definition result_id :: "ctx_message \<Rightarrow> string option" where
  "result_id m = (if xm_type m = TypeToolResult then xm_call_id m else None)"

definition needed_ids :: "(string \<Rightarrow> string list option) \<Rightarrow> ctx_message list \<Rightarrow> string list" where
  "needed_ids dec kept =
     (let needed = List.map_filter result_id kept
      in filter (\<lambda>i. \<not> list_ex (\<lambda>m. i \<in> set (use_ids dec m)) kept) needed)"

text \<open>The messages before the cut, latest first.\<close>

fun look_back ::
  "(string \<Rightarrow> string list option) \<Rightarrow> ctx_message list \<Rightarrow> string list \<Rightarrow> nat \<Rightarrow> nat" where
  "look_back dec [] needed start = start"
| "look_back dec (m # before) needed start =
     (if needed = [] then start
      else look_back dec before (filter (\<lambda>i. i \<notin> set (use_ids dec m)) needed)
             (if list_ex (\<lambda>i. i \<in> set needed) (use_ids dec m) then length before else start))"

definition adjust_split_for_tool_pairs ::
  "(string \<Rightarrow> string list option) \<Rightarrow> ctx_message list \<Rightarrow> nat \<Rightarrow> nat" where
  "adjust_split_for_tool_pairs dec ms start =
     (if start = 0 \<or> length ms \<le> start then start
      else look_back dec (rev (take start ms)) (needed_ids dec (drop start ms)) start)"

section \<open>Truncation of messages\<close>

definition newline :: string where
  "newline = [CHR 0x0A]"

definition update_before :: "nat \<Rightarrow> (ctx_message \<Rightarrow> ctx_message) \<Rightarrow> ctx_message list \<Rightarrow> ctx_message list" where
  "update_before tail f ms = map f (take (length ms - tail) ms) @ drop (length ms - tail) ms"

definition truncate_result :: "nat \<Rightarrow> ctx_message \<Rightarrow> ctx_message" where
  "truncate_result m_chars m =
     (if xm_type m = TypeToolResult \<and> m_chars < length (xm_content m)
      then m\<lparr>xm_content := take m_chars (xm_content m) @ newline @ ''[truncated]''\<rparr> else m)"

definition truncate_old_tool_results :: "ctx_message list \<Rightarrow> nat \<Rightarrow> nat \<Rightarrow> ctx_message list" where
  "truncate_old_tool_results ms tail m_chars = update_before tail (truncate_result m_chars) ms"

definition microcompact_message :: "ctx_message \<Rightarrow> ctx_message" where
  "microcompact_message m =
     (let m1 = (if 100 < length (xm_content m) then m\<lparr>xm_content := take 100 (xm_content m) @ ''...''\<rparr> else m)
      in m1\<lparr>xm_calls := []\<rparr>)"

definition microcompact :: "ctx_message list \<Rightarrow> nat \<Rightarrow> ctx_message list" where
  "microcompact ms tail = update_before tail microcompact_message ms"

definition snip_old_history ::
  "(string \<Rightarrow> string list option) \<Rightarrow> ctx_message list \<Rightarrow> nat \<Rightarrow> ctx_message list" where
  "snip_old_history dec ms keep =
     (if length ms \<le> keep then ms
      else drop (adjust_split_for_tool_pairs dec ms (length ms - keep)) ms)"

definition truncate_to_tokens :: "string \<Rightarrow> nat \<Rightarrow> string" where
  "truncate_to_tokens content max_tokens =
     (let marker = newline @ newline @ ''[... content truncated for compaction]'';
          budget = max_tokens * 4 - length marker
      in if estimate_string_tokens content \<le> max_tokens then content
         else if length content \<le> budget then content
         else take budget content @ marker)"

section \<open>Summaries\<close>

definition prompt_line :: "(string \<Rightarrow> nat) \<Rightarrow> ctx_message \<Rightarrow> string" where
  "prompt_line count_calls m =
     ''['' @ xm_role m @ '']'' @
     (case xm_type m of
        TypeToolUse \<Rightarrow> '' (tool_use: '' @ itoa (int (if xm_calls m \<noteq> [] then count_calls (xm_calls m) else 0)) @ '' calls)''
      | TypeToolResult \<Rightarrow> '' (tool_result)''
      | _ \<Rightarrow> '' '' @ (if 500 < length (xm_content m) then take 500 (xm_content m) @ ''...'' else xm_content m)) @ newline"

definition build_summarization_prompt :: "(string \<Rightarrow> nat) \<Rightarrow> ctx_message list \<Rightarrow> string" where
  "build_summarization_prompt count_calls ms =
     ''Summarize the following conversation history. Preserve:'' @ newline
     @ ''- Key decisions made'' @ newline
     @ ''- Important facts and data mentioned'' @ newline
     @ ''- Code snippets or technical details referenced'' @ newline
     @ ''- Errors encountered and their resolutions'' @ newline
     @ ''- User preferences expressed'' @ newline @ newline
     @ ''Format: concise bullet points. Do NOT include greetings or filler.'' @ newline @ newline
     @ ''---'' @ newline @ concat (map (prompt_line count_calls) ms) @ newline @ ''---'' @ newline @ newline @ ''Summary:''"

text \<open>Compaction fails when the summarizer does, or panics when the tail to look at is empty.\<close>

datatype compact_failure = SummaryFailed string | EmptyTailPanic

record compact_result =
  cx_messages :: "ctx_message list"
  cx_summary :: string
  cx_original :: nat
  cx_compacted :: nat

definition unchanged :: "ctx_message list \<Rightarrow> compact_result" where
  "unchanged ms = \<lparr>cx_messages = ms, cx_summary = [], cx_original = length ms, cx_compacted = length ms\<rparr>"

fun pull_back :: "ctx_message list \<Rightarrow> nat \<Rightarrow> nat" where
  "pull_back ms 0 = 0"
| "pull_back ms (Suc k) = (if xm_type (ms ! Suc k) = TypeToolResult then pull_back ms k else Suc k)"

definition summary_message :: "string \<Rightarrow> ctx_message" where
  "summary_message s = \<lparr>xm_role = ''system'', xm_content = s, xm_type = TypeCompactSummary, xm_calls = [], xm_call_id = None\<rparr>"

definition compact ::
  "(string \<Rightarrow> nat) \<Rightarrow> nat \<Rightarrow> ctx_message list \<Rightarrow> (string \<Rightarrow> string + string) option \<Rightarrow> compact_failure + compact_result" where
  "compact count_calls tail_size ms summarizer =
     (if length ms \<le> tail_size then Inr (unchanged ms)
      else case summarizer of
             None \<Rightarrow> Inr (unchanged ms)
           | Some f \<Rightarrow>
               if tail_size = 0 then Inl EmptyTailPanic
               else let split = pull_back ms (length ms - tail_size)
                    in if split = 0 then Inr (unchanged ms)
                       else case f (build_summarization_prompt count_calls (take split ms)) of
                              Inl e \<Rightarrow> Inl (SummaryFailed (''context: compact: '' @ e))
                            | Inr s \<Rightarrow>
                                Inr \<lparr>cx_messages = summary_message s # drop split ms, cx_summary = s,
                                     cx_original = length ms, cx_compacted = Suc (length ms - split)\<rparr>)"

section \<open>Stages\<close>

datatype compact_stage = StageToolResultTruncation | StageHistorySnip | StageMicrocompact | StageFullSummarization

definition stage_for :: "int \<Rightarrow> int \<Rightarrow> compact_stage option" where
  "stage_for used window =
     (if 75 * window \<le> 100 * used \<and> 100 * used < 80 * window then Some StageToolResultTruncation
      else if 80 * window \<le> 100 * used \<and> 100 * used < 85 * window then Some StageHistorySnip
      else if 85 * window \<le> 100 * used \<and> 100 * used < 90 * window then Some StageMicrocompact
      else if 90 * window \<le> 100 * used then Some StageFullSummarization
      else None)"

record compact_config =
  xc_model :: string
  xc_window :: int
  xc_tail :: nat

definition staged :: "ctx_message list \<Rightarrow> ctx_message list \<Rightarrow> compact_result" where
  "staged ms compacted =
     \<lparr>cx_messages = compacted, cx_summary = [], cx_original = length ms, cx_compacted = length compacted\<rparr>"

definition usage_stage :: "compact_config \<Rightarrow> ctx_message list \<Rightarrow> nat \<Rightarrow> compact_stage option" where
  "usage_stage cfg ms system_tokens =
     stage_for (int (estimate_tokens ms + system_tokens)) (get_context_window_size (xc_model cfg) (xc_window cfg))"

definition reactive_compact ::
  "(string \<Rightarrow> string list option) \<Rightarrow> (string \<Rightarrow> nat) \<Rightarrow> compact_config \<Rightarrow> ctx_message list \<Rightarrow> nat
   \<Rightarrow> (string \<Rightarrow> string + string) option \<Rightarrow> compact_failure + (compact_result \<times> compact_stage option)" where
  "reactive_compact dec count_calls cfg ms system_tokens summarizer =
     (case usage_stage cfg ms system_tokens of
        Some StageToolResultTruncation \<Rightarrow>
          Inr (staged ms (truncate_old_tool_results ms (xc_tail cfg) 200), Some StageToolResultTruncation)
      | Some StageHistorySnip \<Rightarrow> Inr (staged ms (snip_old_history dec ms (xc_tail cfg * 2)), Some StageHistorySnip)
      | Some StageMicrocompact \<Rightarrow> Inr (staged ms (microcompact ms (xc_tail cfg)), Some StageMicrocompact)
      | Some StageFullSummarization \<Rightarrow>
          (case compact count_calls (xc_tail cfg) ms summarizer of
             Inl e \<Rightarrow> Inl e
           | Inr r \<Rightarrow> Inr (r, Some StageFullSummarization))
      | None \<Rightarrow> Inr (unchanged ms, None))"

fun stage_percent :: "compact_stage \<Rightarrow> int" where
  "stage_percent StageToolResultTruncation = 75"
| "stage_percent StageHistorySnip = 80"
| "stage_percent StageMicrocompact = 85"
| "stage_percent StageFullSummarization = 90"

definition verify_compaction ::
  "(string \<Rightarrow> string list option) \<Rightarrow> (string \<Rightarrow> nat) \<Rightarrow> compact_config \<Rightarrow> compact_result \<times> compact_stage option \<Rightarrow> nat
   \<Rightarrow> (string \<Rightarrow> string + string) option \<Rightarrow> compact_failure + (compact_result \<times> compact_stage option)" where
  "verify_compaction dec count_calls cfg r system_tokens summarizer =
     (case snd r of
        None \<Rightarrow> Inr r
      | Some stage \<Rightarrow>
          if stage = StageFullSummarization then Inr r
          else let used = int (estimate_tokens (cx_messages (fst r)) + system_tokens);
                   window = get_context_window_size (xc_model cfg) (xc_window cfg)
               in if 100 * used < stage_percent stage * window then Inr r
                  else reactive_compact dec count_calls cfg (cx_messages (fst r)) system_tokens summarizer)"

section \<open>Idle sessions and rejected prompts\<close>

record eviction_config =
  ec_gap :: int
  ec_keep :: nat
  ec_gap_text :: string

definition default_eviction_config :: eviction_config where
  "default_eviction_config = \<lparr>ec_gap = 60 * 60 * 1000000000, ec_keep = 5, ec_gap_text = ''1h0m0s''\<rparr>"

definition is_result :: "ctx_message \<Rightarrow> bool" where
  "is_result m = (xm_type m = TypeToolResult)"

definition result_indices :: "ctx_message list \<Rightarrow> nat list" where
  "result_indices ms = filter (\<lambda>i. is_result (ms ! i)) [0..<length ms]"

definition clear_content :: "eviction_config \<Rightarrow> ctx_message \<Rightarrow> ctx_message" where
  "clear_content cfg m = m\<lparr>xm_content := ''[tool result cleared: session idle > '' @ ec_gap_text cfg @ '']''\<rparr>"

definition evict_stale_tool_results :: "ctx_message list \<Rightarrow> int \<Rightarrow> eviction_config \<Rightarrow> ctx_message list" where
  "evict_stale_tool_results ms idle cfg =
     (let idxs = result_indices ms
      in if idle < ec_gap cfg then ms
         else if length idxs \<le> ec_keep cfg then ms
         else foldl (\<lambda>res i. res[i := clear_content cfg (res ! i)]) ms (take (length idxs - ec_keep cfg) idxs))"

text \<open>The number of messages from the oldest whose estimates reach the gap, at most the list.\<close>

fun drop_for_gap :: "nat \<Rightarrow> nat \<Rightarrow> ctx_message list \<Rightarrow> nat" where
  "drop_for_gap gap acc [] = 0"
| "drop_for_gap gap acc (m # ms) =
     (if gap \<le> acc + estimate_message_tokens m then 1
      else Suc (drop_for_gap gap (acc + estimate_message_tokens m) ms))"

text \<open>\<open>gap\<close> is what \<^verbatim>\<open>getPromptTooLongTokenGap\<close> extracts from the error.\<close>

definition ptl_drop_count :: "nat \<Rightarrow> ctx_message list \<Rightarrow> nat \<Rightarrow> nat" where
  "ptl_drop_count tail_size ms gap =
     (let wanted = (if 0 < gap then drop_for_gap gap 0 (take (length ms - tail_size) ms) else max 1 (length ms div 5))
      in min wanted (length ms - tail_size))"

definition compact_for_ptl_retry ::
  "(string \<Rightarrow> string list option) \<Rightarrow> nat \<Rightarrow> ctx_message list \<Rightarrow> nat \<Rightarrow> ctx_message list option" where
  "compact_for_ptl_retry dec tail_size ms gap =
     (if length ms \<le> tail_size + 1 then None
      else let dropped = ptl_drop_count tail_size ms gap
           in if dropped < 1 then None
              else Some (drop (adjust_split_for_tool_pairs dec ms dropped) ms))"

section \<open>Tracking\<close>

record compact_tracking =
  ct_compacted :: bool
  ct_turns :: nat
  ct_turn_id :: string
  ct_failures :: nat

definition new_tracking :: compact_tracking where
  "new_tracking = \<lparr>ct_compacted = False, ct_turns = 0, ct_turn_id = [], ct_failures = 0\<rparr>"

definition record_compact_success :: "string \<Rightarrow> compact_tracking \<Rightarrow> compact_tracking" where
  "record_compact_success uuid t = t\<lparr>ct_compacted := True, ct_turn_id := uuid, ct_turns := 0, ct_failures := 0\<rparr>"

definition record_compact_failure :: "compact_tracking \<Rightarrow> compact_tracking" where
  "record_compact_failure t = t\<lparr>ct_failures := ct_failures t + 1\<rparr>"

definition record_turn_after_compact :: "compact_tracking \<Rightarrow> compact_tracking" where
  "record_turn_after_compact t = (if ct_compacted t then t\<lparr>ct_turns := ct_turns t + 1\<rparr> else t)"

definition compact_circuit_open :: "compact_tracking \<Rightarrow> bool" where
  "compact_circuit_open t = (3 \<le> ct_failures t)"

definition reset_tracking :: "compact_tracking \<Rightarrow> compact_tracking" where
  "reset_tracking t = new_tracking"

definition recompaction_info :: "compact_tracking option \<Rightarrow> bool \<times> int \<times> string" where
  "recompaction_info t =
     (case t of
        None \<Rightarrow> (False, -1, [])
      | Some t \<Rightarrow> (ct_compacted t, int (ct_turns t), ct_turn_id t))"

section \<open>The window does not depend on the order of the table\<close>

definition prefix_entry :: "string \<Rightarrow> string \<times> nat \<Rightarrow> bool" where
  "prefix_entry model e = (fst e \<noteq> [] \<and> has_prefix model (fst e))"

lemma longest_prefix_spec:
  "case longest_prefix model table bs bl of (s, l) \<Rightarrow>
     bl \<le> l \<and> (\<forall>e \<in> set table. has_prefix model (fst e) \<longrightarrow> length (fst e) \<le> l)
     \<and> (if l = bl then s = bs
        else \<exists>e \<in> set table. has_prefix model (fst e) \<and> length (fst e) = l \<and> snd e = s)"
proof (induction model table bs bl rule: longest_prefix.induct)
  case (2 model prefix window table bs bl)
  show ?case
  proof (cases "has_prefix model prefix \<and> bl < length prefix")
    case True
    obtain s l where r: "longest_prefix model table window (length prefix) = (s, l)" by fastforce
    with True 2(1) show ?thesis by (cases "l = length prefix") auto
  next
    case False
    obtain s l where r: "longest_prefix model table bs bl = (s, l)" by fastforce
    from False 2(2) r have ih: "bl \<le> l" "\<forall>e \<in> set table. has_prefix model (fst e) \<longrightarrow> length (fst e) \<le> l"
      "if l = bl then s = bs else \<exists>e \<in> set table. has_prefix model (fst e) \<and> length (fst e) = l \<and> snd e = s"
      by simp_all
    have step: "longest_prefix model ((prefix, window) # table) bs bl = (s, l)" using False r by auto
    have "has_prefix model prefix \<longrightarrow> length prefix \<le> l" using False ih(1) by auto
    with ih show ?thesis unfolding step by auto
  qed
qed simp

lemma longest_prefix_perm:
  assumes "distinct (map fst table)" "set table' = set table"
  shows "longest_prefix model table' 0 0 = longest_prefix model table 0 0"
proof -
  obtain s l where a: "longest_prefix model table 0 0 = (s, l)" by fastforce
  obtain s' l' where b: "longest_prefix model table' 0 0 = (s', l')" by fastforce
  note A = longest_prefix_spec [where model = model and table = table and bs = 0 and bl = 0, unfolded a, simplified]
  note B = longest_prefix_spec [where model = model and table = table' and bs = 0 and bl = 0, unfolded b, simplified, unfolded assms(2)]
  have l: "l = l'"
    using A B by (metis le_antisym le_zero_eq)
  have same: "fst e = fst e'" if "has_prefix model (fst e)" "has_prefix model (fst e')" "length (fst e) = length (fst e')"
    for e e' :: "string \<times> nat"
    using that by (metis append_eq_append_conv has_prefix_iff)
  have "s = s'"
  proof (cases "l = 0")
    case True
    then show ?thesis using A B l by simp
  next
    case False
    then obtain e e' where "e \<in> set table" "has_prefix model (fst e)" "length (fst e) = l" "snd e = s"
      "e' \<in> set table" "has_prefix model (fst e')" "length (fst e') = l" "snd e' = s'"
      using A B l by auto
    with same [of e e'] assms(1) show ?thesis
      by (metis eq_key_imp_eq_value prod.collapse)
  qed
  with a b l show ?thesis by simp
qed

lemma longest_prefix_max:
  assumes "(p, w) \<in> set table" "has_prefix model p" "p \<noteq> []" "distinct (map fst table)"
    and "\<forall>q \<in> fst ` set table. has_prefix model q \<longrightarrow> length q \<le> length p"
  shows "longest_prefix model table 0 0 = (w, length p)"
proof -
  obtain s l where a: "longest_prefix model table 0 0 = (s, l)" by fastforce
  note A = longest_prefix_spec [where model = model and table = table and bs = 0 and bl = 0, unfolded a, simplified]
  have pl: "length p \<le> l" using A assms(1,2) by fastforce
  with assms(3) have "0 < l" by (cases p) auto
  with A obtain e where e: "e \<in> set table" "has_prefix model (fst e)" "length (fst e) = l" "snd e = s"
    by auto
  with assms(5) pl have l: "l = length p" by fastforce
  with e assms(2) have "fst e = p" by (metis append_eq_append_conv has_prefix_iff)
  with e assms(1,4) have "s = w" by (metis eq_key_imp_eq_value prod.collapse)
  with a l show ?thesis by simp
qed

lemma known_windows_distinct: "distinct (map fst known_context_windows)"
  by (simp add: known_context_windows_def)

lemma window_positive: "0 < get_context_window_size model fallback"
proof -
  obtain s l where a: "longest_prefix model known_context_windows 0 0 = (s, l)" by fastforce
  note A = longest_prefix_spec [where model = model and table = known_context_windows and bs = 0 and bl = 0,
      unfolded a, simplified]
  have pos: "\<forall>e \<in> set known_context_windows. 0 < snd e" by (simp add: known_context_windows_def)
  then have "0 < s \<or> l = 0" using A by (cases "l = 0") auto
  moreover have "0 < w" if "map_of known_context_windows model = Some w" for w
    using that pos by (force dest: map_of_SomeD)
  ultimately show ?thesis
    using a by (auto simp: context_window_size_from_def get_context_window_size_def split: option.splits)
qed

text \<open>
  The size of a context window is that of the model's own entry, else of the longest entry that is a
  prefix of its name, else the fallback, else 200000; it is positive, and the order in which the table
  is visited does not matter.
\<close>

theorem context_window_size_deterministic:
  "(set table = set known_context_windows \<and> distinct (map fst table)
      \<longrightarrow> context_window_size_from table model fallback = get_context_window_size model fallback)
   \<and> 0 < get_context_window_size model fallback
   \<and> (\<forall>w. map_of known_context_windows model = Some w \<longrightarrow> get_context_window_size model fallback = int w)
   \<and> (\<forall>p w. (p, w) \<in> set known_context_windows \<longrightarrow> has_prefix model p
        \<longrightarrow> (\<forall>q \<in> fst ` set known_context_windows. has_prefix model q \<longrightarrow> length q \<le> length p)
        \<longrightarrow> get_context_window_size model fallback = int w)"
proof (intro conjI)
  have len: "0 < length p" if "p \<in> fst ` set known_context_windows" for p
    using that by (auto simp: known_context_windows_def)
  show "set table = set known_context_windows \<and> distinct (map fst table)
      \<longrightarrow> context_window_size_from table model fallback = get_context_window_size model fallback"
  proof
    assume t: "set table = set known_context_windows \<and> distinct (map fst table)"
    then have "map_of table model = map_of known_context_windows model"
      by (metis known_windows_distinct map_of_inject_set)
    with t longest_prefix_perm [OF known_windows_distinct, of table model]
    show "context_window_size_from table model fallback = get_context_window_size model fallback"
      unfolding context_window_size_from_def get_context_window_size_def by (simp only:)
  qed
  show "0 < get_context_window_size model fallback" by (rule window_positive)
  show "\<forall>w. map_of known_context_windows model = Some w \<longrightarrow> get_context_window_size model fallback = int w"
    by (simp add: context_window_size_from_def get_context_window_size_def)
  show "\<forall>p w. (p, w) \<in> set known_context_windows \<longrightarrow> has_prefix model p
        \<longrightarrow> (\<forall>q \<in> fst ` set known_context_windows. has_prefix model q \<longrightarrow> length q \<le> length p)
        \<longrightarrow> get_context_window_size model fallback = int w"
  proof (intro allI impI)
    fix p w
    assume p: "(p, w) \<in> set known_context_windows" "has_prefix model p"
      "\<forall>q \<in> fst ` set known_context_windows. has_prefix model q \<longrightarrow> length q \<le> length p"
    have "0 < length p" using len p(1) by force
    then have "longest_prefix model known_context_windows 0 0 = (w, length p)"
      using longest_prefix_max [OF p(1,2) _ known_windows_distinct p(3)] by auto
    moreover have "v = w" if "map_of known_context_windows model = Some v" for v
    proof -
      have "(model, v) \<in> set known_context_windows" using that by (rule map_of_SomeD)
      with p(3) have "length model \<le> length p" by (force simp: has_prefix_iff)
      with p(2) have "p = model" by (auto simp: has_prefix_iff)
      with p(1) that known_windows_distinct show ?thesis by (simp add: map_of_eq_Some_iff)
    qed
    ultimately show "get_context_window_size model fallback = int w"
      using \<open>0 < length p\<close>
      by (auto simp: context_window_size_from_def get_context_window_size_def split: option.splits)
  qed
qed

section \<open>No tool result is separated from its call\<close>

text \<open>Every result that names a call has a message with that call before it.\<close>

definition paired :: "(string \<Rightarrow> string list option) \<Rightarrow> ctx_message list \<Rightarrow> bool" where
  "paired dec ms \<longleftrightarrow>
     (\<forall>p < length ms. \<forall>i. result_id (ms ! p) = Some i \<longrightarrow> (\<exists>j < p. i \<in> set (use_ids dec (ms ! j))))"

text \<open>The histories the agent loop writes: results directly follow the message with their calls.\<close>

definition block_history :: "(string \<Rightarrow> string list option) \<Rightarrow> ctx_message list \<Rightarrow> bool" where
  "block_history dec ms \<longleftrightarrow>
     (\<forall>p < length ms. \<forall>i. result_id (ms ! p) = Some i \<longrightarrow>
        (\<exists>j < p. i \<in> set (use_ids dec (ms ! j)) \<and> (\<forall>k. j < k \<and> k < p \<longrightarrow> is_result (ms ! k))))"

definition distinct_calls :: "(string \<Rightarrow> string list option) \<Rightarrow> ctx_message list \<Rightarrow> bool" where
  "distinct_calls dec ms \<longleftrightarrow>
     (\<forall>j < length ms. \<forall>k < length ms. j \<noteq> k \<longrightarrow> set (use_ids dec (ms ! j)) \<inter> set (use_ids dec (ms ! k)) = {})"

lemma block_history_paired: "block_history dec ms \<Longrightarrow> paired dec ms"
  unfolding block_history_def paired_def by blast

lemma result_id_result: "result_id m = Some i \<Longrightarrow> is_result m"
  by (auto simp: result_id_def is_result_def split: if_splits)

lemma use_ids_not_result: "use_ids dec m \<noteq> [] \<Longrightarrow> \<not> is_result m"
  by (auto simp: use_ids_def is_result_def split: if_splits)

lemma not_result_ids: "\<not> is_result m \<Longrightarrow> result_id m = None"
  by (auto simp: result_id_def is_result_def)

text \<open>A cut in front of a message that is not a result keeps the history intact.\<close>

lemma block_history_drop:
  assumes block: "block_history dec ms" and cut: "s = 0 \<or> length ms \<le> s \<or> \<not> is_result (ms ! s)"
  shows "block_history dec (drop s ms)"
  unfolding block_history_def
proof (intro allI impI)
  fix p i
  assume p: "p < length (drop s ms)" and r: "result_id (drop s ms ! p) = Some i"
  then have "result_id (ms ! (s + p)) = Some i" "s + p < length ms" by auto
  with block obtain j where j: "j < s + p" "i \<in> set (use_ids dec (ms ! j))"
    "\<forall>k. j < k \<and> k < s + p \<longrightarrow> is_result (ms ! k)"
    unfolding block_history_def by blast
  have "s \<le> j"
  proof (rule ccontr)
    assume "\<not> s \<le> j"
    with cut p have "\<not> is_result (ms ! s)" by auto
    moreover have "is_result (ms ! s)"
      using j(3) r p \<open>\<not> s \<le> j\<close> result_id_result [of "ms ! s" i] by (cases "p = 0") auto
    ultimately show False by blast
  qed
  with j p show "\<exists>j < p. i \<in> set (use_ids dec (drop s ms ! j))
      \<and> (\<forall>k. j < k \<and> k < p \<longrightarrow> is_result (drop s ms ! k))"
    by (intro exI [of _ "j - s"]) (auto simp: less_diff_conv2)
qed

lemma look_back_le: "length ms \<le> start \<Longrightarrow> look_back dec ms needed start \<le> start"
  by (induction dec ms needed start rule: look_back.induct) (auto intro: le_trans)

lemma look_back_stop:
  "look_back dec ms needed start = start
   \<or> look_back dec ms needed start < length ms \<and> use_ids dec (rev ms ! look_back dec ms needed start) \<noteq> []"
proof (induction dec ms needed start rule: look_back.induct)
  case (2 dec m before needed start)
  show ?case
  proof (cases "needed = []")
    case False
    define start' where "start' = (if list_ex (\<lambda>i. i \<in> set needed) (use_ids dec m) then length before else start)"
    define r where "r = look_back dec before (filter (\<lambda>i. i \<notin> set (use_ids dec m)) needed) start'"
    have whole: "look_back dec (m # before) needed start = r" using False by (simp add: r_def start'_def)
    from 2 [OF False] have "r = start' \<or> r < length before \<and> use_ids dec (rev before ! r) \<noteq> []"
      by (simp add: r_def start'_def)
    then show ?thesis
    proof
      assume "r = start'"
      then show ?thesis
        unfolding whole by (auto simp: start'_def nth_append list_ex_iff)
    next
      assume "r < length before \<and> use_ids dec (rev before ! r) \<noteq> []"
      then show ?thesis unfolding whole by (auto simp: nth_append)
    qed
  qed simp
qed simp

lemma look_back_reaches:
  assumes "length ms \<le> start" "i \<in> set needed" "j < length ms" "i \<in> set (use_ids dec (rev ms ! j))"
    and "\<forall>k. j < k \<and> k < length ms \<longrightarrow> i \<notin> set (use_ids dec (rev ms ! k))"
  shows "look_back dec ms needed start \<le> j"
  using assms
proof (induction dec ms needed start rule: look_back.induct)
  case (2 dec m before needed start)
  then have ne: "needed \<noteq> []" by auto
  define start' where "start' = (if list_ex (\<lambda>i. i \<in> set needed) (use_ids dec m) then length before else start)"
  have whole: "look_back dec (m # before) needed start
      = look_back dec before (filter (\<lambda>i. i \<notin> set (use_ids dec m)) needed) start'"
    using ne by (simp add: start'_def)
  have st: "length before \<le> start'" using 2(2) by (auto simp: start'_def)
  show ?case
  proof (cases "j = length before")
    case True
    with 2(3,5) have "start' = length before" by (auto simp: start'_def list_ex_iff nth_append)
    with look_back_le [OF st, of dec] True show ?thesis unfolding whole by simp
  next
    case False
    with 2(4,6) have m: "i \<notin> set (use_ids dec m)" by (auto simp: nth_append dest: spec [of _ "length before"])
    have "j < length before" using False 2(4) by simp
    moreover have "i \<in> set (use_ids dec (rev before ! j))"
      using 2(5) \<open>j < length before\<close> by (simp add: nth_append)
    moreover have "i \<notin> set (use_ids dec (rev before ! k))" if "j < k" "k < length before" for k
      using 2(6) [rule_format, of k] that by (simp add: nth_append)
    ultimately show ?thesis
      unfolding whole start'_def using 2(1) [OF ne st [unfolded start'_def]] 2(3) m by simp
  qed
qed simp

lemma needed_idsI:
  assumes "m \<in> set kept" "result_id m = Some i" "\<forall>m' \<in> set kept. i \<notin> set (use_ids dec m')"
  shows "i \<in> set (needed_ids dec kept)"
  using assms by (force simp: needed_ids_def Let_def map_filter_def list_ex_iff)

lemma adjust_split_le: "adjust_split_for_tool_pairs dec ms start \<le> start"
  by (simp add: adjust_split_for_tool_pairs_def look_back_le)

lemma distinct_callsD:
  "distinct_calls dec ms \<Longrightarrow> j < length ms \<Longrightarrow> k < length ms \<Longrightarrow> j \<noteq> k \<Longrightarrow>
     i \<in> set (use_ids dec (ms ! j)) \<Longrightarrow> i \<notin> set (use_ids dec (ms ! k))"
  unfolding distinct_calls_def by blast

lemma adjusted_reaches:
  assumes "distinct_calls dec ms" "0 < start" "start \<le> p" "p < length ms" "result_id (ms ! p) = Some i"
    and "j < start" "i \<in> set (use_ids dec (ms ! j))"
  shows "adjust_split_for_tool_pairs dec ms start \<le> j"
proof -
  have other: "i \<notin> set (use_ids dec (ms ! k))" if "k < length ms" "k \<noteq> j" for k
    using distinct_callsD [OF assms(1) _ that(1) _ assms(7)] that assms(3,4,6) by simp
  have "i \<notin> set (use_ids dec m')" if m': "m' \<in> set (drop start ms)" for m'
  proof -
    from m' obtain k where "k < length ms - start" "m' = ms ! (start + k)" by (auto simp: in_set_conv_nth)
    with other [of "start + k"] assms(6) show ?thesis by auto
  qed
  then have "\<forall>m' \<in> set (drop start ms). i \<notin> set (use_ids dec m')" by blast
  moreover have "ms ! p \<in> set (drop start ms)"
    using assms(3,4) by (auto simp: in_set_conv_nth intro!: exI [of _ "p - start"])
  ultimately have "i \<in> set (needed_ids dec (drop start ms))"
    using assms(5) by (intro needed_idsI)
  then have "look_back dec (rev (take start ms)) (needed_ids dec (drop start ms)) start \<le> j"
    using assms(3,4,6,7) other by (intro look_back_reaches) auto
  then show ?thesis using assms(2-4) by (simp add: adjust_split_for_tool_pairs_def)
qed

lemma adjusted_cut:
  assumes "start < length ms" "adjust_split_for_tool_pairs dec ms start \<noteq> start"
  shows "\<not> is_result (ms ! adjust_split_for_tool_pairs dec ms start)"
proof -
  let ?s = "adjust_split_for_tool_pairs dec ms start"
  have lb: "?s = look_back dec (rev (take start ms)) (needed_ids dec (drop start ms)) start"
    using assms by (auto simp: adjust_split_for_tool_pairs_def)
  from look_back_stop [of dec "rev (take start ms)" "needed_ids dec (drop start ms)" start] assms
  have "?s < start" "use_ids dec (take start ms ! ?s) \<noteq> []" by (auto simp: lb [symmetric])
  then show ?thesis using use_ids_not_result by simp
qed

lemma block_history_adjusted:
  assumes block: "block_history dec ms" and dist: "distinct_calls dec ms" and start: "start < length ms"
  shows "block_history dec (drop (adjust_split_for_tool_pairs dec ms start) ms)"
proof (cases "adjust_split_for_tool_pairs dec ms start = start")
  case False
  with adjusted_cut [OF start, of dec] block show ?thesis by (intro block_history_drop) auto
next
  case True
  show ?thesis
    unfolding True block_history_def
  proof (intro allI impI)
    fix p i
    assume p: "p < length (drop start ms)" and r: "result_id (drop start ms ! p) = Some i"
    then have r': "result_id (ms ! (start + p)) = Some i" "start + p < length ms" by auto
    with block obtain j where j: "j < start + p" "i \<in> set (use_ids dec (ms ! j))"
      "\<forall>k. j < k \<and> k < start + p \<longrightarrow> is_result (ms ! k)"
      unfolding block_history_def by blast
    have "start \<le> j"
      using adjusted_reaches [OF dist _ _ r'(2,1) _ j(2), of start] True by (cases "j < start") auto
    with j p show "\<exists>j < p. i \<in> set (use_ids dec (drop start ms ! j))
        \<and> (\<forall>k. j < k \<and> k < p \<longrightarrow> is_result (drop start ms ! k))"
      by (intro exI [of _ "j - start"]) (auto simp: less_diff_conv2)
  qed
qed

lemma paired_Cons: "paired dec ms \<Longrightarrow> result_id m = None \<Longrightarrow> paired dec (m # ms)"
  unfolding paired_def
proof (intro allI impI)
  fix p i
  assume a: "\<forall>p < length ms. \<forall>i. result_id (ms ! p) = Some i \<longrightarrow> (\<exists>j < p. i \<in> set (use_ids dec (ms ! j)))"
    "result_id m = None" "p < length (m # ms)" "result_id ((m # ms) ! p) = Some i"
  then obtain q where q: "p = Suc q" "q < length ms" "result_id (ms ! q) = Some i" by (cases p) auto
  with a(1) obtain j where "j < q" "i \<in> set (use_ids dec (ms ! j))" by blast
  with q show "\<exists>j < p. i \<in> set (use_ids dec ((m # ms) ! j))" by (intro exI [of _ "Suc j"]) simp
qed

lemma pull_back_cut: "pull_back ms k \<le> k \<and> (pull_back ms k = 0 \<or> \<not> is_result (ms ! pull_back ms k))"
  by (induction ms k rule: pull_back.induct) (auto simp: is_result_def intro: le_SucI)

text \<open>
  C38: none of the cuts through a history separates a tool result from its call: if results directly
  follow the message with their calls and call identifiers do not repeat, then the snipped history, the
  history cut for a retry after a rejected prompt, and the summarized history have, before each result,
  the call it answers. The first keeps at least the messages asked for, the others at least the tail.
\<close>

theorem cuts_keep_tool_pairs:
  assumes "block_history dec ms" "distinct_calls dec ms"
  shows "paired dec (snip_old_history dec ms keep) \<and> min keep (length ms) \<le> length (snip_old_history dec ms keep)
    \<and> (\<forall>r. compact_for_ptl_retry dec tail ms gap = Some r \<longrightarrow> paired dec r \<and> tail \<le> length r)
    \<and> (\<forall>r. compact count_calls tail ms f = Inr r \<longrightarrow> paired dec (cx_messages r)
          \<and> drop (length ms - tail) ms = drop (length (cx_messages r) - min tail (length ms)) (cx_messages r))"
proof (intro conjI allI impI)
  have adj: "paired dec (drop (adjust_split_for_tool_pairs dec ms s) ms)" if "s \<le> length ms" for s
  proof (cases "s = length ms")
    case True
    then show ?thesis by (simp add: adjust_split_for_tool_pairs_def paired_def)
  next
    case False
    with that block_history_adjusted [OF assms, of s] show ?thesis by (intro block_history_paired) simp
  qed
  have len: "length ms - s \<le> length (drop (adjust_split_for_tool_pairs dec ms s) ms)" for s
    using adjust_split_le [of dec ms s] by simp
  show "paired dec (snip_old_history dec ms keep)"
    using adj [of "length ms - keep"] block_history_paired [OF assms(1)] by (simp add: snip_old_history_def)
  show "min keep (length ms) \<le> length (snip_old_history dec ms keep)"
    using len [of "length ms - keep"] by (cases "length ms \<le> keep") (simp_all add: snip_old_history_def)
  fix r
  {
    assume r: "compact_for_ptl_retry dec tail ms gap = Some r"
    define d where "d = ptl_drop_count tail ms gap"
    with r have d: "d \<le> length ms - tail" "r = drop (adjust_split_for_tool_pairs dec ms d) ms" "tail < length ms"
      by (auto simp: compact_for_ptl_retry_def ptl_drop_count_def Let_def split: if_splits)
    with adj [of d] show "paired dec r" by simp
    from d len [of d] show "tail \<le> length r" by simp
  }
  {
    assume r: "compact count_calls tail ms f = Inr r"
    let ?split = "pull_back ms (length ms - tail)"
    from r consider "r = unchanged ms"
      | s where "cx_messages r = summary_message s # drop ?split ms" "0 < tail" "tail < length ms"
      by (auto simp: compact_def Let_def split: if_splits option.splits sum.splits)
    note shapes = this
    from pull_back_cut [of ms "length ms - tail"] assms(1)
    have "block_history dec (drop ?split ms)" by (intro block_history_drop) auto
    then have p: "paired dec (drop ?split ms)" by (rule block_history_paired)
    from shapes show "paired dec (cx_messages r)"
    proof cases
      case 1
      with block_history_paired [OF assms(1)] show ?thesis by (simp add: unchanged_def)
    next
      case (2 s)
      with paired_Cons [OF p, of "summary_message s"] show ?thesis
        by (simp add: result_id_def summary_message_def)
    qed
    from shapes show "drop (length ms - tail) ms = drop (length (cx_messages r) - min tail (length ms)) (cx_messages r)"
    proof cases
      case 1
      then show ?thesis by (cases "tail \<le> length ms") (simp_all add: unchanged_def)
    next
      case (2 s)
      have "?split \<le> length ms - tail" using pull_back_cut by blast
      with 2 have "Suc (length ms - ?split) - tail = Suc (length ms - tail - ?split)"
        "?split + (length ms - tail - ?split) = length ms - tail" by auto
      with 2 show ?thesis by (simp add: min_def add.commute)
    qed
  }
qed

text \<open>A decoder of lists of one-character identifiers, for the examples.\<close>

definition letters :: "string \<Rightarrow> string list option" where
  "letters s = Some (map (\<lambda>c. [c]) s)"

definition user_says :: "string \<Rightarrow> ctx_message" where
  "user_says s = \<lparr>xm_role = ''user'', xm_content = s, xm_type = TypeText, xm_calls = [], xm_call_id = None\<rparr>"

definition calls_tools :: "string \<Rightarrow> ctx_message" where
  "calls_tools s = \<lparr>xm_role = ''assistant'', xm_content = [], xm_type = TypeToolUse, xm_calls = s, xm_call_id = None\<rparr>"

definition answers_call :: "string \<Rightarrow> string \<Rightarrow> ctx_message" where
  "answers_call i s = \<lparr>xm_role = ''tool'', xm_content = s, xm_type = TypeToolResult, xm_calls = [], xm_call_id = Some i\<rparr>"

definition sample_history :: "ctx_message list" where
  "sample_history = [user_says ''hi'', calls_tools ''ab'', answers_call ''a'' ''1'', answers_call ''b'' ''2'', user_says ''ok'']"

definition block_check :: "(string \<Rightarrow> string list option) \<Rightarrow> ctx_message list \<Rightarrow> bool" where
  "block_check dec ms =
     list_all (\<lambda>p. case result_id (ms ! p) of None \<Rightarrow> True
                   | Some i \<Rightarrow> list_ex (\<lambda>j. i \<in> set (use_ids dec (ms ! j)) \<and> list_all (\<lambda>k. is_result (ms ! k)) [Suc j..<p]) [0..<p])
       [0..<length ms]"

definition distinct_check :: "(string \<Rightarrow> string list option) \<Rightarrow> ctx_message list \<Rightarrow> bool" where
  "distinct_check dec ms =
     list_all (\<lambda>j. list_all (\<lambda>k. j = k \<or> list_all (\<lambda>i. i \<notin> set (use_ids dec (ms ! k))) (use_ids dec (ms ! j)))
       [0..<length ms]) [0..<length ms]"

lemma list_all_upt: "list_all P [a..<b] \<longleftrightarrow> (\<forall>k. a \<le> k \<and> k < b \<longrightarrow> P k)"
  by (auto simp: list_all_iff)

lemma list_ex_upt: "list_ex P [0..<b] \<longleftrightarrow> (\<exists>k<b. P k)"
  by (auto simp: list_ex_iff)

lemma block_check: "block_history dec ms \<longleftrightarrow> block_check dec ms"
  unfolding block_check_def block_history_def list_all_upt list_ex_upt
  by (simp add: Suc_le_eq option.split) blast

lemma distinct_check: "distinct_calls dec ms \<longleftrightarrow> distinct_check dec ms"
proof -
  have "list_all (\<lambda>i. i \<notin> set ys) xs \<longleftrightarrow> set xs \<inter> set ys = {}" for xs ys :: "string list"
    by (auto simp: list_all_iff)
  then show ?thesis
    unfolding distinct_check_def distinct_calls_def list_all_upt by (simp, blast)
qed

lemma sample_history_ok: "block_history letters sample_history" "distinct_calls letters sample_history"
  unfolding block_check distinct_check by code_simp+

lemma cuts_keep_tool_pairs_witness:
  "snip_old_history letters sample_history 2 = drop 1 sample_history \<and> paired letters (drop 1 sample_history)"
proof -
  have "snip_old_history letters sample_history 2 = drop 1 sample_history" by code_simp
  with cuts_keep_tool_pairs [OF sample_history_ok, of 2] show ?thesis by auto
qed

section \<open>Truncation and eviction keep pairs, the third stage does not\<close>

lemma paired_cong:
  assumes "length ms' = length ms"
    and "\<And>k. k < length ms \<Longrightarrow> use_ids dec (ms' ! k) = use_ids dec (ms ! k) \<and> result_id (ms' ! k) = result_id (ms ! k)"
  shows "paired dec ms' \<longleftrightarrow> paired dec ms"
proof -
  have "(\<exists>j < p. i \<in> set (use_ids dec (ms' ! j))) \<longleftrightarrow> (\<exists>j < p. i \<in> set (use_ids dec (ms ! j)))"
    if "p < length ms" for p i
  proof -
    have "use_ids dec (ms' ! j) = use_ids dec (ms ! j)" if "j < p" for j
      using assms(2) [of j] that \<open>p < length ms\<close> by auto
    then show ?thesis by auto
  qed
  then show ?thesis using assms by (simp add: paired_def)
qed

lemma length_update_before [simp]: "length (update_before tail f ms) = length ms"
  by (simp add: update_before_def)

lemma nth_update_before:
  "k < length ms \<Longrightarrow> update_before tail f ms ! k = (if k < length ms - tail then f (ms ! k) else ms ! k)"
  by (auto simp: update_before_def nth_append min_def)

lemma truncate_result_idem [simp]: "truncate_result n (truncate_result n m) = truncate_result n m"
  by (simp add: truncate_result_def)

lemma truncate_result_ids [simp]:
  "use_ids dec (truncate_result n m) = use_ids dec m" "result_id (truncate_result n m) = result_id m"
  by (simp_all add: truncate_result_def use_ids_def result_id_def)

text \<open>The number of results after position \<open>i\<close>.\<close>

definition results_after :: "ctx_message list \<Rightarrow> nat \<Rightarrow> nat" where
  "results_after ms i = length (filter is_result (drop (Suc i) ms))"

lemma fold_clear_nth:
  assumes "distinct idxs" "\<forall>i \<in> set idxs. i < length ms" "k < length ms"
  shows "foldl (\<lambda>res i. res[i := f (res ! i)]) ms idxs ! k = (if k \<in> set idxs then f (ms ! k) else ms ! k)"
  using assms
proof (induction idxs arbitrary: ms)
  case (Cons i idxs)
  then show ?case by (cases "k = i") auto
qed simp

lemma length_fold_clear [simp]: "length (foldl (\<lambda>res i. res[i := f (res ! i)]) ms idxs) = length ms"
  by (induction idxs arbitrary: ms) auto

lemma length_filter_drop:
  "length (filter (\<lambda>j. is_result (ms ! j)) [i..<length ms]) = length (filter is_result (drop i ms))"
proof -
  have "drop i ms = map (\<lambda>j. ms ! j) [i..<length ms]" by (rule nth_equalityI) auto
  then show ?thesis by (simp add: filter_map comp_def)
qed

lemma length_result_indices: "length (result_indices ms) = length (filter is_result ms)"
  using length_filter_drop [of ms 0] by (simp add: result_indices_def)

lemma evicted_indices:
  assumes "i < length ms"
  shows "i \<in> set (take (length (result_indices ms) - keep) (result_indices ms))
    \<longleftrightarrow> is_result (ms ! i) \<and> keep \<le> results_after ms i"
proof (cases "is_result (ms ! i)")
  case True
  let ?pre = "filter (\<lambda>j. is_result (ms ! j)) [0..<i]" and ?post = "filter (\<lambda>j. is_result (ms ! j)) [Suc i..<length ms]"
  have "[0..<length ms] = [0..<i] @ i # [Suc i..<length ms]"
    using assms by (metis upt_add_eq_append upt_conv_Cons le_add_diff_inverse less_imp_le zero_le)
  then have split: "result_indices ms = ?pre @ i # ?post" using True by (simp add: result_indices_def)
  have post: "length ?post = results_after ms i" by (simp add: results_after_def length_filter_drop)
  have out: "i \<notin> set ?pre" "i \<notin> set ?post" by auto
  let ?n = "length (result_indices ms) - keep"
  have "i \<in> set (take ?n (result_indices ms)) \<longleftrightarrow> length ?pre < ?n"
  proof (cases "length ?pre < ?n")
    case True
    then have "take ?n (result_indices ms) = ?pre @ i # take (?n - Suc (length ?pre)) ?post"
      unfolding split by (simp add: take_Cons' Suc_diff_Suc)
    with True show ?thesis by simp
  next
    case False
    then have "take ?n (result_indices ms) = take ?n ?pre" unfolding split by simp
    then have "i \<notin> set (take ?n (result_indices ms))" using out(1) by (auto dest: in_set_takeD)
    with False show ?thesis by blast
  qed
  also have "\<dots> \<longleftrightarrow> keep \<le> results_after ms i" using split post by auto
  finally show ?thesis using True by simp
next
  case False
  then show ?thesis by (auto simp: result_indices_def dest!: in_set_takeD)
qed

text \<open>
  \<^verbatim>\<open>EvictStaleToolResults\<close> clears a message exactly if the session has been idle for the
  threshold and the message is a tool result followed by at least \<open>KeepRecent\<close> others; it changes nothing but
  the content, so no result loses its call.
\<close>

theorem evict_stale_exact:
  "length (evict_stale_tool_results ms idle cfg) = length ms
   \<and> (\<forall>i<length ms. evict_stale_tool_results ms idle cfg ! i =
        (if ec_gap cfg \<le> idle \<and> is_result (ms ! i) \<and> ec_keep cfg \<le> results_after ms i
         then clear_content cfg (ms ! i) else ms ! i))
   \<and> (paired dec (evict_stale_tool_results ms idle cfg) \<longleftrightarrow> paired dec ms)"
proof -
  let ?e = "evict_stale_tool_results ms idle cfg"
  have len: "length ?e = length ms" by (simp add: evict_stale_tool_results_def Let_def)
  have few: "results_after ms i < length (result_indices ms)" if "is_result (ms ! i)" "i < length ms" for i
  proof -
    have "filter is_result ms = filter is_result (take i ms) @ ms ! i # filter is_result (drop (Suc i) ms)"
      using that by (metis append_take_drop_id filter_append Cons_nth_drop_Suc filter.simps(2))
    then show ?thesis by (simp add: length_result_indices results_after_def)
  qed
  have nth: "?e ! i = (if ec_gap cfg \<le> idle \<and> is_result (ms ! i) \<and> ec_keep cfg \<le> results_after ms i
         then clear_content cfg (ms ! i) else ms ! i)" if i: "i < length ms" for i
  proof -
    let ?idxs = "take (length (result_indices ms) - ec_keep cfg) (result_indices ms)"
    have "distinct ?idxs" "\<forall>j \<in> set ?idxs. j < length ms"
      by (auto simp: result_indices_def dest!: in_set_takeD)
    note fold_clear_nth [OF this i, of "clear_content cfg"]
    with evicted_indices [OF i, of "ec_keep cfg"] few [OF _ i] show ?thesis
      by (auto simp: evict_stale_tool_results_def Let_def)
  qed
  have "paired dec ?e \<longleftrightarrow> paired dec ms"
    by (rule paired_cong [OF len])
      (simp add: nth clear_content_def use_ids_def result_id_def is_result_def)
  with len nth show ?thesis by blast
qed

lemma truncate_idem:
  "truncate_old_tool_results (truncate_old_tool_results ms tail n) tail n = truncate_old_tool_results ms tail n"
  by (rule nth_equalityI) (auto simp: truncate_old_tool_results_def nth_update_before)

text \<open>
  Truncating old tool results leaves the tail and the other messages alone, leaves at most the limit
  and the mark of each old result, changes nothing when repeated, and keeps all pairs.
\<close>

theorem truncate_old_exact:
  fixes tail n :: nat
  defines "t \<equiv> \<lambda>ms. truncate_old_tool_results ms tail n"
  shows "length (t ms) = length ms \<and> t (t ms) = t ms \<and> drop (length ms - tail) (t ms) = drop (length ms - tail) ms
    \<and> (paired dec (t ms) \<longleftrightarrow> paired dec ms)
    \<and> (\<forall>k < length ms - tail. is_result (ms ! k) \<longrightarrow> length (xm_content (t ms ! k)) \<le> n + 12)
    \<and> (\<forall>k < length ms. \<not> is_result (ms ! k) \<longrightarrow> t ms ! k = ms ! k)"
proof (intro conjI allI impI)
  show len: "length (t ms) = length ms" by (simp add: t_def truncate_old_tool_results_def)
  show "t (t ms) = t ms"
    by (simp add: t_def truncate_idem)
  show "drop (length ms - tail) (t ms) = drop (length ms - tail) ms"
    by (simp add: t_def truncate_old_tool_results_def update_before_def)
  show "paired dec (t ms) \<longleftrightarrow> paired dec ms"
    by (rule paired_cong [OF len]) (simp add: t_def truncate_old_tool_results_def nth_update_before)
  fix k
  assume "k < length ms - tail" "is_result (ms ! k)"
  then show "length (xm_content (t ms ! k)) \<le> n + 12"
    by (auto simp: t_def truncate_old_tool_results_def nth_update_before truncate_result_def newline_def is_result_def)
next
  fix k
  assume "k < length ms" "\<not> is_result (ms ! k)"
  then show "t ms ! k = ms ! k"
    by (simp add: t_def truncate_old_tool_results_def nth_update_before truncate_result_def is_result_def)
qed

text \<open>
  The third stage removes the calls of every message before the tail but keeps the results, so in a
  history whose results follow their calls it separates a result from its call unless no result answers a
  call made before the tail.
\<close>

theorem microcompact_orphans:
  assumes "block_history dec ms" "distinct_calls dec ms"
  shows "paired dec (microcompact ms tail) \<longleftrightarrow>
    (\<forall>j < length ms - tail. \<forall>i \<in> set (use_ids dec (ms ! j)). \<forall>p < length ms. result_id (ms ! p) \<noteq> Some i)"
proof -
  have res: "result_id (microcompact ms tail ! p) = result_id (ms ! p)" if "p < length ms" for p
    using that by (simp add: microcompact_def nth_update_before microcompact_message_def result_id_def Let_def)
  have use: "use_ids dec (microcompact ms tail ! p) = (if p < length ms - tail then [] else use_ids dec (ms ! p))"
    if "p < length ms" for p
    using that by (simp add: microcompact_def nth_update_before microcompact_message_def use_ids_def Let_def)
  have len: "length (microcompact ms tail) = length ms" by (simp add: microcompact_def)
  show ?thesis
  proof
    assume pr: "paired dec (microcompact ms tail)"
    show "\<forall>j < length ms - tail. \<forall>i \<in> set (use_ids dec (ms ! j)). \<forall>p < length ms. result_id (ms ! p) \<noteq> Some i"
    proof (intro allI impI ballI notI)
      fix j i p
      assume a: "j < length ms - tail" "i \<in> set (use_ids dec (ms ! j))" "p < length ms" "result_id (ms ! p) = Some i"
      with pr res len obtain k where k: "k < p" "i \<in> set (use_ids dec (microcompact ms tail ! k))"
        unfolding paired_def by metis
      with a(3) use [of k] have "\<not> k < length ms - tail" "i \<in> set (use_ids dec (ms ! k))" by (auto split: if_splits)
      with distinct_callsD [OF assms(2), of j k i] a k(1) show False by auto
    qed
  next
    assume none: "\<forall>j < length ms - tail. \<forall>i \<in> set (use_ids dec (ms ! j)). \<forall>p < length ms. result_id (ms ! p) \<noteq> Some i"
    show "paired dec (microcompact ms tail)"
      unfolding paired_def len
    proof (intro allI impI)
      fix p i
      assume p: "p < length ms" "result_id (microcompact ms tail ! p) = Some i"
      with res have r: "result_id (ms ! p) = Some i" by simp
      with block_history_paired [OF assms(1)] p(1) obtain j where j: "j < p" "i \<in> set (use_ids dec (ms ! j))"
        unfolding paired_def by blast
      with none r p(1) use [of j] show "\<exists>j < p. i \<in> set (use_ids dec (microcompact ms tail ! j))"
        by (intro exI [of _ j]) auto
    qed
  qed
qed

lemma microcompact_orphans_witness: "\<not> paired letters (microcompact sample_history 2)"
proof -
  have "\<not> (\<forall>j < length sample_history - 2. \<forall>i \<in> set (use_ids letters (sample_history ! j)).
      \<forall>p < length sample_history. result_id (sample_history ! p) \<noteq> Some i)"
  proof
    assume a: "\<forall>j < length sample_history - 2. \<forall>i \<in> set (use_ids letters (sample_history ! j)).
      \<forall>p < length sample_history. result_id (sample_history ! p) \<noteq> Some i"
    have "1 < length sample_history - 2" "''a'' \<in> set (use_ids letters (sample_history ! 1))"
      "2 < length sample_history" "result_id (sample_history ! 2) = Some ''a''" by code_simp+
    with a show False by blast
  qed
  with microcompact_orphans [OF sample_history_ok, of 2] show ?thesis by blast
qed

section \<open>Stages\<close>

text \<open>
  Verifying a compaction never relaxes it: either the messages are below the threshold of their stage
  and stay as they are, or the stage of their usage is applied to them, which is the same stage or a
  later one. The full stage is final.
\<close>

theorem verify_never_relaxes:
  assumes "verify_compaction dec cc cfg (r, Some st) sys f = Inr (r', st')"
  shows "\<exists>s. st' = Some s \<and> stage_percent st \<le> stage_percent s
    \<and> (r' = r \<and> s = st \<or> usage_stage cfg (cx_messages r) sys = st'
         \<and> reactive_compact dec cc cfg (cx_messages r) sys f = Inr (r', st'))"
proof -
  let ?used = "int (estimate_tokens (cx_messages r) + sys)"
  let ?w = "get_context_window_size (xc_model cfg) (xc_window cfg)"
  have w: "0 < ?w" by (rule window_positive)
  show ?thesis
  proof (cases "st = StageFullSummarization \<or> 100 * ?used < stage_percent st * ?w")
    case True
    then show ?thesis using assms by (auto simp: verify_compaction_def Let_def split: if_splits)
  next
    case False
    then have a: "reactive_compact dec cc cfg (cx_messages r) sys f = Inr (r', st')"
      using assms by (auto simp: verify_compaction_def Let_def)
    have stage: "\<exists>s. usage_stage cfg (cx_messages r) sys = Some s \<and> stage_percent st \<le> stage_percent s"
      using False w by (cases st) (auto simp: usage_stage_def stage_for_def)
    then obtain s where s: "usage_stage cfg (cx_messages r) sys = Some s" "stage_percent st \<le> stage_percent s"
      by blast
    with a have "st' = Some s"
      by (cases s) (auto simp: reactive_compact_def split: sum.splits)
    with a s show ?thesis by blast
  qed
qed

text \<open>
  The same stage may be applied again: truncated results that still fill three quarters of the window are
  truncated once more, without effect.
\<close>

lemma verify_repeats_stage:
  assumes "usage_stage cfg (cx_messages r) sys = Some StageToolResultTruncation"
    and "cx_messages r = truncate_old_tool_results ms (xc_tail cfg) 200"
  shows "\<exists>r'. verify_compaction dec cc cfg (r, Some StageToolResultTruncation) sys f = Inr (r', Some StageToolResultTruncation)
    \<and> cx_messages r' = cx_messages r"
proof -
  have "\<not> 100 * int (estimate_tokens (cx_messages r) + sys)
      < 75 * get_context_window_size (xc_model cfg) (xc_window cfg)"
    using assms(1) by (auto simp: usage_stage_def stage_for_def split: if_splits)
  then have "verify_compaction dec cc cfg (r, Some StageToolResultTruncation) sys f
      = reactive_compact dec cc cfg (cx_messages r) sys f"
    by (simp add: verify_compaction_def Let_def)
  also have "\<dots> = Inr (staged (cx_messages r) (truncate_old_tool_results (cx_messages r) (xc_tail cfg) 200),
      Some StageToolResultTruncation)"
    using assms(1) by (simp add: reactive_compact_def)
  finally show ?thesis
    using truncate_idem by (auto simp: staged_def assms(2))
qed

text \<open>
  The agent loop passes no summarizer: from 90 per cent on nothing is compacted, and the result still
  reports the full stage.
\<close>

lemma full_stage_without_summarizer:
  assumes "usage_stage cfg ms sys = Some StageFullSummarization"
  shows "reactive_compact dec cc cfg ms sys None = Inr (unchanged ms, Some StageFullSummarization)"
  using assms by (simp add: reactive_compact_def compact_def)

section \<open>The cut after a rejected prompt\<close>

lemma estimate_tokens_sum: "estimate_tokens ms = sum_list (map estimate_message_tokens ms)"
proof -
  have "foldl (\<lambda>t m. t + estimate_message_tokens m) n ms = n + sum_list (map estimate_message_tokens ms)" for n
    by (induction ms arbitrary: n) auto
  then show ?thesis by (simp add: estimate_tokens_def)
qed

lemma drop_for_gap_spec:
  "drop_for_gap gap acc ms \<le> length ms
   \<and> (drop_for_gap gap acc ms = length ms \<or> gap \<le> acc + estimate_tokens (take (drop_for_gap gap acc ms) ms))
   \<and> (\<forall>k < drop_for_gap gap acc ms. 0 < k \<longrightarrow> acc + estimate_tokens (take k ms) < gap)"
proof (induction gap acc ms rule: drop_for_gap.induct)
  case (2 gap acc m ms)
  show ?case
  proof (cases "gap \<le> acc + estimate_message_tokens m")
    case True
    then show ?thesis by (simp add: estimate_tokens_sum)
  next
    case False
    have "acc + estimate_tokens (take k (m # ms)) < gap"
      if k: "k < Suc (drop_for_gap gap (acc + estimate_message_tokens m) ms)" "0 < k" for k
    proof (cases k)
      case (Suc j)
      show ?thesis
      proof (cases "j = 0")
        case True
        with False Suc show ?thesis by (simp add: estimate_tokens_sum)
      next
        case j: False
        with 2 [OF False] k Suc have "acc + estimate_message_tokens m + estimate_tokens (take j ms) < gap" by auto
        with Suc show ?thesis by (simp add: estimate_tokens_sum)
      qed
    qed (use k in simp)
    with 2 [OF False] False show ?thesis by (auto simp: estimate_tokens_sum)
  qed
qed simp

text \<open>
  After a rejected prompt the oldest messages are dropped, as few as possible whose estimates reach the
  gap, never any of the tail; the cut then moves back at most to the calls of kept results. It is refused
  exactly if at most one message precedes the tail.
\<close>

theorem ptl_cut_exact:
  fixes tail gap :: nat and ms :: "ctx_message list"
  assumes "0 < gap"
  defines "d \<equiv> ptl_drop_count tail ms gap"
  shows "(compact_for_ptl_retry dec tail ms gap = None) = (length ms \<le> Suc tail)
    \<and> (Suc tail < length ms \<longrightarrow>
        0 < d \<and> d \<le> length ms - tail
        \<and> (d = length ms - tail \<or> gap \<le> estimate_tokens (take d ms))
        \<and> (\<forall>k<d. estimate_tokens (take k ms) < gap)
        \<and> compact_for_ptl_retry dec tail ms gap = Some (drop (adjust_split_for_tool_pairs dec ms d) ms)
        \<and> adjust_split_for_tool_pairs dec ms d \<le> d)"
proof -
  let ?head = "take (length ms - tail) ms"
  note spec = drop_for_gap_spec [of gap 0 ?head]
  have "length ?head = length ms - tail" by simp
  with spec have le: "drop_for_gap gap 0 ?head \<le> length ms - tail" by metis
  then have d: "d = drop_for_gap gap 0 ?head"
    using assms(1) by (simp add: d_def ptl_drop_count_def Let_def min_absorb1)
  have len: "d \<le> length ms - tail" using le by (simp add: d)
  have take: "take k ?head = take k ms" if "k \<le> d" for k using that len by (simp add: min_absorb1)
  have pos: "0 < d" if "Suc tail < length ms"
  proof -
    from that obtain m rest where "?head = m # rest" by (cases ?head) auto
    then show ?thesis by (simp add: d)
  qed
  have "estimate_tokens (take k ms) < gap" if "k < d" for k
    using spec that take [of k] assms(1) by (cases "k = 0") (auto simp: d estimate_tokens_def)
  moreover have "d = length ms - tail \<or> gap \<le> estimate_tokens (take d ms)"
    using spec take [of d] by (auto simp: d)
  moreover have "compact_for_ptl_retry dec tail ms gap =
      (if length ms \<le> Suc tail then None else Some (drop (adjust_split_for_tool_pairs dec ms d) ms))"
    using pos by (cases "Suc tail < length ms") (auto simp: compact_for_ptl_retry_def Let_def d_def [symmetric])
  ultimately show ?thesis
    using len pos adjust_split_le [of dec ms d] by simp
qed

lemma ptl_cut_exact_witness:
  "compact_for_ptl_retry letters 2 sample_history 6 = Some (drop 1 sample_history)
   \<and> ptl_drop_count 2 sample_history 6 = 2"
proof -
  have d: "ptl_drop_count 2 sample_history 6 = 2" "adjust_split_for_tool_pairs letters sample_history 2 = 1"
    "length sample_history = 5" by code_simp+
  with ptl_cut_exact [of 6 letters 2 sample_history] show ?thesis by simp
qed

section \<open>Cutting a text to a budget\<close>

text \<open>
  \<^verbatim>\<open>TruncateToTokens\<close> keeps a text within the budget, but a longer one is cut to the
  characters of the budget, marker included, which the same estimate counts as three tokens more than the
  budget.
\<close>

theorem truncate_to_tokens_overshoots:
  assumes "estimate_string_tokens content > n" "10 \<le> n"
  shows "estimate_string_tokens (truncate_to_tokens content n) = n + 3
    \<and> length (truncate_to_tokens content n) = 4 * n"
proof -
  let ?marker = "newline @ newline @ ''[... content truncated for compaction]''"
  have ml: "length ?marker = 40" by (simp add: newline_def)
  have "n < length content div 4 + 3" using assms(1) by (simp add: estimate_string_tokens_def split: if_splits)
  then have long: "\<not> length content \<le> n * 4 - length ?marker" unfolding ml using assms(2) by arith
  then have t: "truncate_to_tokens content n = take (n * 4 - length ?marker) content @ ?marker"
    using assms(1) unfolding truncate_to_tokens_def Let_def by (metis not_le)
  have len: "length (truncate_to_tokens content n) = 4 * n"
    unfolding t length_append length_take ml using long [unfolded ml] assms(2) by (simp add: newline_def)
  with assms(2) show ?thesis by (simp add: estimate_string_tokens_def)
qed

section \<open>The circuit breaker\<close>

datatype compact_event = CompactSucceeded string | CompactFailed | TurnDone | TrackingReset

fun track :: "compact_tracking \<Rightarrow> compact_event \<Rightarrow> compact_tracking" where
  "track t (CompactSucceeded u) = record_compact_success u t"
| "track t CompactFailed = record_compact_failure t"
| "track t TurnDone = record_turn_after_compact t"
| "track t TrackingReset = reset_tracking t"

text \<open>The events, latest first, up to the last success or reset.\<close>

definition since_restart :: "compact_event list \<Rightarrow> compact_event list" where
  "since_restart es = takeWhile (\<lambda>e. e = CompactFailed \<or> e = TurnDone) (rev es)"

definition restarted_by :: "compact_event list \<Rightarrow> compact_event option" where
  "restarted_by es = find (\<lambda>e. e \<noteq> CompactFailed \<and> e \<noteq> TurnDone) (rev es)"

text \<open>
  The tracking of compactions is the history since the last success or reset: the failures in it, the
  turns in it if it began with a success, and that success's identifier. The circuit is open exactly from the
  third failure since then.
\<close>

theorem tracking_is_history:
  "foldl track new_tracking es =
     \<lparr>ct_compacted = (\<exists>u. restarted_by es = Some (CompactSucceeded u)),
      ct_turns = (case restarted_by es of Some (CompactSucceeded u) \<Rightarrow> length (filter ((=) TurnDone) (since_restart es)) | _ \<Rightarrow> 0),
      ct_turn_id = (case restarted_by es of Some (CompactSucceeded u) \<Rightarrow> u | _ \<Rightarrow> []),
      ct_failures = length (filter ((=) CompactFailed) (since_restart es))\<rparr>
   \<and> compact_circuit_open (foldl track new_tracking es)
       = (3 \<le> length (filter ((=) CompactFailed) (since_restart es)))"
  (is "?A \<and> ?B")
proof
  show ?A
  proof (induction es rule: rev_induct)
    case Nil
    then show ?case by (simp add: new_tracking_def restarted_by_def since_restart_def)
  next
    case (snoc e es)
    then show ?case
      by (cases e)
        (auto simp: restarted_by_def since_restart_def record_compact_success_def record_compact_failure_def
          record_turn_after_compact_def reset_tracking_def new_tracking_def split: option.splits compact_event.splits)
  qed
  then show ?B by (simp add: compact_circuit_open_def)
qed

end
