(* ===== verification/Coordinator.thy ===== *)
theory Coordinator
  imports GoStrings "HOL-Library.AList"
begin

text \<open>
  The shared state of a coordinator and its workers, \<^verbatim>\<open>src/internal/domain/chat/agentic/coordinator.go\<close>, with the table of
  tasks it writes through to and reads back after a restart (\<^verbatim>\<open>src/internal/domain/chat/task/repository.go\<close>), and the
  tools a worker gets. Go maps are association lists; what the code returns in the order of a map is a set for its
  callers. New identifiers and the time are arguments, and so is whether the database takes a write.
\<close>

section \<open>State\<close>

datatype task_status = TaskPending | TaskInProgress | TaskCompleted | TaskFailed

record co_task =
  kt_id :: string
  kt_description :: string
  kt_assigned :: string
  kt_status :: task_status
  kt_phase :: string
  kt_depends :: "string list"
  kt_created :: nat
  kt_completed :: "nat option"

record worker_identity =
  wi_id :: string
  wi_name :: string
  wi_team :: string
  wi_role :: string

record task_notification =
  tn_worker_id :: string
  tn_worker_name :: string
  tn_task_id :: string
  tn_status :: task_status
  tn_summary :: string
  tn_findings :: string
  tn_error :: "string option"
  tn_timestamp :: nat

text \<open>The tables: the rows of tasks with their session, in the order they were inserted, and the notifications.\<close>

record task_db =
  db_tasks :: "(string \<times> co_task) list"
  db_notes :: "(string \<times> task_notification) list"

record coordinator =
  co_tasks :: "(string \<times> co_task) list"
  co_workers :: "(string \<times> worker_identity) list"
  co_notes :: "task_notification list"
  co_session :: string
  co_repo :: bool

definition new_coordinator :: coordinator where
  "new_coordinator = \<lparr>co_tasks = [], co_workers = [], co_notes = [], co_session = [], co_repo = False\<rparr>"

definition with_repository :: "string \<Rightarrow> coordinator \<Rightarrow> coordinator" where
  "with_repository session s = s\<lparr>co_repo := True, co_session := session\<rparr>"

abbreviation task_of :: "coordinator \<Rightarrow> string \<Rightarrow> co_task option" where
  "task_of s \<equiv> map_of (co_tasks s)"

section \<open>The tables\<close>

text \<open>An insert of an existing identifier does nothing; an update of a missing one changes no row.\<close>

definition db_create_task :: "string \<Rightarrow> co_task \<Rightarrow> task_db \<Rightarrow> task_db" where
  "db_create_task session t db =
     (if kt_id t \<in> (kt_id \<circ> snd) ` set (db_tasks db) then db else db\<lparr>db_tasks := db_tasks db @ [(session, t)]\<rparr>)"

definition set_progress :: "task_status \<Rightarrow> string \<Rightarrow> nat option \<Rightarrow> co_task \<Rightarrow> co_task" where
  "set_progress st who completed t = t\<lparr>kt_status := st, kt_assigned := who, kt_completed := completed\<rparr>"

definition db_update_task :: "string \<Rightarrow> task_status \<Rightarrow> string \<Rightarrow> nat option \<Rightarrow> task_db \<Rightarrow> task_db" where
  "db_update_task i st who completed db =
     db\<lparr>db_tasks := map (\<lambda>(session, t). (session, if kt_id t = i then set_progress st who completed t else t)) (db_tasks db)\<rparr>"

definition db_create_note :: "string \<Rightarrow> task_notification \<Rightarrow> task_db \<Rightarrow> task_db" where
  "db_create_note i n db = (if i \<in> fst ` set (db_notes db) then db else db\<lparr>db_notes := db_notes db @ [(i, n)]\<rparr>)"

definition session_tasks :: "string \<Rightarrow> task_db \<Rightarrow> co_task list" where
  "session_tasks session db = map snd (filter (\<lambda>r. fst r = session) (db_tasks db))"

text \<open>
  One page of \<^verbatim>\<open>ListBySession\<close> and the number of all rows. The database orders by the time of creation; how it arranges equal
  times, which may differ from page to page, is the argument.
\<close>

definition page_size :: nat where
  "page_size = 200"

definition list_by_session :: "(nat \<Rightarrow> co_task list \<Rightarrow> co_task list) \<Rightarrow> string \<Rightarrow> nat \<Rightarrow> task_db \<Rightarrow> co_task list \<times> nat" where
  "list_by_session arrange session page db =
     (let ts = session_tasks session db in (take page_size (drop (page * page_size) (arrange page ts)), length ts))"

section \<open>Operations\<close>

definition persist :: "coordinator \<Rightarrow> bool \<Rightarrow> (task_db \<Rightarrow> task_db) \<Rightarrow> task_db \<Rightarrow> task_db" where
  "persist s ok f db = (if co_repo s \<and> ok then f db else db)"

definition register_worker :: "worker_identity \<Rightarrow> coordinator \<Rightarrow> coordinator" where
  "register_worker w s = s\<lparr>co_workers := AList.update (wi_id w) w (co_workers s)\<rparr>"

definition create_task ::
  "bool \<Rightarrow> string \<Rightarrow> nat \<Rightarrow> string \<Rightarrow> string \<Rightarrow> string list \<Rightarrow> coordinator \<times> task_db \<Rightarrow> coordinator \<times> task_db" where
  "create_task ok i now description phase deps c =
     (case c of (s, db) \<Rightarrow>
        let t = \<lparr>kt_id = i, kt_description = description, kt_assigned = '''', kt_status = TaskPending, kt_phase = phase,
                 kt_depends = deps, kt_created = now, kt_completed = None\<rparr>
        in (s\<lparr>co_tasks := AList.update i t (co_tasks s)\<rparr>, persist s ok (db_create_task (co_session s) t) db))"

definition assign_task :: "bool \<Rightarrow> string \<Rightarrow> string \<Rightarrow> coordinator \<times> task_db \<Rightarrow> string option \<times> coordinator \<times> task_db" where
  "assign_task ok i worker c =
     (case c of (s, db) \<Rightarrow>
        case task_of s i of
          None \<Rightarrow> (Some (''task '' @ i @ '' not found''), s, db)
        | Some t \<Rightarrow>
            (None, s\<lparr>co_tasks := AList.update i (t\<lparr>kt_assigned := worker, kt_status := TaskInProgress\<rparr>) (co_tasks s)\<rparr>,
             persist s ok (db_update_task i TaskInProgress worker None) db))"

text \<open>\<^verbatim>\<open>CompleteTask\<close> and \<^verbatim>\<open>FailTask\<close>.\<close>

definition finish_task :: "task_status \<Rightarrow> bool \<Rightarrow> string \<Rightarrow> nat \<Rightarrow> coordinator \<times> task_db \<Rightarrow> string option \<times> coordinator \<times> task_db" where
  "finish_task st ok i now c =
     (case c of (s, db) \<Rightarrow>
        case task_of s i of
          None \<Rightarrow> (Some (''task '' @ i @ '' not found''), s, db)
        | Some t \<Rightarrow>
            (None, s\<lparr>co_tasks := AList.update i (t\<lparr>kt_status := st, kt_completed := Some now\<rparr>) (co_tasks s)\<rparr>,
             persist s ok (db_update_task i st (kt_assigned t) (Some now)) db))"

definition complete_task :: "bool \<Rightarrow> string \<Rightarrow> nat \<Rightarrow> coordinator \<times> task_db \<Rightarrow> string option \<times> coordinator \<times> task_db" where
  "complete_task = finish_task TaskCompleted"

definition fail_task :: "bool \<Rightarrow> string \<Rightarrow> nat \<Rightarrow> coordinator \<times> task_db \<Rightarrow> string option \<times> coordinator \<times> task_db" where
  "fail_task = finish_task TaskFailed"

definition add_notification :: "bool \<Rightarrow> string \<Rightarrow> task_notification \<Rightarrow> coordinator \<times> task_db \<Rightarrow> coordinator \<times> task_db" where
  "add_notification ok i n c =
     (case c of (s, db) \<Rightarrow>
        (s\<lparr>co_notes := co_notes s @ [n]\<rparr>, if tn_task_id n \<noteq> '''' then persist s ok (db_create_note i n) db else db))"

definition pending_notifications :: "coordinator \<Rightarrow> task_notification list \<times> coordinator" where
  "pending_notifications s = (co_notes s, s\<lparr>co_notes := []\<rparr>)"

text \<open>A dependency that is not among the tasks is skipped.\<close>

definition deps_complete :: "coordinator \<Rightarrow> co_task \<Rightarrow> bool" where
  "deps_complete s t = list_all (\<lambda>d. case task_of s d of None \<Rightarrow> True | Some u \<Rightarrow> kt_status u = TaskCompleted) (kt_depends t)"

definition ready_tasks :: "coordinator \<Rightarrow> co_task list" where
  "ready_tasks s = filter (\<lambda>t. kt_status t = TaskPending \<and> deps_complete s t) (map snd (co_tasks s))"

definition workers :: "coordinator \<Rightarrow> worker_identity list" where
  "workers s = map snd (co_workers s)"

definition count_status :: "task_status \<Rightarrow> coordinator \<Rightarrow> nat" where
  "count_status st s = length (filter (\<lambda>t. kt_status t = st) (map snd (co_tasks s)))"

definition counted :: "task_status \<Rightarrow> string \<Rightarrow> coordinator \<Rightarrow> string" where
  "counted st label s = (let n = count_status st s in if 0 < n then '', '' @ itoa (int n) @ label else [])"

definition summary :: "coordinator \<Rightarrow> string" where
  "summary s =
     ''Tasks: '' @ itoa (int (length (co_tasks s))) @ '' total'' @ counted TaskPending '' pending'' s
     @ counted TaskInProgress '' in-progress'' s @ counted TaskCompleted '' completed'' s @ counted TaskFailed '' failed'' s
     @ ''. Workers: '' @ itoa (int (length (co_workers s)))"

section \<open>Reading the tables back\<close>

text \<open>A task in memory wins over its row.\<close>

definition add_record :: "co_task \<Rightarrow> (string \<times> co_task) list \<Rightarrow> (string \<times> co_task) list" where
  "add_record rec ts = (if map_of ts (kt_id rec) \<noteq> None then ts else AList.update (kt_id rec) rec ts)"

text \<open>
  The loop of \<^verbatim>\<open>HydrateFromRepository\<close> from a page on: \<open>fails\<close> says for which page the query fails, and the result has the
  tasks read so far in any case.
\<close>

function hydrate_pages ::
  "(nat \<Rightarrow> bool) \<Rightarrow> (nat \<Rightarrow> co_task list \<Rightarrow> co_task list) \<Rightarrow> string \<Rightarrow> task_db \<Rightarrow> nat \<Rightarrow> (string \<times> co_task) list
   \<Rightarrow> bool \<times> (string \<times> co_task) list" where
  "hydrate_pages fails arrange session db page ts =
     (if fails page then (False, ts)
      else case list_by_session arrange session page db of
             (records, n) \<Rightarrow>
               let ts' = fold add_record records ts in
               if records = [] \<or> n \<le> (page + 1) * page_size then (True, ts')
               else hydrate_pages fails arrange session db (page + 1) ts')"
  by pat_completeness auto
termination
  by (relation "measure (\<lambda>(_, _, session, db, page, _). length (session_tasks session db) - page * page_size)")
    (auto simp: list_by_session_def Let_def page_size_def)

definition hydrate ::
  "(nat \<Rightarrow> bool) \<Rightarrow> (nat \<Rightarrow> co_task list \<Rightarrow> co_task list) \<Rightarrow> task_db \<Rightarrow> coordinator \<Rightarrow> bool \<times> coordinator" where
  "hydrate fails arrange db s =
     (if \<not> co_repo s \<or> co_session s = [] then (True, s)
      else case hydrate_pages fails arrange (co_session s) db 0 (co_tasks s) of
             (ok, ts) \<Rightarrow> (ok, s\<lparr>co_tasks := ts\<rparr>))"

section \<open>A restart\<close>

datatype co_op =
  RegisterWorker worker_identity | CreateTask string nat string string "string list" | AssignTask string string
| CompleteTask string nat | FailTask string nat | AddNotification string task_notification | TakeNotifications

fun co_apply :: "co_op \<Rightarrow> coordinator \<times> task_db \<Rightarrow> coordinator \<times> task_db" where
  "co_apply (RegisterWorker w) (s, db) = (register_worker w s, db)"
| "co_apply (CreateTask i now d ph deps) c = create_task True i now d ph deps c"
| "co_apply (AssignTask i w) c = snd (assign_task True i w c)"
| "co_apply (CompleteTask i now) c = snd (complete_task True i now c)"
| "co_apply (FailTask i now) c = snd (fail_task True i now c)"
| "co_apply (AddNotification i n) c = add_notification True i n c"
| "co_apply TakeNotifications (s, db) = (snd (pending_notifications s), db)"

text \<open>
  The row of a task is the task, but for the time of completion of one that was assigned again after it was finished:
  \<^verbatim>\<open>AssignTask\<close> clears it in the table and keeps it in memory.
\<close>

definition row_view :: "co_task \<Rightarrow> co_task" where
  "row_view t = (if kt_status t = TaskInProgress then t\<lparr>kt_completed := None\<rparr> else t)"

lemma row_view_simps [simp]:
  "kt_id (row_view t) = kt_id t" "kt_status (row_view t) = kt_status t" "kt_depends (row_view t) = kt_depends t"
  "kt_created (row_view t) = kt_created t" "kt_assigned (row_view t) = kt_assigned t"
  by (simp_all add: row_view_def)

definition mirrored :: "coordinator \<Rightarrow> task_db \<Rightarrow> bool" where
  "mirrored s db \<longleftrightarrow>
     co_repo s \<and> session_tasks (co_session s) db = map (row_view \<circ> snd) (co_tasks s)
     \<and> distinct (map fst (co_tasks s)) \<and> (\<forall>(k, t) \<in> set (co_tasks s). kt_id t = k)
     \<and> distinct (map (kt_id \<circ> snd) (db_tasks db)) \<and> sorted_wrt (<) (map (kt_created \<circ> snd) (co_tasks s))"

lemma update_in_place:
  "distinct (map fst al) \<Longrightarrow> k \<in> fst ` set al \<Longrightarrow> AList.update k v al = map (\<lambda>p. if fst p = k then (k, v) else p) al"
proof (induction al)
  case (Cons p al)
  show ?case
  proof (cases "fst p = k")
    case True
    with Cons.prems have "k \<notin> fst ` set al" by auto
    then have "map (\<lambda>p. if fst p = k then (k, v) else p) al = al" by (intro map_idI) (auto simp: image_iff)
    with True show ?thesis by (cases p) simp
  next
    case False
    with Cons show ?thesis by (cases p) auto
  qed
qed simp

lemma update_append: "k \<notin> fst ` set al \<Longrightarrow> AList.update k v al = al @ [(k, v)]"
  by (induction al) auto

lemma session_tasks_update:
  "session_tasks session (db_update_task i st w c db) = map (\<lambda>t. if kt_id t = i then set_progress st w c t else t) (session_tasks session db)"
  by (auto simp: session_tasks_def db_update_task_def filter_map o_def case_prod_unfold intro!: map_cong filter_cong)

lemma ids_update:
  "map (kt_id \<circ> snd) (db_tasks (db_update_task i st w c db)) = map (kt_id \<circ> snd) (db_tasks db)"
  by (simp add: db_update_task_def case_prod_unfold set_progress_def)

text \<open>Every change of a task is written to its row.\<close>

lemma mirrored_change:
  assumes m: "mirrored s db" and old: "task_of s i = Some t"
    and t': "kt_id t' = kt_id t" "kt_created t' = kt_created t" "row_view t' = set_progress st w c (row_view t)"
  shows "mirrored (s\<lparr>co_tasks := AList.update i t' (co_tasks s)\<rparr>) (db_update_task i st w c db)"
proof -
  have keys: "distinct (map fst (co_tasks s))" "\<And>k u. (k, u) \<in> set (co_tasks s) \<Longrightarrow> kt_id u = k"
    using m by (auto simp: mirrored_def)
  have i: "(i, t) \<in> set (co_tasks s)" using old by (rule map_of_SomeD)
  then have up: "AList.update i t' (co_tasks s) = map (\<lambda>p. if fst p = i then (i, t') else p) (co_tasks s)"
    using keys(1) by (intro update_in_place) force+
  have only: "u = t" if "(i, u) \<in> set (co_tasks s)" for u
    using that old keys(1) by (simp add: map_of_is_SomeI)
  have "session_tasks (co_session s) (db_update_task i st w c db)
      = map (\<lambda>t. if kt_id t = i then set_progress st w c t else t) (map (row_view \<circ> snd) (co_tasks s))"
    using m unfolding session_tasks_update mirrored_def by metis
  also have "\<dots> = map (\<lambda>p. row_view (snd (if fst p = i then (i, t') else p))) (co_tasks s)"
    unfolding map_map
  proof (rule map_cong [OF refl])
    fix p assume p: "p \<in> set (co_tasks s)"
    obtain k u where ku: "p = (k, u)" by (cases p)
    with p keys(2) have "kt_id u = k" by blast
    with ku p only t'(3) show "((\<lambda>t. if kt_id t = i then set_progress st w c t else t) \<circ> (row_view \<circ> snd)) p
        = row_view (snd (if fst p = i then (i, t') else p))" by auto
  qed
  also have "\<dots> = map (row_view \<circ> snd) (AList.update i t' (co_tasks s))" unfolding up by (simp add: o_def)
  finally have rows: "session_tasks (co_session s) (db_update_task i st w c db) = map (row_view \<circ> snd) (AList.update i t' (co_tasks s))" .
  have fsts: "map fst (AList.update i t' (co_tasks s)) = map fst (co_tasks s)" unfolding up by (auto simp: o_def)
  have times: "map (kt_created \<circ> snd) (AList.update i t' (co_tasks s)) = map (kt_created \<circ> snd) (co_tasks s)"
    unfolding up using only t'(2) by (auto simp: o_def)
  have ids: "\<forall>(k, u) \<in> set (AList.update i t' (co_tasks s)). kt_id u = k"
    unfolding up using keys(2) i t'(1) by auto
  show ?thesis using m rows fsts times ids ids_update unfolding mirrored_def by simp
qed

fun created :: "co_op list \<Rightarrow> (string \<times> nat) list" where
  "created [] = []"
| "created (CreateTask i now d ph deps # ops) = (i, now) # created ops"
| "created (_ # ops) = created ops"

text \<open>New identifiers and a clock that moves on.\<close>

definition fresh_creates :: "co_op list \<Rightarrow> coordinator \<times> task_db \<Rightarrow> bool" where
  "fresh_creates ops c \<longleftrightarrow>
     distinct (map fst (created ops)) \<and> sorted_wrt (<) (map snd (created ops))
     \<and> (\<forall>(i, now) \<in> set (created ops). i \<notin> (kt_id \<circ> snd) ` set (db_tasks (snd c)) \<and> i \<notin> fst ` set (co_tasks (fst c))
          \<and> (\<forall>(k, t) \<in> set (co_tasks (fst c)). kt_created t < now))"

lemma mirrored_other:
  "mirrored s db \<Longrightarrow> co_tasks s' = co_tasks s \<Longrightarrow> co_session s' = co_session s \<Longrightarrow> co_repo s' \<Longrightarrow> db_tasks db' = db_tasks db
   \<Longrightarrow> mirrored s' db'"
  by (simp add: mirrored_def session_tasks_def)

lemma mirrored_create:
  assumes m: "mirrored s db" and i: "i \<notin> (kt_id \<circ> snd) ` set (db_tasks db)" "i \<notin> fst ` set (co_tasks s)"
    and now: "\<forall>(k, t) \<in> set (co_tasks s). kt_created t < now"
  shows "mirrored (fst (create_task True i now d ph deps (s, db))) (snd (create_task True i now d ph deps (s, db)))"
proof -
  let ?t = "\<lparr>kt_id = i, kt_description = d, kt_assigned = '''', kt_status = TaskPending, kt_phase = ph, kt_depends = deps,
    kt_created = now, kt_completed = None\<rparr>"
  have "db_create_task (co_session s) ?t db = db\<lparr>db_tasks := db_tasks db @ [(co_session s, ?t)]\<rparr>"
    using i(1) by (simp add: db_create_task_def)
  moreover have "AList.update i ?t (co_tasks s) = co_tasks s @ [(i, ?t)]" by (rule update_append [OF i(2)])
  moreover have "co_repo s" using m by (simp add: mirrored_def)
  moreover have "row_view ?t = ?t" by (simp add: row_view_def)
  ultimately show ?thesis using m i now
    by (auto simp: mirrored_def create_task_def persist_def Let_def session_tasks_def sorted_wrt_append)
qed

lemma mirrored_apply:
  assumes m: "mirrored s db" and fresh: "fresh_creates (p # ops) (s, db)"
  shows "mirrored (fst (co_apply p (s, db))) (snd (co_apply p (s, db))) \<and> fresh_creates ops (co_apply p (s, db))"
proof -
  have repo: "co_repo s" using m by (simp add: mirrored_def)
  have change: "mirrored (s\<lparr>co_tasks := AList.update i t' (co_tasks s)\<rparr>) (db_update_task i st w c db)
      \<and> fresh_creates ops (s\<lparr>co_tasks := AList.update i t' (co_tasks s)\<rparr>, db_update_task i st w c db)"
    if p: "created (p # ops) = created ops" and old: "task_of s i = Some t"
      and t': "kt_id t' = kt_id t" "kt_created t' = kt_created t" "row_view t' = set_progress st w c (row_view t)" for i t t' st w c
  proof -
    have i: "(i, t) \<in> set (co_tasks s)" using old by (rule map_of_SomeD)
    have up: "AList.update i t' (co_tasks s) = map (\<lambda>q. if fst q = i then (i, t') else q) (co_tasks s)"
      using m i by (intro update_in_place) (force simp: mirrored_def)+
    have ids: "(kt_id \<circ> snd) ` set (db_tasks (db_update_task i st w c db)) = (kt_id \<circ> snd) ` set (db_tasks db)"
      by (metis ids_update list.set_map)
    have "i \<in> fst ` set (co_tasks s)" using i by force
    then have keys: "fst ` set (AList.update i t' (co_tasks s)) = fst ` set (co_tasks s)" by (simp add: dom_update insert_absorb)
    have times: "\<forall>(k, u) \<in> set (AList.update i t' (co_tasks s)). kt_created u < now"
      if "\<forall>(k, u) \<in> set (co_tasks s). kt_created u < now" for now
      using that i t'(2) unfolding up by auto
    have old_fresh: "j \<notin> (kt_id \<circ> snd) ` set (db_tasks db) \<and> j \<notin> fst ` set (co_tasks s) \<and> (\<forall>(k, u) \<in> set (co_tasks s). kt_created u < now)"
      if "(j, now) \<in> set (created ops)" for j now
      using fresh that unfolding fresh_creates_def p by auto
    have "fresh_creates ops (s\<lparr>co_tasks := AList.update i t' (co_tasks s)\<rparr>, db_update_task i st w c db)"
      unfolding fresh_creates_def
    proof (intro conjI ballI)
      show "distinct (map fst (created ops))" "sorted_wrt (<) (map snd (created ops))"
        using fresh unfolding fresh_creates_def p by blast+
    next
      fix x assume x: "x \<in> set (created ops)"
      obtain j now where jn: "x = (j, now)" by (cases x)
      with x old_fresh [of j now] have "j \<notin> (kt_id \<circ> snd) ` set (db_tasks (db_update_task i st w c db))
          \<and> j \<notin> fst ` set (AList.update i t' (co_tasks s)) \<and> (\<forall>(k, u) \<in> set (AList.update i t' (co_tasks s)). kt_created u < now)"
        unfolding ids keys using times by blast
      then show "case x of (i', now) \<Rightarrow> i' \<notin> (kt_id \<circ> snd) ` set (db_tasks (snd (s\<lparr>co_tasks := AList.update i t' (co_tasks s)\<rparr>, db_update_task i st w c db)))
          \<and> i' \<notin> fst ` set (co_tasks (fst (s\<lparr>co_tasks := AList.update i t' (co_tasks s)\<rparr>, db_update_task i st w c db)))
          \<and> (\<forall>(k, t) \<in> set (co_tasks (fst (s\<lparr>co_tasks := AList.update i t' (co_tasks s)\<rparr>, db_update_task i st w c db))). kt_created t < now)"
        using jn by simp
    qed
    then show ?thesis using mirrored_change [OF m old t'] by blast
  qed
  show ?thesis
  proof (cases p)
    case (CreateTask i now d ph deps)
    have new: "i \<notin> (kt_id \<circ> snd) ` set (db_tasks db)" "i \<notin> fst ` set (co_tasks s)" "\<forall>(k, t) \<in> set (co_tasks s). kt_created t < now"
      using fresh CreateTask by (auto simp: fresh_creates_def)
    have "i \<notin> fst ` set (created ops)" using fresh CreateTask by (simp add: fresh_creates_def)
    then have other: "(i, b) \<notin> set (created ops)" for b by force
    have "fresh_creates ops (create_task True i now d ph deps (s, db))"
      using fresh CreateTask new repo other
      by (auto simp: fresh_creates_def create_task_def persist_def db_create_task_def Let_def update_append)
    with mirrored_create [OF m new] CreateTask show ?thesis by simp
  next
    case (AssignTask i w)
    show ?thesis
    proof (cases "task_of s i")
      case None
      with AssignTask m fresh show ?thesis by (simp add: assign_task_def fresh_creates_def)
    next
      case (Some t)
      have "row_view (t\<lparr>kt_assigned := w, kt_status := TaskInProgress\<rparr>) = set_progress TaskInProgress w None (row_view t)"
        by (simp add: row_view_def set_progress_def)
      with change [OF _ Some, of "t\<lparr>kt_assigned := w, kt_status := TaskInProgress\<rparr>" TaskInProgress w None] AssignTask Some repo
      show ?thesis by (simp add: assign_task_def persist_def)
    qed
  next
    case (CompleteTask i now)
    show ?thesis
    proof (cases "task_of s i")
      case None
      with CompleteTask m fresh show ?thesis by (simp add: complete_task_def finish_task_def fresh_creates_def)
    next
      case (Some t)
      have "row_view (t\<lparr>kt_status := TaskCompleted, kt_completed := Some now\<rparr>) = set_progress TaskCompleted (kt_assigned t) (Some now) (row_view t)"
        by (simp add: row_view_def set_progress_def)
      with change [OF _ Some, of "t\<lparr>kt_status := TaskCompleted, kt_completed := Some now\<rparr>" TaskCompleted "kt_assigned t" "Some now"] CompleteTask Some repo
      show ?thesis by (simp add: complete_task_def finish_task_def persist_def)
    qed
  next
    case (FailTask i now)
    show ?thesis
    proof (cases "task_of s i")
      case None
      with FailTask m fresh show ?thesis by (simp add: fail_task_def finish_task_def fresh_creates_def)
    next
      case (Some t)
      have "row_view (t\<lparr>kt_status := TaskFailed, kt_completed := Some now\<rparr>) = set_progress TaskFailed (kt_assigned t) (Some now) (row_view t)"
        by (simp add: row_view_def set_progress_def)
      with change [OF _ Some, of "t\<lparr>kt_status := TaskFailed, kt_completed := Some now\<rparr>" TaskFailed "kt_assigned t" "Some now"] FailTask Some repo
      show ?thesis by (simp add: fail_task_def finish_task_def persist_def)
    qed
  next
    case (RegisterWorker w)
    have "mirrored (register_worker w s) db" by (rule mirrored_other [OF m]) (simp_all add: register_worker_def repo)
    then show ?thesis using RegisterWorker fresh by (simp add: fresh_creates_def register_worker_def)
  next
    case (AddNotification i n)
    have "db_tasks (snd (add_notification True i n (s, db))) = db_tasks db"
      by (simp add: add_notification_def persist_def db_create_note_def)
    moreover have "mirrored (fst (add_notification True i n (s, db))) (snd (add_notification True i n (s, db)))"
      by (rule mirrored_other [OF m]) (simp_all add: add_notification_def persist_def db_create_note_def repo)
    ultimately show ?thesis using AddNotification fresh by (simp add: fresh_creates_def add_notification_def)
  next
    case TakeNotifications
    have "mirrored (snd (pending_notifications s)) db" by (rule mirrored_other [OF m]) (simp_all add: pending_notifications_def repo)
    then show ?thesis using TakeNotifications fresh by (simp add: fresh_creates_def pending_notifications_def)
  qed
qed

lemma mirrored_run:
  "mirrored s db \<Longrightarrow> fresh_creates ops (s, db)
   \<Longrightarrow> mirrored (fst (fold co_apply ops (s, db))) (snd (fold co_apply ops (s, db)))"
proof (induction ops arbitrary: s db)
  case (Cons p ops)
  obtain s' db' where c: "co_apply p (s, db) = (s', db')" by (cases "co_apply p (s, db)")
  from mirrored_apply [OF Cons.prems] c show ?case using Cons.IH [of s' db'] by simp
qed simp

text \<open>Reading the pages one after the other is reading the rows in their order.\<close>

lemma fold_pages:
  assumes "\<And>p. arrange p (session_tasks session db) = ts" and "length ts = length (session_tasks session db)"
  shows "hydrate_pages (\<lambda>_. False) arrange session db page acc = (True, fold add_record (drop (page * page_size) ts) acc)"
  using assms
proof (induction "length ts - page * page_size" arbitrary: page acc rule: less_induct)
  case less
  let ?records = "take page_size (drop (page * page_size) ts)"
  have page: "list_by_session arrange session page db = (?records, length ts)"
    using less.prems by (simp add: list_by_session_def)
  have split: "drop (page * page_size) ts = ?records @ drop ((page + 1) * page_size) ts"
    by (metis add.commute append_take_drop_id drop_drop mult_Suc Suc_eq_plus1)
  show ?case
  proof (cases "?records = [] \<or> length ts \<le> (page + 1) * page_size")
    case True
    then have "drop ((page + 1) * page_size) ts = []" by (auto simp: page_size_def)
    with split True show ?thesis
      by (subst hydrate_pages.simps) (simp only: if_False page prod.case Let_def if_True append_Nil2)
  next
    case False
    then have "length ts - (page + 1) * page_size < length ts - page * page_size" unfolding page_size_def by (simp, linarith)
    from less.hyps [OF this less.prems] False page have
      "hydrate_pages (\<lambda>_. False) arrange session db page acc
       = (True, fold add_record (drop ((page + 1) * page_size) ts) (fold add_record ?records acc))"
      by (subst hydrate_pages.simps) (simp only: if_False page prod.case Let_def)
    with split show ?thesis by (metis fold_append comp_apply)
  qed
qed

lemma add_records: "distinct (map kt_id ts) \<Longrightarrow> set (map kt_id ts) \<inter> fst ` set acc = {} \<Longrightarrow>
   fold add_record ts acc = acc @ map (\<lambda>t. (kt_id t, t)) ts"
proof (induction ts arbitrary: acc)
  case (Cons t ts)
  then have "kt_id t \<notin> fst ` set acc" by auto
  then have "add_record t acc = acc @ [(kt_id t, t)]"
    by (auto simp: add_record_def update_append map_of_eq_None_iff)
  with Cons.prems Cons.IH [of "acc @ [(kt_id t, t)]"] show ?case by auto
qed simp

lemma arranged:
  assumes "sorted (map kt_created xs)" "mset xs = mset ts" and "sorted_wrt (<) (map kt_created ts)"
  shows "xs = ts"
proof -
  have "distinct (map kt_created ts)" "sorted (map kt_created ts)" using assms(3) by (simp_all add: strict_sorted_iff)
  then have inj: "inj_on kt_created (set xs)" using assms(2) by (metis distinct_map mset_eq_setD)
  have "map kt_created xs = map kt_created ts"
    using assms(1,2) \<open>sorted (map kt_created ts)\<close> by (metis mset_map properties_for_sort)
  with inj show ?thesis using assms(2) by (metis inj_on_map_eq_map mset_eq_setD sup.idem)
qed

text \<open>
  C30: after any sequence of operations that the database took, in a session that had no tasks before, a coordinator for the same
  (not empty) session identifier that starts anew reads back exactly the tasks, in the order of creation and through as many
  pages as it takes, each with its description, phase, dependencies, owner, status and times, except that the time of completion
  is lost for a task that was assigned again after it had ended; so the same tasks are ready. The notifications and the workers are not
  read back: both are empty. The identifiers of tasks are assumed to be new and the clock to move between two creations: the
  query orders by time only, so rows of equal time may be arranged anew for each page.
\<close>

theorem restart_recovers_tasks:
  assumes "session_tasks session db = []" and "distinct (map (kt_id \<circ> snd) (db_tasks db))" and "session \<noteq> []"
    and "fresh_creates ops (with_repository session new_coordinator, db)"
    and "fold co_apply ops (with_repository session new_coordinator, db) = (s, db')"
    and "\<And>p ts. mset (arrange p ts) = mset ts \<and> sorted (map kt_created (arrange p ts))"
  shows "\<exists>s'. hydrate (\<lambda>_. False) arrange db' (with_repository (co_session s) new_coordinator) = (True, s')
    \<and> co_tasks s' = map (\<lambda>(k, t). (k, row_view t)) (co_tasks s) \<and> ready_tasks s' = ready_tasks s
    \<and> co_notes s' = [] \<and> co_workers s' = []"
proof -
  let ?s0 = "with_repository session new_coordinator"
  have "mirrored ?s0 db" using assms(1,2) by (simp add: mirrored_def with_repository_def new_coordinator_def)
  from mirrored_run [OF this assms(4)] assms(5) have m: "mirrored s db'" by simp
  have "co_session (fst (fold co_apply ops c)) = co_session (fst c)" for c
  proof (induction ops arbitrary: c)
    case (Cons p ops)
    have "co_session (fst (co_apply p c)) = co_session (fst c)"
      by (cases p; cases c)
        (auto simp: register_worker_def create_task_def assign_task_def complete_task_def fail_task_def finish_task_def
          add_notification_def pending_notifications_def Let_def split: option.splits)
    with Cons show ?case by simp
  qed simp
  from this [of "(?s0, db)"] assms(5) have session: "co_session s = session" by (simp add: with_repository_def)
  let ?ts = "session_tasks session db'"
  have rows: "?ts = map (row_view \<circ> snd) (co_tasks s)" and keys: "\<forall>(k, t) \<in> set (co_tasks s). kt_id t = k" "distinct (map fst (co_tasks s))"
    and times: "sorted_wrt (<) (map (kt_created \<circ> snd) (co_tasks s))"
    using m session by (simp_all add: mirrored_def)
  have "map kt_created ?ts = map (kt_created \<circ> snd) (co_tasks s)" by (simp add: rows)
  with times have "sorted_wrt (<) (map kt_created ?ts)" by simp
  then have arr: "arrange p ?ts = ?ts" for p by (intro arranged) (use assms(6) in auto)
  have "map kt_id ?ts = map fst (co_tasks s)" unfolding rows using keys(1) by (auto intro!: map_cong)
  then have "fold add_record ?ts [] = map (\<lambda>t. (kt_id t, t)) ?ts" using keys(2) by (simp add: add_records)
  also have "\<dots> = map (\<lambda>(k, t). (k, row_view t)) (co_tasks s)" unfolding rows using keys(1) by (auto intro!: map_cong)
  finally have read: "hydrate_pages (\<lambda>_. False) arrange session db' 0 [] = (True, map (\<lambda>(k, t). (k, row_view t)) (co_tasks s))"
    using fold_pages [of arrange session db' ?ts 0 "[]"] arr by simp
  let ?s' = "(with_repository session new_coordinator)\<lparr>co_tasks := map (\<lambda>(k, t). (k, row_view t)) (co_tasks s)\<rparr>"
  have h: "hydrate (\<lambda>_. False) arrange db' (with_repository (co_session s) new_coordinator) = (True, ?s')"
    using assms(3) read by (simp add: hydrate_def session with_repository_def new_coordinator_def)
  have "task_of ?s' d = map_option row_view (task_of s d)" for d by (simp add: map_of_map)
  then have deps: "deps_complete ?s' t = deps_complete s t" "deps_complete ?s' (row_view t) = deps_complete s t" for t
    by (auto simp: deps_complete_def list_all_iff split: option.splits)
  have "ready_tasks ?s' = map row_view (filter (\<lambda>t. kt_status t = TaskPending \<and> deps_complete s t) (map snd (co_tasks s)))"
    unfolding ready_tasks_def using deps by (simp add: filter_map o_def case_prod_unfold)
  also have "\<dots> = ready_tasks s" unfolding ready_tasks_def by (rule map_idI) (auto simp: row_view_def)
  finally show ?thesis using h by (auto simp: with_repository_def new_coordinator_def)
qed

text \<open>A run with a restart: one task completed, assigned again, and one that waits for it.\<close>

definition sample_ops :: "co_op list" where
  "sample_ops =
     [CreateTask ''t1'' 1 ''look'' ''research'' [], CreateTask ''t2'' 2 ''build'' ''implementation'' [''t1''], AssignTask ''t1'' ''w1'',
      CompleteTask ''t1'' 5, AssignTask ''t1'' ''w2'']"

theorem restart_recovers_tasks_witness:
  "\<exists>s'. hydrate (\<lambda>_. False) (\<lambda>_. sort_key kt_created) (snd (fold co_apply sample_ops (with_repository ''s'' new_coordinator, \<lparr>db_tasks = [], db_notes = []\<rparr>)))
       (with_repository ''s'' new_coordinator) = (True, s')
     \<and> map (\<lambda>(k, t). (k, kt_status t, kt_assigned t, kt_completed t)) (co_tasks s')
       = [(''t1'', TaskInProgress, ''w2'', None), (''t2'', TaskPending, '''', None)]
     \<and> ready_tasks s' = []"
proof -
  let ?c = "(with_repository ''s'' new_coordinator, \<lparr>db_tasks = [], db_notes = []\<rparr>)"
  obtain s db' where c: "fold co_apply sample_ops ?c = (s, db')" by (cases "fold co_apply sample_ops ?c")
  have fresh: "fresh_creates sample_ops ?c"
    by (simp add: fresh_creates_def sample_ops_def with_repository_def new_coordinator_def)
  have s: "s = fst (fold co_apply sample_ops ?c)" "db' = snd (fold co_apply sample_ops ?c)" using c by simp_all
  have tasks: "map (\<lambda>(k, t). (k, kt_status t, kt_assigned t, kt_completed (row_view t))) (co_tasks s)
      = [(''t1'', TaskInProgress, ''w2'', None), (''t2'', TaskPending, '''', None)]"
    "ready_tasks s = []" "co_session s = ''s''"
    unfolding s by code_simp+
  obtain s' where s': "hydrate (\<lambda>_. False) (\<lambda>_. sort_key kt_created) db' (with_repository (co_session s) new_coordinator) = (True, s')"
    "co_tasks s' = map (\<lambda>(k, t). (k, row_view t)) (co_tasks s)" "ready_tasks s' = ready_tasks s"
    using restart_recovers_tasks [OF _ _ _ fresh c, of "\<lambda>_. sort_key kt_created"] by (auto simp: session_tasks_def)
  have "map (\<lambda>(k, t). (k, kt_status t, kt_assigned t, kt_completed t)) (co_tasks s')
      = map (\<lambda>(k, t). (k, kt_status t, kt_assigned t, kt_completed (row_view t))) (co_tasks s)"
    unfolding s'(2) by (simp add: o_def case_prod_unfold)
  with s' tasks s(2) show ?thesis by (intro exI [of _ s']) simp
qed

text \<open>
  Without a clock that moves the pages may overlap: the database arranges the rows anew for the second page and the last
  of them is never read.
\<close>

lemma ties_lose_tasks:
  assumes ts: "session_tasks session db = ts" "length ts = 201" "distinct (map kt_id ts)"
  defines "arrange \<equiv> (\<lambda>(p::nat) xs. if p = 0 then xs else rev xs)"
  shows "map snd (snd (hydrate_pages (\<lambda>_. False) arrange session db 0 [])) = butlast ts"
proof -
  obtain t us where us: "ts = t # us" using ts(2) by (cases ts) auto
  have p0: "list_by_session arrange session 0 db = (butlast ts, 201)"
    using ts by (simp add: list_by_session_def arrange_def page_size_def butlast_conv_take)
  have p1: "list_by_session arrange session 1 db = ([t], 201)"
    using ts us by (simp add: list_by_session_def arrange_def page_size_def)
  have "set (butlast ts) \<subseteq> set ts" by (meson in_set_butlastD subsetI)
  have dist: "distinct (map kt_id (butlast ts))" using ts(3) by (simp add: map_butlast distinct_butlast)
  then have f0: "fold add_record (butlast ts) [] = map (\<lambda>t. (kt_id t, t)) (butlast ts)" by (simp add: add_records)
  have first: "t \<in> set (butlast ts)" using us ts(2) by auto
  then have "map_of (map (\<lambda>t. (kt_id t, t)) (butlast ts)) (kt_id t) \<noteq> None"
    by (auto simp: map_of_eq_None_iff image_iff)
  then have f1: "fold add_record [t] (map (\<lambda>t. (kt_id t, t)) (butlast ts)) = map (\<lambda>t. (kt_id t, t)) (butlast ts)"
    by (auto simp: add_record_def)
  have "butlast ts \<noteq> []" using us ts(2) by auto
  then have "hydrate_pages (\<lambda>_. False) arrange session db 0 [] = (True, map (\<lambda>t. (kt_id t, t)) (butlast ts))"
    using p0 p1 f0 f1 by (subst hydrate_pages.simps) (simp add: page_size_def)
  then show ?thesis by (simp add: o_def)
qed

section \<open>Which tasks are ready\<close>

lemma ready_tasks_iff:
  "t \<in> set (ready_tasks s) \<longleftrightarrow>
     t \<in> snd ` set (co_tasks s) \<and> kt_status t = TaskPending
     \<and> (\<forall>d\<in>set (kt_depends t). \<forall>u. task_of s d = Some u \<longrightarrow> kt_status u = TaskCompleted)"
  by (auto simp: ready_tasks_def deps_complete_def list_all_iff split: option.splits)

text \<open>A dependency that does not exist counts as complete; a task whose dependency failed is never ready.\<close>

lemma unknown_dependency_ready:
  "(k, t) \<in> set (co_tasks s) \<Longrightarrow> kt_status t = TaskPending \<Longrightarrow> \<forall>d\<in>set (kt_depends t). task_of s d = None \<Longrightarrow> t \<in> set (ready_tasks s)"
  by (force simp: ready_tasks_iff)

text \<open>A finished task can be assigned and finished again, and a task whose dependencies are open can be assigned.\<close>

lemma finished_task_assigned:
  "task_of s i = Some t \<Longrightarrow>
   \<exists>s' db'. assign_task ok i w (s, db) = (None, s', db') \<and> task_of s' i = Some (t\<lparr>kt_assigned := w, kt_status := TaskInProgress\<rparr>)"
  by (simp add: assign_task_def update_conv')

section \<open>The tools of a worker\<close>

definition async_agent_allowed_tools :: "(string \<times> bool) list" where
  "async_agent_allowed_tools =
     [(''document_search'', True), (''document-search'', True), (''http-get'', True), (''web-scraper'', True),
      (''memory_store'', True), (''memory_recall'', True), (''agent'', False)]"

definition agent_disallowed_tools :: "(string \<times> bool) list" where
  "agent_disallowed_tools = [(''ask_user'', True), (''plan_mode'', True), (''task_output'', True), (''task_stop'', True)]"

definition coordinator_mode_allowed_tools :: "(string \<times> bool) list" where
  "coordinator_mode_allowed_tools = [(''agent'', True), (''task_stop'', True), (''send_message'', True), (''tool_search'', True)]"

definition in_process_teammate_allowed_tools :: "(string \<times> bool) list" where
  "in_process_teammate_allowed_tools =
     [(''task_create'', True), (''task_get'', True), (''task_list'', True), (''task_update'', True), (''send_message'', True)]"

definition flagged :: "(string \<times> bool) list \<Rightarrow> string \<Rightarrow> bool" where
  "flagged m k = (map_of m k = Some True)"

definition filter_tools_for_worker :: "string list \<Rightarrow> (string \<times> bool) list option \<Rightarrow> string list" where
  "filter_tools_for_worker available overrides =
     (let allowed = (case overrides of None \<Rightarrow> async_agent_allowed_tools | Some m \<Rightarrow> m)
      in filter (\<lambda>t. \<not> flagged agent_disallowed_tools t \<and> flagged allowed t) available)"

definition resolve_worker_tools :: "string list \<Rightarrow> string list \<Rightarrow> string list \<Rightarrow> string list" where
  "resolve_worker_tools available disallowed skill_allowed =
     (let worker_tools = filter_tools_for_worker available None in
      if disallowed = [] \<and> skill_allowed = [] then worker_tools
      else filter (\<lambda>t. t \<notin> set disallowed \<and> (skill_allowed \<noteq> [] \<longrightarrow> t \<in> set skill_allowed)) worker_tools)"

text \<open>Whatever is available and allowed: a worker neither starts agents nor speaks to the user.\<close>

lemma resolve_worker_tools_iff:
  "t \<in> set (resolve_worker_tools available disallowed skill_allowed) \<longleftrightarrow>
     t \<in> set available \<and> t \<notin> set disallowed \<and> (skill_allowed \<noteq> [] \<longrightarrow> t \<in> set skill_allowed)
     \<and> t \<in> {''document_search'', ''document-search'', ''http-get'', ''web-scraper'', ''memory_store'', ''memory_recall''}"
  by (auto simp: resolve_worker_tools_def filter_tools_for_worker_def flagged_def agent_disallowed_tools_def
      async_agent_allowed_tools_def Let_def split: if_splits)

end
