(* ===== verification/Cron.thy ===== *)
theory Cron
  imports GoStrings
begin

text \<open>
  The schedules of triggers, \<^verbatim>\<open>src/internal/domain/trigger/cron.go\<close>: the validation of a cron expression and the next
  run after an instant. An instant is a number of nanoseconds since the epoch; a location is the offset in seconds that holds at
  an instant.
\<close>

section \<open>Validation\<close>

text \<open>\<^verbatim>\<open>strings.Fields\<close>; the first argument is the current word, reversed.\<close>

fun fields_from :: "string \<Rightarrow> string \<Rightarrow> string list" where
  "fields_from w [] = (if w = [] then [] else [rev w])"
| "fields_from w (c # cs) =
     (if is_space c then (if w = [] then [] else [rev w]) @ fields_from [] cs else fields_from (c # w) cs)"

definition str_fields :: "string \<Rightarrow> string list" where
  "str_fields s = fields_from [] s"

record field_range =
  fr_name :: string
  fr_min :: int
  fr_max :: int

definition cron_field_ranges :: "field_range list" where
  "cron_field_ranges =
     [\<lparr>fr_name = ''minute'', fr_min = 0, fr_max = 59\<rparr>,
      \<lparr>fr_name = ''hour'', fr_min = 0, fr_max = 23\<rparr>,
      \<lparr>fr_name = ''day-of-month'', fr_min = 1, fr_max = 31\<rparr>,
      \<lparr>fr_name = ''month'', fr_min = 1, fr_max = 12\<rparr>,
      \<lparr>fr_name = ''day-of-week'', fr_min = 0, fr_max = 6\<rparr>]"

datatype cron_error =
  FieldCount nat | EmptyField | BadStep string string | BadRange string string | RangeOutOfBounds string string int int
| BadValue string string | ValueOutOfRange string int int int

definition validate_cron_field :: "string \<Rightarrow> field_range \<Rightarrow> cron_error option" where
  "validate_cron_field field r =
     (if field = ''*'' then None
      else if has_prefix field ''*/''
      then (case atoi (drop 2 field) of
              None \<Rightarrow> Some (BadStep (fr_name r) field)
            | Some n \<Rightarrow> if n < 1 then Some (BadStep (fr_name r) field) else None)
      else
        (case index_byte CHR ''-'' field of
           Some (Suc d) \<Rightarrow>
             (case (atoi (take (Suc d) field), atoi (drop (d + 2) field)) of
                (Some lo, Some hi) \<Rightarrow>
                  if lo < fr_min r \<or> fr_max r < hi \<or> hi < lo
                  then Some (RangeOutOfBounds (fr_name r) field (fr_min r) (fr_max r)) else None
              | _ \<Rightarrow> Some (BadRange (fr_name r) field))
         | _ \<Rightarrow>
             (case atoi field of
                None \<Rightarrow> Some (BadValue (fr_name r) field)
              | Some v \<Rightarrow>
                  if v < fr_min r \<or> fr_max r < v then Some (ValueOutOfRange (fr_name r) v (fr_min r) (fr_max r)) else None)))"

fun validate_fields :: "string list \<Rightarrow> field_range list \<Rightarrow> cron_error option" where
  "validate_fields (f # fs) (r # rs) =
     (if f = '''' then Some EmptyField
      else case validate_cron_field f r of Some e \<Rightarrow> Some e | None \<Rightarrow> validate_fields fs rs)"
| "validate_fields _ _ = None"

definition validate_cron :: "string \<Rightarrow> cron_error option" where
  "validate_cron expr =
     (let fields = str_fields expr
      in if length fields \<noteq> 5 then Some (FieldCount (length fields)) else validate_fields fields cron_field_ranges)"

section \<open>The next run\<close>

text \<open>\<^verbatim>\<open>fmt.Sscanf\<close> with \<^verbatim>\<open>%d\<close>: the longest signed number at the start.\<close>

definition scan_int :: "string \<Rightarrow> int option" where
  "scan_int s =
     (let neg = has_prefix s ''-'';
          digits = takeWhile is_digit (if neg \<or> has_prefix s ''+'' then tl s else s);
          v = (if neg then - int (digits_val digits) else int (digits_val digits))
      in if digits \<noteq> [] \<and> int64_ok v then Some v else None)"

definition match_field :: "string \<Rightarrow> int \<Rightarrow> bool" where
  "match_field field v =
     (if field = ''*'' then True
      else case (if has_prefix field ''*/'' then scan_int (drop 2 field) else None) of
        Some n \<Rightarrow>
          if 0 < n then v mod n = 0
          else (case scan_int field of Some exact \<Rightarrow> v = exact | None \<Rightarrow> False)
      | None \<Rightarrow> (case scan_int field of Some exact \<Rightarrow> v = exact | None \<Rightarrow> False))"

type_synonym location = "int \<Rightarrow> int"

definition minute_ns :: int where
  "minute_ns = 60 * 1000000000"

definition hour_ns :: int where
  "hour_ns = 60 * minute_ns"

definition local_minutes :: "location \<Rightarrow> int \<Rightarrow> int" where
  "local_minutes loc t = (t div 1000000000 + loc t) div 60"

definition minute_of :: "location \<Rightarrow> int \<Rightarrow> int" where
  "minute_of loc t = local_minutes loc t mod 60"

definition hour_of :: "location \<Rightarrow> int \<Rightarrow> int" where
  "hour_of loc t = local_minutes loc t div 60 mod 24"

fun cron_search :: "location \<Rightarrow> string \<Rightarrow> string \<Rightarrow> nat \<Rightarrow> int \<Rightarrow> int option" where
  "cron_search loc minute hour 0 next = None"
| "cron_search loc minute hour (Suc n) next =
     (if match_field minute (minute_of loc next) \<and> match_field hour (hour_of loc next) then Some next
      else cron_search loc minute hour n (next + minute_ns))"

definition cron_next_run :: "location \<Rightarrow> string \<Rightarrow> int \<Rightarrow> cron_error + int" where
  "cron_next_run loc expr from =
     (case validate_cron expr of
        Some e \<Rightarrow> Inl e
      | None \<Rightarrow>
          (let fields = str_fields expr;
               next = from div minute_ns * minute_ns + minute_ns
           in case cron_search loc (fields ! 0) (fields ! 1) 1440 next of
                Some t \<Rightarrow> Inr t
              | None \<Rightarrow> Inr (from + hour_ns)))"

section \<open>Valid fields match\<close>

lemma all_digits_takeWhile: "list_all is_digit s \<Longrightarrow> takeWhile is_digit (s @ t) = s @ takeWhile is_digit t"
  by (induction s) auto

lemma scan_atoi:
  assumes "atoi s = Some v" and "t = [] \<or> \<not> is_digit (hd t)"
  shows "scan_int (s @ t) = Some v"
proof -
  have stop: "takeWhile is_digit t = []" using assms(2) by (cases t) auto
  have ne: "s \<noteq> []" using assms(1) by (auto simp: atoi_def all_digits_def Let_def split: if_splits)
  then have p: "has_prefix (s @ t) [c] \<longleftrightarrow> has_prefix s [c]" "tl (s @ t) = tl s @ t" for c by (cases s; simp)+
  have d: "takeWhile is_digit (b @ t) = b" if "all_digits b" for b
    using that stop by (simp add: all_digits_takeWhile all_digits_def)
  from assms(1) show ?thesis
    by (auto simp: atoi_def scan_int_def Let_def p d all_digits_def dest: d split: if_splits)
qed

lemma valid_field_matches:
  assumes "validate_cron_field f r = None" and "fr_min r = 0" "0 \<le> fr_max r"
  shows "\<exists>v. 0 \<le> v \<and> v \<le> fr_max r \<and> match_field f v"
proof -
  have minus: "\<not> is_digit CHR ''-''" by (simp add: is_digit_def char_between_def)
  consider "f = ''*''" | (step) "f \<noteq> ''*''" "has_prefix f ''*/''" | (other) "f \<noteq> ''*''" "\<not> has_prefix f ''*/''" by blast
  then show ?thesis
  proof cases
    case 1
    then show ?thesis using assms(3) by (intro exI [of _ 0]) (simp add: match_field_def)
  next
    case step
    with assms(1) obtain n where n: "atoi (drop 2 f) = Some n" "1 \<le> n"
      by (auto simp: validate_cron_field_def split: option.splits if_splits)
    from scan_atoi [OF n(1), of "[]"] n(2) step show ?thesis using assms(3)
      by (intro exI [of _ 0]) (simp add: match_field_def)
  next
    case other
    have "\<exists>v. scan_int f = Some v \<and> 0 \<le> v \<and> v \<le> fr_max r"
    proof (cases "\<exists>d. index_byte CHR ''-'' f = Some (Suc d)")
      case True
      then obtain d where d: "index_byte CHR ''-'' f = Some (Suc d)" by blast
      with other assms(1,2) obtain lo hi where lo: "atoi (take (Suc d) f) = Some lo" "0 \<le> lo" "lo \<le> hi" "hi \<le> fr_max r"
          "atoi (drop (d + 2) f) = Some hi"
        by (auto simp: validate_cron_field_def split: option.splits if_splits)
      from index_byte_Some [OF d] have "drop (Suc d) f = CHR ''-'' # drop (d + 2) f"
        by (metis Cons_nth_drop_Suc add_2_eq_Suc')
      with scan_atoi [OF lo(1), of "drop (Suc d) f"] minus have "scan_int f = Some lo"
        by (metis append_take_drop_id list.sel(1))
      with lo show ?thesis by auto
    next
      case False
      with other assms(1) obtain v where v: "atoi f = Some v" "fr_min r \<le> v" "v \<le> fr_max r"
        by (auto simp: validate_cron_field_def split: option.splits if_splits nat.splits)
      with scan_atoi [OF v(1), of "[]"] assms(2) show ?thesis by simp
    qed
    then obtain v where "scan_int f = Some v" "0 \<le> v" "v \<le> fr_max r" by blast
    with other show ?thesis by (intro exI [of _ v]) (simp add: match_field_def)
  qed
qed

section \<open>The next run of a valid schedule\<close>

text \<open>
  What a valid field means to this parser, read off its text: a star every value, a step the multiples of its number (also
  zero, whatever the step is), a range its lower bound only, a number itself.
\<close>

definition field_means :: "string \<Rightarrow> int \<Rightarrow> bool" where
  "field_means f v \<longleftrightarrow>
     (if f = ''*'' then True
      else if has_prefix f ''*/'' then (\<exists>k. v = k * the (atoi (drop 2 f)))
      else case index_byte CHR ''-'' f of
        Some (Suc d) \<Rightarrow> atoi (take (Suc d) f) = Some v
      | _ \<Rightarrow> atoi f = Some v)"

lemma valid_field_means:
  assumes "validate_cron_field f r = None"
  shows "match_field f v \<longleftrightarrow> field_means f v"
proof -
  have minus: "\<not> is_digit CHR ''-''" by (simp add: is_digit_def char_between_def)
  consider "f = ''*''" | (step) "f \<noteq> ''*''" "has_prefix f ''*/''"
    | (range) d where "f \<noteq> ''*''" "\<not> has_prefix f ''*/''" "index_byte CHR ''-'' f = Some (Suc d)"
    | (literal) "f \<noteq> ''*''" "\<not> has_prefix f ''*/''" "\<forall>d. index_byte CHR ''-'' f \<noteq> Some (Suc d)" by blast
  then show ?thesis
  proof cases
    case 1
    then show ?thesis by (simp add: match_field_def field_means_def)
  next
    case step
    with assms obtain n where n: "atoi (drop 2 f) = Some n" "1 \<le> n"
      by (auto simp: validate_cron_field_def split: option.splits if_splits)
    have "v mod n = 0 \<longleftrightarrow> (\<exists>k. v = k * n)" by (auto simp: mod_eq_0_iff_dvd dvd_def mult.commute)
    with scan_atoi [OF n(1), of "[]"] n step show ?thesis by (simp add: match_field_def field_means_def)
  next
    case range
    with assms obtain lo where lo: "atoi (take (Suc d) f) = Some lo"
      by (auto simp: validate_cron_field_def split: option.splits if_splits)
    from index_byte_Some [OF range(3)] have "drop (Suc d) f = CHR ''-'' # drop (d + 2) f"
      by (metis Cons_nth_drop_Suc add_2_eq_Suc')
    with scan_atoi [OF lo, of "drop (Suc d) f"] minus have "scan_int f = Some lo"
      by (metis append_take_drop_id list.sel(1))
    with lo range show ?thesis by (auto simp: match_field_def field_means_def)
  next
    case literal
    with assms obtain u where u: "atoi f = Some u"
      by (auto simp: validate_cron_field_def split: option.splits if_splits nat.splits)
    from scan_atoi [OF u, of "[]"] have "match_field f v \<longleftrightarrow> v = u" using literal by (simp add: match_field_def)
    also have "\<dots> \<longleftrightarrow> field_means f v" using literal u by (auto simp: field_means_def split: option.split nat.split)
    finally show ?thesis .
  qed
qed

text \<open>An instant is due when the meaning of the minute and of the hour field holds there; the other fields say nothing.\<close>

definition cron_due :: "location \<Rightarrow> string \<Rightarrow> int \<Rightarrow> bool" where
  "cron_due loc expr t \<longleftrightarrow> field_means (str_fields expr ! 0) (minute_of loc t) \<and> field_means (str_fields expr ! 1) (hour_of loc t)"

lemma cron_search_Some:
  "cron_search loc mi ho n t = Some u \<longleftrightarrow>
     (\<exists>i<n. u = t + int i * minute_ns \<and> match_field mi (minute_of loc u) \<and> match_field ho (hour_of loc u)
        \<and> (\<forall>j<i. \<not> (match_field mi (minute_of loc (t + int j * minute_ns)) \<and> match_field ho (hour_of loc (t + int j * minute_ns)))))"
  (is "_ \<longleftrightarrow> (\<exists>i<n. ?Q n t i)")
proof (induction n arbitrary: t)
  case (Suc n)
  let ?P = "\<lambda>u. match_field mi (minute_of loc u) \<and> match_field ho (hour_of loc u)"
  have shift: "t + minute_ns + int i * minute_ns = t + int (Suc i) * minute_ns" for i by (simp add: algebra_simps)
  show ?case
  proof (cases "?P t")
    case True
    have "(\<exists>i<Suc n. u = t + int i * minute_ns \<and> ?P u \<and> (\<forall>j<i. \<not> ?P (t + int j * minute_ns))) \<longleftrightarrow> u = t"
    proof
      assume "\<exists>i<Suc n. u = t + int i * minute_ns \<and> ?P u \<and> (\<forall>j<i. \<not> ?P (t + int j * minute_ns))"
      then obtain i where i: "u = t + int i * minute_ns" "\<forall>j<i. \<not> ?P (t + int j * minute_ns)" by blast
      from True i(2) have "i = 0" by (cases i) (auto dest: spec [of _ 0])
      with i(1) show "u = t" by simp
    next
      assume "u = t"
      with True show "\<exists>i<Suc n. u = t + int i * minute_ns \<and> ?P u \<and> (\<forall>j<i. \<not> ?P (t + int j * minute_ns))"
        by (intro exI [of _ 0]) simp
    qed
    with True show ?thesis by (auto simp: conj_assoc)
  next
    case False
    have "(\<exists>i<n. u = t + int (Suc i) * minute_ns \<and> ?P u \<and> (\<forall>j<i. \<not> ?P (t + int (Suc j) * minute_ns)))
        \<longleftrightarrow> (\<exists>i<Suc n. u = t + int i * minute_ns \<and> ?P u \<and> (\<forall>j<i. \<not> ?P (t + int j * minute_ns)))" (is "?L \<longleftrightarrow> ?R")
    proof
      assume ?L
      then obtain i where "i < n" "u = t + int (Suc i) * minute_ns" "?P u" "\<forall>j<i. \<not> ?P (t + int (Suc j) * minute_ns)" by blast
      moreover from this(4) False have "\<forall>j<Suc i. \<not> ?P (t + int j * minute_ns)" by (auto simp: less_Suc_eq_0_disj)
      ultimately show ?R by (intro exI [of _ "Suc i"]) simp
    next
      assume ?R
      then obtain i where i: "i < Suc n" "u = t + int i * minute_ns" "?P u" "\<forall>j<i. \<not> ?P (t + int j * minute_ns)" by blast
      with False obtain i' where i': "i = Suc i'" by (cases i) auto
      with i(4) have "\<forall>j<i'. \<not> ?P (t + int (Suc j) * minute_ns)" by blast
      with i i' show ?L by (intro exI [of _ i']) simp
    qed
    with False Suc.IH [of "t + minute_ns"] show ?thesis by (auto simp: shift conj_assoc)
  qed
qed simp

lemma minute_pos: "0 < minute_ns"
  by (simp add: minute_ns_def)

lemma local_minutes_aligned: "local_minutes (\<lambda>_. off) (m * minute_ns) = m + off div 60"
proof -
  have "m * minute_ns div 1000000000 = 60 * m" by (simp add: minute_ns_def)
  then show ?thesis by (simp add: local_minutes_def)
qed

text \<open>Among 1440 minutes there is every minute of the day.\<close>

lemma day_has_minute:
  assumes "0 \<le> mi" "mi < 60" "0 \<le> h" "h < 24"
  shows "\<exists>i<1440. minute_of (\<lambda>_. off) ((m + int i) * minute_ns) = mi \<and> hour_of (\<lambda>_. off) ((m + int i) * minute_ns) = h"
proof -
  define l where "l = m + off div 60"
  obtain i :: nat where i: "int i = (60 * h + mi - l) mod 1440"
    by (rule that [of "nat ((60 * h + mi - l) mod 1440)"]) simp
  have "int i < 1440" unfolding i by (rule pos_mod_bound) simp
  then have less: "i < 1440" by simp
  have local: "local_minutes (\<lambda>_. off) ((m + int i) * minute_ns) = l + int i"
    by (simp add: local_minutes_aligned l_def)
  have "(l + int i) mod 1440 = (60 * h + mi) mod 1440" unfolding i mod_add_right_eq by simp
  also have "\<dots> = 60 * h + mi" using assms by (intro mod_pos_pos_trivial) simp_all
  finally have day: "(l + int i) mod 1440 = 60 * h + mi" .
  have e: "(x :: int) mod 1440 = 60 * (x div 60 mod 24) + x mod 60" for x
    using zmod_zmult2_eq [of 24 x 60] by simp
  have "(l + int i) mod 60 = (l + int i) mod 1440 mod 60" by (simp add: mod_mod_cancel)
  then have mi: "(l + int i) mod 60 = mi" unfolding day using assms(1,2) by simp
  from day e [of "l + int i"] have "60 * ((l + int i) div 60 mod 24) = 60 * h" unfolding mi by linarith
  then have "(l + int i) div 60 mod 24 = h" by simp
  with mi less show ?thesis by (intro exI [of _ i]) (simp only: minute_of_def hour_of_def local simp_thms)
qed

lemma valid_cron_fields:
  assumes "validate_cron expr = None"
  shows "validate_cron_field (str_fields expr ! 0) (cron_field_ranges ! 0) = None"
    "validate_cron_field (str_fields expr ! 1) (cron_field_ranges ! 1) = None"
proof -
  from assms have l: "length (str_fields expr) = 5" "validate_fields (str_fields expr) cron_field_ranges = None"
    by (auto simp: validate_cron_def Let_def split: if_splits)
  then obtain a b r where "str_fields expr = a # b # r" by (cases "str_fields expr"; cases "tl (str_fields expr)") auto
  with l(2) show "validate_cron_field (str_fields expr ! 0) (cron_field_ranges ! 0) = None"
    "validate_cron_field (str_fields expr ! 1) (cron_field_ranges ! 1) = None"
    by (auto simp: cron_field_ranges_def split: if_splits option.splits)
qed

lemma cron_next_run_fixed:
  assumes "validate_cron expr = None"
  shows "\<exists>t. cron_next_run (\<lambda>_. off) expr from = Inr t \<and> from < t \<and> t \<le> from + 24 * hour_ns \<and> t mod minute_ns = 0
    \<and> cron_due (\<lambda>_. off) expr t \<and> \<not> (\<exists>u. from < u \<and> u < t \<and> u mod minute_ns = 0 \<and> cron_due (\<lambda>_. off) expr u)"
proof -
  let ?loc = "\<lambda>_. off" and ?m = "from div minute_ns + 1"
  let ?mi = "str_fields expr ! 0" and ?ho = "str_fields expr ! 1"
  obtain v h where v: "0 \<le> v" "v \<le> 59" "match_field ?mi v" and h: "0 \<le> h" "h \<le> 23" "match_field ?ho h"
    using valid_field_matches [OF valid_cron_fields(1) [OF assms]] valid_field_matches [OF valid_cron_fields(2) [OF assms]]
    by (auto simp: cron_field_ranges_def)
  have due: "cron_due ?loc expr t \<longleftrightarrow> match_field ?mi (minute_of ?loc t) \<and> match_field ?ho (hour_of ?loc t)" for t
    using valid_cron_fields [OF assms] by (simp add: cron_due_def valid_field_means)
  have start: "from div minute_ns * minute_ns + minute_ns = ?m * minute_ns" by (simp add: algebra_simps)
  have step: "?m * minute_ns + int i * minute_ns = (?m + int i) * minute_ns" for i by (simp add: algebra_simps)
  obtain i where i: "i < 1440" "cron_due ?loc expr ((?m + int i) * minute_ns)"
    using day_has_minute [of v h off ?m] v h by (auto simp: due)
  define k where "k = (LEAST k. cron_due ?loc expr ((?m + int k) * minute_ns))"
  have k: "cron_due ?loc expr ((?m + int k) * minute_ns)" "k \<le> i" "\<And>j. j < k \<Longrightarrow> \<not> cron_due ?loc expr ((?m + int j) * minute_ns)"
    unfolding k_def using i(2) by (rule LeastI, auto intro: Least_le dest: not_less_Least)
  let ?t = "(?m + int k) * minute_ns"
  have "cron_search ?loc ?mi ?ho 1440 (?m * minute_ns) = Some ?t"
    unfolding cron_search_Some step using k i(1) by (intro exI [of _ k]) (auto simp: due)
  then have "cron_next_run ?loc expr from = Inr ?t"
    using assms by (simp add: cron_next_run_def Let_def start)
  moreover have split: "from = from div minute_ns * minute_ns + from mod minute_ns" by simp
  have b: "0 \<le> from mod minute_ns" "from mod minute_ns < minute_ns" using minute_pos by simp_all
  have expand: "?t = from div minute_ns * minute_ns + minute_ns + int k * minute_ns" by (simp add: algebra_simps)
  have "from < ?t"
  proof -
    have "0 \<le> int k * minute_ns" using minute_pos by simp
    with split b expand show ?thesis by linarith
  qed
  moreover have "?t \<le> from + 24 * hour_ns"
  proof -
    have "int k * minute_ns \<le> 1439 * minute_ns" using k(2) i(1) minute_pos by (intro mult_right_mono) simp_all
    moreover have "24 * hour_ns = 1440 * minute_ns" by (simp add: hour_ns_def)
    ultimately have c: "int k * minute_ns + minute_ns \<le> 24 * hour_ns" by simp
    have "from div minute_ns * minute_ns \<le> from" using split b by linarith
    from add_mono [OF this c] show ?thesis unfolding expand by (simp only: ac_simps)
  qed
  moreover have "\<not> (\<exists>u. from < u \<and> u < ?t \<and> u mod minute_ns = 0 \<and> cron_due ?loc expr u)"
  proof
    assume "\<exists>u. from < u \<and> u < ?t \<and> u mod minute_ns = 0 \<and> cron_due ?loc expr u"
    then obtain u where u: "from < u" "u < ?t" "u mod minute_ns = 0" "cron_due ?loc expr u" by (elim exE conjE)
    have "u = u div minute_ns * minute_ns + u mod minute_ns" by simp
    with u(3) obtain q where q: "u = q * minute_ns" by (metis add_0_right)
    have "from div minute_ns < q"
    proof (rule ccontr)
      assume "\<not> from div minute_ns < q"
      then have "q * minute_ns \<le> from div minute_ns * minute_ns" using minute_pos by (intro mult_right_mono) simp_all
      with split b u(1) q show False by linarith
    qed
    then obtain j where j: "q = ?m + int j" by (metis zle_iff_zadd zless_imp_add1_zle)
    have "?m + int j < ?m + int k" using u(2) minute_pos by (simp add: q j)
    then have "j < k" "u = (?m + int j) * minute_ns" by (simp_all add: q j)
    with k(3) u(4) show False by metis
  qed
  ultimately show ?thesis using k(1) by (intro exI [of _ ?t]) simp
qed

text \<open>The search looks at the offset of the minutes of the next day only.\<close>

lemma same_offset:
  assumes "loc t = loc' t"
  shows "minute_of loc t = minute_of loc' t" and "hour_of loc t = hour_of loc' t" and "cron_due loc expr t = cron_due loc' expr t"
  using assms by (simp_all add: minute_of_def hour_of_def local_minutes_def cron_due_def)

lemma cron_search_same:
  "\<forall>i<n. loc (t + int i * minute_ns) = loc' (t + int i * minute_ns) \<Longrightarrow> cron_search loc mi ho n t = cron_search loc' mi ho n t"
proof (induction n arbitrary: t)
  case (Suc n)
  have "loc (t + minute_ns + int i * minute_ns) = loc' (t + minute_ns + int i * minute_ns)" if "i < n" for i
    using Suc.prems [THEN spec, of "Suc i"] that by (simp add: distrib_right add.assoc)
  with Suc.IH have "cron_search loc mi ho n (t + minute_ns) = cron_search loc' mi ho n (t + minute_ns)" by blast
  moreover have "loc t = loc' t" using Suc.prems [THEN spec, of 0] by simp
  ultimately show ?case using same_offset(1,2) [of loc t loc'] by simp
qed simp

text \<open>
  C22: for a valid expression, and a location whose offset does not change in the 24 hours after the given instant, the next run is
  the first full minute after the instant that is due, at most 24 hours later; the search of the code always finds it, so that
  the run an hour later that the code falls back to is never used. Due means what the code makes of the fields: only the
  minute and the hour field count (the days and months of the expression are ignored), a star means every value, a step the
  multiples of its number, and so 0 for a step beyond the range, a range its lower bound alone, a number itself.
\<close>

theorem cron_next_run_exact:
  assumes "validate_cron expr = None" and "\<forall>t. from < t \<and> t \<le> from + 24 * hour_ns \<longrightarrow> loc t = off"
  shows "\<exists>t. cron_next_run loc expr from = Inr t \<and> from < t \<and> t \<le> from + 24 * hour_ns \<and> t mod minute_ns = 0
    \<and> cron_due loc expr t \<and> \<not> (\<exists>u. from < u \<and> u < t \<and> u mod minute_ns = 0 \<and> cron_due loc expr u)"
proof -
  let ?loc = "\<lambda>_. off" and ?start = "from div minute_ns * minute_ns + minute_ns"
  have split: "from = from div minute_ns * minute_ns + from mod minute_ns" "0 \<le> from mod minute_ns" "from mod minute_ns < minute_ns"
    using minute_pos by simp_all
  have "loc (?start + int i * minute_ns) = off" if "i < 1440" for i
  proof -
    have "0 \<le> int i * minute_ns" "int i * minute_ns \<le> 1439 * minute_ns"
      using minute_pos that by (auto intro: mult_right_mono)
    moreover have "24 * hour_ns = 1439 * minute_ns + minute_ns" by (simp add: hour_ns_def)
    ultimately have "from < ?start + int i * minute_ns" "?start + int i * minute_ns \<le> from + 24 * hour_ns"
      using split by linarith+
    with assms(2) show ?thesis by blast
  qed
  then have "cron_search loc mi ho 1440 ?start = cron_search ?loc mi ho 1440 ?start" for mi ho
    by (intro cron_search_same) simp
  then have same: "cron_next_run loc expr from = cron_next_run ?loc expr from"
    unfolding cron_next_run_def Let_def by (simp split: option.split)
  obtain t where t: "cron_next_run ?loc expr from = Inr t" "from < t" "t \<le> from + 24 * hour_ns" "t mod minute_ns = 0"
    "cron_due ?loc expr t" "\<not> (\<exists>u. from < u \<and> u < t \<and> u mod minute_ns = 0 \<and> cron_due ?loc expr u)"
    using cron_next_run_fixed [OF assms(1), of off "from"] by (elim exE conjE) (rule that)
  have "cron_due loc expr u = cron_due ?loc expr u" if "from < u" "u \<le> t" for u
    using assms(2) that t(3) by (intro same_offset) simp
  with t same show ?thesis by (intro exI [of _ t]) auto
qed

text \<open>A schedule for working hours, with an offset of three hours that changes a week later.\<close>

theorem cron_next_run_exact_witness:
  "validate_cron ''*/5 9-17 * * 1'' = None
   \<and> (\<exists>t. cron_next_run (\<lambda>t. if t < 168 * hour_ns then -10800 else -7200) ''*/5 9-17 * * 1'' 0 = Inr t \<and> 0 < t \<and> t \<le> 24 * hour_ns
      \<and> cron_due (\<lambda>t. if t < 168 * hour_ns then -10800 else -7200) ''*/5 9-17 * * 1'' t)"
proof -
  have v: "validate_cron ''*/5 9-17 * * 1'' = None" by code_simp
  from cron_next_run_exact [OF v, of 0 "\<lambda>t. if t < 168 * hour_ns then -10800 else -7200" "-10800"] v show ?thesis
    by (auto simp: hour_ns_def minute_ns_def)
qed

text \<open>A range that is accepted matches its lower bound only.\<close>

lemma range_matches_lower_bound:
  assumes "validate_cron_field f r = None" and "index_byte CHR ''-'' f = Some (Suc d)" and "\<not> has_prefix f ''*/''" "f \<noteq> ''*''"
  shows "\<exists>lo hi. atoi (take (Suc d) f) = Some lo \<and> atoi (drop (d + 2) f) = Some hi \<and> lo \<le> hi \<and> (\<forall>v. match_field f v \<longleftrightarrow> v = lo)"
proof -
  from assms obtain lo hi where lo: "atoi (take (Suc d) f) = Some lo" "atoi (drop (d + 2) f) = Some hi" "lo \<le> hi"
    by (auto simp: validate_cron_field_def split: option.splits if_splits)
  have minus: "\<not> is_digit CHR ''-''" by (simp add: is_digit_def char_between_def)
  from index_byte_Some [OF assms(2)] have "drop (Suc d) f = CHR ''-'' # drop (d + 2) f"
    by (metis Cons_nth_drop_Suc add_2_eq_Suc')
  with scan_atoi [OF lo(1), of "drop (Suc d) f"] minus have "scan_int f = Some lo"
    by (metis append_take_drop_id list.sel(1))
  with lo assms(3,4) show ?thesis by (auto simp: match_field_def)
qed

text \<open>The days and months of an expression have no influence.\<close>

lemma days_are_ignored:
  assumes "validate_cron e = None" "validate_cron e' = None" and "take 2 (str_fields e) = take 2 (str_fields e')"
  shows "cron_next_run loc e t = cron_next_run loc e' t"
proof -
  have "length (str_fields e) = 5" "length (str_fields e') = 5"
    using assms(1,2) by (auto simp: validate_cron_def Let_def split: if_splits)
  then have "str_fields e ! 0 = str_fields e' ! 0" "str_fields e ! 1 = str_fields e' ! 1"
    using assms(3) by (metis nth_take numeral_2_eq_2 lessI zero_less_Suc One_nat_def)+
  with assms(1,2) show ?thesis by (simp add: cron_next_run_def Let_def)
qed

lemma new_year_fires_daily:
  "validate_cron ''0 0 1 1 *'' = None"
  "cron_next_run (\<lambda>_. 0) ''0 0 1 1 *'' t = cron_next_run (\<lambda>_. 0) ''0 0 * * *'' t"
proof -
  show a: "validate_cron ''0 0 1 1 *'' = None" by code_simp
  have "validate_cron ''0 0 * * *'' = None" "take 2 (str_fields ''0 0 1 1 *'') = take 2 (str_fields ''0 0 * * *'')" by code_simp+
  from days_are_ignored [OF a this] show "cron_next_run (\<lambda>_. 0) ''0 0 1 1 *'' t = cron_next_run (\<lambda>_. 0) ''0 0 * * *'' t" .
qed

text \<open>A step beyond the range matches zero; the comment of the code says that it matches nothing.\<close>

lemma long_step_matches_zero:
  "validate_cron ''*/120 * * * *'' = None" "match_field ''*/120'' 0" "\<not> match_field ''*/120'' 30"
  by code_simp+

text \<open>Where the clock skips an hour, a daily run in that hour comes an hour after the given instant instead.\<close>

definition spring_zone :: location where
  "spring_zone t = (if t < 2 * hour_ns then 0 else 3600)"

lemma skipped_hour_falls_back: "cron_next_run spring_zone ''30 2 * * *'' 0 = Inr (0 + hour_ns)"
proof -
  have hour: "hour_of spring_zone t \<noteq> 2" if "0 \<le> t" "t \<le> 1440 * minute_ns" for t
  proof (cases "t < 2 * hour_ns")
    case True
    have "t \<le> 7199999999999" using True by (simp add: hour_ns_def minute_ns_def)
    from zdiv_mono1 [OF this, of 1000000000] have "t div 1000000000 \<le> 7199" by simp
    then have "t div 1000000000 div 60 div 60 < 2" by simp
    moreover have "0 \<le> t div 1000000000 div 60 div 60" using that(1) by (simp add: pos_imp_zdiv_nonneg_iff)
    ultimately show ?thesis using True by (simp add: hour_of_def local_minutes_def spring_zone_def)
  next
    case False
    let ?s = "t div 1000000000"
    have "7200 \<le> ?s" "?s \<le> 86400" using False that(2) by (simp_all add: hour_ns_def minute_ns_def)
    then have h: "3 \<le> (?s + 3600) div 60 div 60" "(?s + 3600) div 60 div 60 \<le> 25" by simp_all
    have "x mod 24 \<noteq> 2" if "3 \<le> x" "x \<le> 25" for x :: int using that by presburger
    from this [OF h] show ?thesis using False by (simp add: hour_of_def local_minutes_def spring_zone_def)
  qed
  have "cron_search spring_zone mi ''2'' n t = None" if "0 \<le> t" "t + int n * minute_ns \<le> 1441 * minute_ns" for mi n t
    using that
  proof (induction n arbitrary: t)
    case (Suc n)
    have "0 \<le> int n * minute_ns" by (simp add: minute_ns_def)
    then have "t \<le> 1440 * minute_ns" using Suc.prems(2) by (simp add: algebra_simps)
    with hour Suc.prems(1) have "hour_of spring_zone t \<noteq> 2" by blast
    moreover have "match_field ''2'' v \<longleftrightarrow> v = 2" for v by (simp add: match_field_def scan_int_def is_digit_def char_between_def digits_val_def digit_val_def int64_ok_def)
    moreover have "cron_search spring_zone mi ''2'' n (t + minute_ns) = None"
      using Suc.prems by (intro Suc.IH) (simp_all add: algebra_simps minute_ns_def)
    ultimately show ?case by simp
  qed simp
  from this [of minute_ns 1440 "''30''"] have "cron_search spring_zone ''30'' ''2'' 1440 minute_ns = None"
    by (simp add: minute_ns_def)
  moreover have "validate_cron ''30 2 * * *'' = None" "str_fields ''30 2 * * *'' = [''30'', ''2'', ''*'', ''*'', ''*'']" by code_simp+
  ultimately show ?thesis by (simp add: cron_next_run_def Let_def)
qed

end
