(* ===== verification/Denial.thy ===== *)
theory Denial
  imports GoStrings "HOL-Library.AList"
begin

text \<open>
  The per-run tracker of denied tool calls
  (\<^verbatim>\<open>src/internal/domain/chat/agentic/denial.go\<close>). The Go map from tool names to records is an
  association list with distinct keys; the order of Go's map iteration is unspecified, so facts
  about \<^verbatim>\<open>EscalationHints\<close> speak of the set of hints only. The mutex makes every operation
  atomic: a run of the tracker is a sequence of operations.
\<close>

section \<open>State\<close>

record denial_record =
  dr_tool_name :: string
  dr_count :: nat
  dr_escalated :: bool
  dr_last_input :: string
  dr_hint :: string

record denial_tracker =
  dt_records :: "(string \<times> denial_record) list"
  dt_threshold :: int

section \<open>Operations\<close>

definition new_denial_tracker :: "int \<Rightarrow> denial_tracker" where
  "new_denial_tracker t = \<lparr>dt_records = [], dt_threshold = (if t \<le> 0 then 3 else t)\<rparr>"

definition denial_hint :: "string \<Rightarrow> nat \<Rightarrow> string" where
  "denial_hint tool n =
     ''Tool '' @ [CHR 0x27] @ tool @ [CHR 0x27] @ '' has been denied '' @ itoa (int n)
     @ '' times. Stop attempting to use this tool and find an alternative approach, ''
     @ ''or explain to the user why this tool is needed.''"

definition fresh_record :: "string \<Rightarrow> denial_record" where
  "fresh_record tool =
     \<lparr>dr_tool_name = tool, dr_count = 0, dr_escalated = False, dr_last_input = '''', dr_hint = ''''\<rparr>"

text \<open>The first component of the result says whether this denial reached the threshold.\<close>

definition record_tool_denial :: "string \<Rightarrow> string \<Rightarrow> denial_tracker \<Rightarrow> bool \<times> denial_tracker" where
  "record_tool_denial tool input dt =
     (let r0 = (case map_of (dt_records dt) tool of None \<Rightarrow> fresh_record tool | Some r \<Rightarrow> r);
          r1 = r0\<lparr>dr_count := dr_count r0 + 1, dr_last_input := input\<rparr>
      in if dt_threshold dt \<le> int (dr_count r1) \<and> \<not> dr_escalated r1
         then (True, dt\<lparr>dt_records := AList.update tool
                 (r1\<lparr>dr_escalated := True, dr_hint := denial_hint tool (dr_count r1)\<rparr>) (dt_records dt)\<rparr>)
         else (False, dt\<lparr>dt_records := AList.update tool r1 (dt_records dt)\<rparr>))"

definition record_tool_allow :: "string \<Rightarrow> denial_tracker \<Rightarrow> denial_tracker" where
  "record_tool_allow tool dt = dt\<lparr>dt_records := AList.delete tool (dt_records dt)\<rparr>"

definition get_denial_record :: "string \<Rightarrow> denial_tracker \<Rightarrow> denial_record option" where
  "get_denial_record tool dt = map_of (dt_records dt) tool"

definition escalation_hints :: "denial_tracker \<Rightarrow> string list" where
  "escalation_hints dt =
     map dr_hint (filter (\<lambda>r. dr_escalated r \<and> dr_hint r \<noteq> []) (map snd (dt_records dt)))"

definition denied_tools :: "denial_tracker \<Rightarrow> (string \<times> nat) list" where
  "denied_tools dt = map (\<lambda>(name, r). (name, dr_count r)) (dt_records dt)"

definition total_denials :: "denial_tracker \<Rightarrow> nat" where
  "total_denials dt = sum_list (map (\<lambda>(_, r). dr_count r) (dt_records dt))"

section \<open>The abstract contract: denials since the last success\<close>

datatype denial_event = ToolDenied string string | ToolAllowed string

fun denial_step :: "denial_event \<Rightarrow> denial_tracker \<Rightarrow> denial_tracker" where
  "denial_step (ToolDenied tool input) dt = snd (record_tool_denial tool input dt)"
| "denial_step (ToolAllowed tool) dt = record_tool_allow tool dt"

definition run_denials :: "int \<Rightarrow> denial_event list \<Rightarrow> denial_tracker" where
  "run_denials t evs = foldl (\<lambda>dt e. denial_step e dt) (new_denial_tracker t) evs"

fun streak_step :: "string \<Rightarrow> denial_event \<Rightarrow> nat \<Rightarrow> nat" where
  "streak_step tool (ToolDenied m _) k = (if m = tool then Suc k else k)"
| "streak_step tool (ToolAllowed m) k = (if m = tool then 0 else k)"

definition streak :: "string \<Rightarrow> denial_event list \<Rightarrow> nat" where
  "streak tool evs = foldl (\<lambda>k e. streak_step tool e k) 0 evs"

definition effective_threshold :: "int \<Rightarrow> nat" where
  "effective_threshold t = (if t \<le> 0 then 3 else nat t)"

lemma effective_threshold_pos [simp]: "0 < effective_threshold t" "effective_threshold t \<noteq> 0"
  by (auto simp: effective_threshold_def)

text \<open>The record a tool has after \<open>k\<close> denials in a row; \<open>0\<close> denials leave no record.\<close>

definition streak_record :: "nat \<Rightarrow> string \<Rightarrow> nat \<Rightarrow> denial_record option \<Rightarrow> bool" where
  "streak_record t tool k r \<longleftrightarrow>
     (case r of None \<Rightarrow> k = 0
      | Some r \<Rightarrow> 0 < k \<and> dr_tool_name r = tool \<and> dr_count r = k \<and> dr_escalated r = (t \<le> k)
                  \<and> dr_hint r = (if t \<le> k then denial_hint tool t else ''''))"

definition denial_inv :: "int \<Rightarrow> denial_event list \<Rightarrow> denial_tracker \<Rightarrow> bool" where
  "denial_inv t evs dt \<longleftrightarrow>
     dt_threshold dt = int (effective_threshold t) \<and> distinct (map fst (dt_records dt))
     \<and> (\<forall>tool. streak_record (effective_threshold t) tool (streak tool evs) (map_of (dt_records dt) tool))"

lemma run_denials_snoc: "run_denials t (evs @ [e]) = denial_step e (run_denials t evs)"
  by (simp add: run_denials_def)

lemma streak_snoc: "streak tool (evs @ [e]) = streak_step tool e (streak tool evs)"
  by (simp add: streak_def)

lemma denial_inv_start: "denial_inv t [] (run_denials t [])"
  by (simp add: denial_inv_def run_denials_def new_denial_tracker_def streak_def streak_record_def
      effective_threshold_def)

lemma record_tool_denial_record:
  assumes "streak_record (effective_threshold t) tool k (map_of (dt_records dt) tool)"
    and "dt_threshold dt = int (effective_threshold t)"
  shows "streak_record (effective_threshold t) tool (Suc k)
           (map_of (dt_records (snd (record_tool_denial tool input dt))) tool)"
    and "fst (record_tool_denial tool input dt) \<longleftrightarrow> Suc k = effective_threshold t"
  using assms
  by (auto simp: record_tool_denial_def streak_record_def fresh_record_def update_conv Let_def le_Suc_eq
      split: option.splits if_splits)

lemma record_tool_denial_other:
  "m \<noteq> tool \<Longrightarrow> map_of (dt_records (snd (record_tool_denial m input dt))) tool = map_of (dt_records dt) tool"
  by (simp add: record_tool_denial_def update_conv Let_def)

lemma denial_inv_step [inv_intro]: "denial_inv t evs dt \<Longrightarrow> denial_inv t (evs @ [e]) (denial_step e dt)"
proof (cases e)
  case (ToolDenied m input)
  assume inv: "denial_inv t evs dt"
  have "streak_record (effective_threshold t) tool (streak tool (evs @ [e]))
          (map_of (dt_records (denial_step e dt)) tool)" for tool
    using inv record_tool_denial_record(1) [of t m "streak m evs" dt input]
    by (cases "m = tool") (auto simp: ToolDenied streak_snoc denial_inv_def record_tool_denial_other)
  then show ?thesis
    using inv by (auto simp: ToolDenied denial_inv_def record_tool_denial_def distinct_update Let_def)
next
  case (ToolAllowed m)
  assume "denial_inv t evs dt"
  then show ?thesis
    by (auto simp: ToolAllowed denial_inv_def record_tool_allow_def streak_snoc delete_conv
        distinct_delete streak_record_def)
qed

lemma run_denials_inv: "denial_inv t evs (run_denials t evs)"
  by (induction evs rule: rev_induct) (simp_all add: denial_inv_start run_denials_snoc inv_intro)

lemma denial_hint_inj: "denial_hint a n = denial_hint b n \<Longrightarrow> a = b"
  by (simp add: denial_hint_def)

lemma denial_hint_not_Nil [simp]: "denial_hint a n \<noteq> []"
  by (simp add: denial_hint_def)

lemma hints_mem:
  "denial_hint tool n \<in> set (escalation_hints dt)
     \<longleftrightarrow> (\<exists>m r. (m, r) \<in> set (dt_records dt) \<and> dr_escalated r \<and> dr_hint r = denial_hint tool n)"
proof -
  have "denial_hint tool n \<in> set (escalation_hints dt)
    \<longleftrightarrow> (\<exists>p \<in> set (dt_records dt). dr_escalated (snd p) \<and> dr_hint (snd p) = denial_hint tool n)"
    using denial_hint_not_Nil [of tool n]
    by (auto simp: escalation_hints_def image_iff dest: sym)
  then show ?thesis by force
qed

lemma hints_iff:
  assumes "denial_inv t evs dt"
  shows "denial_hint tool (effective_threshold t) \<in> set (escalation_hints dt)
           \<longleftrightarrow> effective_threshold t \<le> streak tool evs"
proof -
  let ?T = "effective_threshold t"
  have rec: "streak_record ?T n (streak n evs) (map_of (dt_records dt) n)" for n
    using assms by (simp add: denial_inv_def)
  have mem: "(n, r) \<in> set (dt_records dt) \<longleftrightarrow> map_of (dt_records dt) n = Some r" for n r
    using assms by (simp add: denial_inv_def)
  have "denial_hint tool ?T \<in> set (escalation_hints dt)
          \<longleftrightarrow> (\<exists>n r. map_of (dt_records dt) n = Some r \<and> dr_escalated r \<and> dr_hint r = denial_hint tool ?T)"
    unfolding mem [symmetric] by (rule hints_mem)
  also have "\<dots> \<longleftrightarrow> (\<exists>r. map_of (dt_records dt) tool = Some r \<and> dr_escalated r \<and> dr_hint r = denial_hint tool ?T)"
  proof -
    have "n = tool" if "map_of (dt_records dt) n = Some r" "dr_hint r = denial_hint tool ?T" for n r
      using rec [of n] that denial_hint_inj [of n ?T tool] denial_hint_not_Nil [of tool ?T]
      by (auto simp: streak_record_def split: if_splits)
    then show ?thesis by blast
  qed
  also have "\<dots> \<longleftrightarrow> ?T \<le> streak tool evs"
    using rec [of tool]
    by (auto simp: streak_record_def split: option.splits)
  finally show ?thesis .
qed

text \<open>
  After any sequence of denials and successes the tracker holds, for every tool, the number of
  denials since its last success; a further denial reports an escalation exactly when it is the
  one that reaches the threshold (so once per streak), and the escalation hint of a tool is
  offered exactly while its streak is at the threshold or beyond.
\<close>

theorem denial_tracker_streaks:
  "(case get_denial_record tool (run_denials t evs) of None \<Rightarrow> 0 | Some r \<Rightarrow> dr_count r) = streak tool evs
   \<and> fst (record_tool_denial tool input (run_denials t evs)) = (Suc (streak tool evs) = effective_threshold t)
   \<and> (denial_hint tool (effective_threshold t) \<in> set (escalation_hints (run_denials t evs)))
       = (effective_threshold t \<le> streak tool evs)"
proof -
  have inv: "denial_inv t evs (run_denials t evs)" by (rule run_denials_inv)
  then have rec: "streak_record (effective_threshold t) tool (streak tool evs)
      (map_of (dt_records (run_denials t evs)) tool)"
    and thr: "dt_threshold (run_denials t evs) = int (effective_threshold t)"
    by (simp_all add: denial_inv_def)
  have "(case get_denial_record tool (run_denials t evs) of None \<Rightarrow> 0 | Some r \<Rightarrow> dr_count r) = streak tool evs"
    using rec by (auto simp: streak_record_def get_denial_record_def split: option.splits)
  then show ?thesis
    using record_tool_denial_record(2) [OF rec thr] hints_iff [OF inv] by simp
qed

end
