(* ===== verification/Dependency.thy ===== *)
theory Dependency
  imports Utf8 "HOL-Library.AList"
begin

text \<open>
  Dependencies between packages of the registry
  (\<^verbatim>\<open>src/internal/domain/registry/dependency/service.go\<close>, \<^verbatim>\<open>entity.go\<close>, \<^verbatim>\<open>repository.go\<close>).
  The tables \<^verbatim>\<open>package_registry\<close> and \<^verbatim>\<open>package_dependency\<close> are lists of rows, the latter in the order of
  creation; the key of a new row is an argument, and an insertion that violates a constraint of the table is an error.
  Failures of the connection are not modelled. The resolver recurses on the graph: its fuel bounds the depth, and one
  more than the number of packages is shown to be enough.
\<close>

section \<open>Rows\<close>

type_synonym uuid = string

record registry_package =
  rp_name :: string
  rp_slug :: string
  rp_owner :: string

record dependency_row =
  dep_id :: uuid
  dep_package :: uuid
  dep_target :: uuid
  dep_constraint :: string

record registry =
  rg_packages :: "(uuid \<times> registry_package) list"
  rg_edges :: "dependency_row list"

datatype dependency_error =
  DepValidation string string | DepForbidden string | PackageNotFound | TargetNotFound | DepNotFound
| CreateFailed | ResolveName uuid

definition list_by_package :: "registry \<Rightarrow> uuid \<Rightarrow> dependency_row list" where
  "list_by_package rg p = filter (\<lambda>d. dep_package d = p) (rg_edges rg)"

definition create_edge :: "registry \<Rightarrow> dependency_row \<Rightarrow> (dependency_error, dependency_row \<times> registry) sum" where
  "create_edge rg d =
     (if dep_id d \<in> set (map dep_id (rg_edges rg))
         \<or> list_ex (\<lambda>e. dep_package e = dep_package d \<and> dep_target e = dep_target d) (rg_edges rg)
         \<or> map_of (rg_packages rg) (dep_package d) = None \<or> map_of (rg_packages rg) (dep_target d) = None
         \<or> 100 < char_count (dep_constraint d)
      then Inl CreateFailed
      else Inr (d, rg\<lparr>rg_edges := rg_edges rg @ [d]\<rparr>))"

definition delete_edge :: "registry \<Rightarrow> uuid \<Rightarrow> uuid \<Rightarrow> (dependency_error, registry) sum" where
  "delete_edge rg p d =
     (if list_ex (\<lambda>e. dep_package e = p \<and> dep_id e = d) (rg_edges rg)
      then Inr (rg\<lparr>rg_edges := filter (\<lambda>e. \<not> (dep_package e = p \<and> dep_id e = d)) (rg_edges rg)\<rparr>)
      else Inl DepNotFound)"

section \<open>Operations\<close>

definition add_dependency ::
  "registry \<Rightarrow> uuid \<Rightarrow> uuid \<Rightarrow> uuid \<Rightarrow> string \<Rightarrow> string \<Rightarrow> (dependency_error, dependency_row \<times> registry) sum" where
  "add_dependency rg new_id p target vc tenant =
     (if trim_space vc = [] then Inl (DepValidation ''versionConstraint'' ''version constraint is required'')
      else if target = p then Inl (DepValidation ''dependencyId'' ''a package cannot depend on itself'')
      else case map_of (rg_packages rg) p of
             None \<Rightarrow> Inl PackageNotFound
           | Some parent \<Rightarrow>
               if rp_owner parent \<noteq> tenant then Inl (DepForbidden ''not the package owner'')
               else case map_of (rg_packages rg) target of
                      None \<Rightarrow> Inl TargetNotFound
                    | Some _ \<Rightarrow>
                        create_edge rg \<lparr>dep_id = new_id, dep_package = p, dep_target = target, dep_constraint = vc\<rparr>)"

definition remove_dependency :: "registry \<Rightarrow> uuid \<Rightarrow> uuid \<Rightarrow> string \<Rightarrow> (dependency_error, registry) sum" where
  "remove_dependency rg p d tenant =
     (case map_of (rg_packages rg) p of
        None \<Rightarrow> Inl PackageNotFound
      | Some parent \<Rightarrow>
          if rp_owner parent \<noteq> tenant then Inl (DepForbidden ''not the package owner'') else delete_edge rg p d)"

section \<open>Resolution\<close>

datatype resolved_dependency =
  Resolved (rd_id: uuid) (rd_name: string) (rd_slug: string) (rd_constraint: string)
    (rd_children: "resolved_dependency list")

type_synonym 'a visiting = "((dependency_error, 'a) sum \<times> uuid list) option"

text \<open>None is a recursion deeper than the fuel; the list holds the packages visited so far, latest first.\<close>

fun resolve_node :: "nat \<Rightarrow> registry \<Rightarrow> uuid \<Rightarrow> string \<Rightarrow> uuid list \<Rightarrow> resolved_dependency visiting"
  and resolve_children :: "nat \<Rightarrow> registry \<Rightarrow> dependency_row list \<Rightarrow> uuid list \<Rightarrow> resolved_dependency list visiting" where
  "resolve_node 0 rg p vc visited = None"
| "resolve_node (Suc fuel) rg p vc visited =
     (case map_of (rg_packages rg) p of
        None \<Rightarrow> Some (Inl (ResolveName p), visited)
      | Some pkg \<Rightarrow>
          if p \<in> set visited then Some (Inr (Resolved p (rp_name pkg) (rp_slug pkg) vc []), visited)
          else (case resolve_children fuel rg (list_by_package rg p) (p # visited) of
                  None \<Rightarrow> None
                | Some (Inl e, visited') \<Rightarrow> Some (Inl e, visited')
                | Some (Inr cs, visited') \<Rightarrow>
                    Some (Inr (Resolved p (rp_name pkg) (rp_slug pkg) vc cs), visited')))"
| "resolve_children fuel rg [] visited = Some (Inr [], visited)"
| "resolve_children fuel rg (d # ds) visited =
     (case resolve_node fuel rg (dep_target d) (dep_constraint d) visited of
        None \<Rightarrow> None
      | Some (Inl e, visited') \<Rightarrow> Some (Inl e, visited')
      | Some (Inr c, visited') \<Rightarrow>
          (case resolve_children fuel rg ds visited' of
             None \<Rightarrow> None
           | Some (Inl e, visited'') \<Rightarrow> Some (Inl e, visited'')
           | Some (Inr cs, visited'') \<Rightarrow> Some (Inr (c # cs), visited'')))"

definition resolve_dependencies :: "registry \<Rightarrow> uuid \<Rightarrow> (dependency_error, resolved_dependency) sum option" where
  "resolve_dependencies rg p = map_option fst (resolve_node (Suc (length (rg_packages rg))) rg p [] [])"

section \<open>The tables stay consistent\<close>

definition registry_ok :: "registry \<Rightarrow> bool" where
  "registry_ok rg \<longleftrightarrow>
     distinct (map fst (rg_packages rg)) \<and> distinct (map dep_id (rg_edges rg))
     \<and> distinct (map (\<lambda>e. (dep_package e, dep_target e)) (rg_edges rg))
     \<and> (\<forall>e \<in> set (rg_edges rg). dep_package e \<noteq> dep_target e \<and> trim_space (dep_constraint e) \<noteq> []
          \<and> dep_package e \<in> fst ` set (rg_packages rg) \<and> dep_target e \<in> fst ` set (rg_packages rg))"

lemma add_dependency_Inr:
  "add_dependency rg new_id p target vc tenant = Inr (d, rg') \<longleftrightarrow>
     trim_space vc \<noteq> [] \<and> target \<noteq> p
     \<and> (\<exists>parent. map_of (rg_packages rg) p = Some parent \<and> rp_owner parent = tenant)
     \<and> map_of (rg_packages rg) target \<noteq> None \<and> char_count vc \<le> 100
     \<and> new_id \<notin> dep_id ` set (rg_edges rg)
     \<and> (\<forall>e \<in> set (rg_edges rg). \<not> (dep_package e = p \<and> dep_target e = target))
     \<and> d = \<lparr>dep_id = new_id, dep_package = p, dep_target = target, dep_constraint = vc\<rparr>
     \<and> rg' = rg\<lparr>rg_edges := rg_edges rg @ [d]\<rparr>"
  by (auto simp: add_dependency_def create_edge_def list_ex_iff split: option.splits if_splits)

text \<open>
  C40: only the owner changes the dependencies of a package, and every change keeps the tables consistent: both ends
  of an edge exist, no package depends on itself, no edge occurs twice, and every edge has a constraint.
\<close>

theorem dependency_edits_keep_invariant:
  assumes "registry_ok rg"
  shows "(\<forall>d rg'. add_dependency rg new_id p target vc tenant = Inr (d, rg') \<longrightarrow>
            registry_ok rg' \<and> map_option rp_owner (map_of (rg_packages rg) p) = Some tenant
            \<and> list_by_package rg' p = list_by_package rg p @ [d]
            \<and> (\<forall>q. q \<noteq> p \<longrightarrow> list_by_package rg' q = list_by_package rg q))
    \<and> (\<forall>rg'. remove_dependency rg p i tenant = Inr rg' \<longrightarrow>
            registry_ok rg' \<and> map_option rp_owner (map_of (rg_packages rg) p) = Some tenant
            \<and> list_by_package rg' p = filter (\<lambda>e. dep_id e \<noteq> i) (list_by_package rg p)
            \<and> length (rg_edges rg') + 1 = length (rg_edges rg)
            \<and> (\<forall>q. q \<noteq> p \<longrightarrow> list_by_package rg' q = list_by_package rg q))"
proof (intro conjI allI impI)
  fix d rg'
  assume a: "add_dependency rg new_id p target vc tenant = Inr (d, rg')"
  note a' = a [unfolded add_dependency_Inr]
  have "p \<in> fst ` set (rg_packages rg)" "target \<in> fst ` set (rg_packages rg)"
    using a' by (auto simp: map_of_eq_None_iff [symmetric])
  with a' assms show "registry_ok rg'" by (auto simp: registry_ok_def)
  show "map_option rp_owner (map_of (rg_packages rg) p) = Some tenant" using a' by auto
  show "list_by_package rg' p = list_by_package rg p @ [d]" using a' by (auto simp: list_by_package_def)
  show "list_by_package rg' q = list_by_package rg q" if "q \<noteq> p" for q
    using a' that by (auto simp: list_by_package_def)
next
  fix rg'
  assume a: "remove_dependency rg p i tenant = Inr rg'"
  then have rg': "rg' = rg\<lparr>rg_edges := filter (\<lambda>e. \<not> (dep_package e = p \<and> dep_id e = i)) (rg_edges rg)\<rparr>"
    and own: "map_option rp_owner (map_of (rg_packages rg) p) = Some tenant"
    and ex: "\<exists>e \<in> set (rg_edges rg). dep_package e = p \<and> dep_id e = i"
    by (auto simp: remove_dependency_def delete_edge_def list_ex_iff split: option.splits if_splits)
  show "registry_ok rg'" using assms unfolding rg' by (auto simp: registry_ok_def distinct_map_filter)
  show "map_option rp_owner (map_of (rg_packages rg) p) = Some tenant" by (rule own)
  show "list_by_package rg' p = filter (\<lambda>e. dep_id e \<noteq> i) (list_by_package rg p)"
    by (auto simp: rg' list_by_package_def intro!: filter_cong)
  show "length (rg_edges rg') + 1 = length (rg_edges rg)"
  proof -
    from ex obtain e where e: "e \<in> set (rg_edges rg)" "dep_package e = p" "dep_id e = i" by blast
    have inj: "inj_on dep_id (set (rg_edges rg))" "distinct (rg_edges rg)"
      using assms by (auto simp: registry_ok_def distinct_map)
    have "filter (\<lambda>e. \<not> (dep_package e = p \<and> dep_id e = i)) (rg_edges rg) = filter ((\<noteq>) e) (rg_edges rg)"
      using e inj(1) by (intro filter_cong) (auto dest: inj_onD)
    also have "\<dots> = remove1 e (rg_edges rg)"
      using inj(2) by (simp add: distinct_remove1_removeAll removeAll_filter_not_eq)
    finally show ?thesis using e(1) by (simp add: rg' length_remove1) (metis Suc_pred length_pos_if_in_set)
  qed
  show "list_by_package rg' q = list_by_package rg q" if "q \<noteq> p" for q
    using that by (auto simp: rg' list_by_package_def intro!: filter_cong)
qed

section \<open>Resolution terminates\<close>

lemma resolve_node_Some:
  "resolve_node (Suc fuel) rg p vc visited = Some (r, v) \<longleftrightarrow>
     map_of (rg_packages rg) p = None \<and> r = Inl (ResolveName p) \<and> v = visited
     \<or> (\<exists>pkg. map_of (rg_packages rg) p = Some pkg
          \<and> (if p \<in> set visited then r = Inr (Resolved p (rp_name pkg) (rp_slug pkg) vc []) \<and> v = visited
             else \<exists>rs. resolve_children fuel rg (list_by_package rg p) (p # visited) = Some (rs, v)
                    \<and> r = map_sum id (Resolved p (rp_name pkg) (rp_slug pkg) vc) rs))"
  by (auto split: option.splits sum.splits)

lemma resolve_children_Some:
  "resolve_children fuel rg (d # ds) visited = Some (rs, v) \<longleftrightarrow>
     (\<exists>r v1. resolve_node fuel rg (dep_target d) (dep_constraint d) visited = Some (r, v1)
        \<and> (case r of
              Inl e \<Rightarrow> rs = Inl e \<and> v = v1
            | Inr c \<Rightarrow> \<exists>rs'. resolve_children fuel rg ds v1 = Some (rs', v) \<and> rs = map_sum id (Cons c) rs'))"
  by (auto split: option.splits sum.splits)

lemma map_sum_eq_Inr:
  "map_sum id f r = Inr x \<longleftrightarrow> (\<exists>y. r = Inr y \<and> x = f y)"
  "Inr x = map_sum id f r \<longleftrightarrow> (\<exists>y. r = Inr y \<and> x = f y)"
  by (cases r; auto)+

lemmas resolve_Some = resolve_node_Some resolve_children_Some

declare resolve_node.simps(2) [simp del] resolve_children.simps(2) [simp del]

lemma resolve_visited_grows:
  "resolve_node fuel rg p vc visited = Some (r, v) \<Longrightarrow>
     set visited \<subseteq> set v \<and> set v \<subseteq> set visited \<union> fst ` set (rg_packages rg)"
  "resolve_children fuel rg ds visited = Some (rs, v) \<Longrightarrow>
     set visited \<subseteq> set v \<and> set v \<subseteq> set visited \<union> fst ` set (rg_packages rg)"
proof (induction fuel rg p vc visited and fuel rg ds visited
    arbitrary: r v and rs v rule: resolve_node_resolve_children.induct)
  case (2 fuel rg p vc visited)
  show ?case
  proof (cases "map_of (rg_packages rg) p")
    case (Some pkg)
    then have "p \<in> fst ` set (rg_packages rg)" by (force dest: map_of_SomeD)
    show ?thesis
    proof (cases "p \<in> set visited")
      case True
      with 2(2) Some show ?thesis by (simp add: resolve_node_Some)
    next
      case False
      with 2(2) Some obtain rs where "resolve_children fuel rg (list_by_package rg p) (p # visited) = Some (rs, v)"
        by (auto simp: resolve_node_Some)
      from 2(1) [OF Some False this] \<open>p \<in> fst ` set (rg_packages rg)\<close> show ?thesis by auto
    qed
  qed (use 2(2) in \<open>simp add: resolve_node_Some\<close>)
next
  case (4 fuel rg d ds visited)
  from 4(3) obtain r v1 where r: "resolve_node fuel rg (dep_target d) (dep_constraint d) visited = Some (r, v1)"
    and rest: "case r of Inl e \<Rightarrow> rs = Inl e \<and> v = v1
       | Inr c \<Rightarrow> \<exists>rs'. resolve_children fuel rg ds v1 = Some (rs', v) \<and> rs = map_sum id (Cons c) rs'"
    unfolding resolve_children_Some by blast
  show ?case
  proof (cases r)
    case (Inl e)
    with rest 4(1) [OF r] show ?thesis by simp
  next
    case (Inr c)
    with rest obtain rs' where "resolve_children fuel rg ds v1 = Some (rs', v)" by auto
    with r Inr have "set v1 \<subseteq> set v \<and> set v \<subseteq> set v1 \<union> fst ` set (rg_packages rg)" using 4(2) by blast
    with 4(1) [OF r] show ?thesis by blast
  qed
qed auto

definition unvisited :: "registry \<Rightarrow> uuid list \<Rightarrow> nat" where
  "unvisited rg visited = card (fst ` set (rg_packages rg) - set visited)"

lemma unvisited_mono: "set visited \<subseteq> set visited' \<Longrightarrow> unvisited rg visited' \<le> unvisited rg visited"
  unfolding unvisited_def by (intro card_mono) auto

lemma resolve_total:
  "unvisited rg visited < fuel \<Longrightarrow> resolve_node fuel rg p vc visited \<noteq> None"
  "unvisited rg visited < fuel \<Longrightarrow> resolve_children fuel rg ds visited \<noteq> None"
proof (induction fuel rg p vc visited and fuel rg ds visited rule: resolve_node_resolve_children.induct)
  case (2 fuel rg p vc visited)
  show ?case
  proof (cases "map_of (rg_packages rg) p")
    case (Some pkg)
    show ?thesis
    proof (cases "p \<in> set visited")
      case False
      have "p \<in> fst ` set (rg_packages rg)" using Some by (force dest: map_of_SomeD)
      with False have "unvisited rg (p # visited) < unvisited rg visited"
        unfolding unvisited_def by (intro psubset_card_mono) auto
      with 2(2) have "unvisited rg (p # visited) < fuel" by simp
      from 2(1) [OF Some False this] obtain rs v
        where "resolve_children fuel rg (list_by_package rg p) (p # visited) = Some (rs, v)" by auto
      with Some False have "\<exists>r. resolve_node (Suc fuel) rg p vc visited = Some (r, v)"
        by (auto simp: resolve_node_Some)
      then show ?thesis by blast
    qed (use Some in \<open>simp add: resolve_node.simps(2)\<close>)
  qed (simp add: resolve_node.simps(2))
next
  case (4 fuel rg d ds visited)
  from 4(1) [OF 4(3)] obtain r v where r: "resolve_node fuel rg (dep_target d) (dep_constraint d) visited = Some (r, v)"
    by auto
  have "unvisited rg v < fuel"
    using 4(3) unvisited_mono [of visited v rg] resolve_visited_grows(1) [OF r] by auto
  show ?case
  proof (cases r)
    case (Inl e)
    with r have "resolve_children fuel rg (d # ds) visited = Some (Inl e, v)"
      by (simp add: resolve_children_Some)
    then show ?thesis by simp
  next
    case (Inr c)
    with 4(2) r \<open>unvisited rg v < fuel\<close> obtain rs w where "resolve_children fuel rg ds v = Some (rs, w)" by fastforce
    with r Inr have "\<exists>rs. resolve_children fuel rg (d # ds) visited = Some (rs, w)"
      by (auto simp: resolve_children_Some)
    then show ?thesis by blast
  qed
qed auto

section \<open>The tree is the reachable part of the graph\<close>

definition depends_on :: "registry \<Rightarrow> uuid \<Rightarrow> uuid \<Rightarrow> bool" where
  "depends_on rg p q = (\<exists>d \<in> set (list_by_package rg p). dep_target d = q)"

abbreviation reaches :: "registry \<Rightarrow> uuid \<Rightarrow> uuid \<Rightarrow> bool" where
  "reaches rg \<equiv> (depends_on rg)\<^sup>*\<^sup>*"

fun tree_nodes :: "resolved_dependency \<Rightarrow> uuid list" where
  "tree_nodes (Resolved p n s vc cs) = p # concat (map tree_nodes cs)"

text \<open>Each node carries its package's data, and is either not expanded or has the direct dependencies below it.\<close>

fun tree_ok :: "registry \<Rightarrow> resolved_dependency \<Rightarrow> bool" where
  "tree_ok rg (Resolved p n s vc cs) \<longleftrightarrow>
     map_option (\<lambda>pkg. (rp_name pkg, rp_slug pkg)) (map_of (rg_packages rg) p) = Some (n, s)
     \<and> (cs = [] \<or> map (\<lambda>c. (rd_id c, rd_constraint c)) cs
                 = map (\<lambda>d. (dep_target d, dep_constraint d)) (list_by_package rg p))
     \<and> list_all (tree_ok rg) cs"

definition expanded :: "uuid list \<Rightarrow> uuid list \<Rightarrow> uuid set" where
  "expanded visited v = set v - set visited"

definition degree :: "registry \<Rightarrow> uuid \<Rightarrow> nat" where
  "degree rg p = length (list_by_package rg p)"

text \<open>The invariant of the search: what it visits is reachable, and all below what it visited has been visited.\<close>

definition search_step :: "registry \<Rightarrow> uuid set \<Rightarrow> uuid list \<Rightarrow> uuid list \<Rightarrow> nat \<Rightarrow> uuid list \<Rightarrow> bool" where
  "search_step rg roots visited v extra nodes \<longleftrightarrow>
     set visited \<subseteq> set v \<and> roots \<subseteq> set v
     \<and> (\<forall>q \<in> expanded visited v. \<exists>r \<in> roots. reaches rg r q)
     \<and> (\<forall>q \<in> expanded visited v. \<forall>q'. depends_on rg q q' \<longrightarrow> q' \<in> set v)
     \<and> set nodes \<subseteq> set v \<and> expanded visited v \<subseteq> set nodes
     \<and> length nodes = extra + (\<Sum>q \<in> expanded visited v. degree rg q)"

lemma search_step_leaf: "p \<in> set visited \<Longrightarrow> search_step rg {p} visited visited 1 [p]"
  by (simp add: search_step_def expanded_def)

lemma search_step_expand:
  assumes "p \<notin> set visited" "search_step rg (dep_target ` set (list_by_package rg p)) (p # visited) v (degree rg p) nodes"
  shows "search_step rg {p} visited v 1 (p # nodes)"
proof -
  note s = assms(2) [unfolded search_step_def]
  have ex: "expanded visited v = insert p (expanded (p # visited) v)" "p \<notin> expanded (p # visited) v"
    using s assms(1) by (auto simp: expanded_def)
  have fin: "finite (expanded (p # visited) v)" by (simp add: expanded_def)
  have dep: "depends_on rg p q \<longleftrightarrow> q \<in> dep_target ` set (list_by_package rg p)" for q
    by (auto simp: depends_on_def)
  have "\<exists>r \<in> {p}. reaches rg r q" if "q \<in> expanded visited v" for q
  proof (cases "q = p")
    case False
    with that ex(1) have "q \<in> expanded (p # visited) v" by blast
    with s have "\<exists>r \<in> dep_target ` set (list_by_package rg p). reaches rg r q" by blast
    then obtain r where "depends_on rg p r" "reaches rg r q" unfolding dep by blast
    then show ?thesis by (auto intro: converse_rtranclp_into_rtranclp)
  qed simp
  moreover have "length (p # nodes) = 1 + (\<Sum>q \<in> expanded visited v. degree rg q)"
    using s fin by (simp add: ex)
  ultimately show ?thesis
    using s by (auto simp: search_step_def ex(1) dep)
qed

lemma search_step_append:
  assumes "search_step rg R visited v1 n1 xs" "search_step rg S v1 v n2 ys"
  shows "search_step rg (R \<union> S) visited v (n1 + n2) (xs @ ys)"
proof -
  note a = assms(1) [unfolded search_step_def] and b = assms(2) [unfolded search_step_def]
  have ex: "expanded visited v = expanded visited v1 \<union> expanded v1 v" "expanded visited v1 \<inter> expanded v1 v = {}"
    using a b by (auto simp: expanded_def)
  have "(\<Sum>q \<in> expanded visited v. degree rg q)
      = (\<Sum>q \<in> expanded visited v1. degree rg q) + (\<Sum>q \<in> expanded v1 v. degree rg q)"
    unfolding ex(1) by (rule sum.union_disjoint) (auto simp: expanded_def)
  with a b ex(1) show ?thesis unfolding search_step_def by (auto simp: subset_iff)
qed

lemma search_step_none: "search_step rg {} visited visited 0 []"
  by (simp add: search_step_def expanded_def)

lemma resolve_search:
  "resolve_node fuel rg p vc visited = Some (Inr t, v) \<Longrightarrow>
     search_step rg {p} visited v 1 (tree_nodes t) \<and> tree_ok rg t \<and> rd_id t = p \<and> rd_constraint t = vc"
  "resolve_children fuel rg ds visited = Some (Inr ts, v) \<Longrightarrow>
     search_step rg (dep_target ` set ds) visited v (length ds) (concat (map tree_nodes ts))
     \<and> list_all (tree_ok rg) ts
     \<and> map (\<lambda>c. (rd_id c, rd_constraint c)) ts = map (\<lambda>d. (dep_target d, dep_constraint d)) ds"
proof (induction fuel rg p vc visited and fuel rg ds visited
    arbitrary: t v and ts v rule: resolve_node_resolve_children.induct)
  case (2 fuel rg p vc visited)
  then obtain pkg where pkg: "map_of (rg_packages rg) p = Some pkg" by (auto simp: resolve_node_Some)
  show ?case
  proof (cases "p \<in> set visited")
    case True
    with 2(2) pkg search_step_leaf [OF True, of rg] show ?thesis by (auto simp: resolve_node_Some)
  next
    case False
    with 2(2) pkg obtain cs where cs: "resolve_children fuel rg (list_by_package rg p) (p # visited) = Some (Inr cs, v)"
      "t = Resolved p (rp_name pkg) (rp_slug pkg) vc cs"
      by (auto simp: resolve_node_Some map_sum_eq_Inr split: sum.splits)
    from 2(1) [OF pkg False cs(1)] search_step_expand [OF False, of rg v] show ?thesis
      by (simp add: cs(2) pkg degree_def)
  qed
next
  case (3 fuel rg visited)
  then show ?case by (auto simp: search_step_none)
next
  case (4 fuel rg d ds visited)
  from 4(3) obtain c v1 cs where c: "resolve_node fuel rg (dep_target d) (dep_constraint d) visited = Some (Inr c, v1)"
    "resolve_children fuel rg ds v1 = Some (Inr cs, v)" "ts = c # cs"
    unfolding resolve_children_Some by (fastforce simp: map_sum_eq_Inr split: sum.splits)
  from 4(1) [OF c(1)] 4(2) [OF c(1)] c(2) search_step_append show ?case
    by (fastforce simp: c(3))
qed auto

lemma resolve_no_error:
  assumes "registry_ok rg"
  shows "resolve_node fuel rg p vc visited = Some (r, v) \<Longrightarrow> map_of (rg_packages rg) p \<noteq> None \<Longrightarrow> \<exists>t. r = Inr t"
    "resolve_children fuel rg ds visited = Some (rs, v) \<Longrightarrow> set ds \<subseteq> set (rg_edges rg) \<Longrightarrow> \<exists>ts. rs = Inr ts"
  using assms
proof (induction fuel rg p vc visited and fuel rg ds visited
    arbitrary: r v and rs v rule: resolve_node_resolve_children.induct)
  case (2 fuel rg p vc visited)
  then obtain pkg where pkg: "map_of (rg_packages rg) p = Some pkg" by auto
  show ?case
  proof (cases "p \<in> set visited")
    case False
    with 2(2) pkg obtain rs where "resolve_children fuel rg (list_by_package rg p) (p # visited) = Some (rs, v)"
      "r = map_sum id (Resolved p (rp_name pkg) (rp_slug pkg) vc) rs"
      by (auto simp: resolve_node_Some)
    moreover from this(1) 2(1) [OF pkg False] 2(4) have "\<exists>ts. rs = Inr ts"
      by (auto simp: list_by_package_def)
    ultimately show ?thesis by auto
  qed (use 2(2) pkg in \<open>auto simp: resolve_node_Some\<close>)
next
  case (4 fuel rg d ds visited)
  from 4(3) obtain r v1 where r: "resolve_node fuel rg (dep_target d) (dep_constraint d) visited = Some (r, v1)"
    and rest: "case r of Inl e \<Rightarrow> rs = Inl e \<and> v = v1
       | Inr c \<Rightarrow> \<exists>rs'. resolve_children fuel rg ds v1 = Some (rs', v) \<and> rs = map_sum id (Cons c) rs'"
    unfolding resolve_children_Some by blast
  have "map_of (rg_packages rg) (dep_target d) \<noteq> None"
    using 4(4,5) by (auto simp: registry_ok_def map_of_eq_None_iff)
  with 4(1) [OF r] 4(5) obtain c where c: "r = Inr c" by blast
  with rest obtain rs' where rs': "resolve_children fuel rg ds v1 = Some (rs', v)" "rs = map_sum id (Cons c) rs'" by auto
  with 4(2) [OF r [unfolded c] _ _ rs'(1)] 4(4,5) show ?case by auto
qed auto

text \<open>
  C39: resolving an existing package of consistent tables always ends, whatever cycles the edges form, and gives a
  tree: its root is the package, its nodes are exactly the packages reachable from it, every node carries the name and
  slug of its package and is either a leaf or has the direct dependencies below it in order, and the dependencies
  of each reachable package are expanded exactly once, so the size is one more than the number of reachable edges.
\<close>

theorem resolve_reachable_tree:
  assumes "registry_ok rg" "map_of (rg_packages rg) p \<noteq> None"
  shows "\<exists>t. resolve_dependencies rg p = Some (Inr t) \<and> rd_id t = p \<and> tree_ok rg t
    \<and> set (tree_nodes t) = {q. reaches rg p q}
    \<and> length (tree_nodes t) = Suc (\<Sum>q \<in> {q. reaches rg p q}. degree rg q)"
proof -
  have "unvisited rg [] < Suc (length (rg_packages rg))"
    unfolding unvisited_def using card_length [of "map fst (rg_packages rg)"] by simp
  from resolve_total(1) [OF this, of p "[]"] obtain r v
    where r: "resolve_node (Suc (length (rg_packages rg))) rg p [] [] = Some (r, v)" by auto
  from resolve_no_error(1) [OF assms(1) r assms(2)] obtain t where t: "r = Inr t" by blast
  note s = resolve_search(1) [OF r [unfolded t]]
  have ex: "expanded [] v = set v" by (simp add: expanded_def)
  have p: "p \<in> set v" and nodes: "set (tree_nodes t) = set v"
    and reach: "\<And>q. q \<in> set v \<Longrightarrow> reaches rg p q"
    and closed: "\<And>q q'. q \<in> set v \<Longrightarrow> depends_on rg q q' \<Longrightarrow> q' \<in> set v"
    and len: "length (tree_nodes t) = Suc (\<Sum>q \<in> set v. degree rg q)"
    using s unfolding search_step_def ex by auto
  have "q \<in> set v" if "reaches rg p q" for q
    using that by induction (auto intro: p closed)
  with reach have "set v = {q. reaches rg p q}" by blast
  with r t s nodes len show ?thesis by (auto simp: resolve_dependencies_def)
qed

text \<open>Two packages that depend on each other and share a third: the second visit of each is a leaf.\<close>

definition sample_registry :: registry where
  "sample_registry = \<lparr>rg_packages = map (\<lambda>i. (i, \<lparr>rp_name = i, rp_slug = i, rp_owner = ''t''\<rparr>)) [''a'', ''b'', ''c''],
     rg_edges = map (\<lambda>(i, p, q). \<lparr>dep_id = i, dep_package = p, dep_target = q, dep_constraint = ''*''\<rparr>)
       [(''1'', ''a'', ''b''), (''2'', ''a'', ''c''), (''3'', ''b'', ''a''), (''4'', ''b'', ''c'')]\<rparr>"

lemma sample_registry_ok: "registry_ok sample_registry"
  unfolding registry_ok_def by code_simp

lemma resolve_reachable_tree_witness:
  "\<exists>t. resolve_dependencies sample_registry ''a'' = Some (Inr t)
     \<and> length (tree_nodes t) = Suc (\<Sum>q \<in> {q. reaches sample_registry ''a'' q}. degree sample_registry q)"
proof -
  have "map_of (rg_packages sample_registry) ''a'' \<noteq> None" by code_simp
  from resolve_reachable_tree [OF sample_registry_ok this] show ?thesis by blast
qed

lemma dependency_edits_keep_invariant_witness:
  "\<exists>rg'. remove_dependency sample_registry ''b'' ''3'' ''t'' = Inr rg' \<and> registry_ok rg'
     \<and> length (rg_edges rg') = 3"
proof -
  let ?rg = "sample_registry\<lparr>rg_edges := filter (\<lambda>e. dep_id e \<noteq> ''3'') (rg_edges sample_registry)\<rparr>"
  have r: "remove_dependency sample_registry ''b'' ''3'' ''t'' = Inr ?rg" by code_simp
  have "length (rg_edges sample_registry) = 4" by code_simp
  with dependency_edits_keep_invariant [OF sample_registry_ok, where p = "''b''" and i = "''3''" and tenant = "''t''"] r
  show ?thesis by (intro exI [of _ ?rg]) auto
qed

end
