(* ===== verification/Glob.thy ===== *)
theory Glob
  imports GoStrings
begin

text \<open>
  Go's \<^verbatim>\<open>filepath.Match\<close> on a Unix system, as the permission patterns use it: \<open>*\<close> and \<open>?\<close> do
  not match a slash, \<open>[...]\<close> is a character class, a backslash quotes. None is
  \<^verbatim>\<open>ErrBadPattern\<close>. Characters are single bytes. The library checks the unread rest of a
  pattern for errors before it reports a failed match; the callers treat an error and a failed
  match alike, so the model reports the failed match.
\<close>

definition glob_special :: "char \<Rightarrow> bool" where
  "glob_special c = (c = CHR ''*'' \<or> c = CHR ''?'' \<or> c = CHR ''['' \<or> c = CHR 0x5C)"

definition literal_pattern :: "string \<Rightarrow> bool" where
  "literal_pattern p = list_all (\<lambda>c. \<not> glob_special c) p"

definition get_esc :: "string \<Rightarrow> (char \<times> string) option" where
  "get_esc chunk =
     (if chunk = [] \<or> hd chunk = CHR ''-'' \<or> hd chunk = CHR '']'' then None
      else case (if hd chunk = CHR 0x5C then tl chunk else chunk) of
             [] \<Rightarrow> None
           | r # rest \<Rightarrow> if rest = [] then None else Some (r, rest))"

lemma get_esc_shorter: "get_esc chunk = Some (r, rest) \<Longrightarrow> length rest < length chunk \<and> rest \<noteq> []"
  by (cases chunk) (auto simp: get_esc_def split: if_splits list.splits)

function match_ranges :: "char \<Rightarrow> nat \<Rightarrow> bool \<Rightarrow> string \<Rightarrow> (bool \<times> string) option" where
  "match_ranges r nrange m chunk =
     (if chunk \<noteq> [] \<and> hd chunk = CHR '']'' \<and> 0 < nrange then Some (m, tl chunk)
      else case get_esc chunk of
             None \<Rightarrow> None
           | Some (lo, c1) \<Rightarrow>
               (case (if hd c1 = CHR ''-'' then get_esc (tl c1) else Some (lo, c1)) of
                  None \<Rightarrow> None
                | Some (hi, c2) \<Rightarrow> match_ranges r (Suc nrange) (m \<or> char_between lo r hi) c2))"
  by pat_completeness auto
termination
proof (relation "measure (\<lambda>(_, _, _, chunk). length chunk)", goal_cases)
  case 1
  show ?case by simp
next
  case (2 r nrange m chunk p lo c1 q hi c2)
  then have "length c1 < length chunk" "length c2 \<le> length c1"
    by (auto dest!: get_esc_shorter split: if_splits)
  then show ?case by simp
qed

declare match_ranges.simps [simp del]

lemma match_ranges_shorter: "match_ranges r n m chunk = Some (b, rest) \<Longrightarrow> length rest < length chunk"
proof (induction r n m chunk rule: match_ranges.induct)
  case (1 r nrange m chunk)
  show ?case
  proof (cases "chunk \<noteq> [] \<and> hd chunk = CHR '']'' \<and> 0 < nrange")
    case True
    with "1.prems" show ?thesis by (auto simp: match_ranges.simps [of r nrange m chunk])
  next
    case False
    with "1.prems" obtain lo c1 hi c2 where c: "get_esc chunk = Some (lo, c1)"
      "(if hd c1 = CHR ''-'' then get_esc (tl c1) else Some (lo, c1)) = Some (hi, c2)"
      "match_ranges r (Suc nrange) (m \<or> char_between lo r hi) c2 = Some (b, rest)"
      by (auto simp: match_ranges.simps [of r nrange m chunk] split: option.splits prod.splits)
    with "1.IH" [OF False c(1) refl c(2) refl c(3)] show ?thesis
      by (auto dest!: get_esc_shorter split: if_splits)
  qed
qed

function match_chunk :: "bool \<Rightarrow> string \<Rightarrow> string \<Rightarrow> string option option" where
  "match_chunk failed [] s = Some (if failed then None else Some s)"
| "match_chunk failed (c # cs) s =
     (if c = CHR ''['' then
        (let f = (failed \<or> s = []);
             r = (if f then CHR 0x00 else hd s);
             s' = (if f then s else tl s);
             neg = (cs \<noteq> [] \<and> hd cs = CHR ''^'')
         in case match_ranges r 0 False (if neg then tl cs else cs) of
              None \<Rightarrow> None
            | Some (m, rest) \<Rightarrow> match_chunk (f \<or> m = neg) rest s')
      else if c = CHR ''?'' then
        (if failed \<or> s = [] then match_chunk True cs s
         else match_chunk (hd s = CHR ''/'') cs (tl s))
      else if c = CHR 0x5C \<and> cs = [] then None
      else
        (let d = (if c = CHR 0x5C then hd cs else c); ds = (if c = CHR 0x5C then tl cs else cs)
         in if failed \<or> s = [] then match_chunk True ds s
            else match_chunk (d \<noteq> hd s) ds (tl s)))"
  by pat_completeness auto
termination
  by (relation "measure (\<lambda>(_, chunk, _). length chunk)")
    (auto dest!: match_ranges_shorter split: if_splits)

fun scan_body :: "bool \<Rightarrow> string \<Rightarrow> string \<times> string" where
  "scan_body inrange [] = ([], [])"
| "scan_body inrange (c # cs) =
     (if c = CHR 0x5C then
        (case cs of
           [] \<Rightarrow> ([c], [])
         | d # ds \<Rightarrow> (let (a, b) = scan_body inrange ds in (c # d # a, b)))
      else if c = CHR ''*'' \<and> \<not> inrange then ([], c # cs)
      else (let (a, b) = scan_body (if c = CHR ''['' then True else if c = CHR '']'' then False else inrange) cs
            in (c # a, b)))"

definition scan_chunk :: "string \<Rightarrow> bool \<times> string \<times> string" where
  "scan_chunk pattern =
     (let p = dropWhile (\<lambda>c. c = CHR ''*'') pattern
      in (has_prefix pattern ''*'', scan_body False p))"

lemma scan_body_append: "scan_body b p = (chunk, rest) \<Longrightarrow> chunk @ rest = p"
  by (induction b p arbitrary: chunk rest rule: scan_body.induct)
    (auto split: if_splits list.splits prod.splits)

lemma scan_body_progress:
  "scan_body False p = ([], rest) \<Longrightarrow> p \<noteq> [] \<Longrightarrow> has_prefix p ''*''"
  by (cases p) (auto split: if_splits list.splits prod.splits)

lemma scan_chunk_shorter:
  assumes "scan_chunk pattern = (star, chunk, rest)" and "pattern \<noteq> []"
  shows "length rest < length pattern"
proof -
  let ?p = "dropWhile (\<lambda>c. c = CHR ''*'') pattern"
  from assms have body: "scan_body False ?p = (chunk, rest)"
    by (simp add: scan_chunk_def Let_def)
  then have len: "length chunk + length rest = length ?p"
    by (metis length_append scan_body_append)
  obtain c cs where p: "pattern = c # cs" using assms(2) by (cases pattern) auto
  show ?thesis
  proof (cases "c = CHR ''*''")
    case True
    with p have "length ?p \<le> length cs" by (simp add: length_dropWhile_le)
    with len p show ?thesis by simp
  next
    case False
    with p have eq: "?p = pattern" by simp
    have "chunk \<noteq> []"
      using body False p scan_body_progress [of pattern rest] by (auto simp: eq)
    with len eq show ?thesis by (cases chunk) auto
  qed
qed

fun try_skip :: "string \<Rightarrow> bool \<Rightarrow> string \<Rightarrow> string option option" where
  "try_skip chunk final [] = Some None"
| "try_skip chunk final (n # ns) =
     (if n = CHR ''/'' then Some None
      else case match_chunk False chunk ns of
             None \<Rightarrow> None
           | Some None \<Rightarrow> try_skip chunk final ns
           | Some (Some t) \<Rightarrow> if final \<and> t \<noteq> [] then try_skip chunk final ns else Some (Some t))"

function glob :: "string \<Rightarrow> string \<Rightarrow> bool option" where
  "glob pattern name =
     (if pattern = [] then Some (name = [])
      else case scan_chunk pattern of (star, chunk, rest) \<Rightarrow>
        if star \<and> chunk = [] then Some (CHR ''/'' \<notin> set name)
        else case match_chunk False chunk name of
               None \<Rightarrow> None
             | Some mt \<Rightarrow>
                 if mt \<noteq> None \<and> (the mt = [] \<or> rest \<noteq> []) then glob rest (the mt)
                 else if star then
                   (case try_skip chunk (rest = []) name of
                      None \<Rightarrow> None
                    | Some None \<Rightarrow> Some False
                    | Some (Some t) \<Rightarrow> glob rest t)
                 else Some False)"
  by pat_completeness auto
termination
  by (relation "measure (\<lambda>(pattern, _). length pattern)") (auto dest!: scan_chunk_shorter [OF sym])

declare glob.simps [simp del]

text \<open>What callers test: a match without an error.\<close>

definition glob_matches :: "string \<Rightarrow> string \<Rightarrow> bool" where
  "glob_matches pattern name = (glob pattern name = Some True)"

section \<open>The pattern forms the permission rules document\<close>

lemma literal_Cons [simp]:
  "literal_pattern []" "literal_pattern (c # p) \<longleftrightarrow> \<not> glob_special c \<and> literal_pattern p"
  by (simp_all add: literal_pattern_def)

lemma match_chunk_failed: "literal_pattern p \<Longrightarrow> match_chunk True p s = Some None"
  by (induction p) (auto simp: glob_special_def)

lemma match_chunk_literal:
  "literal_pattern p \<Longrightarrow>
   match_chunk False p s = Some (if has_prefix s p then Some (drop (length p) s) else None)"
proof (induction p arbitrary: s)
  case Nil
  then show ?case by simp
next
  case (Cons c p)
  show ?case
  proof (cases s)
    case Nil
    with Cons.prems show ?thesis by (simp add: glob_special_def match_chunk_failed)
  next
    case (Cons a list)
    with Cons.prems Cons.IH [of list] show ?thesis
      by (cases "c = a") (simp_all add: glob_special_def match_chunk_failed)
  qed
qed

lemma scan_body_literal: "literal_pattern p \<Longrightarrow> scan_body b p = (p, [])"
  by (induction p arbitrary: b) (auto simp: glob_special_def split: list.splits)

lemma scan_body_literal_star:
  "literal_pattern p \<Longrightarrow> CHR '']'' \<notin> set p \<Longrightarrow> scan_body False (p @ ''*'') = (p, ''*'')"
  by (induction p) (auto simp: glob_special_def split: list.splits)

lemma glob_empty_pattern: "glob [] name = Some (name = [])"
  by (simp add: glob.simps)

lemma glob_literal: "literal_pattern p \<Longrightarrow> glob p name = Some (name = p)"
proof (cases p)
  case Nil
  then show ?thesis by (simp add: glob_empty_pattern)
next
  case (Cons c q)
  assume lit: "literal_pattern p"
  with Cons have "scan_chunk p = (False, p, [])"
    by (auto simp: scan_chunk_def glob_special_def scan_body_literal)
  with Cons lit show ?thesis
    by (auto simp: glob.simps [of "c # q" name] glob_empty_pattern match_chunk_literal
        has_prefix_iff simp del: match_chunk.simps has_prefix_Cons)
qed

lemma glob_star: "glob ''*'' name = Some (CHR ''/'' \<notin> set name)"
  by (simp add: glob.simps [of "''*''"] scan_chunk_def)

lemma glob_prefix_star:
  assumes "literal_pattern p" and "CHR '']'' \<notin> set p" and "p \<noteq> []"
  shows "glob (p @ ''*'') name = Some (has_prefix name p \<and> CHR ''/'' \<notin> set (drop (length p) name))"
proof -
  obtain c q where p: "p = c # q" using assms(3) by (cases p) auto
  with assms have "dropWhile (\<lambda>c. c = CHR ''*'') (p @ ''*'') = p @ ''*''" "\<not> has_prefix (p @ ''*'') ''*''"
    by (auto simp: glob_special_def)
  with assms have "scan_chunk (p @ ''*'') = (False, p, ''*'')"
    by (simp add: scan_chunk_def scan_body_literal_star)
  then show ?thesis
    using assms by (auto simp: glob.simps [of "p @ ''*''"] match_chunk_literal glob_star)
qed

end
