(* ===== verification/Permissions.thy ===== *)
theory Permissions
  imports Glob "HOL-Library.AList"
begin

text \<open>
  \<^verbatim>\<open>internal/domain/chat/agentic/permission.go\<close>: the call-time permission decision (pattern
  syntax, evaluation order, danger escalation) and the tracker that watches for denial loops.
\<close>

section \<open>Decisions, modes, rules\<close>

datatype permission_decision = Allow | Confirm | Deny

text \<open>
  Decisions are ordered by severity, so that "never less strict" is \<open>\<le>\<close>.
\<close>

fun severity :: "permission_decision \<Rightarrow> nat" where
  "severity Allow = 0"
| "severity Confirm = 1"
| "severity Deny = 2"

lemma severity_inj: "severity a = severity b \<longleftrightarrow> a = b"
  by (cases a; cases b) simp_all

instantiation permission_decision :: linorder
begin

definition less_eq_permission_decision :: "permission_decision \<Rightarrow> permission_decision \<Rightarrow> bool" where
  "less_eq_permission_decision a b = (severity a \<le> severity b)"

definition less_permission_decision :: "permission_decision \<Rightarrow> permission_decision \<Rightarrow> bool" where
  "less_permission_decision a b = (severity a < severity b)"

instance
  by standard (auto simp: less_eq_permission_decision_def less_permission_decision_def severity_inj)

end

lemmas decision_order = less_eq_permission_decision_def less_permission_decision_def

lemma Deny_top [simp]: "d \<le> Deny" "Deny \<le> d \<longleftrightarrow> d = Deny"
  by (cases d; simp add: decision_order)+

lemma Allow_bot [simp]: "Allow \<le> d" "d \<le> Allow \<longleftrightarrow> d = Allow"
  by (cases d; simp add: decision_order)+

text \<open>
  \<^verbatim>\<open>PermissionMode\<close> is a string in the code; every value other than the named ones (the empty
  string included) behaves alike.
\<close>

datatype permission_mode = ModeDefault | ModeAllowEdits | ModeBypass | ModeDontAsk | ModeOther string

record permission_rules =
  allow_rules :: "string list"
  deny_rules :: "string list"
  confirm_rules :: "string list"
  rules_mode :: permission_mode

text \<open>The JSON decoder is an argument: None is a decoding error.\<close>

definition parse_permission_rules :: "(string \<Rightarrow> permission_rules option) \<Rightarrow> string \<Rightarrow> permission_rules option" where
  "parse_permission_rules unmarshal raw =
     (if raw = [] then None
      else case unmarshal raw of
             None \<Rightarrow> None
           | Some rules \<Rightarrow>
               if allow_rules rules = [] \<and> deny_rules rules = [] \<and> confirm_rules rules = []
               then None else Some rules)"

section \<open>Patterns\<close>

definition parse_pattern :: "string \<Rightarrow> string \<times> string" where
  "parse_pattern pattern =
     (case index_byte CHR ''('' pattern of
        None \<Rightarrow> (trim_space pattern, [])
      | Some idx \<Rightarrow>
          let tool_part = trim_space (take idx pattern);
              rest = drop (Suc idx) pattern
          in case last_index_byte CHR '')'' rest of
               None \<Rightarrow> (tool_part, trim_space rest)
             | Some e \<Rightarrow> (tool_part, trim_space (take e rest)))"

definition is_word_char :: "char \<Rightarrow> bool" where
  "is_word_char c =
     (char_between CHR ''a'' c CHR ''z'' \<or> char_between CHR ''A'' c CHR ''Z''
      \<or> char_between CHR ''0'' c CHR ''9'' \<or> c = CHR ''_'')"

text \<open>
  The scan of \<^verbatim>\<open>containsWholeWord\<close>: \<open>left\<close> says whether the byte before the current position
  is a word character.
\<close>

fun whole_word_scan :: "bool \<Rightarrow> string \<Rightarrow> string \<Rightarrow> bool" where
  "whole_word_scan left [] pattern = False"
| "whole_word_scan left (c # cs) pattern =
     (if has_prefix (c # cs) pattern \<and> \<not> left
         \<and> \<not> (length pattern < length (c # cs) \<and> is_word_char ((c # cs) ! length pattern))
      then True
      else whole_word_scan (is_word_char c) cs pattern)"

definition contains_whole_word :: "string \<Rightarrow> string \<Rightarrow> bool" where
  "contains_whole_word s pattern = (pattern \<noteq> [] \<and> whole_word_scan False s pattern)"

definition matches_permission_pattern :: "string \<Rightarrow> string \<Rightarrow> string \<Rightarrow> bool" where
  "matches_permission_pattern pattern tool_name tool_input =
     (case parse_pattern pattern of (tool_pattern, input_pattern) \<Rightarrow>
        if \<not> glob_matches tool_pattern tool_name then False
        else if input_pattern = [] then True
        else contains_whole_word (to_lower tool_input) (to_lower input_pattern))"

definition any_match :: "string list \<Rightarrow> string \<Rightarrow> string \<Rightarrow> bool" where
  "any_match patterns tool_name tool_input =
     list_ex (\<lambda>p. matches_permission_pattern p tool_name tool_input) patterns"

section \<open>Evaluation\<close>

fun evaluate_permission :: "permission_rules option \<Rightarrow> string \<Rightarrow> string \<Rightarrow> permission_decision" where
  "evaluate_permission None tool_name tool_input = Allow"
| "evaluate_permission (Some rules) tool_name tool_input =
     (if any_match (deny_rules rules) tool_name tool_input then Deny
      else if any_match (confirm_rules rules) tool_name tool_input then
        (if rules_mode rules = ModeBypass then Allow
         else if rules_mode rules = ModeDontAsk then Deny
         else Confirm)
      else if allow_rules rules \<noteq> [] then
        (if any_match (allow_rules rules) tool_name tool_input then Allow
         else if rules_mode rules = ModeBypass then Allow
         else Deny)
      else Allow)"

definition format_denied_error :: "string \<Rightarrow> string" where
  "format_denied_error tool_name =
     ''Tool '' @ [CHR 0x27] @ tool_name @ [CHR 0x27]
       @ '' is not permitted by the agent'' @ [CHR 0x27] @ ''s permission rules.''"

section \<open>Dangerous inputs\<close>

definition dangerous_command_patterns :: "string list" where
  "dangerous_command_patterns =
     [''sudo'', ''su '',
      ''rm -rf'', ''rm -r'',
      ''chmod'', ''chown'',
      ''| sh'', ''| bash'',
      ''eval '', ''exec '',
      ''python '', ''python3 '', ''node '', ''ruby '', ''perl '',
      ''ssh '', ''scp '',
      ''dd '', ''mkfs'',
      ''iptables'', ''ufw'',
      ''> /dev/'', ''>> /dev/'',
      ''kill '', ''killall'',
      ''env '', ''export '',
      ''git push --force'', ''git reset --hard'',
      ''drop table'', ''drop database'', ''truncate table'',
      ''delete from'']"

definition dangerous_sql_patterns :: "string list" where
  "dangerous_sql_patterns =
     [''drop table'', ''drop database'', ''drop schema'', ''drop index'',
      ''truncate table'', ''truncate '',
      ''delete from'',
      ''alter table'', ''alter database'',
      ''create user'', ''drop user'', ''grant '', ''revoke '',
      ''update '',
      ''into outfile'', ''into dumpfile'',
      ''load_file'', ''load data'',
      ''exec '', ''execute '',
      ''xp_cmdshell'', ''sp_executesql'',
      ''; --'', CHR 0x27 # '' or '', CHR 0x22 # '' or '', ''1=1'']"

definition dangerous_http_patterns :: "string list" where
  "dangerous_http_patterns =
     [''127.0.0.1'', ''localhost'', ''0.0.0.0'',
      ''169.254.169.254'',
      ''metadata.google'',
      ''file://'',
      ''ftp://'',
      ''gopher://'']"

definition contains_dangerous_command :: "string \<Rightarrow> bool" where
  "contains_dangerous_command input = contains_any (to_lower input) dangerous_command_patterns"

definition contains_dangerous_sql_pattern :: "string \<Rightarrow> bool" where
  "contains_dangerous_sql_pattern input = contains_any (to_lower input) dangerous_sql_patterns"

definition contains_dangerous_http_pattern :: "string \<Rightarrow> bool" where
  "contains_dangerous_http_pattern input = contains_any (to_lower input) dangerous_http_patterns"

datatype tool_danger_level = DangerNone | DangerCommand | DangerSQL | DangerHTTP

definition is_sql_tool :: "string \<Rightarrow> bool" where
  "is_sql_tool slug = (str_contains slug ''sql'' \<or> str_contains slug ''database'' \<or> str_contains slug ''query'')"

definition is_http_tool :: "string \<Rightarrow> bool" where
  "is_http_tool slug =
     (str_contains slug ''http'' \<or> str_contains slug ''api'' \<or> str_contains slug ''web'' \<or> str_contains slug ''fetch'')"

definition detect_dangerous_input :: "string \<Rightarrow> string \<Rightarrow> tool_danger_level" where
  "detect_dangerous_input tool_slug tool_input =
     (if is_sql_tool tool_slug \<and> contains_dangerous_sql_pattern tool_input then DangerSQL
      else if is_http_tool tool_slug \<and> contains_dangerous_http_pattern tool_input then DangerHTTP
      else DangerNone)"

definition evaluate_permission_with_danger_check ::
  "permission_rules option \<Rightarrow> string \<Rightarrow> string \<Rightarrow> string list \<Rightarrow> permission_decision" where
  "evaluate_permission_with_danger_check rules tool_name tool_input exec_tool_names =
     (let decision = evaluate_permission rules tool_name tool_input
      in if decision = Allow then
           (if list_ex (\<lambda>t. tool_name = t \<and> contains_dangerous_command tool_input) exec_tool_names then Confirm
            else if detect_dangerous_input tool_name tool_input \<noteq> DangerNone then Confirm
            else decision)
         else decision)"

section \<open>The denial tracker\<close>

record denial_entry =
  de_tool_name :: string
  de_reason :: string
  de_input_snippet :: string
  de_turn_index :: int

record permission_denial_tracker =
  consecutive_denials :: nat
  total_denials :: nat
  denial_history :: "denial_entry list"
  loop_counts :: "(string \<times> nat) list"

definition max_denial_history_size :: nat where "max_denial_history_size = 50"
definition denial_input_snippet_max_len :: nat where "denial_input_snippet_max_len = 200"
definition auto_mode_loop_threshold :: nat where "auto_mode_loop_threshold = 3"
definition denial_limit_consecutive :: nat where "denial_limit_consecutive = 3"
definition denial_limit_total :: nat where "denial_limit_total = 20"

lemmas denial_limits = max_denial_history_size_def denial_input_snippet_max_len_def
  auto_mode_loop_threshold_def denial_limit_consecutive_def denial_limit_total_def

definition new_tracker :: permission_denial_tracker where
  "new_tracker = \<lparr>consecutive_denials = 0, total_denials = 0, denial_history = [], loop_counts = []\<rparr>"

definition record_denial :: "permission_denial_tracker \<Rightarrow> permission_denial_tracker" where
  "record_denial d =
     d\<lparr>consecutive_denials := Suc (consecutive_denials d), total_denials := Suc (total_denials d)\<rparr>"

definition denial_loop_key :: "string \<Rightarrow> string \<Rightarrow> string" where
  "denial_loop_key tool_name snippet = tool_name @ '':'' @ (if 100 < length snippet then take 100 snippet else snippet)"

text \<open>A Go map from keys to counters is an association list with distinct keys.\<close>

definition count_of :: "(string \<times> nat) list \<Rightarrow> string \<Rightarrow> nat" where
  "count_of m k = (case map_of m k of None \<Rightarrow> 0 | Some n \<Rightarrow> n)"

definition bump :: "string \<Rightarrow> (string \<times> nat) list \<Rightarrow> (string \<times> nat) list" where
  "bump k m = AList.update k (Suc (count_of m k)) m"

definition record_denial_with_metadata ::
  "string \<Rightarrow> string \<Rightarrow> string \<Rightarrow> int \<Rightarrow> permission_denial_tracker \<Rightarrow> permission_denial_tracker" where
  "record_denial_with_metadata tool_name reason tool_input turn_index d0 =
     (let d = record_denial d0;
          snippet = (if denial_input_snippet_max_len < length tool_input
                     then take denial_input_snippet_max_len tool_input else tool_input);
          entry = \<lparr>de_tool_name = tool_name, de_reason = reason, de_input_snippet = snippet,
                   de_turn_index = turn_index\<rparr>;
          h = denial_history d @ [entry];
          h' = (if max_denial_history_size < length h then drop (length h - max_denial_history_size) h else h)
      in d\<lparr>denial_history := h',
           loop_counts := bump (denial_loop_key tool_name snippet) (loop_counts d)\<rparr>)"

definition record_success :: "permission_denial_tracker \<Rightarrow> permission_denial_tracker" where
  "record_success d = d\<lparr>consecutive_denials := 0\<rparr>"

definition should_escalate :: "permission_denial_tracker \<Rightarrow> bool" where
  "should_escalate d =
     (denial_limit_consecutive \<le> consecutive_denials d \<or> denial_limit_total \<le> total_denials d)"

definition is_auto_mode_loop :: "permission_denial_tracker \<Rightarrow> bool" where
  "is_auto_mode_loop d = list_ex (\<lambda>(k, n). auto_mode_loop_threshold \<le> n) (loop_counts d)"

text \<open>The key's tool name: everything before the last colon, if that is not the first byte.\<close>

definition loop_key_tool :: "string \<Rightarrow> string" where
  "loop_key_tool key =
     (case last_index_byte CHR '':'' key of
        Some i \<Rightarrow> if 0 < i then take i key else key
      | None \<Rightarrow> key)"

fun looping_scan :: "string list \<Rightarrow> (string \<times> nat) list \<Rightarrow> string list" where
  "looping_scan tools [] = tools"
| "looping_scan tools ((key, n) # rest) =
     (if auto_mode_loop_threshold \<le> n \<and> loop_key_tool key \<notin> set tools
      then looping_scan (tools @ [loop_key_tool key]) rest
      else looping_scan tools rest)"

definition looping_tools :: "permission_denial_tracker \<Rightarrow> string list" where
  "looping_tools d = looping_scan [] (loop_counts d)"

definition recent_denials :: "int \<Rightarrow> permission_denial_tracker \<Rightarrow> denial_entry list" where
  "recent_denials n d =
     (if n \<le> 0 \<or> denial_history d = [] then []
      else let k = (if int (length (denial_history d)) < n then length (denial_history d) else nat n)
           in drop (length (denial_history d) - k) (denial_history d))"

section \<open>Patterns: what they match\<close>

definition word_ends :: "string \<Rightarrow> bool" where
  "word_ends l = (if l = [] then True else \<not> is_word_char (last l))"

definition word_starts :: "string \<Rightarrow> bool" where
  "word_starts r = (if r = [] then True else \<not> is_word_char (hd r))"

lemma prefix_at_boundary:
  "has_prefix s p \<and> \<not> (length p < length s \<and> is_word_char (s ! length p))
   \<longleftrightarrow> (\<exists>r. s = p @ r \<and> word_starts r)"
proof -
  have "word_starts r \<longleftrightarrow> \<not> (length p < length (p @ r) \<and> is_word_char ((p @ r) ! length p))" for r
    by (cases r) (simp_all add: word_starts_def)
  then show ?thesis unfolding has_prefix_iff by blast
qed

lemma whole_word_scan_iff:
  "p \<noteq> [] \<Longrightarrow>
   whole_word_scan left s p \<longleftrightarrow>
     (\<exists>l r. s = l @ p @ r \<and> (if l = [] then \<not> left else \<not> is_word_char (last l)) \<and> word_starts r)"
proof (induction left s p rule: whole_word_scan.induct)
  case (1 left p)
  then show ?case by simp
next
  case (2 left c cs p)
  let ?here = "has_prefix (c # cs) p \<and> \<not> left
       \<and> \<not> (length p < length (c # cs) \<and> is_word_char ((c # cs) ! length p))"
  have here: "?here \<longleftrightarrow> (\<exists>r. c # cs = p @ r \<and> \<not> left \<and> word_starts r)"
    using prefix_at_boundary [of "c # cs" p] by blast
  show ?case
  proof (cases ?here)
    case True
    with here obtain r where r: "c # cs = p @ r" "\<not> left" "word_starts r" by blast
    from True have "whole_word_scan left (c # cs) p" by simp
    moreover have "\<exists>l r. c # cs = l @ p @ r \<and> (if l = [] then \<not> left else \<not> is_word_char (last l)) \<and> word_starts r"
      by (rule exI [of _ "[]"], rule exI [of _ r]) (simp add: r)
    ultimately show ?thesis by blast
  next
    case False
    with 2 have "whole_word_scan left (c # cs) p \<longleftrightarrow>
        (\<exists>l r. cs = l @ p @ r \<and> (if l = [] then \<not> is_word_char c else \<not> is_word_char (last l)) \<and> word_starts r)"
      by auto
    also have "\<dots> \<longleftrightarrow> (\<exists>l r. c # cs = l @ p @ r \<and> l \<noteq> [] \<and> \<not> is_word_char (last l) \<and> word_starts r)"
    proof
      assume "\<exists>l r. cs = l @ p @ r \<and> (if l = [] then \<not> is_word_char c else \<not> is_word_char (last l)) \<and> word_starts r"
      then obtain l r where "cs = l @ p @ r" "word_starts r"
        "if l = [] then \<not> is_word_char c else \<not> is_word_char (last l)" by blast
      then have "cs = l @ p @ r" "word_starts r" "\<not> is_word_char (last (c # l))"
        by (simp_all split: if_splits)
      then have "c # cs = (c # l) @ p @ r \<and> c # l \<noteq> [] \<and> \<not> is_word_char (last (c # l)) \<and> word_starts r"
        by simp
      then show "\<exists>l r. c # cs = l @ p @ r \<and> l \<noteq> [] \<and> \<not> is_word_char (last l) \<and> word_starts r"
        by blast
    next
      assume "\<exists>l r. c # cs = l @ p @ r \<and> l \<noteq> [] \<and> \<not> is_word_char (last l) \<and> word_starts r"
      then obtain l r where l: "c # cs = l @ p @ r" "l \<noteq> []" "\<not> is_word_char (last l)" "word_starts r"
        by blast
      then obtain l' where "l = c # l'" by (cases l) auto
      with l show "\<exists>l r. cs = l @ p @ r \<and> (if l = [] then \<not> is_word_char c else \<not> is_word_char (last l)) \<and> word_starts r"
        by (intro exI [of _ l'] exI [of _ r]) auto
    qed
    also have "\<dots> \<longleftrightarrow> (\<exists>l r. c # cs = l @ p @ r \<and> (if l = [] then \<not> left else \<not> is_word_char (last l)) \<and> word_starts r)"
      using False here by (metis append_Nil)
    finally show ?thesis .
  qed
qed

text \<open>
  \<^verbatim>\<open>containsWholeWord\<close> finds exactly the occurrences of a non-empty pattern that no word
  character touches on either side.
\<close>

theorem contains_whole_word_iff:
  "contains_whole_word s p \<longleftrightarrow> p \<noteq> [] \<and> (\<exists>l r. s = l @ p @ r \<and> word_ends l \<and> word_starts r)"
  by (cases "p = []") (simp_all add: contains_whole_word_def word_ends_def whole_word_scan_iff)

lemma parse_pattern_tool_only: "CHR ''('' \<notin> set p \<Longrightarrow> parse_pattern p = (trim_space p, [])"
  by (simp add: parse_pattern_def index_byte_None [THEN iffD2])

lemma matches_tool_only:
  "CHR ''('' \<notin> set p \<Longrightarrow> matches_permission_pattern p t i = glob_matches (trim_space p) t"
  by (simp add: matches_permission_pattern_def parse_pattern_tool_only)

lemma any_match_append: "any_match (xs @ ys) t i \<longleftrightarrow> any_match xs t i \<or> any_match ys t i"
  by (simp add: any_match_def list_ex_append)

lemma any_match_Nil [simp]: "\<not> any_match [] t i"
  by (simp add: any_match_def)

lemma any_match_Cons [simp]:
  "any_match (p # ps) t i \<longleftrightarrow> matches_permission_pattern p t i \<or> any_match ps t i"
  by (simp add: any_match_def)

text \<open>
  A pattern that matches with the empty input has no input part, so it matches every input.
\<close>

lemma matches_empty_input_all:
  "matches_permission_pattern p t [] \<Longrightarrow> matches_permission_pattern p t i"
  by (auto simp: matches_permission_pattern_def contains_whole_word_def to_lower_def
      split: prod.splits if_splits)

lemma any_match_empty_input_all: "any_match ps t [] \<Longrightarrow> any_match ps t i"
  by (induction ps) (auto intro: matches_empty_input_all)

section \<open>The decision\<close>

text \<open>
  The decision table of \<^verbatim>\<open>EvaluatePermission\<close>, read backwards: exactly when a call is denied
  and exactly when it needs confirmation (every other call is allowed).
\<close>

theorem evaluate_permission_table:
  "(evaluate_permission (Some r) t i = Deny \<longleftrightarrow>
      any_match (deny_rules r) t i
      \<or> any_match (confirm_rules r) t i \<and> rules_mode r = ModeDontAsk
      \<or> (any_match (confirm_rules r) t i, allow_rules r \<noteq> [], any_match (allow_rules r) t i,
          rules_mode r = ModeBypass) = (False, True, False, False))
   \<and> (evaluate_permission (Some r) t i = Confirm \<longleftrightarrow>
      (any_match (deny_rules r) t i, any_match (confirm_rules r) t i) = (False, True)
      \<and> rules_mode r \<notin> {ModeBypass, ModeDontAsk})
   \<and> evaluate_permission None t i = Allow"
  by auto

text \<open>
  C33: deny rules are immune to every mode and to every other rule, and adding deny rules anywhere
  in the list never makes a decision less strict.
\<close>

theorem deny_rules_monotone:
  "evaluate_permission (Some r) t i
     \<le> evaluate_permission (Some (r\<lparr>deny_rules := pre @ deny_rules r @ post\<rparr>)) t i
   \<and> (any_match (deny_rules r) t i
        = (evaluate_permission (Some (r\<lparr>rules_mode := ModeBypass\<rparr>)) t i = Deny))"
  by (auto simp: any_match_append)

lemma evaluate_deny_match:
  "any_match (deny_rules r) t i \<Longrightarrow> evaluate_permission (Some r) t i = Deny"
  by simp

text \<open>Without an allow-list, a denial for the empty input is a denial for every input.\<close>

lemma deny_empty_input_all:
  "allow_rules r = [] \<Longrightarrow> evaluate_permission (Some r) t [] = Deny
   \<Longrightarrow> evaluate_permission (Some r) t i = Deny"
  by (auto split: if_splits dest: any_match_empty_input_all [of _ t i])

text \<open>
  C34: the danger check only ever escalates a decision, and it lets a call through unchecked only
  if the rules allow it and no dangerous pattern of its tool class occurs in the input.
\<close>

theorem danger_check_escalates:
  "evaluate_permission rules t i \<le> evaluate_permission_with_danger_check rules t i execs
   \<and> (evaluate_permission_with_danger_check rules t i execs = Allow \<longleftrightarrow>
        evaluate_permission rules t i = Allow
        \<and> \<not> (t \<in> set execs \<and> contains_dangerous_command i)
        \<and> \<not> (is_sql_tool t \<and> contains_dangerous_sql_pattern i)
        \<and> \<not> (is_http_tool t \<and> contains_dangerous_http_pattern i))
   \<and> (evaluate_permission_with_danger_check rules t i execs = Deny \<longleftrightarrow> evaluate_permission rules t i = Deny)"
  by (auto simp: evaluate_permission_with_danger_check_def detect_dangerous_input_def list_ex_iff Let_def)

text \<open>
  The pattern \<open>*\<close> is documented to match all tools; a tool name with a slash escapes it, so even
  a deny-everything rule lets such a tool through.
\<close>

lemma star_misses_slash: "matches_permission_pattern ''*'' t i \<longleftrightarrow> CHR ''/'' \<notin> set t"
  by (simp add: matches_tool_only trim_space_id is_space_def glob_matches_def glob_star)

text \<open>
  A deny rule \<open>*\<close> denies exactly the tools whose name has no slash: with no other rule, every
  tool with a slash in its name is allowed.
\<close>

theorem deny_star_exactly:
  "evaluate_permission (Some \<lparr>allow_rules = [], deny_rules = [''*''], confirm_rules = [], rules_mode = m\<rparr>) t i
     = (if CHR ''/'' \<in> set t then Allow else Deny)"
  by (simp add: star_misses_slash)

section \<open>The tracker against the event sequence\<close>

datatype tracker_event = Denied string string string int | Succeeded

fun track :: "tracker_event \<Rightarrow> permission_denial_tracker \<Rightarrow> permission_denial_tracker" where
  "track (Denied tool reason input turn) d = record_denial_with_metadata tool reason input turn d"
| "track Succeeded d = record_success d"

definition run_tracker :: "tracker_event list \<Rightarrow> permission_denial_tracker" where
  "run_tracker evs = fold track evs new_tracker"

definition snippet_of :: "string \<Rightarrow> string" where
  "snippet_of input = take denial_input_snippet_max_len input"

fun event_key :: "tracker_event \<Rightarrow> string list" where
  "event_key (Denied tool reason input turn) = [denial_loop_key tool (snippet_of input)]"
| "event_key Succeeded = []"

fun event_entry :: "tracker_event \<Rightarrow> denial_entry list" where
  "event_entry (Denied tool reason input turn) =
     [\<lparr>de_tool_name = tool, de_reason = reason, de_input_snippet = snippet_of input, de_turn_index = turn\<rparr>]"
| "event_entry Succeeded = []"

definition denied_keys :: "tracker_event list \<Rightarrow> string list" where
  "denied_keys evs = concat (map event_key evs)"

definition denied_entries :: "tracker_event list \<Rightarrow> denial_entry list" where
  "denied_entries evs = concat (map event_entry evs)"

definition trailing_denials :: "tracker_event list \<Rightarrow> nat" where
  "trailing_denials evs = length (takeWhile (\<lambda>e. e \<noteq> Succeeded) (rev evs))"

lemma count_of_bump [simp]: "count_of (bump k m) j = (if j = k then Suc (count_of m k) else count_of m j)"
  by (simp add: count_of_def bump_def update_conv')

lemma snippet_if: "(if n < length s then take n s else s) = take n s"
  by simp

definition tracker_inv :: "permission_denial_tracker \<Rightarrow> bool" where
  "tracker_inv d \<longleftrightarrow>
     distinct (map fst (loop_counts d)) \<and> (\<forall>(k, n) \<in> set (loop_counts d). 0 < n)"

lemma run_tracker_snoc: "run_tracker (evs @ [e]) = track e (run_tracker evs)"
  by (simp add: run_tracker_def)

lemma run_tracker_Nil: "run_tracker [] = new_tracker"
  by (simp add: run_tracker_def)

lemma denied_snoc [simp]:
  "denied_keys [] = []" "denied_entries [] = []" "trailing_denials [] = 0"
  "denied_keys (evs @ [e]) = denied_keys evs @ event_key e"
  "denied_entries (evs @ [e]) = denied_entries evs @ event_entry e"
  "trailing_denials (evs @ [e]) = (if e = Succeeded then 0 else Suc (trailing_denials evs))"
  by (simp_all add: denied_keys_def denied_entries_def trailing_denials_def)

text \<open>One denial, in closed form.\<close>

lemma record_denial_with_metadata_eq:
  "record_denial_with_metadata tool reason input turn d =
     \<lparr>consecutive_denials = Suc (consecutive_denials d),
      total_denials = Suc (total_denials d),
      denial_history = last_n 50 (denial_history d @ event_entry (Denied tool reason input turn)),
      loop_counts = bump (denial_loop_key tool (snippet_of input)) (loop_counts d)\<rparr>"
  by (simp add: record_denial_with_metadata_def record_denial_def snippet_of_def last_n_def
      denial_limits Let_def)

lemma tracker_loop_counts:
  "distinct (map fst (loop_counts (run_tracker evs)))
   \<and> (\<forall>k. count_of (loop_counts (run_tracker evs)) k = count_list (denied_keys evs) k)"
proof (induction evs rule: rev_induct)
  case Nil
  show ?case by (simp add: run_tracker_Nil new_tracker_def count_of_def)
next
  case (snoc e evs)
  then show ?case
    by (cases e) (auto simp: run_tracker_snoc record_denial_with_metadata_eq record_success_def
        distinct_update bump_def [symmetric] bump_def [THEN arg_cong [where f = "map fst"]])
qed

text \<open>
  C35: after any sequence of denials and successes the tracker holds what it promises: the totals,
  the length of the current run of denials, the last fifty denial entries in order, and for every
  tool-and-input key the number of times it was denied.
\<close>

theorem tracker_refines_history:
  "consecutive_denials (run_tracker evs) = trailing_denials evs
   \<and> total_denials (run_tracker evs) = length (denied_entries evs)
   \<and> denial_history (run_tracker evs) = last_n 50 (denied_entries evs)
   \<and> (\<forall>k. count_of (loop_counts (run_tracker evs)) k = count_list (denied_keys evs) k)"
proof (induction evs rule: rev_induct)
  case Nil
  show ?case by (simp add: run_tracker_Nil new_tracker_def count_of_def)
next
  case (snoc e evs)
  then show ?case
    by (cases e) (simp_all add: run_tracker_snoc record_denial_with_metadata_eq record_success_def last_n_append)
qed

lemma is_auto_mode_loop_count:
  assumes "distinct (map fst (loop_counts d))"
  shows "is_auto_mode_loop d \<longleftrightarrow> (\<exists>k. 3 \<le> count_of (loop_counts d) k)"
proof -
  have "is_auto_mode_loop d \<longleftrightarrow> (\<exists>k n. map_of (loop_counts d) k = Some n \<and> 3 \<le> n)"
    using assms by (auto simp: is_auto_mode_loop_def list_ex_iff denial_limits)
  also have "\<dots> \<longleftrightarrow> (\<exists>k. 3 \<le> count_of (loop_counts d) k)"
    by (auto simp: count_of_def split: option.splits)
  finally show ?thesis .
qed

text \<open>
  \<^verbatim>\<open>IsAutoModeLoop\<close> answers exactly the question whether some tool was denied at least three
  times with the same first hundred bytes of input, over the whole run.
\<close>

theorem auto_mode_loop_iff:
  "is_auto_mode_loop (run_tracker evs) \<longleftrightarrow> (\<exists>k. 3 \<le> count_list (denied_keys evs) k)"
  using tracker_loop_counts [of evs] by (simp add: is_auto_mode_loop_count)

text \<open>
  \<^verbatim>\<open>LoopingTools\<close> recovers the tool from a key by its last colon, so it names the tool only when the
  denied input has no colon. JSON inputs have one.
\<close>

lemma loop_key_tool_no_colon:
  "tool \<noteq> [] \<Longrightarrow> CHR '':'' \<notin> set snippet \<Longrightarrow> loop_key_tool (denial_loop_key tool snippet) = tool"
proof -
  assume t: "tool \<noteq> []" and c: "CHR '':'' \<notin> set snippet"
  define rest where "rest = (if 100 < length snippet then take 100 snippet else snippet)"
  from c have "CHR '':'' \<notin> set rest" by (auto simp: rest_def dest: in_set_takeD)
  then have "last_index_byte CHR '':'' (tool @ CHR '':'' # rest) = Some (length tool)" by simp
  with t show ?thesis by (simp add: loop_key_tool_def denial_loop_key_def rest_def [symmetric])
qed

text \<open>
  Three identical denials of a call whose JSON input has a colon are detected as a loop, but
  \<^verbatim>\<open>LoopingTools\<close> then reports the tool name with a piece of the input attached, not the tool.
\<close>

theorem looping_tools_colon_input:
  "let d = run_tracker (replicate 3 (Denied ''sql'' ''deny'' (''{q:1}'') 0))
   in is_auto_mode_loop d \<and> looping_tools d = [''sql:{q'']"
  by code_simp

end
