(* ===== verification/Dispatch.thy ===== *)
theory Dispatch
  imports Permissions Denial RunState
begin

text \<open>
  The dispatch of the tool calls of one model turn: \<^verbatim>\<open>executeWithPermissions\<close> of
  \<^verbatim>\<open>src/internal/domain/chat/agentic/runner.go\<close> with its gates and builtin handlers. Each branch
  of the loop body is a handler that either answers the call or lets it fall through; the loop
  body is the list of handlers in the order of the source. The world \<open>'w\<close> is the state of
  everything outside (user, memory service, tool runtime); services are functions on it.
\<close>

section \<open>Calls, events and services\<close>

datatype run_event =
  ToolCallStart string string string
| ToolResultEvent string string string "string option"
| ToolProgress string string string
| ToolDeniedEvent string string string nat bool
| FrontendActionCall string string string
| ServiceEvent string

datatype audit_decision = AuditDeny | AuditConfirmApproved | AuditConfirmDenied | AuditConfirmEscalated

datatype elicitation_action = ElicitAccept | ElicitDecline | ElicitCancel | ElicitOther string

record elicitation_result =
  el_action :: elicitation_action
  el_content :: "(string \<times> string) list"

record ask_question =
  aq_id :: string
  aq_question :: string
  aq_type :: string
  aq_required :: "bool option"

record ask_params =
  ap_message :: string
  ap_schema :: string
  ap_input_schema :: string
  ap_requested_schema :: string
  ap_questions :: "ask_question list"

record elicitation_params =
  ep_message :: string
  ep_id :: string
  ep_schema :: string
  ep_questions :: "ask_question list"

record frontend_result =
  fr_is_error :: bool
  fr_error :: string
  fr_result :: string

record context_tool =
  ct_name :: string
  ct_mode :: string
  ct_description :: string
  ct_allowed_tools :: "string list"

record manage_args =
  ma_operation :: string
  ma_resource :: string
  ma_id :: string
  ma_query :: string
  ma_payload :: string

record 'w memory_ops =
  mem_store :: "string \<Rightarrow> string \<Rightarrow> 'w \<Rightarrow> string \<times> 'w"
  mem_store_bulk :: "(string \<times> string) list \<Rightarrow> 'w \<Rightarrow> string \<times> 'w"
  mem_recall :: "string \<Rightarrow> 'w \<Rightarrow> (string, string) result \<times> 'w"

text \<open>JSON encoders and decoders (\<^verbatim>\<open>encoding/json\<close>); a decoding error leaves the zero value.\<close>

record json_codec =
  js_object :: "string \<Rightarrow> (string \<times> string) list option"
  js_raw_string :: "string \<Rightarrow> string option"
  js_ask :: "string \<Rightarrow> ask_params"
  js_memory :: "string \<Rightarrow> string \<times> string"
  js_bulk :: "string \<Rightarrow> (string \<times> string) list"
  js_query :: "string \<Rightarrow> string"
  js_manage :: "string \<Rightarrow> manage_args option"
  js_string :: "string \<Rightarrow> string"
  js_values :: "(string \<times> string) list \<Rightarrow> string \<Rightarrow> string"
  js_subtask :: "string \<Rightarrow> string list \<Rightarrow> string"

text \<open>
  What a call of the dispatch reads: the runner's wiring and the run's indexes. An absent option
  is a nil dependency. \<open>de_audit\<close> is the permission audit: whether it takes an entry, which depends on the
  world; its errors are ignored. \<open>de_redact\<close>, \<open>de_sanitize\<close> and \<open>de_scrub\<close> are the runner's redactors.
\<close>

record 'w dispatch_env =
  de_json :: json_codec
  de_allowed :: "(string \<times> bool) list"
  de_frontend_names :: "string list"
  de_frontend :: "(tool_call \<Rightarrow> 'w \<Rightarrow> frontend_result \<times> 'w) option"
  de_rules :: "permission_rules option"
  de_audit :: "(string \<times> string \<times> audit_decision \<Rightarrow> 'w \<Rightarrow> bool) option"
  de_elicit :: "(string \<Rightarrow> elicitation_params \<Rightarrow> 'w \<Rightarrow> elicitation_result \<times> 'w) option"
  de_run_id :: string
  de_truncate_input :: "string \<Rightarrow> string"
  de_destructive :: "string \<Rightarrow> bool"
  de_context_tools :: "(string \<times> context_tool) list"
  de_prev_errors :: bool
  de_manage :: "(manage_args \<Rightarrow> 'w \<Rightarrow> tool_exec_result \<times> 'w) option"
  de_admin_skill :: "string \<Rightarrow> 'w \<Rightarrow> (string, tool_exec_result) result \<times> 'w"
  de_memory :: "'w memory_ops option"
  de_post_hooks :: "(tool_call \<Rightarrow> string \<Rightarrow> 'w \<Rightarrow> string list \<times> 'w) option"
  de_tool_search :: "(string \<Rightarrow> tool_exec_result) option"
  de_canvas :: "tool_call \<Rightarrow> tool_exec_result \<times> run_event list"
  de_send_message :: "(tool_call \<Rightarrow> 'w \<Rightarrow> tool_exec_result \<times> run_event list \<times> 'w) option"
  de_execute_all :: "tool_call list \<Rightarrow> 'w \<Rightarrow> tool_exec_result list \<times> run_event list \<times> 'w"
  de_subtasks :: "(tool_call list \<Rightarrow> 'w \<Rightarrow> tool_exec_result list \<times> run_event list \<times> 'w) option"
  de_redact :: "string \<Rightarrow> string"
  de_sanitize :: "string \<Rightarrow> string"
  de_scrub :: "string \<Rightarrow> string"

text \<open>The mutable state: \<^verbatim>\<open>runState\<close>, the denial tracker, the event channel, the audit log.\<close>

record 'w dispatch_state =
  ds_retries :: "string \<Rightarrow> nat"
  ds_stored_keys :: "string set"
  ds_user_values :: "(string \<times> string) list"
  ds_denials :: "denial_tracker option"
  ds_events :: "run_event list"
  ds_audit :: "(string \<times> string \<times> audit_decision) list"
  ds_world :: 'w

definition new_run_state :: "denial_tracker option \<Rightarrow> 'w \<Rightarrow> 'w dispatch_state" where
  "new_run_state dt w =
     \<lparr>ds_retries = (\<lambda>_. 0), ds_stored_keys = {}, ds_user_values = [], ds_denials = dt,
      ds_events = [], ds_audit = [], ds_world = w\<rparr>"

definition emit :: "run_event list \<Rightarrow> 'w dispatch_state \<Rightarrow> 'w dispatch_state" where
  "emit evs st = st\<lparr>ds_events := ds_events st @ evs\<rparr>"

definition quoted :: "string \<Rightarrow> string" where
  "quoted s = [CHR 0x27] @ s @ [CHR 0x27]"

text \<open>Where a call goes: answered on the spot, to the tool runtime, or to a sub-agent.\<close>

datatype route = Answered tool_exec_result | Regular | SubAgent tool_call

type_synonym 'w handler = "'w dispatch_env \<Rightarrow> tool_call \<Rightarrow> 'w dispatch_state \<Rightarrow> route option \<times> 'w dispatch_state"

fun run_handlers :: "'w handler list \<Rightarrow> 'w dispatch_env \<Rightarrow> tool_call \<Rightarrow> 'w dispatch_state \<Rightarrow> route \<times> 'w dispatch_state" where
  "run_handlers [] env tc st = (Regular, st)"
| "run_handlers (h # hs) env tc st =
     (case h env tc st of
        (Some r, st') \<Rightarrow> (r, st')
      | (None, st') \<Rightarrow> run_handlers hs env tc st')"

text \<open>A call refused with a start and an error event.\<close>

definition refuse :: "tool_call \<Rightarrow> string \<Rightarrow> 'w dispatch_state \<Rightarrow> route option \<times> 'w dispatch_state" where
  "refuse tc msg st =
     (Some (Answered (error_result (tc_name tc) msg)),
      emit [ToolCallStart (tc_id tc) (tc_name tc) (tc_args tc),
            ToolResultEvent (tc_id tc) (tc_name tc) '''' (Some msg)] st)"

definition call_start :: "tool_call \<Rightarrow> run_event" where
  "call_start tc = ToolCallStart (tc_id tc) (tc_name tc) (tc_args tc)"

definition call_done :: "tool_call \<Rightarrow> run_event" where
  "call_done tc = ToolProgress (tc_id tc) (tc_name tc) ''completed''"

section \<open>The gates\<close>

definition retry_gate :: "'w handler" where
  "retry_gate env tc st =
     (let name = tc_name tc in
      if retry_exempt name then (None, st\<lparr>ds_retries := (ds_retries st)(name := ds_retries st name + 1)\<rparr>)
      else case check_and_increment_retry name (ds_retries st) of
             (Some msg, _) \<Rightarrow> refuse tc msg st
           | (None, retries) \<Rightarrow> (None, st\<lparr>ds_retries := retries\<rparr>))"

definition is_allowed :: "(string \<times> bool) list \<Rightarrow> string \<Rightarrow> bool" where
  "is_allowed allowed name = (allowed = [] \<or> map_of allowed name = Some True)"

definition allowed_gate :: "'w handler" where
  "allowed_gate env tc st =
     (if is_allowed (de_allowed env) (tc_name tc) then (None, st)
      else refuse tc (''Tool '' @ quoted (tc_name tc)
             @ '' is not available for this agent. Do NOT call it again '' @ [CHR 0xE2, CHR 0x80, CHR 0x94]
             @ '' provide a direct answer instead.'') st)"

definition frontend_handler :: "'w handler" where
  "frontend_handler env tc st =
     (case de_frontend env of
        None \<Rightarrow> (None, st)
      | Some submit \<Rightarrow>
          if tc_name tc \<notin> set (de_frontend_names env) then (None, st)
          else
            let st1 = emit [call_start tc, FrontendActionCall (tc_id tc) (tc_name tc) (tc_args tc)] st;
                (fr, w) = submit tc (ds_world st1);
                st2 = st1\<lparr>ds_world := w\<rparr>
            in if fr_is_error fr then
                 let msg = (if fr_error fr = [] then ''frontend action failed'' else fr_error fr)
                 in (Some (Answered (error_result (tc_name tc) msg)),
                     emit [ToolResultEvent (tc_id tc) (tc_name tc) '''' (Some msg)] st2)
               else
                 let out = de_redact env (if fr_result fr = [] then ''null'' else fr_result fr)
                 in (Some (Answered (output_result (tc_name tc) out)),
                     emit [ToolResultEvent (tc_id tc) (tc_name tc) out None, call_done tc] st2))"

text \<open>Recording a denial when a tracker is wired.\<close>

definition note_denial :: "tool_call \<Rightarrow> 'w dispatch_state \<Rightarrow> bool \<times> nat \<times> 'w dispatch_state" where
  "note_denial tc st =
     (case ds_denials st of
        None \<Rightarrow> (False, 1, st)
      | Some dt \<Rightarrow>
          (case record_tool_denial (tc_name tc) (tc_args tc) dt of
             (escalated, dt') \<Rightarrow>
               (escalated,
                (case get_denial_record (tc_name tc) dt' of None \<Rightarrow> 1 | Some r \<Rightarrow> dr_count r),
                st\<lparr>ds_denials := Some dt'\<rparr>)))"

text \<open>The audit entry of a decision: nothing without a logger or when the logger fails.\<close>

definition audit_written :: "'w dispatch_env \<Rightarrow> tool_call \<Rightarrow> audit_decision \<Rightarrow> 'w \<Rightarrow> (string \<times> string \<times> audit_decision) list" where
  "audit_written env tc d w =
     (case de_audit env of
        None \<Rightarrow> []
      | Some accepts \<Rightarrow> if accepts (tc_name tc, tc_args tc, d) w then [(tc_name tc, tc_args tc, d)] else [])"

definition log_decision :: "'w dispatch_env \<Rightarrow> tool_call \<Rightarrow> audit_decision \<Rightarrow> 'w dispatch_state \<Rightarrow> 'w dispatch_state" where
  "log_decision env tc d st = st\<lparr>ds_audit := ds_audit st @ audit_written env tc d (ds_world st)\<rparr>"

text \<open>A denial without a start event; the result of a permission denial carries no tool name.\<close>

definition deny_call ::
  "tool_call \<Rightarrow> string \<Rightarrow> nat \<Rightarrow> bool \<Rightarrow> 'w dispatch_state \<Rightarrow> route option \<times> 'w dispatch_state" where
  "deny_call tc msg n escalated st =
     (Some (Answered (zero_result\<lparr>er_error := Some msg\<rparr>)),
      emit [ToolDeniedEvent (tc_id tc) (tc_name tc) msg n escalated] st)"

definition ask_consent ::
  "(string \<Rightarrow> elicitation_params \<Rightarrow> 'w \<Rightarrow> elicitation_result \<times> 'w) \<Rightarrow> 'w dispatch_env \<Rightarrow> tool_call
   \<Rightarrow> 'w dispatch_state \<Rightarrow> bool \<times> 'w dispatch_state" where
  "ask_consent submit env tc st =
     (let rid = ''consent-'' @ tc_name tc @ ''-'' @ de_run_id env;
          q = \<lparr>aq_id = ''consent'',
               aq_question = ''Permit tool '' @ quoted (tc_name tc) @ '' to run?'' @ [CHR 0x0A, CHR 0x0A]
                 @ ''Input preview:'' @ [CHR 0x0A] @ de_truncate_input env (tc_args tc),
               aq_type = ''confirm'', aq_required = None\<rparr>;
          (res, w) = submit rid
            \<lparr>ep_message = ''Tool '' @ quoted (tc_name tc) @ '' requires your approval before executing.'',
             ep_id = rid, ep_schema = '''', ep_questions = [q]\<rparr> (ds_world st)
      in (el_action res = ElicitAccept, st\<lparr>ds_world := w\<rparr>))"

definition permission_gate :: "'w handler" where
  "permission_gate env tc st =
     (case evaluate_permission (de_rules env) (tc_name tc) (tc_args tc) of
        Allow \<Rightarrow> (None, st)
      | Deny \<Rightarrow>
          (case note_denial tc st of
             (escalated, n, st1) \<Rightarrow>
               deny_call tc (format_denied_error (tc_name tc)) n escalated (log_decision env tc AuditDeny st1))
      | Confirm \<Rightarrow>
          (case de_elicit env of
             Some submit \<Rightarrow>
               (case ask_consent submit env tc st of
                  (True, st1) \<Rightarrow> (None, log_decision env tc AuditConfirmApproved st1)
                | (False, st1) \<Rightarrow>
                    (case note_denial tc (log_decision env tc AuditConfirmDenied st1) of
                       (_, _, st2) \<Rightarrow>
                         deny_call tc (''Tool '' @ quoted (tc_name tc) @ '' was not approved by the user.'') 0 False st2))
           | None \<Rightarrow>
               (case note_denial tc (log_decision env tc AuditConfirmEscalated st) of
                  (_, _, st1) \<Rightarrow>
                    deny_call tc (''Tool '' @ quoted (tc_name tc)
                      @ '' requires confirmation but running in automated mode.'') 0 False st1)))"

definition destructive_call :: "'w dispatch_env \<Rightarrow> tool_call \<Rightarrow> bool" where
  "destructive_call env tc =
     (de_destructive env (tc_name tc)
      \<and> \<not> is_read_only_operation (js_object (de_json env)) (js_raw_string (de_json env)) (tc_args tc))"

definition destructive_gate :: "'w handler" where
  "destructive_gate env tc st =
     (if \<not> destructive_call env tc then (None, st)
      else
        (Some (Answered (error_result (tc_name tc)
           (''Tool '' @ quoted (tc_name tc) @ '' is flagged as destructive (irreversible operation). ''
            @ ''Automated execution is blocked '' @ [CHR 0xE2, CHR 0x80, CHR 0x94]
            @ '' this operation requires explicit user confirmation.''))),
         emit [ToolDeniedEvent (tc_id tc) (tc_name tc) ''destructive operation requires confirmation''
                 (case ds_denials st of None \<Rightarrow> 0 | Some dt \<Rightarrow> total_denials dt) False] st))"

section \<open>Fork-mode skills\<close>

definition build_fork_prompt :: "tool_call \<Rightarrow> context_tool \<Rightarrow> string" where
  "build_fork_prompt tc tool =
     (let nl2 = [CHR 0x0A, CHR 0x0A];
          input = trim_space (tc_args tc)
      in ''Run the fork-mode skill '' @ go_quote (ct_name tool)
         @ '' in an isolated sub-agent.'' @ nl2
         @ ''Original tool input:'' @ [CHR 0x0A] @ (if input = [] then ''{}'' else input) @ nl2
         @ (if ct_description tool \<noteq> []
            then ''Skill description:'' @ [CHR 0x0A] @ ct_description tool @ nl2 else [])
         @ (if ct_allowed_tools tool \<noteq> []
            then ''Allowed tools for this skill:'' @ [CHR 0x0A] @ join_with '', '' (ct_allowed_tools tool) @ nl2
            else []))"

definition fork_mode_tool_call :: "json_codec \<Rightarrow> tool_call \<Rightarrow> context_tool \<Rightarrow> tool_call" where
  "fork_mode_tool_call js tc tool =
     tc\<lparr>tc_name := ''agent'', tc_args := js_subtask js (build_fork_prompt tc tool) (ct_allowed_tools tool)\<rparr>"

definition fork_handler :: "'w handler" where
  "fork_handler env tc st =
     (case map_of (de_context_tools env) (tc_name tc) of
        None \<Rightarrow> (None, st)
      | Some tool \<Rightarrow>
          if ct_mode tool \<noteq> ''fork'' then
            refuse tc (''Tool '' @ quoted (tc_name tc) @ '' has unsupported contextMode ''
              @ go_quote (ct_mode tool) @ ''.'') st
          else (case de_subtasks env of
                  None \<Rightarrow>
                    refuse tc (''Tool '' @ quoted (tc_name tc)
                      @ '' requires fork context but sub-agent execution is not available.'') st
                | Some _ \<Rightarrow> (Some (SubAgent (fork_mode_tool_call (de_json env) tc tool)), st)))"

section \<open>Asking the user\<close>

text \<open>
  The loop over the questions: the values already collected, or None as soon as a required
  question has none. A question without the field is required.
\<close>

fun covered_values :: "(string \<times> string) list \<Rightarrow> ask_question list \<Rightarrow> (string \<times> string) list option" where
  "covered_values known [] = Some []"
| "covered_values known (q # qs) =
     (case map_of known (aq_id q) of
        Some v \<Rightarrow>
          (case covered_values known qs of None \<Rightarrow> None | Some vs \<Rightarrow> Some ((aq_id q, v) # vs))
      | None \<Rightarrow> if aq_required q \<noteq> Some False then None else covered_values known qs)"

definition cached_answer :: "(string \<times> string) list \<Rightarrow> ask_question list \<Rightarrow> (string \<times> string) list option" where
  "cached_answer known qs =
     (if known = [] \<or> qs = [] then None
      else case covered_values known qs of
             None \<Rightarrow> None
           | Some vs \<Rightarrow> if vs = [] then None else Some vs)"

definition auto_cancel_reply :: string where
  "auto_cancel_reply =
     (let q = [CHR 0x22] in
      ''{'' @ q @ ''action'' @ q @ '':'' @ q @ ''cancel'' @ q @ '','' @ q @ ''reason'' @ q @ '':'' @ q
      @ ''The previous tool call failed due to a server-side configuration error. ''
      @ ''This is not information the user can provide '' @ [CHR 0xE2, CHR 0x80, CHR 0x94]
      @ '' please explain the tool limitation directly to the user without asking for configuration details.''
      @ q @ ''}'')"

definition declined_reply :: "elicitation_action \<Rightarrow> string" where
  "declined_reply a =
     (let q = [CHR 0x22] in
      ''{'' @ q @ ''action'' @ q @ '': '' @ q @ (if a = ElicitCancel then ''cancel'' else ''decline'') @ q
      @ '', '' @ q @ ''message'' @ q @ '': '' @ q
      @ ''The user explicitly declined or cancelled this request. Do NOT ask again. ''
      @ ''Acknowledge that the action has been cancelled and offer no further prompts for this task.''
      @ q @ ''}'')"

definition cached_instruction :: string where
  "cached_instruction =
     ''Values were already provided by the user earlier in this session. ''
     @ ''Proceed immediately with the pending task using these values.''"

definition fresh_instruction :: string where
  "fresh_instruction =
     ''User provided the requested values. Use them immediately to proceed with the pending task. ''
     @ ''Do NOT call ask_user again for the same information.''"

definition first_non_empty :: "string list \<Rightarrow> string" where
  "first_non_empty ss = (case filter (\<lambda>s. s \<noteq> []) ss of [] \<Rightarrow> [] | s # _ \<Rightarrow> s)"

definition ask_user_blocked_handler :: "'w handler" where
  "ask_user_blocked_handler env tc st =
     (if tc_name tc = ''ask_user'' \<and> de_prev_errors env
      then (Some (Answered (output_result (tc_name tc) auto_cancel_reply)), emit [call_start tc, call_done tc] st)
      else (None, st))"

definition submit_question ::
  "(string \<Rightarrow> elicitation_params \<Rightarrow> 'w \<Rightarrow> elicitation_result \<times> 'w) \<Rightarrow> json_codec \<Rightarrow> tool_call \<Rightarrow> ask_params
   \<Rightarrow> 'w dispatch_state \<Rightarrow> route option \<times> 'w dispatch_state" where
  "submit_question submit js tc ps st =
     (let schema = first_non_empty [ap_schema ps, ap_input_schema ps, ap_requested_schema ps];
          st1 = emit [call_start tc] st;
          (res, w) = submit (tc_id tc)
            \<lparr>ep_message = ap_message ps, ep_id = [], ep_schema = schema, ep_questions = ap_questions ps\<rparr>
            (ds_world st1);
          st2 = st1\<lparr>ds_world := w\<rparr>
      in if el_action res = ElicitCancel \<or> el_action res = ElicitDecline
         then (Some (Answered (zero_result\<lparr>er_output := declined_reply (el_action res)\<rparr>)),
               emit [call_done tc] st2)
         else (Some (Answered (zero_result\<lparr>er_output := js_values js (el_content res) fresh_instruction\<rparr>)),
               emit [call_done tc] (st2\<lparr>ds_user_values := el_content res @ ds_user_values st2\<rparr>)))"

definition ask_user_handler :: "'w handler" where
  "ask_user_handler env tc st =
     (case de_elicit env of
        None \<Rightarrow> (None, st)
      | Some submit \<Rightarrow>
          if tc_name tc \<noteq> ''ask_user'' then (None, st)
          else
            let ps = js_ask (de_json env) (tc_args tc) in
            case cached_answer (ds_user_values st) (ap_questions ps) of
              Some vs \<Rightarrow>
                (Some (Answered (output_result (tc_name tc) (js_values (de_json env) vs cached_instruction))),
                 emit [call_start tc, call_done tc] st)
            | None \<Rightarrow> submit_question submit (de_json env) tc ps st)"

section \<open>Builtin tools\<close>

definition execute_agenthub_manage :: "'w dispatch_env \<Rightarrow> tool_call \<Rightarrow> 'w dispatch_state \<Rightarrow> tool_exec_result \<times> 'w dispatch_state" where
  "execute_agenthub_manage env tc st =
     (let st1 = emit [call_start tc, ToolProgress (tc_id tc) (tc_name tc) ''executing''] st;
          remote = (case de_admin_skill env (tc_args tc) (ds_world st1) of
              (Inl err, w) \<Rightarrow>
                (let msg = de_sanitize env err
                 in (zero_result\<lparr>er_error := Some msg, er_emitted := True\<rparr>,
                     emit [call_done tc, ToolResultEvent (tc_id tc) (tc_name tc) [] (Some msg)] (st1\<lparr>ds_world := w\<rparr>)))
            | (Inr r, w) \<Rightarrow>
                (r\<lparr>er_emitted := True\<rparr>,
                 emit [call_done tc, ToolResultEvent (tc_id tc) (tc_name tc) (de_redact env (er_output r)) None]
                   (st1\<lparr>ds_world := w\<rparr>)))
      in case de_manage env of
           None \<Rightarrow> remote
         | Some exec \<Rightarrow>
             (case js_manage (de_json env) (tc_args tc) of
                None \<Rightarrow> remote
              | Some args \<Rightarrow>
                  (case exec args (ds_world st1) of
                     (r, w) \<Rightarrow>
                       (r\<lparr>er_emitted := True\<rparr>,
                        emit [call_done tc,
                              ToolResultEvent (tc_id tc) (tc_name tc) (de_redact env (er_output r)) (er_error r)]
                          (st1\<lparr>ds_world := w\<rparr>)))))"

definition manage_handler :: "'w handler" where
  "manage_handler env tc st =
     (if tc_name tc \<noteq> ''agenthub_manage'' then (None, st)
      else case execute_agenthub_manage env tc st of (r, st1) \<Rightarrow> (Some (Answered r), st1))"

text \<open>The answer of a memory tool, with the texts its hooks inject.\<close>

definition run_post_hooks :: "'w dispatch_env \<Rightarrow> tool_call \<Rightarrow> string \<Rightarrow> 'w dispatch_state \<Rightarrow> string \<times> 'w dispatch_state" where
  "run_post_hooks env tc out st =
     (case de_post_hooks env of
        None \<Rightarrow> ([], st)
      | Some run \<Rightarrow>
          (case run tc out (ds_world st) of
             (texts, w) \<Rightarrow> (join_with [CHR 0x0A] (filter (\<lambda>s. s \<noteq> []) texts), st\<lparr>ds_world := w\<rparr>)))"

definition memory_answer :: "'w dispatch_env \<Rightarrow> tool_call \<Rightarrow> string \<Rightarrow> 'w dispatch_state \<Rightarrow> route option \<times> 'w dispatch_state" where
  "memory_answer env tc text st =
     (let out = js_string (de_json env) text;
          (inject, st1) = run_post_hooks env tc out (emit [call_done tc] st)
      in (Some (Answered ((output_result (tc_name tc) out)\<lparr>er_inject := inject\<rparr>)), st1))"

definition memory_unavailable :: string where
  "memory_unavailable = ''Memory storage is not available for this agent.''"

definition memory_stored_prefix :: string where
  "memory_stored_prefix = ''Memory stored successfully''"

definition memory_duplicate_text :: string where
  "memory_duplicate_text =
     ''Memory already stored for this item '' @ [CHR 0xE2, CHR 0x80, CHR 0x94]
     @ '' no action needed. Continue with the next fact.''"

definition memory_store_handler :: "'w handler" where
  "memory_store_handler env tc st =
     (if tc_name tc \<noteq> ''memory_store'' then (None, st)
      else
        let (content, category) = js_memory (de_json env) (tc_args tc);
            st1 = emit [call_start tc] st
        in case de_memory env of
             None \<Rightarrow> memory_answer env tc memory_unavailable st1
           | Some mem \<Rightarrow>
               let key = normalize_key content in
               if key \<in> ds_stored_keys st1 then memory_answer env tc memory_duplicate_text st1
               else
                 let (text, w) = mem_store mem content category (ds_world st1);
                     st2 = st1\<lparr>ds_world := w\<rparr>;
                     st3 = (if has_prefix text memory_stored_prefix
                            then st2\<lparr>ds_stored_keys := insert key (ds_stored_keys st2)\<rparr> else st2)
                 in memory_answer env tc text st3)"

definition bulk_done_text :: "nat \<Rightarrow> string" where
  "bulk_done_text n =
     ''All '' @ itoa (int n) @ '' facts are already stored '' @ [CHR 0xE2, CHR 0x80, CHR 0x94]
     @ '' no action needed. Provide your response to the user now.''"

definition memory_store_bulk_handler :: "'w handler" where
  "memory_store_bulk_handler env tc st =
     (if tc_name tc \<noteq> ''memory_store_bulk'' then (None, st)
      else
        let facts = js_bulk (de_json env) (tc_args tc);
            keys = map (\<lambda>(content, _). normalize_key content) facts;
            st1 = emit [call_start tc] st
        in case de_memory env of
             None \<Rightarrow> memory_answer env tc memory_unavailable st1
           | Some mem \<Rightarrow>
               if facts \<noteq> [] \<and> set keys \<subseteq> ds_stored_keys st1 then
                 memory_answer env tc (bulk_done_text (length facts)) st1
               else
                 (case mem_store_bulk mem facts (ds_world st1) of
                    (text, w) \<Rightarrow>
                      memory_answer env tc text
                        (st1\<lparr>ds_world := w, ds_stored_keys := set keys \<union> ds_stored_keys st1\<rparr>)))"

definition memory_recall_handler :: "'w handler" where
  "memory_recall_handler env tc st =
     (if tc_name tc \<noteq> ''memory_recall'' then (None, st)
      else
        let query = js_query (de_json env) (tc_args tc);
            st1 = emit [call_start tc] st;
            (text, w) =
              (case de_memory env of
                 None \<Rightarrow> (''Memory recall is not available for this agent.'', ds_world st1)
               | Some mem \<Rightarrow>
                   if query = [] then
                     (''Empty query '' @ [CHR 0xE2, CHR 0x80, CHR 0x94] @ '' provide what you want to recall.'', ds_world st1)
                   else
                     (case mem_recall mem query (ds_world st1) of
                        (Inl err, w) \<Rightarrow> (''Memory recall failed: '' @ de_scrub env err, w)
                      | (Inr found, w) \<Rightarrow>
                          (if found = [] then ''No relevant memories found for this query.'' else found, w)))
        in (Some (Answered (output_result (tc_name tc) (js_string (de_json env) text))),
            emit [call_done tc] (st1\<lparr>ds_world := w\<rparr>)))"

definition tool_search_handler :: "'w handler" where
  "tool_search_handler env tc st =
     (case de_tool_search env of
        Some search \<Rightarrow>
          if tc_name tc = ''tool_search''
          then (Some (Answered (search (tc_args tc))), emit [call_start tc, call_done tc] st)
          else (None, st)
      | None \<Rightarrow> (None, st))"

definition is_canvas_tool_call :: "string \<Rightarrow> bool" where
  "is_canvas_tool_call name = (name \<in> {''canvas_update'', ''canvas_feedback'', ''canvas_export_table''})"

definition canvas_handler :: "'w handler" where
  "canvas_handler env tc st =
     (if \<not> is_canvas_tool_call (tc_name tc) then (None, st)
      else case de_canvas env tc of
             (r, evs) \<Rightarrow> (Some (Answered r), emit (call_start tc # evs @ [call_done tc]) st))"

definition agent_handler :: "'w handler" where
  "agent_handler env tc st =
     (case de_subtasks env of
        None \<Rightarrow> (None, st)
      | Some _ \<Rightarrow> if tc_name tc = ''agent'' then (Some (SubAgent tc), st) else (None, st))"

definition send_message_handler :: "'w handler" where
  "send_message_handler env tc st =
     (case de_send_message env of
        Some send \<Rightarrow>
          if tc_name tc = ''send_message''
          then (case send tc (ds_world st) of
                  (r, evs, w) \<Rightarrow> (Some (Answered r), emit evs (st\<lparr>ds_world := w\<rparr>)))
          else (None, st)
      | None \<Rightarrow> (None, st))"

section \<open>One call, one turn\<close>

definition gates :: "'w handler list" where
  "gates = [retry_gate, allowed_gate, frontend_handler, permission_gate, destructive_gate]"

definition builtins :: "'w handler list" where
  "builtins =
     [fork_handler, ask_user_blocked_handler, ask_user_handler, manage_handler, memory_store_handler,
      memory_store_bulk_handler, memory_recall_handler, tool_search_handler, canvas_handler,
      agent_handler, send_message_handler]"

definition dispatch_call :: "'w dispatch_env \<Rightarrow> tool_call \<Rightarrow> 'w dispatch_state \<Rightarrow> route \<times> 'w dispatch_state" where
  "dispatch_call env tc st = run_handlers (gates @ builtins) env tc st"

fun dispatch_calls :: "'w dispatch_env \<Rightarrow> tool_call list \<Rightarrow> 'w dispatch_state \<Rightarrow> route list \<times> 'w dispatch_state" where
  "dispatch_calls env [] st = ([], st)"
| "dispatch_calls env (tc # tcs) st =
     (case dispatch_call env tc st of
        (r, st1) \<Rightarrow> (case dispatch_calls env tcs st1 of (rs, st2) \<Rightarrow> (r # rs, st2)))"

text \<open>Results of the executors go back to the positions of their calls; a missing one stays zero.\<close>

fun place_results :: "route list \<Rightarrow> tool_exec_result list \<Rightarrow> tool_exec_result list \<Rightarrow> tool_exec_result list" where
  "place_results [] reg ag = []"
| "place_results (Answered r # rs) reg ag = r # place_results rs reg ag"
| "place_results (Regular # rs) reg ag =
     (case reg of [] \<Rightarrow> zero_result | x # _ \<Rightarrow> x) # place_results rs (tl reg) ag"
| "place_results (SubAgent _ # rs) reg ag =
     (case ag of [] \<Rightarrow> zero_result | x # _ \<Rightarrow> x) # place_results rs reg (tl ag)"

definition regular_calls :: "tool_call list \<Rightarrow> route list \<Rightarrow> tool_call list" where
  "regular_calls tcs rs = map fst (filter (\<lambda>(_, r). r = Regular) (zip tcs rs))"

fun sub_agent_calls :: "route list \<Rightarrow> tool_call list" where
  "sub_agent_calls [] = []"
| "sub_agent_calls (SubAgent tc # rs) = tc # sub_agent_calls rs"
| "sub_agent_calls (_ # rs) = sub_agent_calls rs"

definition allow_succeeded :: "(tool_call \<times> tool_exec_result) list \<Rightarrow> denial_tracker option \<Rightarrow> denial_tracker option" where
  "allow_succeeded done dt =
     (case dt of
        None \<Rightarrow> None
      | Some d \<Rightarrow> Some (foldl (\<lambda>d (tc, r). if er_error r = None then record_tool_allow (tc_name tc) d else d) d done))"

definition run_regular :: "'w dispatch_env \<Rightarrow> tool_call list \<Rightarrow> 'w dispatch_state \<Rightarrow> tool_exec_result list \<times> 'w dispatch_state" where
  "run_regular env tcs st =
     (if tcs = [] then ([], st)
      else case de_execute_all env tcs (ds_world st) of
             (rs, evs, w) \<Rightarrow>
               (rs, emit evs (st\<lparr>ds_world := w, ds_denials := allow_succeeded (zip tcs rs) (ds_denials st)\<rparr>)))"

definition run_sub_agents :: "'w dispatch_env \<Rightarrow> tool_call list \<Rightarrow> 'w dispatch_state \<Rightarrow> tool_exec_result list \<times> 'w dispatch_state" where
  "run_sub_agents env tcs st =
     (case de_subtasks env of
        Some exec \<Rightarrow>
          if tcs = [] then ([], st)
          else (case exec tcs (ds_world st) of (rs, evs, w) \<Rightarrow> (rs, emit evs (st\<lparr>ds_world := w\<rparr>)))
      | None \<Rightarrow> ([], st))"

definition execute_with_permissions :: "'w dispatch_env \<Rightarrow> tool_call list \<Rightarrow> 'w dispatch_state \<Rightarrow> tool_exec_result list \<times> 'w dispatch_state" where
  "execute_with_permissions env tcs st =
     (let (routes, st1) = dispatch_calls env tcs st;
          (reg, st2) = run_regular env (regular_calls tcs routes) st1;
          (ag, st3) = run_sub_agents env (sub_agent_calls routes) st2
      in (place_results routes reg ag, st3))"

end
