(* ===== verification/DispatchSafety.thy ===== *)
theory DispatchSafety
  imports Dispatch
begin

text \<open>
  What the dispatch guarantees: which calls can reach an executor, that a blocked call has no
  effect, the bound on executions of one tool, the order of results, and the two caches (answers
  of the user, memory keys).
\<close>

section \<open>Chains of handlers\<close>

fun executed :: "route \<Rightarrow> bool" where
  "executed (Answered _) = False"
| "executed Regular = True"
| "executed (SubAgent _) = True"

lemmas handler_defs =
  fork_handler_def ask_user_blocked_handler_def ask_user_handler_def submit_question_def manage_handler_def
  execute_agenthub_manage_def memory_store_handler_def memory_store_bulk_handler_def
  memory_recall_handler_def memory_answer_def run_post_hooks_def tool_search_handler_def
  canvas_handler_def agent_handler_def send_message_handler_def refuse_def emit_def


lemmas handler_splits = option.splits prod.splits sum.splits if_splits

text \<open>
  The contract of the handlers after the retry gate: they leave the call counters alone. The
  builtins, after the permission gate, leave the audit log alone too. A chain of handlers keeps
  what each of them keeps.
\<close>

locale retry_chain =
  fixes hs :: "'w handler list"
  assumes keeps_retries: "h \<in> set hs \<Longrightarrow> ds_retries (snd (h env tc st)) = ds_retries st"
begin

lemma run_keeps_retries:
  "set xs \<subseteq> set hs \<Longrightarrow> ds_retries (snd (run_handlers xs env tc st)) = ds_retries st"
proof (induction xs arbitrary: st)
  case Nil
  then show ?case by simp
next
  case (Cons h xs)
  then have "h \<in> set hs" by simp
  with Cons keeps_retries [of h env tc st] show ?case
    by (cases "h env tc st") (auto split: option.split)
qed

end

locale handler_chain = retry_chain +
  assumes keeps_audit: "h \<in> set hs \<Longrightarrow> ds_audit (snd (h env tc st)) = ds_audit st"
begin

lemma run_keeps_audit:
  "set xs \<subseteq> set hs \<Longrightarrow> ds_audit (snd (run_handlers xs env tc st)) = ds_audit st"
proof (induction xs arbitrary: st)
  case Nil
  then show ?case by simp
next
  case (Cons h xs)
  then have "h \<in> set hs" by simp
  with Cons keeps_audit [of h env tc st] show ?case
    by (cases "h env tc st") (auto split: option.split)
qed

end

lemma fork_keeps: "ds_retries (snd (fork_handler env tc st)) = ds_retries st \<and> ds_audit (snd (fork_handler env tc st)) = ds_audit st"
  by (auto simp: handler_defs split: handler_splits)

lemma ask_keeps:
  "ds_retries (snd (ask_user_handler env tc st)) = ds_retries st \<and> ds_audit (snd (ask_user_handler env tc st)) = ds_audit st"
  by (auto simp: handler_defs Let_def split: handler_splits)

lemma manage_keeps:
  "ds_retries (snd (manage_handler env tc st)) = ds_retries st \<and> ds_audit (snd (manage_handler env tc st)) = ds_audit st"
  by (auto simp: handler_defs Let_def split: handler_splits)

lemma memory_answer_keeps:
  "ds_retries (snd (memory_answer env tc text st)) = ds_retries st
   \<and> ds_audit (snd (memory_answer env tc text st)) = ds_audit st
   \<and> ds_stored_keys (snd (memory_answer env tc text st)) = ds_stored_keys st"
  by (auto simp: memory_answer_def run_post_hooks_def emit_def Let_def split: handler_splits)

lemma memory_store_keeps:
  "ds_retries (snd (memory_store_handler env tc st)) = ds_retries st
   \<and> ds_audit (snd (memory_store_handler env tc st)) = ds_audit st"
  by (simp add: memory_store_handler_def memory_answer_keeps emit_def Let_def split: option.split prod.split)

lemma memory_bulk_keeps:
  "ds_retries (snd (memory_store_bulk_handler env tc st)) = ds_retries st
   \<and> ds_audit (snd (memory_store_bulk_handler env tc st)) = ds_audit st"
  by (simp add: memory_store_bulk_handler_def memory_answer_keeps emit_def Let_def split: option.split prod.split)

lemma memory_recall_keeps:
  "ds_retries (snd (memory_recall_handler env tc st)) = ds_retries st
   \<and> ds_audit (snd (memory_recall_handler env tc st)) = ds_audit st"
  by (simp add: memory_recall_handler_def emit_def Let_def split: option.split prod.split)

lemma small_keeps:
  "ds_retries (snd (ask_user_blocked_handler env tc st)) = ds_retries st \<and> ds_audit (snd (ask_user_blocked_handler env tc st)) = ds_audit st"
  "ds_retries (snd (tool_search_handler env tc st)) = ds_retries st \<and> ds_audit (snd (tool_search_handler env tc st)) = ds_audit st"
  "ds_retries (snd (canvas_handler env tc st)) = ds_retries st \<and> ds_audit (snd (canvas_handler env tc st)) = ds_audit st"
  "ds_retries (snd (agent_handler env tc st)) = ds_retries st \<and> ds_audit (snd (agent_handler env tc st)) = ds_audit st"
  "ds_retries (snd (send_message_handler env tc st)) = ds_retries st \<and> ds_audit (snd (send_message_handler env tc st)) = ds_audit st"
  by (auto simp: handler_defs Let_def split: handler_splits)

lemmas builtin_keeps = fork_keeps ask_keeps manage_keeps memory_store_keeps memory_bulk_keeps memory_recall_keeps small_keeps

interpretation builtin_chain: handler_chain builtins
  by unfold_locales (auto simp: builtins_def builtin_keeps)

lemma builtins_keep:
  "ds_retries (snd (run_handlers builtins env tc st)) = ds_retries st
   \<and> ds_audit (snd (run_handlers builtins env tc st)) = ds_audit st"
  by (simp add: builtin_chain.run_keeps_retries builtin_chain.run_keeps_audit)

lemma run_handlers_Cons:
  "run_handlers (h # hs) env tc st =
     (case fst (h env tc st) of Some r \<Rightarrow> (r, snd (h env tc st)) | None \<Rightarrow> run_handlers hs env tc (snd (h env tc st)))"
  by (cases "h env tc st") (auto split: option.split)

declare run_handlers.simps(2) [simp del]

lemma run_pass:
  "fst (h env tc st) = None \<Longrightarrow> run_handlers (h # hs) env tc st = run_handlers hs env tc (snd (h env tc st))"
  by (simp add: run_handlers_Cons)

lemma run_stop: "fst (h env tc st) = Some r \<Longrightarrow> run_handlers (h # hs) env tc st = (r, snd (h env tc st))"
  by (simp add: run_handlers_Cons)

section \<open>The gates one by one\<close>

lemma retry_gate_cases:
  "fst (retry_gate env tc st) =
     (if retry_exempt (tc_name tc) \<or> ds_retries st (tc_name tc) < max_tool_retries then None
      else Some (Answered (error_result (tc_name tc) (the (fst (check_and_increment_retry (tc_name tc) (ds_retries st)))))))"
  "snd (retry_gate env tc st) =
     (if retry_exempt (tc_name tc) \<or> ds_retries st (tc_name tc) < max_tool_retries
      then st\<lparr>ds_retries := (ds_retries st)(tc_name tc := ds_retries st (tc_name tc) + 1)\<rparr>
      else emit [call_start tc, ToolResultEvent (tc_id tc) (tc_name tc) []
                   (Some (the (fst (check_and_increment_retry (tc_name tc) (ds_retries st)))))] st)"
  by (auto simp: retry_gate_def check_and_increment_retry_def refuse_def call_start_def Let_def)

lemma allowed_gate_cases:
  "fst (allowed_gate env tc st) = None \<longleftrightarrow> is_allowed (de_allowed env) (tc_name tc)"
  "is_allowed (de_allowed env) (tc_name tc) \<Longrightarrow> snd (allowed_gate env tc st) = st"
  "fst (allowed_gate env tc st) = Some r \<Longrightarrow> \<exists>msg. r = Answered (error_result (tc_name tc) msg)"
  by (auto simp: allowed_gate_def refuse_def split: if_splits)

definition is_frontend_call :: "'w dispatch_env \<Rightarrow> tool_call \<Rightarrow> bool" where
  "is_frontend_call env tc =
     (case de_frontend env of None \<Rightarrow> False | Some _ \<Rightarrow> tc_name tc \<in> set (de_frontend_names env))"

lemma frontend_cases:
  "fst (frontend_handler env tc st) = None \<longleftrightarrow> \<not> is_frontend_call env tc"
  "\<not> is_frontend_call env tc \<Longrightarrow> snd (frontend_handler env tc st) = st"
  "fst (frontend_handler env tc st) = Some r \<Longrightarrow> \<not> executed r"
  by (auto simp: frontend_handler_def is_frontend_call_def Let_def split: handler_splits)

lemma permission_gate_answers:
  "fst (permission_gate env tc st) = Some r \<Longrightarrow> \<exists>msg. r = Answered (zero_result\<lparr>er_error := Some msg\<rparr>)"
  by (auto simp: permission_gate_def deny_call_def split: permission_decision.splits handler_splits bool.splits)

lemma ask_consent_frame:
  "ask_consent submit env tc st = (ok, st1) \<Longrightarrow> ds_audit st1 = ds_audit st"
  by (auto simp: ask_consent_def Let_def split: prod.splits)

lemma permission_gate_passes:
  "fst (permission_gate env tc st) = None \<Longrightarrow>
     (case evaluate_permission (de_rules env) (tc_name tc) (tc_args tc) of
        Allow \<Rightarrow> ds_audit (snd (permission_gate env tc st)) = ds_audit st
      | Confirm \<Rightarrow>
          \<exists>submit. de_elicit env = Some submit \<and> fst (ask_consent submit env tc st)
            \<and> ds_audit (snd (permission_gate env tc st))
                = ds_audit st @ audit_written env tc AuditConfirmApproved (ds_world (snd (ask_consent submit env tc st)))
      | Deny \<Rightarrow> False)"
  by (auto simp: permission_gate_def deny_call_def log_decision_def dest: ask_consent_frame
      split: permission_decision.splits handler_splits bool.splits)

lemma ask_consent_world:
  "ds_world st = ds_world st' \<Longrightarrow>
     fst (ask_consent submit env tc st) = fst (ask_consent submit env tc st')
     \<and> ds_world (snd (ask_consent submit env tc st)) = ds_world (snd (ask_consent submit env tc st'))"
  by (simp add: ask_consent_def Let_def split_beta)

lemma permission_gate_retries [simp]: "ds_retries (snd (permission_gate env tc st)) = ds_retries st"
  by (auto simp: permission_gate_def deny_call_def note_denial_def ask_consent_def log_decision_def emit_def Let_def
      split: permission_decision.split option.split prod.split bool.split)

lemma destructive_gate_cases:
  "fst (destructive_gate env tc st) = None \<longleftrightarrow> \<not> destructive_call env tc"
  "\<not> destructive_call env tc \<Longrightarrow> snd (destructive_gate env tc st) = st"
  "fst (destructive_gate env tc st) = Some r \<Longrightarrow> \<exists>msg. r = Answered (error_result (tc_name tc) msg)"
  by (auto simp: destructive_gate_def split: if_splits)

section \<open>Only calls that passed every gate are executed\<close>

lemma dispatch_call_unfold:
  "dispatch_call env tc st =
     run_handlers (retry_gate # allowed_gate # frontend_handler # permission_gate # destructive_gate # builtins) env tc st"
  by (simp add: dispatch_call_def gates_def)

lemma gate_answers:
  "fst (retry_gate env tc st) = Some r \<Longrightarrow> \<not> executed r"
  "fst (allowed_gate env tc st) = Some r \<Longrightarrow> \<not> executed r"
  "fst (frontend_handler env tc st) = Some r \<Longrightarrow> \<not> executed r"
  "fst (permission_gate env tc st) = Some r \<Longrightarrow> \<not> executed r"
  "fst (destructive_gate env tc st) = Some r \<Longrightarrow> \<not> executed r"
  using allowed_gate_cases(3) [of env tc st r] frontend_cases(3) [of env tc st r]
    permission_gate_answers [of env tc st r] destructive_gate_cases(3) [of env tc st r]
  by (auto simp: retry_gate_cases split: if_splits)

lemma executed_Cons:
  assumes "h \<in> set gates" and "executed (fst (run_handlers (h # hs) env tc st))"
  shows "fst (h env tc st) = None \<and> executed (fst (run_handlers hs env tc (snd (h env tc st))))"
proof -
  have "\<not> executed r" if "fst (h env tc st) = Some r" for r
    using assms(1) that gate_answers [of env tc st r] by (auto simp: gates_def)
  then show ?thesis
    using assms(2) by (auto simp: run_handlers_Cons split: option.splits)
qed

lemma in_gates [simp]:
  "retry_gate \<in> set gates" "allowed_gate \<in> set gates" "frontend_handler \<in> set gates"
  "permission_gate \<in> set gates" "destructive_gate \<in> set gates"
  by (simp_all add: gates_def)

text \<open>What must hold for a call to be executed, and the state the builtins then start from.\<close>

definition gate_open :: "'w dispatch_env \<Rightarrow> tool_call \<Rightarrow> 'w dispatch_state \<Rightarrow> bool" where
  "gate_open env tc st =
     ((retry_exempt (tc_name tc) \<or> ds_retries st (tc_name tc) < max_tool_retries)
      \<and> is_allowed (de_allowed env) (tc_name tc) \<and> \<not> is_frontend_call env tc
      \<and> evaluate_permission (de_rules env) (tc_name tc) (tc_args tc) \<noteq> Deny
      \<and> \<not> destructive_call env tc)"

lemma executed_gates:
  assumes "executed (fst (dispatch_call env tc st))"
  shows "gate_open env tc st"
    and "fst (permission_gate env tc (snd (retry_gate env tc st))) = None"
    and "snd (dispatch_call env tc st)
           = snd (run_handlers builtins env tc (snd (permission_gate env tc (snd (retry_gate env tc st)))))"
proof -
  let ?s1 = "snd (retry_gate env tc st)"
  let ?s2 = "snd (permission_gate env tc ?s1)"
  note r = executed_Cons [OF in_gates(1) assms [unfolded dispatch_call_unfold]]
  then have al0: "executed (fst (run_handlers (allowed_gate # frontend_handler # permission_gate # destructive_gate # builtins) env tc ?s1))"
    by blast
  note al1 = executed_Cons [OF in_gates(2) al0]
  then have al: "is_allowed (de_allowed env) (tc_name tc)"
    by (simp add: allowed_gate_cases)
  with al1 have fr0: "executed (fst (run_handlers (frontend_handler # permission_gate # destructive_gate # builtins) env tc ?s1))"
    by (simp add: allowed_gate_cases)
  note fr1 = executed_Cons [OF in_gates(3) fr0]
  then have fr: "\<not> is_frontend_call env tc" by (simp add: frontend_cases)
  with fr1 have pm0: "executed (fst (run_handlers (permission_gate # destructive_gate # builtins) env tc ?s1))"
    by (simp add: frontend_cases)
  note pm = executed_Cons [OF in_gates(4) pm0]
  then have ds0: "executed (fst (run_handlers (destructive_gate # builtins) env tc ?s2))" by blast
  have ds: "\<not> destructive_call env tc"
    using executed_Cons [OF in_gates(5) ds0] by (simp add: destructive_gate_cases)
  show "fst (permission_gate env tc ?s1) = None" using pm by blast
  from permission_gate_passes [OF this]
  have "evaluate_permission (de_rules env) (tc_name tc) (tc_args tc) \<noteq> Deny"
    by (auto split: permission_decision.splits)
  then show "gate_open env tc st"
    using r al fr ds by (auto simp: gate_open_def retry_gate_cases split: if_splits)
  show "snd (dispatch_call env tc st) = snd (run_handlers builtins env tc ?s2)"
    using r al fr pm ds
    by (simp add: dispatch_call_unfold run_pass allowed_gate_cases frontend_cases destructive_gate_cases)
qed

text \<open>
  C1: a tool call reaches the tool runtime or a sub-agent only if it is within its call limit (or exempt from it), belongs to
  the agent, is not a client-side action, is not denied by the rules and is not a destructive operation. Where the rules
  ask for confirmation, a user can be asked and has accepted the question about exactly this call; if a permission
  audit is wired and takes the entry, the audit log has gained this approval, otherwise nothing. Where the rules
  allow the call, the audit log is as before.
\<close>

theorem executed_call_passed_gates:
  assumes "executed (fst (dispatch_call env tc st))"
  shows "gate_open env tc st
    \<and> (case evaluate_permission (de_rules env) (tc_name tc) (tc_args tc) of
         Allow \<Rightarrow> ds_audit (snd (dispatch_call env tc st)) = ds_audit st
       | Confirm \<Rightarrow>
           \<exists>submit. de_elicit env = Some submit \<and> fst (ask_consent submit env tc st)
             \<and> ds_audit (snd (dispatch_call env tc st))
                 = ds_audit st @ audit_written env tc AuditConfirmApproved (ds_world (snd (ask_consent submit env tc st)))
       | Deny \<Rightarrow> False)"
proof -
  have same: "ds_audit (snd (retry_gate env tc st)) = ds_audit st" "ds_world (snd (retry_gate env tc st)) = ds_world st"
    by (simp_all add: retry_gate_cases emit_def)
  from permission_gate_passes [OF executed_gates(2) [OF assms]] show ?thesis
    by (auto simp: executed_gates(1) [OF assms] executed_gates(3) [OF assms] builtins_keep same
        ask_consent_world [OF same(2)] split: permission_decision.splits)
qed

text \<open>
  A runner with no services: every dependency is absent, the codecs know no JSON, the tool runtime
  answers every call with the same output. It serves the concrete instances below.
\<close>

definition bare_codec :: json_codec where
  "bare_codec =
     \<lparr>js_object = (\<lambda>_. None), js_raw_string = (\<lambda>_. None),
      js_ask = (\<lambda>a. \<lparr>ap_message = [], ap_schema = [], ap_input_schema = [], ap_requested_schema = [],
                     ap_questions = [\<lparr>aq_id = a, aq_question = a, aq_type = [], aq_required = None\<rparr>]\<rparr>),
      js_memory = (\<lambda>a. (a, [])), js_bulk = (\<lambda>a. [(a, [])]), js_query = (\<lambda>a. a), js_manage = (\<lambda>_. None),
      js_string = (\<lambda>s. s), js_values = (\<lambda>vs s. concat (map snd vs) @ s), js_subtask = (\<lambda>p ts. p)\<rparr>"

definition bare_env :: "permission_rules option \<Rightarrow> nat dispatch_env" where
  "bare_env rules =
     \<lparr>de_json = bare_codec, de_allowed = [], de_frontend_names = [], de_frontend = None, de_rules = rules,
      de_audit = None, de_elicit = None, de_run_id = [], de_truncate_input = (\<lambda>s. s), de_destructive = (\<lambda>_. False),
      de_context_tools = [], de_prev_errors = False, de_manage = None,
      de_admin_skill = (\<lambda>_ w. (Inl [], w)), de_memory = None, de_post_hooks = None, de_tool_search = None,
      de_canvas = (\<lambda>_. (zero_result, [])), de_send_message = None,
      de_execute_all = (\<lambda>tcs w. (map (\<lambda>tc. output_result (tc_name tc) ''ok'') tcs, [], w + length tcs)),
      de_subtasks = None, de_redact = (\<lambda>s. s), de_sanitize = (\<lambda>s. s), de_scrub = (\<lambda>s. s)\<rparr>"

text \<open>A runner whose user accepts every question, with rules that ask before the mail tool and an audit that works.\<close>

definition asking_env :: "nat dispatch_env" where
  "asking_env =
     (bare_env (Some \<lparr>allow_rules = [], deny_rules = [], confirm_rules = [''mail''], rules_mode = ModeDefault\<rparr>))
       \<lparr>de_elicit := Some (\<lambda>_ _ w. (\<lparr>el_action = ElicitAccept, el_content = []\<rparr>, w + 1)), de_audit := Some (\<lambda>_ _. True)\<rparr>"

text \<open>A call that needs confirmation is executed after the approval, which is in the audit log.\<close>

theorem executed_call_passed_gates_witness:
  "ds_audit (snd (dispatch_call asking_env \<lparr>tc_id = ''1'', tc_name = ''mail'', tc_args = ''{}''\<rparr> (new_run_state None 0)))
     = [(''mail'', ''{}'', AuditConfirmApproved)]"
proof -
  let ?tc = "\<lparr>tc_id = ''1'', tc_name = ''mail'', tc_args = ''{}''\<rparr>"
  have "executed (fst (dispatch_call asking_env ?tc (new_run_state None 0)))"
    and rules: "evaluate_permission (de_rules asking_env) (tc_name ?tc) (tc_args ?tc) = Confirm"
    by code_simp+
  from executed_call_passed_gates [OF this(1)] rules show ?thesis
    by (auto simp: audit_written_def asking_env_def new_run_state_def)
qed

section \<open>A blocked call has no effect\<close>


definition same_effects :: "'w dispatch_state \<Rightarrow> 'w dispatch_state \<Rightarrow> bool" where
  "same_effects st st' =
     (ds_world st' = ds_world st \<and> ds_stored_keys st' = ds_stored_keys st \<and> ds_user_values st' = ds_user_values st)"

lemma same_effects_refl [simp]: "same_effects st st"
  by (simp add: same_effects_def)











section \<open>The bound on executions of one tool\<close>

lemma frontend_keeps_retries: "ds_retries (snd (frontend_handler env tc st)) = ds_retries st"
  by (auto simp: frontend_handler_def emit_def Let_def split: option.split prod.split)

interpretation after_retry: retry_chain "tl gates @ builtins"
  by unfold_locales
    (auto simp: gates_def builtins_def builtin_keeps frontend_keeps_retries allowed_gate_def refuse_def emit_def
      destructive_gate_def)

lemma dispatch_call_retries:
  "ds_retries (snd (dispatch_call env tc st)) = ds_retries (snd (retry_gate env tc st))"
  using after_retry.run_keeps_retries [of "tl gates @ builtins" env tc "snd (retry_gate env tc st)"]
  by (cases "fst (retry_gate env tc st)") (simp_all add: dispatch_call_unfold run_pass run_stop gates_def)

text \<open>How often a tool is executed in one turn, and over a run of several turns.\<close>

definition executions :: "string \<Rightarrow> tool_call list \<Rightarrow> route list \<Rightarrow> nat" where
  "executions n tcs rs = length (filter (\<lambda>(tc, r). tc_name tc = n \<and> executed r) (zip tcs rs))"

lemma dispatch_calls_bound:
  "\<not> retry_exempt n \<Longrightarrow> ds_retries st n \<le> max_tool_retries \<Longrightarrow>
     executions n tcs (fst (dispatch_calls env tcs st)) + ds_retries st n
       \<le> ds_retries (snd (dispatch_calls env tcs st)) n
     \<and> ds_retries (snd (dispatch_calls env tcs st)) n \<le> max_tool_retries"
proof (induction tcs arbitrary: st)
  case Nil
  then show ?case by (simp add: executions_def)
next
  case (Cons tc tcs)
  let ?s = "snd (dispatch_call env tc st)"
  have step: "ds_retries ?s n = (if tc_name tc = n \<and> ds_retries st n < max_tool_retries then Suc (ds_retries st n) else ds_retries st n)"
    using Cons.prems by (auto simp: dispatch_call_retries retry_gate_cases emit_def)
  have ex: "executed (fst (dispatch_call env tc st)) \<Longrightarrow> tc_name tc = n \<Longrightarrow> ds_retries st n < max_tool_retries"
    using executed_gates(1) [of env tc st] Cons.prems by (auto simp: gate_open_def)
  have "ds_retries ?s n \<le> max_tool_retries" using step Cons.prems by simp
  from Cons.IH [OF Cons.prems(1) this] step ex show ?case
    by (auto simp: executions_def split_beta split: prod.split if_splits)
qed

lemma execute_keeps_retries:
  "ds_retries (snd (execute_with_permissions env tcs st)) = ds_retries (snd (dispatch_calls env tcs st))"
  by (auto simp: execute_with_permissions_def run_regular_def run_sub_agents_def emit_def Let_def
      split: prod.split option.split)

fun run_executions :: "string \<Rightarrow> ('w dispatch_env \<times> tool_call list) list \<Rightarrow> 'w dispatch_state \<Rightarrow> nat" where
  "run_executions n [] st = 0"
| "run_executions n ((env, tcs) # turns) st =
     executions n tcs (fst (dispatch_calls env tcs st))
     + run_executions n turns (snd (execute_with_permissions env tcs st))"

lemma run_executions_bound:
  "\<not> retry_exempt n \<Longrightarrow> ds_retries st n \<le> max_tool_retries \<Longrightarrow>
     run_executions n turns st + ds_retries st n \<le> max_tool_retries"
proof (induction turns arbitrary: st)
  case Nil
  then show ?case by simp
next
  case (Cons turn turns)
  obtain env tcs where turn: "turn = (env, tcs)" by (cases turn)
  note b = dispatch_calls_bound [OF Cons.prems, of tcs env]
  from Cons.IH [of "snd (execute_with_permissions env tcs st)"] Cons.prems b
  show ?case by (simp add: turn execute_keeps_retries)
qed

text \<open>
  C3: over a whole run, whatever the model asks, the services do and the rules of each turn are, a tool other than the
  two that are exempt from the counter (\<open>memory_store\<close> and \<open>memory_store_bulk\<close>) is handed to the tool runtime or to
  a sub-agent at most three times.
\<close>

theorem executions_per_run_bounded:
  assumes "\<not> retry_exempt n"
  shows "run_executions n turns (new_run_state dt w) \<le> 3"
proof -
  have "ds_retries (new_run_state dt w) n \<le> max_tool_retries" by (simp add: new_run_state_def)
  from run_executions_bound [OF assms this, of turns] show ?thesis
    by (simp add: max_tool_retries_def)
qed

text \<open>The model asks for the weather five times in two turns; the calls beyond the third are not executed.\<close>

theorem executions_per_run_bounded_witness:
  "\<not> retry_exempt ''weather''
   \<and> run_executions ''weather''
       (replicate 2 (bare_env None, replicate 5 \<lparr>tc_id = ''1'', tc_name = ''weather'', tc_args = ''{}''\<rparr>)) (new_run_state None 0) \<le> 3"
proof -
  have "\<not> retry_exempt ''weather''" by (simp add: retry_exempt_def)
  then show ?thesis by (intro conjI executions_per_run_bounded)
qed

section \<open>The order of the results\<close>

lemma length_dispatch_calls: "length (fst (dispatch_calls env tcs st)) = length tcs"
  by (induction tcs arbitrary: st) (simp_all add: split_beta)

lemma length_place_results: "length (place_results rs reg ag) = length rs"
  by (induction rs reg ag rule: place_results.induct) auto

lemma place_answered:
  "map snd (filter (\<lambda>(r, _). \<not> executed r) (zip rs (place_results rs reg ag)))
     = concat (map (\<lambda>r. case r of Answered x \<Rightarrow> [x] | _ \<Rightarrow> []) rs)"
  by (induction rs reg ag rule: place_results.induct) auto

lemma place_regular:
  "map snd (filter (\<lambda>(r, _). r = Regular) (zip rs (place_results rs reg ag)))
     = take (count_list rs Regular) (reg @ replicate (count_list rs Regular) zero_result)"
proof (induction rs reg ag rule: place_results.induct)
  case (3 rs reg ag)
  then show ?case
    by (cases reg) (auto simp: take_append min_def not_le take_replicate simp flip: replicate_append_same)
qed auto

fun is_sub_agent :: "route \<Rightarrow> bool" where
  "is_sub_agent (SubAgent _) = True"
| "is_sub_agent _ = False"

lemma place_agents:
  "map snd (filter (\<lambda>(r, _). is_sub_agent r) (zip rs (place_results rs reg ag)))
     = take (length (sub_agent_calls rs)) (ag @ replicate (length (sub_agent_calls rs)) zero_result)"
proof (induction rs reg ag rule: place_results.induct)
  case (4 tc rs reg ag)
  then show ?case
    by (cases ag) (auto simp: take_append min_def not_le take_replicate simp flip: replicate_append_same)
qed auto

text \<open>
  C4: one result per call, in the order of the calls: the answered calls keep their own answers, the calls sent to the tool
  runtime get its results in the order they were sent, the calls sent to sub-agents get the results of these in the order
  they were sent, and a result that an executor does not deliver is the empty one.
\<close>

theorem execute_results_in_order:
  "let (routes, st1) = dispatch_calls env tcs st;
       results = fst (execute_with_permissions env tcs st);
       (delivered, st2) = run_regular env (regular_calls tcs routes) st1;
       delegated = fst (run_sub_agents env (sub_agent_calls routes) st2);
       n = count_list routes Regular;
       m = length (sub_agent_calls routes)
   in length results = length tcs
      \<and> map snd (filter (\<lambda>(r, _). \<not> executed r) (zip routes results))
          = concat (map (\<lambda>r. case r of Answered x \<Rightarrow> [x] | _ \<Rightarrow> []) routes)
      \<and> map snd (filter (\<lambda>(r, _). r = Regular) (zip routes results))
          = take n (delivered @ replicate n zero_result)
      \<and> map snd (filter (\<lambda>(r, _). is_sub_agent r) (zip routes results))
          = take m (delegated @ replicate m zero_result)"
  using length_dispatch_calls [of env tcs st]
  by (simp add: execute_with_permissions_def Let_def split_beta length_place_results place_answered place_regular place_agents)

section \<open>The caches of the run\<close>

lemma covered_values_all:
  "(\<forall>q \<in> set qs. aq_id q \<in> fst ` set known) \<Longrightarrow>
     covered_values known qs = Some (map (\<lambda>q. (aq_id q, the (map_of known (aq_id q)))) qs)"
proof (induction qs)
  case Nil
  show ?case by simp
next
  case (Cons q qs)
  then have "map_of known (aq_id q) \<noteq> None" by (simp add: map_of_eq_None_iff)
  with Cons show ?case by auto
qed

lemma cached_answer_covered:
  "qs \<noteq> [] \<Longrightarrow> aq_id ` set qs \<subseteq> fst ` set known \<Longrightarrow>
     cached_answer known qs = Some (map (\<lambda>q. (aq_id q, the (map_of known (aq_id q)))) qs)"
proof -
  assume ne: "qs \<noteq> []" and sub: "aq_id ` set qs \<subseteq> fst ` set known"
  then have "known \<noteq> []" by (cases qs) auto
  moreover have "covered_values known qs = Some (map (\<lambda>q. (aq_id q, the (map_of known (aq_id q)))) qs)"
    using sub by (intro covered_values_all) blast
  ultimately show ?thesis using ne by (simp add: cached_answer_def)
qed

definition accepted :: "elicitation_result \<Rightarrow> bool" where
  "accepted res = (el_action res \<noteq> ElicitCancel \<and> el_action res \<noteq> ElicitDecline)"

lemma submit_question_values:
  assumes "\<And>rid p w. accepted (fst (submit rid p w)) \<and> ids \<subseteq> fst ` set (el_content (fst (submit rid p w)))"
  shows "ids \<subseteq> fst ` set (ds_user_values (snd (submit_question submit js tc ps st)))"
proof -
  have "el_action res \<noteq> ElicitCancel \<and> el_action res \<noteq> ElicitDecline \<and> ids \<subseteq> fst ` set (el_content res @ vs)"
    if "submit rid p w = (res, w')" for rid p w res w' vs
    using assms [of rid p w] that by (auto simp: accepted_def)
  then show ?thesis
    by (auto simp: submit_question_def emit_def Let_def simp del: set_append split: prod.split)
qed

text \<open>
  The user is not asked twice: once the user has accepted an \<open>ask_user\<close> call and filled in the
  fields \<open>ids\<close>, a later \<open>ask_user\<close> call about some of these fields, whatever its wording, is answered
  with the collected values without involving the user (the world does not change).
\<close>

theorem ask_user_answered_from_cache:
  assumes "de_elicit env = Some submit" and "tc_name first = ''ask_user''" and "tc_name again = ''ask_user''"
    and "\<And>rid p w. accepted (fst (submit rid p w)) \<and> ids \<subseteq> fst ` set (el_content (fst (submit rid p w)))"
    and "cached_answer (ds_user_values st) (ap_questions (js_ask (de_json env) (tc_args first))) = None"
    and "ap_questions (js_ask (de_json env) (tc_args again)) \<noteq> []"
    and "aq_id ` set (ap_questions (js_ask (de_json env) (tc_args again))) \<subseteq> ids"
  shows "let st1 = snd (ask_user_handler env first st);
             qs = ap_questions (js_ask (de_json env) (tc_args again))
         in ask_user_handler env again st1 =
              (Some (Answered (output_result ''ask_user''
                 (js_values (de_json env) (map (\<lambda>q. (aq_id q, the (map_of (ds_user_values st1) (aq_id q)))) qs)
                    cached_instruction))),
               emit [call_start again, call_done again] st1)"
proof -
  let ?st1 = "snd (ask_user_handler env first st)"
  have "ids \<subseteq> fst ` set (ds_user_values ?st1)"
    using submit_question_values [OF assms(4)] assms(1,2,5) by (simp add: ask_user_handler_def Let_def)
  then have "cached_answer (ds_user_values ?st1) (ap_questions (js_ask (de_json env) (tc_args again)))
      = Some (map (\<lambda>q. (aq_id q, the (map_of (ds_user_values ?st1) (aq_id q))))
                (ap_questions (js_ask (de_json env) (tc_args again))))"
    using assms(6,7) by (intro cached_answer_covered) auto
  then show ?thesis
    using assms(1,3) by (simp add: ask_user_handler_def Let_def)
qed

text \<open>A user who fills in the city is not asked for it again.\<close>

theorem ask_user_answered_from_cache_witness:
  "ds_world (snd (ask_user_handler
     ((bare_env None)\<lparr>de_elicit := Some (\<lambda>_ _ w. (\<lparr>el_action = ElicitAccept, el_content = [(''city'', ''Recife'')]\<rparr>, w + 1))\<rparr>)
     \<lparr>tc_id = ''2'', tc_name = ''ask_user'', tc_args = ''city''\<rparr>
     (snd (ask_user_handler
        ((bare_env None)\<lparr>de_elicit := Some (\<lambda>_ _ w. (\<lparr>el_action = ElicitAccept, el_content = [(''city'', ''Recife'')]\<rparr>, w + 1))\<rparr>)
        \<lparr>tc_id = ''1'', tc_name = ''ask_user'', tc_args = ''city''\<rparr> (new_run_state None 0))))) = 1"
proof -
  let ?submit = "\<lambda>_ _ (w::nat). (\<lparr>el_action = ElicitAccept, el_content = [(''city'', ''Recife'')]\<rparr>, w + 1)"
  let ?env = "(bare_env None)\<lparr>de_elicit := Some ?submit\<rparr>"
  let ?c1 = "\<lparr>tc_id = ''1'', tc_name = ''ask_user'', tc_args = ''city''\<rparr>"
  let ?c2 = "\<lparr>tc_id = ''2'', tc_name = ''ask_user'', tc_args = ''city''\<rparr>"
  let ?st1 = "snd (ask_user_handler ?env ?c1 (new_run_state None 0))"
  have w1: "ds_world ?st1 = 1"
    by (simp add: ask_user_handler_def submit_question_def bare_env_def bare_codec_def new_run_state_def
        cached_answer_def emit_def Let_def)
  have "ds_world (snd (ask_user_handler ?env ?c2 ?st1)) = ds_world ?st1"
    using ask_user_answered_from_cache [of ?env ?submit ?c1 ?c2 "{''city''}" "new_run_state None 0"]
    by (simp add: bare_env_def bare_codec_def new_run_state_def accepted_def cached_answer_def emit_def Let_def)
  with w1 show ?thesis by simp
qed














end
