(* ===== verification/RingBuffer.thy ===== *)
theory RingBuffer
  imports Prelude GoStrings "HOL-Library.Word"
begin

text \<open>
  Two ring buffers: the generic one of
  \<^verbatim>\<open>src/internal/domain/chat/agentic/circularbuffer.go\<close> and the replay buffer of run events in
  \<^verbatim>\<open>src/internal/domain/chat/eventbuffer.go\<close>, with its event identifiers and the registry of runs.
  Both keep the most recent items of all that were written; that contract is stated once as an
  interface and proved of both.
\<close>

section \<open>The contract of a bounded window\<close>

locale bounded_window =
  fixes inv :: "'r \<Rightarrow> bool"
    and cap :: "'r \<Rightarrow> nat"
    and contents :: "'r \<Rightarrow> 'a list"
    and push :: "'a \<Rightarrow> 'r \<Rightarrow> 'r"
  assumes inv_push: "inv r \<Longrightarrow> inv (push x r)"
    and cap_push: "inv r \<Longrightarrow> cap (push x r) = cap r"
    and contents_push: "inv r \<Longrightarrow> contents (push x r) = last_n (cap r) (contents r @ [x])"
begin

lemma push_all:
  "inv r \<Longrightarrow> length (contents r) \<le> cap r \<Longrightarrow>
     inv (foldl (\<lambda>r x. push x r) r xs) \<and> cap (foldl (\<lambda>r x. push x r) r xs) = cap r
     \<and> contents (foldl (\<lambda>r x. push x r) r xs) = last_n (cap r) (contents r @ xs)"
proof (induction xs rule: rev_induct)
  case Nil
  then show ?case by (simp add: last_n_all)
next
  case (snoc x xs)
  let ?s = "foldl (\<lambda>r x. push x r) r xs"
  from snoc have s: "inv ?s" "cap ?s = cap r" "contents ?s = last_n (cap r) (contents r @ xs)" by simp_all
  then have "contents (push x ?s) = last_n (cap r) ((contents r @ xs) @ [x])"
    using contents_push [OF s(1), of x] by (simp only: s(2,3) last_n_append)
  with s show ?case by (simp add: inv_push cap_push)
qed

end

text \<open>The items of a ring from a start position, and what one write does to them.\<close>

definition ring_items :: "'a list \<Rightarrow> nat \<Rightarrow> nat \<Rightarrow> 'a list" where
  "ring_items buf start n = map (\<lambda>i. buf ! ((start + i) mod length buf)) [0..<n]"

lemma length_ring_items [simp]: "length (ring_items buf start n) = n"
  by (simp add: ring_items_def)

lemma ring_pos_inj:
  assumes "i < c" "j < c" "(start + i) mod c = (start + j) mod (c::nat)"
  shows "i = j"
proof -
  have le: "a = b" if "a \<le> b" "b < c" "(start + b) mod c = (start + a) mod c" for a b
  proof -
    have "c dvd (start + b) - (start + a)"
      using that mod_eq_dvd_iff_nat [of "start + a" "start + b" c] by simp
    then have "c dvd b - a" by simp
    with that show ?thesis using nat_dvd_not_less [of "b - a" c] by (cases "a = b") auto
  qed
  show ?thesis
    using le [of i j] le [of j i] assms by (cases "i \<le> j") auto
qed

lemma ring_write_free:
  assumes "n < length buf"
  shows "ring_items (buf[(start + n) mod length buf := x]) start (Suc n) = ring_items buf start n @ [x]"
proof -
  have "(start + n) mod length buf \<noteq> (start + i) mod length buf" if "i < n" for i
    using ring_pos_inj [of n "length buf" i start] that assms by auto
  moreover have "(start + n) mod length buf < length buf" using assms by (intro mod_less_divisor) linarith
  ultimately show ?thesis by (simp add: ring_items_def nth_list_update)
qed

lemma ring_write_full:
  assumes "0 < length buf"
  shows "ring_items (buf[(start + length buf) mod length buf := x]) ((start + 1) mod length buf) (length buf)
           = tl (ring_items buf start (length buf)) @ [x]"
proof (rule nth_equalityI)
  let ?c = "length buf"
  show "length (ring_items (buf[(start + ?c) mod ?c := x]) ((start + 1) mod ?c) ?c)
      = length (tl (ring_items buf start ?c) @ [x])"
    using assms by simp
  fix i
  assume "i < length (ring_items (buf[(start + ?c) mod ?c := x]) ((start + 1) mod ?c) ?c)"
  then have i: "i < ?c" by simp
  have pos: "((start + 1) mod ?c + i) mod ?c = (start + Suc i) mod ?c"
    by (metis add_Suc_right add_Suc Suc_eq_plus1 mod_add_left_eq)
  show "ring_items (buf[(start + ?c) mod ?c := x]) ((start + 1) mod ?c) ?c ! i = (tl (ring_items buf start ?c) @ [x]) ! i"
  proof (cases "Suc i = ?c")
    case True
    have "(start + ?c) mod ?c < ?c" using assms by simp
    moreover have "(start + Suc i) mod ?c = (start + ?c) mod ?c" using True by simp
    moreover have "(tl (ring_items buf start ?c) @ [x]) ! i = x"
      using True by (simp add: nth_append flip: True)
    ultimately show ?thesis using i pos by (simp add: ring_items_def)
  next
    case False
    then have si: "Suc i < ?c" using i by simp
    have "(start + Suc i) mod ?c \<noteq> (start + 0) mod ?c"
      using ring_pos_inj [of "Suc i" ?c 0 start] si assms by blast
    moreover have "i < ?c - 1" using si by simp
    ultimately show ?thesis using si i pos by (simp add: ring_items_def nth_append nth_tl)
  qed
qed

lemma last_n_tl: "length xs = n \<Longrightarrow> 0 < n \<Longrightarrow> last_n n (xs @ [x]) = tl xs @ [x]"
  by (cases xs) (simp_all add: last_n_def)

section \<open>The circular buffer\<close>

text \<open>An empty slot holds the zero value; the Go generic code has no other value there.\<close>

record 'a circular_buffer =
  cb_buffer :: "'a list"
  cb_head :: nat
  cb_size :: nat

text \<open>None: the constructor panics.\<close>

definition new_circular_buffer :: "'a \<Rightarrow> int \<Rightarrow> 'a circular_buffer option" where
  "new_circular_buffer zero capacity =
     (if capacity \<le> 0 then None
      else Some \<lparr>cb_buffer = replicate (nat capacity) zero, cb_head = 0, cb_size = 0\<rparr>)"

definition cb_capacity :: "'a circular_buffer \<Rightarrow> nat" where
  "cb_capacity b = length (cb_buffer b)"

definition cb_add :: "'a \<Rightarrow> 'a circular_buffer \<Rightarrow> 'a circular_buffer" where
  "cb_add x b =
     b\<lparr>cb_buffer := (cb_buffer b)[cb_head b := x], cb_head := (cb_head b + 1) mod cb_capacity b,
       cb_size := (if cb_size b < cb_capacity b then cb_size b + 1 else cb_size b)\<rparr>"

definition cb_add_all :: "'a list \<Rightarrow> 'a circular_buffer \<Rightarrow> 'a circular_buffer" where
  "cb_add_all xs b = foldl (\<lambda>b x. cb_add x b) b xs"

definition cb_get_recent :: "int \<Rightarrow> 'a circular_buffer \<Rightarrow> 'a list" where
  "cb_get_recent n b =
     (if n \<le> 0 \<or> cb_size b = 0 then []
      else let k = (if int (cb_size b) < n then cb_size b else nat n);
               start = (cb_head b + cb_capacity b - k) mod cb_capacity b
           in map (\<lambda>i. cb_buffer b ! ((start + i) mod cb_capacity b)) [0..<k])"

definition cb_to_array :: "'a circular_buffer \<Rightarrow> 'a list" where
  "cb_to_array b = (if cb_size b = 0 then [] else cb_get_recent (int (cb_size b)) b)"

definition cb_clear :: "'a \<Rightarrow> 'a circular_buffer \<Rightarrow> 'a circular_buffer" where
  "cb_clear zero b = b\<lparr>cb_buffer := map (\<lambda>_. zero) (cb_buffer b), cb_head := 0, cb_size := 0\<rparr>"

definition cb_is_full :: "'a circular_buffer \<Rightarrow> bool" where
  "cb_is_full b = (cb_size b = cb_capacity b)"

definition cb_peek :: "'a circular_buffer \<Rightarrow> 'a option" where
  "cb_peek b =
     (if cb_size b = 0 then None
      else Some (cb_buffer b ! ((cb_head b + cb_capacity b - cb_size b) mod cb_capacity b)))"

definition cb_peek_newest :: "'a circular_buffer \<Rightarrow> 'a option" where
  "cb_peek_newest b =
     (if cb_size b = 0 then None
      else Some (cb_buffer b ! ((cb_head b + cb_capacity b - 1) mod cb_capacity b)))"

definition cb_start :: "'a circular_buffer \<Rightarrow> nat" where
  "cb_start b = (cb_head b + cb_capacity b - cb_size b) mod cb_capacity b"

definition cb_inv :: "'a circular_buffer \<Rightarrow> bool" where
  "cb_inv b \<longleftrightarrow> cb_head b < cb_capacity b \<and> cb_size b \<le> cb_capacity b"

lemma cb_to_array_items: "cb_to_array b = ring_items (cb_buffer b) (cb_start b) (cb_size b)"
  by (simp add: cb_to_array_def cb_get_recent_def ring_items_def cb_start_def cb_capacity_def Let_def)

lemma cb_head_pos: "cb_inv b \<Longrightarrow> (cb_start b + cb_size b) mod cb_capacity b = cb_head b"
  by (simp add: cb_inv_def cb_start_def mod_add_left_eq)

lemma cb_start_add:
  assumes "cb_inv b"
  shows "cb_start (cb_add x b) = (if cb_size b < cb_capacity b then cb_start b else (cb_start b + 1) mod cb_capacity b)"
proof (cases "cb_size b < cb_capacity b")
  case True
  have "((cb_head b + 1) mod cb_capacity b + cb_capacity b - (cb_size b + 1)) mod cb_capacity b
      = (cb_head b + cb_capacity b - cb_size b) mod cb_capacity b"
  proof (cases "cb_head b + 1 = cb_capacity b")
    case wrap: True
    have "cb_head b + cb_capacity b - cb_size b = (cb_capacity b - Suc (cb_size b)) + cb_capacity b"
      using wrap True by simp
    then have "(cb_head b + cb_capacity b - cb_size b) mod cb_capacity b = cb_capacity b - Suc (cb_size b)"
      using True by (simp only: mod_add_self2) simp
    then show ?thesis using wrap by simp
  next
    case False
    with assms True show ?thesis by (simp add: cb_inv_def)
  qed
  with True show ?thesis by (simp add: cb_start_def cb_add_def cb_capacity_def)
next
  case False
  with assms have "cb_size b = cb_capacity b" by (simp add: cb_inv_def)
  with assms show ?thesis
    by (simp add: cb_start_def cb_add_def cb_capacity_def cb_inv_def)
qed

lemma cb_to_array_add:
  assumes inv: "cb_inv b"
  shows "cb_to_array (cb_add x b) = last_n (cb_capacity b) (cb_to_array b @ [x])"
proof (cases "cb_size b < cb_capacity b")
  case True
  have "cb_to_array (cb_add x b)
      = ring_items ((cb_buffer b)[(cb_start b + cb_size b) mod length (cb_buffer b) := x]) (cb_start b) (Suc (cb_size b))"
    unfolding cb_to_array_items using True cb_head_pos [OF inv]
    by (simp add: cb_start_add [OF inv]) (simp add: cb_add_def cb_capacity_def)
  also have "\<dots> = cb_to_array b @ [x]"
    using True by (simp add: ring_write_free cb_to_array_items cb_capacity_def)
  finally show ?thesis
    using True by (simp add: last_n_all cb_to_array_items)
next
  case False
  then have full: "cb_size b = length (cb_buffer b)" and pos: "0 < length (cb_buffer b)"
    using inv by (auto simp: cb_inv_def cb_capacity_def)
  have "cb_to_array (cb_add x b)
      = ring_items ((cb_buffer b)[(cb_start b + length (cb_buffer b)) mod length (cb_buffer b) := x])
          ((cb_start b + 1) mod length (cb_buffer b)) (length (cb_buffer b))"
    unfolding cb_to_array_items using False cb_head_pos [OF inv] full
    by (simp add: cb_start_add [OF inv]) (simp add: cb_add_def cb_capacity_def)
  also have "\<dots> = tl (cb_to_array b) @ [x]"
    unfolding ring_write_full [OF pos] by (simp add: cb_to_array_items full)
  also have "\<dots> = last_n (cb_capacity b) (cb_to_array b @ [x])"
    using full pos by (simp add: last_n_tl cb_to_array_items cb_capacity_def)
  finally show ?thesis .
qed

lemma cb_inv_add: "cb_inv b \<Longrightarrow> cb_inv (cb_add x b) \<and> cb_capacity (cb_add x b) = cb_capacity b"
  by (auto simp: cb_inv_def cb_add_def cb_capacity_def intro: mod_less_divisor)

interpretation circular: bounded_window cb_inv cb_capacity cb_to_array cb_add
  by unfold_locales (simp_all add: cb_inv_add cb_to_array_add)

lemma map_shift_upt: "k \<le> n \<Longrightarrow> map f [n - k..<n] = map (\<lambda>i. f (n - k + i)) [0..<k]"
  by (intro nth_equalityI) simp_all

lemma cb_get_recent_last:
  assumes "cb_inv b"
  shows "cb_get_recent n b = last_n (nat n) (cb_to_array b)"
proof (cases "n \<le> 0 \<or> cb_size b = 0")
  case True
  then show ?thesis by (auto simp: cb_get_recent_def cb_to_array_def)
next
  case False
  define k where "k = (if int (cb_size b) < n then cb_size b else nat n)"
  have k: "k \<le> cb_size b" "k = min (nat n) (cb_size b)" using False by (auto simp: k_def)
  let ?c = "cb_capacity b"
  have "((cb_head b + ?c - k) mod ?c + i) mod ?c = (cb_start b + (cb_size b - k + i)) mod ?c" for i
  proof -
    have "cb_head b + ?c - k = (cb_head b + ?c - cb_size b) + (cb_size b - k)"
      using assms k(1) by (simp add: cb_inv_def)
    then show ?thesis
      by (simp add: cb_start_def mod_simps add.assoc)
  qed
  then have "cb_get_recent n b = map (\<lambda>i. cb_buffer b ! ((cb_start b + (cb_size b - k + i)) mod ?c)) [0..<k]"
    using False by (simp add: cb_get_recent_def k_def [symmetric] Let_def)
  also have "\<dots> = drop (cb_size b - k) (cb_to_array b)"
    using k(1) by (simp add: cb_to_array_items ring_items_def cb_capacity_def drop_map map_shift_upt)
  also have "\<dots> = last_n (nat n) (cb_to_array b)"
    using k(2) by (simp add: last_n_def cb_to_array_items) (metis diff_diff_cancel diff_is_0_eq min_def nat_le_linear)
  finally show ?thesis .
qed

text \<open>
  A circular buffer of capacity \<open>c\<close> holds the last \<open>c\<close> items ever added, oldest first, whatever was
  added; \<^verbatim>\<open>GetRecent\<close> returns the last \<open>n\<close> of them and the two peeks return the oldest and the newest.
\<close>

theorem circular_buffer_window:
  "case new_circular_buffer zero c of
     None \<Rightarrow> c \<le> 0
   | Some b0 \<Rightarrow>
       let b = cb_add_all xs b0; kept = last_n (nat c) xs in
       cb_to_array b = kept \<and> cb_get_recent n b = last_n (nat n) kept
       \<and> cb_peek b = (if xs = [] then None else Some (hd kept))
       \<and> cb_peek_newest b = (if xs = [] then None else Some (last xs))"
proof (cases "c \<le> 0")
  case True
  then show ?thesis by (simp add: new_circular_buffer_def)
next
  case False
  define b0 where "b0 = \<lparr>cb_buffer = replicate (nat c) zero, cb_head = 0, cb_size = 0\<rparr>"
  define b where "b = cb_add_all xs b0"
  have "cb_inv b0" "cb_capacity b0 = nat c" "cb_to_array b0 = []"
    using False by (simp_all add: b0_def cb_inv_def cb_capacity_def cb_to_array_def)
  with circular.push_all [of b0 xs]
  have inv: "cb_inv b" and cap: "cb_capacity b = nat c" and arr: "cb_to_array b = last_n (nat c) xs"
    by (simp_all add: b_def cb_add_all_def)
  have size: "cb_size b = length (last_n (nat c) xs)"
    using arr by (metis cb_to_array_items length_ring_items)
  then have empty: "cb_size b = 0 \<longleftrightarrow> xs = []" using False by (auto simp: min_def)
  have "cb_peek b = (if xs = [] then None else Some (hd (last_n (nat c) xs)))"
  proof (cases "xs = []")
    case True
    with empty show ?thesis by (simp add: cb_peek_def)
  next
    case False
    with empty have "0 < cb_size b" by simp
    then have "hd (cb_to_array b) = cb_buffer b ! (cb_start b mod cb_capacity b)"
      by (simp add: cb_to_array_items ring_items_def hd_map cb_capacity_def)
    with False empty arr show ?thesis by (simp add: cb_peek_def cb_start_def)
  qed
  moreover have "cb_peek_newest b = (if xs = [] then None else Some (last xs))"
  proof (cases "xs = []")
    case True
    with empty show ?thesis by (simp add: cb_peek_newest_def)
  next
    case False
    with empty have "0 < cb_size b" by simp
    then have "cb_get_recent 1 b = [cb_buffer b ! ((cb_head b + cb_capacity b - 1) mod cb_capacity b)]"
      by (simp add: cb_get_recent_def)
    moreover have "cb_get_recent 1 b = last_n 1 (last_n (nat c) xs)"
      using cb_get_recent_last [OF inv, of 1] arr by simp
    moreover have "last_n 1 (last_n (nat c) xs) = [last xs]"
      using False \<open>\<not> c \<le> 0\<close> by (cases xs rule: rev_cases) (simp_all add: last_n_def Suc_diff_le)
    ultimately show ?thesis using False empty by (simp add: cb_peek_newest_def)
  qed
  ultimately show ?thesis
    using False arr cb_get_recent_last [OF inv, of n]
    by (simp add: new_circular_buffer_def b_def b0_def Let_def)
qed

end
