(* ===== verification/EventBuffer.thy ===== *)
theory EventBuffer
  imports RingBuffer "HOL-Library.AList"
begin

text \<open>
  The replay buffer of run events (\<^verbatim>\<open>src/internal/domain/chat/eventbuffer.go\<close>): a ring of events
  with sequence numbers, the identifiers sent to clients, replay after a reconnection, and the
  registry of the buffers of the active runs. Sequence numbers are \<^verbatim>\<open>uint64\<close>.
\<close>

lemma unat_word64: "n < 2 ^ 64 \<Longrightarrow> unat (of_nat n :: 64 word) = n"
  by (simp add: unsigned_of_nat take_bit_nat_eq_self)

section \<open>Identifiers\<close>

definition format_sse_id :: "string \<Rightarrow> 64 word \<Rightarrow> string" where
  "format_sse_id run_id i = run_id @ '':'' @ nat_digits (unat i)"

text \<open>\<^verbatim>\<open>strconv.ParseUint\<close> in base 10 with 64 bits.\<close>

definition parse_uint64 :: "string \<Rightarrow> 64 word option" where
  "parse_uint64 s = (if all_digits s \<and> digits_val s < 2 ^ 64 then Some (of_nat (digits_val s)) else None)"

definition parse_sse_id :: "string \<Rightarrow> (string \<times> 64 word) option" where
  "parse_sse_id s =
     (case last_index_byte CHR '':'' s of
        None \<Rightarrow> None
      | Some idx \<Rightarrow>
          if idx = 0 \<or> idx = length s - 1 then None
          else
            let run_id = take idx s; seq_text = drop (Suc idx) s
            in if 1 < length seq_text \<and> seq_text ! 0 = CHR ''0'' then None
               else if \<not> list_all is_digit seq_text then None
               else map_option (\<lambda>n. (run_id, n)) (parse_uint64 seq_text))"

lemma colon_not_digit: "list_all is_digit s \<Longrightarrow> CHR '':'' \<notin> set s"
proof -
  have "\<not> is_digit CHR '':''" by code_simp
  then show "list_all is_digit s \<Longrightarrow> CHR '':'' \<notin> set s" by (auto simp: list_all_iff)
qed

lemma canonical_iff: "canonical_digits s \<longleftrightarrow> s \<noteq> [] \<and> list_all is_digit s \<and> \<not> (1 < length s \<and> s ! 0 = CHR ''0'')"
  by (cases s) (auto simp: canonical_digits_def all_digits_def)

lemma parse_sse_id_split:
  assumes "r \<noteq> []" "CHR '':'' \<notin> set d"
  shows "parse_sse_id (r @ CHR '':'' # d) =
    (if canonical_digits d \<and> digits_val d < 2 ^ 64 then Some (r, of_nat (digits_val d)) else None)"
  using assms by (auto simp: parse_sse_id_def Let_def canonical_iff parse_uint64_def all_digits_def)

lemma parse_sse_id_form:
  assumes "parse_sse_id s = Some (r, n)"
  shows "\<exists>d. s = r @ CHR '':'' # d \<and> r \<noteq> [] \<and> CHR '':'' \<notin> set d"
proof -
  obtain idx where i: "last_index_byte CHR '':'' s = Some idx" and r: "r = take idx s" and pos: "idx \<noteq> 0"
    using assms by (auto simp: parse_sse_id_def Let_def split: option.splits if_splits)
  from last_index_byte_Some [OF i] have "s = take idx s @ CHR '':'' # drop (Suc idx) s"
    by (metis id_take_nth_drop)
  with r pos last_index_byte_Some [OF i] show ?thesis by fastforce
qed

text \<open>
  The identifiers are unambiguous in both directions: parsing succeeds exactly on the strings that
  formatting produces for a non-empty run identifier, and returns that run and sequence number.
\<close>

theorem sse_id_roundtrip:
  "(parse_sse_id s = Some (r, n)) = (r \<noteq> [] \<and> s = format_sse_id r n)"
proof
  assume p: "parse_sse_id s = Some (r, n)"
  then obtain d where s: "s = r @ CHR '':'' # d" "r \<noteq> []" "CHR '':'' \<notin> set d"
    using parse_sse_id_form by blast
  with p have d: "canonical_digits d" "digits_val d < 2 ^ 64" "n = of_nat (digits_val d)"
    using parse_sse_id_split [OF s(2,3)] by (auto split: if_splits)
  then have "unat n = digits_val d" by (simp add: unat_word64)
  with d(1) s show "r \<noteq> [] \<and> s = format_sse_id r n" by (simp add: format_sse_id_def nat_digits_digits_val)
next
  assume a: "r \<noteq> [] \<and> s = format_sse_id r n"
  have can: "canonical_digits (nat_digits (unat n))" by (rule nat_digits_canonical)
  then have "CHR '':'' \<notin> set (nat_digits (unat n))"
    by (intro colon_not_digit) (simp add: canonical_iff)
  moreover have "unat n < 2 ^ 64" using unsigned_less [of n] by simp
  ultimately show "parse_sse_id s = Some (r, n)"
    using a can nat_digits_correct [of "unat n"] by (simp add: format_sse_id_def parse_sse_id_split)
qed

section \<open>The buffer\<close>

record 'e buffered_event =
  be_id :: "64 word"
  be_event :: 'e

record 'e event_buffer =
  eb_buf :: "'e buffered_event list"
  eb_next :: "64 word"
  eb_start :: nat
  eb_count :: nat
  eb_done :: bool

definition default_event_buffer_size :: int where
  "default_event_buffer_size = 1000"

definition effective_capacity :: "int \<Rightarrow> nat" where
  "effective_capacity c = nat (if c \<le> 0 then default_event_buffer_size else c)"

text \<open>The zero value of an event fills the empty slots.\<close>

definition new_event_buffer :: "'e \<Rightarrow> int \<Rightarrow> 'e event_buffer" where
  "new_event_buffer zero c =
     \<lparr>eb_buf = replicate (effective_capacity c) \<lparr>be_id = 0, be_event = zero\<rparr>, eb_next = 1,
      eb_start = 0, eb_count = 0, eb_done = False\<rparr>"

definition eb_capacity :: "'e event_buffer \<Rightarrow> nat" where
  "eb_capacity b = length (eb_buf b)"

text \<open>The ring part of \<^verbatim>\<open>Append\<close>.\<close>

definition eb_store :: "'e buffered_event \<Rightarrow> 'e event_buffer \<Rightarrow> 'e event_buffer" where
  "eb_store be b =
     (let idx = (eb_start b + eb_count b) mod eb_capacity b;
          b1 = b\<lparr>eb_buf := (eb_buf b)[idx := be]\<rparr>
      in if eb_count b < eb_capacity b then b1\<lparr>eb_count := eb_count b + 1\<rparr>
         else b1\<lparr>eb_start := (eb_start b + 1) mod eb_capacity b\<rparr>)"

definition eb_append :: "'e \<Rightarrow> 'e event_buffer \<Rightarrow> 64 word \<times> 'e event_buffer" where
  "eb_append ev b =
     (eb_next b, eb_store \<lparr>be_id = eb_next b, be_event = ev\<rparr> (b\<lparr>eb_next := eb_next b + 1\<rparr>))"

definition eb_mark_done :: "'e event_buffer \<Rightarrow> 'e event_buffer" where
  "eb_mark_done b = b\<lparr>eb_done := True\<rparr>"

definition eb_items :: "'e event_buffer \<Rightarrow> 'e buffered_event list" where
  "eb_items b = ring_items (eb_buf b) (eb_start b) (eb_count b)"

text \<open>None is the overflow answer.\<close>

definition events_since :: "64 word \<Rightarrow> 'e event_buffer \<Rightarrow> 'e buffered_event list option" where
  "events_since after b =
     (if eb_count b = 0 then Some []
      else if after = 0 then Some (eb_items b)
      else if after < be_id (eb_buf b ! eb_start b) then None
      else Some (filter (\<lambda>ev. after < be_id ev) (eb_items b)))"

definition oldest_seq :: "'e event_buffer \<Rightarrow> 64 word" where
  "oldest_seq b = (if eb_count b = 0 then 0 else be_id (eb_buf b ! eb_start b))"

definition newest_seq :: "'e event_buffer \<Rightarrow> 64 word" where
  "newest_seq b = (if eb_count b = 0 then 0 else eb_next b - 1)"

definition eb_inv :: "'e event_buffer \<Rightarrow> bool" where
  "eb_inv b \<longleftrightarrow> eb_start b < eb_capacity b \<and> eb_count b \<le> eb_capacity b"

lemma eb_inv_store: "eb_inv b \<Longrightarrow> eb_inv (eb_store be b) \<and> eb_capacity (eb_store be b) = eb_capacity b"
  by (auto simp: eb_inv_def eb_store_def eb_capacity_def Let_def intro: mod_less_divisor)

lemma eb_items_store:
  assumes inv: "eb_inv b"
  shows "eb_items (eb_store be b) = last_n (eb_capacity b) (eb_items b @ [be])"
proof (cases "eb_count b < eb_capacity b")
  case True
  then have "eb_items (eb_store be b) = eb_items b @ [be]"
    by (simp add: eb_store_def eb_items_def eb_capacity_def ring_write_free Let_def)
  with True show ?thesis by (simp add: last_n_all eb_items_def)
next
  case False
  then have full: "eb_count b = length (eb_buf b)" and pos: "0 < length (eb_buf b)"
    using inv by (auto simp: eb_inv_def eb_capacity_def)
  then have "eb_items (eb_store be b) = tl (eb_items b) @ [be]"
    using ring_write_full [OF pos, of "eb_start b" be]
    by (simp add: eb_store_def eb_items_def eb_capacity_def Let_def)
  with full pos show ?thesis by (simp add: last_n_tl eb_items_def eb_capacity_def)
qed

interpretation replay: bounded_window eb_inv eb_capacity eb_items eb_store
  by unfold_locales (simp_all add: eb_inv_store eb_items_store)

definition append_events :: "'e list \<Rightarrow> 'e event_buffer \<Rightarrow> 'e event_buffer" where
  "append_events evs b = foldl (\<lambda>b ev. snd (eb_append ev b)) b evs"

text \<open>The events numbered from one.\<close>

definition numbered :: "'e list \<Rightarrow> nat \<Rightarrow> 'e buffered_event" where
  "numbered evs i = \<lparr>be_id = of_nat i, be_event = evs ! (i - 1)\<rparr>"

lemma eb_store_next: "eb_store be (b\<lparr>eb_next := n\<rparr>) = (eb_store be b)\<lparr>eb_next := n\<rparr>"
  by (simp add: eb_store_def eb_capacity_def Let_def)

lemma append_events_state:
  "\<exists>b. append_events evs (new_event_buffer zero c) = b \<and> eb_inv b \<and> eb_capacity b = effective_capacity c
     \<and> eb_next b = of_nat (Suc (length evs))
     \<and> eb_items b = last_n (effective_capacity c) (map (numbered evs) [1..<Suc (length evs)])"
proof (induction evs rule: rev_induct)
  case Nil
  show ?case
    by (simp add: append_events_def new_event_buffer_def eb_inv_def eb_capacity_def eb_items_def ring_items_def
        effective_capacity_def default_event_buffer_size_def)
next
  case (snoc ev evs)
  then obtain b where b: "append_events evs (new_event_buffer zero c) = b" "eb_inv b"
    "eb_capacity b = effective_capacity c" "eb_next b = of_nat (Suc (length evs))"
    "eb_items b = last_n (effective_capacity c) (map (numbered evs) [1..<Suc (length evs)])" by blast
  let ?be = "\<lparr>be_id = of_nat (Suc (length evs)), be_event = ev\<rparr>"
  let ?b = "eb_store ?be b"
  have app: "append_events (evs @ [ev]) (new_event_buffer zero c) = ?b\<lparr>eb_next := of_nat (Suc (length (evs @ [ev])))\<rparr>"
    using b(1,4) by (simp add: append_events_def eb_append_def eb_store_next add.commute)
  have nums: "map (numbered (evs @ [ev])) [1..<Suc (length (evs @ [ev]))] = map (numbered evs) [1..<Suc (length evs)] @ [?be]"
    by (auto simp: numbered_def nth_append)
  have "eb_items ?b = last_n (effective_capacity c) (map (numbered (evs @ [ev])) [1..<Suc (length (evs @ [ev]))])"
    unfolding nums eb_items_store [OF b(2)] b(3,5) by (rule last_n_append)
  with b(2,3) app eb_inv_store [OF b(2), of ?be] show ?case
    by (simp add: eb_inv_def eb_capacity_def eb_items_def)
qed

lemma filter_above_upt: "filter (\<lambda>i. k < i) [a..<b] = [max a (Suc k)..<b]"
  by (induction b) (auto simp: max_def)

lemma last_n_upt: "last_n c (map f [1..<Suc n]) = map f [Suc (n - c)..<Suc n]"
  by (simp add: last_n_def drop_map)

lemma eb_oldest: "eb_inv b \<Longrightarrow> eb_count b \<noteq> 0 \<Longrightarrow> eb_buf b ! eb_start b = hd (eb_items b)"
  by (simp add: eb_items_def ring_items_def hd_map eb_inv_def eb_capacity_def)

text \<open>
  Replay after a reconnection: after \<open>n\<close> events in a buffer of capacity \<open>c\<close> the kept events are those
  numbered from \<open>n - c + 1\<close>; \<^verbatim>\<open>EventsSince\<close> returns exactly the kept events after the given number, each
  with its own number and in order, and reports an overflow exactly for the numbers below the
  oldest kept one (zero asks for everything kept).
\<close>

theorem replay_after_reconnect:
  assumes "length evs < 2 ^ 64 - 1"
  shows "events_since after (append_events evs (new_event_buffer zero c)) =
    (let n = length evs; oldest = Suc (n - effective_capacity c)
     in if n = 0 then Some []
        else if 0 < unat after \<and> unat after < oldest then None
        else Some (map (numbered evs) [max oldest (Suc (unat after))..<Suc n]))"
proof -
  let ?n = "length evs" and ?o = "Suc (length evs - effective_capacity c)"
  obtain b where b: "append_events evs (new_event_buffer zero c) = b" "eb_inv b"
    and items: "eb_items b = map (numbered evs) [?o..<Suc ?n]"
    using append_events_state [of evs zero c] last_n_upt [of "effective_capacity c" "numbered evs" ?n] by auto
  have cap: "0 < effective_capacity c" by (simp add: effective_capacity_def default_event_buffer_size_def)
  have count: "eb_count b = Suc ?n - ?o"
    using arg_cong [OF items, of length] by (simp add: eb_items_def del: upt_Suc)
  have num: "unat (be_id (numbered evs i)) = i" if "i < Suc ?n" for i
    using that assms by (simp add: numbered_def unat_word64)
  show ?thesis
  proof (cases "?n = 0")
    case True
    with count b(1) show ?thesis by (simp add: events_since_def)
  next
    case False
    then have o: "?o < Suc ?n" using cap by linarith
    then have "eb_count b \<noteq> 0" using count by linarith
    then have "be_id (eb_buf b ! eb_start b) = be_id (numbered evs ?o)"
      using eb_oldest [OF b(2)] o by (simp add: items hd_map del: upt_Suc)
    then have oldest: "after < be_id (eb_buf b ! eb_start b) \<longleftrightarrow> unat after < ?o"
      using num [OF o] by (simp add: word_less_nat_alt)
    have "filter (\<lambda>ev. after < be_id ev) (eb_items b)
        = map (numbered evs) (filter (\<lambda>i. unat after < i) [?o..<Suc ?n])"
      unfolding items filter_map comp_def
      by (intro arg_cong [where f = "map (numbered evs)"] filter_cong) (auto simp: word_less_nat_alt num)
    also have "\<dots> = map (numbered evs) [max ?o (Suc (unat after))..<Suc ?n]"
      by (simp only: filter_above_upt)
    finally have since: "filter (\<lambda>ev. after < be_id ev) (eb_items b) = map (numbered evs) [max ?o (Suc (unat after))..<Suc ?n]" .
    show ?thesis
    proof (cases "after = 0")
      case True
      with False \<open>eb_count b \<noteq> 0\<close> b(1) show ?thesis
        by (simp add: events_since_def items Let_def del: upt_Suc)
    next
      case nonzero: False
      then have "0 < unat after" by (simp add: unat_gt_0)
      with nonzero False \<open>eb_count b \<noteq> 0\<close> b(1) oldest since show ?thesis
        by (simp add: events_since_def Let_def del: upt_Suc)
    qed
  qed
qed

text \<open>Five events in a buffer of three: after number three come the numbers four and five.\<close>

theorem replay_after_reconnect_witness:
  "map_option (map be_event) (events_since 3 (append_events ''abcde'' (new_event_buffer CHR ''x'' 3))) = Some ''de''"
proof -
  have "length ''abcde'' < 2 ^ 64 - 1" by simp
  from replay_after_reconnect [OF this, of 3 "CHR ''x''" 3] show ?thesis
    by (simp add: effective_capacity_def numbered_def upt_rec)
qed

text \<open>
  The overflow answer is given to one client too many: when the oldest kept event is number two, a
  client that has seen number one has missed nothing, and the buffer holds all it needs, but it is
  told that events were lost.
\<close>

theorem replay_spurious_overflow:
  "map be_id (eb_items (append_events ''abc'' (new_event_buffer CHR ''x'' 2))) = [2, 3]
   \<and> events_since 1 (append_events ''abc'' (new_event_buffer CHR ''x'' 2)) = None"
  by (simp add: append_events_def eb_append_def eb_store_def new_event_buffer_def effective_capacity_def
      eb_items_def ring_items_def eb_capacity_def events_since_def Let_def numeral_2_eq_2 upt_rec)

section \<open>The registry\<close>

record 'e run_registry =
  rr_buffers :: "(string \<times> 'e event_buffer) list"
  rr_owners :: "(string \<times> string) list"

definition new_run_registry :: "'e run_registry" where
  "new_run_registry = \<lparr>rr_buffers = [], rr_owners = []\<rparr>"

text \<open>The empty string stands for \<^verbatim>\<open>uuid.Nil\<close>, a call without a session.\<close>

definition get_or_create_for_session ::
  "'e \<Rightarrow> string \<Rightarrow> string \<Rightarrow> int \<Rightarrow> 'e run_registry \<Rightarrow> 'e event_buffer \<times> 'e run_registry" where
  "get_or_create_for_session zero run_id session c r =
     (let r1 = (if session \<noteq> [] then r\<lparr>rr_owners := AList.update run_id session (rr_owners r)\<rparr> else r)
      in case map_of (rr_buffers r) run_id of
           Some b \<Rightarrow> (b, r1)
         | None \<Rightarrow>
             (let b = new_event_buffer zero c
              in (b, r1\<lparr>rr_buffers := AList.update run_id b (rr_buffers r1)\<rparr>)))"

definition registry_owner :: "string \<Rightarrow> 'e run_registry \<Rightarrow> string option" where
  "registry_owner run_id r = map_of (rr_owners r) run_id"

definition registry_get :: "string \<Rightarrow> 'e run_registry \<Rightarrow> 'e event_buffer option" where
  "registry_get run_id r = map_of (rr_buffers r) run_id"

definition registry_remove :: "string \<Rightarrow> 'e run_registry \<Rightarrow> 'e run_registry" where
  "registry_remove run_id r =
     r\<lparr>rr_buffers := AList.delete run_id (rr_buffers r), rr_owners := AList.delete run_id (rr_owners r)\<rparr>"

text \<open>
  The registry keeps one buffer per run until it is removed, whoever asks for it, while the owner is
  the last session that asked: a second session that names an existing run takes it over.
\<close>

theorem registry_last_session_owns:
  "let (b, r1) = get_or_create_for_session zero run s1 c r;
       (b', r2) = get_or_create_for_session zero run s2 c' r1
   in b' = b \<and> registry_get run r2 = Some b
      \<and> registry_owner run r2 = (if s2 \<noteq> [] then Some s2 else if s1 \<noteq> [] then Some s1 else registry_owner run r)
      \<and> registry_get run (registry_remove run r2) = None \<and> registry_owner run (registry_remove run r2) = None"
  by (auto simp: get_or_create_for_session_def registry_get_def registry_owner_def registry_remove_def
      update_conv delete_conv Let_def split: option.split)

end
