(* ===== verification/History.thy ===== *)
theory History
  imports RunState
begin

text \<open>
  Repair of a stored conversation before it is sent to a model: \<^verbatim>\<open>filterUnresolvedToolUses\<close> and
  \<^verbatim>\<open>SanitizeMessages\<close> of \<^verbatim>\<open>src/internal/domain/chat/agentic/runner.go\<close>. Messages carry the fields
  these functions read: role, content, the tool calls of an assistant, the call a tool answers.
\<close>

section \<open>Messages\<close>

datatype chat_role = RoleSystem | RoleUser | RoleAssistant | RoleTool | RoleOther string

record chat_message =
  cm_role :: chat_role
  cm_content :: string
  cm_calls :: "tool_call list"
  cm_call_id :: string

section \<open>Unresolved tool calls\<close>

definition tool_result_ids :: "chat_message list \<Rightarrow> string set" where
  "tool_result_ids ms = {i. list_ex (\<lambda>m. cm_role m = RoleTool \<and> cm_call_id m \<noteq> [] \<and> cm_call_id m = i) ms}"

definition unresolved_ids :: "chat_message list \<Rightarrow> string set" where
  "unresolved_ids ms =
     {i. list_ex (\<lambda>m. cm_role m = RoleAssistant
            \<and> list_ex (\<lambda>c. tc_id c = i \<and> tc_id c \<notin> tool_result_ids ms) (cm_calls m)) ms}"

definition all_unresolved :: "chat_message list \<Rightarrow> chat_message \<Rightarrow> bool" where
  "all_unresolved ms m =
     (cm_role m = RoleAssistant \<and> cm_calls m \<noteq> []
      \<and> list_all (\<lambda>c. tc_id c \<in> unresolved_ids ms) (cm_calls m))"

definition filter_unresolved_tool_uses :: "chat_message list \<Rightarrow> chat_message list" where
  "filter_unresolved_tool_uses ms =
     (if unresolved_ids ms = {} then ms else filter (\<lambda>m. \<not> all_unresolved ms m) ms)"

section \<open>Degenerate messages\<close>

definition blank_assistant :: "chat_message \<Rightarrow> bool" where
  "blank_assistant m = (cm_role m = RoleAssistant \<and> cm_calls m = [] \<and> trim_space (cm_content m) = [])"

text \<open>The message replaces the previous one of the result: two users, or two assistants without calls.\<close>

definition collapses :: "chat_message \<Rightarrow> chat_message \<Rightarrow> bool" where
  "collapses prev m =
     (cm_role m = RoleUser \<and> cm_role prev = RoleUser
      \<or> cm_role m = RoleAssistant \<and> cm_role prev = RoleAssistant \<and> cm_calls prev = [] \<and> cm_calls m = [])"

definition sanitize_step :: "chat_message list \<Rightarrow> chat_message \<Rightarrow> chat_message list" where
  "sanitize_step result m =
     (if blank_assistant m then result
      else if result \<noteq> [] \<and> collapses (last result) m then butlast result @ [m]
      else result @ [m])"

definition sanitize_messages :: "chat_message list \<Rightarrow> chat_message list" where
  "sanitize_messages ms = (if ms = [] then ms else foldl sanitize_step [] ms)"

definition prepare_history :: "chat_message list \<Rightarrow> chat_message list" where
  "prepare_history ms = sanitize_messages (filter_unresolved_tool_uses ms)"

section \<open>Correctness of the sanitizer\<close>

fun no_collapse :: "chat_message list \<Rightarrow> bool" where
  "no_collapse (a # b # ms) = (\<not> collapses a b \<and> no_collapse (b # ms))"
| "no_collapse _ = True"

definition clean :: "chat_message list \<Rightarrow> bool" where
  "clean ms = (list_all (\<lambda>m. \<not> blank_assistant m) ms \<and> no_collapse ms)"

lemma no_collapse_snoc: "no_collapse (ms @ [m]) \<longleftrightarrow> no_collapse ms \<and> (ms = [] \<or> \<not> collapses (last ms) m)"
  by (induction ms rule: no_collapse.induct) auto

lemma collapses_same: "collapses a b \<Longrightarrow> \<not> blank_assistant a \<Longrightarrow> collapses c a \<longleftrightarrow> collapses c b"
  by (auto simp: collapses_def)

lemma sanitize_step_clean: "clean result \<Longrightarrow> clean (sanitize_step result m)"
proof (cases "result = []")
  case True
  then show ?thesis by (simp add: sanitize_step_def clean_def)
next
  case False
  assume c: "clean result"
  obtain bs l where r: "result = bs @ [l]" using False by (metis append_butlast_last_id)
  have "\<not> blank_assistant l" using c r by (simp add: clean_def)
  with c r show ?thesis
    using collapses_same [of l m "last bs"] no_collapse_snoc [of "bs @ [l]" m]
    by (auto simp: sanitize_step_def clean_def no_collapse_snoc)
qed

lemma sanitize_foldl_clean: "clean result \<Longrightarrow> clean (foldl sanitize_step result ms)"
  by (induction ms arbitrary: result) (simp_all add: sanitize_step_clean)

lemma sanitize_clean_input: "clean (result @ ms) \<Longrightarrow> foldl sanitize_step result ms = result @ ms"
proof (induction ms arbitrary: result)
  case Nil
  then show ?case by simp
next
  case (Cons m ms)
  have "clean xs" if "clean (xs @ ys)" for xs ys
    using that by (induction ys rule: rev_induct) (simp_all add: clean_def no_collapse_snoc flip: append_assoc)
  from this [of "result @ [m]" ms] Cons.prems have "clean (result @ [m])" by simp
  then have "sanitize_step result m = result @ [m]"
    by (auto simp: clean_def sanitize_step_def no_collapse_snoc)
  with Cons.IH [of "result @ [m]"] Cons.prems show ?case by simp
qed

text \<open>Messages the sanitizer must keep: system and tool messages, and assistants with tool calls.\<close>

definition essential :: "chat_message \<Rightarrow> bool" where
  "essential m = (cm_role m \<in> {RoleSystem, RoleTool} \<or> cm_role m = RoleAssistant \<and> cm_calls m \<noteq> [])"

lemma sanitize_step_essential: "filter essential (sanitize_step result m) = filter essential (result @ [m])"
proof (cases "result = []")
  case True
  then show ?thesis by (auto simp: sanitize_step_def essential_def blank_assistant_def)
next
  case False
  then obtain bs l where r: "result = bs @ [l]" by (metis append_butlast_last_id)
  show ?thesis
    by (auto simp: r sanitize_step_def essential_def blank_assistant_def collapses_def)
qed

lemma sanitize_foldl_essential:
  "filter essential (foldl sanitize_step result ms) = filter essential result @ filter essential ms"
  by (induction ms arbitrary: result) (simp_all add: sanitize_step_essential)

lemma sanitize_eq: "sanitize_messages ms = foldl sanitize_step [] ms"
  by (simp add: sanitize_messages_def)

text \<open>
  The sanitized history has no blank assistant message, no two adjacent user messages and no two
  adjacent plain assistant messages; a history is changed only if it breaks one of these rules
  (so sanitizing is idempotent); and system messages, tool results and assistant messages with
  tool calls are all kept, in order.
\<close>

theorem sanitize_messages_correct:
  "clean (sanitize_messages ms) \<and> (sanitize_messages ms = ms) = clean ms
   \<and> sanitize_messages (sanitize_messages ms) = sanitize_messages ms
   \<and> filter essential (sanitize_messages ms) = filter essential ms"
proof -
  have c: "clean (sanitize_messages xs)" for xs
    using sanitize_foldl_clean [of "[]" xs] by (simp add: sanitize_eq clean_def)
  have same: "clean xs \<Longrightarrow> sanitize_messages xs = xs" for xs
    using sanitize_clean_input [of "[]" xs] by (simp add: sanitize_eq)
  have "(sanitize_messages ms = ms) = clean ms" using c [of ms] same [of ms] by metis
  moreover have "filter essential (sanitize_messages ms) = filter essential ms"
    by (simp add: sanitize_eq sanitize_foldl_essential)
  ultimately show ?thesis using c [of ms] same [of "sanitize_messages ms"] by blast
qed

section \<open>Correctness of the filter\<close>

definition call_resolved :: "chat_message list \<Rightarrow> tool_call \<Rightarrow> bool" where
  "call_resolved ms c = (tc_id c \<in> tool_result_ids ms)"

definition partly_resolved :: "chat_message list \<Rightarrow> chat_message \<Rightarrow> bool" where
  "partly_resolved ms m =
     (cm_role m = RoleAssistant \<and> list_ex (call_resolved ms) (cm_calls m)
      \<and> list_ex (\<lambda>c. \<not> call_resolved ms c) (cm_calls m))"

definition calls_resolved :: "chat_message list \<Rightarrow> bool" where
  "calls_resolved ms = list_all (\<lambda>m. cm_role m \<noteq> RoleAssistant \<or> list_all (call_resolved ms) (cm_calls m)) ms"

lemma unresolved_iff:
  "m \<in> set ms \<Longrightarrow> cm_role m = RoleAssistant \<Longrightarrow> c \<in> set (cm_calls m) \<Longrightarrow>
     tc_id c \<in> unresolved_ids ms \<longleftrightarrow> \<not> call_resolved ms c"
  by (auto simp: unresolved_ids_def call_resolved_def list_ex_iff)

lemma no_unresolved: "unresolved_ids ms = {} \<Longrightarrow> m \<in> set ms \<Longrightarrow> \<not> all_unresolved ms m"
  by (cases "cm_calls m") (auto simp: all_unresolved_def)

lemma filter_unresolved_eq: "filter_unresolved_tool_uses ms = filter (\<lambda>m. \<not> all_unresolved ms m) ms"
proof (cases "unresolved_ids ms = {}")
  case True
  then show ?thesis
    using no_unresolved [OF True] by (simp add: filter_unresolved_tool_uses_def filter_id_conv)
next
  case False
  then show ?thesis by (simp add: filter_unresolved_tool_uses_def)
qed

lemma filter_keeps_results: "tool_result_ids (filter_unresolved_tool_uses ms) = tool_result_ids ms"
  by (auto simp: tool_result_ids_def filter_unresolved_eq list_ex_iff all_unresolved_def)

lemma call_resolved_filter: "call_resolved (filter_unresolved_tool_uses ms) c = call_resolved ms c"
  by (simp add: call_resolved_def filter_keeps_results)

text \<open>
  The filter drops exactly the assistant messages none of whose calls has a result, so what is left
  has a result for every call if and only if no message had some calls answered and others not:
  a partly answered message survives with its unanswered calls. Tool results are never removed,
  even those that answer no call.
\<close>

theorem filter_unresolved_exact:
  "calls_resolved (filter_unresolved_tool_uses ms) = (\<not> list_ex (partly_resolved ms) ms)
   \<and> filter (\<lambda>m. cm_role m \<noteq> RoleAssistant) (filter_unresolved_tool_uses ms) = filter (\<lambda>m. cm_role m \<noteq> RoleAssistant) ms"
proof -
  have dropped: "all_unresolved ms m \<longleftrightarrow>
      cm_role m = RoleAssistant \<and> cm_calls m \<noteq> [] \<and> list_all (\<lambda>c. \<not> call_resolved ms c) (cm_calls m)"
    if "m \<in> set ms" for m
    using that unresolved_iff [OF that] by (auto simp: all_unresolved_def list_all_iff)
  have "calls_resolved (filter_unresolved_tool_uses ms)
      = (\<forall>m \<in> set ms. all_unresolved ms m \<or> cm_role m \<noteq> RoleAssistant \<or> list_all (call_resolved ms) (cm_calls m))"
    unfolding calls_resolved_def call_resolved_filter
    by (auto simp: list_all_iff call_resolved_filter filter_unresolved_eq [of ms])
  also have "\<dots> = (\<not> list_ex (partly_resolved ms) ms)"
    using dropped by (auto simp: list_ex_iff list_all_iff partly_resolved_def)
  finally show ?thesis
    by (auto simp: filter_unresolved_eq all_unresolved_def intro!: filter_cong)
qed

end
