(* ===== verification/InputSchema.thy ===== *)
theory InputSchema
  imports GoStrings Complex_Main
begin

text \<open>
  The validation of tool inputs against their JSON Schema: \<^verbatim>\<open>ValidateToolInput\<close> and the functions it calls, in
  \<^verbatim>\<open>src/internal/domain/chat/agentic/toolexec.go\<close>. A JSON value is what \<^verbatim>\<open>encoding/json\<close> decodes into
  \<^verbatim>\<open>any\<close>; an object is a list of its members with distinct names, in the order in which Go happens to iterate over the
  map. A number is the rational its \<^verbatim>\<open>float64\<close> stands for. The decoder of objects is an argument: it gives the error
  text or the members.
\<close>

section \<open>Values\<close>

datatype json = JNull | JBool bool | JNum rat | JStr string | JArr "json list" | JObj "(string \<times> json) list"

type_synonym json_object = "(string \<times> json) list"

lemma zip_size [termination_simp]: "(x, y) \<in> set (zip xs ys) \<Longrightarrow> size x < Suc (size_list size xs)"
  by (drule set_zip_leftD) (simp add: less_Suc_eq_le size_list_estimation')

lemma member_size [termination_simp]: "(k, x) \<in> set xs \<Longrightarrow> size x < Suc (size_list (\<lambda>p. Suc (size (snd p))) xs)"
  by (induction xs) auto

text \<open>\<^verbatim>\<open>reflect.DeepEqual\<close> on decoded values: maps are compared by their members, whatever the order.\<close>

fun deep_equal :: "json \<Rightarrow> json \<Rightarrow> bool" where
  "deep_equal JNull w = (w = JNull)"
| "deep_equal (JBool a) w = (w = JBool a)"
| "deep_equal (JNum a) w = (w = JNum a)"
| "deep_equal (JStr a) w = (w = JStr a)"
| "deep_equal (JArr xs) w =
     (case w of JArr ys \<Rightarrow> length xs = length ys \<and> list_all (\<lambda>(x, y). deep_equal x y) (zip xs ys) | _ \<Rightarrow> False)"
| "deep_equal (JObj xs) w =
     (case w of
        JObj ys \<Rightarrow> length xs = length ys
          \<and> list_all (\<lambda>(k, x). case map_of ys k of None \<Rightarrow> False | Some y \<Rightarrow> deep_equal x y) xs
      | _ \<Rightarrow> False)"

section \<open>Schemas\<close>

datatype input_error =
  EmptyInput | InvalidInput string | MissingParameter string | InvalidSchema string | UnsupportedRoot string
| MissingProperty string | NotInEnum string | WrongType string string

definition is_empty_json_schema :: "string \<Rightarrow> bool" where
  "is_empty_json_schema raw = (let t = trim_space raw in t = [] \<or> t = ''{}'' \<or> t = ''null'')"

definition first_schema :: "string list \<Rightarrow> string option" where
  "first_schema schemas =
     (case schemas of [] \<Rightarrow> None | raw # _ \<Rightarrow> if is_empty_json_schema raw then None else Some raw)"

text \<open>The type of a schema, empty if there is none; of several types the first that is a string other than null.\<close>

definition schema_type :: "json option \<Rightarrow> string" where
  "schema_type raw =
     (case raw of
        Some (JStr s) \<Rightarrow> s
      | Some (JArr items) \<Rightarrow>
          (case find (\<lambda>v. case v of JStr s \<Rightarrow> s \<noteq> ''null'' | _ \<Rightarrow> False) items of Some (JStr s) \<Rightarrow> s | _ \<Rightarrow> [])
      | _ \<Rightarrow> [])"

definition schema_required :: "json option \<Rightarrow> string list" where
  "schema_required raw =
     (case raw of
        Some (JArr items) \<Rightarrow> List.map_filter (\<lambda>v. case v of JStr s \<Rightarrow> if s \<noteq> [] then Some s else None | _ \<Rightarrow> None) items
      | _ \<Rightarrow> [])"

definition json_value_matches_type :: "json \<Rightarrow> string \<Rightarrow> bool" where
  "json_value_matches_type v t =
     (if t = ''string'' then (case v of JStr _ \<Rightarrow> True | _ \<Rightarrow> False)
      else if t = ''boolean'' then (case v of JBool _ \<Rightarrow> True | _ \<Rightarrow> False)
      else if t = ''number'' then (case v of JNum _ \<Rightarrow> True | _ \<Rightarrow> False)
      else if t = ''integer'' then (case v of JNum x \<Rightarrow> of_int \<lfloor>x\<rfloor> = x | _ \<Rightarrow> False)
      else if t = ''object'' then (case v of JObj _ \<Rightarrow> True | _ \<Rightarrow> False)
      else if t = ''array'' then (case v of JArr _ \<Rightarrow> True | _ \<Rightarrow> False)
      else if t = ''null'' then v = JNull
      else True)"

definition validate_json_schema_value :: "string \<Rightarrow> json \<Rightarrow> json_object \<Rightarrow> input_error option" where
  "validate_json_schema_value name v schema =
     (case map_of schema ''enum'' of
        Some (JArr (c # cs)) \<Rightarrow>
          if list_ex (deep_equal v) (c # cs)
          then (let t = schema_type (map_of schema ''type'') in
                if t = [] \<or> json_value_matches_type v t then None else Some (WrongType name t))
          else Some (NotInEnum name)
      | _ \<Rightarrow>
          (let t = schema_type (map_of schema ''type'') in
           if t = [] \<or> json_value_matches_type v t then None else Some (WrongType name t)))"

text \<open>The loop over the properties of the schema, in the order of the map's iteration.\<close>

fun validate_properties :: "json_object \<Rightarrow> json_object \<Rightarrow> input_error option" where
  "validate_properties input [] = None"
| "validate_properties input ((name, schema) # rest) =
     (case (map_of input name, schema) of
        (Some v, JObj s) \<Rightarrow>
          (case validate_json_schema_value name v s of Some e \<Rightarrow> Some e | None \<Rightarrow> validate_properties input rest)
      | _ \<Rightarrow> validate_properties input rest)"

definition schema_properties :: "json_object \<Rightarrow> json_object" where
  "schema_properties schema = (case map_of schema ''properties'' of Some (JObj ps) \<Rightarrow> ps | _ \<Rightarrow> [])"

type_synonym object_decoder = "string \<Rightarrow> string + json_object"

definition validate_input_json_schema :: "object_decoder \<Rightarrow> json_object \<Rightarrow> string \<Rightarrow> input_error option" where
  "validate_input_json_schema decode input raw =
     (case decode raw of
        Inl err \<Rightarrow> Some (InvalidSchema err)
      | Inr schema \<Rightarrow>
          if schema = [] then None
          else let root = schema_type (map_of schema ''type'') in
               if root \<noteq> [] \<and> root \<noteq> ''object'' then Some (UnsupportedRoot root)
               else case find (\<lambda>name. map_of input name = None) (schema_required (map_of schema ''required'')) of
                      Some name \<Rightarrow> Some (MissingProperty name)
                    | None \<Rightarrow> validate_properties input (schema_properties schema))"

text \<open>A parameter that has to be a non-empty string.\<close>

definition text_param :: "json_object \<Rightarrow> string \<Rightarrow> string" where
  "text_param m k = (case map_of m k of Some (JStr s) \<Rightarrow> s | _ \<Rightarrow> [])"

definition builtin_param :: "string \<Rightarrow> string option" where
  "builtin_param tool =
     (if tool = ''agent'' then Some ''prompt''
      else if tool = ''document_search'' then Some ''query''
      else if tool = ''memory_store'' then Some ''content'' else None)"

definition validate_tool_input :: "object_decoder \<Rightarrow> string \<Rightarrow> string \<Rightarrow> string list \<Rightarrow> input_error option" where
  "validate_tool_input decode tool input schemas =
     (if trim_space input = []
      then (if first_schema schemas \<noteq> None then Some EmptyInput else None)
      else case decode input of
             Inl err \<Rightarrow> Some (InvalidInput err)
           | Inr m \<Rightarrow>
               (case builtin_param tool of
                  Some p \<Rightarrow> if text_param m p = [] then Some (MissingParameter p)
                            else (case first_schema schemas of None \<Rightarrow> None | Some raw \<Rightarrow> validate_input_json_schema decode m raw)
                | None \<Rightarrow> (case first_schema schemas of None \<Rightarrow> None | Some raw \<Rightarrow> validate_input_json_schema decode m raw)))"

section \<open>What is accepted\<close>

text \<open>The types of JSON Schema; a type the validator does not know, or none, has every value.\<close>

inductive has_type :: "json \<Rightarrow> string \<Rightarrow> bool" where
  string_type: "has_type (JStr s) ''string''"
| boolean_type: "has_type (JBool b) ''boolean''"
| number_type: "has_type (JNum x) ''number''"
| integer_type: "x \<in> \<int> \<Longrightarrow> has_type (JNum x) ''integer''"
| object_type: "has_type (JObj m) ''object''"
| array_type: "has_type (JArr vs) ''array''"
| null_type: "has_type JNull ''null''"
| other_type:
    "t \<notin> {''string'', ''boolean'', ''number'', ''integer'', ''object'', ''array'', ''null''} \<Longrightarrow> has_type v t"

inductive_simps has_type_simps:
  "has_type v ''string''" "has_type v ''boolean''" "has_type v ''number''" "has_type v ''integer''" "has_type v ''object''"
  "has_type v ''array''" "has_type v ''null''" "has_type v []"

lemma floor_int_iff: "of_int \<lfloor>x\<rfloor> = x \<longleftrightarrow> x \<in> \<int>" for x :: rat
  by (metis Ints_cases Ints_of_int floor_of_int)

lemma matches_type_iff: "t = [] \<or> json_value_matches_type v t \<longleftrightarrow> has_type v t"
proof (cases "t \<in> {''string'', ''boolean'', ''number'', ''integer'', ''object'', ''array'', ''null''}")
  case True
  then show ?thesis
    by (elim insertE emptyE)
      (cases v; simp only: json_value_matches_type_def has_type_simps floor_int_iff; simp)+
next
  case False
  then show ?thesis by (auto simp: json_value_matches_type_def other_type)
qed

definition value_conforms :: "json \<Rightarrow> json_object \<Rightarrow> bool" where
  "value_conforms v schema \<longleftrightarrow>
     (\<forall>cs. map_of schema ''enum'' = Some (JArr cs) \<and> cs \<noteq> [] \<longrightarrow> (\<exists>c\<in>set cs. deep_equal v c))
     \<and> has_type v (schema_type (map_of schema ''type''))"

text \<open>A property that the input has conforms to its schema, if that is an object.\<close>

definition member_conforms :: "json_object \<Rightarrow> string \<times> json \<Rightarrow> bool" where
  "member_conforms m p \<longleftrightarrow>
     (case (map_of m (fst p), snd p) of (Some v, JObj s) \<Rightarrow> value_conforms v s | _ \<Rightarrow> True)"

definition object_conforms :: "json_object \<Rightarrow> json_object \<Rightarrow> bool" where
  "object_conforms m schema \<longleftrightarrow>
     schema_type (map_of schema ''type'') \<in> {[], ''object''}
     \<and> set (schema_required (map_of schema ''required'')) \<subseteq> fst ` set m
     \<and> list_all (member_conforms m) (schema_properties schema)"

lemma validate_value_iff: "validate_json_schema_value name v schema = None \<longleftrightarrow> value_conforms v schema"
proof -
  have t: "(let t = schema_type (map_of schema ''type'') in if t = [] \<or> json_value_matches_type v t then None
      else Some (WrongType name t)) = None \<longleftrightarrow> has_type v (schema_type (map_of schema ''type''))"
    by (simp add: matches_type_iff Let_def)
  show ?thesis
  proof (cases "\<exists>c cs. map_of schema ''enum'' = Some (JArr (c # cs))")
    case True
    then obtain c cs where e: "map_of schema ''enum'' = Some (JArr (c # cs))" by blast
    then show ?thesis using t by (simp add: validate_json_schema_value_def value_conforms_def list_ex_iff)
  next
    case False
    then have "validate_json_schema_value name v schema =
        (let t = schema_type (map_of schema ''type'') in if t = [] \<or> json_value_matches_type v t then None
         else Some (WrongType name t))"
      by (auto simp: validate_json_schema_value_def split: option.splits json.splits list.splits)
    with t False show ?thesis by (auto simp: value_conforms_def neq_Nil_conv)
  qed
qed

lemma validate_properties_iff: "validate_properties m ps = None \<longleftrightarrow> list_all (member_conforms m) ps"
proof (induction ps)
  case (Cons p rest)
  obtain name schema where p: "p = (name, schema)" by (cases p)
  have "validate_properties m (p # rest) = None \<longleftrightarrow> member_conforms m p \<and> validate_properties m rest = None"
    by (auto simp: p member_conforms_def validate_value_iff [of name, symmetric] split: option.split json.split)
  with Cons show ?case by simp
qed simp

lemma validate_schema_iff:
  "validate_input_json_schema decode m raw = None \<longleftrightarrow> (\<exists>schema. decode raw = Inr schema \<and> object_conforms m schema)"
proof (cases "decode raw")
  case (Inr schema)
  have req: "find (\<lambda>name. map_of m name = None) names = None \<longleftrightarrow> set names \<subseteq> fst ` set m" for names
    by (auto simp: find_None_iff map_of_eq_None_iff)
  have "object_conforms m []"
    by (simp add: object_conforms_def schema_type_def schema_required_def schema_properties_def)
  then show ?thesis using Inr
    by (auto simp: validate_input_json_schema_def object_conforms_def Let_def validate_properties_iff req [symmetric]
        split: option.splits if_splits)
qed (simp add: validate_input_json_schema_def)

text \<open>
  C8: an input is accepted for a tool exactly if it is blank and the tool has no schema, or it decodes to an object, has
  the non-empty parameter a built-in tool needs, and conforms to the tool's schema: the root type is that of objects,
  every required property is there, and every property with a schema has its type and is deeply equal to one of the
  allowed values, if there are any. The order in which the maps are iterated does not matter.
\<close>

theorem accepted_inputs_conform:
  "validate_tool_input decode tool input schemas = None \<longleftrightarrow>
     (if trim_space input = [] then first_schema schemas = None
      else \<exists>m. decode input = Inr m \<and> (\<forall>p. builtin_param tool = Some p \<longrightarrow> text_param m p \<noteq> [])
        \<and> (\<forall>raw. first_schema schemas = Some raw \<longrightarrow> (\<exists>schema. decode raw = Inr schema \<and> object_conforms m schema)))"
  by (auto simp: validate_tool_input_def validate_schema_iff split: sum.splits option.splits)

definition sample_decode :: object_decoder where
  "sample_decode s =
     (if s = ''input'' then Inr [(''n'', JNum 3), (''s'', JStr ''x'')]
      else if s = ''schema''
      then Inr [(''type'', JStr ''object''), (''required'', JArr [JStr ''n'']),
                (''properties'', JObj [(''n'', JObj [(''type'', JStr ''integer'')])])]
      else Inl ''unexpected end of JSON input'')"

theorem accepted_inputs_conform_witness:
  "validate_tool_input sample_decode ''t'' ''input'' [''schema''] = None"
proof -
  have b: "trim_space ''input'' \<noteq> []" "first_schema [''schema''] = Some ''schema''" "builtin_param ''t'' = None" by code_simp+
  have c: "sample_decode ''input'' = Inr [(''n'', JNum 3), (''s'', JStr ''x'')]"
    "sample_decode ''schema'' = Inr [(''type'', JStr ''object''), (''required'', JArr [JStr ''n'']),
       (''properties'', JObj [(''n'', JObj [(''type'', JStr ''integer'')])])]" by (simp_all add: sample_decode_def)
  have "object_conforms [(''n'', JNum 3), (''s'', JStr ''x'')] [(''type'', JStr ''object''), (''required'', JArr [JStr ''n'']),
       (''properties'', JObj [(''n'', JObj [(''type'', JStr ''integer'')])])]"
    by (simp add: object_conforms_def member_conforms_def schema_type_def schema_required_def schema_properties_def value_conforms_def
        has_type_simps map_filter_def)
  with b c show ?thesis unfolding accepted_inputs_conform [of sample_decode "''t''" "''input''" "[''schema'']"] by auto
qed

text \<open>Of several types only the first one counts, so a property that may be null is rejected when it is.\<close>

lemma nullable_rejected:
  "validate_json_schema_value ''p'' JNull [(''type'', JArr [JStr ''string'', JStr ''null''])] = Some (WrongType ''p'' ''string'')"
  by (simp add: validate_json_schema_value_def schema_type_def json_value_matches_type_def)

lemma second_type_rejected:
  "validate_json_schema_value ''p'' (JNum 1) [(''type'', JArr [JStr ''string'', JStr ''number''])] = Some (WrongType ''p'' ''string'')"
  by (simp add: validate_json_schema_value_def schema_type_def json_value_matches_type_def)

end
