(* ===== verification/Mailbox.thy ===== *)
theory Mailbox
  imports RunState "HOL-Library.Multiset"
begin

text \<open>
  The mailboxes of \<^verbatim>\<open>src/internal/domain/chat/agentic/mailbox.go\<close>: the \<^verbatim>\<open>Mailbox\<close>, a queue that hands messages
  over to blocked receivers, and the \<^verbatim>\<open>AgentMailbox\<close> by which the agents of a run write to each other. Each section
  under the lock is one function; the sends and receives on channels between them are steps of their own, so the
  relation \<open>mail_step\<close> has every interleaving of senders, receivers and the closing of the mailbox. Identifiers and times
  are arguments; a subscriber is a number.
\<close>

section \<open>The mailbox\<close>

datatype message_source = SourceUser | SourceTeammate | SourceSystem | SourceTick | SourceTask | SourceOther string

record mail_message =
  mm_id :: string
  mm_source :: message_source
  mm_content :: string
  mm_from :: string
  mm_color :: string
  mm_metadata :: "(string \<times> string) list"
  mm_timestamp :: "int option"

definition new_mail_message :: "string \<Rightarrow> int \<Rightarrow> message_source \<Rightarrow> string \<Rightarrow> mail_message" where
  "new_mail_message uid now src content =
     \<lparr>mm_id = uid, mm_source = src, mm_content = content, mm_from = '''', mm_color = '''', mm_metadata = [],
      mm_timestamp = Some now\<rparr>"

record mailbox =
  mb_messages :: "mail_message list"
  mb_subscribers :: "nat option list"
  mb_waiters :: "nat list"
  mb_closed :: bool

definition new_mailbox :: mailbox where
  "new_mailbox = \<lparr>mb_messages = [], mb_subscribers = [], mb_waiters = [], mb_closed = False\<rparr>"

text \<open>What \<^verbatim>\<open>Send\<close> fills in, and its section under the lock: where the message goes and whom it notifies.\<close>

definition stamp_message :: "string \<Rightarrow> int \<Rightarrow> mail_message \<Rightarrow> mail_message" where
  "stamp_message uid now msg =
     msg\<lparr>mm_timestamp := Some (case mm_timestamp msg of None \<Rightarrow> now | Some t \<Rightarrow> t),
         mm_id := (if mm_id msg = [] then uid else mm_id msg)\<rparr>"

datatype send_outcome = SendDropped | SendHandsTo nat | SendQueued

definition live_subscribers :: "mailbox \<Rightarrow> nat list" where
  "live_subscribers mb = List.map_filter (\<lambda>f. f) (mb_subscribers mb)"

definition send_locked :: "mail_message \<Rightarrow> mailbox \<Rightarrow> send_outcome \<times> nat list \<times> mailbox" where
  "send_locked msg mb =
     (if mb_closed mb then (SendDropped, [], mb)
      else case mb_waiters mb of
             w # ws \<Rightarrow> (SendHandsTo w, live_subscribers mb, mb\<lparr>mb_waiters := ws\<rparr>)
           | [] \<Rightarrow> (SendQueued, live_subscribers mb, mb\<lparr>mb_messages := mb_messages mb @ [msg]\<rparr>))"

definition poll :: "mailbox \<Rightarrow> mail_message option \<times> mailbox" where
  "poll mb = (case mb_messages mb of [] \<Rightarrow> (None, mb) | m # ms \<Rightarrow> (Some m, mb\<lparr>mb_messages := ms\<rparr>))"

definition poll_all :: "mailbox \<Rightarrow> mail_message list \<times> mailbox" where
  "poll_all mb = (if mb_messages mb = [] then ([], mb) else (mb_messages mb, mb\<lparr>mb_messages := []\<rparr>))"

text \<open>The first section of \<^verbatim>\<open>Receive\<close>, which makes the channel \<open>c\<close> if it has to wait, and the one after \<^verbatim>\<open>done\<close>.\<close>

datatype receive_outcome = ReceivedNow mail_message | ReceiveClosed | ReceiveWaits

definition receive_locked :: "nat \<Rightarrow> mailbox \<Rightarrow> receive_outcome \<times> mailbox" where
  "receive_locked c mb =
     (case mb_messages mb of
        m # ms \<Rightarrow> (ReceivedNow m, mb\<lparr>mb_messages := ms\<rparr>)
      | [] \<Rightarrow> if mb_closed mb then (ReceiveClosed, mb)
              else (ReceiveWaits, mb\<lparr>mb_waiters := mb_waiters mb @ [c]\<rparr>))"

definition cancel_wait :: "nat \<Rightarrow> mailbox \<Rightarrow> mailbox" where
  "cancel_wait c mb = mb\<lparr>mb_waiters := remove1 c (mb_waiters mb)\<rparr>"

definition subscribe :: "nat \<Rightarrow> mailbox \<Rightarrow> nat \<times> mailbox" where
  "subscribe f mb = (length (mb_subscribers mb), mb\<lparr>mb_subscribers := mb_subscribers mb @ [Some f]\<rparr>)"

definition unsubscribe :: "nat \<Rightarrow> mailbox \<Rightarrow> mailbox" where
  "unsubscribe idx mb =
     (if idx < length (mb_subscribers mb) then mb\<lparr>mb_subscribers := (mb_subscribers mb)[idx := None]\<rparr> else mb)"

definition pending :: "mailbox \<Rightarrow> nat" where
  "pending mb = length (mb_messages mb)"

definition close_locked :: "mailbox \<Rightarrow> nat list \<times> mailbox" where
  "close_locked mb = (mb_waiters mb, mb\<lparr>mb_closed := True, mb_waiters := []\<rparr>)"

definition filter_by_source :: "message_source \<Rightarrow> mailbox \<Rightarrow> mail_message list" where
  "filter_by_source src mb = filter (\<lambda>m. mm_source m = src) (mb_messages mb)"

section \<open>Senders and receivers side by side\<close>

text \<open>
  The system around the mailbox: sends that have taken a waiter and not written to its channel yet, the contents of the
  channels (of capacity one), the channels still to be closed and the closed ones, the receivers blocked in their
  select, those that have given up; and as history the messages accepted, those taken out in that order, and those
  returned to a caller.
\<close>

record mail_system =
  sys_box :: mailbox
  sys_handing :: "(nat \<times> mail_message) list"
  sys_buffered :: "(nat \<times> mail_message) list"
  sys_closing :: "nat list"
  sys_closed :: "nat list"
  sys_blocked :: "nat list"
  sys_cancelled :: "nat list"
  sys_next :: nat
  sys_sent :: "mail_message list"
  sys_taken :: "mail_message list"
  sys_received :: "mail_message list"

definition mail_start :: mail_system where
  "mail_start =
     \<lparr>sys_box = new_mailbox, sys_handing = [], sys_buffered = [], sys_closing = [], sys_closed = [], sys_blocked = [],
      sys_cancelled = [], sys_next = 0, sys_sent = [], sys_taken = [], sys_received = []\<rparr>"

inductive mail_step :: "mail_system \<Rightarrow> mail_system \<Rightarrow> bool" where
  send_dropped: "send_locked msg (sys_box s) = (SendDropped, subs, mb) \<Longrightarrow> mail_step s s"
| send_queued:
    "send_locked msg (sys_box s) = (SendQueued, subs, mb) \<Longrightarrow>
     mail_step s (s\<lparr>sys_box := mb, sys_sent := sys_sent s @ [msg]\<rparr>)"
| send_hands:
    "send_locked msg (sys_box s) = (SendHandsTo c, subs, mb) \<Longrightarrow>
     mail_step s (s\<lparr>sys_box := mb, sys_handing := sys_handing s @ [(c, msg)], sys_sent := sys_sent s @ [msg],
                    sys_taken := sys_taken s @ [msg]\<rparr>)"
| deliver:
    "sys_handing s = hs @ (c, msg) # hs' \<Longrightarrow>
     mail_step s (s\<lparr>sys_handing := hs @ hs', sys_buffered := (c, msg) # sys_buffered s\<rparr>)"
| polled:
    "poll (sys_box s) = (Some msg, mb) \<Longrightarrow>
     mail_step s (s\<lparr>sys_box := mb, sys_taken := sys_taken s @ [msg], sys_received := sys_received s @ [msg]\<rparr>)"
| polled_all:
    "poll_all (sys_box s) = (msgs, mb) \<Longrightarrow>
     mail_step s (s\<lparr>sys_box := mb, sys_taken := sys_taken s @ msgs, sys_received := sys_received s @ msgs\<rparr>)"
| receive_now:
    "receive_locked (sys_next s) (sys_box s) = (ReceivedNow msg, mb) \<Longrightarrow>
     mail_step s (s\<lparr>sys_box := mb, sys_taken := sys_taken s @ [msg], sys_received := sys_received s @ [msg]\<rparr>)"
| receive_waits:
    "receive_locked (sys_next s) (sys_box s) = (ReceiveWaits, mb) \<Longrightarrow>
     mail_step s (s\<lparr>sys_box := mb, sys_blocked := sys_next s # sys_blocked s, sys_next := Suc (sys_next s)\<rparr>)"
| wake:
    "c \<in> set (sys_blocked s) \<Longrightarrow> sys_buffered s = bs @ (c, msg) # bs' \<Longrightarrow>
     mail_step s (s\<lparr>sys_buffered := bs @ bs', sys_blocked := remove1 c (sys_blocked s),
                    sys_received := sys_received s @ [msg]\<rparr>)"
| wake_closed:
    "c \<in> set (sys_blocked s) \<Longrightarrow> c \<in> set (sys_closed s) \<Longrightarrow>
     mail_step s (s\<lparr>sys_blocked := remove1 c (sys_blocked s)\<rparr>)"
| give_up:
    "c \<in> set (sys_blocked s) \<Longrightarrow>
     mail_step s (s\<lparr>sys_box := cancel_wait c (sys_box s), sys_blocked := remove1 c (sys_blocked s),
                    sys_cancelled := c # sys_cancelled s\<rparr>)"
| close:
    "close_locked (sys_box s) = (ws, mb) \<Longrightarrow>
     mail_step s (s\<lparr>sys_box := mb, sys_closing := sys_closing s @ ws\<rparr>)"
| close_channel:
    "sys_closing s = c # cs \<Longrightarrow> mail_step s (s\<lparr>sys_closing := cs, sys_closed := c # sys_closed s\<rparr>)"

inductive mail_reachable :: "mail_system \<Rightarrow> bool" where
  start: "mail_reachable mail_start"
| step: "mail_reachable s \<Longrightarrow> mail_step s t \<Longrightarrow> mail_reachable t"

text \<open>Every channel is in one place: waiting, being written, holding its message, being closed or closed.\<close>

definition used_channels :: "mail_system \<Rightarrow> nat list" where
  "used_channels s =
     mb_waiters (sys_box s) @ map fst (sys_handing s) @ map fst (sys_buffered s) @ sys_closing s @ sys_closed s"

definition mail_channels :: "mail_system \<Rightarrow> bool" where
  "mail_channels s =
     (distinct (used_channels s) \<and> distinct (sys_blocked s)
      \<and> (\<forall>c\<in>set (used_channels s). c < sys_next s) \<and> (\<forall>c\<in>set (sys_blocked s). c < sys_next s))"

definition mail_receivers :: "mail_system \<Rightarrow> bool" where
  "mail_receivers s =
     (set (used_channels s) \<subseteq> set (sys_blocked s) \<union> set (sys_cancelled s) \<union> set (sys_closed s))"

definition mail_order :: "mail_system \<Rightarrow> bool" where
  "mail_order s =
     ((mb_waiters (sys_box s) = [] \<or> mb_messages (sys_box s) = [] \<and> \<not> mb_closed (sys_box s))
      \<and> sys_sent s = sys_taken s @ mb_messages (sys_box s)
      \<and> mset (sys_taken s) = mset (sys_received s) + mset (map snd (sys_handing s @ sys_buffered s)))"

definition mail_inv :: "mail_system \<Rightarrow> bool" where
  "mail_inv s = (mail_channels s \<and> mail_receivers s \<and> mail_order s)"

lemma mail_inv_start: "mail_inv mail_start"
  by (simp add: mail_inv_def mail_channels_def mail_receivers_def mail_order_def mail_start_def used_channels_def new_mailbox_def)

text \<open>The sections under the lock, outcome by outcome.\<close>

lemma section_outcomes:
  "send_locked msg mb = (SendQueued, subs, mb') \<longleftrightarrow>
     \<not> mb_closed mb \<and> mb_waiters mb = [] \<and> subs = live_subscribers mb \<and> mb' = mb\<lparr>mb_messages := mb_messages mb @ [msg]\<rparr>"
  "send_locked msg mb = (SendHandsTo c, subs, mb') \<longleftrightarrow>
     (\<exists>ws. \<not> mb_closed mb \<and> mb_waiters mb = c # ws \<and> subs = live_subscribers mb \<and> mb' = mb\<lparr>mb_waiters := ws\<rparr>)"
  "poll mb = (Some msg, mb') \<longleftrightarrow> (\<exists>ms. mb_messages mb = msg # ms \<and> mb' = mb\<lparr>mb_messages := ms\<rparr>)"
  "poll_all mb = (msgs, mb') \<longleftrightarrow> msgs = mb_messages mb \<and> mb' = mb\<lparr>mb_messages := []\<rparr>"
  "receive_locked c mb = (ReceivedNow msg, mb') \<longleftrightarrow> (\<exists>ms. mb_messages mb = msg # ms \<and> mb' = mb\<lparr>mb_messages := ms\<rparr>)"
  "receive_locked c mb = (ReceiveWaits, mb') \<longleftrightarrow>
     mb_messages mb = [] \<and> \<not> mb_closed mb \<and> mb' = mb\<lparr>mb_waiters := mb_waiters mb @ [c]\<rparr>"
  "close_locked mb = (ws, mb') \<longleftrightarrow> ws = mb_waiters mb \<and> mb' = mb\<lparr>mb_closed := True, mb_waiters := []\<rparr>"
  by (auto simp: send_locked_def poll_def poll_all_def receive_locked_def close_locked_def split: list.splits if_splits)

lemma mail_order_step: "mail_step s t \<Longrightarrow> mail_order s \<Longrightarrow> mail_order t"
proof (induction rule: mail_step.induct)
  case send_dropped then show ?case by (auto simp: section_outcomes mail_order_def used_channels_def cancel_wait_def)
next
  case send_queued then show ?case by (auto simp: section_outcomes mail_order_def used_channels_def cancel_wait_def)
next
  case send_hands then show ?case by (auto simp: section_outcomes mail_order_def used_channels_def cancel_wait_def)
next
  case deliver then show ?case by (auto simp: section_outcomes mail_order_def used_channels_def cancel_wait_def)
next
  case polled then show ?case by (auto simp: section_outcomes mail_order_def used_channels_def cancel_wait_def)
next
  case polled_all then show ?case by (auto simp: section_outcomes mail_order_def used_channels_def cancel_wait_def)
next
  case receive_now then show ?case by (auto simp: section_outcomes mail_order_def used_channels_def cancel_wait_def)
next
  case receive_waits then show ?case by (auto simp: section_outcomes mail_order_def used_channels_def cancel_wait_def)
next
  case wake then show ?case by (auto simp: section_outcomes mail_order_def used_channels_def cancel_wait_def)
next
  case wake_closed then show ?case by (auto simp: section_outcomes mail_order_def used_channels_def cancel_wait_def)
next
  case give_up then show ?case by (auto simp: section_outcomes mail_order_def used_channels_def cancel_wait_def)
next
  case close then show ?case by (auto simp: section_outcomes mail_order_def used_channels_def cancel_wait_def)
next
  case close_channel then show ?case by (auto simp: section_outcomes mail_order_def used_channels_def cancel_wait_def)
qed

lemma distinct_remove1_append: "distinct (xs @ ys) \<Longrightarrow> distinct (remove1 c xs @ ys)"
  by (auto dest: notin_set_remove1)

lemma mail_channels_step: "mail_step s t \<Longrightarrow> mail_channels s \<Longrightarrow> mail_channels t"
proof (induction rule: mail_step.induct)
  case send_dropped then show ?case by (clarsimp simp: section_outcomes mail_channels_def used_channels_def cancel_wait_def)
next
  case send_queued then show ?case by (clarsimp simp: section_outcomes mail_channels_def used_channels_def cancel_wait_def)
next
  case send_hands then show ?case by (clarsimp simp: section_outcomes mail_channels_def used_channels_def cancel_wait_def)
next
  case deliver then show ?case by (clarsimp simp: section_outcomes mail_channels_def used_channels_def cancel_wait_def)
next
  case polled then show ?case by (clarsimp simp: section_outcomes mail_channels_def used_channels_def cancel_wait_def)
next
  case polled_all then show ?case by (clarsimp simp: section_outcomes mail_channels_def used_channels_def cancel_wait_def)
next
  case receive_now then show ?case by (clarsimp simp: section_outcomes mail_channels_def used_channels_def cancel_wait_def)
next
  case (receive_waits s mb)
  have "sys_next s \<notin> set (used_channels s)" "sys_next s \<notin> set (sys_blocked s)"
    "\<forall>c\<in>set (used_channels s). c < Suc (sys_next s)" "\<forall>c\<in>set (sys_blocked s). c < Suc (sys_next s)"
    using receive_waits(2) by (auto simp: mail_channels_def intro: less_SucI)
  with receive_waits show ?case by (clarsimp simp: section_outcomes mail_channels_def used_channels_def)
next
  case wake then show ?case by (clarsimp simp: section_outcomes mail_channels_def used_channels_def cancel_wait_def)
next
  case wake_closed then show ?case by (clarsimp simp: section_outcomes mail_channels_def used_channels_def cancel_wait_def)
next
  case (give_up c s)
  let ?t = "s\<lparr>sys_box := cancel_wait c (sys_box s), sys_blocked := remove1 c (sys_blocked s), sys_cancelled := c # sys_cancelled s\<rparr>"
  have "distinct (used_channels ?t)" "set (used_channels ?t) \<subseteq> set (used_channels s)"
    using give_up(2) distinct_remove1_append [of "mb_waiters (sys_box s)"]
    by (simp_all only: mail_channels_def used_channels_def) (auto simp: cancel_wait_def dest: notin_set_remove1)
  with give_up(2) show ?case by (auto simp: mail_channels_def dest: notin_set_remove1)
next
  case (close s ws mb)
  let ?t = "s\<lparr>sys_box := mb, sys_closing := sys_closing s @ ws\<rparr>"
  have "mset (used_channels ?t) = mset (used_channels s)"
    using close(1) by (simp add: section_outcomes used_channels_def)
  then have "distinct (used_channels ?t) = distinct (used_channels s)" "set (used_channels ?t) = set (used_channels s)"
    by (rule mset_eq_imp_distinct_iff, rule mset_eq_setD)
  with close(2) show ?case by (simp add: mail_channels_def)
next
  case close_channel then show ?case by (clarsimp simp: section_outcomes mail_channels_def used_channels_def cancel_wait_def)
qed

lemma mail_receivers_step: "mail_step s t \<Longrightarrow> mail_channels s \<Longrightarrow> mail_receivers s \<Longrightarrow> mail_receivers t"
proof (induction rule: mail_step.induct)
  case send_dropped then show ?case by (auto simp: section_outcomes mail_receivers_def used_channels_def)
next
  case send_queued then show ?case by (auto simp: section_outcomes mail_receivers_def used_channels_def)
next
  case send_hands then show ?case by (auto simp: section_outcomes mail_receivers_def used_channels_def)
next
  case deliver then show ?case by (auto simp: section_outcomes mail_receivers_def used_channels_def)
next
  case polled then show ?case by (auto simp: section_outcomes mail_receivers_def used_channels_def)
next
  case polled_all then show ?case by (auto simp: section_outcomes mail_receivers_def used_channels_def)
next
  case receive_now then show ?case by (auto simp: section_outcomes mail_receivers_def used_channels_def)
next
  case receive_waits then show ?case by (auto simp: section_outcomes mail_receivers_def used_channels_def)
next
  case (wake c s bs msg bs')
  let ?t = "s\<lparr>sys_buffered := bs @ bs', sys_blocked := remove1 c (sys_blocked s), sys_received := sys_received s @ [msg]\<rparr>"
  have "c \<notin> set (used_channels ?t)" "set (used_channels ?t) \<subseteq> set (used_channels s)"
    using wake(2,3) by (auto simp: mail_channels_def used_channels_def)
  with wake(4) show ?case by (auto simp: mail_receivers_def intro: in_set_remove1 [THEN iffD2])
next
  case (wake_closed c s)
  have "used_channels (s\<lparr>sys_blocked := remove1 c (sys_blocked s)\<rparr>) = used_channels s" by (simp add: used_channels_def)
  with wake_closed show ?case by (auto simp: mail_receivers_def intro: in_set_remove1 [THEN iffD2])
next
  case (give_up c s)
  let ?t = "s\<lparr>sys_box := cancel_wait c (sys_box s), sys_blocked := remove1 c (sys_blocked s), sys_cancelled := c # sys_cancelled s\<rparr>"
  have "set (used_channels ?t) \<subseteq> set (used_channels s)"
    by (auto simp: used_channels_def cancel_wait_def dest: notin_set_remove1)
  with give_up(3) show ?case by (auto simp: mail_receivers_def intro: in_set_remove1 [THEN iffD2])
next
  case close then show ?case by (auto simp: section_outcomes mail_receivers_def used_channels_def)
next
  case close_channel then show ?case by (auto simp: section_outcomes mail_receivers_def used_channels_def)
qed
lemma mail_reachable_inv: "mail_reachable s \<Longrightarrow> mail_inv s"
  by (induction rule: mail_reachable.induct)
    (auto simp: mail_inv_start, auto simp: mail_inv_def intro: mail_channels_step mail_receivers_step mail_order_step)

text \<open>
  C28: whatever senders, receivers, pollers and the closing of the mailbox do and in whatever order, the messages leave
  the mailbox in the order they were accepted; each one taken out was returned to exactly one caller, is being handed
  to a receiver, or lies in a channel whose receiver is still blocked or has given up. A sender never writes to a
  channel that is full, closed or about to be closed, so it neither blocks nor panics, no channel is closed twice, and
  a receiver waits only while the mailbox is empty and open.
\<close>

theorem mailbox_delivers_in_order:
  assumes "mail_reachable s"
  shows "sys_sent s = sys_taken s @ mb_messages (sys_box s)
    \<and> mset (sys_taken s) = mset (sys_received s) + mset (map snd (sys_handing s @ sys_buffered s))
    \<and> fst ` set (sys_handing s @ sys_buffered s) \<subseteq> set (sys_blocked s) \<union> set (sys_cancelled s)
    \<and> distinct (map fst (sys_handing s) @ map fst (sys_buffered s) @ sys_closing s @ sys_closed s)
    \<and> (mb_waiters (sys_box s) = [] \<or> mb_messages (sys_box s) = [] \<and> \<not> mb_closed (sys_box s))"
proof -
  have inv: "mail_channels s" "mail_receivers s" "mail_order s"
    using mail_reachable_inv [OF assms] by (auto simp: mail_inv_def)
  have d: "distinct (map fst (sys_handing s @ sys_buffered s) @ sys_closing s @ sys_closed s)"
    using inv(1) unfolding mail_channels_def used_channels_def by simp
  then have "fst ` set (sys_handing s @ sys_buffered s) \<inter> set (sys_closed s) = {}" by auto
  moreover have "fst ` set (sys_handing s @ sys_buffered s)
      \<subseteq> set (sys_blocked s) \<union> set (sys_cancelled s) \<union> set (sys_closed s)"
    using inv(2) by (simp add: mail_receivers_def used_channels_def image_Un)
  ultimately have "fst ` set (sys_handing s @ sys_buffered s) \<subseteq> set (sys_blocked s) \<union> set (sys_cancelled s)" by blast
  with d inv(3) show ?thesis by (simp add: mail_order_def)
qed

text \<open>A receiver gives up after a sender has taken its channel: the message is accepted, and never received.\<close>

definition lost_state :: "mail_message \<Rightarrow> mail_system" where
  "lost_state msg = mail_start\<lparr>sys_buffered := [(0, msg)], sys_cancelled := [0], sys_next := 1, sys_sent := [msg], sys_taken := [msg]\<rparr>"

lemma lost_reachable: "mail_reachable (lost_state msg)"
proof -
  let ?w = "new_mailbox\<lparr>mb_waiters := [0]\<rparr>"
  let ?s1 = "mail_start\<lparr>sys_box := ?w, sys_blocked := [0], sys_next := 1\<rparr>"
  let ?s2 = "?s1\<lparr>sys_box := new_mailbox, sys_handing := [(0, msg)], sys_sent := [msg], sys_taken := [msg]\<rparr>"
  let ?s3 = "?s2\<lparr>sys_box := new_mailbox, sys_blocked := [], sys_cancelled := [0]\<rparr>"
  note d = mail_start_def new_mailbox_def section_outcomes live_subscribers_def map_filter_def
  have "mail_step mail_start ?s1"
    using mail_step.receive_waits [of mail_start ?w] by (simp add: d)
  moreover have "mail_step ?s1 ?s2"
    using mail_step.send_hands [of msg ?s1 0 "[]" new_mailbox] by (simp add: d)
  moreover have "mail_step ?s2 ?s3"
    using mail_step.give_up [of 0 ?s2] by (simp add: d cancel_wait_def)
  moreover have "mail_step ?s3 (lost_state msg)"
    using mail_step.deliver [of ?s3 "[]" 0 msg "[]"] by (simp add: d lost_state_def)
  ultimately show ?thesis using mail_reachable.start mail_reachable.step by meson
qed

lemma lost_forever:
  "mail_step s t \<Longrightarrow> (c, msg) \<in> set (sys_buffered s) \<and> c \<notin> set (sys_blocked s) \<and> c < sys_next s \<Longrightarrow>
   (c, msg) \<in> set (sys_buffered t) \<and> c \<notin> set (sys_blocked t) \<and> c < sys_next t"
  by (induction rule: mail_step.induct) (auto dest: notin_set_remove1)

theorem mailbox_delivers_in_order_witness:
  "let s = lost_state (new_mail_message ''1'' 0 SourceUser ''hello'')
   in sys_sent s = sys_taken s @ mb_messages (sys_box s)
      \<and> fst ` set (sys_buffered s) \<subseteq> set (sys_blocked s) \<union> set (sys_cancelled s)"
  using mailbox_delivers_in_order [OF lost_reachable [of "new_mail_message ''1'' 0 SourceUser ''hello''"]]
  by (simp add: Let_def image_Un)

section \<open>Messages between the agents of a run\<close>

record agent_message =
  am_id :: string
  am_from :: string
  am_to :: string
  am_content :: string
  am_timestamp :: int
  am_read :: bool

text \<open>The messages of every session; a session without an entry has the nil slice.\<close>

type_synonym agent_mailbox = "string \<Rightarrow> agent_message list option"

definition session_messages :: "agent_mailbox \<Rightarrow> string \<Rightarrow> agent_message list" where
  "session_messages mb sid = (case mb sid of None \<Rightarrow> [] | Some ms \<Rightarrow> ms)"

definition send_agent ::
  "string \<Rightarrow> int \<Rightarrow> string \<Rightarrow> string \<Rightarrow> string \<Rightarrow> string \<Rightarrow> agent_mailbox \<Rightarrow> agent_message \<times> agent_mailbox" where
  "send_agent uid now sid from to content mb =
     (let msg = \<lparr>am_id = uid, am_from = from, am_to = to, am_content = content, am_timestamp = now, am_read = False\<rparr>
      in (msg, mb(sid \<mapsto> session_messages mb sid @ [msg])))"

definition addressed :: "string \<Rightarrow> agent_message \<Rightarrow> bool" where
  "addressed rcpt m = (am_to m = rcpt \<or> am_to m = ''*'')"

text \<open>The loop of \<^verbatim>\<open>ReadUnread\<close> writes the flag into the slice and then copies the element.\<close>

fun read_scan :: "string \<Rightarrow> agent_message list \<Rightarrow> agent_message list \<times> agent_message list" where
  "read_scan rcpt [] = ([], [])"
| "read_scan rcpt (m # ms) =
     (case read_scan rcpt ms of (result, ms') \<Rightarrow>
        if am_read m then (result, m # ms')
        else if addressed rcpt m then (m\<lparr>am_read := True\<rparr> # result, m\<lparr>am_read := True\<rparr> # ms')
        else (result, m # ms'))"

definition read_unread :: "string \<Rightarrow> string \<Rightarrow> agent_mailbox \<Rightarrow> agent_message list \<times> agent_mailbox" where
  "read_unread sid rcpt mb =
     (case mb sid of
        None \<Rightarrow> ([], mb)
      | Some ms \<Rightarrow> (case read_scan rcpt ms of (result, ms') \<Rightarrow> (result, mb(sid \<mapsto> ms'))))"

definition pending_count :: "string \<Rightarrow> string \<Rightarrow> agent_mailbox \<Rightarrow> nat" where
  "pending_count sid rcpt mb = length (filter (\<lambda>m. \<not> am_read m \<and> addressed rcpt m) (session_messages mb sid))"

definition cleanup :: "string \<Rightarrow> agent_mailbox \<Rightarrow> agent_mailbox" where
  "cleanup sid mb = mb(sid := None)"

definition agent_len :: "string \<Rightarrow> agent_mailbox \<Rightarrow> nat" where
  "agent_len sid mb = length (session_messages mb sid)"

text \<open>
  The handler of \<^verbatim>\<open>send_message\<close>: the JSON decoder gives an error or the recipient and the text; the encoder gets the
  identifier and the recipient. The emitted event shows the sent message with its content redacted (\<^verbatim>\<open>NewRunEvent\<close>, the argument
  \<open>redact\<close>); the mailbox keeps the content. The latency is left out.
\<close>

definition handle_send_message ::
  "(string \<Rightarrow> string + string \<times> string) \<Rightarrow> (string \<times> string \<Rightarrow> string) \<Rightarrow> (string \<Rightarrow> string) \<Rightarrow> string \<Rightarrow> int \<Rightarrow> string \<Rightarrow> string
   \<Rightarrow> string \<Rightarrow> agent_mailbox \<Rightarrow> tool_exec_result \<times> agent_message option \<times> agent_mailbox" where
  "handle_send_message decode encode redact uid now sid subtask raw mb =
     (case decode raw of
        Inl err \<Rightarrow> (zero_result\<lparr>er_error := Some (''invalid send_message input: '' @ err)\<rparr>, None, mb)
      | Inr (to, message) \<Rightarrow>
          if message = []
          then (zero_result\<lparr>er_error := Some (''send_message requires a '' @ [CHR 0x27] @ ''message'' @ [CHR 0x27] @ '' parameter'')\<rparr>,
                None, mb)
          else if to = []
          then (zero_result\<lparr>er_error := Some (''send_message requires a '' @ [CHR 0x27] @ ''to'' @ [CHR 0x27]
                  @ '' parameter (subtask ID or '' @ [CHR 0x27] @ ''*'' @ [CHR 0x27] @ '' for broadcast)'')\<rparr>, None, mb)
          else case send_agent uid now sid subtask to message mb of
                 (msg, mb') \<Rightarrow> (zero_result\<lparr>er_output := encode (am_id msg, to)\<rparr>, Some (msg\<lparr>am_content := redact (am_content msg)\<rparr>), mb'))"

definition drain_line :: "agent_message \<Rightarrow> string" where
  "drain_line m = ''[From '' @ am_from m @ '']: '' @ am_content m @ [CHR 0x0A]"

definition drain_agent_mailbox :: "string \<Rightarrow> string \<Rightarrow> agent_mailbox \<Rightarrow> string \<times> agent_mailbox" where
  "drain_agent_mailbox sid rcpt mb =
     (case read_unread sid rcpt mb of
        ([], mb') \<Rightarrow> ([], mb')
      | (msgs, mb') \<Rightarrow>
          ([CHR 0x0A, CHR 0x0A] @ ''--- Messages from other agents ---'' @ [CHR 0x0A]
             @ concat (map drain_line msgs) @ ''--- End of messages ---'', mb'))"

lemma read_scan_eq:
  "read_scan rcpt ms =
     (map (\<lambda>m. m\<lparr>am_read := True\<rparr>) (filter (\<lambda>m. \<not> am_read m \<and> addressed rcpt m) ms),
      map (\<lambda>m. if addressed rcpt m then m\<lparr>am_read := True\<rparr> else m) ms)"
  by (induction ms) auto

lemma read_unread_eq:
  "read_unread sid rcpt mb =
     (map (\<lambda>m. m\<lparr>am_read := True\<rparr>) (filter (\<lambda>m. \<not> am_read m \<and> addressed rcpt m) (session_messages mb sid)),
      mb(sid := map_option (map (\<lambda>m. if addressed rcpt m then m\<lparr>am_read := True\<rparr> else m)) (mb sid)))"
  by (auto simp: read_unread_def read_scan_eq session_messages_def split: option.splits)

text \<open>What the agents of all sessions do, and the log of what each read returned.\<close>

datatype agent_op =
  AgentSend (op_uid: string) int string string string string
| AgentRead string string
| AgentCleanup string

fun agent_run :: "agent_op list \<Rightarrow> agent_mailbox \<Rightarrow> (string \<times> string \<times> agent_message) list" where
  "agent_run [] mb = []"
| "agent_run (AgentSend uid now sid from to content # ops) mb =
     agent_run ops (snd (send_agent uid now sid from to content mb))"
| "agent_run (AgentRead sid rcpt # ops) mb =
     (case read_unread sid rcpt mb of (ms, mb') \<Rightarrow> map (\<lambda>m. (sid, rcpt, m)) ms @ agent_run ops mb')"
| "agent_run (AgentCleanup sid # ops) mb = agent_run ops (cleanup sid mb)"

text \<open>The agents that read in a session before it is cleaned up, in order.\<close>

fun session_readers :: "string \<Rightarrow> agent_op list \<Rightarrow> string list" where
  "session_readers sid [] = []"
| "session_readers sid (AgentSend uid now s from to content # ops) = session_readers sid ops"
| "session_readers sid (AgentRead s rcpt # ops) = (if s = sid then [rcpt] else []) @ session_readers sid ops"
| "session_readers sid (AgentCleanup s # ops) = (if s = sid then [] else session_readers sid ops)"

definition with_id :: "string \<Rightarrow> agent_message list \<Rightarrow> agent_message list" where
  "with_id uid ms = filter (\<lambda>m. am_id m = uid) ms"

definition copies :: "string \<Rightarrow> agent_op list \<Rightarrow> agent_mailbox \<Rightarrow> (string \<times> string \<times> agent_message) list" where
  "copies uid ops mb = filter (\<lambda>(s, r, m). am_id m = uid) (agent_run ops mb)"

definition unsent :: "string \<Rightarrow> agent_op list \<Rightarrow> bool" where
  "unsent uid ops = list_all (\<lambda>p. case p of AgentSend u _ _ _ _ _ \<Rightarrow> u \<noteq> uid | _ \<Rightarrow> True) ops"

lemma with_id_send:
  "with_id uid (session_messages (snd (send_agent u now sid from to content mb)) s) =
     with_id uid (session_messages mb s)
       @ (if s = sid \<and> u = uid
          then [\<lparr>am_id = uid, am_from = from, am_to = to, am_content = content, am_timestamp = now, am_read = False\<rparr>] else [])"
  by (simp add: send_agent_def session_messages_def with_id_def Let_def)

lemma with_id_cleanup:
  "with_id uid (session_messages (cleanup sid mb) s) = (if s = sid then [] else with_id uid (session_messages mb s))"
  by (simp add: cleanup_def session_messages_def with_id_def)

lemma with_id_read:
  "with_id uid (session_messages (snd (read_unread sid rcpt mb)) s) =
     map (\<lambda>m. if s = sid \<and> addressed rcpt m then m\<lparr>am_read := True\<rparr> else m) (with_id uid (session_messages mb s))"
  by (auto simp: read_unread_eq session_messages_def with_id_def filter_map o_def split: option.splits
      intro!: arg_cong2 [where f = map] filter_cong)

lemma with_id_result:
  "with_id uid (fst (read_unread sid rcpt mb)) =
     map (\<lambda>m. m\<lparr>am_read := True\<rparr>) (filter (\<lambda>m. \<not> am_read m \<and> addressed rcpt m) (with_id uid (session_messages mb sid)))"
  by (simp add: read_unread_eq with_id_def filter_map o_def conj_ac)

lemma copies_Cons:
  "copies uid [] mb = []"
  "copies uid (AgentSend u now s from to content # ops) mb = copies uid ops (snd (send_agent u now s from to content mb))"
  "copies uid (AgentRead s r # ops) mb =
     map (\<lambda>m. (s, r, m)) (with_id uid (fst (read_unread s r mb))) @ copies uid ops (snd (read_unread s r mb))"
  "copies uid (AgentCleanup s # ops) mb = copies uid ops (cleanup s mb)"
  by (auto simp: copies_def with_id_def filter_map o_def split: prod.splits)

lemma read_never_again:
  "\<forall>s. \<forall>m\<in>set (with_id uid (session_messages mb s)). am_read m \<Longrightarrow> unsent uid ops \<Longrightarrow> copies uid ops mb = []"
proof (induction ops arbitrary: mb)
  case (Cons p ops)
  have "unsent uid ops" using Cons(3) by (simp add: unsent_def)
  note IH = Cons.IH [OF _ this]
  show ?case
  proof (cases p)
    case AgentSend
    with Cons(2,3) show ?thesis by (simp add: copies_Cons unsent_def with_id_send IH)
  next
    case (AgentRead s r)
    have "copies uid ops (snd (read_unread s r mb)) = []" by (rule IH) (use Cons(2) in \<open>auto simp: with_id_read\<close>)
    with Cons(2) AgentRead show ?thesis by (simp add: copies_Cons with_id_result filter_empty_conv)
  next
    case (AgentCleanup s)
    have "copies uid ops (cleanup s mb) = []" by (rule IH) (use Cons(2) in \<open>auto simp: with_id_cleanup\<close>)
    with AgentCleanup show ?thesis by (simp add: copies_Cons)
  qed
qed (simp add: copies_Cons)

lemma unread_reaches_first:
  assumes "\<forall>s. with_id uid (session_messages mb s) = (if s = sid then [m] else [])" and "\<not> am_read m" and "unsent uid ops"
  shows "copies uid ops mb =
    map (\<lambda>r. (sid, r, m\<lparr>am_read := True\<rparr>)) (take 1 (filter (\<lambda>r. addressed r m) (session_readers sid ops)))"
  using assms
proof (induction ops arbitrary: mb)
  case (Cons p ops)
  show ?case
  proof (cases p)
    case AgentSend
    with Cons show ?thesis by (simp add: copies_Cons unsent_def with_id_send)
  next
    case (AgentCleanup s)
    show ?thesis
    proof (cases "s = sid")
      case True
      with Cons(2,4) AgentCleanup show ?thesis
        by (simp add: copies_Cons unsent_def with_id_cleanup read_never_again)
    next
      case False
      with Cons AgentCleanup show ?thesis by (simp add: copies_Cons unsent_def with_id_cleanup)
    qed
  next
    case (AgentRead s r)
    show ?thesis
    proof (cases "s = sid \<and> addressed r m")
      case True
      then have "copies uid ops (snd (read_unread s r mb)) = []"
        using Cons(2,4) AgentRead by (intro read_never_again) (auto simp: with_id_read unsent_def)
      with True Cons(2,3) AgentRead show ?thesis by (simp add: copies_Cons with_id_result)
    next
      case False
      then have "\<forall>s'. with_id uid (session_messages (snd (read_unread s r mb)) s') = (if s' = sid then [m] else [])"
        using Cons(2) by (auto simp: with_id_read)
      with False Cons AgentRead show ?thesis by (auto simp: copies_Cons with_id_result unsent_def)
    qed
  qed
qed (simp add: copies_Cons)

text \<open>
  C27: a message with a new identifier, sent by one agent of a run, is returned exactly once, unchanged but for its mark,
  to the first agent that reads the session's messages and is the recipient or, for a broadcast, to whichever agent
  reads first, the sender included; to nobody if no such agent reads before the session is cleaned up. What else the
  agents send and read in this or other sessions makes no difference.
\<close>

theorem agent_message_reaches_first_reader:
  assumes new: "\<forall>s. with_id uid (session_messages mb s) = []" "unsent uid ops"
  shows "(case send_agent uid now sid frm to content mb of (msg, mb') \<Rightarrow>
      copies uid ops mb' =
        map (\<lambda>r. (sid, r, msg\<lparr>am_read := True\<rparr>)) (take 1 (filter (\<lambda>r. to = r \<or> to = ''*'') (session_readers sid ops))))"
proof -
  let ?p = "send_agent uid now sid frm to content mb"
  have msg: "fst ?p = \<lparr>am_id = uid, am_from = frm, am_to = to, am_content = content, am_timestamp = now, am_read = False\<rparr>"
    by (simp add: send_agent_def Let_def)
  have "\<forall>s. with_id uid (session_messages (snd ?p) s) = (if s = sid then [fst ?p] else [])"
    using new(1) by (simp add: with_id_send msg)
  from unread_reaches_first [OF this _ new(2)] show ?thesis by (simp add: msg addressed_def split_beta)
qed

definition broadcast_ops :: "agent_op list" where
  "broadcast_ops = [AgentRead ''s'' ''a1'', AgentRead ''s'' ''a2'', AgentCleanup ''s'', AgentRead ''s'' ''a3'']"

theorem agent_message_reaches_first_reader_witness:
  "case send_agent ''m1'' 7 ''s'' ''a2'' ''*'' ''hello'' (\<lambda>_. None) of (msg, mb') \<Rightarrow>
     copies ''m1'' broadcast_ops mb' = [(''s'', ''a1'', msg\<lparr>am_read := True\<rparr>)]"
  using agent_message_reaches_first_reader [where uid = "''m1''" and mb = "\<lambda>_. None" and ops = broadcast_ops and now = 7
      and sid = "''s''" and frm = "''a2''" and to = "''*''" and content = "''hello''"]
  by (simp add: session_messages_def with_id_def unsent_def broadcast_ops_def)

text \<open>A broadcast reaches one agent only, and that one may be its sender.\<close>

lemma broadcast_reaches_one:
  "length (copies ''m1'' broadcast_ops (snd (send_agent ''m1'' 7 ''s'' ''a2'' ''*'' ''hello'' (\<lambda>_. None)))) = 1"
  "copies ''m1'' [AgentRead ''s'' ''a2'', AgentRead ''s'' ''a1'']
       (snd (send_agent ''m1'' 7 ''s'' ''a2'' ''*'' ''hello'' (\<lambda>_. None)))
     = [(''s'', ''a2'', \<lparr>am_id = ''m1'', am_from = ''a2'', am_to = ''*'', am_content = ''hello'', am_timestamp = 7, am_read = True\<rparr>)]"
  by (simp_all add: broadcast_ops_def copies_def read_unread_eq send_agent_def session_messages_def cleanup_def
      addressed_def Let_def)

text \<open>What a drain shows is what was pending, and afterwards nothing is.\<close>

lemma drain_pending:
  "(fst (drain_agent_mailbox sid rcpt mb) = []) = (pending_count sid rcpt mb = 0)"
  "pending_count sid rcpt (snd (drain_agent_mailbox sid rcpt mb)) = 0"
proof -
  have "pending_count sid rcpt mb = length (fst (read_unread sid rcpt mb))"
    by (simp add: pending_count_def read_unread_eq)
  moreover have "(fst (drain_agent_mailbox sid rcpt mb) = []) = (fst (read_unread sid rcpt mb) = [])"
    by (auto simp: drain_agent_mailbox_def split: prod.splits list.splits)
  ultimately show "(fst (drain_agent_mailbox sid rcpt mb) = []) = (pending_count sid rcpt mb = 0)" by simp
  have "snd (drain_agent_mailbox sid rcpt mb) = snd (read_unread sid rcpt mb)"
    by (auto simp: drain_agent_mailbox_def split: prod.splits list.splits)
  then show "pending_count sid rcpt (snd (drain_agent_mailbox sid rcpt mb)) = 0"
    by (auto simp: pending_count_def read_unread_eq session_messages_def filter_empty_conv addressed_def split: option.splits)
qed

end
