(* ===== verification/Metadata.thy ===== *)
theory Metadata
  imports GoStrings Complex_Main
begin

text \<open>
  The metadata of documents, \<^verbatim>\<open>src/internal/metadata/document.go\<close>: which values and field names a document may have, with the
  check that a number fits the numbers of the database. A JSON value is decoded with its numbers as text
  (\<^verbatim>\<open>json.Number\<close>); an object is the list of its members, whose names are distinct.
\<close>

datatype doc_json = DNull | DBool bool | DNum string | DStr string | DArr "doc_json list" | DObj "(string \<times> doc_json) list"

datatype metadata_error =
  TooLarge | NotOneObject string | NotAnObject | NestedEmpty | NestedField string metadata_error | Field string metadata_error
| ArrayNotStrings | BadValue | NulCharacter | NumberEmpty | NumberNoDigits | TwoExponents | ExponentEmpty | ExponentNotDigits
| NumberRange | TwoPoints | NotDecimal | FieldEmpty | SegmentDot | PathTooDeep

section \<open>Strings and numbers\<close>

definition validate_pg_string :: "string \<Rightarrow> metadata_error option" where
  "validate_pg_string s = (if CHR 0x00 \<in> set s then Some NulCharacter else None)"

definition is_decimal_digits :: "string \<Rightarrow> bool" where
  "is_decimal_digits s = list_all is_digit s"

definition trim_zeros :: "string \<Rightarrow> string" where
  "trim_zeros s = dropWhile (\<lambda>c. c = CHR ''0'') s"

definition parse_numeric_exponent :: "string \<Rightarrow> metadata_error + int" where
  "parse_numeric_exponent raw =
     (if raw = [] then Inl ExponentEmpty
      else let sign = (if hd raw = CHR ''-'' then -1 else 1);
               body = (if hd raw = CHR ''+'' \<or> hd raw = CHR ''-'' then tl raw else raw)
           in if body = [] \<or> \<not> is_decimal_digits body then Inl ExponentNotDigits
              else let digits = trim_zeros body in
                   if digits = [] then Inr 0
                   else if 6 < length digits then Inl NumberRange
                   else Inr (sign * int (digits_val digits)))"

definition is_exponent_mark :: "char \<Rightarrow> bool" where
  "is_exponent_mark c = (c = CHR ''e'' \<or> c = CHR ''E'')"

text \<open>The part of a number before the exponent, and the exponent.\<close>

definition split_exponent :: "string \<Rightarrow> metadata_error + (string \<times> int)" where
  "split_exponent raw =
     (let mantissa = takeWhile (\<lambda>c. \<not> is_exponent_mark c) raw; rest = dropWhile (\<lambda>c. \<not> is_exponent_mark c) raw in
      case rest of
        [] \<Rightarrow> Inr (raw, 0)
      | _ # e \<Rightarrow>
          if list_ex is_exponent_mark e then Inl TwoExponents
          else (case parse_numeric_exponent e of Inl err \<Rightarrow> Inl err | Inr x \<Rightarrow> Inr (mantissa, x)))"

text \<open>The digits before and after the decimal point.\<close>

definition split_point :: "string \<Rightarrow> metadata_error + (string \<times> string)" where
  "split_point raw =
     (let before = takeWhile (\<lambda>c. c \<noteq> CHR ''.'') raw; rest = dropWhile (\<lambda>c. c \<noteq> CHR ''.'') raw in
      case rest of
        [] \<Rightarrow> if raw = [] \<or> \<not> is_decimal_digits raw then Inl NotDecimal else Inr (raw, [])
      | _ # after \<Rightarrow>
          if CHR ''.'' \<in> set after then Inl TwoPoints
          else if before = [] \<or> \<not> is_decimal_digits before \<or> (after \<noteq> [] \<and> \<not> is_decimal_digits after) then Inl NotDecimal
          else Inr (before, after))"

definition max_integer_digits :: int where
  "max_integer_digits = 131072"

definition max_fractional_digits :: int where
  "max_fractional_digits = 16383"

definition digits_in_range :: "string \<Rightarrow> string \<Rightarrow> int \<Rightarrow> bool" where
  "digits_in_range ip fp e =
     (let digits = ip @ fp;
          leading = int (length digits) - int (length (trim_zeros digits));
          point = int (length ip) + e - leading;
          significant = int (length digits) - leading
      in leading = int (length digits)
         \<or> (if 0 < point then point else 0) \<le> max_integer_digits
           \<and> (if point < significant then significant - point else 0) \<le> max_fractional_digits)"

definition unsigned_part :: "string \<Rightarrow> string" where
  "unsigned_part raw = (if has_prefix raw ''-'' then tl raw else raw)"

definition number_parts :: "string \<Rightarrow> metadata_error + (string \<times> string \<times> int)" where
  "number_parts number =
     (if number = [] then Inl NumberEmpty
      else let raw = unsigned_part number in
           if raw = [] then Inl NumberNoDigits
           else case split_exponent raw of
                  Inl err \<Rightarrow> Inl err
                | Inr (mantissa, e) \<Rightarrow>
                    (case split_point mantissa of Inl err \<Rightarrow> Inl err | Inr (ip, fp) \<Rightarrow> Inr (ip, fp, e)))"

definition validate_pg_number :: "string \<Rightarrow> metadata_error option" where
  "validate_pg_number number =
     (case number_parts number of
        Inl err \<Rightarrow> Some err
      | Inr (ip, fp, e) \<Rightarrow> if digits_in_range ip fp e then None else Some NumberRange)"

section \<open>Values and fields\<close>

fun validate_strings :: "doc_json list \<Rightarrow> metadata_error option" where
  "validate_strings [] = None"
| "validate_strings (v # vs) =
     (case v of
        DStr s \<Rightarrow> (case validate_pg_string s of Some err \<Rightarrow> Some err | None \<Rightarrow> validate_strings vs)
      | _ \<Rightarrow> Some ArrayNotStrings)"

definition validate_value :: "doc_json \<Rightarrow> metadata_error option" where
  "validate_value v =
     (case v of
        DStr s \<Rightarrow> validate_pg_string s
      | DBool _ \<Rightarrow> None
      | DNum n \<Rightarrow> validate_pg_number n
      | DArr vs \<Rightarrow> validate_strings vs
      | _ \<Rightarrow> Some BadValue)"

definition validate_field_name :: "string \<Rightarrow> metadata_error option" where
  "validate_field_name field = (if trim_space field = [] then Some FieldEmpty else validate_pg_string field)"

definition validate_field_segment :: "string \<Rightarrow> metadata_error option" where
  "validate_field_segment field = (if CHR ''.'' \<in> set field then Some SegmentDot else validate_field_name field)"

fun validate_members :: "(string \<times> doc_json) list \<Rightarrow> metadata_error option" where
  "validate_members [] = None"
| "validate_members ((field, v) # ms) =
     (case validate_field_segment field of
        Some err \<Rightarrow> Some err
      | None \<Rightarrow> (case validate_value v of Some err \<Rightarrow> Some (NestedField field err) | None \<Rightarrow> validate_members ms))"

definition validate_document_value :: "doc_json \<Rightarrow> metadata_error option" where
  "validate_document_value v =
     (case v of DObj ms \<Rightarrow> if ms = [] then Some NestedEmpty else validate_members ms | _ \<Rightarrow> validate_value v)"

fun validate_fields :: "(string \<times> doc_json) list \<Rightarrow> metadata_error option" where
  "validate_fields [] = None"
| "validate_fields ((field, v) # ms) =
     (case validate_field_segment field of
        Some err \<Rightarrow> Some err
      | None \<Rightarrow> (case validate_document_value v of Some err \<Rightarrow> Some (Field field err) | None \<Rightarrow> validate_fields ms))"

definition max_document_bytes :: nat where
  "max_document_bytes = 16384"

text \<open>\<^verbatim>\<open>ParseDocument\<close>, up to its printing: the members of the document. The decoder gives an error text or the value.\<close>

definition parse_document :: "(string \<Rightarrow> string + doc_json) \<Rightarrow> string \<Rightarrow> metadata_error + (string \<times> doc_json) list" where
  "parse_document decode raw =
     (if max_document_bytes < length raw then Inl TooLarge
      else if trim_space raw = [] then Inr []
      else case decode raw of
             Inl err \<Rightarrow> Inl (NotOneObject err)
           | Inr (DObj ms) \<Rightarrow> (case validate_fields ms of Some err \<Rightarrow> Inl err | None \<Rightarrow> Inr ms)
           | Inr _ \<Rightarrow> Inl NotAnObject)"

fun first_error :: "(string \<Rightarrow> metadata_error option) \<Rightarrow> string list \<Rightarrow> metadata_error option" where
  "first_error f [] = None"
| "first_error f (s # ss) = (case f s of Some err \<Rightarrow> Some err | None \<Rightarrow> first_error f ss)"

definition parse_field_path :: "string \<Rightarrow> metadata_error + string list" where
  "parse_field_path field =
     (let parts = split_on (CHR ''.'') field in
      if 2 < length parts then Inl PathTooDeep
      else case first_error validate_field_segment parts of Some err \<Rightarrow> Inl err | None \<Rightarrow> Inr parts)"

fun is_scalar :: "doc_json \<Rightarrow> bool" where
  "is_scalar (DStr _) = True"
| "is_scalar (DBool _) = True"
| "is_scalar (DNum _) = True"
| "is_scalar _ = False"

section \<open>What is accepted\<close>

definition plain_text :: "string \<Rightarrow> bool" where
  "plain_text s \<longleftrightarrow> CHR 0x00 \<notin> set s"

definition good_segment :: "string \<Rightarrow> bool" where
  "good_segment s \<longleftrightarrow> plain_text s \<and> CHR ''.'' \<notin> set s \<and> trim_space s \<noteq> []"

lemma validate_pg_string_iff: "validate_pg_string s = None \<longleftrightarrow> plain_text s"
  by (simp add: validate_pg_string_def plain_text_def)

lemma validate_field_segment_iff: "validate_field_segment s = None \<longleftrightarrow> good_segment s"
  by (auto simp: validate_field_segment_def validate_field_name_def good_segment_def validate_pg_string_iff)

lemma first_error_iff: "first_error f ss = None \<longleftrightarrow> list_all (\<lambda>s. f s = None) ss"
  by (induction ss) (auto split: option.splits)

lemma parse_field_path_iff:
  "parse_field_path field = Inr path \<longleftrightarrow>
     join_with ''.'' path = field \<and> length path \<in> {1, 2} \<and> list_all good_segment path"
proof -
  have fwd: "join_with ''.'' path = field \<and> length path \<in> {1, 2} \<and> list_all good_segment path" if "parse_field_path field = Inr path"
  proof -
    have p: "path = split_on (CHR ''.'') field" "length path \<le> 2" "list_all good_segment path"
      using that by (auto simp: parse_field_path_def Let_def first_error_iff validate_field_segment_iff split: if_splits option.splits)
    have "0 < length path" using p(1) by simp
    then have "length path = 1 \<or> length path = 2" using p(2) by linarith
    with p show ?thesis by (simp add: join_split)
  qed
  have "parse_field_path field = Inr path"
    if "join_with ''.'' path = field" "length path \<in> {1, 2}" "list_all good_segment path"
  proof -
    from that(2) obtain a where "path = [a] \<or> (\<exists>b. path = [a, b])" by (cases path; cases "tl path"; cases "tl (tl path)") auto
    then have "split_on (CHR ''.'') field = path"
      using that(1,3) by (auto simp: good_segment_def split_on_single split_on_append)
    moreover have "first_error validate_field_segment path = None" using that(3) by (simp add: first_error_iff validate_field_segment_iff)
    ultimately show ?thesis using that(2) by (auto simp: parse_field_path_def)
  qed
  with fwd show ?thesis by blast
qed

text \<open>The value of a number's digits, without its sign.\<close>

definition parts_value :: "string \<Rightarrow> string \<Rightarrow> int \<Rightarrow> rat" where
  "parts_value ip fp e = of_nat (digits_val (ip @ fp)) * 10 powi (e - int (length fp))"

lemma digits_val_bound: "list_all is_digit s \<Longrightarrow> digits_val s < 10 ^ length s"
proof (induction s rule: rev_induct)
  case Nil
  show ?case by (simp add: digits_val_def)
next
  case (snoc c s)
  then have "digits_val s < 10 ^ length s" "digit_val c < 10" by (auto simp: digit_val_less)
  then have "10 * digits_val s + digit_val c < 10 * 10 ^ length s" by linarith
  then show ?case by (simp add: digits_val_snoc)
qed

lemma digits_val_trim: "digits_val (trim_zeros s) = digits_val s"
proof -
  have z: "foldl (\<lambda>n c. 10 * n + digit_val c) 0 (CHR ''0'' # t) = foldl (\<lambda>n c. 10 * n + digit_val c) 0 t" for t
    by (simp add: digit_val_def)
  show ?thesis
  proof (induction s)
    case (Cons c s)
    then show ?case using z [of s] by (auto simp: trim_zeros_def digits_val_def)
  qed (simp add: trim_zeros_def)
qed

lemma powi_nonneg_nat: "0 \<le> k \<Longrightarrow> (10::rat) powi k = 10 ^ nat k"
  by (simp add: power_int_def)

lemma range_fits:
  assumes "list_all is_digit ip" "list_all is_digit fp" and "digits_in_range ip fp e"
  shows "parts_value ip fp e < 10 powi max_integer_digits \<and> parts_value ip fp e * 10 powi max_fractional_digits \<in> \<int>"
proof (cases "trim_zeros (ip @ fp) = []")
  case True
  then have "digits_val (ip @ fp) = 0" using digits_val_trim [of "ip @ fp"] by (simp add: digits_val_def)
  then show ?thesis by (simp add: parts_value_def)
next
  case False
  define d where "d = trim_zeros (ip @ fp)"
  define k where "k = e - int (length fp)"
  have "set d \<subseteq> set (ip @ fp)" unfolding d_def trim_zeros_def using set_dropWhileD by fast
  then have "list_all is_digit d" using assms(1,2) by (auto simp: list_all_iff)
  then have less: "digits_val (ip @ fp) < 10 ^ length d" using digits_val_bound [of d] digits_val_trim [of "ip @ fp"] by (simp add: d_def)
  have len: "length d \<le> length (ip @ fp)" unfolding d_def trim_zeros_def by (rule length_dropWhile_le)
  have nonneg: "0 \<le> max_fractional_digits" by (simp add: max_fractional_digits_def)
  have "int (length d) \<noteq> 0" using False by (simp add: d_def)
  then have range: "(if 0 < int (length d) + k then int (length d) + k else 0) \<le> max_integer_digits"
    "(if k < 0 then - k else 0) \<le> max_fractional_digits"
    using assms(3) len by (auto simp: digits_in_range_def Let_def d_def [symmetric] k_def
        split: if_splits)
  have "parts_value ip fp e < of_nat (10 ^ length d) * 10 powi k"
    unfolding parts_value_def k_def [symmetric] using less
    by (intro mult_strict_right_mono) (auto simp del: of_nat_power intro: zero_less_power_int)
  also have "of_nat (10 ^ length d) * 10 powi k = (10::rat) powi (int (length d) + k)"
    by (simp add: power_int_add power_int_of_nat)
  also have "\<dots> \<le> 10 powi max_integer_digits" using range(1) by (intro power_int_increasing) (auto split: if_splits)
  finally have "parts_value ip fp e < 10 powi max_integer_digits" .
  moreover have "parts_value ip fp e * 10 powi max_fractional_digits = of_nat (digits_val (ip @ fp)) * 10 ^ nat (k + max_fractional_digits)"
  proof -
    have "0 \<le> k + max_fractional_digits" using range(2) nonneg by (auto split: if_splits)
    then have "(10::rat) ^ nat (k + max_fractional_digits) = 10 powi (k + max_fractional_digits)" by (simp add: powi_nonneg_nat)
    also have "\<dots> = 10 powi k * 10 powi max_fractional_digits" by (simp add: power_int_add)
    finally show ?thesis by (simp add: parts_value_def k_def)
  qed
  moreover have "of_nat (digits_val (ip @ fp)) * 10 ^ nat (k + max_fractional_digits) \<in> (\<int> :: rat set)" by simp
  ultimately show ?thesis by simp
qed

lemma number_parts_digits: "number_parts s = Inr (ip, fp, e) \<Longrightarrow> list_all is_digit ip \<and> list_all is_digit fp"
  by (auto simp: number_parts_def split_exponent_def split_point_def is_decimal_digits_def Let_def split: if_splits sum.splits list.splits prod.splits)

text \<open>
  A number that is accepted fits the numbers of PostgreSQL: its absolute value is below \<open>10 ^ 131072\<close> and it has at most 16383
  digits after the point.
\<close>

lemma accepted_number_fits:
  assumes "validate_pg_number s = None"
  shows "\<exists>ip fp e. number_parts s = Inr (ip, fp, e) \<and> parts_value ip fp e < 10 powi max_integer_digits
    \<and> parts_value ip fp e * 10 powi max_fractional_digits \<in> \<int>"
proof -
  obtain ip fp e where p: "number_parts s = Inr (ip, fp, e)" "digits_in_range ip fp e"
    using assms by (auto simp: validate_pg_number_def split: sum.splits if_splits prod.splits)
  with number_parts_digits [OF p(1)] range_fits show ?thesis by blast
qed

end
