(* ===== verification/MetadataFilter.thy ===== *)
theory MetadataFilter
  imports Metadata
begin

text \<open>
  The filter of a document search over metadata, \<^verbatim>\<open>src/internal/domain/knowledge/metadata_filter.go\<close>: the parser of its
  grammar, which counts predicates in a shared state, and the builder of a parameterized SQL predicate. \<open>text\<close> is the
  text of a JSON value, of which the code keeps the bytes.
\<close>

section \<open>Filters\<close>

datatype filter_op =
  OpEq | OpNeq | OpIn | OpNotIn | OpExists | OpNotExists | OpGt | OpGte | OpLt | OpLte | OpLike | OpILike
| OpContainsAny | OpContainsAll

definition filter_ops :: "(string \<times> filter_op) list" where
  "filter_ops =
     [(''eq'', OpEq), (''neq'', OpNeq), (''in'', OpIn), (''notIn'', OpNotIn), (''exists'', OpExists), (''notExists'', OpNotExists),
      (''gt'', OpGt), (''gte'', OpGte), (''lt'', OpLt), (''lte'', OpLte), (''like'', OpLike), (''ilike'', OpILike),
      (''containsAny'', OpContainsAny), (''containsAll'', OpContainsAll)]"

text \<open>One struct in the source; here one constructor for each set of fields that is filled together.\<close>

datatype metadata_filter =
  FAll "metadata_filter list" | FAny "metadata_filter list" | FNot metadata_filter
| FExists filter_op "string list"
| FValue filter_op "string list" string
| FValues filter_op "string list" "string list"
| FNumber filter_op "string list" string
| FPattern filter_op "string list" string
| FStrings filter_op "string list" "string list"

datatype filter_error =
  FilterTooLarge | FilterNotJson string | FilterNotObject | TooDeep | FilterEmpty | GroupNotAlone | InGroup string filter_error
| NotAnArray | NoChildren | TooManyChildren | ChildNotObject | PredicateShape | PredicateMissing | TooManyPredicates
| UnsupportedKey string | FieldNotString | FieldPath metadata_error | OpNotString | NoValueAllowed string | ValueMissing string
| InPredicate string filter_error | ValueError metadata_error | NestedObject | TooManyValues | NotScalar | NotNumber | NotString
| UnsupportedOp string

definition max_filter_bytes :: nat where "max_filter_bytes = 16384"
definition max_filter_depth :: nat where "max_filter_depth = 8"
definition max_filter_children :: nat where "max_filter_children = 32"
definition max_filter_predicates :: nat where "max_filter_predicates = 64"
definition max_filter_values :: nat where "max_filter_values = 64"

section \<open>Values of predicates\<close>

definition checked :: "metadata_error option \<Rightarrow> 'a \<Rightarrow> filter_error + 'a" where
  "checked err x = (case err of Some e \<Rightarrow> Inl (ValueError e) | None \<Rightarrow> Inr x)"

definition validate_metadata_value :: "doc_json \<Rightarrow> bool \<Rightarrow> filter_error + unit" where
  "validate_metadata_value v allow_object =
     (case v of
        DObj _ \<Rightarrow> if \<not> allow_object then Inl NestedObject else checked (validate_document_value v) ()
      | DArr vs \<Rightarrow> if max_filter_values < length vs then Inl TooManyValues else checked (validate_document_value v) ()
      | _ \<Rightarrow> checked (validate_document_value v) ())"

definition parse_number :: "doc_json \<Rightarrow> filter_error + string" where
  "parse_number v = (case v of DNum n \<Rightarrow> checked (validate_document_value v) n | _ \<Rightarrow> Inl NotNumber)"

definition parse_string :: "doc_json \<Rightarrow> filter_error + string" where
  "parse_string v = (case v of DStr s \<Rightarrow> checked (validate_document_value v) s | _ \<Rightarrow> Inl NotString)"

fun scalar_values :: "(doc_json \<Rightarrow> string) \<Rightarrow> doc_json list \<Rightarrow> filter_error + string list" where
  "scalar_values text [] = Inr []"
| "scalar_values text (v # vs) =
     (if \<not> is_scalar v then Inl NotScalar
      else case checked (validate_document_value v) (text v) of
             Inl e \<Rightarrow> Inl e
           | Inr t \<Rightarrow> (case scalar_values text vs of Inl e \<Rightarrow> Inl e | Inr ts \<Rightarrow> Inr (t # ts)))"

definition parse_scalar_values :: "(doc_json \<Rightarrow> string) \<Rightarrow> doc_json \<Rightarrow> filter_error + string list" where
  "parse_scalar_values text v =
     (case v of
        DArr vs \<Rightarrow> if max_filter_values < length vs then Inl TooManyValues else scalar_values text vs
      | _ \<Rightarrow> Inl NotAnArray)"

fun string_values :: "doc_json list \<Rightarrow> filter_error + string list" where
  "string_values [] = Inr []"
| "string_values (v # vs) =
     (case parse_string v of
        Inl e \<Rightarrow> Inl e
      | Inr s \<Rightarrow> (case string_values vs of Inl e \<Rightarrow> Inl e | Inr ss \<Rightarrow> Inr (s # ss)))"

definition parse_strings :: "doc_json \<Rightarrow> filter_error + string list" where
  "parse_strings v =
     (case v of
        DArr vs \<Rightarrow> if max_filter_values < length vs then Inl TooManyValues else string_values vs
      | _ \<Rightarrow> Inl NotAnArray)"

text \<open>A JSON null decodes into the zero value of a string.\<close>

definition decode_text :: "doc_json \<Rightarrow> string option" where
  "decode_text v = (case v of DStr s \<Rightarrow> Some s | DNull \<Rightarrow> Some [] | _ \<Rightarrow> None)"

section \<open>The parser\<close>

definition in_predicate :: "string \<Rightarrow> filter_error + 'a \<Rightarrow> ('a \<Rightarrow> metadata_filter) \<Rightarrow> filter_error + metadata_filter" where
  "in_predicate name r f = (case r of Inl e \<Rightarrow> Inl (InPredicate name e) | Inr x \<Rightarrow> Inr (f x))"

text \<open>The part of \<^verbatim>\<open>parseMetadataPredicate\<close> after the path and the name of the operator are known.\<close>

definition predicate_of :: "(doc_json \<Rightarrow> string) \<Rightarrow> string list \<Rightarrow> string \<Rightarrow> doc_json option \<Rightarrow> filter_error + metadata_filter" where
  "predicate_of text path name value =
     (let known = map_of filter_ops name in
      if known = Some OpExists \<or> known = Some OpNotExists
      then (if value \<noteq> None then Inl (NoValueAllowed name) else Inr (FExists (the known) path))
      else case value of
             None \<Rightarrow> Inl (ValueMissing name)
           | Some v \<Rightarrow>
               (case known of
                  None \<Rightarrow> Inl (UnsupportedOp name)
                | Some op \<Rightarrow>
                    if op \<in> {OpEq, OpNeq} then in_predicate name (validate_metadata_value v (length path = 1)) (\<lambda>_. FValue op path (text v))
                    else if op \<in> {OpIn, OpNotIn} then in_predicate name (parse_scalar_values text v) (FValues op path)
                    else if op \<in> {OpGt, OpGte, OpLt, OpLte} then in_predicate name (parse_number v) (FNumber op path)
                    else if op \<in> {OpLike, OpILike} then in_predicate name (parse_string v) (FPattern op path)
                    else in_predicate name (parse_strings v) (FStrings op path)))"

definition parse_predicate ::
  "(doc_json \<Rightarrow> string) \<Rightarrow> (string \<times> doc_json) list \<Rightarrow> nat \<Rightarrow> filter_error + (metadata_filter \<times> nat)" where
  "parse_predicate text obj n =
     (if length obj < 2 \<or> 3 < length obj then Inl PredicateShape
      else case (map_of obj ''field'', map_of obj ''op'') of
             (Some raw_field, Some raw_op) \<Rightarrow>
               if max_filter_predicates < n + 1 then Inl TooManyPredicates
               else (case find (\<lambda>(k, _). k \<notin> {''field'', ''op'', ''value''}) obj of
                       Some (k, _) \<Rightarrow> Inl (UnsupportedKey k)
                     | None \<Rightarrow>
                         (case decode_text raw_field of
                            None \<Rightarrow> Inl FieldNotString
                          | Some field \<Rightarrow>
                              (case parse_field_path field of
                                 Inl e \<Rightarrow> Inl (FieldPath e)
                               | Inr path \<Rightarrow>
                                   (case decode_text raw_op of
                                      None \<Rightarrow> Inl OpNotString
                                    | Some name \<Rightarrow>
                                        (case predicate_of text path name (map_of obj ''value'') of
                                           Inl e \<Rightarrow> Inl e
                                         | Inr f \<Rightarrow> Inr (f, n + 1))))))
           | _ \<Rightarrow> Inl PredicateMissing)"

definition checked_children :: "doc_json \<Rightarrow> filter_error + doc_json list" where
  "checked_children raw =
     (case raw of
        DArr cs \<Rightarrow> if cs = [] then Inl NoChildren else if max_filter_children < length cs then Inl TooManyChildren else Inr cs
      | _ \<Rightarrow> Inl NotAnArray)"

lemma member_smaller: "map_of obj k = Some v \<Longrightarrow> size v < Suc (size_list (\<lambda>p. Suc (size (snd p))) obj)"
  by (induction obj) (auto split: if_splits)

lemma size_pair: "size_prod (\<lambda>_. 0) size = (\<lambda>p. Suc (size (snd p)))"
proof
  fix p :: "'a \<times> 'b"
  show "size_prod (\<lambda>_. 0) size p = Suc (size (snd p))" by (cases p) simp
qed

text \<open>\<open>n\<close> is the number of predicates so far.\<close>

function parse_expression ::
    "(doc_json \<Rightarrow> string) \<Rightarrow> (string \<times> doc_json) list \<Rightarrow> nat \<Rightarrow> nat \<Rightarrow> filter_error + (metadata_filter \<times> nat)"
  and parse_children ::
    "(doc_json \<Rightarrow> string) \<Rightarrow> doc_json list \<Rightarrow> nat \<Rightarrow> nat \<Rightarrow> filter_error + (metadata_filter list \<times> nat)" where
  "parse_expression text obj depth n =
     (if max_filter_depth < depth then Inl TooDeep
      else if obj = [] then Inl FilterEmpty
      else case map_of obj ''all'' of
             Some raw \<Rightarrow>
               if length obj \<noteq> 1 then Inl GroupNotAlone
               else (case checked_children raw of
                       Inl e \<Rightarrow> Inl (InGroup ''all'' e)
                     | Inr cs \<Rightarrow>
                         (case parse_children text cs depth n of
                            Inl e \<Rightarrow> Inl (InGroup ''all'' e)
                          | Inr (fs, n') \<Rightarrow> Inr (FAll fs, n')))
           | None \<Rightarrow>
      (case map_of obj ''any'' of
             Some raw \<Rightarrow>
               if length obj \<noteq> 1 then Inl GroupNotAlone
               else (case checked_children raw of
                       Inl e \<Rightarrow> Inl (InGroup ''any'' e)
                     | Inr cs \<Rightarrow>
                         (case parse_children text cs depth n of
                            Inl e \<Rightarrow> Inl (InGroup ''any'' e)
                          | Inr (fs, n') \<Rightarrow> Inr (FAny fs, n')))
           | None \<Rightarrow>
      (case map_of obj ''not'' of
             Some raw \<Rightarrow>
               if length obj \<noteq> 1 then Inl GroupNotAlone
               else (case raw of
                       DObj child \<Rightarrow>
                         (case parse_expression text child (depth + 1) n of
                            Inl e \<Rightarrow> Inl (InGroup ''not'' e)
                          | Inr (f, n') \<Rightarrow> Inr (FNot f, n'))
                     | _ \<Rightarrow> Inl (InGroup ''not'' FilterNotObject))
           | None \<Rightarrow> parse_predicate text obj n)))"
| "parse_children text [] depth n = Inr ([], n)"
| "parse_children text (c # cs) depth n =
     (case c of
        DObj obj \<Rightarrow>
          (case parse_expression text obj (depth + 1) n of
             Inl e \<Rightarrow> Inl e
           | Inr (f, n1) \<Rightarrow>
               (case parse_children text cs depth n1 of Inl e \<Rightarrow> Inl e | Inr (fs, n2) \<Rightarrow> Inr (f # fs, n2)))
      | _ \<Rightarrow> Inl ChildNotObject)"
  by pat_completeness auto
termination
  by (relation "measure (\<lambda>p. case p of
        Inl (_, obj, _, _) \<Rightarrow> size_list (\<lambda>p. Suc (size (snd p))) obj
      | Inr (_, cs, _, _) \<Rightarrow> size_list size cs)")
    (auto simp: checked_children_def size_pair dest!: member_smaller split: doc_json.splits if_splits)

declare parse_expression.simps [simp del]

text \<open>No filter for an empty text.\<close>

definition parse_metadata_filter ::
  "(doc_json \<Rightarrow> string) \<Rightarrow> (string \<Rightarrow> string + doc_json) \<Rightarrow> string \<Rightarrow> filter_error + metadata_filter option" where
  "parse_metadata_filter text decode raw =
     (if raw = [] then Inr None
      else if max_filter_bytes < length raw then Inl FilterTooLarge
      else case decode raw of
             Inl e \<Rightarrow> Inl (FilterNotJson e)
           | Inr (DObj obj) \<Rightarrow> (case parse_expression text obj 1 0 of Inl e \<Rightarrow> Inl e | Inr (f, _) \<Rightarrow> Inr (Some f))
           | Inr _ \<Rightarrow> Inl FilterNotObject)"

section \<open>The SQL predicate\<close>

datatype sql_arg = ArgPath "string list" | ArgText string | ArgTexts "string list"

text \<open>The builder has the number of the last placeholder and the arguments.\<close>

type_synonym sql_builder = "nat \<times> sql_arg list"

definition placeholder :: "nat \<Rightarrow> string" where
  "placeholder n = CHR ''$'' # itoa (int n)"

definition sql_parameter :: "sql_arg \<Rightarrow> sql_builder \<Rightarrow> string \<times> sql_builder" where
  "sql_parameter v b = (case b of (next_no, args) \<Rightarrow> (placeholder (next_no + 1), next_no + 1, args @ [v]))"

fun sql_values :: "string list \<Rightarrow> sql_builder \<Rightarrow> string list \<times> sql_builder" where
  "sql_values [] b = ([], b)"
| "sql_values (v # vs) b =
     (case sql_parameter (ArgText v) b of
        (p, b1) \<Rightarrow> (case sql_values vs b1 of (ps, b2) \<Rightarrow> ((p @ ''::jsonb'') # ps, b2)))"

definition quoted_word :: "string \<Rightarrow> string" where
  "quoted_word w = CHR 0x27 # w @ [CHR 0x27]"

definition order_sign :: "filter_op \<Rightarrow> string" where
  "order_sign op = (if op = OpGt then ''>'' else if op = OpGte then ''>='' else if op = OpLt then ''<'' else ''<='')"

fun sql_expression :: "metadata_filter \<Rightarrow> sql_builder \<Rightarrow> string \<times> sql_builder"
  and sql_parts :: "metadata_filter list \<Rightarrow> sql_builder \<Rightarrow> string list \<times> sql_builder" where
  "sql_expression (FAll fs) b = (case sql_parts fs b of (ps, b1) \<Rightarrow> (''('' @ join_with '' AND '' ps @ '')'', b1))"
| "sql_expression (FAny fs) b = (case sql_parts fs b of (ps, b1) \<Rightarrow> (''('' @ join_with '' OR '' ps @ '')'', b1))"
| "sql_expression (FNot f) b = (case sql_expression f b of (p, b1) \<Rightarrow> (''(NOT '' @ p @ '')'', b1))"
| "sql_expression (FExists op path) b =
     (case sql_parameter (ArgPath path) b of
        (p, b1) \<Rightarrow> (''((d.metadata #> '' @ p @ ''::text[]) '' @ (if op = OpExists then ''IS NOT NULL)'' else ''IS NULL)''), b1))"
| "sql_expression (FValue op path v) b =
     (case sql_parameter (ArgPath path) b of
        (p, b1) \<Rightarrow> (case sql_parameter (ArgText v) b1 of
        (q, b2) \<Rightarrow> (''((d.metadata #> '' @ p @ ''::text[]) '' @ (if op = OpNeq then ''<>'' else ''='') @ '' '' @ q @ ''::jsonb)'', b2)))"
| "sql_expression (FValues op path vs) b =
     (if vs = [] then (if op = OpNotIn then ''(TRUE)'' else ''(FALSE)'', b)
      else case sql_parameter (ArgPath path) b of
        (p, b1) \<Rightarrow> (case sql_values vs b1 of
        (qs, b2) \<Rightarrow> (''((d.metadata #> '' @ p @ ''::text[]) '' @ (if op = OpNotIn then ''NOT IN'' else ''IN'') @ '' (''
                    @ join_with '', '' qs @ ''))'', b2)))"
| "sql_expression (FNumber op path v) b =
     (case sql_parameter (ArgPath path) b of
        (p, b1) \<Rightarrow> (case sql_parameter (ArgText v) b1 of
        (q, b2) \<Rightarrow> (''((jsonb_typeof(d.metadata #> '' @ p @ ''::text[]) = '' @ quoted_word ''number'' @ '') AND ((d.metadata #>> ''
                    @ p @ ''::text[])::numeric '' @ order_sign op @ '' '' @ q @ ''::numeric))'', b2)))"
| "sql_expression (FPattern op path v) b =
     (case sql_parameter (ArgPath path) b of
        (p, b1) \<Rightarrow> (case sql_parameter (ArgText v) b1 of
        (q, b2) \<Rightarrow> (''((jsonb_typeof(d.metadata #> '' @ p @ ''::text[]) = '' @ quoted_word ''string'' @ '') AND ((d.metadata #>> ''
                    @ p @ ''::text[]) '' @ (if op = OpILike then ''ILIKE'' else ''LIKE'') @ '' '' @ q @ ''))'', b2)))"
| "sql_expression (FStrings op path ss) b =
     (if ss = [] then (if op = OpContainsAny then ''(FALSE)'' else ''(TRUE)'', b)
      else case sql_parameter (ArgPath path) b of
        (p, b1) \<Rightarrow> (case sql_parameter (ArgTexts ss) b1 of
        (q, b2) \<Rightarrow> (''((d.metadata #> '' @ p @ ''::text[]) '' @ (if op = OpContainsAny then ''?|'' else ''?&'') @ '' '' @ q
                    @ ''::text[])'', b2)))"
| "sql_parts [] b = ([], b)"
| "sql_parts (f # fs) b = (case sql_expression f b of (p, b1) \<Rightarrow> (case sql_parts fs b1 of (ps, b2) \<Rightarrow> (p # ps, b2)))"

definition metadata_sql :: "metadata_filter option \<Rightarrow> nat \<Rightarrow> string \<times> sql_arg list" where
  "metadata_sql f start =
     (case f of None \<Rightarrow> ([], []) | Some g \<Rightarrow> (case sql_expression g (start, []) of (t, _, args) \<Rightarrow> (t, args)))"

section \<open>What the parser accepts\<close>

definition path_ok :: "string list \<Rightarrow> bool" where
  "path_ok path \<longleftrightarrow> length path \<in> {1, 2} \<and> list_all good_segment path"

fun filter_ok :: "metadata_filter \<Rightarrow> bool" where
  "filter_ok (FAll fs) = (fs \<noteq> [] \<and> length fs \<le> max_filter_children \<and> list_all filter_ok fs)"
| "filter_ok (FAny fs) = (fs \<noteq> [] \<and> length fs \<le> max_filter_children \<and> list_all filter_ok fs)"
| "filter_ok (FNot f) = filter_ok f"
| "filter_ok (FExists op path) = (op \<in> {OpExists, OpNotExists} \<and> path_ok path)"
| "filter_ok (FValue op path v) = (op \<in> {OpEq, OpNeq} \<and> path_ok path)"
| "filter_ok (FValues op path vs) = (op \<in> {OpIn, OpNotIn} \<and> path_ok path \<and> length vs \<le> max_filter_values)"
| "filter_ok (FNumber op path v) = (op \<in> {OpGt, OpGte, OpLt, OpLte} \<and> path_ok path \<and> validate_pg_number v = None)"
| "filter_ok (FPattern op path v) = (op \<in> {OpLike, OpILike} \<and> path_ok path \<and> plain_text v)"
| "filter_ok (FStrings op path ss) =
     (op \<in> {OpContainsAny, OpContainsAll} \<and> path_ok path \<and> length ss \<le> max_filter_values \<and> list_all plain_text ss)"

fun predicates :: "metadata_filter \<Rightarrow> nat" where
  "predicates (FAll fs) = sum_list (map predicates fs)"
| "predicates (FAny fs) = sum_list (map predicates fs)"
| "predicates (FNot f) = predicates f"
| "predicates _ = 1"

fun levels :: "metadata_filter \<Rightarrow> nat" where
  "levels (FAll fs) = Suc (foldr max (map levels fs) 0)"
| "levels (FAny fs) = Suc (foldr max (map levels fs) 0)"
| "levels (FNot f) = Suc (levels f)"
| "levels _ = 1"

lemma checked_Inr [simp]: "checked err x = Inr y \<longleftrightarrow> err = None \<and> x = y"
  by (auto simp: checked_def split: option.splits)

lemma in_predicate_Inr [simp]: "in_predicate name r g = Inr f \<longleftrightarrow> (\<exists>x. r = Inr x \<and> f = g x)"
  by (auto simp: in_predicate_def split: sum.splits)

lemma parse_number_ok: "parse_number v = Inr n \<Longrightarrow> validate_pg_number n = None"
  by (auto simp: parse_number_def validate_document_value_def validate_value_def split: doc_json.splits)

lemma parse_string_ok: "parse_string v = Inr s \<Longrightarrow> plain_text s"
  by (auto simp: parse_string_def validate_document_value_def validate_value_def validate_pg_string_iff split: doc_json.splits)

lemma string_values_ok: "string_values vs = Inr ss \<Longrightarrow> length ss = length vs \<and> list_all plain_text ss"
  by (induction vs arbitrary: ss) (auto split: sum.splits dest: parse_string_ok)

lemma scalar_values_length: "scalar_values text vs = Inr ss \<Longrightarrow> length ss = length vs"
  by (induction vs arbitrary: ss) (auto split: sum.splits if_splits)

lemma parse_strings_ok: "parse_strings v = Inr ss \<Longrightarrow> length ss \<le> max_filter_values \<and> list_all plain_text ss"
  by (auto simp: parse_strings_def split: doc_json.splits if_splits dest!: string_values_ok)

lemma parse_scalar_values_ok: "parse_scalar_values text v = Inr ss \<Longrightarrow> length ss \<le> max_filter_values"
  by (auto simp: parse_scalar_values_def split: doc_json.splits if_splits dest!: scalar_values_length)

lemma predicate_of_ok:
  assumes "predicate_of text path name value = Inr f" and "path_ok path"
  shows "filter_ok f \<and> predicates f = 1 \<and> levels f = 1"
proof (cases "map_of filter_ops name")
  case None
  with assms show ?thesis by (auto simp: predicate_of_def split: option.splits)
next
  case (Some op)
  with assms show ?thesis
    by (cases op; cases "value")
      (auto simp: predicate_of_def dest: parse_number_ok parse_string_ok parse_strings_ok parse_scalar_values_ok)
qed

lemma parse_predicate_ok:
  assumes "parse_predicate text obj n = Inr (f, n')"
  shows "filter_ok f \<and> predicates f = 1 \<and> levels f = 1 \<and> n' = n + 1 \<and> n' \<le> max_filter_predicates"
proof -
  obtain path name where path: "path_ok path" and f: "predicate_of text path name (map_of obj ''value'') = Inr f"
    and n: "n' = n + 1" "n' \<le> max_filter_predicates"
    using assms by (auto simp: parse_predicate_def path_ok_def parse_field_path_iff split: if_splits option.splits sum.splits)
  with predicate_of_ok [OF f path] show ?thesis by simp
qed

lemma levels_children: "depth \<le> m \<Longrightarrow> \<forall>f\<in>set fs. depth + levels f \<le> m \<Longrightarrow> depth + foldr max (map levels fs) 0 \<le> m"
  by (induction fs) (auto simp: max_def)

lemma parse_accepts:
  "parse_expression text obj depth n = Inr (f, n') \<Longrightarrow>
     filter_ok f \<and> n' = n + predicates f \<and> n' \<le> max_filter_predicates \<and> depth + levels f \<le> Suc max_filter_depth"
  "parse_children text cs depth n = Inr (fs, n') \<Longrightarrow>
     length fs = length cs \<and> list_all filter_ok fs \<and> n' = n + sum_list (map predicates fs)
     \<and> (cs \<noteq> [] \<longrightarrow> n' \<le> max_filter_predicates) \<and> (\<forall>f\<in>set fs. Suc depth + levels f \<le> Suc max_filter_depth)"
proof (induction "text" obj depth n and "text" cs depth n arbitrary: f n' and fs n' rule: parse_expression_parse_children.induct)
  case (1 "text" obj depth n)
  note parse = 1(4) and IH = 1(1) 1(2) 1(3)
  have shallow: "depth \<le> max_filter_depth" and ne: "obj \<noteq> []"
    using parse by (auto simp: parse_expression.simps split: if_splits)
  consider raw where "map_of obj ''all'' = Some raw"
    | raw where "map_of obj ''all'' = None" "map_of obj ''any'' = Some raw"
    | raw where "map_of obj ''all'' = None" "map_of obj ''any'' = None" "map_of obj ''not'' = Some raw"
    | "map_of obj ''all'' = None" "map_of obj ''any'' = None" "map_of obj ''not'' = None" by fastforce
  then show ?case
  proof cases
    case (1 raw)
    then obtain cs fs where cs: "checked_children raw = Inr cs" "parse_children text cs depth n = Inr (fs, n')" "f = FAll fs" "length obj = 1"
      using parse shallow ne by (auto simp: parse_expression.simps split: if_splits sum.splits)
    then have lim: "cs \<noteq> []" "length cs \<le> max_filter_children" by (auto simp: checked_children_def split: doc_json.splits if_splits)
    have "length fs = length cs \<and> list_all filter_ok fs \<and> n' = n + sum_list (map predicates fs)
        \<and> (cs \<noteq> [] \<longrightarrow> n' \<le> max_filter_predicates) \<and> (\<forall>f\<in>set fs. depth + levels f \<le> max_filter_depth)"
      using IH shallow ne 1 cs by simp
    moreover from this have "depth + foldr max (map levels fs) 0 \<le> max_filter_depth" using shallow by (intro levels_children) auto
    moreover have "fs \<noteq> []" using calculation(1) lim by auto
    ultimately show ?thesis using cs lim by simp
  next
    case (2 raw)
    then obtain cs fs where cs: "checked_children raw = Inr cs" "parse_children text cs depth n = Inr (fs, n')" "f = FAny fs" "length obj = 1"
      using parse shallow ne by (auto simp: parse_expression.simps split: if_splits sum.splits)
    then have lim: "cs \<noteq> []" "length cs \<le> max_filter_children" by (auto simp: checked_children_def split: doc_json.splits if_splits)
    have "length fs = length cs \<and> list_all filter_ok fs \<and> n' = n + sum_list (map predicates fs)
        \<and> (cs \<noteq> [] \<longrightarrow> n' \<le> max_filter_predicates) \<and> (\<forall>f\<in>set fs. depth + levels f \<le> max_filter_depth)"
      using IH shallow ne 2 cs by simp
    moreover from this have "depth + foldr max (map levels fs) 0 \<le> max_filter_depth" using shallow by (intro levels_children) auto
    moreover have "fs \<noteq> []" using calculation(1) lim by auto
    ultimately show ?thesis using cs lim by simp
  next
    case (3 raw)
    then obtain child g where g: "raw = DObj child" "parse_expression text child (depth + 1) n = Inr (g, n')" "f = FNot g" "length obj = 1"
      using parse shallow ne by (auto simp: parse_expression.simps split: if_splits sum.splits doc_json.splits)
    show ?thesis using IH shallow ne 3 g by auto
  next
    case 4
    then have "parse_predicate text obj n = Inr (f, n')" using parse shallow ne by (simp add: parse_expression.simps)
    from parse_predicate_ok [OF this] shallow show ?thesis by simp
  qed
next
  case (2 "text" depth n)
  then show ?case by simp
next
  case (3 "text" c cs depth n)
  from 3(3) obtain obj f1 n1 fs1 where c: "c = DObj obj" "parse_expression text obj (depth + 1) n = Inr (f1, n1)"
    "parse_children text cs depth n1 = Inr (fs1, n')" "fs = f1 # fs1" by (auto split: doc_json.splits sum.splits)
  have "parse_children text [] depth n1 = Inr ([], n1)" by simp
  with c have "cs = [] \<Longrightarrow> n' = n1" by simp
  with 3(1) [OF c(1,2)] 3(2) [OF c(1,2) refl c(3)] c show ?case by (cases "cs = []") auto
qed

section \<open>The text and the arguments\<close>

text \<open>The arguments of a filter, in their order.\<close>

fun arg_list :: "metadata_filter \<Rightarrow> sql_arg list" where
  "arg_list (FAll fs) = concat (map arg_list fs)"
| "arg_list (FAny fs) = concat (map arg_list fs)"
| "arg_list (FNot f) = arg_list f"
| "arg_list (FExists op path) = [ArgPath path]"
| "arg_list (FValue op path v) = [ArgPath path, ArgText v]"
| "arg_list (FValues op path vs) = (if vs = [] then [] else ArgPath path # map ArgText vs)"
| "arg_list (FNumber op path v) = [ArgPath path, ArgText v]"
| "arg_list (FPattern op path v) = [ArgPath path, ArgText v]"
| "arg_list (FStrings op path ss) = (if ss = [] then [] else [ArgPath path, ArgTexts ss])"

text \<open>The filter without anything the caller wrote but the operators and the numbers of values.\<close>

fun erase :: "metadata_filter \<Rightarrow> metadata_filter" where
  "erase (FAll fs) = FAll (map erase fs)"
| "erase (FAny fs) = FAny (map erase fs)"
| "erase (FNot f) = FNot (erase f)"
| "erase (FExists op path) = FExists op []"
| "erase (FValue op path v) = FValue op [] []"
| "erase (FValues op path vs) = FValues op [] (map (\<lambda>_. []) vs)"
| "erase (FNumber op path v) = FNumber op [] []"
| "erase (FPattern op path v) = FPattern op [] []"
| "erase (FStrings op path ss) = FStrings op [] (if ss = [] then [] else [[]])"

lemma sql_values_args: "snd (sql_values vs b) = (fst b + length vs, snd b @ map ArgText vs)"
  by (induction vs arbitrary: b) (simp_all add: sql_parameter_def case_prod_unfold)

lemma sql_args:
  "snd (sql_expression f b) = (fst b + length (arg_list f), snd b @ arg_list f)"
  "snd (sql_parts fs b) = (fst b + length (concat (map arg_list fs)), snd b @ concat (map arg_list fs))"
proof (induction f b and fs b rule: sql_expression_sql_parts.induct)
  case (11 f fs b)
  let ?b1 = "snd (sql_expression f b)"
  have "snd (sql_parts fs ?b1) = (fst ?b1 + length (concat (map arg_list fs)), snd ?b1 @ concat (map arg_list fs))"
    by (rule 11(2) [of "fst (sql_expression f b)"]) simp
  with 11(1) show ?case by (simp add: case_prod_unfold)
qed (simp_all add: sql_parameter_def sql_values_args case_prod_unfold)

lemma sql_values_text: "fst b = fst b' \<Longrightarrow> fst (sql_values vs b) = fst (sql_values (map (\<lambda>_. []) vs) b')"
proof (induction vs arbitrary: b b')
  case (Cons v vs)
  from Cons.prems Cons.IH [of "(fst b + 1, snd b @ [ArgText v])" "(fst b' + 1, snd b' @ [ArgText []])"] show ?case
    by (simp add: sql_parameter_def case_prod_unfold)
qed simp

lemma erase_args: "length (arg_list (erase f)) = length (arg_list f)"
proof (induction f rule: arg_list.induct)
  case (1 fs)
  then show ?case by (simp add: length_concat o_def cong: map_cong)
next
  case (2 fs)
  then show ?case by (simp add: length_concat o_def cong: map_cong)
qed simp_all

lemma erase_text:
  "fst b' = fst b \<Longrightarrow> fst (sql_expression (erase f) b') = fst (sql_expression f b)"
  "fst b' = fst b \<Longrightarrow> fst (sql_parts (map erase fs) b') = fst (sql_parts fs b)"
proof (induction f b and fs b arbitrary: b' and b' rule: sql_expression_sql_parts.induct)
  case (6 op path vs b)
  have "fst (sql_values vs (fst b + 1, snd b @ [ArgPath path])) = fst (sql_values (map (\<lambda>_. []) vs) (fst b' + 1, snd b' @ [ArgPath []]))"
    using 6 by (intro sql_values_text) simp
  then show ?case using 6 by (simp add: sql_parameter_def case_prod_unfold)
next
  case (11 f fs b)
  have "fst (snd (sql_expression (erase f) b')) = fst (snd (sql_expression f b))"
    using 11(3) by (simp add: sql_args erase_args)
  then have "fst (sql_parts (map erase fs) (snd (sql_expression (erase f) b'))) = fst (sql_parts fs (snd (sql_expression f b)))"
    by (intro 11(2) [of "fst (sql_expression f b)"]) simp_all
  then show ?case using 11(1) [OF 11(3)] by (simp add: case_prod_unfold)
qed (simp_all add: sql_parameter_def case_prod_unfold)

text \<open>A text is made of pieces without a dollar sign and of references to arguments, whose numbers are a set.\<close>

datatype sql_piece = SqlText string | SqlRef nat

fun piece_text :: "sql_piece \<Rightarrow> string" where
  "piece_text (SqlText s) = s"
| "piece_text (SqlRef n) = placeholder n"

fun piece_refs :: "sql_piece \<Rightarrow> nat set" where
  "piece_refs (SqlText s) = {}"
| "piece_refs (SqlRef n) = {n}"

fun piece_clean :: "sql_piece \<Rightarrow> bool" where
  "piece_clean (SqlText s) = (CHR ''$'' \<notin> set s)"
| "piece_clean (SqlRef n) = True"

definition refers :: "string \<Rightarrow> nat set \<Rightarrow> bool" where
  "refers t R \<longleftrightarrow> (\<exists>ps. t = concat (map piece_text ps) \<and> list_all piece_clean ps \<and> R = (\<Union>p\<in>set ps. piece_refs p))"

lemma refers_text: "CHR ''$'' \<notin> set s \<Longrightarrow> refers s {}"
  unfolding refers_def by (rule exI [of _ "[SqlText s]"]) simp

lemma refers_ref: "refers (placeholder n) {n}"
  unfolding refers_def by (rule exI [of _ "[SqlRef n]"]) simp

lemma refers_append:
  assumes "refers a A" and "refers b B"
  shows "refers (a @ b) (A \<union> B)"
proof -
  obtain ps qs where "a = concat (map piece_text ps)" "list_all piece_clean ps" "A = (\<Union>p\<in>set ps. piece_refs p)"
    "b = concat (map piece_text qs)" "list_all piece_clean qs" "B = (\<Union>p\<in>set qs. piece_refs p)"
    using assms unfolding refers_def by metis
  then show ?thesis unfolding refers_def by (intro exI [of _ "ps @ qs"]) simp
qed

lemma refers_wrap: "CHR ''$'' \<notin> set s \<Longrightarrow> refers t R \<Longrightarrow> refers (s @ t) R" "CHR ''$'' \<notin> set s \<Longrightarrow> refers t R \<Longrightarrow> refers (t @ s) R"
  using refers_append [OF refers_text] refers_append [OF _ refers_text] by fastforce+

text \<open>A list of texts that refers to an interval, whatever separates them.\<close>

fun refers_all :: "string list \<Rightarrow> nat set list \<Rightarrow> bool" where
  "refers_all [] [] = True"
| "refers_all (t # ts) (R # Rs) = (refers t R \<and> refers_all ts Rs)"
| "refers_all _ _ = False"

lemma refers_join: "CHR ''$'' \<notin> set sep \<Longrightarrow> refers_all ts Rs \<Longrightarrow> refers (join_with sep ts) (\<Union> (set Rs))"
proof (induction ts Rs rule: refers_all.induct)
  case 1
  show ?case using refers_text [of "[]"] by simp
next
  case (2 t ts R Rs)
  show ?case
  proof (cases "ts = []")
    case True
    with 2 show ?thesis by (cases Rs) auto
  next
    case False
    have "refers (sep @ join_with sep ts) (\<Union> (set Rs))" using 2 by (intro refers_wrap) auto
    with 2 False show ?thesis by (auto simp: join_with_Cons intro: refers_append)
  qed
qed auto

lemma sql_values_refers: "\<exists>Rs. refers_all (fst (sql_values vs b)) Rs \<and> \<Union> (set Rs) = {fst b <.. fst b + length vs}"
proof (induction vs arbitrary: b)
  case Nil
  show ?case by (rule exI [of _ "[]"]) simp
next
  case (Cons v vs)
  obtain Rs where "refers_all (fst (sql_values vs (fst b + 1, snd b @ [ArgText v]))) Rs" "\<Union> (set Rs) = {Suc (fst b) <.. Suc (fst b) + length vs}"
    using Cons.IH [of "(fst b + 1, snd b @ [ArgText v])"] by auto
  moreover have "refers (placeholder (Suc (fst b)) @ ''::jsonb'') {Suc (fst b)}" by (rule refers_wrap(2)) (simp_all add: refers_ref)
  moreover have "insert (Suc (fst b)) {Suc (fst b) <.. Suc (fst b) + length vs} = {fst b <.. fst b + length (v # vs)}" by auto
  ultimately show ?case by (intro exI [of _ "{Suc (fst b)} # Rs"]) (simp add: sql_parameter_def case_prod_unfold)
qed

lemma refers_one: "CHR ''$'' \<notin> set s \<Longrightarrow> CHR ''$'' \<notin> set t \<Longrightarrow> refers (s @ placeholder n @ t) {n}"
  by (intro refers_wrap refers_ref)

lemma refers_two:
  assumes "CHR ''$'' \<notin> set s" "CHR ''$'' \<notin> set t" "CHR ''$'' \<notin> set u"
  shows "refers (s @ placeholder n @ t @ placeholder m @ u) {n, m}"
  using refers_append [OF refers_one [OF assms(1,2)] refers_one [of "[]", OF _ assms(3)], of n m] by (simp add: insert_commute)

lemma refers_three:
  assumes "CHR ''$'' \<notin> set s" "CHR ''$'' \<notin> set t" "CHR ''$'' \<notin> set u" "CHR ''$'' \<notin> set v"
  shows "refers (s @ placeholder n @ t @ placeholder n @ u @ placeholder m @ v) {n, m}"
  using refers_append [OF refers_one [OF assms(1,2)] refers_two [of "[]", OF _ assms(3,4)], of n n m]
  by (simp add: insert_commute [of n m])

lemma refers_join_set: "CHR ''$'' \<notin> set sep \<Longrightarrow> refers_all ts Rs \<Longrightarrow> \<Union> (set Rs) = R \<Longrightarrow> refers (join_with sep ts) R"
  using refers_join by blast

lemma interval_two: "{n <.. n + 2} = {Suc n, Suc (Suc n)}" "{n <.. Suc (Suc n)} = {Suc n, Suc (Suc n)}" for n :: nat
  by auto

lemma interval_one: "{n <.. Suc n} = {Suc n}" for n :: nat
  by auto

lemma sql_refers:
  "refers (fst (sql_expression f b)) {fst b <.. fst b + length (arg_list f)}"
  "\<exists>Rs. refers_all (fst (sql_parts fs b)) Rs \<and> \<Union> (set Rs) = {fst b <.. fst b + length (concat (map arg_list fs))}"
proof (induction f b and fs b rule: sql_expression_sql_parts.induct)
  case (1 fs b)
  then obtain Rs where "refers_all (fst (sql_parts fs b)) Rs" "\<Union> (set Rs) = {fst b <.. fst b + length (concat (map arg_list fs))}" by blast
  then have "refers (join_with '' AND '' (fst (sql_parts fs b))) {fst b <.. fst b + length (concat (map arg_list fs))}"
    by (intro refers_join_set) simp_all
  then show ?case using refers_wrap [of "''(''"] refers_wrap [of "'')''"] by (simp add: case_prod_unfold)
next
  case (2 fs b)
  then obtain Rs where "refers_all (fst (sql_parts fs b)) Rs" "\<Union> (set Rs) = {fst b <.. fst b + length (concat (map arg_list fs))}" by blast
  then have "refers (join_with '' OR '' (fst (sql_parts fs b))) {fst b <.. fst b + length (concat (map arg_list fs))}"
    by (intro refers_join_set) simp_all
  then show ?case using refers_wrap [of "''(''"] refers_wrap [of "'')''"] by (simp add: case_prod_unfold)
next
  case (3 f b)
  then show ?case using refers_wrap [of "''(NOT ''"] refers_wrap [of "'')''"] by (simp add: case_prod_unfold)
next
  case (4 op path b)
  show ?case
    using refers_one [of "''((d.metadata #> ''" "''::text[]) '' @ (if op = OpExists then ''IS NOT NULL)'' else ''IS NULL)'')" "Suc (fst b)"]
    by (simp add: sql_parameter_def case_prod_unfold interval_one)
next
  case (5 op path v b)
  show ?case
    using refers_two [of "''((d.metadata #> ''" "''::text[]) '' @ (if op = OpNeq then ''<>'' else ''='') @ '' ''" "''::jsonb)''" "Suc (fst b)" "Suc (Suc (fst b))"]
    by (simp add: sql_parameter_def case_prod_unfold interval_two)
next
  case (6 op path vs b)
  show ?case
  proof (cases "vs = []")
    case True
    then show ?thesis using refers_text [of "if op = OpNotIn then ''(TRUE)'' else ''(FALSE)''"] by (simp split: if_splits)
  next
    case False
    let ?b1 = "(fst b + 1, snd b @ [ArgPath path])"
    obtain Rs where Rs: "refers_all (fst (sql_values vs ?b1)) Rs" "\<Union> (set Rs) = {Suc (fst b) <.. Suc (fst b) + length vs}"
      using sql_values_refers [of vs ?b1] by auto
    have "refers (join_with '', '' (fst (sql_values vs ?b1))) {Suc (fst b) <.. Suc (fst b) + length vs}"
      by (rule refers_join_set [OF _ Rs]) simp
    then have "refers (join_with '', '' (fst (sql_values vs ?b1)) @ ''))'') {Suc (fst b) <.. Suc (fst b) + length vs}"
      by (intro refers_wrap) simp_all
    from refers_append [OF refers_one [of "''((d.metadata #> ''" "''::text[]) '' @ (if op = OpNotIn then ''NOT IN'' else ''IN'') @ '' (''" "Suc (fst b)"] this]
    have "refers (fst (sql_expression (FValues op path vs) b)) ({Suc (fst b)} \<union> {Suc (fst b) <.. Suc (fst b) + length vs})"
      using False by (simp add: sql_parameter_def case_prod_unfold)
    moreover have "{Suc (fst b)} \<union> {Suc (fst b) <.. Suc (fst b) + length vs} = {fst b <.. fst b + length (arg_list (FValues op path vs))}"
      using False by auto
    ultimately show ?thesis by simp
  qed
next
  case (7 op path v b)
  show ?case
    using refers_three [of "''((jsonb_typeof(d.metadata #> ''" "''::text[]) = '' @ quoted_word ''number'' @ '') AND ((d.metadata #>> ''"
        "''::text[])::numeric '' @ order_sign op @ '' ''" "''::numeric))''" "Suc (fst b)" "Suc (Suc (fst b))"]
    by (simp add: sql_parameter_def case_prod_unfold interval_two order_sign_def quoted_word_def)
next
  case (8 op path v b)
  show ?case
    using refers_three [of "''((jsonb_typeof(d.metadata #> ''" "''::text[]) = '' @ quoted_word ''string'' @ '') AND ((d.metadata #>> ''"
        "''::text[]) '' @ (if op = OpILike then ''ILIKE'' else ''LIKE'') @ '' ''" "''))''" "Suc (fst b)" "Suc (Suc (fst b))"]
    by (simp add: sql_parameter_def case_prod_unfold interval_two quoted_word_def)
next
  case (9 op path ss b)
  show ?case
  proof (cases "ss = []")
    case True
    then show ?thesis using refers_text [of "if op = OpContainsAny then ''(FALSE)'' else ''(TRUE)''"] by (simp split: if_splits)
  next
    case False
    then show ?thesis
      using refers_two [of "''((d.metadata #> ''" "''::text[]) '' @ (if op = OpContainsAny then ''?|'' else ''?&'') @ '' ''" "''::text[])''" "Suc (fst b)" "Suc (Suc (fst b))"]
      by (simp add: sql_parameter_def case_prod_unfold interval_two)
  qed
next
  case (10 b)
  show ?case by (rule exI [of _ "[]"]) simp
next
  case (11 f fs b)
  let ?b1 = "snd (sql_expression f b)"
  have "\<exists>Rs. refers_all (fst (sql_parts fs ?b1)) Rs \<and> \<Union> (set Rs) = {fst ?b1 <.. fst ?b1 + length (concat (map arg_list fs))}"
    by (rule 11(2) [of "fst (sql_expression f b)"]) simp
  then obtain Rs where Rs: "refers_all (fst (sql_parts fs ?b1)) Rs" "\<Union> (set Rs) = {fst ?b1 <.. fst ?b1 + length (concat (map arg_list fs))}" by blast
  have "{fst b <.. fst b + length (arg_list f)} \<union> {fst ?b1 <.. fst ?b1 + length (concat (map arg_list fs))}
      = {fst b <.. fst b + length (concat (map arg_list (f # fs)))}"
    by (auto simp: sql_args)
  with Rs 11(1) show ?case
    by (intro exI [of _ "{fst b <.. fst b + length (arg_list f)} # Rs"]) (simp add: case_prod_unfold)
qed
section \<open>The predicate of a search\<close>

lemma sql_total:
  assumes "predicates f = k" and "filter_ok f"
  shows "length (arg_list f) \<le> 65 * k"
proof -
  have "filter_ok f \<Longrightarrow> length (arg_list f) \<le> 65 * predicates f"
  proof (induction f rule: arg_list.induct)
    case (1 fs)
    have "\<forall>f\<in>set fs. length (arg_list f) \<le> 65 * predicates f" using 1 by (auto simp: list_all_iff)
    then have "sum_list (map (\<lambda>f. length (arg_list f)) fs) \<le> sum_list (map (\<lambda>f. 65 * predicates f) fs)"
      by (intro sum_list_mono) simp
    then show ?case by (simp add: length_concat o_def sum_list_const_mult)
  next
    case (2 fs)
    have "\<forall>f\<in>set fs. length (arg_list f) \<le> 65 * predicates f" using 2 by (auto simp: list_all_iff)
    then have "sum_list (map (\<lambda>f. length (arg_list f)) fs) \<le> sum_list (map (\<lambda>f. 65 * predicates f) fs)"
      by (intro sum_list_mono) simp
    then show ?case by (simp add: length_concat o_def sum_list_const_mult)
  qed (simp_all add: max_filter_values_def)
  with assms show ?thesis by simp
qed

text \<open>
  C31: The text of the SQL predicate has nothing the caller wrote: it is the text for the same filter with every field
  path, value and pattern replaced by an empty one. What was written goes to the arguments, in the order of the filter,
  and the text refers to exactly those, numbered on from the arguments the query already has.
\<close>

theorem filter_sql_parameterized:
  "fst (metadata_sql (Some f) start) = fst (metadata_sql (Some (erase f)) start)
   \<and> snd (metadata_sql (Some f) start) = arg_list f
   \<and> refers (fst (metadata_sql (Some f) start)) {start <.. start + length (snd (metadata_sql (Some f) start))}"
proof -
  have f: "metadata_sql (Some g) start = (fst (sql_expression g (start, [])), arg_list g)" for g
    using sql_args(1) [of g "(start, [])"] by (simp add: metadata_sql_def case_prod_unfold)
  have "fst (sql_expression (erase f) (start, [])) = fst (sql_expression f (start, []))" by (rule erase_text) simp
  then show ?thesis using sql_refers(1) [of f "(start, [])"] by (simp add: f)
qed

text \<open>
  C32: A filter the parser accepts is well formed (its operators fit their operands, its paths have one or two plain
  segments, its numbers fit the database) and small: at most eight levels and 64 predicates, so that the query gets at
  most 4160 arguments.
\<close>

theorem accepted_filter_bounded:
  assumes "parse_metadata_filter text decode raw = Inr (Some f)"
  shows "filter_ok f \<and> levels f \<le> 8 \<and> predicates f \<le> 64 \<and> length (snd (metadata_sql (Some f) start)) \<le> 4160"
proof -
  obtain obj n where "parse_expression text obj 1 0 = Inr (f, n)"
    using assms by (auto simp: parse_metadata_filter_def split: if_splits sum.splits doc_json.splits)
  from parse_accepts(1) [OF this] have f: "filter_ok f" "predicates f \<le> 64" "levels f \<le> 8"
    by (auto simp: max_filter_predicates_def max_filter_depth_def)
  have "snd (metadata_sql (Some f) start) = arg_list f"
    using sql_args(1) [of f "(start, [])"] by (simp add: metadata_sql_def case_prod_unfold)
  moreover have "length (arg_list f) \<le> 65 * predicates f" by (rule sql_total) (use f in simp_all)
  ultimately show ?thesis using f by simp
qed

text \<open>A filter with a negation, a list and a comparison, and its text.\<close>

definition sample_filter :: doc_json where
  "sample_filter =
     DObj [(''all'', DArr
       [DObj [(''field'', DStr ''author''), (''op'', DStr ''in''), (''value'', DArr [DStr ''a'', DStr ''b''])],
        DObj [(''not'', DObj [(''field'', DStr ''stats.pages''), (''op'', DStr ''gt''), (''value'', DNum ''12'')])]])]"

definition sample_text :: "doc_json \<Rightarrow> string" where
  "sample_text v = (case v of DStr s \<Rightarrow> CHR 0x22 # s @ [CHR 0x22] | _ \<Rightarrow> [])"

theorem accepted_filter_bounded_witness:
  "filter_ok (FAll [FValues OpIn [''author''] [[CHR 0x22, CHR ''a'', CHR 0x22], [CHR 0x22, CHR ''b'', CHR 0x22]],
                    FNot (FNumber OpGt [''stats'', ''pages''] ''12'')])
   \<and> snd (metadata_sql (Some (FAll [FValues OpIn [''author''] [[CHR 0x22, CHR ''a'', CHR 0x22], [CHR 0x22, CHR ''b'', CHR 0x22]],
                    FNot (FNumber OpGt [''stats'', ''pages''] ''12'')])) 3)
     = [ArgPath [''author''], ArgText [CHR 0x22, CHR ''a'', CHR 0x22], ArgText [CHR 0x22, CHR ''b'', CHR 0x22],
        ArgPath [''stats'', ''pages''], ArgText ''12'']"
proof -
  have "parse_metadata_filter sample_text (\<lambda>_. Inr sample_filter) ''{}''
      = Inr (Some (FAll [FValues OpIn [''author''] [[CHR 0x22, CHR ''a'', CHR 0x22], [CHR 0x22, CHR ''b'', CHR 0x22]],
                    FNot (FNumber OpGt [''stats'', ''pages''] ''12'')]))"
    by code_simp
  from accepted_filter_bounded [OF this, of 3] show ?thesis by (simp add: metadata_sql_def sql_parameter_def)
qed

end
