(* ===== verification/ToolPool.thy ===== *)
theory ToolPool
  imports Prelude Permissions "HOL-Library.Product_Lexorder"
begin

text \<open>
  The tools the model may see in one iteration: the assembler of
  \<^verbatim>\<open>src/internal/domain/chat/agentic/tool_pool.go\<close>, the permission pre-filter of
  \<^verbatim>\<open>permission_prefilter.go\<close>, and the filter of the LLM schemas in \<^verbatim>\<open>runner.go\<close>. Providers,
  filters and clocks are values the caller supplies (Go interfaces and closures).
\<close>

section \<open>Sources and entries\<close>

datatype tool_source =
  SrcBuiltin | SrcSkill | SrcMCP | SrcSubagent | SrcExtension | SrcOther string

abbreviation no_source :: tool_source where "no_source \<equiv> SrcOther ''''"

definition is_valid_tool_source :: "tool_source \<Rightarrow> bool" where
  "is_valid_tool_source s = (s \<in> {SrcBuiltin, SrcSkill, SrcMCP, SrcSubagent, SrcExtension})"

fun tool_source_rank :: "tool_source \<Rightarrow> int" where
  "tool_source_rank SrcBuiltin = 0"
| "tool_source_rank SrcSubagent = 1"
| "tool_source_rank SrcExtension = 2"
| "tool_source_rank SrcSkill = 3"
| "tool_source_rank SrcMCP = 4"
| "tool_source_rank (SrcOther _) = 99"

record tool_pool_entry =
  tpe_name :: string
  tpe_source :: tool_source
  tpe_provider :: string
  tpe_description :: string
  tpe_effect :: string

datatype pool_error =
  EntryNameRequired | EntryProviderRequired | InvalidSource tool_source | NoProviders
| IterationIDRequired | ProviderFailed tool_source string | ProviderEntry tool_source pool_error

definition validate_pool_entry :: "tool_pool_entry \<Rightarrow> (pool_error, unit) result" where
  "validate_pool_entry e =
     (if trim_space (tpe_name e) = [] then Inl EntryNameRequired
      else if \<not> is_valid_tool_source (tpe_source e) then Inl (InvalidSource (tpe_source e))
      else if trim_space (tpe_provider e) = [] then Inl EntryProviderRequired
      else Inr ())"

record pool_provider =
  pp_source :: tool_source
  pp_provide :: "(string, tool_pool_entry list) result"

record pool_snapshot =
  ps_iteration :: string
  ps_assembled_at :: int
  ps_entries :: "tool_pool_entry list"
  ps_dropped :: "string list"

definition snapshot_names :: "pool_snapshot \<Rightarrow> string list" where
  "snapshot_names s = map tpe_name (ps_entries s)"

definition snapshot_has_name :: "string \<Rightarrow> pool_snapshot \<Rightarrow> bool" where
  "snapshot_has_name n s = list_ex (\<lambda>e. tpe_name e = n) (ps_entries s)"

record pool_assembler =
  pa_providers :: "pool_provider list"
  pa_filters :: "(tool_pool_entry \<Rightarrow> bool) list"
  pa_allowlist :: "string list"
  pa_now :: int

definition new_pool_assembler :: "int \<Rightarrow> pool_assembler" where
  "new_pool_assembler clock = \<lparr>pa_providers = [], pa_filters = [], pa_allowlist = [], pa_now = clock\<rparr>"

definition pool_register :: "pool_provider \<Rightarrow> pool_assembler \<Rightarrow> pool_assembler" where
  "pool_register p a = a\<lparr>pa_providers := pa_providers a @ [p]\<rparr>"

definition pool_add_filter :: "(tool_pool_entry \<Rightarrow> bool) \<Rightarrow> pool_assembler \<Rightarrow> pool_assembler" where
  "pool_add_filter f a = a\<lparr>pa_filters := pa_filters a @ [f]\<rparr>"

definition pool_set_allowlist :: "string list \<Rightarrow> pool_assembler \<Rightarrow> pool_assembler" where
  "pool_set_allowlist names a = a\<lparr>pa_allowlist := names\<rparr>"

section \<open>Assembly\<close>

text \<open>Collecting candidates stops at the first provider or entry error.\<close>

fun check_entries :: "tool_source \<Rightarrow> tool_pool_entry list \<Rightarrow> (pool_error, tool_pool_entry list) result" where
  "check_entries src [] = Inr []"
| "check_entries src (e # es) =
     (let e' = (if tpe_source e = no_source then e\<lparr>tpe_source := src\<rparr> else e)
      in case validate_pool_entry e' of
           Inl err \<Rightarrow> Inl (ProviderEntry src err)
         | Inr _ \<Rightarrow> (case check_entries src es of Inl err \<Rightarrow> Inl err | Inr rest \<Rightarrow> Inr (e' # rest)))"

fun collect_entries :: "pool_provider list \<Rightarrow> (pool_error, tool_pool_entry list) result" where
  "collect_entries [] = Inr []"
| "collect_entries (p # ps) =
     (case pp_provide p of
        Inl msg \<Rightarrow> Inl (ProviderFailed (pp_source p) msg)
      | Inr es \<Rightarrow>
          (case check_entries (pp_source p) es of
             Inl err \<Rightarrow> Inl err
           | Inr got \<Rightarrow> (case collect_entries ps of Inl err \<Rightarrow> Inl err | Inr rest \<Rightarrow> Inr (got @ rest))))"

definition passes_filters :: "(tool_pool_entry \<Rightarrow> bool) list \<Rightarrow> tool_pool_entry \<Rightarrow> bool" where
  "passes_filters fs e = list_all (\<lambda>f. f e) fs"

definition passes_allowlist :: "string list \<Rightarrow> tool_pool_entry \<Rightarrow> bool" where
  "passes_allowlist allow e = (allow = [] \<or> tpe_name e \<in> set allow)"

text \<open>One entry of the collision loop: the winners so far by name, and the names dropped.\<close>

definition resolve_step ::
  "(string \<times> tool_pool_entry) list \<times> string list \<Rightarrow> tool_pool_entry
   \<Rightarrow> (string \<times> tool_pool_entry) list \<times> string list" where
  "resolve_step s c =
     (case s of (winners, dropped) \<Rightarrow>
        case map_of winners (tpe_name c) of
          None \<Rightarrow> (AList.update (tpe_name c) c winners, dropped)
        | Some existing \<Rightarrow>
            if tool_source_rank (tpe_source c) < tool_source_rank (tpe_source existing)
            then (AList.update (tpe_name c) c winners, dropped @ [tpe_name existing])
            else (winners, dropped @ [tpe_name c]))"

definition resolve_collisions ::
  "tool_pool_entry list \<Rightarrow> (string \<times> tool_pool_entry) list \<times> string list" where
  "resolve_collisions keep = foldl resolve_step ([], []) keep"

definition entry_order :: "tool_pool_entry \<Rightarrow> int \<times> string" where
  "entry_order e = (tool_source_rank (tpe_source e), tpe_name e)"

fun unique_from :: "string set \<Rightarrow> string list \<Rightarrow> string list" where
  "unique_from seen [] = []"
| "unique_from seen (s # ss) = (if s \<in> seen then unique_from seen ss else s # unique_from (insert s seen) ss)"

definition unique_strings :: "string list \<Rightarrow> string list" where
  "unique_strings ss = unique_from {} ss"

text \<open>The part of \<^verbatim>\<open>Assemble\<close> after the candidates are collected.\<close>

definition build_snapshot :: "pool_assembler \<Rightarrow> string \<Rightarrow> tool_pool_entry list \<Rightarrow> pool_snapshot" where
  "build_snapshot a iteration all =
     (let keep1 = filter (passes_filters (pa_filters a)) all;
          dropped1 = map tpe_name (filter (\<lambda>e. \<not> passes_filters (pa_filters a) e) all);
          keep2 = filter (passes_allowlist (pa_allowlist a)) keep1;
          dropped2 = map tpe_name (filter (\<lambda>e. \<not> passes_allowlist (pa_allowlist a) e) keep1);
          (winners, dropped3) = resolve_collisions keep2
      in \<lparr>ps_iteration = iteration, ps_assembled_at = pa_now a,
          ps_entries = sort_key entry_order (map snd winners),
          ps_dropped = unique_strings (sort (dropped1 @ dropped2 @ dropped3))\<rparr>)"

definition assemble :: "pool_assembler \<Rightarrow> string \<Rightarrow> (pool_error, pool_snapshot) result" where
  "assemble a iteration =
     (if trim_space iteration = [] then Inl IterationIDRequired
      else if pa_providers a = [] then Inl NoProviders
      else case collect_entries (pa_providers a) of
             Inl err \<Rightarrow> Inl err
           | Inr all \<Rightarrow> Inr (build_snapshot a iteration all))"

section \<open>Collisions: the best-ranked entry of each name\<close>

interpretation source_rank: keyed_preference "\<lambda>e. tool_source_rank (tpe_source e)" .

abbreviation outranks :: "tool_pool_entry \<Rightarrow> tool_pool_entry \<Rightarrow> bool" where
  "outranks x y \<equiv> tool_source_rank (tpe_source x) < tool_source_rank (tpe_source y)"

definition named :: "string \<Rightarrow> tool_pool_entry list \<Rightarrow> tool_pool_entry list" where
  "named n es = filter (\<lambda>e. tpe_name e = n) es"

definition winner_of :: "tool_pool_entry list \<Rightarrow> tool_pool_entry option" where
  "winner_of es = (case es of [] \<Rightarrow> None | e # rest \<Rightarrow> Some (scan_winner outranks e rest))"

lemma named_Nil [simp]: "named n [] = []"
  by (simp add: named_def)

lemma named_snoc: "named n (es @ [c]) = (if tpe_name c = n then named n es @ [c] else named n es)"
  by (simp add: named_def)

lemma winner_of_snoc:
  "winner_of (es @ [c]) = Some (case winner_of es of None \<Rightarrow> c | Some w \<Rightarrow> if outranks c w then c else w)"
  by (cases es) (auto simp: winner_of_def scan_winner_snoc)

lemma winner_of_None: "winner_of es = None \<longleftrightarrow> es = []"
  by (simp add: winner_of_def split: list.splits)

lemma winner_of_iff: "winner_of es = Some e \<longleftrightarrow> first_best outranks es e"
proof (cases es)
  case Nil
  then show ?thesis by (simp add: winner_of_def first_best_def)
next
  case (Cons w ws)
  then show ?thesis
    using source_rank.smaller.first_best_iff [of w ws e] by (auto simp: winner_of_def)
qed

lemma winner_of_single [simp]: "winner_of [e] = Some e"
  by (simp add: winner_of_def)

definition winners_inv :: "tool_pool_entry list \<Rightarrow> (string \<times> tool_pool_entry) list \<times> string list \<Rightarrow> bool" where
  "winners_inv keep s \<longleftrightarrow>
     distinct (map fst (fst s)) \<and> (\<forall>n. map_of (fst s) n = winner_of (named n keep))
     \<and> set (snd s) = {n. 2 \<le> length (named n keep)}"

lemma winner_of_named: "winner_of (named n keep) = Some e \<Longrightarrow> tpe_name e = n \<and> e \<in> set keep"
proof -
  assume "winner_of (named n keep) = Some e"
  then have "e \<in> set (named n keep)"
    by (auto simp: winner_of_iff first_best_def)
  then show ?thesis by (simp add: named_def)
qed

lemma resolve_step_inv [inv_intro]:
  assumes "winners_inv keep s"
  shows "winners_inv (keep @ [c]) (resolve_step s c)"
proof -
  obtain ws ds where s: "s = (ws, ds)" by (cases s)
  have m: "map_of ws n = winner_of (named n keep)" and d: "set ds = {n. 2 \<le> length (named n keep)}"
    and dist: "distinct (map fst ws)" for n
    using assms by (simp_all add: winners_inv_def s)
  show ?thesis
  proof (cases "map_of ws (tpe_name c)")
    case None
    then have "named (tpe_name c) keep = []" using m by (simp add: winner_of_None)
    with None show ?thesis
      using m d dist
      by (auto simp: resolve_step_def s winners_inv_def update_conv distinct_update named_snoc winner_of_snoc)
  next
    case (Some w)
    then have "winner_of (named (tpe_name c) keep) = Some w" using m by simp
    then have w: "tpe_name w = tpe_name c" and ne: "1 \<le> length (named (tpe_name c) keep)"
      by (auto dest: winner_of_named simp: Suc_le_eq) (auto simp: winner_of_def)
    with Some show ?thesis
      using m d dist
      by (auto simp: resolve_step_def s winners_inv_def update_conv distinct_update named_snoc winner_of_snoc)
  qed
qed

lemma resolve_collisions_inv: "winners_inv keep (resolve_collisions keep)"
proof (induction keep rule: rev_induct)
  case Nil
  show ?case by (simp add: winners_inv_def resolve_collisions_def winner_of_def)
next
  case (snoc c keep)
  then show ?case by (simp add: resolve_collisions_def inv_intro)
qed

section \<open>The snapshot\<close>

definition screened :: "pool_assembler \<Rightarrow> tool_pool_entry list \<Rightarrow> tool_pool_entry list" where
  "screened a all = filter (\<lambda>e. passes_filters (pa_filters a) e \<and> passes_allowlist (pa_allowlist a) e) all"

lemma set_unique_from: "set (unique_from seen ss) = set ss - seen"
  by (induction ss arbitrary: seen) auto

lemma set_unique_strings [simp]: "set (unique_strings ss) = set ss"
  by (simp add: unique_strings_def set_unique_from)

lemma distinct_unique_from: "distinct (unique_from seen ss)"
  by (induction ss arbitrary: seen) (auto simp: set_unique_from)

lemma sorted_unique_from: "sorted ss \<Longrightarrow> sorted (unique_from seen ss)"
  by (induction ss arbitrary: seen) (auto simp: set_unique_from)

lemma build_snapshot_entries:
  "ps_entries (build_snapshot a it all) = sort_key entry_order (map snd (fst (resolve_collisions (screened a all))))"
  by (simp add: build_snapshot_def screened_def Let_def conj_commute split: prod.splits)

lemma build_snapshot_dropped:
  "set (ps_dropped (build_snapshot a it all))
     = tpe_name ` (set all - set (screened a all)) \<union> {n. 2 \<le> length (named n (screened a all))}"
  using resolve_collisions_inv [of "screened a all"]
  by (auto simp: build_snapshot_def screened_def Let_def winners_inv_def conj_commute split: prod.splits)

lemma winners_iff:
  "(n, w) \<in> set (fst (resolve_collisions keep)) \<longleftrightarrow> winner_of (named n keep) = Some w"
  using resolve_collisions_inv [of keep]
  by (simp add: winners_inv_def map_of_eq_Some_iff [symmetric] del: map_of_eq_Some_iff)

lemma winner_names: "map tpe_name (map snd (fst (resolve_collisions keep))) = map fst (fst (resolve_collisions keep))"
proof -
  have "tpe_name (snd p) = fst p" if "p \<in> set (fst (resolve_collisions keep))" for p
    using that winners_iff [of "fst p" "snd p" keep] winner_of_named [of "fst p" keep "snd p"] by simp
  then show ?thesis by simp
qed

lemma exposed_iff:
  "e \<in> set (ps_entries (build_snapshot a it all)) \<longleftrightarrow> winner_of (named (tpe_name e) (screened a all)) = Some e"
proof -
  have "e \<in> set (ps_entries (build_snapshot a it all))
    \<longleftrightarrow> (\<exists>n. (n, e) \<in> set (fst (resolve_collisions (screened a all))))"
    by (force simp: build_snapshot_entries)
  also have "\<dots> \<longleftrightarrow> winner_of (named (tpe_name e) (screened a all)) = Some e"
    using winner_of_named [of _ "screened a all" e] by (auto simp: winners_iff)
  finally show ?thesis .
qed

lemma exposed_names_distinct: "distinct (snapshot_names (build_snapshot a it all))"
proof -
  have "mset (snapshot_names (build_snapshot a it all)) = mset (map fst (fst (resolve_collisions (screened a all))))"
    unfolding winner_names [symmetric]
    by (simp add: snapshot_names_def build_snapshot_entries multiset.map_comp)
  then show ?thesis
    using resolve_collisions_inv [of "screened a all"] by (metis mset_eq_imp_distinct_iff winners_inv_def)
qed

text \<open>
  A snapshot exposes exactly the winners: an entry is shown if and only if it passed the filters and
  the allow-list and, among the screened entries of its name, is the first one of the best source
  rank. Names are unique and the entries are ordered by rank, then name.
\<close>

theorem snapshot_exposes_winners:
  "(e \<in> set (ps_entries (build_snapshot a it all))) =
     first_best (\<lambda>x y. tool_source_rank (tpe_source x) < tool_source_rank (tpe_source y))
       (filter (\<lambda>x. tpe_name x = tpe_name e) (screened a all)) e
   \<and> distinct (snapshot_names (build_snapshot a it all))
   \<and> sorted (map entry_order (ps_entries (build_snapshot a it all)))"
proof -
  have "sorted (map entry_order (ps_entries (build_snapshot a it all)))"
    by (simp add: build_snapshot_entries)
  then show ?thesis
    by (simp add: exposed_iff winner_of_iff named_def [symmetric] exposed_names_distinct)
qed

lemma length_named_exposed:
  "length (named n (ps_entries (build_snapshot a it all))) = (if named n (screened a all) = [] then 0 else 1)"
proof -
  let ?es = "ps_entries (build_snapshot a it all)"
  have d: "distinct (named n ?es)"
    using exposed_names_distinct [of a it all] by (simp add: named_def snapshot_names_def distinct_map)
  have s: "e \<in> set (named n ?es) \<longleftrightarrow> winner_of (named n (screened a all)) = Some e" for e
    using winner_of_named [of n "screened a all" e] by (auto simp: named_def [of n ?es] exposed_iff)
  show ?thesis
  proof (cases "winner_of (named n (screened a all))")
    case None
    with s have "named n ?es = []" by (metis option.distinct(1) list.set_intros(1) neq_Nil_conv)
    with None show ?thesis by (simp add: winner_of_None)
  next
    case (Some w)
    with s have "set (named n ?es) = {w}" by auto
    with d have "length (named n ?es) = 1" using distinct_card by fastforce
    with Some show ?thesis by (auto simp: winner_of_def split: list.splits)
  qed
qed

lemma length_named_screened:
  "length (named n (screened a all)) \<le> length (named n all)
   \<and> (length (named n (screened a all)) < length (named n all) \<longleftrightarrow> n \<in> tpe_name ` (set all - set (screened a all)))"
proof (induction all)
  case Nil
  show ?case by (simp add: screened_def)
next
  case (Cons c cs)
  then show ?case by (auto simp: screened_def named_def less_Suc_eq_le)
qed

text \<open>
  The audit of dropped names is complete and accurate: a name is listed if and only if some
  candidate of that name is not exposed, whether a filter, the allow-list or a collision removed
  it; the list is sorted and free of duplicates.
\<close>

theorem snapshot_dropped_exact:
  "(n \<in> set (ps_dropped (build_snapshot a it all)))
     = (length (filter (\<lambda>e. tpe_name e = n) (ps_entries (build_snapshot a it all)))
          < length (filter (\<lambda>e. tpe_name e = n) all))
   \<and> sorted (ps_dropped (build_snapshot a it all)) \<and> distinct (ps_dropped (build_snapshot a it all))"
proof -
  have "n \<in> set (ps_dropped (build_snapshot a it all)) \<longleftrightarrow>
      length (named n (screened a all)) < length (named n all) \<or> 2 \<le> length (named n (screened a all))"
    using length_named_screened [of n a all] by (simp add: build_snapshot_dropped)
  moreover have "\<dots> \<longleftrightarrow> length (named n (ps_entries (build_snapshot a it all))) < length (named n all)"
    using length_named_screened [of n a all]
    by (cases "named n (screened a all)") (auto simp: length_named_exposed)
  ultimately show ?thesis
    by (simp add: named_def build_snapshot_def Let_def unique_strings_def distinct_unique_from sorted_unique_from
        split: prod.splits)
qed

end
