(* ===== verification/Prefilter.thy ===== *)
theory Prefilter
  imports ToolPool
begin

text \<open>
  The permission screen at pool time (\<^verbatim>\<open>permission_prefilter.go\<close>), its use as a filter of the
  assembler, and the screen of the LLM schemas in \<^verbatim>\<open>runner.go\<close>. The audit is an append-only
  log; the clock gives the time of its \<open>k\<close>-th reading.
\<close>

section \<open>Configuration\<close>

datatype prefilter_stance = StanceUnset | ShowConfirm | HideConfirm | StanceOther string

definition is_valid_prefilter_stance :: "prefilter_stance \<Rightarrow> bool" where
  "is_valid_prefilter_stance s = (s \<in> {ShowConfirm, HideConfirm})"

record prefilter_config =
  pc_rules :: "permission_rules option"
  pc_stance :: prefilter_stance
  pc_sample_input :: "(tool_pool_entry \<Rightarrow> string) option"

datatype prefilter_error = PrefilterRulesRequired | PrefilterBadStance prefilter_stance

definition validate_prefilter :: "prefilter_config \<Rightarrow> (prefilter_error, unit) result" where
  "validate_prefilter c =
     (if pc_rules c = None then Inl PrefilterRulesRequired
      else if pc_stance c \<noteq> StanceUnset \<and> \<not> is_valid_prefilter_stance (pc_stance c)
      then Inl (PrefilterBadStance (pc_stance c))
      else Inr ())"

record prefilter_decision =
  pd_entry :: tool_pool_entry
  pd_decision :: permission_decision
  pd_kept :: bool
  pd_at :: int

type_synonym prefilter_audit = "prefilter_decision list"

definition audit_dropped :: "prefilter_audit \<Rightarrow> prefilter_audit" where
  "audit_dropped log = filter (\<lambda>d. \<not> pd_kept d) log"

definition audit_sorted :: "prefilter_audit \<Rightarrow> prefilter_audit" where
  "audit_sorted log = sort_key (\<lambda>d. (tpe_name (pd_entry d), pd_at d)) log"

record prefilter =
  pf_config :: prefilter_config
  pf_now :: "nat \<Rightarrow> int"

definition new_prefilter :: "prefilter_config \<Rightarrow> (nat \<Rightarrow> int) \<Rightarrow> (prefilter_error, prefilter) result" where
  "new_prefilter cfg clock =
     (case validate_prefilter cfg of
        Inl err \<Rightarrow> Inl err
      | Inr _ \<Rightarrow> Inr \<lparr>pf_config = (if pc_stance cfg = StanceUnset then cfg\<lparr>pc_stance := ShowConfirm\<rparr> else cfg),
                     pf_now = clock\<rparr>)"

section \<open>Decisions\<close>

definition prefilter_decide :: "prefilter \<Rightarrow> tool_pool_entry \<Rightarrow> permission_decision" where
  "prefilter_decide p e =
     evaluate_permission (pc_rules (pf_config p)) (tpe_name e)
       (case pc_sample_input (pf_config p) of None \<Rightarrow> '''' | Some f \<Rightarrow> f e)"

definition prefilter_keeps :: "prefilter \<Rightarrow> tool_pool_entry \<Rightarrow> bool" where
  "prefilter_keeps p e =
     (case prefilter_decide p e of
        Deny \<Rightarrow> False
      | Confirm \<Rightarrow> pc_stance (pf_config p) \<noteq> HideConfirm
      | Allow \<Rightarrow> True)"

text \<open>One call of the filter with an audit: the outcome and the extended log.\<close>

definition prefilter_filter :: "prefilter \<Rightarrow> tool_pool_entry \<Rightarrow> prefilter_audit \<Rightarrow> bool \<times> prefilter_audit" where
  "prefilter_filter p e log =
     (prefilter_keeps p e,
      log @ [\<lparr>pd_entry = e, pd_decision = prefilter_decide p e, pd_kept = prefilter_keeps p e,
              pd_at = pf_now p (length log)\<rparr>])"

fun prefilter_apply_all ::
  "prefilter \<Rightarrow> tool_pool_entry list \<Rightarrow> prefilter_audit \<Rightarrow> tool_pool_entry list \<times> prefilter_audit" where
  "prefilter_apply_all p [] log = ([], log)"
| "prefilter_apply_all p (e # es) log =
     (case prefilter_filter p e log of (kept, log') \<Rightarrow>
        case prefilter_apply_all p es log' of (out, log'') \<Rightarrow>
          (if kept then e # out else out, log''))"

section \<open>The LLM schemas\<close>

record llm_tool =
  lt_name :: string
  lt_description :: string
  lt_read_only :: bool
  lt_max_result_chars :: int
  lt_builtin :: bool

definition llm_tool_entry :: "llm_tool \<Rightarrow> tool_pool_entry" where
  "llm_tool_entry t =
     \<lparr>tpe_name = lt_name t, tpe_source = (if lt_builtin t then SrcBuiltin else SrcSkill),
      tpe_provider = '''', tpe_description = '''', tpe_effect = ''''\<rparr>"

definition filter_llm_tools_by_permission :: "llm_tool list \<Rightarrow> permission_rules option \<Rightarrow> llm_tool list" where
  "filter_llm_tools_by_permission tools rules =
     (if rules = None then tools
      else case new_prefilter \<lparr>pc_rules = rules, pc_stance = StanceUnset, pc_sample_input = None\<rparr> (\<lambda>_. 0) of
             Inl _ \<Rightarrow> []
           | Inr p \<Rightarrow> filter (\<lambda>t. prefilter_decide p (llm_tool_entry t) \<noteq> Deny) tools)"

section \<open>Pool time against call time\<close>

lemma filter_llm_tools_eq:
  "filter_llm_tools_by_permission tools rules
     = filter (\<lambda>t. evaluate_permission rules (lt_name t) [] \<noteq> Deny) tools"
  by (cases rules)
    (simp_all add: filter_llm_tools_by_permission_def new_prefilter_def validate_prefilter_def
      prefilter_decide_def llm_tool_entry_def del: evaluate_permission.simps(2))

text \<open>
  Without an allow-list, hiding a schema loses nothing: a tool that
  \<^verbatim>\<open>filterLLMToolsByPermission\<close> removes would be denied at call time for every input.
\<close>

theorem hidden_tools_always_denied:
  assumes "allow_rules r = []"
    and "t \<in> set tools"
    and "t \<notin> set (filter_llm_tools_by_permission tools (Some r))"
  shows "evaluate_permission (Some r) (lt_name t) input = Deny"
proof (rule deny_empty_input_all)
  show "allow_rules r = []" by (rule assms)
  show "evaluate_permission (Some r) (lt_name t) [] = Deny"
    using assms(2,3) by (simp add: filter_llm_tools_eq del: evaluate_permission.simps)
qed

text \<open>A denied schema is hidden, and its calls are denied.\<close>

theorem hidden_tools_always_denied_witness:
  "evaluate_permission (Some \<lparr>allow_rules = [], deny_rules = [''execute-bash''], confirm_rules = [], rules_mode = ModeBypass\<rparr>)
     ''execute-bash'' ''ls'' = Deny"
proof -
  let ?r = "\<lparr>allow_rules = [], deny_rules = [''execute-bash''], confirm_rules = [], rules_mode = ModeBypass\<rparr>"
  let ?t = "\<lparr>lt_name = ''execute-bash'', lt_description = '''', lt_read_only = False, lt_max_result_chars = 0, lt_builtin = False\<rparr>"
  have "?t \<notin> set (filter_llm_tools_by_permission [?t] (Some ?r))" by code_simp
  from hidden_tools_always_denied [OF _ _ this, of "''ls''"] show ?thesis by simp
qed

text \<open>
  With an allow-list whose rules name arguments the screen is stricter than the call-time check:
  a tool whose only allow rule has an argument pattern is removed from the schemas (in every mode
  but bypass), although the call-time check allows calls that match the pattern.
\<close>

theorem allow_argument_rule_hidden:
  "filter_llm_tools_by_permission
     [\<lparr>lt_name = ''execute-sql'', lt_description = d, lt_read_only = ro, lt_max_result_chars = n, lt_builtin = b\<rparr>]
     (Some \<lparr>allow_rules = [''execute-sql(SELECT)''], deny_rules = [], confirm_rules = [], rules_mode = ModeDefault\<rparr>) = []
   \<and> evaluate_permission
       (Some \<lparr>allow_rules = [''execute-sql(SELECT)''], deny_rules = [], confirm_rules = [], rules_mode = ModeDefault\<rparr>)
       ''execute-sql'' ''SELECT 1'' = Allow"
proof -
  have "\<not> any_match [''execute-sql(SELECT)''] ''execute-sql'' []"
    and "any_match [''execute-sql(SELECT)''] ''execute-sql'' ''SELECT 1''"
    by code_simp+
  then show ?thesis by (simp add: filter_llm_tools_eq del: any_match_Cons)
qed

lemma apply_all_kept: "fst (prefilter_apply_all p es log) = filter (prefilter_keeps p) es"
  by (induction es arbitrary: log) (simp_all add: prefilter_filter_def split_beta)

lemma apply_all_log:
  "map (\<lambda>d. (pd_entry d, pd_decision d, pd_kept d)) (snd (prefilter_apply_all p es log))
     = map (\<lambda>d. (pd_entry d, pd_decision d, pd_kept d)) log
       @ map (\<lambda>e. (e, prefilter_decide p e, prefilter_keeps p e)) es"
  by (induction es arbitrary: log) (simp_all add: prefilter_filter_def split_beta)

lemma exposed_passes_filters:
  "e \<in> set (ps_entries (build_snapshot a it all)) \<Longrightarrow> f \<in> set (pa_filters a) \<Longrightarrow> f e"
  by (auto simp: exposed_iff screened_def passes_filters_def list_all_iff dest!: winner_of_named)

lemma keeps_iff:
  "prefilter_keeps p e \<longleftrightarrow> prefilter_decide p e \<noteq> Deny
     \<and> \<not> (prefilter_decide p e = Confirm \<and> pc_stance (pf_config p) = HideConfirm)"
  by (simp add: prefilter_keeps_def split: permission_decision.splits)

text \<open>
  The batch form keeps exactly the entries that are neither denied nor, when confirmations are
  hidden, in need of one, and records one decision per entry in order; an assembler with the
  filter installed exposes no other entry.
\<close>

theorem prefilter_screens_pool:
  "fst (prefilter_apply_all p es log)
     = filter (\<lambda>e. prefilter_decide p e \<noteq> Deny
                 \<and> \<not> (prefilter_decide p e = Confirm \<and> pc_stance (pf_config p) = HideConfirm)) es
   \<and> map (\<lambda>d. (pd_entry d, pd_decision d)) (snd (prefilter_apply_all p es []))
     = map (\<lambda>e. (e, prefilter_decide p e)) es
   \<and> filter (\<lambda>e. prefilter_decide p e = Deny
                 \<or> prefilter_decide p e = Confirm \<and> pc_stance (pf_config p) = HideConfirm)
       (ps_entries (build_snapshot (pool_add_filter (prefilter_keeps p) a) it all)) = []"
proof -
  have "prefilter_keeps p e"
    if "e \<in> set (ps_entries (build_snapshot (pool_add_filter (prefilter_keeps p) a) it all))" for e
    using exposed_passes_filters [OF that, of "prefilter_keeps p"] by (simp add: pool_add_filter_def)
  moreover have "map (\<lambda>d. (pd_entry d, pd_decision d)) (snd (prefilter_apply_all p es []))
      = map (\<lambda>e. (e, prefilter_decide p e)) es"
    using arg_cong [OF apply_all_log [of p es "[]"], of "map (\<lambda>(e, d, k). (e, d))"] by (simp add: comp_def)
  ultimately show ?thesis
    by (auto simp: apply_all_kept keeps_iff filter_empty_conv intro!: filter_cong)
qed

end
