(* ===== verification/QueryGuard.thy ===== *)
theory QueryGuard
  imports "HOL-Library.Word"
begin

text \<open>
  The guard against concurrent queries
  (\<^verbatim>\<open>src/internal/domain/chat/agentic/queryguard.go\<close>): a state machine with three states and a
  generation number, an \<^verbatim>\<open>int64\<close> that wraps around and so is a 64-bit word here. The callback
  receives every new state; the model keeps the list of notifications.
\<close>

section \<open>State and operations\<close>

datatype query_status = QueryIdle | QueryDispatching | QueryRunning

record query_guard =
  qg_status :: query_status
  qg_generation :: "64 word"
  qg_notified :: "query_status list"

definition new_query_guard :: query_guard where
  "new_query_guard = \<lparr>qg_status = QueryIdle, qg_generation = 0, qg_notified = []\<rparr>"

definition move_to :: "query_status \<Rightarrow> query_guard \<Rightarrow> query_guard" where
  "move_to s g = g\<lparr>qg_status := s, qg_notified := qg_notified g @ [s]\<rparr>"

definition is_active :: "query_guard \<Rightarrow> bool" where
  "is_active g = (qg_status g \<noteq> QueryIdle)"

definition reserve :: "query_guard \<Rightarrow> bool \<times> query_guard" where
  "reserve g = (if qg_status g \<noteq> QueryIdle then (False, g) else (True, move_to QueryDispatching g))"

definition cancel_reservation :: "query_guard \<Rightarrow> query_guard" where
  "cancel_reservation g = (if qg_status g = QueryDispatching then move_to QueryIdle g else g)"

definition try_start :: "query_guard \<Rightarrow> 64 word option \<times> query_guard" where
  "try_start g =
     (if qg_status g = QueryRunning then (None, g)
      else let gen = qg_generation g + 1
           in (Some gen, move_to QueryRunning (g\<lparr>qg_generation := gen\<rparr>)))"

definition end_query :: "64 word \<Rightarrow> query_guard \<Rightarrow> bool \<times> query_guard" where
  "end_query gen g =
     (if qg_status g \<noteq> QueryRunning \<or> qg_generation g \<noteq> gen then (False, g)
      else (True, move_to QueryIdle g))"

definition force_end :: "query_guard \<Rightarrow> query_guard" where
  "force_end g =
     (if qg_status g = QueryIdle then g
      else move_to QueryIdle (g\<lparr>qg_generation := qg_generation g + 1\<rparr>))"

section \<open>Runs\<close>

datatype guard_op = OpReserve | OpCancel | OpTryStart | OpEnd "64 word" | OpForceEnd

fun guard_step :: "guard_op \<Rightarrow> query_guard \<Rightarrow> query_guard" where
  "guard_step OpReserve g = snd (reserve g)"
| "guard_step OpCancel g = cancel_reservation g"
| "guard_step OpTryStart g = snd (try_start g)"
| "guard_step (OpEnd gen) g = snd (end_query gen g)"
| "guard_step OpForceEnd g = force_end g"

definition run_guard :: "guard_op list \<Rightarrow> query_guard \<Rightarrow> query_guard" where
  "run_guard ops g = foldl (\<lambda>g op. guard_step op g) g ops"

lemmas guard_defs =
  reserve_def cancel_reservation_def try_start_def end_query_def force_end_def move_to_def Let_def

lemma run_guard_simps [simp]:
  "run_guard [] g = g" "run_guard (op # ops) g = run_guard ops (guard_step op g)"
  by (simp_all add: run_guard_def)

text \<open>The transitions of the header comment, and no others.\<close>

inductive transition :: "query_status \<Rightarrow> query_status \<Rightarrow> bool" where
  idle_dispatching: "transition QueryIdle QueryDispatching"
| dispatching_running: "transition QueryDispatching QueryRunning"
| idle_running: "transition QueryIdle QueryRunning"
| running_idle: "transition QueryRunning QueryIdle"
| dispatching_idle: "transition QueryDispatching QueryIdle"

inductive_simps transition_simps [simp]:
  "transition QueryIdle s" "transition QueryDispatching s" "transition QueryRunning s"

fun legal_path :: "query_status \<Rightarrow> query_status list \<Rightarrow> bool" where
  "legal_path s [] = True"
| "legal_path s (t # ts) = (transition s t \<and> legal_path t ts)"

lemma legal_path_snoc: "legal_path s (ts @ [t]) \<longleftrightarrow> legal_path s ts \<and> transition (last (s # ts)) t"
  by (induction ts arbitrary: s) auto

definition guard_inv :: "query_guard \<Rightarrow> bool" where
  "guard_inv g \<longleftrightarrow> legal_path QueryIdle (qg_notified g) \<and> last (QueryIdle # qg_notified g) = qg_status g"

lemma guard_step_inv: "guard_inv g \<Longrightarrow> guard_inv (guard_step op g)"
  by (cases op; cases "qg_status g") (auto simp: guard_inv_def guard_defs legal_path_snoc)

lemma run_guard_inv: "guard_inv g \<Longrightarrow> guard_inv (run_guard ops g)"
  by (induction ops arbitrary: g) (simp_all add: guard_step_inv)

text \<open>
  Along every run the callback sees a path of the documented state machine that starts in idle and
  ends in the current state: only the listed transitions occur, and each is announced exactly once.
\<close>

theorem guard_notifies_legal_path:
  "legal_path QueryIdle (qg_notified (run_guard ops new_query_guard))
   \<and> last (QueryIdle # qg_notified (run_guard ops new_query_guard)) = qg_status (run_guard ops new_query_guard)"
  using run_guard_inv [of new_query_guard ops] by (simp add: guard_inv_def new_query_guard_def)

section \<open>Stale generations\<close>

text \<open>
  After a query of generation \<open>g\<close> has lost the guard, the generation is \<open>k\<close> steps ahead, and at least
  one step whenever a query runs again.
\<close>

definition lost :: "64 word \<Rightarrow> nat \<Rightarrow> query_guard \<Rightarrow> bool" where
  "lost g n s \<longleftrightarrow> (\<exists>k. qg_generation s = g + of_nat k \<and> k \<le> n \<and> (qg_status s = QueryRunning \<longrightarrow> 1 \<le> k))"

lemma lost_mono: "lost g n s \<Longrightarrow> lost g (Suc n) s"
  unfolding lost_def using le_SucI by blast

lemma lost_not_current:
  assumes "lost g n s" and "n < 2 ^ 64"
  shows "\<not> fst (end_query g s)"
proof
  assume "fst (end_query g s)"
  then have run: "qg_status s = QueryRunning" and gen: "qg_generation s = g"
    by (auto simp: end_query_def split: if_splits)
  with assms obtain k where "g = g + of_nat k" "k < 2 ^ 64" "1 \<le> k"
    by (auto simp: lost_def)
  then have "(of_nat k :: 64 word) = 0" by simp
  then have "2 ^ 64 dvd k" by (simp add: word_of_nat_eq_0_iff)
  with \<open>k < 2 ^ 64\<close> have "k = 0" using nat_dvd_not_less by blast
  with \<open>1 \<le> k\<close> show False by simp
qed

lemma lost_step:
  assumes "lost g n s" and "n < 2 ^ 64"
  shows "lost g (Suc n) (guard_step op s)"
proof -
  obtain k where k: "qg_generation s = g + of_nat k" "k \<le> n" "qg_status s = QueryRunning \<longrightarrow> 1 \<le> k"
    using assms(1) unfolding lost_def by blast
  show ?thesis
  proof (cases "qg_generation (guard_step op s) = qg_generation s")
    case True
    then have "qg_status (guard_step op s) = QueryRunning \<longrightarrow> qg_status s = QueryRunning"
      by (cases op) (auto simp: guard_defs split: if_splits)
    with True k show ?thesis unfolding lost_def by (intro exI [of _ k]) auto
  next
    case False
    then have "qg_generation (guard_step op s) = qg_generation s + 1"
      by (cases op) (auto simp: guard_defs split: if_splits)
    with k show ?thesis unfolding lost_def by (intro exI [of _ "Suc k"]) (auto simp: algebra_simps)
  qed
qed

lemma lost_run:
  "lost g n s \<Longrightarrow> n + length ops < 2 ^ 64 \<Longrightarrow> lost g (n + length ops) (run_guard ops s)"
proof (induction ops arbitrary: n s)
  case Nil
  then show ?case by simp
next
  case (Cons op ops)
  have "lost g (Suc n) (guard_step op s)" using Cons.prems by (intro lost_step) simp_all
  from Cons.IH [OF this] Cons.prems show ?case by simp
qed

lemma holding_run:
  "qg_status s = QueryRunning \<Longrightarrow> qg_generation s = g \<Longrightarrow> length ops < 2 ^ 64 \<Longrightarrow>
     fst (end_query g (run_guard ops s)) \<longleftrightarrow> OpForceEnd \<notin> set ops \<and> OpEnd g \<notin> set ops"
proof (induction ops arbitrary: s)
  case Nil
  then show ?case by (simp add: end_query_def)
next
  case (Cons op ops)
  show ?case
  proof (cases "op = OpForceEnd \<or> op = OpEnd g")
    case True
    then have "lost g 1 (guard_step op s)"
      using Cons.prems unfolding lost_def
      by (cases "op = OpForceEnd") (auto simp: guard_defs intro: exI [of _ 1] exI [of _ 0])
    then have "lost g (1 + length ops) (run_guard ops (guard_step op s))"
      using Cons.prems by (intro lost_run) simp_all
    with Cons.prems have "\<not> fst (end_query g (run_guard ops (guard_step op s)))"
      using lost_not_current [of g "1 + length ops" "run_guard ops (guard_step op s)"] by simp
    with True show ?thesis by auto
  next
    case False
    then have "guard_step op s = s"
      using Cons.prems by (cases op) (auto simp: guard_defs)
    with False Cons show ?thesis by auto
  qed
qed

text \<open>
  A query that has started ends the guard if and only if nobody forced its end or ended it before:
  whatever is tried in between (fewer than \<open>2 ^ 64\<close> operations, so the generation cannot come round),
  a cleanup with its generation succeeds exactly when the query still holds the guard.
\<close>

theorem stale_generation_rejected:
  assumes "try_start s0 = (Some g, s1)" and "length ops < 2 ^ 64"
  shows "fst (end_query g (run_guard ops s1)) = (OpForceEnd \<notin> set ops \<and> OpEnd g \<notin> set ops)"
  using assms by (intro holding_run) (auto simp: guard_defs split: if_splits)

text \<open>A forced end followed by a new query leaves the old cleanup without effect.\<close>

theorem stale_generation_rejected_witness:
  "\<not> fst (end_query 1 (run_guard [OpForceEnd, OpTryStart, OpTryStart] (snd (try_start new_query_guard))))"
proof -
  have "try_start new_query_guard = (Some 1, snd (try_start new_query_guard))"
    by (simp add: guard_defs new_query_guard_def)
  from stale_generation_rejected [OF this, of "[OpForceEnd, OpTryStart, OpTryStart]"] show ?thesis by simp
qed

end
