(* ===== verification/Retry.thy ===== *)
theory Retry
  imports GoStrings Prelude
begin

text \<open>
  Retrying calls of a model: the classification of errors and the retry loop of
  \<^verbatim>\<open>src/internal/domain/chat/agentic/retry.go\<close>, the switch to the non-streaming endpoint
  (\<^verbatim>\<open>streamfallback.go\<close>) and the chain of fallback models. Errors are their messages. The provider is
  an oracle: the outcome of the \<open>k\<close>-th streaming call for a model; so is the caller's context, which
  may be cancelled during the \<open>k\<close>-th wait. Delays are not modelled: they decide nothing.
\<close>

section \<open>Classification of errors\<close>

definition is_abort_error :: "string \<Rightarrow> bool" where
  "is_abort_error msg =
     contains_any (to_lower msg) [''context canceled'', ''context deadline exceeded'', ''operation was aborted'']"

definition is_media_size_error :: "string \<Rightarrow> bool" where
  "is_media_size_error msg =
     (let l = to_lower msg
      in str_contains l ''image exceeds'' \<and> str_contains l ''maximum''
         \<or> str_contains l ''image dimensions exceed''
         \<or> str_contains l ''maximum of'' \<and> str_contains l ''pdf pages'')"

definition is_prompt_too_long :: "string \<Rightarrow> bool" where
  "is_prompt_too_long msg =
     contains_any (to_lower msg)
       [''prompt_too_long'', ''prompt is too long'', ''maximum context length'', ''context_length_exceeded'']"

definition is_transient_error :: "string \<Rightarrow> bool" where
  "is_transient_error msg =
     (contains_any msg [''429'', ''529'', ''503'', ''502'']
      \<or> contains_any (to_lower msg)
          [''rate limit'', ''overloaded'', ''timeout'', ''connection reset'', ''connection refused'', ''eof'', ''temporary''])"

definition is_overload_error :: "string \<Rightarrow> bool" where
  "is_overload_error msg = (str_contains msg ''529'' \<or> str_contains msg ''overloaded'')"

definition is_stale_connection_error :: "string \<Rightarrow> bool" where
  "is_stale_connection_error msg =
     contains_any (to_lower msg) [''econnreset'', ''connection reset'', ''epipe'', ''broken pipe'']"

definition connection_error_codes :: "string list" where
  "connection_error_codes =
     [''econnrefused'', ''econnreset'', ''etimedout'', ''enetunreach'', ''ehostunreach'', ''epipe'',
      ''connection refused'', ''connection reset'', ''broken pipe'', ''no such host'']"

definition is_connection_error :: "string \<Rightarrow> bool" where
  "is_connection_error msg = contains_any (to_lower msg) connection_error_codes"

datatype error_type = ErrorUnknown | ErrorRateLimit | ErrorOverload | ErrorTimeout

definition classify_transient_error :: "string \<Rightarrow> error_type" where
  "classify_transient_error err =
     (let msg = to_lower err
      in if contains_any msg [''429'', ''529'', ''rate limit''] then ErrorRateLimit
         else if contains_any msg [''502'', ''503'', ''overloaded''] then ErrorOverload
         else if contains_any msg [''timeout'', ''connection reset'', ''connection refused'', ''eof''] then ErrorTimeout
         else ErrorUnknown)"

datatype api_error_class =
  ClassRateLimit | ClassServerOverload | ClassConnection | ClassStaleConnection | ClassTimeout | ClassAuth
| ClassPromptTooLong | ClassMediaSize | ClassAborted | ClassServerError | ClassUnknown

definition classify_api_error :: "string \<Rightarrow> api_error_class" where
  "classify_api_error err =
     (let msg = to_lower err
      in if is_abort_error err then ClassAborted
         else if is_prompt_too_long err then ClassPromptTooLong
         else if is_media_size_error err then ClassMediaSize
         else if str_contains msg ''timeout'' then ClassTimeout
         else if is_stale_connection_error err then ClassStaleConnection
         else if is_connection_error err then ClassConnection
         else if contains_any msg [''429'', ''rate limit''] then ClassRateLimit
         else if is_overload_error err then ClassServerOverload
         else if contains_any msg [''401'', ''403'', ''authentication'', ''unauthorized'', ''invalid api key''] then ClassAuth
         else if contains_any msg [''500'', ''502'', ''503''] then ClassServerError
         else ClassUnknown)"

section \<open>The retry loop\<close>

datatype query_source = SourceMainLoop | SourceCompact | SourceSubtask | SourceMemoryEval | SourceBudgetNudge
| SourceOther string

fun is_foreground_source :: "query_source \<Rightarrow> bool" where
  "is_foreground_source SourceMainLoop = True"
| "is_foreground_source SourceSubtask = True"
| "is_foreground_source SourceBudgetNudge = True"
| "is_foreground_source _ = False"

text \<open>
  \<open>stream k m\<close> is the outcome of the \<open>k\<close>-th streaming call (from zero) when it asks for model \<open>m\<close>;
  \<open>chat k m\<close> the outcome of the non-streaming call made after \<open>k\<close> streaming calls, with the model that
  served it; \<open>cancelled k\<close> the error of the context if it ends during the wait after call \<open>k\<close>.
\<close>

record 's provider =
  pv_stream :: "nat \<Rightarrow> string \<Rightarrow> string + 's"
  pv_chat :: "nat \<Rightarrow> string \<Rightarrow> string + ('s \<times> string)"
  pv_cancelled :: "nat \<Rightarrow> string option"

definition gave_up_529 :: "nat \<Rightarrow> string \<Rightarrow> string" where
  "gave_up_529 n err =
     ''service overloaded after '' @ itoa (int n) @ '' consecutive 529 errors: '' @ err"

definition all_attempts_failed :: "int \<Rightarrow> string \<Rightarrow> string" where
  "all_attempts_failed n err = ''all '' @ itoa n @ '' attempts failed: '' @ err"

definition max_529_retries :: nat where
  "max_529_retries = 3"

text \<open>Errors that end the loop at once, whatever the source.\<close>

definition is_fatal_error :: "string \<Rightarrow> bool" where
  "is_fatal_error err =
     (is_abort_error err \<or> is_media_size_error err \<or> is_prompt_too_long err \<or> \<not> is_transient_error err)"

text \<open>
  The loop: attempts left, consecutive overloads so far, calls made so far. The result comes with the
  number of calls made in the end.
\<close>

fun retry_loop ::
  "'s provider \<Rightarrow> string \<Rightarrow> query_source \<Rightarrow> int \<Rightarrow> nat \<Rightarrow> nat \<Rightarrow> nat \<Rightarrow> (string + 's) \<times> nat" where
  "retry_loop pv model source m 0 consecutive k = (Inl (all_attempts_failed m []), k)"
| "retry_loop pv model source m (Suc left) consecutive k =
     (case pv_stream pv k model of
        Inr s \<Rightarrow> (Inr s, Suc k)
      | Inl err \<Rightarrow>
          if is_fatal_error err then (Inl err, Suc k)
          else
            let c = (if is_overload_error err then Suc consecutive else 0)
            in if is_overload_error err \<and> max_529_retries \<le> c then (Inl (gave_up_529 c err), Suc k)
               else if is_overload_error err \<and> \<not> is_foreground_source source then (Inl err, Suc k)
               else if left = 0 then (Inl (all_attempts_failed m err), Suc k)
               else (case pv_cancelled pv k of
                       Some e \<Rightarrow> (Inl e, Suc k)
                     | None \<Rightarrow> retry_loop pv model source m left c (Suc k)))"

definition retry_stream ::
  "'s provider \<Rightarrow> string \<Rightarrow> int \<Rightarrow> query_source \<Rightarrow> nat \<Rightarrow> (string + 's) \<times> nat" where
  "retry_stream pv model max_attempts source k =
     (if max_attempts \<le> 1 then (pv_stream pv k model, Suc k)
      else retry_loop pv model source max_attempts (nat max_attempts) 0 k)"

section \<open>Non-streaming recovery and fallback models\<close>

definition is_streaming_fallback_eligible :: "string \<Rightarrow> bool" where
  "is_streaming_fallback_eligible err =
     (str_contains err ''404'' \<or> is_stale_connection_error err \<or> is_overload_error err)"

definition both_failed :: "string \<Rightarrow> string \<Rightarrow> string" where
  "both_failed stream_err chat_err =
     ''streaming and non-streaming both failed: streaming='' @ stream_err @ '', non-streaming='' @ chat_err"

text \<open>None: not attempted, the streaming error stands.\<close>

definition retry_non_streaming ::
  "'s provider \<Rightarrow> string \<Rightarrow> bool \<Rightarrow> nat \<Rightarrow> string \<Rightarrow> (string + ('s \<times> string)) option" where
  "retry_non_streaming pv model enabled k err =
     (if \<not> enabled \<or> is_prompt_too_long err \<or> is_abort_error err \<or> is_media_size_error err
         \<or> \<not> is_streaming_fallback_eligible err then None
      else Some (case pv_chat pv k model of
                   Inl chat_err \<Rightarrow> Inl (both_failed err chat_err)
                 | Inr r \<Rightarrow> Inr r))"

record fallback_step =
  fs_model :: string
  fs_max_retries :: int

record fallback_config =
  fc_retry_max_attempts :: int
  fc_chain :: "fallback_step list"
  fc_models :: "string list"
  fc_on_rate_limit :: "bool option"
  fc_on_overload :: "bool option"
  fc_on_timeout :: "bool option"

definition enabled_by_default :: "bool option \<Rightarrow> bool" where
  "enabled_by_default b = (case b of None \<Rightarrow> True | Some v \<Rightarrow> v)"

definition effective_fallback_steps :: "fallback_config \<Rightarrow> fallback_step list" where
  "effective_fallback_steps c =
     (if fc_chain c \<noteq> [] then fc_chain c
      else map (\<lambda>m. \<lparr>fs_model = m, fs_max_retries = 1\<rparr>)
             (filter (\<lambda>m. m \<noteq> []) (map trim_space (fc_models c))))"

definition fallback_attempts :: "fallback_step \<Rightarrow> int" where
  "fallback_attempts s = (if 0 < fs_max_retries s then fs_max_retries s else 1)"

definition should_fallback :: "string \<Rightarrow> fallback_config \<Rightarrow> bool" where
  "should_fallback err c =
     (case classify_transient_error err of
        ErrorRateLimit \<Rightarrow> enabled_by_default (fc_on_rate_limit c)
      | ErrorOverload \<Rightarrow> enabled_by_default (fc_on_overload c)
      | ErrorTimeout \<Rightarrow> enabled_by_default (fc_on_timeout c)
      | ErrorUnknown \<Rightarrow> False)"

record 's fallback_result =
  fr_stream :: 's
  fr_model_used :: string
  fr_was_fallback :: bool
  fr_used_non_streaming :: bool

text \<open>The chain of fallbacks, with the notifications of the callback (from, to).\<close>

fun try_fallbacks ::
  "'s provider \<Rightarrow> string \<Rightarrow> query_source \<Rightarrow> fallback_step list \<Rightarrow> nat
   \<Rightarrow> 's fallback_result option \<times> (string \<times> string) list \<times> nat" where
  "try_fallbacks pv primary source [] k = (None, [], k)"
| "try_fallbacks pv primary source (s # steps) k =
     (case retry_stream pv (fs_model s) (fallback_attempts s) source k of
        (Inr st, k') \<Rightarrow>
          (Some \<lparr>fr_stream = st, fr_model_used = fs_model s, fr_was_fallback = True, fr_used_non_streaming = False\<rparr>,
           [(primary, fs_model s)], k')
      | (Inl _, k') \<Rightarrow>
          (case try_fallbacks pv primary source steps k' of
             (res, notes, k'') \<Rightarrow> (res, (primary, fs_model s) # notes, k'')))"

definition all_models_failed :: "string \<Rightarrow> string list \<Rightarrow> string \<Rightarrow> string" where
  "all_models_failed primary names err =
     ''all models failed (primary: '' @ primary @ '', fallbacks: ['' @ join_with '' '' names @ '']): '' @ err"

definition retry_stream_with_fallback ::
  "'s provider \<Rightarrow> string \<Rightarrow> fallback_config \<Rightarrow> query_source
   \<Rightarrow> (string + 's fallback_result) \<times> (string \<times> string) list \<times> nat" where
  "retry_stream_with_fallback pv model c source =
     (case retry_stream pv model (fc_retry_max_attempts c) source 0 of
        (Inr s, k) \<Rightarrow>
          (Inr \<lparr>fr_stream = s, fr_model_used = model, fr_was_fallback = False, fr_used_non_streaming = False\<rparr>, [], k)
      | (Inl err, k) \<Rightarrow>
          let recovered = retry_non_streaming pv model True k err;
              steps = effective_fallback_steps c
          in case recovered of
               Some (Inr (s, served)) \<Rightarrow>
                 (Inr \<lparr>fr_stream = s, fr_model_used = (if served \<noteq> [] then served else model),
                       fr_was_fallback = False, fr_used_non_streaming = True\<rparr>, [], k)
             | _ \<Rightarrow>
                 if steps = [] then
                   (Inl (case recovered of Some (Inl e) \<Rightarrow> e | _ \<Rightarrow> err), [], k)
                 else if \<not> should_fallback err c then (Inl err, [], k)
                 else (case try_fallbacks pv model source steps k of
                         (Some r, notes, k') \<Rightarrow> (Inr r, notes, k')
                       | (None, notes, k') \<Rightarrow>
                           (Inl (all_models_failed model (map fs_model steps) err), notes, k')))"

section \<open>Token limits\<close>

text \<open>
  The counts are those the regular expressions extract from the message; zero when they do not match.
\<close>

definition adjusted_max_tokens :: "int \<Rightarrow> int \<Rightarrow> int" where
  "adjusted_max_tokens input limit =
     (if input = 0 \<or> limit = 0 then 0
      else let adjusted = limit - input - 1000 in if adjusted < 3000 then 3000 else adjusted)"

definition prompt_too_long_gap :: "int \<Rightarrow> int \<Rightarrow> int" where
  "prompt_too_long_gap actual limit =
     (if actual = 0 \<or> limit = 0 then 0
      else let gap = actual - limit in if 0 < gap then gap else 0)"

text \<open>None is the decision not to fall back; otherwise the model and the reason.\<close>

definition evaluate_model_fallback ::
  "int \<Rightarrow> int \<Rightarrow> string \<Rightarrow> string list \<Rightarrow> (string \<times> string) option" where
  "evaluate_model_fallback consecutive m primary models =
     (if consecutive < m \<or> models = [] then None
      else Some (hd models, ''exceeded '' @ itoa m @ '' consecutive 529 errors on '' @ primary))"

section \<open>Classes of errors and the retry policy\<close>

lemma str_contains_to_lower: "str_contains s p \<Longrightarrow> str_contains (to_lower s) (to_lower p)"
  unfolding str_contains_iff by (metis to_lower_append)

lemma overload_contains:
  "is_overload_error err \<Longrightarrow> str_contains err ''529'' \<or> str_contains (to_lower err) ''overloaded''"
  using str_contains_to_lower [of err "''overloaded''"]
  by (auto simp: is_overload_error_def to_lower_def lower_char_def char_between_def)

lemma overload_transient: "is_overload_error err \<Longrightarrow> is_transient_error err"
  using overload_contains [of err] by (auto simp: is_transient_error_def contains_any_def)

lemma lower_char_range: "lower_char c = c \<or> 97 \<le> (of_char (lower_char c) :: nat)"
proof (cases "char_between CHR ''A'' c CHR ''Z''")
  case True
  then have "65 \<le> (of_char c :: nat)" "(of_char c :: nat) \<le> 90" by (auto simp: char_between_def)
  then have "(of_char (char_of ((of_char c :: nat) + 32)) :: nat) = of_char c + 32" by simp
  with True \<open>65 \<le> (of_char c :: nat)\<close> show ?thesis by (simp add: lower_char_def)
qed (simp add: lower_char_def)

lemma str_contains_lower_low:
  assumes "str_contains (to_lower s) p" "\<forall>c \<in> set p. (of_char c :: nat) < 97"
  shows "str_contains s p"
proof -
  obtain l r where "map lower_char s = l @ p @ r"
    using assms(1) by (auto simp: str_contains_iff to_lower_def)
  then obtain l' p' r' where s: "s = l' @ p' @ r'" and p: "map lower_char p' = p"
    by (metis map_eq_append_conv)
  have "map lower_char p' = map id p'"
  proof (intro map_cong refl)
    fix c assume "c \<in> set p'"
    with p have "lower_char c \<in> set p" by auto
    with assms(2) lower_char_range [of c] show "lower_char c = id c" by fastforce
  qed
  with p have "p' = p" by simp
  with s show ?thesis by (auto simp: str_contains_iff)
qed

text \<open>
  The classes of \<^verbatim>\<open>classifyAPIError\<close> and the retry policy agree: aborted, prompt length and
  media size errors end the loop at once, timeouts, rate limits and overloads never do; authentication
  and unknown errors end it unless the message names a transient status or pattern.
\<close>

theorem error_classes_agree_with_policy:
  "(classify_api_error err \<in> {ClassAborted, ClassPromptTooLong, ClassMediaSize} \<longrightarrow> is_fatal_error err)
   \<and> (classify_api_error err \<in> {ClassTimeout, ClassRateLimit, ClassServerOverload} \<longrightarrow> \<not> is_fatal_error err)
   \<and> (classify_api_error err \<in> {ClassAuth, ClassUnknown, ClassServerError} \<longrightarrow>
        \<not> is_overload_error err \<and> (is_fatal_error err \<longleftrightarrow> \<not> is_transient_error err))"
proof (intro conjI impI)
  assume "classify_api_error err \<in> {ClassAborted, ClassPromptTooLong, ClassMediaSize}"
  then show "is_fatal_error err"
    by (auto simp: classify_api_error_def is_fatal_error_def Let_def split: if_splits)
next
  assume c: "classify_api_error err \<in> {ClassTimeout, ClassRateLimit, ClassServerOverload}"
  then have "\<not> is_abort_error err" "\<not> is_prompt_too_long err" "\<not> is_media_size_error err"
    by (auto simp: classify_api_error_def Let_def split: if_splits)
  moreover have "str_contains (to_lower err) ''timeout'' \<or> str_contains (to_lower err) ''429''
      \<or> str_contains (to_lower err) ''rate limit'' \<or> is_overload_error err"
    using c by (auto simp: classify_api_error_def contains_any_def Let_def split: if_splits)
  then have "is_transient_error err"
    using overload_transient [of err] str_contains_lower_low [of err "''429''"]
    by (auto simp: is_transient_error_def contains_any_def)
  ultimately show "\<not> is_fatal_error err" by (simp add: is_fatal_error_def)
next
  assume c: "classify_api_error err \<in> {ClassAuth, ClassUnknown, ClassServerError}"
  then show "\<not> is_overload_error err"
    by (auto simp: classify_api_error_def Let_def split: if_splits)
  show "is_fatal_error err \<longleftrightarrow> \<not> is_transient_error err"
    using c by (auto simp: classify_api_error_def is_fatal_error_def Let_def split: if_splits)
qed

lemma error_classes_agree_with_policy_witness:
  "classify_api_error ''HTTP 429'' = ClassRateLimit \<and> \<not> is_fatal_error ''HTTP 429''"
proof -
  have "classify_api_error ''HTTP 429'' = ClassRateLimit" by code_simp
  with error_classes_agree_with_policy [of "''HTTP 429''"] show ?thesis by simp
qed

section \<open>What the loop guarantees\<close>

text \<open>The errors of the calls from \<open>k\<close> to \<open>n\<close>, where all of them failed.\<close>

definition stream_error :: "'s provider \<Rightarrow> string \<Rightarrow> nat \<Rightarrow> string" where
  "stream_error pv model k = (case pv_stream pv k model of Inl e \<Rightarrow> e | Inr _ \<Rightarrow> [])"

definition retryable_at :: "'s provider \<Rightarrow> string \<Rightarrow> query_source \<Rightarrow> nat \<Rightarrow> bool" where
  "retryable_at pv model source k =
     (case pv_stream pv k model of
        Inr _ \<Rightarrow> False
      | Inl e \<Rightarrow> \<not> is_fatal_error e \<and> (is_overload_error e \<longrightarrow> is_foreground_source source)
                 \<and> pv_cancelled pv k = None)"

definition overload_at :: "'s provider \<Rightarrow> string \<Rightarrow> nat \<Rightarrow> bool" where
  "overload_at pv model k = (case pv_stream pv k model of Inr _ \<Rightarrow> False | Inl e \<Rightarrow> is_overload_error e)"

text \<open>Call \<open>i\<close> failed, and the code may call again after it.\<close>

definition may_retry :: "'s provider \<Rightarrow> string \<Rightarrow> query_source \<Rightarrow> nat \<Rightarrow> nat \<Rightarrow> nat \<Rightarrow> bool" where
  "may_retry pv model source c k i =
     (retryable_at pv model source i
      \<and> (overload_at pv model i \<longrightarrow> streak (overload_at pv model) c [k..<Suc i] < max_529_retries))"

lemma may_retry_step:
  "k < i \<Longrightarrow> may_retry pv model source c k i
     = may_retry pv model source (if overload_at pv model k then Suc c else 0) (Suc k) i"
  by (simp add: may_retry_def upt_conv_Cons del: upt_Suc)

lemma may_retry_now:
  assumes "pv_stream pv k model = Inl err"
  shows "may_retry pv model source c k k \<longleftrightarrow>
    \<not> is_fatal_error err \<and> (is_overload_error err \<longrightarrow> is_foreground_source source \<and> Suc c < max_529_retries)
    \<and> pv_cancelled pv k = None"
  using assms by (auto simp: may_retry_def retryable_at_def overload_at_def)

lemma retry_loop_spec:
  "0 < left \<Longrightarrow> \<exists>n. snd (retry_loop pv model source m left c k) = Suc n \<and> stops_at (may_retry pv model source c k) k left n
     \<and> (\<forall>s. fst (retry_loop pv model source m left c k) = Inr s \<longleftrightarrow> pv_stream pv n model = Inr s)"
proof (induction pv model source m left c k rule: retry_loop.induct)
  case (1 pv model source m consecutive k)
  then show ?case by simp
next
  case (2 pv model source m left c k)
  let ?r = "retry_loop pv model source m (Suc left) c k"
  have stop: ?case if "snd ?r = Suc k" "\<And>s. fst ?r = Inr s \<longleftrightarrow> pv_stream pv k model = Inr s"
    "\<not> may_retry pv model source c k k \<or> left = 0"
    using that stops_at_now [of "Suc left" "may_retry pv model source c k" k] by (intro exI [of _ k]) (simp del: retry_loop.simps)
  show ?case
  proof (cases "pv_stream pv k model")
    case (Inr s)
    then show ?thesis by (intro stop) (auto simp: may_retry_def retryable_at_def)
  next
    case (Inl err)
    let ?c = "if is_overload_error err then Suc c else 0"
    have ov: "overload_at pv model k = is_overload_error err" using Inl by (simp add: overload_at_def)
    show ?thesis
    proof (cases "may_retry pv model source c k k \<and> left \<noteq> 0")
      case True
      then have go: "\<not> is_fatal_error err" "\<not> (is_overload_error err \<and> max_529_retries \<le> ?c)"
        "\<not> (is_overload_error err \<and> \<not> is_foreground_source source)" "left \<noteq> 0" "pv_cancelled pv k = None"
        by (auto simp: may_retry_now [OF Inl])
      then have step: "?r = retry_loop pv model source m left ?c (Suc k)"
        using Inl by (auto simp: Let_def)
      from "2.IH" [OF Inl go(1) refl go(2-5)] go(4)
      obtain n where n: "snd ?r = Suc n" "stops_at (may_retry pv model source ?c (Suc k)) (Suc k) left n"
        "\<forall>s. fst ?r = Inr s \<longleftrightarrow> pv_stream pv n model = Inr s"
        unfolding step by blast
      with True ov stops_at_later [of "may_retry pv model source c k" k _ left n] may_retry_step [of k _ pv model source c]
      show ?thesis by auto
    next
      case False
      then have "snd ?r = Suc k" "\<And>s. fst ?r \<noteq> Inr s"
        using Inl by (auto simp: Let_def may_retry_now [OF Inl] split: option.splits)
      with False Inl show ?thesis by (intro stop) (auto simp del: retry_loop.simps)
    qed
  qed
qed

lemma retry_stream_spec:
  "\<exists>n. snd (retry_stream pv model m source k) = Suc n
     \<and> stops_at (may_retry pv model source 0 k) k (max 1 (nat m)) n
     \<and> (\<forall>s. fst (retry_stream pv model m source k) = Inr s \<longleftrightarrow> pv_stream pv n model = Inr s)"
proof (cases "m \<le> 1")
  case True
  then have "max 1 (nat m) = 1" by simp
  with True stops_at_now [of 1 "may_retry pv model source 0 k" k] show ?thesis
    by (intro exI [of _ k]) (simp add: retry_stream_def)
next
  case False
  then show ?thesis using retry_loop_spec [of "nat m" pv model source m 0 k]
    by (auto simp: retry_stream_def max_def)
qed

text \<open>
  C36: \<^verbatim>\<open>retryStream\<close> calls the model at least once and at most max 1 \<open>maxAttempts\<close> times. It calls again after a failure exactly
  if attempts are left, the error is transient and neither an abort, a media size nor a prompt length error, the context is not
  done, and, where the error is an overload (529), the source is a foreground one and this overload is not the third in a row. It
  succeeds exactly if its last call does, with the stream of that call.
\<close>

theorem retry_stream_exact:
  "\<exists>!n. snd (retry_stream pv model m source 0) = Suc n \<and> n < max 1 (nat m)
     \<and> (\<forall>i<n. may_retry pv model source 0 0 i)
     \<and> (may_retry pv model source 0 0 n \<longrightarrow> Suc n = max 1 (nat m))
     \<and> (\<forall>s. fst (retry_stream pv model m source 0) = Inr s \<longleftrightarrow> pv_stream pv n model = Inr s)"
  using retry_stream_spec [of pv model m source 0] unfolding stops_at_def
  by (intro ex_ex1I) auto

text \<open>A provider that is overloaded for its first call and serves the others.\<close>

definition flaky_provider :: "nat provider" where
  "flaky_provider = \<lparr>pv_stream = (\<lambda>k m. if k = 0 then Inl ''HTTP 529'' else Inr k),
     pv_chat = (\<lambda>k m. Inl ''down''), pv_cancelled = (\<lambda>k. None)\<rparr>"

lemma retry_stream_exact_witness:
  "retry_stream flaky_provider ''m'' 3 SourceMainLoop 0 = (Inr 1, 2)
   \<and> may_retry flaky_provider ''m'' SourceMainLoop 0 0 0"
proof -
  have "retry_stream flaky_provider ''m'' 3 SourceMainLoop 0 = (Inr 1, 2)" by code_simp
  with retry_stream_exact [of flaky_provider "''m''" 3 SourceMainLoop] show ?thesis by auto
qed

section \<open>What the fallback chain guarantees\<close>

text \<open>The calls made by the steps: each step starts at the call where the previous one stopped.\<close>

fun steps_start :: "'s provider \<Rightarrow> query_source \<Rightarrow> fallback_step list \<Rightarrow> nat \<Rightarrow> nat" where
  "steps_start pv source [] k = k"
| "steps_start pv source (s # steps) k =
     steps_start pv source steps (snd (retry_stream pv (fs_model s) (fallback_attempts s) source k))"

definition step_outcome :: "'s provider \<Rightarrow> query_source \<Rightarrow> fallback_step list \<Rightarrow> nat \<Rightarrow> nat \<Rightarrow> string + 's" where
  "step_outcome pv source steps k i =
     fst (retry_stream pv (fs_model (steps ! i)) (fallback_attempts (steps ! i)) source
            (steps_start pv source (take i steps) k))"

lemma step_outcome_0: "step_outcome pv source (s # steps) k 0
    = fst (retry_stream pv (fs_model s) (fallback_attempts s) source k)"
  by (simp add: step_outcome_def)

lemma step_outcome_Suc: "step_outcome pv source (s # steps) k (Suc i)
    = step_outcome pv source steps (snd (retry_stream pv (fs_model s) (fallback_attempts s) source k)) i"
  by (simp add: step_outcome_def)

lemma try_fallbacks_spec:
  "case try_fallbacks pv primary source steps k of
     (None, notes, k') \<Rightarrow> notes = map (\<lambda>s. (primary, fs_model s)) steps
       \<and> (\<forall>i<length steps. \<exists>e. step_outcome pv source steps k i = Inl e)
   | (Some r, notes, k') \<Rightarrow> \<exists>i<length steps. fr_model_used r = fs_model (steps ! i)
       \<and> fr_was_fallback r \<and> \<not> fr_used_non_streaming r
       \<and> (\<forall>j<i. \<exists>e. step_outcome pv source steps k j = Inl e)
       \<and> step_outcome pv source steps k i = Inr (fr_stream r)
       \<and> notes = map (\<lambda>s. (primary, fs_model s)) (take (Suc i) steps)"
proof (induction steps arbitrary: k)
  case (Cons s steps)
  obtain o1 k' where now: "retry_stream pv (fs_model s) (fallback_attempts s) source k = (o1, k')"
    by fastforce
  show ?case
  proof (cases o1)
    case (Inr st)
    with now show ?thesis by (auto simp: step_outcome_0 intro!: exI [of _ 0])
  next
    case (Inl e)
    obtain res nts k'' where rest: "try_fallbacks pv primary source steps k' = (res, nts, k'')"
      by (metis prod.exhaust)
    show ?thesis
    proof (cases res)
      case None
      with Cons [of k'] now Inl rest show ?thesis
        by (simp add: All_less_Suc2 step_outcome_0 step_outcome_Suc)
    next
      case (Some r)
      with Cons [of k'] rest obtain i where i: "i < length steps" "fr_model_used r = fs_model (steps ! i)"
        "fr_was_fallback r" "\<not> fr_used_non_streaming r" "\<forall>j<i. \<exists>e. step_outcome pv source steps k' j = Inl e"
        "step_outcome pv source steps k' i = Inr (fr_stream r)"
        "nts = map (\<lambda>s. (primary, fs_model s)) (take (Suc i) steps)"
        by auto
      then show ?thesis using now Inl rest Some
        by (simp, intro exI [of _ "Suc i"]) (simp add: All_less_Suc2 step_outcome_0 step_outcome_Suc)
    qed
  qed
qed simp

text \<open>
  \<^verbatim>\<open>retryStreamWithFallback\<close> leaves the primary model only after its streaming calls failed. A fallback
  model serves the request only if the error is of an enabled kind, the non-streaming call did not
  recover, and all fallbacks before it failed with their own attempts; the callback has then been told of
  exactly the fallbacks up to that one, in order. Otherwise no fallback is announced or the error names
  the failure of all models.
\<close>

theorem fallback_chain_order:
  fixes pv model c source
  defines "first \<equiv> retry_stream pv model (fc_retry_max_attempts c) source 0"
  defines "steps \<equiv> effective_fallback_steps c"
  shows "case retry_stream_with_fallback pv model c source of
     (Inr r, notes, k) \<Rightarrow>
       (if \<not> fr_was_fallback r then notes = [] \<and> fr_used_non_streaming r = (\<exists>e. fst first = Inl e)
        else \<exists>err i. fst first = Inl err \<and> i < length steps
               \<and> (\<forall>q. retry_non_streaming pv model True (snd first) err \<noteq> Some (Inr q))
               \<and> should_fallback err c \<and> fr_model_used r = fs_model (steps ! i)
               \<and> (\<forall>j<i. \<exists>e. step_outcome pv source steps (snd first) j = Inl e)
               \<and> step_outcome pv source steps (snd first) i = Inr (fr_stream r)
               \<and> notes = map (\<lambda>s. (model, fs_model s)) (take (Suc i) steps))
   | (Inl msg, notes, k) \<Rightarrow>
       (\<exists>err. fst first = Inl err
          \<and> (if steps \<noteq> [] \<and> should_fallback err c
             then msg = all_models_failed model (map fs_model steps) err
               \<and> notes = map (\<lambda>s. (model, fs_model s)) steps
               \<and> (\<forall>i<length steps. \<exists>e. step_outcome pv source steps (snd first) i = Inl e)
             else notes = []))"
proof -
  obtain o1 k where first: "first = (o1, k)" by fastforce
  note unf = retry_stream_with_fallback_def first_def [symmetric] steps_def [symmetric] first
  show ?thesis
  proof (cases o1)
    case (Inr s)
    with first show ?thesis by (simp add: unf)
  next
    case (Inl err)
    show ?thesis
    proof (cases "\<exists>q. retry_non_streaming pv model True k err = Some (Inr q)")
      case True
      then obtain s served where "retry_non_streaming pv model True k err = Some (Inr (s, served))" by auto
      with Inl first show ?thesis by (simp add: unf)
    next
      case False
      then have failed: "\<forall>q. retry_non_streaming pv model True k err \<noteq> Some (Inr q)" by blast
      then have whole: "retry_stream_with_fallback pv model c source =
          (if steps = [] then (Inl (case retry_non_streaming pv model True k err of Some (Inl e) \<Rightarrow> e | _ \<Rightarrow> err), [], k)
           else if \<not> should_fallback err c then (Inl err, [], k)
           else (case try_fallbacks pv model source steps k of
                   (Some r, nts, k') \<Rightarrow> (Inr r, nts, k')
                 | (None, nts, k') \<Rightarrow> (Inl (all_models_failed model (map fs_model steps) err), nts, k')))"
        using Inl by (cases "retry_non_streaming pv model True k err")
          (auto simp: unf Let_def split: sum.splits prod.splits)
      show ?thesis
      proof (cases "steps \<noteq> [] \<and> should_fallback err c")
        case True
        obtain res nts k' where chain: "try_fallbacks pv model source steps k = (res, nts, k')"
          by (metis prod.exhaust)
        with True whole try_fallbacks_spec [where pv = pv and primary = model and source = source and steps = steps and k = k] Inl first failed show ?thesis
          by (cases res) auto
      next
        case False
        with whole Inl first show ?thesis by auto
      qed
    qed
  qed
qed

lemma fallback_chain_order_witness:
  "\<exists>r nts k. retry_stream_with_fallback flaky_provider ''m''
      \<lparr>fc_retry_max_attempts = 1, fc_chain = [\<lparr>fs_model = ''f'', fs_max_retries = 1\<rparr>], fc_models = [],
       fc_on_rate_limit = None, fc_on_overload = None, fc_on_timeout = None\<rparr> SourceMainLoop = (Inr r, nts, k)
     \<and> fr_was_fallback r \<and> nts = [(''m'', ''f'')]"
proof -
  let ?c = "\<lparr>fc_retry_max_attempts = 1, fc_chain = [\<lparr>fs_model = ''f'', fs_max_retries = 1\<rparr>], fc_models = [],
       fc_on_rate_limit = None, fc_on_overload = None, fc_on_timeout = None\<rparr>"
  have "retry_stream_with_fallback flaky_provider ''m'' ?c SourceMainLoop
      = (Inr \<lparr>fr_stream = 1, fr_model_used = ''f'', fr_was_fallback = True, fr_used_non_streaming = False\<rparr>, [(''m'', ''f'')], 2)"
    by code_simp
  with fallback_chain_order [of flaky_provider "''m''" ?c SourceMainLoop] show ?thesis by simp
qed

end
