(* ===== verification/RetryStrategy.thy ===== *)
theory RetryStrategy
  imports GoStrings Prelude
begin

text \<open>
  The configurable retry strategy of \<^verbatim>\<open>src/internal/domain/chat/agentic/retrystrategy.go\<close>: the
  classification of statuses, the decision to retry, the delay between attempts and the loop of
  \<^verbatim>\<open>Execute\<close> with the state it keeps. The operation is an oracle of the attempt number, so are the end
  of the caller's context and the jitter of the delays (floating point numbers are not modelled: the
  delay before the cap, in nanoseconds, is an argument).
\<close>

section \<open>Errors and decisions\<close>

datatype retry_category = CategoryForeground | CategoryBackground | CategoryPersistent

datatype retry_kind = KindRateLimit | KindOverloaded | KindAuth | KindContextOverflow | KindConnection
| KindServer | KindUnknown

record retryable_error =
  re_message :: string
  re_kind :: retry_kind
  re_status :: int
  re_retry_after :: int

text \<open>What an operation fails with: an error that wraps a retryable one, or any other.\<close>

datatype op_error = Wrapped retryable_error | Opaque string

datatype give_up = ContextCancelled | NonRetryable | NotForCategory retry_kind | CancelledInBackoff | Exhausted

record cannot_retry =
  cr_original :: "op_error option"
  cr_reason :: give_up
  cr_attempts :: nat

record strategy_config =
  sc_max_retries :: int
  sc_base_delay :: int
  sc_max_delay :: int
  sc_category :: retry_category
  sc_fast_fallback :: bool
  sc_heartbeat :: int

definition default_strategy_config :: strategy_config where
  "default_strategy_config = \<lparr>sc_max_retries = 5, sc_base_delay = 1000000000, sc_max_delay = 60 * 1000000000,
     sc_category = CategoryForeground, sc_fast_fallback = False, sc_heartbeat = 30 * 1000000000\<rparr>"

record retry_state =
  rs_attempts :: nat
  rs_consecutive529 :: nat
  rs_last_error :: "op_error option"
  rs_fast_fallback :: bool
  rs_total_delay :: int

definition new_retry_state :: "nat \<Rightarrow> retry_state" where
  "new_retry_state n = \<lparr>rs_attempts = 0, rs_consecutive529 = n, rs_last_error = None, rs_fast_fallback = False,
     rs_total_delay = 0\<rparr>"

definition classify_http_error :: "int \<Rightarrow> retry_kind" where
  "classify_http_error status =
     (if status = 401 \<or> status = 403 then KindAuth
      else if status = 429 then KindRateLimit
      else if status = 529 then KindOverloaded
      else if 500 \<le> status \<and> status < 600 then KindServer
      else KindUnknown)"

fun should_retry :: "retry_category \<Rightarrow> retry_kind \<Rightarrow> bool" where
  "should_retry cat KindAuth = False"
| "should_retry cat KindContextOverflow = False"
| "should_retry cat KindRateLimit = True"
| "should_retry cat KindOverloaded = (cat \<noteq> CategoryBackground)"
| "should_retry cat KindConnection = True"
| "should_retry cat KindServer = True"
| "should_retry cat KindUnknown = (cat = CategoryPersistent)"

definition calculate_delay :: "strategy_config \<Rightarrow> int \<Rightarrow> int \<Rightarrow> int" where
  "calculate_delay cfg raw hint =
     (let delay = (if sc_max_delay cfg < raw then sc_max_delay cfg else raw)
      in if 0 < hint \<and> delay < hint then hint else delay)"

section \<open>The loop\<close>

text \<open>
  The world of one execution: the outcome of attempt \<open>i\<close> (None is success), whether the context has
  ended when it returns, the jittered exponential delay after it, and whether the context ends during
  that wait.
\<close>

record op_world =
  ow_op :: "nat \<Rightarrow> op_error option"
  ow_done :: "nat \<Rightarrow> bool"
  ow_raw_delay :: "nat \<Rightarrow> int"
  ow_done_waiting :: "nat \<Rightarrow> bool"

text \<open>The state after a failure that is retried, before the wait.\<close>

definition note_failure :: "strategy_config \<Rightarrow> op_world \<Rightarrow> nat \<Rightarrow> retryable_error \<Rightarrow> retry_state \<Rightarrow> retry_state" where
  "note_failure cfg w i e s =
     (let n = (if re_kind e = KindOverloaded then Suc (rs_consecutive529 s) else 0)
      in s\<lparr>rs_consecutive529 := n, rs_last_error := Some (Wrapped e),
           rs_fast_fallback := (rs_fast_fallback s \<or> sc_fast_fallback cfg \<and> 3 \<le> n),
           rs_total_delay := rs_total_delay s + calculate_delay cfg (ow_raw_delay w i) (re_retry_after e)\<rparr>)"

fun execute_loop ::
  "strategy_config \<Rightarrow> op_world \<Rightarrow> nat \<Rightarrow> nat \<Rightarrow> retry_state \<Rightarrow> cannot_retry option \<times> retry_state" where
  "execute_loop cfg w 0 i s =
     (Some \<lparr>cr_original = rs_last_error s, cr_reason = Exhausted, cr_attempts = rs_attempts s\<rparr>, s)"
| "execute_loop cfg w (Suc left) i s =
     (let s = s\<lparr>rs_attempts := Suc i\<rparr>
      in case ow_op w i of
           None \<Rightarrow> (None, s\<lparr>rs_consecutive529 := 0, rs_last_error := None\<rparr>)
         | Some err \<Rightarrow>
             let stop = (\<lambda>reason s. (Some \<lparr>cr_original = Some err, cr_reason = reason, cr_attempts = Suc i\<rparr>, s))
             in if ow_done w i then stop ContextCancelled s
                else (case err of
                        Opaque _ \<Rightarrow> stop NonRetryable s
                      | Wrapped e \<Rightarrow>
                          if \<not> should_retry (sc_category cfg) (re_kind e) then stop (NotForCategory (re_kind e)) s
                          else let s = note_failure cfg w i e s
                               in if ow_done_waiting w i then stop CancelledInBackoff s
                                  else execute_loop cfg w left (Suc i) s))"

definition max_attempts :: "strategy_config \<Rightarrow> nat" where
  "max_attempts cfg = (if sc_category cfg = CategoryPersistent then 2147483647 else nat (sc_max_retries cfg + 1))"

definition strategy_execute :: "strategy_config \<Rightarrow> op_world \<Rightarrow> retry_state \<Rightarrow> cannot_retry option \<times> retry_state" where
  "strategy_execute cfg w s = execute_loop cfg w (max_attempts cfg) 0 s"

section \<open>What an execution guarantees\<close>

text \<open>The failure of attempt \<open>i\<close> is one the category retries; it is then retried unless the wait is cut.\<close>

definition noted :: "strategy_config \<Rightarrow> op_world \<Rightarrow> nat \<Rightarrow> bool" where
  "noted cfg w i =
     (case ow_op w i of
        Some (Wrapped e) \<Rightarrow> \<not> ow_done w i \<and> should_retry (sc_category cfg) (re_kind e)
      | _ \<Rightarrow> False)"

definition retried_after :: "strategy_config \<Rightarrow> op_world \<Rightarrow> nat \<Rightarrow> bool" where
  "retried_after cfg w i = (noted cfg w i \<and> \<not> ow_done_waiting w i)"

definition overloaded_at :: "op_world \<Rightarrow> nat \<Rightarrow> bool" where
  "overloaded_at w i = (case ow_op w i of Some (Wrapped e) \<Rightarrow> re_kind e = KindOverloaded | _ \<Rightarrow> False)"

definition delay_after :: "strategy_config \<Rightarrow> op_world \<Rightarrow> nat \<Rightarrow> int" where
  "delay_after cfg w i =
     (case ow_op w i of
        Some (Wrapped e) \<Rightarrow> calculate_delay cfg (ow_raw_delay w i) (re_retry_after e)
      | _ \<Rightarrow> 0)"

text \<open>Why an execution whose last attempt \<open>n\<close> failed gives up.\<close>

definition reason_at :: "strategy_config \<Rightarrow> op_world \<Rightarrow> nat \<Rightarrow> give_up" where
  "reason_at cfg w n =
     (if ow_done w n then ContextCancelled
      else case ow_op w n of
             Some (Wrapped e) \<Rightarrow>
               if \<not> should_retry (sc_category cfg) (re_kind e) then NotForCategory (re_kind e)
               else if ow_done_waiting w n then CancelledInBackoff else Exhausted
           | _ \<Rightarrow> NonRetryable)"

text \<open>The attempts from \<open>k\<close> to \<open>n\<close> whose failure was noted.\<close>

definition noted_upto :: "strategy_config \<Rightarrow> op_world \<Rightarrow> nat \<Rightarrow> nat \<Rightarrow> nat list" where
  "noted_upto cfg w k n = filter (noted cfg w) [k..<Suc n]"

definition execution_ends :: "strategy_config \<Rightarrow> op_world \<Rightarrow> nat \<Rightarrow> nat \<Rightarrow> retry_state
    \<Rightarrow> cannot_retry option \<times> retry_state \<Rightarrow> bool" where
  "execution_ends cfg w k n s r \<longleftrightarrow>
     fst r = (if ow_op w n = None then None
              else Some \<lparr>cr_original = ow_op w n, cr_reason = reason_at cfg w n, cr_attempts = Suc n\<rparr>)
     \<and> rs_attempts (snd r) = Suc n
     \<and> rs_total_delay (snd r) = rs_total_delay s + sum_list (map (delay_after cfg w) (noted_upto cfg w k n))
     \<and> rs_consecutive529 (snd r) =
         (if ow_op w n = None then 0 else streak (overloaded_at w) (rs_consecutive529 s) (noted_upto cfg w k n))
     \<and> (rs_fast_fallback (snd r) \<longleftrightarrow> rs_fast_fallback s
          \<or> sc_fast_fallback cfg
            \<and> (\<exists>j. 0 < j \<and> j \<le> length (noted_upto cfg w k n)
                  \<and> 3 \<le> streak (overloaded_at w) (rs_consecutive529 s) (take j (noted_upto cfg w k n))))"

lemma noted_upto_self: "noted_upto cfg w k k = (if noted cfg w k then [k] else [])"
  by (simp add: noted_upto_def)

lemma noted_upto_step:
  "k < n \<Longrightarrow> noted_upto cfg w k n
     = (if noted cfg w k then [k] else []) @ noted_upto cfg w (Suc k) n"
  by (simp add: noted_upto_def upt_conv_Cons del: upt_Suc)

lemma ex_take_Cons:
  "(\<exists>j. 0 < j \<and> j \<le> length (x # xs) \<and> P (take j (x # xs)))
     \<longleftrightarrow> P [x] \<or> (\<exists>j. 0 < j \<and> j \<le> length xs \<and> P (x # take j xs))"
proof -
  have "(\<exists>j. 0 < j \<and> j \<le> length (x # xs) \<and> P (take j (x # xs))) \<longleftrightarrow> (\<exists>j\<le>length xs. P (x # take j xs))"
    by (metis Suc_le_mono Suc_pred length_Cons take_Suc_Cons zero_less_Suc)
  also have "\<dots> \<longleftrightarrow> P [x] \<or> (\<exists>j. 0 < j \<and> j \<le> length xs \<and> P (x # take j xs))"
    by (metis le0 neq0_conv take0)
  finally show ?thesis .
qed

lemma execution_ends_step:
  assumes "retried_after cfg w k" "k < n" "ow_op w k = Some (Wrapped e)"
    and "execution_ends cfg w (Suc k) n (note_failure cfg w k e (s\<lparr>rs_attempts := Suc k\<rparr>)) r"
  shows "execution_ends cfg w k n s r"
proof -
  have n: "noted_upto cfg w k n = k # noted_upto cfg w (Suc k) n"
    using assms(1,2) by (simp add: noted_upto_step retried_after_def)
  have st: "rs_consecutive529 (note_failure cfg w k e (s\<lparr>rs_attempts := Suc k\<rparr>))
      = (if overloaded_at w k then Suc (rs_consecutive529 s) else 0)"
    using assms(3) by (simp add: note_failure_def overloaded_at_def Let_def)
  have fb: "rs_fast_fallback (note_failure cfg w k e (s\<lparr>rs_attempts := Suc k\<rparr>)) \<longleftrightarrow> rs_fast_fallback s
      \<or> sc_fast_fallback cfg \<and> 3 \<le> streak (overloaded_at w) (rs_consecutive529 s) [k]"
    using assms(3) by (simp add: note_failure_def overloaded_at_def Let_def)
  have d: "rs_total_delay (note_failure cfg w k e (s\<lparr>rs_attempts := Suc k\<rparr>)) = rs_total_delay s + delay_after cfg w k"
    using assms(3) by (simp add: note_failure_def delay_after_def Let_def)
  show ?thesis
    using assms(4) unfolding execution_ends_def n st fb d
      ex_take_Cons [where P = "\<lambda>l. 3 \<le> streak (overloaded_at w) (rs_consecutive529 s) l"]
    by (simp, blast)
qed

lemma execution_ends_noted:
  assumes "ow_op w k = Some (Wrapped e)" "\<not> ow_done w k" "should_retry (sc_category cfg) (re_kind e)"
    and "r = (Some \<lparr>cr_original = ow_op w k, cr_reason = reason_at cfg w k, cr_attempts = Suc k\<rparr>,
              note_failure cfg w k e (s\<lparr>rs_attempts := Suc k\<rparr>))"
  shows "execution_ends cfg w k k s r"
proof -
  have n: "noted_upto cfg w k k = [k]" using assms by (simp add: noted_upto_self noted_def)
  have "(\<exists>j. 0 < j \<and> j \<le> length [k] \<and> P (take j [k])) = P [k]" for P :: "nat list \<Rightarrow> bool"
    using ex_take_Cons [of k "[]" P] by simp
  note one = this [where P = "\<lambda>l. 3 \<le> streak (overloaded_at w) (rs_consecutive529 s) l"]
  show ?thesis
    unfolding execution_ends_def n one using assms
    by (simp add: note_failure_def overloaded_at_def delay_after_def Let_def)
qed

lemma execution_ends_unnoted:
  assumes "\<not> noted cfg w k"
    and "r = (if ow_op w k = None then (None, s\<lparr>rs_attempts := Suc k, rs_consecutive529 := 0, rs_last_error := None\<rparr>)
              else (Some \<lparr>cr_original = ow_op w k, cr_reason = reason_at cfg w k, cr_attempts = Suc k\<rparr>,
                    s\<lparr>rs_attempts := Suc k\<rparr>))"
  shows "execution_ends cfg w k k s r"
  using assms by (auto simp: execution_ends_def noted_upto_self)

lemma execute_loop_spec:
  "0 < left \<Longrightarrow> \<exists>n. stops_at (retried_after cfg w) k left n
     \<and> execution_ends cfg w k n s (execute_loop cfg w left k s)"
proof (induction left arbitrary: k s)
  case (Suc left)
  show ?case
  proof (cases "retried_after cfg w k \<and> left \<noteq> 0")
    case True
    then obtain e where e: "ow_op w k = Some (Wrapped e)" "\<not> ow_done w k"
      "should_retry (sc_category cfg) (re_kind e)" "\<not> ow_done_waiting w k"
      by (auto simp: retried_after_def noted_def split: option.splits op_error.splits)
    let ?s = "note_failure cfg w k e (s\<lparr>rs_attempts := Suc k\<rparr>)"
    have step: "execute_loop cfg w (Suc left) k s = execute_loop cfg w left (Suc k) ?s"
      using e by (simp add: Let_def)
    from Suc.IH [of "Suc k" ?s] True
    obtain n where n: "stops_at (retried_after cfg w) (Suc k) left n"
      "execution_ends cfg w (Suc k) n ?s (execute_loop cfg w left (Suc k) ?s)" by auto
    with True e(1) step execution_ends_step [of cfg w k n e s] stops_at_later [of "retried_after cfg w" k _ left n]
    show ?thesis by (metis Suc_le_eq stops_at_def)
  next
    case False
    have "execution_ends cfg w k k s (execute_loop cfg w (Suc left) k s)"
    proof (cases "noted cfg w k")
      case True
      then obtain e where e: "ow_op w k = Some (Wrapped e)" "\<not> ow_done w k"
        "should_retry (sc_category cfg) (re_kind e)"
        by (auto simp: noted_def split: option.splits op_error.splits)
      show ?thesis
        by (intro execution_ends_noted [OF e])
          (use e True False in \<open>cases left; auto simp: retried_after_def reason_at_def Let_def note_failure_def\<close>)
    next
      case not: False
      show ?thesis
        by (intro execution_ends_unnoted [OF not])
          (use not in \<open>auto simp: noted_def reason_at_def Let_def split: option.splits op_error.splits\<close>)
    qed
    with False stops_at_now [of "Suc left" "retried_after cfg w" k] show ?thesis by auto
  qed
qed simp

text \<open>
  \<^verbatim>\<open>Execute\<close> attempts the operation until it succeeds, fails with an error that is not retried in
  the category, the context ends, or \<open>MaxRetries + 1\<close> attempts are made; it succeeds exactly if
  the last attempt does, otherwise the error names the reason, wraps the last error and counts the
  attempts. The state then holds the attempts, the delays applied, the streak of overloads, and the
  fast fallback flag exactly if a streak of three occurred.
\<close>

theorem strategy_execute_exact:
  assumes "0 < max_attempts cfg"
  shows "\<exists>!n. stops_at (retried_after cfg w) 0 (max_attempts cfg) n
    \<and> execution_ends cfg w 0 n s (strategy_execute cfg w s)"
  using execute_loop_spec [OF assms, of cfg w 0 s] stops_at_unique
  unfolding strategy_execute_def by blast

text \<open>An operation that is overloaded twice, then works.\<close>

definition busy_world :: op_world where
  "busy_world = \<lparr>ow_op = (\<lambda>i. if i < 2 then Some (Wrapped \<lparr>re_message = ''busy'', re_kind = KindOverloaded,
       re_status = 529, re_retry_after = 0\<rparr>) else None),
     ow_done = (\<lambda>i. False), ow_raw_delay = (\<lambda>i. 5), ow_done_waiting = (\<lambda>i. False)\<rparr>"

lemma strategy_execute_exact_witness:
  "strategy_execute default_strategy_config busy_world (new_retry_state 0)
     = (None, \<lparr>rs_attempts = 3, rs_consecutive529 = 0, rs_last_error = None, rs_fast_fallback = False, rs_total_delay = 10\<rparr>)
   \<and> stops_at (retried_after default_strategy_config busy_world) 0 6 2"
proof -
  let ?r = "strategy_execute default_strategy_config busy_world (new_retry_state 0)"
  have r: "?r = (None, \<lparr>rs_attempts = 3, rs_consecutive529 = 0, rs_last_error = None, rs_fast_fallback = False, rs_total_delay = 10\<rparr>)"
    by code_simp
  have m: "max_attempts default_strategy_config = 6" by code_simp
  obtain n where n: "stops_at (retried_after default_strategy_config busy_world) 0 6 n"
    "execution_ends default_strategy_config busy_world 0 n (new_retry_state 0) ?r"
    using strategy_execute_exact [of default_strategy_config busy_world "new_retry_state 0"] m by auto
  from n(2) r have "n = 2" by (simp add: execution_ends_def)
  with n(1) r show ?thesis by blast
qed

text \<open>
  The cap only bounds delays from above: when the exponential overflows the 64-bit nanoseconds and the
  conversion yields a negative number, the wait is over at once.
\<close>

lemma overflowed_delay_not_capped:
  "raw < 0 \<Longrightarrow> hint \<le> 0 \<Longrightarrow> 0 \<le> sc_max_delay cfg \<Longrightarrow> calculate_delay cfg raw hint = raw"
  by (simp add: calculate_delay_def)

lemma calculate_delay_bounds:
  "0 \<le> raw \<Longrightarrow> calculate_delay cfg raw hint = max (min raw (sc_max_delay cfg)) hint \<or>
     hint \<le> 0 \<and> calculate_delay cfg raw hint = min raw (sc_max_delay cfg)"
  by (auto simp: calculate_delay_def Let_def)

end
