(* ===== verification/RuleSyntax.thy ===== *)
theory RuleSyntax
  imports GoStrings
begin

text \<open>
  The two rule syntaxes of the permission layer: \<^verbatim>\<open>permruleparser.go\<close> (the persisted form
  \<open>Tool(content)\<close> with backslash escapes) and \<^verbatim>\<open>shellrulematch.go\<close> (exact, prefix and
  wildcard rules for shell commands).
\<close>

abbreviation backslash :: char where "backslash \<equiv> CHR 0x5C"

section \<open>Escaping rule contents\<close>

record permission_rule_value =
  rule_tool_name :: string
  rule_content :: string

definition legacy_tool_name_aliases :: "(string \<times> string) list" where
  "legacy_tool_name_aliases =
     [(''Task'', ''Agent''),
      (''KillShell'', ''TaskStop''),
      (''AgentOutputTool'', ''TaskOutput''),
      (''BashOutputTool'', ''TaskOutput'')]"

definition normalize_legacy_tool_name :: "string \<Rightarrow> string" where
  "normalize_legacy_tool_name name =
     (case map_of legacy_tool_name_aliases name of Some canonical \<Rightarrow> canonical | None \<Rightarrow> name)"

definition get_legacy_tool_names :: "string \<Rightarrow> string list" where
  "get_legacy_tool_names canonical_name =
     map fst (filter (\<lambda>(legacy, canonical). canonical = canonical_name) legacy_tool_name_aliases)"

definition escape_rule_content :: "string \<Rightarrow> string" where
  "escape_rule_content content =
     (let s1 = replace_all [backslash] [backslash, backslash] content;
          s2 = replace_all ''('' [backslash, CHR ''(''] s1
      in replace_all '')'' [backslash, CHR '')''] s2)"

definition unescape_rule_content :: "string \<Rightarrow> string" where
  "unescape_rule_content content =
     (let s1 = replace_all [backslash, CHR ''(''] ''('' content;
          s2 = replace_all [backslash, CHR '')''] '')'' s1
      in replace_all [backslash, backslash] [backslash] s2)"

text \<open>The number of backslashes immediately before an index, and the two searches that use it.\<close>

definition backslashes_before :: "string \<Rightarrow> nat \<Rightarrow> nat" where
  "backslashes_before s i = length (takeWhile (\<lambda>c. c = backslash) (rev (take i s)))"

definition unescaped_at :: "string \<Rightarrow> char \<Rightarrow> nat \<Rightarrow> bool" where
  "unescaped_at s c i = (s ! i = c \<and> even (backslashes_before s i))"

definition find_first_unescaped_char :: "string \<Rightarrow> char \<Rightarrow> nat option" where
  "find_first_unescaped_char s c = find (unescaped_at s c) [0..<length s]"

definition find_last_unescaped_char :: "string \<Rightarrow> char \<Rightarrow> nat option" where
  "find_last_unescaped_char s c = find (unescaped_at s c) (rev [0..<length s])"

definition tool_wide :: "string \<Rightarrow> permission_rule_value" where
  "tool_wide name = \<lparr>rule_tool_name = normalize_legacy_tool_name name, rule_content = []\<rparr>"

definition permission_rule_from_string :: "string \<Rightarrow> permission_rule_value" where
  "permission_rule_from_string rule_string =
     (case find_first_unescaped_char rule_string CHR ''('' of
        None \<Rightarrow> tool_wide rule_string
      | Some open_idx \<Rightarrow>
          (case find_last_unescaped_char rule_string CHR '')'' of
             None \<Rightarrow> tool_wide rule_string
           | Some close_idx \<Rightarrow>
               if close_idx \<le> open_idx then tool_wide rule_string
               else if close_idx \<noteq> length rule_string - 1 then tool_wide rule_string
               else
                 (let tool_name = take open_idx rule_string;
                      raw_content = drop (Suc open_idx) (take close_idx rule_string)
                  in if tool_name = [] then tool_wide rule_string
                     else if raw_content = [] \<or> raw_content = ''*'' then tool_wide tool_name
                     else \<lparr>rule_tool_name = normalize_legacy_tool_name tool_name,
                           rule_content = unescape_rule_content raw_content\<rparr>)))"

definition permission_rule_to_string :: "permission_rule_value \<Rightarrow> string" where
  "permission_rule_to_string r =
     (if rule_content r = [] then rule_tool_name r
      else rule_tool_name r @ ''('' @ escape_rule_content (rule_content r) @ '')'')"

section \<open>Escaping, character by character\<close>

lemma replace_all_char: "replace_all [a] new s = concat (map (\<lambda>c. if c = a then new else [c]) s)"
  by (induction s) auto

definition esc_char :: "char \<Rightarrow> string" where
  "esc_char c = (if c = backslash \<or> c = CHR ''('' \<or> c = CHR '')'' then [backslash, c] else [c])"

lemma escape_chars: "escape_rule_content s = concat (map esc_char s)"
  by (induction s) (auto simp: escape_rule_content_def replace_all_char esc_char_def Let_def)

lemma escape_Nil [simp]: "escape_rule_content s = [] \<longleftrightarrow> s = []"
  by (cases s) (simp_all add: escape_chars esc_char_def [of "hd s"] esc_char_def)

text \<open>What is left after each of the three passes of the unescaper.\<close>

definition esc_char_close :: "char \<Rightarrow> string" where
  "esc_char_close c = (if c = backslash \<or> c = CHR '')'' then [backslash, c] else [c])"

definition esc_char_bs :: "char \<Rightarrow> string" where
  "esc_char_bs c = (if c = backslash then [backslash, c] else [c])"

lemma unescape_pass1:
  "replace_all [backslash, CHR ''(''] ''('' (concat (map esc_char s)) = concat (map esc_char_close s)"
proof (induction s)
  case Nil
  show ?case by simp
next
  case (Cons c s)
  have "\<not> has_prefix (concat (map esc_char s)) ''(''"
    by (cases s) (auto simp: esc_char_def)
  with Cons show ?case by (auto simp: esc_char_def [of c] esc_char_close_def [of c])
qed

lemma unescape_pass2:
  "replace_all [backslash, CHR '')''] '')'' (concat (map esc_char_close s)) = concat (map esc_char_bs s)"
proof (induction s)
  case Nil
  show ?case by simp
next
  case (Cons c s)
  have "\<not> has_prefix (concat (map esc_char_close s)) '')''"
    by (cases s) (auto simp: esc_char_close_def)
  with Cons show ?case by (auto simp: esc_char_close_def [of c] esc_char_bs_def [of c])
qed

lemma unescape_pass3:
  "replace_all [backslash, backslash] [backslash] (concat (map esc_char_bs s)) = s"
  by (induction s) (auto simp: esc_char_bs_def)

lemma unescape_escape_content: "unescape_rule_content (escape_rule_content s) = s"
  by (simp add: unescape_rule_content_def escape_chars unescape_pass1 unescape_pass2 unescape_pass3)

text \<open>Unescaping undoes escaping, for every content, in spite of the three separate passes.\<close>

theorem unescape_escape:
  "unescape_rule_content (escape_rule_content s) = s
   \<and> (escape_rule_content s = escape_rule_content t \<longleftrightarrow> s = t)"
  by (metis unescape_escape_content)


section \<open>Finding the parentheses\<close>

lemma trailing_backslashes_even:
  "even (length (takeWhile (\<lambda>c. c = backslash) (rev (concat (map esc_char s)))))"
proof (induction s rule: rev_induct)
  case Nil
  show ?case by simp
next
  case (snoc c s)
  then show ?case by (auto simp: esc_char_def [of c])
qed

lemma find_append: "find P (xs @ ys) = (case find P xs of None \<Rightarrow> find P ys | Some x \<Rightarrow> Some x)"
  by (induction xs) auto

lemma find_None: "(\<forall>x \<in> set xs. \<not> P x) \<Longrightarrow> find P xs = None"
  by (induction xs) auto

lemma upt_split: "i < n \<Longrightarrow> [0..<n] = [0..<i] @ i # [Suc i..<n]"
  using upt_add_eq_append [of 0 i "n - i"] by (simp add: upt_conv_Cons)

lemma first_open_paren:
  assumes "CHR ''('' \<notin> set t" and "backslash \<notin> set t"
  shows "find_first_unescaped_char (t @ ''('' @ s) CHR ''('' = Some (length t)"
proof -
  let ?u = "t @ ''('' @ s"
  have split: "[0..<length ?u] = [0..<length t] @ length t # [Suc (length t)..<length ?u]"
    by (rule upt_split) simp
  have "find (unescaped_at ?u CHR ''('') [0..<length t] = None"
    using assms(1) by (intro find_None) (auto simp: unescaped_at_def nth_append, metis nth_mem)
  moreover have "takeWhile (\<lambda>c. c = backslash) (rev t) = []"
    using assms(2) by (cases t rule: rev_cases) auto
  then have "unescaped_at ?u CHR ''('' (length t)"
    by (simp add: unescaped_at_def backslashes_before_def)
  ultimately show ?thesis
    unfolding find_first_unescaped_char_def split find_append by simp
qed

lemma last_close_paren:
  assumes "even (backslashes_before (s @ '')'') (length s))"
  shows "find_last_unescaped_char (s @ '')'') CHR '')'' = Some (length s)"
  using assms by (simp add: find_last_unescaped_char_def unescaped_at_def nth_append)

text \<open>Names the serialiser can take back: no parenthesis, no backslash, not an old alias.\<close>

definition plain_tool_name :: "string \<Rightarrow> bool" where
  "plain_tool_name t =
     (t \<noteq> [] \<and> CHR ''('' \<notin> set t \<and> backslash \<notin> set t \<and> normalize_legacy_tool_name t = t)"

lemma find_first_absent: "c \<notin> set s \<Longrightarrow> find_first_unescaped_char s c = None"
  unfolding find_first_unescaped_char_def
  by (intro find_None) (auto simp: unescaped_at_def)

lemma escape_star: "escape_rule_content s = ''*'' \<longleftrightarrow> s = ''*''"
proof -
  have "escape_rule_content ''*'' = ''*''" by (simp add: escape_chars esc_char_def)
  then show ?thesis by (metis unescape_escape_content)
qed

text \<open>
  Parsing what the serialiser printed gives the rule back, for every plain tool name and every
  content but the lone wildcard, which comes back as the tool-wide rule.
\<close>

theorem permission_rule_roundtrip:
  assumes "plain_tool_name (rule_tool_name r)"
  shows "permission_rule_from_string (permission_rule_to_string r)
           = (if rule_content r = ''*'' then r\<lparr>rule_content := []\<rparr> else r)"
proof (cases "rule_content r = []")
  case True
  with assms show ?thesis
    by (simp add: permission_rule_to_string_def permission_rule_from_string_def plain_tool_name_def
        find_first_absent tool_wide_def)
next
  case False
  let ?t = "rule_tool_name r" and ?e = "escape_rule_content (rule_content r)"
  let ?s = "?t @ ''('' @ ?e @ '')''"
  have "even (backslashes_before ((?t @ ''('' @ ?e) @ '')'') (length (?t @ ''('' @ ?e)))"
    using trailing_backslashes_even [of "rule_content r"]
    by (simp add: backslashes_before_def escape_chars takeWhile_tail)
  then have close: "find_last_unescaped_char ?s CHR '')'' = Some (length ?t + Suc (length ?e))"
    using last_close_paren [of "?t @ ''('' @ ?e"] by simp
  have paren1: "find_first_unescaped_char ?s CHR ''('' = Some (length ?t)"
    using assms by (intro first_open_paren) (auto simp: plain_tool_name_def)
  have raw: "drop (Suc (length ?t)) (take (length ?t + Suc (length ?e)) ?s) = ?e" by simp
  from False have print: "permission_rule_to_string r = ?s"
    by (simp add: permission_rule_to_string_def)
  have "rule_tool_name r \<noteq> []" "normalize_legacy_tool_name ?t = ?t"
    using assms by (simp_all add: plain_tool_name_def)
  then show ?thesis
    using False unfolding print permission_rule_from_string_def paren1 close option.case
    by (simp add: raw tool_wide_def escape_star unescape_escape_content)
qed

text \<open>The hypotheses of the round trip at a content with every special character.\<close>

theorem permission_rule_roundtrip_witness:
  "permission_rule_from_string
     (permission_rule_to_string \<lparr>rule_tool_name = ''Bash'', rule_content = ''echo (a'' @ [backslash] @ '')''\<rparr>)
   = \<lparr>rule_tool_name = ''Bash'', rule_content = ''echo (a'' @ [backslash] @ '')''\<rparr>"
proof -
  have "plain_tool_name ''Bash''" by code_simp
  then show ?thesis
    using permission_rule_roundtrip
      [of "\<lparr>rule_tool_name = ''Bash'', rule_content = ''echo (a'' @ [backslash] @ '')''\<rparr>"] by simp
qed

lemma normalize_idem: "normalize_legacy_tool_name (normalize_legacy_tool_name t) = normalize_legacy_tool_name t"
  by (auto simp: normalize_legacy_tool_name_def legacy_tool_name_aliases_def)

section \<open>Shell rules\<close>

datatype shell_permission_rule =
    ShellRuleExact string
  | ShellRulePrefix string
  | ShellRuleWildcard string

text \<open>
  The legacy regular expression \<^verbatim>\<open>^(.+):\*$\<close>: its dot matches any character but a newline.
\<close>

definition permission_rule_extract_prefix :: "string \<Rightarrow> string option" where
  "permission_rule_extract_prefix rule =
     (let p = take (length rule - 2) rule
      in if has_suffix rule '':*'' \<and> p \<noteq> [] \<and> CHR 0x0A \<notin> set p then Some p else None)"

definition has_wildcards :: "string \<Rightarrow> bool" where
  "has_wildcards pattern =
     (if has_suffix pattern '':*'' then False
      else list_ex (unescaped_at pattern CHR ''*'') [0..<length pattern])"

text \<open>
  \<^verbatim>\<open>MatchWildcardPattern\<close> turns the trimmed pattern into a regular expression in which every
  byte stands for itself and every unescaped star for \<^verbatim>\<open>.*\<close> (dot matching newlines), with an
  optional last argument. The model keeps the pieces of that expression as tokens and matches them
  directly. (The code marks escaped characters by placeholder strings with zero bytes; patterns
  that contain those strings literally are outside the model.)
\<close>

datatype wildcard_token = WLit char | WStar

fun wildcard_tokens :: "string \<Rightarrow> wildcard_token list" where
  "wildcard_tokens [] = []"
| "wildcard_tokens [c] = [if c = CHR ''*'' then WStar else WLit c]"
| "wildcard_tokens (c # d # cs) =
     (if c = backslash \<and> d = CHR ''*'' then WLit CHR ''*'' # wildcard_tokens cs
      else if c = backslash \<and> d = backslash then WLit backslash # wildcard_tokens cs
      else (if c = CHR ''*'' then WStar else WLit c) # wildcard_tokens (d # cs))"

fun match_tokens :: "wildcard_token list \<Rightarrow> string \<Rightarrow> bool" where
  "match_tokens [] s = (s = [])"
| "match_tokens (WLit c # ts) s = (case s of [] \<Rightarrow> False | x # xs \<Rightarrow> x = c \<and> match_tokens ts xs)"
| "match_tokens (WStar # ts) [] = match_tokens ts []"
| "match_tokens (WStar # ts) (x # xs) = (match_tokens ts (x # xs) \<or> match_tokens (WStar # ts) xs)"

definition lower_token :: "wildcard_token \<Rightarrow> wildcard_token" where
  "lower_token t = (case t of WLit c \<Rightarrow> WLit (lower_char c) | WStar \<Rightarrow> WStar)"

definition match_wildcard_pattern :: "string \<Rightarrow> string \<Rightarrow> bool \<Rightarrow> bool" where
  "match_wildcard_pattern pattern command case_insensitive =
     (let ts0 = wildcard_tokens (trim_space pattern);
          ts = (if case_insensitive then map lower_token ts0 else ts0);
          s = (if case_insensitive then to_lower command else command);
          n = length ts - 2
      in if 2 \<le> length ts \<and> drop n ts = [WLit CHR '' '', WStar] \<and> count_list ts WStar = 1
         then match_tokens (take n ts) s \<or> match_tokens ts s
         else match_tokens ts s)"

definition parse_shell_permission_rule :: "string \<Rightarrow> shell_permission_rule" where
  "parse_shell_permission_rule rule =
     (case permission_rule_extract_prefix rule of
        Some prefix \<Rightarrow> ShellRulePrefix prefix
      | None \<Rightarrow> if has_wildcards rule then ShellRuleWildcard rule else ShellRuleExact rule)"

fun match_shell_permission_rule :: "shell_permission_rule \<Rightarrow> string \<Rightarrow> bool" where
  "match_shell_permission_rule (ShellRuleExact cmd) command = (command = cmd)"
| "match_shell_permission_rule (ShellRulePrefix p) command = (command = p \<or> has_prefix command (p @ '' ''))"
| "match_shell_permission_rule (ShellRuleWildcard pattern) command = match_wildcard_pattern pattern command False"

subsection \<open>Literal commands\<close>

definition literal_command :: "string \<Rightarrow> bool" where
  "literal_command p =
     (p \<noteq> [] \<and> CHR ''*'' \<notin> set p \<and> backslash \<notin> set p \<and> CHR 0x0A \<notin> set p \<and> \<not> is_space (hd p))"

lemma tokens_literal_star:
  "CHR ''*'' \<notin> set p \<Longrightarrow> backslash \<notin> set p \<Longrightarrow> wildcard_tokens (p @ '' *'') = map WLit p @ [WLit CHR '' '', WStar]"
  by (induction p rule: wildcard_tokens.induct) auto

lemma tokens_literal:
  "CHR ''*'' \<notin> set p \<Longrightarrow> backslash \<notin> set p \<Longrightarrow> wildcard_tokens p = map WLit p"
  by (induction p rule: wildcard_tokens.induct) auto

lemma match_star_any: "match_tokens [WStar] s"
  by (induction s) auto

lemma match_literals_then:
  "match_tokens (map WLit p @ ts) s \<longleftrightarrow> has_prefix s p \<and> match_tokens ts (drop (length p) s)"
proof (induction p arbitrary: s)
  case Nil
  show ?case by simp
next
  case (Cons c p)
  then show ?case by (cases s) auto
qed

lemma match_literals: "match_tokens (map WLit p) s \<longleftrightarrow> s = p"
  using match_literals_then [of p "[]" s] by (auto simp: has_prefix_iff)

lemma trim_literal_star: "p \<noteq> [] \<Longrightarrow> \<not> is_space (hd p) \<Longrightarrow> trim_space (p @ '' *'') = p @ '' *''"
  by (cases p) (simp_all add: trim_space_def is_space_def)

lemma match_wildcard_args:
  assumes "literal_command p"
  shows "match_wildcard_pattern (p @ '' *'') command False \<longleftrightarrow> command = p \<or> has_prefix command (p @ '' '')"
proof -
  let ?ts = "map WLit p @ [WLit CHR '' '', WStar]"
  have ts: "wildcard_tokens (trim_space (p @ '' *'')) = ?ts"
    using assms by (simp add: literal_command_def trim_literal_star tokens_literal_star)
  have cnt: "count_list ?ts WStar = 1"
    by (induction p) auto
  have tail: "match_tokens [WLit CHR '' '', WStar] s \<longleftrightarrow> has_prefix s '' ''" for s
    by (cases s) (auto simp: match_star_any)
  have split: "has_prefix command p \<and> has_prefix (drop (length p) command) '' '' \<longleftrightarrow> has_prefix command (p @ '' '')"
    by (auto simp: has_prefix_iff)
  have full: "match_tokens ?ts command \<longleftrightarrow> has_prefix command (p @ '' '')"
    unfolding match_literals_then tail split ..
  have bare: "match_tokens (map WLit p) command \<longleftrightarrow> command = p"
    by (rule match_literals)
  have "match_wildcard_pattern (p @ '' *'') command False
          = (match_tokens (map WLit p) command \<or> match_tokens ?ts command)"
    using cnt by (simp add: match_wildcard_pattern_def ts Let_def del: match_tokens.simps)
  then show ?thesis unfolding full bare .
qed

lemma parse_legacy:
  "p \<noteq> [] \<Longrightarrow> CHR 0x0A \<notin> set p \<Longrightarrow> parse_shell_permission_rule (p @ '':*'') = ShellRulePrefix p"
  by (simp add: parse_shell_permission_rule_def permission_rule_extract_prefix_def)

lemma parse_args_wildcard:
  assumes "literal_command p"
  shows "parse_shell_permission_rule (p @ '' *'') = ShellRuleWildcard (p @ '' *'')"
proof -
  have ns: "\<not> has_suffix (p @ '' *'') '':*''"
    by (simp add: has_suffix_def)
  have "backslashes_before (p @ '' *'') (Suc (length p)) = 0"
    by (simp add: backslashes_before_def)
  then have "unescaped_at (p @ '' *'') CHR ''*'' (Suc (length p))"
    by (simp add: unescaped_at_def nth_append)
  then have "has_wildcards (p @ '' *'')"
    using ns by (auto simp: has_wildcards_def list_ex_iff)
  with ns show ?thesis
    by (simp add: parse_shell_permission_rule_def permission_rule_extract_prefix_def)
qed

text \<open>
  The legacy rule \<open>cmd:*\<close> and the wildcard rule \<open>cmd *\<close> are parsed differently but match the
  same commands: the bare command, and the command followed by a space and anything.
\<close>

theorem legacy_prefix_eq_wildcard:
  assumes "literal_command cmd"
  shows "match_shell_permission_rule (parse_shell_permission_rule (cmd @ '':*'')) command
           = match_shell_permission_rule (parse_shell_permission_rule (cmd @ '' *'')) command
         \<and> match_shell_permission_rule (parse_shell_permission_rule (cmd @ '' *'')) command
           = (command = cmd \<or> has_prefix command (cmd @ '' ''))"
  using assms
  by (simp add: parse_args_wildcard match_wildcard_args parse_legacy literal_command_def [of cmd])

text \<open>The rule equivalence at a concrete command.\<close>

theorem legacy_prefix_eq_wildcard_witness:
  "match_shell_permission_rule (parse_shell_permission_rule ''git:*'') ''git add''
   \<and> match_shell_permission_rule (parse_shell_permission_rule ''git *'') ''git add''"
proof -
  have "literal_command ''git''" by code_simp
  from legacy_prefix_eq_wildcard [OF this, of "''git add''"] show ?thesis by simp
qed

end
