(* ===== verification/RunLoop.thy ===== *)
theory RunLoop
  imports Budget ConsumeStream ContextWindow Dispatch History Retry
begin

text \<open>
  The main loop of a run: \<^verbatim>\<open>runLoop\<close> of \<^verbatim>\<open>src/internal/domain/chat/agentic/runner.go\<close>
  from its first iteration to the deferred end, over the components it calls: the dispatch of tool calls, the reading of
  streams, compaction, the output budget and the error classes. One iteration is \<open>run_step\<close>; every \<open>continue\<close> and
  every \<open>return\<close> of the source is an outcome with a name. The world \<open>'w\<close> is the state outside the run, services are
  functions on it. Costs are whole numbers of some small unit. Of stored messages the role, the content and the calls
  are kept; timing, progress snapshots and the metadata record are not modelled.
\<close>

section \<open>Messages across compaction\<close>

text \<open>\<^verbatim>\<open>aiMessagesToChatMessages\<close> and \<^verbatim>\<open>chatMessagesToAI\<close>, with the JSON codec of call lists.\<close>

fun role_name :: "chat_role \<Rightarrow> string" where
  "role_name RoleSystem = ''system''"
| "role_name RoleUser = ''user''"
| "role_name RoleAssistant = ''assistant''"
| "role_name RoleTool = ''tool''"
| "role_name (RoleOther s) = s"

definition role_of :: "string \<Rightarrow> chat_role" where
  "role_of s = (if s = ''system'' then RoleSystem else if s = ''user'' then RoleUser
     else if s = ''assistant'' then RoleAssistant else if s = ''tool'' then RoleTool else RoleOther s)"

record call_codec =
  cc_encode :: "tool_call list \<Rightarrow> string"
  cc_decode :: "string \<Rightarrow> tool_call list option"

definition to_ctx_message :: "call_codec \<Rightarrow> chat_message \<Rightarrow> ctx_message" where
  "to_ctx_message codec m =
     \<lparr>xm_role = role_name (cm_role m), xm_content = cm_content m, xm_type = TypeOther [],
      xm_calls = (if cm_calls m \<noteq> [] then cc_encode codec (cm_calls m) else []), xm_call_id = None\<rparr>"

definition from_ctx_message :: "call_codec \<Rightarrow> ctx_message \<Rightarrow> chat_message" where
  "from_ctx_message codec m =
     \<lparr>cm_role = role_of (xm_role m), cm_content = xm_content m,
      cm_calls = (if xm_calls m \<noteq> [] then (case cc_decode codec (xm_calls m) of Some cs \<Rightarrow> cs | None \<Rightarrow> []) else []),
      cm_call_id = (case xm_call_id m of Some i \<Rightarrow> i | None \<Rightarrow> [])\<rparr>"

definition decode_ids :: "call_codec \<Rightarrow> string \<Rightarrow> string list option" where
  "decode_ids codec raw = map_option (map tc_id) (cc_decode codec raw)"

definition count_calls :: "call_codec \<Rightarrow> string \<Rightarrow> nat" where
  "count_calls codec raw = (case cc_decode codec raw of Some cs \<Rightarrow> length cs | None \<Rightarrow> 0)"

text \<open>The loop passes no summarizer.\<close>

definition loop_compact ::
  "call_codec \<Rightarrow> compact_config \<Rightarrow> chat_message list \<Rightarrow> nat \<Rightarrow> compact_failure + (compact_result \<times> compact_stage option)" where
  "loop_compact codec cfg ms system_tokens =
     reactive_compact (decode_ids codec) (count_calls codec) cfg (map (to_ctx_message codec) ms) system_tokens None"

definition loop_verify ::
  "call_codec \<Rightarrow> compact_config \<Rightarrow> compact_result \<times> compact_stage option \<Rightarrow> nat
   \<Rightarrow> compact_failure + (compact_result \<times> compact_stage option)" where
  "loop_verify codec cfg r system_tokens =
     verify_compaction (decode_ids codec) (count_calls codec) cfg r system_tokens None"

section \<open>The environment and the state of a run\<close>

datatype loop_event =
  ModelFallback string string string
| Streamed stream_event
| Dispatched run_event
| ToolResultSent string string string "string option"
| ToolUseSummary nat string
| StopHookSummary nat nat nat
| ErrorEvent string string
| ContextCompacted nat nat
| TurnComplete nat string
| RunProgress
| RunComplete nat int int

record run_config =
  rc_max_iterations :: int
  rc_max_tokens :: int
  rc_turn_tokens :: "nat \<Rightarrow> int"
  rc_budget :: "int option"
  rc_output_budget :: int
  rc_result_limits :: "(string \<times> int) list"
  rc_result_max :: int
  rc_turn_chars :: int
  rc_compact :: "compact_config option"
  rc_depth :: int

record llm_request =
  lr_messages :: "chat_message list"
  lr_max_tokens :: int
  lr_previous :: string
  lr_system :: string

record llm_answer =
  la_model :: string
  la_fallback :: bool
  la_stream :: "stream_item list"

text \<open>
  Services. \<open>re_model\<close> is the call with its retries and fallbacks (theory Retry): an error or an answer, and the
  fallbacks it announced. \<open>re_overflow\<close> extracts input tokens and limit from an overflow error, None if it is none.
  \<open>re_persist\<close> gives the error of storing a message. \<open>re_turn_end\<close> gives the texts injected by turn-end
  hooks and the errors of handlers, \<open>re_stop_hooks\<close> an error or not per stop hook.
\<close>

record 'w run_env =
  re_config :: run_config
  re_codec :: call_codec
  re_cancelled :: "'w \<Rightarrow> string option"
  re_is_canceled :: "string \<Rightarrow> bool"
  re_mailbox :: "('w \<Rightarrow> string \<times> 'w) option"
  re_model :: "llm_request \<Rightarrow> 'w \<Rightarrow> (string + llm_answer) \<times> (string \<times> string \<times> string) list \<times> 'w"
  re_overflow :: "string \<Rightarrow> (int \<times> int) option"
  re_parse_text :: "string \<Rightarrow> tool_call list option"
  re_process :: "(string \<Rightarrow> string + string) option"
  re_cost :: "string \<Rightarrow> token_usage \<Rightarrow> int"
  re_money :: "int \<Rightarrow> string"
  re_persist :: "chat_message \<Rightarrow> 'w \<Rightarrow> string option \<times> 'w"
  re_turn_end :: "nat \<Rightarrow> string \<Rightarrow> tool_call list \<Rightarrow> 'w \<Rightarrow> string list \<times> string list \<times> 'w"
  re_stop_hooks :: "('w \<Rightarrow> string option list \<times> 'w) option"
  re_background :: "nat \<Rightarrow> bool \<Rightarrow> 'w \<Rightarrow> 'w"
  re_run_end :: "nat \<Rightarrow> 'w \<Rightarrow> string list \<times> string list \<times> 'w"
  re_dispatch :: "int \<Rightarrow> 'w dispatch_env"
  re_strip :: "string \<Rightarrow> string"
  re_sanitize :: "string \<Rightarrow> string"
  re_redact :: "string \<Rightarrow> string"
  re_safe :: "string \<Rightarrow> string"
  re_friendly :: "string \<Rightarrow> string \<Rightarrow> string"
  re_summary :: "tool_call list \<Rightarrow> tool_exec_result list \<Rightarrow> string \<Rightarrow> string"
  re_rebuild :: "'w \<Rightarrow> string option \<times> 'w"

record 'w loop_state =
  ls_turn :: nat
  ls_messages :: "chat_message list"
  ls_system :: string
  ls_compact_failures :: nat
  ls_recoveries :: nat
  ls_max_tokens :: int
  ls_empty :: nat
  ls_streak :: nat
  ls_signature :: string
  ls_tool_errors :: bool
  ls_response_id :: string
  ls_sent :: nat
  ls_tokens :: int
  ls_output_tokens :: int
  ls_cost :: int
  ls_tracker :: budget_tracker
  ls_dispatch :: "'w dispatch_state"
  ls_events :: "loop_event list"
  ls_last_error :: "(string \<times> string) option"
  ls_completed :: bool

definition new_loop :: "'w run_env \<Rightarrow> chat_message list \<Rightarrow> string \<Rightarrow> string \<Rightarrow> denial_tracker option \<Rightarrow> 'w \<Rightarrow> 'w loop_state" where
  "new_loop env ms system response_id denials w =
     \<lparr>ls_turn = 0, ls_messages = ms, ls_system = system, ls_compact_failures = 0, ls_recoveries = 0,
      ls_max_tokens = rc_max_tokens (re_config env), ls_empty = 0, ls_streak = 0, ls_signature = [],
      ls_tool_errors = False, ls_response_id = response_id, ls_sent = 0, ls_tokens = 0, ls_output_tokens = 0,
      ls_cost = 0, ls_tracker = new_budget_tracker, ls_dispatch = new_run_state denials w, ls_events = [],
      ls_last_error = None, ls_completed = False\<rparr>"

text \<open>The eight ways to start the next iteration, and the end of the loop.\<close>

datatype again =
  RetryReduced | RetryCompacted | RetryFullHistory | RetryLonger | EmptyNudge | BudgetNudge | LoopBreak | ToolTurn

datatype run_end = RunDone | RunError string | RunPanic

datatype 'w outcome = Again again "'w loop_state" | Ended run_end "'w loop_state"

section \<open>Small steps\<close>

abbreviation world :: "'w loop_state \<Rightarrow> 'w" where
  "world st \<equiv> ds_world (ls_dispatch st)"

definition set_world :: "'w \<Rightarrow> 'w loop_state \<Rightarrow> 'w loop_state" where
  "set_world w st = st\<lparr>ls_dispatch := (ls_dispatch st)\<lparr>ds_world := w\<rparr>\<rparr>"

definition say :: "loop_event list \<Rightarrow> 'w loop_state \<Rightarrow> 'w loop_state" where
  "say evs st = st\<lparr>ls_events := ls_events st @ evs\<rparr>"

definition add_message :: "chat_message \<Rightarrow> 'w loop_state \<Rightarrow> 'w loop_state" where
  "add_message m st = st\<lparr>ls_messages := ls_messages st @ [m]\<rparr>"

definition user_message :: "string \<Rightarrow> chat_message" where
  "user_message s = \<lparr>cm_role = RoleUser, cm_content = s, cm_calls = [], cm_call_id = []\<rparr>"

definition tool_message :: "string \<Rightarrow> string \<Rightarrow> chat_message" where
  "tool_message i s = \<lparr>cm_role = RoleTool, cm_content = s, cm_calls = [], cm_call_id = i\<rparr>"

definition assistant_message :: "string \<Rightarrow> tool_call list \<Rightarrow> chat_message" where
  "assistant_message s cs = \<lparr>cm_role = RoleAssistant, cm_content = s, cm_calls = cs, cm_call_id = []\<rparr>"

definition persist :: "'w run_env \<Rightarrow> chat_message \<Rightarrow> 'w loop_state \<Rightarrow> string option \<times> 'w loop_state" where
  "persist env m st = (case re_persist env m (world st) of (e, w) \<Rightarrow> (e, set_world w st))"

text \<open>\<^verbatim>\<open>emitError\<close> and a return; \<^verbatim>\<open>localEmitError\<close>, which also remembers the error, and a return.\<close>

definition fail_plain :: "'w run_env \<Rightarrow> string \<Rightarrow> string \<Rightarrow> 'w loop_state \<Rightarrow> 'w outcome" where
  "fail_plain env code msg st = Ended (RunError code) (say [ErrorEvent code (re_safe env msg)] st)"

definition fail_local :: "'w run_env \<Rightarrow> string \<Rightarrow> string \<Rightarrow> 'w loop_state \<Rightarrow> 'w outcome" where
  "fail_local env code0 msg st =
     (let code = (if re_is_canceled env msg \<or> re_cancelled env (world st) \<noteq> None then ''context_cancelled'' else code0)
      in Ended (RunError code)
           (say [ErrorEvent code (re_safe env msg)] (st\<lparr>ls_last_error := Some (code, re_safe env msg)\<rparr>)))"

definition is_invalid_response_id :: "string \<Rightarrow> bool" where
  "is_invalid_response_id msg =
     contains_any (to_lower msg)
       [''invalid_previous_response_id'', ''previous_response_id'', ''response not found'', ''context expired'']"

section \<open>Before the call\<close>

definition drain_mailbox :: "'w run_env \<Rightarrow> 'w loop_state \<Rightarrow> 'w loop_state" where
  "drain_mailbox env st =
     (case re_mailbox env of
        None \<Rightarrow> st
      | Some f \<Rightarrow>
          (case f (world st) of (c, w) \<Rightarrow>
             if c \<noteq> [] then add_message (user_message c) (set_world w st) else set_world w st))"

definition hint_message :: "string list \<Rightarrow> string" where
  "hint_message hs =
     ''[SYSTEM] The following tools have been repeatedly denied by permission rules:'' @ newline
     @ concat (map (\<lambda>h. ''- '' @ h @ newline) hs)"

definition denial_hints :: "'w loop_state \<Rightarrow> string list" where
  "denial_hints st = (case ds_denials (ls_dispatch st) of None \<Rightarrow> [] | Some dt \<Rightarrow> escalation_hints dt)"

definition add_hints :: "'w loop_state \<Rightarrow> 'w loop_state" where
  "add_hints st =
     (if denial_hints st \<noteq> [] then add_message (user_message (hint_message (denial_hints st))) st else st)"

definition call_max_tokens :: "run_config \<Rightarrow> nat \<Rightarrow> int \<Rightarrow> int" where
  "call_max_tokens cfg turn effective =
     (let budget = rc_turn_tokens cfg turn;
          per_call = (if 0 < budget \<and> (rc_max_tokens cfg = 0 \<or> budget < rc_max_tokens cfg) then budget
                      else rc_max_tokens cfg)
      in if 0 < per_call \<and> (effective = 0 \<or> per_call < effective) \<and> effective \<le> rc_max_tokens cfg
         then per_call else effective)"

definition llm_request_of :: "'w run_env \<Rightarrow> 'w loop_state \<Rightarrow> llm_request" where
  "llm_request_of env st =
     \<lparr>lr_messages = (if ls_response_id st \<noteq> [] \<and> 0 < ls_sent st \<and> ls_sent st < length (ls_messages st)
                     then drop (ls_sent st) (ls_messages st) else ls_messages st),
      lr_max_tokens = call_max_tokens (re_config env) (ls_turn st) (ls_max_tokens st),
      lr_previous = ls_response_id st, lr_system = ls_system st\<rparr>"

section \<open>After a failed call\<close>

definition forget_chain :: "'w loop_state \<Rightarrow> 'w loop_state" where
  "forget_chain st = st\<lparr>ls_response_id := [], ls_sent := 0\<rparr>"

definition system_tokens :: "'w loop_state \<Rightarrow> nat" where
  "system_tokens st = estimate_string_tokens (ls_system st)"

definition take_compacted :: "'w run_env \<Rightarrow> compact_result \<Rightarrow> 'w loop_state \<Rightarrow> 'w loop_state" where
  "take_compacted env r st =
     say [ContextCompacted (cx_original r) (cx_compacted r)]
       ((forget_chain st)\<lparr>ls_messages := map (from_ctx_message (re_codec env)) (cx_messages r), ls_compact_failures := 0\<rparr>)"

definition recover_too_long :: "'w run_env \<Rightarrow> compact_config \<Rightarrow> string \<Rightarrow> 'w loop_state \<Rightarrow> 'w outcome" where
  "recover_too_long env cfg err st =
     (case loop_compact (re_codec env) cfg (ls_messages st) (system_tokens st) of
        Inl _ \<Rightarrow>
          (let st1 = st\<lparr>ls_compact_failures := ls_compact_failures st + 1\<rparr>
           in if 3 \<le> ls_compact_failures st1
              then fail_local env ''compact_circuit_breaker''
                     (''compaction failed '' @ itoa (int (ls_compact_failures st1)) @ '' times consecutively'') st1
              else fail_local env ''llm_call'' err st1)
      | Inr r \<Rightarrow>
          (case loop_verify (re_codec env) cfg r (system_tokens st) of
             Inl _ \<Rightarrow> fail_local env ''llm_call'' err st
           | Inr r' \<Rightarrow> Again RetryCompacted (take_compacted env (fst r') st)))"

definition adjusted_tokens :: "'w run_env \<Rightarrow> string \<Rightarrow> int" where
  "adjusted_tokens env err =
     (case re_overflow env err of None \<Rightarrow> 0 | Some (input, limit) \<Rightarrow> adjusted_max_tokens input limit)"

definition after_failure :: "'w run_env \<Rightarrow> string \<Rightarrow> 'w loop_state \<Rightarrow> 'w outcome" where
  "after_failure env err st =
     (if re_overflow env err \<noteq> None \<and> ls_recoveries st < 3 \<and> 0 < adjusted_tokens env err
      then Again RetryReduced (st\<lparr>ls_recoveries := ls_recoveries st + 1, ls_max_tokens := adjusted_tokens env err\<rparr>)
      else if is_prompt_too_long err \<and> rc_compact (re_config env) \<noteq> None \<and> ls_compact_failures st < 3
      then recover_too_long env (the (rc_compact (re_config env))) err st
      else if is_invalid_response_id err \<and> ls_response_id st \<noteq> []
      then Again RetryFullHistory (forget_chain st)
      else fail_local env ''llm_call'' err st)"

section \<open>The end of a turn\<close>

definition hook_note :: "string list \<Rightarrow> string" where
  "hook_note injects =
     ''[SYSTEM NOTE from hook]'' @ newline @ join_with (newline @ ''---'' @ newline) injects"

text \<open>A note of injected texts is stored, whatever that gives, and added to the history.\<close>

definition add_note :: "'w run_env \<Rightarrow> string list \<Rightarrow> 'w loop_state \<Rightarrow> 'w loop_state" where
  "add_note env injects st =
     (if injects = [] then st
      else add_message (user_message (hook_note injects)) (snd (persist env (user_message (hook_note injects)) st)))"

definition turn_end_hooks :: "'w run_env \<Rightarrow> string \<Rightarrow> tool_call list \<Rightarrow> 'w loop_state \<Rightarrow> 'w loop_state" where
  "turn_end_hooks env content calls st =
     (case re_turn_end env (ls_turn st) content calls (world st) of
        (injects, errs, w) \<Rightarrow>
          add_note env injects
            (say (map (\<lambda>e. ErrorEvent ''turn_end_handler'' (re_safe env e)) errs) (set_world w st)))"

text \<open>\<^verbatim>\<open>HandleStopHooks\<close> of \<^verbatim>\<open>stophooks.go\<close>.\<close>

record stop_hook_result =
  sh_count :: nat
  sh_errors :: "string list"
  sh_blocking :: "string list"
  sh_prevent :: bool
  sh_reason :: string

definition is_blocking_hook_error :: "string \<Rightarrow> bool" where
  "is_blocking_hook_error msg = contains_any (to_lower msg) [''blocking'', ''fatal'']"

definition main_loop :: "'w run_env \<Rightarrow> bool" where
  "main_loop env = (rc_depth (re_config env) \<le> 0)"

definition handle_stop_hooks :: "'w run_env \<Rightarrow> bool \<Rightarrow> 'w loop_state \<Rightarrow> stop_hook_result \<times> 'w loop_state" where
  "handle_stop_hooks env had_tools st =
     (let (results, w) = (case re_stop_hooks env of
                            Some f \<Rightarrow> if main_loop env then f (world st) else ([], world st)
                          | None \<Rightarrow> ([], world st));
          errors = List.map_filter id results;
          tokens = estimate_tokens (map (to_ctx_message (re_codec env)) (ls_messages st)) + system_tokens st;
          r = \<lparr>sh_count = length results, sh_errors = errors, sh_blocking = filter is_blocking_hook_error errors,
               sh_prevent = False, sh_reason = []\<rparr>;
          w' = (if main_loop env then re_background env tokens had_tools w else w)
      in (r, say (if 0 < sh_count r then [StopHookSummary (ls_turn st) (sh_count r) (length errors)] else [])
               (set_world w' st)))"

text \<open>Hooks after a turn: Some state that stops the run, or the state to go on with.\<close>

definition post_turn ::
  "'w run_env \<Rightarrow> string \<Rightarrow> tool_call list \<Rightarrow> bool \<Rightarrow> 'w loop_state \<Rightarrow> 'w outcome + 'w loop_state" where
  "post_turn env content calls had_tools st =
     (case handle_stop_hooks env had_tools (turn_end_hooks env content calls st) of
        (r, st1) \<Rightarrow>
          if sh_prevent r then Inl (fail_plain env ''stop_hook_veto'' (sh_reason r) st1)
          else Inr (foldl (\<lambda>s e. add_message (user_message e) s) st1 (sh_blocking r)))"

definition turn_source :: "'w run_env \<Rightarrow> string" where
  "turn_source env = (if 0 < rc_depth (re_config env) then ''subtask'' else ''main_loop'')"

text \<open>Notes of run-end hooks are only stored; errors of handlers are only announced.\<close>

definition run_end_hooks :: "'w run_env \<Rightarrow> 'w loop_state \<Rightarrow> 'w loop_state" where
  "run_end_hooks env st =
     (case re_run_end env (ls_turn st + 1) (world st) of
        (injects, errs, w) \<Rightarrow>
          foldl (\<lambda>s i. snd (persist env (user_message (''[SYSTEM NOTE from run_end hook]'' @ newline @ i)) s))
            (say (map (\<lambda>e. ErrorEvent ''run_end_handler'' (re_safe env e)) errs) (set_world w st)) injects)"

definition complete_run :: "'w run_env \<Rightarrow> 'w loop_state \<Rightarrow> 'w outcome" where
  "complete_run env st =
     Ended RunDone
       (run_end_hooks env
         ((say [TurnComplete (ls_turn st) (turn_source env), RunProgress,
                RunComplete (ls_turn st + 1) (ls_tokens st) (ls_cost st)] st)\<lparr>ls_completed := True\<rparr>))"

definition finish_other :: "'w run_env \<Rightarrow> string \<Rightarrow> tool_call list \<Rightarrow> 'w loop_state \<Rightarrow> 'w outcome" where
  "finish_other env content calls st =
     (case post_turn env content calls False st of Inl out \<Rightarrow> out | Inr st1 \<Rightarrow> complete_run env st1)"

definition next_turn :: "'w loop_state \<Rightarrow> 'w loop_state" where
  "next_turn st = st\<lparr>ls_turn := ls_turn st + 1\<rparr>"

definition finish_stop :: "'w run_env \<Rightarrow> string \<Rightarrow> tool_call list \<Rightarrow> 'w loop_state \<Rightarrow> 'w outcome" where
  "finish_stop env content calls st0 =
     (let st = st0\<lparr>ls_tool_errors := False\<rparr>
      in if 0 < rc_output_budget (re_config env)
         then (case check_token_budget (rc_output_budget (re_config env)) (ls_output_tokens st) (ls_tracker st) of
                 (KeepWorking nudge, bt) \<Rightarrow>
                   Again BudgetNudge
                     (next_turn (add_message (user_message nudge)
                       (say [TurnComplete (ls_turn st) ''budget_nudge''] (st\<lparr>ls_tracker := bt\<rparr>))))
               | (StopWorking _, bt) \<Rightarrow> finish_other env content calls (st\<lparr>ls_tracker := bt\<rparr>))
         else finish_other env content calls st)"

definition finish_length :: "'w run_env \<Rightarrow> 'w loop_state \<Rightarrow> 'w outcome" where
  "finish_length env st =
     (if ls_recoveries st < 3
      then Again RetryLonger (st\<lparr>ls_recoveries := ls_recoveries st + 1, ls_max_tokens := min (ls_max_tokens st * 2) 32768\<rparr>)
      else fail_plain env ''max_tokens''
             (''LLM response truncated after '' @ itoa (int (ls_recoveries st)) @ '' recovery attempts (max_tokens reached)'')
             st)"

section \<open>Tool turns\<close>

definition call_signature :: "tool_call list \<Rightarrow> string" where
  "call_signature calls = join_with ''|'' (map (\<lambda>c. tc_name c @ '':'' @ tc_args c) calls)"

definition loop_nudge :: "string \<Rightarrow> bool \<Rightarrow> nat \<Rightarrow> string" where
  "loop_nudge name had_errors n =
     (if had_errors then
        ''[SYSTEM] You have called the same tool ('' @ name @ '') '' @ itoa (int n)
        @ '' times and it has failed every time. Do NOT fabricate or invent any result. Tell the user that the ''
        @ ''operation could not be completed due to a recurring tool error, and do not claim otherwise.''
      else if name = ''memory_store'' then
        ''[SYSTEM] This fact is already stored in memory ('' @ itoa (int n)
        @ '' identical calls). Do NOT call memory_store again for this exact fact. If the user gave you a list, call ''
        @ ''memory_store NOW with the NEXT fact from the list. If all facts have been stored, provide a summary of what was saved.''
      else if name = ''memory_store_bulk'' then
        ''[SYSTEM] All facts were already stored by the first memory_store_bulk call ('' @ itoa (int n)
        @ '' identical calls detected). Do NOT call memory_store_bulk again. Provide your final summary response to the user now.''
      else
        ''[SYSTEM] You have called the same tool ('' @ name @ '') with identical arguments '' @ itoa (int n)
        @ '' times. The data is already in your context. Please stop calling tools and provide a final summary ''
        @ ''response to the user now.'')"

fun store_nudges :: "'w run_env \<Rightarrow> string \<Rightarrow> tool_call list \<Rightarrow> 'w loop_state \<Rightarrow> string option \<times> 'w loop_state" where
  "store_nudges env nudge [] st = (None, st)"
| "store_nudges env nudge (tc # tcs) st =
     (case persist env (tool_message (tc_id tc) nudge) st of
        (Some e, st1) \<Rightarrow> (Some e, st1)
      | (None, st1) \<Rightarrow> store_nudges env nudge tcs (add_message (tool_message (tc_id tc) nudge) st1))"

definition break_loop :: "'w run_env \<Rightarrow> tool_call list \<Rightarrow> 'w loop_state \<Rightarrow> 'w outcome" where
  "break_loop env calls st =
     (case calls of
        [] \<Rightarrow> Ended RunPanic st
      | tc # _ \<Rightarrow>
          (case store_nudges env (loop_nudge (tc_name tc) (ls_tool_errors st) (ls_streak st + 1)) calls st of
             (Some e, st1) \<Rightarrow> fail_plain env ''persist_loop_nudge'' e st1
           | (None, st1) \<Rightarrow>
               Again LoopBreak (next_turn (say [TurnComplete (ls_turn st1) ''loop_break''] (st1\<lparr>ls_streak := 0\<rparr>)))))"

text \<open>The results of the calls: truncated, cut off by the budget of the turn, redacted, stored and added.\<close>

definition result_shown :: "'w run_env \<Rightarrow> string \<Rightarrow> tool_exec_result \<Rightarrow> nat \<Rightarrow> tool_exec_result" where
  "result_shown env name r chars =
     (let cfg = re_config env;
          r1 = truncate_tool_result r (resolve_tool_result_limit name (rc_result_limits cfg) (rc_result_max cfg))
      in if 0 < rc_turn_chars cfg \<and> rc_turn_chars cfg < int (chars + length (er_output r1))
         then r1\<lparr>er_output := ''[tool result omitted: per-turn budget exceeded]''\<rparr> else r1)"

definition result_sanitized :: "'w run_env \<Rightarrow> tool_exec_result \<Rightarrow> tool_exec_result" where
  "result_sanitized env r =
     r\<lparr>er_error := map_option (re_sanitize env) (er_error r), er_output := re_redact env (er_output r)\<rparr>"

fun store_results ::
  "'w run_env \<Rightarrow> (tool_call \<times> tool_exec_result) list \<Rightarrow> nat \<Rightarrow> 'w loop_state \<Rightarrow> string option \<times> 'w loop_state" where
  "store_results env [] chars st = (None, st)"
| "store_results env ((tc, r) # rest) chars st =
     (let shown = result_shown env (tc_name tc) r chars;
          clean = result_sanitized env shown;
          m = tool_message (tc_id tc) (format_tool_result (re_strip env) clean)
      in case persist env m st of
           (Some e, st1) \<Rightarrow> (Some e, st1)
         | (None, st1) \<Rightarrow>
             store_results env rest (chars + length (er_output shown))
               (say (if er_emitted shown then []
                     else [ToolResultSent (tc_id tc) (tc_name tc) (er_output clean) (er_error clean)])
                  (add_message m st1)))"

text \<open>Compaction after a turn; None is the dereference of a nil result.\<close>

definition compact_after_turn :: "'w run_env \<Rightarrow> 'w loop_state \<Rightarrow> 'w loop_state option" where
  "compact_after_turn env st =
     (case rc_compact (re_config env) of
        None \<Rightarrow> Some st
      | Some cfg \<Rightarrow>
          if 3 \<le> ls_compact_failures st then Some st
          else case loop_compact (re_codec env) cfg (ls_messages st) (system_tokens st) of
                 Inl _ \<Rightarrow> Some (st\<lparr>ls_compact_failures := ls_compact_failures st + 1\<rparr>)
               | Inr r \<Rightarrow>
                   if snd r = None then Some st
                   else case loop_verify (re_codec env) cfg r (system_tokens st) of
                          Inl _ \<Rightarrow> None
                        | Inr (r', stage) \<Rightarrow>
                            (let st1 = (take_compacted env r' st)\<lparr>ls_recoveries := 0,
                                          ls_max_tokens := rc_max_tokens (re_config env)\<rparr>
                             in Some (if stage = Some StageFullSummarization
                                      then (case re_rebuild env (world st1) of
                                              (built, w) \<Rightarrow> (set_world w st1)\<lparr>ls_system :=
                                                  (case built of Some s \<Rightarrow> s | None \<Rightarrow> ls_system st1)\<rparr>)
                                      else st1)))"

definition run_calls :: "'w run_env \<Rightarrow> tool_call list \<Rightarrow> 'w loop_state \<Rightarrow> tool_exec_result list \<times> 'w loop_state" where
  "run_calls env calls st =
     (case execute_with_permissions ((re_dispatch env (ls_cost st))\<lparr>de_prev_errors := ls_tool_errors st\<rparr>) calls
             ((ls_dispatch st)\<lparr>ds_events := []\<rparr>) of
        (results, ds) \<Rightarrow>
          (results, say (map Dispatched (ds_events ds)) (st\<lparr>ls_dispatch := ds\<lparr>ds_events := []\<rparr>\<rparr>)))"

definition subtask_sum :: "(tool_exec_result \<Rightarrow> int) \<Rightarrow> tool_exec_result list \<Rightarrow> int" where
  "subtask_sum f rs = sum_list (filter (\<lambda>n. 0 < n) (map f rs))"

definition total_denials_of :: "'w loop_state \<Rightarrow> nat" where
  "total_denials_of st = (case ds_denials (ls_dispatch st) of None \<Rightarrow> 0 | Some dt \<Rightarrow> total_denials dt)"

text \<open>After all results are stored.\<close>

definition close_tool_turn ::
  "'w run_env \<Rightarrow> string \<Rightarrow> tool_call list \<Rightarrow> tool_exec_result list \<Rightarrow> 'w loop_state \<Rightarrow> 'w outcome" where
  "close_tool_turn env content calls results st =
     (let st1 = add_note env (filter (\<lambda>s. s \<noteq> []) (map er_inject results))
                  (st\<lparr>ls_tool_errors := list_ex (\<lambda>r. er_error r \<noteq> None) results\<rparr>);
          summary = (if calls \<noteq> [] \<and> results \<noteq> [] then re_summary env calls results content else []);
          st2 = say (if summary \<noteq> [] then [ToolUseSummary (ls_turn st1) summary] else []) st1
      in case post_turn env content calls True st2 of
           Inl out \<Rightarrow> out
         | Inr st3 \<Rightarrow>
             (let st4 = say [TurnComplete (ls_turn st3) (turn_source env), RunProgress] st3
              in case compact_after_turn env st4 of
                   None \<Rightarrow> Ended RunPanic st4
                 | Some st5 \<Rightarrow> Again ToolTurn (next_turn st5)))"

definition do_tool_calls :: "'w run_env \<Rightarrow> string \<Rightarrow> tool_call list \<Rightarrow> 'w loop_state \<Rightarrow> 'w outcome" where
  "do_tool_calls env content calls st =
     (case run_calls env calls st of
        (results, st1) \<Rightarrow>
          if denial_hints st1 \<noteq> []
          then fail_plain env ''denial_escalation''
                 (''too many tool denials ('' @ itoa (int (total_denials_of st1)) @ '' total) '' @ [CHR 0xE2, CHR 0x80, CHR 0x94]
                  @ '' LLM appears stuck in a permission loop'') st1
          else let st2 = st1\<lparr>ls_tokens := ls_tokens st1 + subtask_sum er_subtask_tokens results,
                              ls_cost := ls_cost st1 + subtask_sum er_subtask_cost results\<rparr>
               in case store_results env (zip calls results) 0 st2 of
                    (Some e, st3) \<Rightarrow> fail_plain env ''persist_tool_result'' e st3
                  | (None, st3) \<Rightarrow> close_tool_turn env content calls results st3)"

definition note_signature :: "string \<Rightarrow> 'w loop_state \<Rightarrow> 'w loop_state" where
  "note_signature sig st =
     (if sig = ls_signature st then st\<lparr>ls_streak := ls_streak st + 1\<rparr>
      else st\<lparr>ls_streak := 0, ls_signature := sig\<rparr>)"

definition finish_tool_calls :: "'w run_env \<Rightarrow> string \<Rightarrow> tool_call list \<Rightarrow> 'w loop_state \<Rightarrow> 'w outcome" where
  "finish_tool_calls env content calls st =
     (let st1 = note_signature (call_signature calls) st
      in if (if ls_tool_errors st1 then 1 else 3) \<le> ls_streak st1
         then break_loop env calls st1
         else do_tool_calls env content calls st1)"

section \<open>After an answer\<close>

definition empty_nudge :: string where
  "empty_nudge =
     ''[SYSTEM] Your previous response was empty. Please respond to the user'' @ [CHR 0x27] @ ''s request with text or by ''
     @ ''calling one of the available tools. If you need more information, ask the user a question.''"

definition by_finish_reason :: "'w run_env \<Rightarrow> string \<Rightarrow> stream_result \<Rightarrow> 'w loop_state \<Rightarrow> 'w outcome" where
  "by_finish_reason env content r st =
     (if sr_finish r = ''stop'' then finish_stop env content (sr_calls r) st
      else if sr_finish r = ''tool_calls'' then finish_tool_calls env content (sr_calls r) st
      else if sr_finish r = ''length'' then finish_length env st
      else finish_other env content (sr_calls r) st)"

text \<open>Usage and cost are added, the budgets are checked, the answer is stored and added.\<close>

definition record_usage :: "'w run_env \<Rightarrow> llm_answer \<Rightarrow> stream_result \<Rightarrow> 'w loop_state \<Rightarrow> 'w loop_state" where
  "record_usage env a r st =
     (let total = tu_total (sr_usage r); budget = rc_turn_tokens (re_config env) (ls_turn st)
      in say (if 0 < budget \<and> budget < total
              then [ErrorEvent ''turn_budget_exceeded'' (re_safe env
                     (''turn '' @ itoa (int (ls_turn st)) @ '' used '' @ itoa total @ '' tokens, exceeding budget of '' @ itoa budget))]
              else [])
           (st\<lparr>ls_tokens := ls_tokens st + total,
               ls_output_tokens := ls_output_tokens st + tu_completion (sr_usage r),
               ls_cost := ls_cost st + re_cost env (la_model a) (sr_usage r)\<rparr>))"

definition over_budget :: "'w run_env \<Rightarrow> 'w loop_state \<Rightarrow> bool" where
  "over_budget env st = (case rc_budget (re_config env) of None \<Rightarrow> False | Some b \<Rightarrow> b < ls_cost st)"

definition accept_answer :: "'w run_env \<Rightarrow> llm_answer \<Rightarrow> stream_result \<Rightarrow> string \<Rightarrow> 'w loop_state \<Rightarrow> 'w outcome" where
  "accept_answer env a r content st =
     (let st1 = record_usage env a r st
      in if over_budget env st1
         then fail_local env ''budget_exceeded''
                (''run cost $'' @ re_money env (ls_cost st1) @ '' exceeded budget $''
                 @ re_money env (case rc_budget (re_config env) of Some b \<Rightarrow> b | None \<Rightarrow> 0)) st1
         else case persist env (assistant_message content (sr_calls r)) st1 of
                (Some e, st2) \<Rightarrow> fail_plain env ''persist_assistant_msg'' e st2
              | (None, st2) \<Rightarrow> by_finish_reason env content r (add_message (assistant_message content (sr_calls r)) st2))"

definition note_chain :: "llm_answer \<Rightarrow> stream_result \<Rightarrow> 'w loop_state \<Rightarrow> 'w loop_state" where
  "note_chain a r st =
     (if la_fallback a then forget_chain st
      else st\<lparr>ls_sent := length (ls_messages st), ls_response_id := replace_by (sr_response_id r) (ls_response_id st)\<rparr>)"

definition check_empty :: "'w run_env \<Rightarrow> llm_answer \<Rightarrow> stream_result \<Rightarrow> string \<Rightarrow> 'w loop_state \<Rightarrow> 'w outcome" where
  "check_empty env a r content st =
     (if content = [] \<and> sr_calls r = [] \<and> sr_finish r = ''stop''
      then (if ls_empty st < 1
            then Again EmptyNudge (next_turn (add_message (user_message empty_nudge) (st\<lparr>ls_empty := ls_empty st + 1\<rparr>)))
            else accept_answer env a r ''(no content)'' st)
      else accept_answer env a r content (st\<lparr>ls_empty := 0\<rparr>))"

definition after_answer :: "'w run_env \<Rightarrow> llm_answer \<Rightarrow> 'w loop_state \<Rightarrow> 'w outcome" where
  "after_answer env a st0 =
     (case consume_stream (re_parse_text env) (re_process env = None) (la_stream a) of
        (res, evs) \<Rightarrow>
          (let st = say (map Streamed evs) st0
           in case res of
                Inl e \<Rightarrow> fail_local env ''stream_consume'' e st
              | Inr r \<Rightarrow>
                  (case re_process env of
                     Some f \<Rightarrow>
                       if sr_content r \<noteq> []
                       then (case f (sr_content r) of
                               Inl e \<Rightarrow> fail_local env ''output_processor'' e st
                             | Inr c \<Rightarrow> check_empty env a r c (note_chain a r (say [Streamed (TextDelta c)] st)))
                       else check_empty env a r (sr_content r) (note_chain a r st)
                   | None \<Rightarrow> check_empty env a r (sr_content r) (note_chain a r st))))"

section \<open>The loop\<close>

definition call_model :: "'w run_env \<Rightarrow> 'w loop_state \<Rightarrow> 'w outcome" where
  "call_model env st =
     (case re_model env (llm_request_of env st) (world st) of
        (res, fallbacks, w) \<Rightarrow>
          (let st1 = say (map (\<lambda>(a, b, e). ModelFallback a b e) fallbacks) (set_world w st)
           in case res of Inl err \<Rightarrow> after_failure env err st1 | Inr a \<Rightarrow> after_answer env a st1))"

definition run_step :: "'w run_env \<Rightarrow> 'w loop_state \<Rightarrow> 'w outcome" where
  "run_step env st =
     (if \<not> int (ls_turn st) < rc_max_iterations (re_config env)
      then fail_local env ''max_iterations''
             (''agentic loop exceeded maximum iterations ('' @ itoa (rc_max_iterations (re_config env)) @ '')'') st
      else case re_cancelled env (world st) of
             Some e \<Rightarrow> fail_plain env ''context_cancelled'' e st
           | None \<Rightarrow> call_model env (add_hints (drain_mailbox env st)))"

text \<open>At most \<open>n\<close> iterations: why each of them led to another one, and the end or the state reached.\<close>

fun run_steps ::
  "'w run_env \<Rightarrow> nat \<Rightarrow> 'w loop_state \<Rightarrow> again list \<times> (run_end \<times> 'w loop_state + 'w loop_state)" where
  "run_steps env 0 st = ([], Inr st)"
| "run_steps env (Suc n) st =
     (case run_step env st of
        Ended e st' \<Rightarrow> ([], Inl (e, st'))
      | Again a st' \<Rightarrow> (case run_steps env n st' of (as, res) \<Rightarrow> (a # as, res)))"

text \<open>The deferred function.\<close>

definition close_run :: "'w run_env \<Rightarrow> 'w loop_state \<Rightarrow> 'w loop_state" where
  "close_run env st =
     (let st1 = (case ls_last_error st of
                   None \<Rightarrow> st
                 | Some (code, msg) \<Rightarrow> snd (persist env (assistant_message (re_friendly env code msg) []) st))
      in if ls_completed st1 then st1 else say [RunComplete (ls_turn st1) (ls_tokens st1) (ls_cost st1)] st1)"

definition agentic_run :: "'w run_env \<Rightarrow> nat \<Rightarrow> 'w loop_state \<Rightarrow> (run_end \<times> 'w loop_state) option" where
  "agentic_run env n st =
     (case snd (run_steps env n st) of
        Inl (e, st') \<Rightarrow> Some (e, close_run env st')
      | Inr _ \<Rightarrow> None)"

end
