(* ===== verification/RunLoopFacts.thy ===== *)
theory RunLoopFacts
  imports DispatchSafety RunLoop
begin

text \<open>
  What holds of the main loop of theory RunLoop: it ends, or does not, and how; what each way to go on does to the
  history; what compaction does to it.
\<close>

section \<open>Steps that go on quietly\<close>

text \<open>What most small steps leave alone: the counters of the loop. They announce no end of the run.\<close>

definition is_complete :: "loop_event \<Rightarrow> bool" where
  "is_complete e = (case e of RunComplete _ _ _ \<Rightarrow> True | _ \<Rightarrow> False)"

definition announces :: "nat \<Rightarrow> 'w loop_state \<Rightarrow> 'w loop_state \<Rightarrow> bool" where
  "announces n st st' \<longleftrightarrow> (\<exists>evs. ls_events st' = ls_events st @ evs \<and> length (filter is_complete evs) = n)"

definition counters :: "'w loop_state \<Rightarrow> nat \<times> nat \<times> nat \<times> string" where
  "counters st = (ls_turn st, ls_recoveries st, ls_compact_failures st, ls_response_id st)"

definition quiet :: "'w loop_state \<Rightarrow> 'w loop_state \<Rightarrow> bool" where
  "quiet st st' \<longleftrightarrow> counters st' = counters st \<and> ls_completed st' = ls_completed st \<and> announces 0 st st'"

lemma announces_refl [simp]: "announces 0 st st"
  by (simp add: announces_def)

lemma announces_trans: "announces m st st1 \<Longrightarrow> announces n st1 st2 \<Longrightarrow> announces (m + n) st st2"
  by (fastforce simp: announces_def)

lemma quiet_refl [simp]: "quiet st st"
  by (simp add: quiet_def)

lemma quiet_trans [trans]: "quiet st st1 \<Longrightarrow> quiet st1 st2 \<Longrightarrow> quiet st st2"
  using announces_trans [of 0 st st1 0 st2] by (simp add: quiet_def)

named_theorems quietly "small steps that leave the counters alone"

lemma quiet_say [quietly]: "\<forall>e \<in> set evs. \<not> is_complete e \<Longrightarrow> quiet st (say evs st)"
  by (auto simp: quiet_def say_def counters_def announces_def)

lemma quiet_add_message [quietly]: "quiet st (add_message m st)"
  by (simp add: quiet_def add_message_def counters_def announces_def)

lemma quiet_set_world [quietly]: "quiet st (set_world w st)"
  by (simp add: quiet_def set_world_def counters_def announces_def)

lemma quiet_persist [quietly]: "quiet st (snd (persist env m st))"
  by (simp add: persist_def split_beta quiet_set_world)

lemma persist_quiet: "persist env m st = (e, st') \<Longrightarrow> quiet st st'"
  using quiet_persist [of st env m] by simp

lemma quiet_update [quietly]:
  "quiet st (st\<lparr>ls_tool_errors := b\<rparr>)" "quiet st (st\<lparr>ls_empty := k\<rparr>)" "quiet st (st\<lparr>ls_tracker := bt\<rparr>)"
  "quiet st (st\<lparr>ls_streak := k\<rparr>)" "quiet st (st\<lparr>ls_last_error := le\<rparr>)" "quiet st (st\<lparr>ls_dispatch := ds\<rparr>)"
  "quiet st (st\<lparr>ls_tokens := t, ls_cost := c\<rparr>)"
  "quiet st (st\<lparr>ls_tokens := t, ls_output_tokens := t', ls_cost := c\<rparr>)"
  "quiet st (st\<lparr>ls_streak := k, ls_signature := sig\<rparr>)"
  by (simp_all add: quiet_def counters_def announces_def)

lemma quiet_drain_mailbox [quietly]: "quiet st (drain_mailbox env st)"
  by (auto simp: drain_mailbox_def intro: quietly quiet_trans split: option.splits prod.splits)

lemma quiet_add_hints [quietly]: "quiet st (add_hints st)"
  by (simp add: add_hints_def quietly)

lemma quiet_add_note [quietly]: "quiet st (add_note env injects st)"
  by (auto simp: add_note_def intro: quietly quiet_trans)

lemma is_complete_simps [simp]:
  "\<not> is_complete (ModelFallback a b c)" "\<not> is_complete (Streamed x)" "\<not> is_complete (Dispatched d)"
  "\<not> is_complete (ToolResultSent a b c o')" "\<not> is_complete (ToolUseSummary n s)" "\<not> is_complete (StopHookSummary n k j)"
  "\<not> is_complete (ErrorEvent a b)" "\<not> is_complete (ContextCompacted n k)" "\<not> is_complete (TurnComplete n s)"
  "\<not> is_complete RunProgress" "is_complete (RunComplete n t u)"
  by (simp_all add: is_complete_def)

lemma quiet_turn_end_hooks [quietly]: "quiet st (turn_end_hooks env content calls st)"
  unfolding turn_end_hooks_def
  by (auto intro!: quiet_trans [OF _ quiet_add_note] quiet_trans [OF quiet_set_world quiet_say] split: prod.splits)

lemma handle_stop_hooks_quiet:
  "handle_stop_hooks env b st = (r, st') \<Longrightarrow> quiet st st' \<and> \<not> sh_prevent r"
  by (auto simp: handle_stop_hooks_def Let_def split_beta intro!: quiet_trans [OF quiet_set_world quiet_say])

lemma quiet_add_messages: "quiet st (foldl (\<lambda>s e. add_message (f e) s) st es)"
  by (induction es arbitrary: st) (auto intro: quiet_trans quiet_add_message)

text \<open>Stop hooks never stop a run: nothing sets the flag that would.\<close>

lemma post_turn_Inr: "\<exists>st'. post_turn env content calls b st = Inr st' \<and> quiet st st'"
proof (cases "handle_stop_hooks env b (turn_end_hooks env content calls st)")
  case (Pair r st1)
  with handle_stop_hooks_quiet have "quiet (turn_end_hooks env content calls st) st1" "\<not> sh_prevent r" by blast+
  moreover from this(1) have "quiet st (foldl (\<lambda>s e. add_message (user_message e) s) st1 (sh_blocking r))"
    by (rule quiet_trans [OF quiet_trans [OF quiet_turn_end_hooks] quiet_add_messages])
  ultimately show ?thesis by (simp add: post_turn_def Pair)
qed

lemma store_nudges_quiet: "store_nudges env nudge tcs st = (e, st') \<Longrightarrow> quiet st st'"
proof (induction env nudge tcs st rule: store_nudges.induct)
  case (2 env nudge tc tcs st)
  obtain e1 st1 where st1: "persist env (tool_message (tc_id tc) nudge) st = (e1, st1)"
    by (cases "persist env (tool_message (tc_id tc) nudge) st")
  with 2(2) 2(1) [OF st1 [symmetric]] persist_quiet [OF st1] quiet_add_message [of st1] show ?case
    by (cases e1) (auto intro: quiet_trans)
qed simp

lemma store_results_quiet: "store_results env ps chars st = (e, st') \<Longrightarrow> quiet st st'"
proof (induction ps arbitrary: chars st)
  case (Cons p ps)
  obtain tc r where p: "p = (tc, r)" by (cases p)
  define shown where "shown = result_shown env (tc_name tc) r chars"
  define m where "m = tool_message (tc_id tc) (format_tool_result (re_strip env) (result_sanitized env shown))"
  obtain e1 st1 where st1: "persist env m st = (e1, st1)" by (cases "persist env m st")
  have q: "quiet st (say evs (add_message m st1))" if "\<forall>e \<in> set evs. \<not> is_complete e" for evs
    using persist_quiet [OF st1] that by (blast intro: quiet_trans quiet_add_message quiet_say)
  have rest: "quiet st st'"
    if "store_results env ps k (say evs (add_message m st1)) = (e, st')" "\<forall>e \<in> set evs. \<not> is_complete e" for k evs
    using q [OF that(2)] Cons.IH [OF that(1)] by (rule quiet_trans)
  show ?case
  proof (cases e1)
    case None
    with Cons.prems st1 show ?thesis
      by (intro rest) (auto simp: p Let_def shown_def [symmetric] m_def [symmetric] split: if_splits)
  next
    case (Some err)
    with Cons.prems st1 persist_quiet [OF st1] show ?thesis
      by (simp add: p Let_def shown_def [symmetric] m_def [symmetric])
  qed
qed simp

section \<open>What one iteration does to the counters\<close>

text \<open>Like \<open>quiet\<close>, but the response identifier may change.\<close>

definition calm :: "'w loop_state \<Rightarrow> 'w loop_state \<Rightarrow> bool" where
  "calm st st' \<longleftrightarrow>
     ls_turn st' = ls_turn st \<and> ls_recoveries st' = ls_recoveries st \<and> ls_compact_failures st' = ls_compact_failures st
     \<and> ls_completed st' = ls_completed st \<and> announces 0 st st'"

definition goes_on :: "again \<Rightarrow> 'w loop_state \<Rightarrow> 'w loop_state \<Rightarrow> bool" where
  "goes_on a st st' \<longleftrightarrow>
     announces 0 st st' \<and> ls_completed st' = ls_completed st
     \<and> (ls_compact_failures st' = ls_compact_failures st \<or> ls_compact_failures st' = 0)
     \<and> (case a of
          RetryReduced \<Rightarrow> ls_turn st' = ls_turn st \<and> ls_recoveries st < 3 \<and> ls_recoveries st' = ls_recoveries st + 1
            \<and> ls_response_id st' = ls_response_id st
        | RetryCompacted \<Rightarrow> ls_turn st' = ls_turn st \<and> ls_recoveries st' = ls_recoveries st \<and> ls_response_id st' = []
        | RetryFullHistory \<Rightarrow> ls_turn st' = ls_turn st \<and> ls_recoveries st' = ls_recoveries st
            \<and> ls_response_id st \<noteq> [] \<and> ls_response_id st' = []
        | RetryLonger \<Rightarrow> ls_turn st' = ls_turn st \<and> ls_recoveries st < 3 \<and> ls_recoveries st' = ls_recoveries st + 1
        | _ \<Rightarrow> ls_turn st' = ls_turn st + 1 \<and> ls_recoveries st' \<le> ls_recoveries st)"

definition ends :: "run_end \<Rightarrow> 'w loop_state \<Rightarrow> 'w loop_state \<Rightarrow> bool" where
  "ends e st st' \<longleftrightarrow>
     (if e = RunDone then announces 1 st st' \<and> ls_completed st'
      else announces 0 st st' \<and> ls_completed st' = ls_completed st)"

text \<open>After a failed call three of the ways to go on are possible, after an answer the others.\<close>

definition failure_again :: "again \<Rightarrow> bool" where
  "failure_again a \<longleftrightarrow> a \<in> {RetryReduced, RetryCompacted, RetryFullHistory}"

definition lawful :: "bool \<Rightarrow> 'w loop_state \<Rightarrow> 'w outcome \<Rightarrow> bool" where
  "lawful failed st out \<longleftrightarrow>
     (case out of Again a st' \<Rightarrow> goes_on a st st' \<and> failure_again a = failed | Ended e st' \<Rightarrow> ends e st st')"

lemma quiet_calm: "quiet st st' \<Longrightarrow> calm st st'"
  by (simp add: quiet_def calm_def counters_def)

lemma lawful_calm: "calm st st1 \<Longrightarrow> lawful False st1 out \<Longrightarrow> lawful False st out"
  using announces_trans [of 0 st st1] 
  by (force simp: lawful_def calm_def goes_on_def ends_def failure_again_def split: outcome.splits again.splits)

lemma lawful_quiet: "quiet st st1 \<Longrightarrow> lawful b st1 out \<Longrightarrow> lawful b st out"
  using announces_trans [of 0 st st1] 
  by (force simp: lawful_def quiet_def counters_def goes_on_def ends_def split: outcome.splits again.splits)

lemma lawful_fail_plain: "lawful b st (fail_plain env code msg st)"
  using quiet_say [of "[ErrorEvent code (re_safe env msg)]" st]
  by (simp add: lawful_def fail_plain_def ends_def quiet_def)

lemma lawful_fail_local: "lawful b st (fail_local env code msg st)"
proof -
  have "quiet st (say [ErrorEvent c m] (st\<lparr>ls_last_error := e\<rparr>))" for c m e
    by (simp add: quiet_def say_def counters_def announces_def)
  then show ?thesis by (simp add: lawful_def fail_local_def ends_def Let_def quiet_def)
qed

subsection \<open>Compaction without a summarizer\<close>

lemma loop_compact_ok: "\<exists>r. loop_compact codec cfg ms sys = Inr r"
  by (auto simp: loop_compact_def reactive_compact_def compact_def split: option.splits compact_stage.splits)

lemma loop_verify_ok: "\<exists>r'. loop_verify codec cfg r sys = Inr r'"
  by (auto simp: loop_verify_def verify_compaction_def reactive_compact_def compact_def Let_def
      split: option.splits compact_stage.splits)

lemma take_compacted_goes_on:
  "goes_on RetryCompacted st (take_compacted env r st)"
  by (simp add: goes_on_def take_compacted_def say_def forget_chain_def announces_def)

lemma lawful_recover: "lawful True st (recover_too_long env cfg err st)"
proof -
  obtain r r' where "loop_compact (re_codec env) cfg (ls_messages st) (system_tokens st) = Inr r"
    "loop_verify (re_codec env) cfg r (system_tokens st) = Inr r'"
    using loop_compact_ok loop_verify_ok by blast
  then show ?thesis
    using take_compacted_goes_on [of st env] by (simp add: recover_too_long_def lawful_def failure_again_def)
qed

lemma lawful_retry_reduced:
  "ls_recoveries st < 3 \<Longrightarrow> lawful True st (Again RetryReduced (st\<lparr>ls_recoveries := ls_recoveries st + 1, ls_max_tokens := n\<rparr>))"
  by (simp add: lawful_def goes_on_def failure_again_def announces_def)

lemma lawful_full_history: "ls_response_id st \<noteq> [] \<Longrightarrow> lawful True st (Again RetryFullHistory (forget_chain st))"
  by (simp add: lawful_def goes_on_def failure_again_def announces_def forget_chain_def)

lemma lawful_after_failure: "lawful True st (after_failure env err st)"
  unfolding after_failure_def
  using lawful_retry_reduced lawful_full_history lawful_recover lawful_fail_local by (auto simp del: not_None_eq)

subsection \<open>The end of a turn\<close>

lemma foldl_persist_quiet: "quiet st (foldl (\<lambda>s i. snd (persist env (f i) s)) st is)"
  by (induction "is" arbitrary: st) (auto intro: quiet_trans quiet_persist)

lemma quiet_run_end_hooks: "quiet st (run_end_hooks env st)"
proof (cases "re_run_end env (ls_turn st + 1) (world st)")
  case (fields injects errs w)
  have "quiet st (say (map (\<lambda>e. ErrorEvent ''run_end_handler'' (re_safe env e)) errs) (set_world w st))"
    by (rule quiet_trans [OF quiet_set_world quiet_say]) auto
  from quiet_trans [OF this foldl_persist_quiet] show ?thesis unfolding run_end_hooks_def fields prod.case .
qed

lemma lawful_complete: "lawful False st (complete_run env st)"
proof -
  let ?st = "(say [TurnComplete (ls_turn st) (turn_source env), RunProgress,
      RunComplete (ls_turn st + 1) (ls_tokens st) (ls_cost st)] st)\<lparr>ls_completed := True\<rparr>"
  have "announces 1 st ?st" by (simp add: announces_def say_def)
  with announces_trans [OF this, of 0 "run_end_hooks env ?st"] quiet_run_end_hooks [of ?st env]
  show ?thesis by (simp add: complete_run_def lawful_def ends_def quiet_def)
qed

lemma lawful_finish_other: "lawful False st (finish_other env content calls st)"
proof -
  obtain st1 where "post_turn env content calls False st = Inr st1" "quiet st st1" using post_turn_Inr by blast
  with lawful_complete lawful_quiet show ?thesis by (fastforce simp: finish_other_def)
qed

lemma lawful_next:
  "quiet st st1 \<Longrightarrow> a \<in> {EmptyNudge, BudgetNudge, LoopBreak, ToolTurn} \<Longrightarrow> lawful False st (Again a (next_turn st1))"
  by (auto simp: lawful_def goes_on_def failure_again_def next_turn_def quiet_def counters_def announces_def)

lemma lawful_finish_stop: "lawful False st (finish_stop env content calls st)"
proof -
  let ?st = "st\<lparr>ls_tool_errors := False\<rparr>"
  have q: "quiet st ?st" "\<And>bt. quiet st (?st\<lparr>ls_tracker := bt\<rparr>)"
    by (simp_all add: quiet_def counters_def announces_def)
  have nudge: "quiet st (add_message (user_message m) (say [TurnComplete (ls_turn ?st) ''budget_nudge''] (?st\<lparr>ls_tracker := bt\<rparr>)))"
    for m bt
    by (rule quiet_trans [OF quiet_trans [OF q(2) quiet_say] quiet_add_message]) simp
  show ?thesis
    unfolding finish_stop_def Let_def
    using lawful_quiet [OF q(1) lawful_finish_other] lawful_quiet [OF q(2) lawful_finish_other] lawful_next [OF nudge]
    by (simp split: prod.splits budget_decision.splits)
qed

lemma lawful_retry_longer:
  "ls_recoveries st < 3 \<Longrightarrow> lawful False st (Again RetryLonger (st\<lparr>ls_recoveries := ls_recoveries st + 1, ls_max_tokens := n\<rparr>))"
  by (simp add: lawful_def goes_on_def failure_again_def announces_def)

lemma lawful_finish_length: "lawful False st (finish_length env st)"
  unfolding finish_length_def using lawful_retry_longer lawful_fail_plain by auto

subsection \<open>Tool turns\<close>

lemma lawful_break_loop: "lawful False st (break_loop env calls st)"
proof (cases calls)
  case Nil
  then show ?thesis by (simp add: break_loop_def lawful_def ends_def)
next
  case (Cons tc tcs)
  let ?nudge = "loop_nudge (tc_name tc) (ls_tool_errors st) (ls_streak st + 1)"
  obtain e st1 where st1: "store_nudges env ?nudge calls st = (e, st1)" by (cases "store_nudges env ?nudge calls st")
  then have q: "quiet st st1" by (rule store_nudges_quiet)
  show ?thesis
  proof (cases e)
    case None
    have "quiet st (say [TurnComplete (ls_turn st1) ''loop_break''] (st1\<lparr>ls_streak := 0\<rparr>))"
      by (rule quiet_trans [OF quiet_trans [OF q quiet_update(4)] quiet_say]) simp
    from lawful_next [OF this, of LoopBreak] st1 None show ?thesis
      by (simp add: break_loop_def Cons del: store_nudges.simps)
  next
    case (Some err)
    with st1 lawful_quiet [OF q lawful_fail_plain] show ?thesis
      by (simp add: break_loop_def Cons del: store_nudges.simps)
  qed
qed

lemma quiet_run_calls: "run_calls env calls st = (results, st') \<Longrightarrow> quiet st st'"
  by (auto simp: run_calls_def quiet_def counters_def announces_def say_def split: prod.splits)

lemma compact_after_turn_goes_on:
  "\<exists>st'. compact_after_turn env st = Some st' \<and> ls_turn st' = ls_turn st \<and> ls_recoveries st' \<le> ls_recoveries st
     \<and> (ls_compact_failures st' = ls_compact_failures st \<or> ls_compact_failures st' = 0)
     \<and> ls_completed st' = ls_completed st \<and> announces 0 st st'"
proof (cases "rc_compact (re_config env)")
  case (Some cfg)
  obtain r r' where "loop_compact (re_codec env) cfg (ls_messages st) (system_tokens st) = Inr r"
    "loop_verify (re_codec env) cfg r (system_tokens st) = Inr r'"
    using loop_compact_ok loop_verify_ok by blast
  then show ?thesis
    by (simp add: compact_after_turn_def Some Let_def take_compacted_def say_def forget_chain_def announces_def
        set_world_def split: prod.splits)
qed (simp add: compact_after_turn_def)

lemma lawful_close_tool_turn: "lawful False st (close_tool_turn env content calls results st)"
proof -
  define st1 where "st1 = add_note env (filter (\<lambda>s. s \<noteq> []) (map er_inject results))
      (st\<lparr>ls_tool_errors := list_ex (\<lambda>r. er_error r \<noteq> None) results\<rparr>)"
  define summary where "summary = (if calls \<noteq> [] \<and> results \<noteq> [] then re_summary env calls results content else [])"
  define st2 where "st2 = say (if summary \<noteq> [] then [ToolUseSummary (ls_turn st1) summary] else []) st1"
  obtain st3 where st3: "post_turn env content calls True st2 = Inr st3" "quiet st2 st3" using post_turn_Inr by blast
  define st4 where "st4 = say [TurnComplete (ls_turn st3) (turn_source env), RunProgress] st3"
  have "quiet st st1" unfolding st1_def by (rule quiet_trans [OF quiet_update(1) quiet_add_note])
  moreover have "quiet st1 st2" unfolding st2_def by (rule quiet_say) simp
  moreover have "quiet st3 st4" unfolding st4_def by (rule quiet_say) simp
  ultimately have q: "quiet st st4" using st3(2) quiet_trans by meson
  obtain st5 where st5: "compact_after_turn env st4 = Some st5" "ls_turn st5 = ls_turn st4"
    "ls_recoveries st5 \<le> ls_recoveries st4" "ls_completed st5 = ls_completed st4" "announces 0 st4 st5"
    "ls_compact_failures st5 = ls_compact_failures st4 \<or> ls_compact_failures st5 = 0"
    using compact_after_turn_goes_on by blast
  have "close_tool_turn env content calls results st = Again ToolTurn (next_turn st5)"
    using st3(1) st5(1) unfolding close_tool_turn_def Let_def st1_def [symmetric] summary_def [symmetric]
      st2_def [symmetric] by (simp add: st4_def [symmetric])
  moreover have "lawful False st4 (Again ToolTurn (next_turn st5))"
    using st5 by (auto simp: lawful_def goes_on_def failure_again_def next_turn_def announces_def)
  ultimately show ?thesis using lawful_quiet [OF q] by simp
qed

lemma lawful_do_tool_calls: "lawful False st (do_tool_calls env content calls st)"
proof -
  obtain results st1 where st1: "run_calls env calls st = (results, st1)" by (cases "run_calls env calls st")
  let ?st2 = "st1\<lparr>ls_tokens := ls_tokens st1 + subtask_sum er_subtask_tokens results,
    ls_cost := ls_cost st1 + subtask_sum er_subtask_cost results\<rparr>"
  obtain e st3 where st3: "store_results env (zip calls results) 0 ?st2 = (e, st3)"
    by (cases "store_results env (zip calls results) 0 ?st2")
  have q1: "quiet st st1" using st1 by (rule quiet_run_calls)
  have q3: "quiet st st3" by (rule quiet_trans [OF quiet_trans [OF q1 quiet_update(7)] store_results_quiet [OF st3]])
  show ?thesis
    using st1 st3 lawful_quiet [OF q1 lawful_fail_plain] lawful_quiet [OF q3 lawful_fail_plain]
      lawful_quiet [OF q3 lawful_close_tool_turn]
    by (cases e) (simp_all add: do_tool_calls_def)
qed

lemma lawful_finish_tool_calls: "lawful False st (finish_tool_calls env content calls st)"
proof -
  have "quiet st (note_signature sig st)" for sig by (simp add: note_signature_def quietly)
  with lawful_quiet lawful_break_loop lawful_do_tool_calls show ?thesis
    by (simp add: finish_tool_calls_def Let_def) blast
qed

subsection \<open>The whole iteration\<close>

lemma lawful_by_finish_reason: "lawful False st (by_finish_reason env content r st)"
  by (simp add: by_finish_reason_def lawful_finish_stop lawful_finish_tool_calls lawful_finish_length lawful_finish_other)

lemma quiet_record_usage: "quiet st (record_usage env a r st)"
  unfolding record_usage_def Let_def by (rule quiet_trans [OF quiet_update(8) quiet_say]) simp

lemma lawful_accept_answer: "lawful False st (accept_answer env a r content st)"
proof -
  let ?st1 = "record_usage env a r st" and ?m = "assistant_message content (sr_calls r)"
  obtain e st2 where st2: "persist env ?m ?st1 = (e, st2)" by (cases "persist env ?m ?st1")
  have q2: "quiet st st2" by (rule quiet_trans [OF quiet_record_usage persist_quiet [OF st2]])
  note l = lawful_quiet [OF quiet_record_usage lawful_fail_local] lawful_quiet [OF q2 lawful_fail_plain]
    lawful_quiet [OF quiet_trans [OF q2 quiet_add_message] lawful_by_finish_reason]
  show ?thesis
    unfolding accept_answer_def Let_def st2 using l by (cases e) auto
qed

lemma lawful_check_empty: "lawful False st (check_empty env a r content st)"
proof -
  have "quiet st (add_message m (st\<lparr>ls_empty := n\<rparr>))" for m n
    by (rule quiet_trans [OF quiet_update(2) quiet_add_message])
  then show ?thesis
    unfolding check_empty_def
    by (auto intro!: lawful_next lawful_accept_answer lawful_quiet [OF quiet_update(2) lawful_accept_answer])
qed

lemma calm_note_chain: "calm st (note_chain a r st)"
  by (simp add: note_chain_def calm_def forget_chain_def announces_def)

lemma lawful_after_answer: "lawful False st (after_answer env a st)"
proof -
  obtain res evs where res: "consume_stream (re_parse_text env) (re_process env = None) (la_stream a) = (res, evs)"
    by (cases "consume_stream (re_parse_text env) (re_process env = None) (la_stream a)")
  have q: "quiet st (say (map Streamed evs) st)" by (rule quiet_say) auto
  have q': "quiet st (say [Streamed x] (say (map Streamed evs) st))" for x by (rule quiet_trans [OF q quiet_say]) simp
  note l = lawful_quiet [OF q lawful_fail_local] lawful_quiet [OF q lawful_calm [OF calm_note_chain lawful_check_empty]]
    lawful_quiet [OF q' lawful_calm [OF calm_note_chain lawful_check_empty]]
  show ?thesis
    unfolding after_answer_def res Let_def prod.case using l
    by (cases res; cases "re_process env") (auto split: sum.splits)
qed

lemma run_step_lawful: "\<exists>b. lawful b st (run_step env st)"
proof -
  let ?st = "add_hints (drain_mailbox env st)"
  have q: "quiet st ?st" by (rule quiet_trans [OF quiet_drain_mailbox quiet_add_hints])
  obtain res fs w where m: "re_model env (llm_request_of env ?st) (world ?st) = (res, fs, w)"
    by (cases "re_model env (llm_request_of env ?st) (world ?st)")
  let ?st1 = "say (map (\<lambda>(a, b, e). ModelFallback a b e) fs) (set_world w ?st)"
  have "quiet (set_world w ?st) ?st1" by (rule quiet_say) auto
  with q have q1: "quiet st ?st1" by (blast intro: quiet_trans quiet_set_world)
  have "\<exists>b. lawful b st (call_model env ?st)"
    unfolding call_model_def m prod.case Let_def
    by (cases res) (auto intro: lawful_quiet [OF q1 lawful_after_failure] lawful_quiet [OF q1 lawful_after_answer])
  then show ?thesis
    unfolding run_step_def by (auto intro: lawful_fail_local lawful_fail_plain split: option.splits)
qed

lemma run_step_Again:
  assumes "run_step env st = Again a st'"
  shows "int (ls_turn st) < rc_max_iterations (re_config env)" "goes_on a st st'"
  using assms run_step_lawful [of st env] by (auto simp: run_step_def lawful_def fail_local_def Let_def split: if_splits)

lemma run_step_Ended: "run_step env st = Ended e st' \<Longrightarrow> ends e st st'"
  using run_step_lawful [of st env] by (auto simp: lawful_def)

section \<open>The number of iterations\<close>

text \<open>Eight iterations for each turn left: one that ends it, three recoveries and four lost response chains.\<close>

definition potential :: "'w run_env \<Rightarrow> 'w loop_state \<Rightarrow> nat" where
  "potential env st =
     (let left = nat (rc_max_iterations (re_config env) - int (ls_turn st))
      in if left = 0 then 0
         else 8 * (left - 1) + 2 * (3 - ls_recoveries st) + (if ls_response_id st = [] then 0 else 1) + 1)"

lemma potential_decreases:
  assumes "run_step env st = Again a st'" "a \<noteq> RetryCompacted"
  shows "potential env st' < potential env st"
proof -
  define left where "left = nat (rc_max_iterations (re_config env) - int (ls_turn st))"
  have pos: "0 < left" using run_step_Again(1) [OF assms(1)] by (simp add: left_def)
  note g = run_step_Again(2) [OF assms(1), unfolded goes_on_def]
  show ?thesis
  proof (cases "ls_turn st' = ls_turn st")
    case True
    then have "nat (rc_max_iterations (re_config env) - int (ls_turn st')) = left" by (simp add: left_def)
    with pos g assms(2) True show ?thesis
      by (cases a) (auto simp: potential_def Let_def left_def [symmetric])
  next
    case False
    with g have turn: "ls_turn st' = ls_turn st + 1" by (cases a) auto
    then have "nat (rc_max_iterations (re_config env) - int (ls_turn st')) = left - 1" by (simp add: left_def)
    with pos show ?thesis
      by (cases "left = 1") (auto simp: potential_def Let_def left_def [symmetric])
  qed
qed

lemma potential_compacted:
  assumes "run_step env st = Again RetryCompacted st'"
  shows "potential env st' \<le> potential env st"
  using run_step_Again(2) [OF assms] by (auto simp: goes_on_def potential_def Let_def)

lemma run_steps_length:
  "run_steps env n st = (as, Inr st') \<Longrightarrow> length as = n"
  by (induction n arbitrary: st as) (auto split: outcome.splits prod.splits)

lemma run_steps_potential:
  "run_steps env n st = (as, Inr st') \<Longrightarrow> n \<le> potential env st + count_list as RetryCompacted"
proof (induction n arbitrary: st as)
  case (Suc n)
  then obtain a st1 as' where s: "run_step env st = Again a st1" "run_steps env n st1 = (as', Inr st')" "as = a # as'"
    by (auto split: outcome.splits prod.splits)
  from Suc.IH [OF s(2)] potential_decreases [OF s(1)] potential_compacted [of env st st1] s
  show ?case by (cases "a = RetryCompacted") auto
qed simp

text \<open>Only a context manager compacts.\<close>

lemma after_answer_not_compacted: "after_answer env a st \<noteq> Again RetryCompacted st'"
  using lawful_after_answer [of st env a] by (auto simp: lawful_def failure_again_def)

lemma run_step_compacted:
  assumes "run_step env st = Again RetryCompacted st'"
  shows "\<exists>cfg r r' st1. rc_compact (re_config env) = Some cfg
    \<and> loop_compact (re_codec env) cfg (ls_messages st1) (system_tokens st1) = Inr r
    \<and> loop_verify (re_codec env) cfg r (system_tokens st1) = Inr r' \<and> st' = take_compacted env (fst r') st1"
proof -
  let ?st = "add_hints (drain_mailbox env st)"
  from assms have "call_model env ?st = Again RetryCompacted st'"
    by (auto simp: run_step_def fail_local_def fail_plain_def Let_def split: if_splits option.splits)
  then obtain err st1 where f: "after_failure env err st1 = Again RetryCompacted st'"
    using after_answer_not_compacted by (force simp: call_model_def Let_def split: prod.splits sum.splits)
  then have c: "rc_compact (re_config env) \<noteq> None"
    "recover_too_long env (the (rc_compact (re_config env))) err st1 = Again RetryCompacted st'"
    by (auto simp: after_failure_def fail_local_def Let_def split: if_splits)
  from c(1) obtain cfg where cfg: "rc_compact (re_config env) = Some cfg" by blast
  obtain r r' where r: "loop_compact (re_codec env) cfg (ls_messages st1) (system_tokens st1) = Inr r"
    "loop_verify (re_codec env) cfg r (system_tokens st1) = Inr r'"
    using loop_compact_ok loop_verify_ok by blast
  with c(2) have "st' = take_compacted env (fst r') st1" by (simp add: cfg recover_too_long_def)
  with cfg r show ?thesis by blast
qed

lemma no_manager_no_compaction:
  "rc_compact (re_config env) = None \<Longrightarrow> RetryCompacted \<notin> set (fst (run_steps env n st))"
proof (induction n arbitrary: st)
  case (Suc n)
  show ?case
  proof (cases "run_step env st")
    case (Again a st1)
    with run_step_compacted [of env st st1] Suc.prems have "a \<noteq> RetryCompacted" by auto
    with Suc.IH [OF Suc.prems, of st1] Again show ?thesis by (auto split: prod.splits)
  qed simp
qed simp

text \<open>
  C10: a run that is still going after some number of iterations has made at most eight of them for each turn it is
  allowed, apart from those that retried a prompt which was too long after a compaction. So a run without a context
  manager always ends.
\<close>

theorem run_iterations_bounded:
  fixes env :: "'w run_env"
  defines "most \<equiv> 8 * nat (rc_max_iterations (re_config env))"
  shows "(\<forall>n st'. snd (run_steps env n (new_loop env ms sys i denials w)) = Inr st' \<longrightarrow>
      n \<le> most + count_list (fst (run_steps env n (new_loop env ms sys i denials w))) RetryCompacted)
    \<and> (rc_compact (re_config env) = None \<longrightarrow>
        agentic_run env (Suc most) (new_loop env ms sys i denials w) \<noteq> None)"
proof (intro conjI allI impI)
  let ?st = "new_loop env ms sys i denials w"
  have most: "potential env ?st \<le> most"
    by (auto simp: most_def potential_def new_loop_def Let_def)
  show bound: "n \<le> most + count_list (fst (run_steps env n ?st)) RetryCompacted"
    if "snd (run_steps env n ?st) = Inr st'" for n st'
    using run_steps_potential [of env n ?st "fst (run_steps env n ?st)" st'] that most
    by (cases "run_steps env n ?st") auto
  show "agentic_run env (Suc most) ?st \<noteq> None" if "rc_compact (re_config env) = None"
    using bound [of "Suc most"] no_manager_no_compaction [OF that, of "Suc most" ?st]
    by (auto simp: agentic_run_def count_list_0_iff split: sum.splits)
qed

section \<open>The end of a run\<close>

lemma run_steps_announce:
  "run_steps env n st = (as, res) \<Longrightarrow>
     (case res of Inl (e, st') \<Rightarrow> ends e st st' | Inr st' \<Rightarrow> announces 0 st st' \<and> ls_completed st' = ls_completed st)"
proof (induction n arbitrary: st as)
  case (Suc n)
  show ?case
  proof (cases "run_step env st")
    case (Again a st1)
    with Suc.prems obtain as' where "run_steps env n st1 = (as', res)" by (auto split: prod.splits)
    with Suc.IH have "case res of Inl (e, st') \<Rightarrow> ends e st1 st'
      | Inr st' \<Rightarrow> announces 0 st1 st' \<and> ls_completed st' = ls_completed st1" by blast
    with run_step_Again(2) [OF Again] announces_trans [of 0 st st1] show ?thesis
      by (auto simp: goes_on_def ends_def split: sum.splits prod.splits if_splits)
  next
    case (Ended e st1)
    with Suc.prems run_step_Ended [OF Ended] show ?thesis by auto
  qed
qed auto

lemma announces_new: "announces n (new_loop env ms sys i denials w) st \<longleftrightarrow> length (filter is_complete (ls_events st)) = n"
  by (simp add: announces_def new_loop_def)

text \<open>
  C14: every run that ends announces its completion exactly once, whether it ends well, with an error or in a panic.
\<close>

theorem run_completes_once:
  assumes "agentic_run env n (new_loop env ms sys i denials w) = Some (e, st)"
  shows "length (filter is_complete (ls_events st)) = 1"
proof -
  let ?st = "new_loop env ms sys i denials w"
  from assms obtain st1 where st1: "snd (run_steps env n ?st) = Inl (e, st1)" "st = close_run env st1"
    by (auto simp: agentic_run_def split: sum.splits)
  then obtain as where "run_steps env n ?st = (as, Inl (e, st1))" by (cases "run_steps env n ?st") auto
  from run_steps_announce [OF this] have e: "ends e ?st st1" by simp
  define st2 where "st2 = (case ls_last_error st1 of None \<Rightarrow> st1
    | Some (code, msg) \<Rightarrow> snd (persist env (assistant_message (re_friendly env code msg) []) st1))"
  have "quiet st1 st2" by (auto simp: st2_def intro: quiet_persist split: option.splits prod.splits)
  with e announces_trans [of _ ?st st1 0 st2]
  have "if e = RunDone then announces 1 ?st st2 \<and> ls_completed st2 else announces 0 ?st st2 \<and> \<not> ls_completed st2"
    by (auto simp: ends_def quiet_def new_loop_def split: if_splits)
  moreover have "st = (if ls_completed st2 then st2 else say [RunComplete (ls_turn st2) (ls_tokens st2) (ls_cost st2)] st2)"
    using st1(2) by (simp add: close_run_def Let_def st2_def [symmetric])
  ultimately show ?thesis
    by (auto simp: announces_new say_def split: if_splits)
qed

section \<open>What compaction does to the history of a run\<close>

lemma role_of_name [simp]: "role_of (role_name r) = (case r of RoleOther s \<Rightarrow> role_of s | _ \<Rightarrow> r)"
  by (cases r) (simp_all add: role_of_def)

text \<open>
  The conversion knows no message types and no identifiers of results: nothing is recognized as a tool result.
\<close>

lemma to_ctx_untyped [simp]:
  "xm_type (to_ctx_message codec m) = TypeOther []" "xm_call_id (to_ctx_message codec m) = None"
  "xm_content (to_ctx_message codec m) = cm_content m"
  by (simp_all add: to_ctx_message_def)

lemma truncate_untyped: "truncate_old_tool_results (map (to_ctx_message codec) ms) tail k = map (to_ctx_message codec) ms"
proof -
  have "map (truncate_result k) (map (to_ctx_message codec) xs) = map (to_ctx_message codec) xs" for xs
    by (simp add: truncate_result_def)
  then show ?thesis
    unfolding truncate_old_tool_results_def update_before_def by (metis append_take_drop_id take_map)
qed

definition microcompact_chat :: "chat_message \<Rightarrow> chat_message" where
  "microcompact_chat m =
     m\<lparr>cm_content := (if 100 < length (cm_content m) then take 100 (cm_content m) @ ''...'' else cm_content m), cm_calls := []\<rparr>"

lemma needed_untyped: "needed_ids dec (map (to_ctx_message codec) ms) = []"
proof -
  have "List.map_filter result_id (map (to_ctx_message codec) ms) = []"
    by (induction ms) (auto simp: map_filter_simps result_id_def)
  then show ?thesis by (simp add: needed_ids_def)
qed

lemma look_back_nothing: "look_back dec ms [] k = k"
  by (cases ms) simp_all

lemma adjust_untyped: "adjust_split_for_tool_pairs dec (map (to_ctx_message codec) ms) k = k"
  using needed_untyped [of dec codec "drop k ms"] look_back_nothing
  by (simp add: adjust_split_for_tool_pairs_def drop_map)

lemma snip_untyped: "snip_old_history dec (map (to_ctx_message codec) ms) keep = map (to_ctx_message codec) (last_n keep ms)"
  by (simp add: snip_old_history_def adjust_untyped last_n_def drop_map)

text \<open>What is left of a message after the conversion back and forth.\<close>

definition converted :: "call_codec \<Rightarrow> chat_message \<Rightarrow> chat_message" where
  "converted codec m = from_ctx_message codec (to_ctx_message codec m)"

definition codec_ok :: "call_codec \<Rightarrow> bool" where
  "codec_ok codec \<longleftrightarrow> (\<forall>cs. cs \<noteq> [] \<longrightarrow> cc_encode codec cs \<noteq> [] \<and> cc_decode codec (cc_encode codec cs) = Some cs)"

lemma converted_fields:
  assumes "codec_ok codec"
  shows "cm_content (converted codec m) = cm_content m" "cm_calls (converted codec m) = cm_calls m"
    "cm_call_id (converted codec m) = []"
    "cm_role (converted codec m) = role_of (role_name (cm_role m))"
  using assms by (auto simp: converted_def from_ctx_message_def to_ctx_message_def codec_ok_def)

lemma last_n_map: "last_n n (map f xs) = map f (last_n n xs)"
  by (simp add: last_n_def drop_map)

lemma tool_result_ids_empty: "\<forall>m \<in> set ms. cm_call_id m = [] \<Longrightarrow> tool_result_ids ms = {}"
  by (auto simp: tool_result_ids_def list_ex_iff)

lemma converted_microcompact:
  assumes "codec_ok codec"
  shows "from_ctx_message codec (microcompact_message (to_ctx_message codec m)) = converted codec (microcompact_chat m)"
  by (simp add: converted_def microcompact_chat_def microcompact_message_def from_ctx_message_def to_ctx_message_def)

text \<open>
  C13: what compaction really does to the messages of a run: the first stage truncates nothing, the second cuts the
  history without regard to tool pairs, the third truncates and removes calls, and the last summarizes nothing. In every
  case, also where no stage applies, the results of tools lose the identifiers of their calls, so no call is answered
  afterwards.
\<close>

theorem loop_compaction_exact:
  assumes "codec_ok codec" "loop_compact codec cfg ms sys = Inr (r, stage)"
  defines "out \<equiv> map (from_ctx_message codec) (cx_messages r)"
  shows "out = (case stage of
        Some StageHistorySnip \<Rightarrow> map (converted codec) (last_n (xc_tail cfg * 2) ms)
      | Some StageMicrocompact \<Rightarrow>
          map (converted codec \<circ> microcompact_chat) (take (length ms - xc_tail cfg) ms)
          @ map (converted codec) (drop (length ms - xc_tail cfg) ms)
      | _ \<Rightarrow> map (converted codec) ms)
    \<and> tool_result_ids out = {}
    \<and> (\<forall>m c. m \<in> set out \<and> cm_role m = RoleAssistant \<and> c \<in> set (cm_calls m) \<longrightarrow> \<not> call_resolved out c)"
proof -
  have conv: "from_ctx_message codec \<circ> to_ctx_message codec = converted codec"
    by (rule ext) (simp add: converted_def)
  have micro: "map (from_ctx_message codec) (microcompact (map (to_ctx_message codec) ms) k)
      = map (converted codec \<circ> microcompact_chat) (take (length ms - k) ms) @ map (converted codec) (drop (length ms - k) ms)" for k
    by (simp add: microcompact_def update_before_def take_map drop_map conv comp_def converted_microcompact [OF assms(1)] converted_def)
  have eq: "out = (case stage of
        Some StageHistorySnip \<Rightarrow> map (converted codec) (last_n (xc_tail cfg * 2) ms)
      | Some StageMicrocompact \<Rightarrow>
          map (converted codec \<circ> microcompact_chat) (take (length ms - xc_tail cfg) ms)
          @ map (converted codec) (drop (length ms - xc_tail cfg) ms)
      | _ \<Rightarrow> map (converted codec) ms)"
    using assms(2) micro
    by (auto simp: out_def loop_compact_def reactive_compact_def staged_def unchanged_def compact_def
        truncate_untyped snip_untyped conv split: option.splits compact_stage.splits)
  then have ids: "\<forall>m \<in> set out. cm_call_id m = []"
    using converted_fields(3) [OF assms(1)] by (auto split: option.splits compact_stage.splits)
  with eq tool_result_ids_empty [OF ids] show ?thesis by (auto simp: call_resolved_def)
qed

subsection \<open>A sample environment\<close>

text \<open>Calls as text: a mark before every character and one at the end of each field.\<close>

fun encode_field :: "string \<Rightarrow> string" where
  "encode_field [] = ''.''"
| "encode_field (c # cs) = CHR ''x'' # c # encode_field cs"

fun decode_field :: "string \<Rightarrow> (string \<times> string) option" where
  "decode_field [] = None"
| "decode_field [_] = Some ([], [])"
| "decode_field (a # c # rest) =
     (if a = CHR ''.'' then Some ([], c # rest)
      else (case decode_field rest of None \<Rightarrow> None | Some (s, r) \<Rightarrow> Some (c # s, r)))"

lemma decode_field_encode: "decode_field (encode_field s @ rest) = Some (s, rest)"
  by (induction s) (cases rest; simp)+

definition encode_calls :: "tool_call list \<Rightarrow> string" where
  "encode_calls cs = concat (map (\<lambda>c. encode_field (tc_id c) @ encode_field (tc_name c) @ encode_field (tc_args c)) cs)"

fun decode_calls :: "nat \<Rightarrow> string \<Rightarrow> tool_call list option" where
  "decode_calls 0 s = (if s = [] then Some [] else None)"
| "decode_calls (Suc n) s =
     (if s = [] then Some []
      else case decode_field s of
             None \<Rightarrow> None
           | Some (i, s1) \<Rightarrow>
               (case decode_field s1 of
                  None \<Rightarrow> None
                | Some (m, s2) \<Rightarrow>
                    (case decode_field s2 of
                       None \<Rightarrow> None
                     | Some (a, s3) \<Rightarrow>
                         map_option (Cons \<lparr>tc_id = i, tc_name = m, tc_args = a\<rparr>) (decode_calls n s3))))"

lemma decode_calls_encode: "length cs \<le> n \<Longrightarrow> decode_calls n (encode_calls cs) = Some cs"
proof (induction cs arbitrary: n)
  case Nil
  then show ?case by (cases n) (simp_all add: encode_calls_def)
next
  case (Cons c cs)
  then obtain k where k: "n = Suc k" "length cs \<le> k" by (cases n) auto
  have "encode_calls (c # cs) = encode_field (tc_id c) @ encode_field (tc_name c) @ encode_field (tc_args c) @ encode_calls cs"
    by (simp add: encode_calls_def)
  moreover have "encode_field s \<noteq> []" for s by (cases s) simp_all
  ultimately show ?case
    by (simp add: k(1) decode_field_encode Cons.IH [OF k(2)])
qed

definition sample_codec :: call_codec where
  "sample_codec = \<lparr>cc_encode = encode_calls, cc_decode = (\<lambda>s. decode_calls (length s) s)\<rparr>"

lemma sample_codec_ok: "codec_ok sample_codec"
proof -
  have f: "0 < length (encode_field s)" for s by (cases s) simp_all
  have "length cs \<le> length (encode_calls cs)" for cs
  proof (induction cs)
    case (Cons c cs)
    with f [of "tc_id c"] show ?case
      unfolding encode_calls_def list.map concat.simps length_append list.size by linarith
  qed simp
  then have "decode_calls (length (encode_calls cs)) (encode_calls cs) = Some cs" for cs
    by (rule decode_calls_encode)
  moreover have "encode_calls cs \<noteq> []" if "cs \<noteq> []" for cs
    using that f by (cases cs) (auto simp: encode_calls_def)
  ultimately show ?thesis by (simp add: codec_ok_def sample_codec_def)
qed

text \<open>A run without hooks and services around a given model; the world counts the calls.\<close>

definition sample_run_config :: "compact_config option \<Rightarrow> run_config" where
  "sample_run_config manager =
     \<lparr>rc_max_iterations = 5, rc_max_tokens = 4096, rc_turn_tokens = (\<lambda>_. 0), rc_budget = None, rc_output_budget = 0,
      rc_result_limits = [], rc_result_max = 0, rc_turn_chars = 0, rc_compact = manager, rc_depth = 0\<rparr>"

definition sample_run :: "compact_config option \<Rightarrow> (nat \<Rightarrow> string + llm_answer) \<Rightarrow> nat run_env" where
  "sample_run manager model =
     \<lparr>re_config = sample_run_config manager, re_codec = sample_codec, re_cancelled = (\<lambda>_. None),
      re_is_canceled = (\<lambda>_. False), re_mailbox = None, re_model = (\<lambda>_ k. (model k, [], Suc k)),
      re_overflow = (\<lambda>_. None), re_parse_text = (\<lambda>_. None), re_process = None, re_cost = (\<lambda>_ _. 1),
      re_money = itoa, re_persist = (\<lambda>_ k. (None, k)), re_turn_end = (\<lambda>_ _ _ k. ([], [], k)), re_stop_hooks = None,
      re_background = (\<lambda>_ _ k. k), re_run_end = (\<lambda>_ k. ([], [], k)), re_dispatch = (\<lambda>_. bare_env None),
      re_strip = id, re_sanitize = id, re_redact = id, re_safe = id, re_friendly = (\<lambda>_ m. m),
      re_summary = (\<lambda>_ _ _. []), re_rebuild = (\<lambda>k. (None, k))\<rparr>"

definition sample_manager :: compact_config where
  "sample_manager = \<lparr>xc_model = ''gpt-4'', xc_window = 0, xc_tail = 4\<rparr>"

lemma loop_compaction_exact_witness:
  "\<exists>r stage. loop_compact sample_codec sample_manager
       [assistant_message [] [\<lparr>tc_id = ''a'', tc_name = ''f'', tc_args = ''{}''\<rparr>], tool_message ''a'' ''1''] 0 = Inr (r, stage)
     \<and> tool_result_ids (map (from_ctx_message sample_codec) (cx_messages r)) = {}"
proof -
  let ?ms = "[assistant_message [] [\<lparr>tc_id = ''a'', tc_name = ''f'', tc_args = ''{}''\<rparr>], tool_message ''a'' ''1'']"
  obtain r stage where r: "loop_compact sample_codec sample_manager ?ms 0 = Inr (r, stage)"
    using loop_compact_ok [of sample_codec sample_manager ?ms 0] by auto
  from loop_compaction_exact [OF sample_codec_ok r] r show ?thesis by blast
qed

section \<open>A run that never ends\<close>

lemma estimate_converted:
  assumes "codec_ok codec"
  shows "estimate_tokens (map (to_ctx_message codec) (map (converted codec) ms)) = estimate_tokens (map (to_ctx_message codec) ms)"
proof -
  have "estimate_message_tokens (to_ctx_message codec (converted codec m)) = estimate_message_tokens (to_ctx_message codec m)" for m
    using converted_fields [OF assms, of m] by (simp add: estimate_message_tokens_def to_ctx_message_def)
  then show ?thesis by (simp add: estimate_tokens_sum comp_def)
qed

text \<open>Below 75 and from 90 per cent on compaction only converts the messages.\<close>

definition incompressible :: "call_codec \<Rightarrow> compact_config \<Rightarrow> chat_message list \<Rightarrow> nat \<Rightarrow> bool" where
  "incompressible codec cfg ms sys =
     (usage_stage cfg (map (to_ctx_message codec) ms) sys \<in> {None, Some StageFullSummarization})"

lemma incompressible_compact:
  assumes "incompressible codec cfg ms sys"
  shows "\<exists>r. loop_compact codec cfg ms sys = Inr r \<and> loop_verify codec cfg r sys = Inr r
    \<and> map (from_ctx_message codec) (cx_messages (fst r)) = map (converted codec) ms"
proof -
  have conv: "from_ctx_message codec \<circ> to_ctx_message codec = converted codec"
    by (rule ext) (simp add: converted_def)
  show ?thesis
    using assms
    by (auto simp: incompressible_def loop_compact_def loop_verify_def reactive_compact_def verify_compaction_def
        compact_def unchanged_def conv)
qed

text \<open>The model rejects every prompt as too long, and there is nothing to compress.\<close>

definition stuck :: "'w run_env \<Rightarrow> compact_config \<Rightarrow> string \<Rightarrow> 'w loop_state \<Rightarrow> bool" where
  "stuck env cfg err st \<longleftrightarrow>
     codec_ok (re_codec env) \<and> rc_compact (re_config env) = Some cfg \<and> re_mailbox env = None
     \<and> (\<forall>req w. fst (re_model env req w) = Inl err)
     \<and> re_overflow env err = None \<and> is_prompt_too_long err
     \<and> int (ls_turn st) < rc_max_iterations (re_config env) \<and> ls_compact_failures st < 3 \<and> denial_hints st = []
     \<and> incompressible (re_codec env) cfg (ls_messages st) (system_tokens st)"

lemma stuck_step:
  assumes "stuck env cfg err st" and alive: "re_cancelled env (world st) = None"
  shows "\<exists>st'. run_step env st = Again RetryCompacted st' \<and> stuck env cfg err st'"
proof -
  note s = assms(1) [unfolded stuck_def]
  from s have st: "add_hints (drain_mailbox env st) = st" by (simp add: drain_mailbox_def add_hints_def)
  obtain fs w where m: "re_model env (llm_request_of env st) (world st) = (Inl err, fs, w)"
    using s by (metis prod.exhaust_sel)
  define st1 where "st1 = say (map (\<lambda>(a, b, e). ModelFallback a b e) fs) (set_world w st)"
  have st1: "ls_messages st1 = ls_messages st" "ls_system st1 = ls_system st" "ls_compact_failures st1 = ls_compact_failures st"
    "ls_turn st1 = ls_turn st" "denial_hints st1 = denial_hints st"
    by (simp_all add: st1_def say_def set_world_def denial_hints_def)
  then have sys: "system_tokens st1 = system_tokens st" by (simp add: system_tokens_def)
  obtain r where r: "loop_compact (re_codec env) cfg (ls_messages st1) (system_tokens st1) = Inr r"
    "loop_verify (re_codec env) cfg r (system_tokens st1) = Inr r"
    "map (from_ctx_message (re_codec env)) (cx_messages (fst r)) = map (converted (re_codec env)) (ls_messages st)"
    using incompressible_compact [of "re_codec env" cfg "ls_messages st" "system_tokens st"] s st1(1) sys by auto
  let ?st2 = "take_compacted env (fst r) st1"
  from s r st1 have "after_failure env err st1 = Again RetryCompacted ?st2"
    by (simp add: after_failure_def recover_too_long_def)
  with s m have "run_step env st = Again RetryCompacted ?st2"
    by (simp add: run_step_def alive st call_model_def st1_def [symmetric])
  moreover have "ls_messages ?st2 = map (converted (re_codec env)) (ls_messages st)" "ls_turn ?st2 = ls_turn st"
    "ls_compact_failures ?st2 = 0" "denial_hints ?st2 = denial_hints st" "system_tokens ?st2 = system_tokens st"
    using r(3) st1 sys by (simp_all add: take_compacted_def say_def forget_chain_def denial_hints_def system_tokens_def)
  then have "stuck env cfg err ?st2"
    using s estimate_converted [of "re_codec env" "ls_messages st"]
    by (simp add: stuck_def incompressible_def usage_stage_def)
  ultimately show ?thesis by blast
qed

lemma stuck_done:
  assumes "stuck env cfg err st" and "re_cancelled env (world st) \<noteq> None"
  shows "\<exists>st'. run_step env st = Ended (RunError ''context_cancelled'') st'"
  using assms by (auto simp: run_step_def stuck_def fail_plain_def)

text \<open>
  C11: when the provider rejects every prompt as too long, with an error that names no counts of tokens, although the estimate of
  its tokens is below three quarters of the window, or at nine tenths or more, the recovery compacts nothing, forgets its failures
  and calls the model again without counting the turn. Whatever number of iterations is looked at, either every one of them was such a
  retry and the run has not ended, or the context was done at the start of an iteration and the run ended with the error for that. So no
  limit of the loop ends such a run, only its context does: a cancellation or the total timeout, which is 15 minutes by
  default. (The run has compaction, starts below its limits of iterations and of failed compactions, and has no mailbox and no hints
  about denials; encoded calls can be decoded.)
\<close>

theorem too_long_recovery_livelock:
  assumes "stuck env cfg err st"
  shows "\<exists>k st'. k \<le> n \<and> run_steps env k st = (replicate k RetryCompacted, Inr st')
    \<and> (if k = n then agentic_run env n st = None
       else re_cancelled env (world st') \<noteq> None \<and> (\<exists>end_st. agentic_run env n st = Some (RunError ''context_cancelled'', end_st)))"
  using assms
proof (induction n arbitrary: st)
  case 0
  then show ?case by (simp add: agentic_run_def)
next
  case (Suc n)
  show ?case
  proof (cases "re_cancelled env (world st)")
    case (Some e)
    then obtain st' where "run_step env st = Ended (RunError ''context_cancelled'') st'"
      using stuck_done [OF Suc.prems] by auto
    with Some show ?thesis by (intro exI [of _ 0]) (simp add: agentic_run_def)
  next
    case None
    obtain st1 where st1: "run_step env st = Again RetryCompacted st1" "stuck env cfg err st1"
      using stuck_step [OF Suc.prems None] by blast
    obtain k st' where k: "k \<le> n" "run_steps env k st1 = (replicate k RetryCompacted, Inr st')"
      "if k = n then agentic_run env n st1 = None
       else re_cancelled env (world st') \<noteq> None \<and> (\<exists>end_st. agentic_run env n st1 = Some (RunError ''context_cancelled'', end_st))"
      using Suc.IH [OF st1(2)] by blast
    have "agentic_run env (Suc n) st = agentic_run env n st1"
      by (simp add: agentic_run_def st1(1) split_beta)
    with k st1(1) show ?thesis by (intro exI [of _ "Suc k"] exI [of _ st']) (auto split: if_splits)
  qed
qed

text \<open>A run whose context is never done: whatever number of iterations, although the limit is five.\<close>

definition rejecting_run :: "nat run_env" where
  "rejecting_run = sample_run (Some sample_manager) (\<lambda>_. Inl ''prompt is too long'')"

lemma sample_window: "get_context_window_size (xc_model sample_manager) (xc_window sample_manager) = 8192"
  by (simp add: get_context_window_size_def context_window_size_from_def known_context_windows_def sample_manager_def)

lemma too_long_recovery_livelock_witness:
  "\<forall>n. agentic_run rejecting_run n (new_loop rejecting_run [user_message ''hello''] [] [] None 0) = None"
proof
  fix n
  have "usage_stage sample_manager (map (to_ctx_message sample_codec) [user_message ''hello'']) 0 = None"
    by (simp add: usage_stage_def sample_window estimate_tokens_def estimate_message_tokens_def to_ctx_message_def
        user_message_def stage_for_def)
  moreover have "is_prompt_too_long ''prompt is too long''" by code_simp
  ultimately have "stuck rejecting_run sample_manager ''prompt is too long''
      (new_loop rejecting_run [user_message ''hello''] [] [] None 0)"
    using sample_codec_ok
    by (simp add: stuck_def rejecting_run_def sample_run_def sample_run_config_def new_loop_def denial_hints_def
        new_run_state_def incompressible_def system_tokens_def estimate_string_tokens_def)
  from too_long_recovery_livelock [OF this, of n]
  show "agentic_run rejecting_run n (new_loop rejecting_run [user_message ''hello''] [] [] None 0) = None"
  proof (elim exE conjE)
    fix k st'
    assume r: "if k = n then agentic_run rejecting_run n (new_loop rejecting_run [user_message ''hello''] [] [] None 0) = None
      else re_cancelled rejecting_run (world st') \<noteq> None
        \<and> (\<exists>end_st. agentic_run rejecting_run n (new_loop rejecting_run [user_message ''hello''] [] [] None 0)
              = Some (RunError ''context_cancelled'', end_st))"
    have "re_cancelled rejecting_run (world st') = None" by (simp add: rejecting_run_def sample_run_def)
    with r show ?thesis by (simp split: if_splits)
  qed
qed

definition failing_run :: "nat run_env" where
  "failing_run = sample_run None (\<lambda>_. Inl ''boom'')"

abbreviation failing_start :: "nat loop_state" where
  "failing_start \<equiv> new_loop failing_run [user_message ''hello''] [] [] None 0"

lemma failing_step: "\<exists>st. run_step failing_run failing_start = Ended (RunError ''llm_call'') st"
  by (simp add: run_step_def failing_run_def sample_run_def sample_run_config_def new_loop_def new_run_state_def
      add_hints_def denial_hints_def drain_mailbox_def call_model_def after_failure_def fail_local_def Let_def
      set_world_def say_def)

lemma run_iterations_bounded_witness:
  "agentic_run failing_run 41 failing_start \<noteq> None"
proof -
  have "rc_compact (re_config failing_run) = None" "rc_max_iterations (re_config failing_run) = 5"
    by (simp_all add: failing_run_def sample_run_def sample_run_config_def)
  with run_iterations_bounded [of failing_run "[user_message ''hello'']" "[]" "[]" None 0] show ?thesis by simp
qed

lemma run_completes_once_witness:
  "\<exists>e st. agentic_run failing_run 1 failing_start = Some (e, st) \<and> length (filter is_complete (ls_events st)) = 1"
proof -
  obtain st where "run_step failing_run failing_start = Ended (RunError ''llm_call'') st" using failing_step by blast
  then have "agentic_run failing_run 1 failing_start = Some (RunError ''llm_call'', close_run failing_run st)"
    by (simp add: agentic_run_def)
  with run_completes_once [OF this] show ?thesis by blast
qed

section \<open>The calls of the history are answered\<close>

text \<open>Every message with calls is followed by one result for each, in their order, and there are no other results.\<close>

function answered :: "chat_message list \<Rightarrow> bool" where
  "answered [] = True"
| "answered (m # ms) =
     (if cm_calls m = [] then cm_role m \<noteq> RoleTool \<and> answered ms
      else map (\<lambda>r. (cm_role r, cm_call_id r)) (take (length (cm_calls m)) ms) = map (\<lambda>c. (RoleTool, tc_id c)) (cm_calls m)
           \<and> answered (drop (length (cm_calls m)) ms))"
  by pat_completeness auto
termination by (relation "measure length") auto

lemma answered_append: "answered xs \<Longrightarrow> answered ys \<Longrightarrow> answered (xs @ ys)"
proof (induction xs rule: answered.induct)
  case (2 m ms)
  show ?case
  proof (cases "cm_calls m = []")
    case False
    with 2 have eq: "map (\<lambda>r. (cm_role r, cm_call_id r)) (take (length (cm_calls m)) ms) = map (\<lambda>c. (RoleTool, tc_id c)) (cm_calls m)"
      "answered (drop (length (cm_calls m)) ms)" by auto
    from arg_cong [OF eq(1), of length] have "length (cm_calls m) \<le> length ms" by simp
    with 2 False eq show ?thesis by simp
  qed (use 2 in auto)
qed simp

definition plain :: "chat_message \<Rightarrow> bool" where
  "plain m \<longleftrightarrow> cm_calls m = [] \<and> cm_role m \<noteq> RoleTool"

lemma answered_plain: "list_all plain ms \<Longrightarrow> answered ms"
  by (induction ms) (auto simp: plain_def)

lemma plain_simps [simp]: "plain (user_message s)" "plain (assistant_message s cs) \<longleftrightarrow> cs = []"
  by (simp_all add: plain_def user_message_def assistant_message_def)

definition results_for :: "tool_call list \<Rightarrow> chat_message list \<Rightarrow> bool" where
  "results_for calls ms \<longleftrightarrow> map (\<lambda>r. (cm_role r, cm_call_id r)) ms = map (\<lambda>c. (RoleTool, tc_id c)) calls"

lemma answered_tool_turn:
  assumes "results_for calls rs" "list_all plain ms"
  shows "answered (assistant_message s calls # rs @ ms)"
proof (cases "calls = []")
  case True
  with assms show ?thesis using answered_plain by (auto simp: results_for_def assistant_message_def)
next
  case False
  from arg_cong [OF assms(1) [unfolded results_for_def], of length] have "length rs = length calls" by simp
  with False assms answered_plain show ?thesis by (auto simp: results_for_def assistant_message_def)
qed

text \<open>Which messages a step adds.\<close>

definition adds :: "chat_message list \<Rightarrow> 'w loop_state \<Rightarrow> 'w loop_state \<Rightarrow> bool" where
  "adds ms st st' \<longleftrightarrow> ls_messages st' = ls_messages st @ ms"

definition adds_plain :: "'w loop_state \<Rightarrow> 'w loop_state \<Rightarrow> bool" where
  "adds_plain st st' \<longleftrightarrow> (\<exists>ms. adds ms st st' \<and> list_all plain ms)"

lemma adds_plain_trans [trans]: "adds_plain st st1 \<Longrightarrow> adds_plain st1 st2 \<Longrightarrow> adds_plain st st2"
  by (fastforce simp: adds_plain_def adds_def)

lemma messages_same [simp]:
  "ls_messages (say evs st) = ls_messages st" "ls_messages (set_world w st) = ls_messages st"
  "ls_messages (snd (persist env m st)) = ls_messages st" "ls_messages (next_turn st) = ls_messages st"
  "ls_messages (forget_chain st) = ls_messages st" "ls_messages (note_chain a r st) = ls_messages st"
  "ls_messages (note_signature sig st) = ls_messages st" "ls_messages (record_usage env a r st) = ls_messages st"
  "ls_messages (add_message m st) = ls_messages st @ [m]"
  by (simp_all add: say_def set_world_def persist_def split_beta next_turn_def forget_chain_def note_chain_def
      note_signature_def record_usage_def Let_def add_message_def)

lemma persist_messages: "persist env m st = (e, st') \<Longrightarrow> ls_messages st' = ls_messages st"
  using messages_same(3) [of env m st] by simp

lemma adds_plain_same: "ls_messages st' = ls_messages st \<Longrightarrow> adds_plain st st'"
  by (auto simp: adds_plain_def adds_def)

lemma adds_plain_user: "adds_plain st (add_message (user_message s) st)"
  by (auto simp: adds_plain_def adds_def)

lemma adds_plain_note: "adds_plain st (add_note env injects st)"
  by (auto simp: add_note_def adds_plain_def adds_def)

lemma adds_plain_before: "adds_plain st (add_hints (drain_mailbox env st))"
proof -
  have "adds_plain st (drain_mailbox env st)"
    by (auto simp: drain_mailbox_def adds_plain_def adds_def split: option.splits prod.splits)
  moreover have "adds_plain st1 (add_hints st1)" for st1 :: "'a loop_state"
    by (auto simp: add_hints_def adds_plain_def adds_def)
  ultimately show ?thesis using adds_plain_trans by blast
qed

lemma adds_plain_turn_end: "adds_plain st (turn_end_hooks env content calls st)"
proof (cases "re_turn_end env (ls_turn st) content calls (world st)")
  case (fields injects errs w)
  have "adds_plain st (say (map (\<lambda>e. ErrorEvent ''turn_end_handler'' (re_safe env e)) errs) (set_world w st))"
    by (rule adds_plain_same) simp
  from adds_plain_trans [OF this adds_plain_note] show ?thesis by (simp add: turn_end_hooks_def fields)
qed

lemma handle_stop_hooks_messages: "handle_stop_hooks env b st = (r, st') \<Longrightarrow> ls_messages st' = ls_messages st"
  by (auto simp: handle_stop_hooks_def Let_def split_beta)

lemma adds_plain_users: "adds_plain st (foldl (\<lambda>s e. add_message (user_message e) s) st es)"
  by (induction es arbitrary: st) (auto intro: adds_plain_same adds_plain_trans adds_plain_user)

lemma post_turn_plain:
  assumes "post_turn env content calls b st = Inr st'"
  shows "adds_plain st st'"
proof -
  obtain r st1 where r: "handle_stop_hooks env b (turn_end_hooks env content calls st) = (r, st1)"
    by (cases "handle_stop_hooks env b (turn_end_hooks env content calls st)")
  have "adds_plain st st1"
    by (rule adds_plain_trans [OF adds_plain_turn_end adds_plain_same]) (rule handle_stop_hooks_messages [OF r])
  from adds_plain_trans [OF this adds_plain_users] assms r show ?thesis by (auto simp: post_turn_def split: if_splits)
qed

lemma tool_message_pair [simp]: "(cm_role (tool_message i s), cm_call_id (tool_message i s)) = (RoleTool, i)"
  by (simp add: tool_message_def)

lemma store_nudges_adds:
  "store_nudges env nudge tcs st = (None, st') \<Longrightarrow> \<exists>ms. adds ms st st' \<and> results_for tcs ms"
proof (induction tcs arbitrary: st)
  case Nil
  then show ?case by (auto simp: adds_def results_for_def)
next
  case (Cons tc tcs)
  let ?m = "tool_message (tc_id tc) nudge"
  obtain e st1 where st1: "persist env ?m st = (e, st1)" by (cases "persist env ?m st")
  with Cons.prems have "store_nudges env nudge tcs (add_message ?m st1) = (None, st')" by (cases e) auto
  with Cons.IH obtain ms where "adds ms (add_message ?m st1) st'" "results_for tcs ms" by blast
  with persist_messages [OF st1] show ?case
    by (intro exI [of _ "?m # ms"]) (auto simp: adds_def results_for_def tool_message_def)
qed

lemma store_results_adds:
  "store_results env ps chars st = (None, st') \<Longrightarrow> \<exists>ms. adds ms st st' \<and> results_for (map fst ps) ms"
proof (induction ps arbitrary: chars st)
  case Nil
  then show ?case by (auto simp: adds_def results_for_def)
next
  case (Cons p ps)
  obtain tc r where p: "p = (tc, r)" by (cases p)
  define shown where "shown = result_shown env (tc_name tc) r chars"
  define m where "m = tool_message (tc_id tc) (format_tool_result (re_strip env) (result_sanitized env shown))"
  obtain e st1 where st1: "persist env m st = (e, st1)" by (cases "persist env m st")
  with Cons.prems obtain k evs where "store_results env ps k (say evs (add_message m st1)) = (None, st')"
    by (cases e) (auto simp: p Let_def shown_def [symmetric] m_def [symmetric])
  with Cons.IH obtain ms where "adds ms (say evs (add_message m st1)) st'" "results_for (map fst ps) ms" by blast
  with persist_messages [OF st1] show ?case
    by (intro exI [of _ "m # ms"]) (auto simp: adds_def results_for_def p m_def tool_message_def)
qed

lemma run_calls_results:
  assumes "run_calls env calls st = (results, st')"
  shows "length results = length calls" "ls_messages st' = ls_messages st"
  using assms by (auto simp: run_calls_def execute_with_permissions_def Let_def split_beta length_place_results length_dispatch_calls)

lemma close_tool_turn_plain:
  assumes "rc_compact (re_config env) = None" "close_tool_turn env content calls results st = Again a st'"
  shows "adds_plain st st'"
proof -
  define st1 where "st1 = add_note env (filter (\<lambda>s. s \<noteq> []) (map er_inject results))
      (st\<lparr>ls_tool_errors := list_ex (\<lambda>r. er_error r \<noteq> None) results\<rparr>)"
  define summary where "summary = (if calls \<noteq> [] \<and> results \<noteq> [] then re_summary env calls results content else [])"
  define st2 where "st2 = say (if summary \<noteq> [] then [ToolUseSummary (ls_turn st1) summary] else []) st1"
  obtain st3 where st3: "post_turn env content calls True st2 = Inr st3" using post_turn_Inr by blast
  have "st' = next_turn (say [TurnComplete (ls_turn st3) (turn_source env), RunProgress] st3)"
    using assms st3 unfolding close_tool_turn_def Let_def st1_def [symmetric] summary_def [symmetric] st2_def [symmetric]
    by (simp add: compact_after_turn_def)
  then have "adds_plain st3 st'" by (auto intro: adds_plain_same)
  moreover have "adds_plain st st1"
    unfolding st1_def by (rule adds_plain_trans [OF adds_plain_same adds_plain_note]) simp
  moreover have "adds_plain st1 st2" by (rule adds_plain_same) (simp add: st2_def)
  ultimately show ?thesis using adds_plain_trans post_turn_plain [OF st3] by meson
qed

text \<open>An iteration adds an answered piece of history.\<close>

definition adds_answered :: "'w loop_state \<Rightarrow> 'w loop_state \<Rightarrow> bool" where
  "adds_answered st st' \<longleftrightarrow> (\<exists>ms. adds ms st st' \<and> answered ms)"

lemma adds_plain_answered: "adds_plain st st' \<Longrightarrow> adds_answered st st'"
  using answered_plain by (auto simp: adds_plain_def adds_answered_def)

lemma adds_answered_trans: "adds_answered st st1 \<Longrightarrow> adds_answered st1 st2 \<Longrightarrow> adds_answered st st2"
  using answered_append by (fastforce simp: adds_answered_def adds_def)

lemma do_tool_calls_adds:
  assumes "rc_compact (re_config env) = None" "do_tool_calls env content calls st = Again a st'"
  shows "\<exists>rs ms. adds (rs @ ms) st st' \<and> results_for calls rs \<and> list_all plain ms"
proof -
  obtain results st1 where st1: "run_calls env calls st = (results, st1)" by (cases "run_calls env calls st")
  let ?st2 = "st1\<lparr>ls_tokens := ls_tokens st1 + subtask_sum er_subtask_tokens results,
    ls_cost := ls_cost st1 + subtask_sum er_subtask_cost results\<rparr>"
  obtain e st3 where st3: "store_results env (zip calls results) 0 ?st2 = (e, st3)"
    by (cases "store_results env (zip calls results) 0 ?st2")
  with assms(2) st1 have e: "e = None" and c: "close_tool_turn env content calls results st3 = Again a st'"
    by (cases e; auto simp: do_tool_calls_def fail_plain_def split: if_splits)+
  from store_results_adds [OF st3 [unfolded e]] run_calls_results [OF st1]
  obtain rs where rs: "adds rs st st3" "results_for calls rs" by (auto simp: adds_def)
  from close_tool_turn_plain [OF assms(1) c] obtain ms where "adds ms st3 st'" "list_all plain ms"
    by (auto simp: adds_plain_def)
  with rs show ?thesis by (intro exI [of _ rs] exI [of _ ms]) (auto simp: adds_def)
qed

lemma finish_tool_calls_adds:
  assumes "rc_compact (re_config env) = None" "finish_tool_calls env content calls st = Again a st'"
  shows "\<exists>rs ms. adds (rs @ ms) st st' \<and> results_for calls rs \<and> list_all plain ms"
proof -
  let ?st1 = "note_signature (call_signature calls) st"
  show ?thesis
  proof (cases "(if ls_tool_errors ?st1 then 1 else 3) \<le> ls_streak ?st1")
    case True
    with assms(2) have b: "break_loop env calls ?st1 = Again a st'" by (simp add: finish_tool_calls_def)
    then obtain tc tcs where calls: "calls = tc # tcs" by (cases calls) (auto simp: break_loop_def)
    let ?nudge = "loop_nudge (tc_name tc) (ls_tool_errors ?st1) (ls_streak ?st1 + 1)"
    obtain e st2 where st2: "store_nudges env ?nudge calls ?st1 = (e, st2)" by (cases "store_nudges env ?nudge calls ?st1")
    with b have "e = None" and st': "st' = next_turn (say [TurnComplete (ls_turn st2) ''loop_break''] (st2\<lparr>ls_streak := 0\<rparr>))"
      by (cases e; simp add: break_loop_def calls fail_plain_def del: store_nudges.simps)+
    with store_nudges_adds st2 obtain rs where "adds rs ?st1 st2" "results_for calls rs" by blast
    with st' show ?thesis by (intro exI [of _ rs] exI [of _ "[]"]) (simp add: adds_def)
  next
    case False
    with assms(2) have "do_tool_calls env content calls ?st1 = Again a st'" by (simp add: finish_tool_calls_def)
    from do_tool_calls_adds [OF assms(1) this] show ?thesis by (simp add: adds_def)
  qed
qed

lemma accept_answer_adds:
  assumes "rc_compact (re_config env) = None" "accept_answer env a r content st = Again b st'"
    and prov: "sr_calls r = [] \<or> sr_finish r = ''tool_calls''"
  shows "adds_answered st st'"
proof -
  let ?st1 = "record_usage env a r st" and ?m = "assistant_message content (sr_calls r)"
  obtain e st2 where st2: "persist env ?m ?st1 = (e, st2)" by (cases "persist env ?m ?st1")
  let ?st3 = "add_message ?m st2"
  from assms(2) st2 have f: "by_finish_reason env content r ?st3 = Again b st'"
    by (cases e) (auto simp: accept_answer_def fail_local_def fail_plain_def Let_def split: if_splits)
  have st3: "ls_messages ?st3 = ls_messages st @ [?m]" using persist_messages [OF st2] by simp
  show ?thesis
  proof (cases "sr_finish r = ''tool_calls''")
    case True
    with f have "finish_tool_calls env content (sr_calls r) ?st3 = Again b st'" by (simp add: by_finish_reason_def)
    from finish_tool_calls_adds [OF assms(1) this] answered_tool_turn st3 show ?thesis
      by (fastforce simp: adds_answered_def adds_def)
  next
    case False
    with prov have calls: "sr_calls r = []" by simp
    have "finish_other env content [] st1 \<noteq> Again b st'" for st1
      using post_turn_Inr [of env content "[]" False st1] by (auto simp: finish_other_def complete_run_def)
    with f False calls have "ls_messages st' = ls_messages ?st3 \<or> (\<exists>s. ls_messages st' = ls_messages ?st3 @ [user_message s])"
      by (auto simp: by_finish_reason_def finish_stop_def finish_length_def fail_plain_def Let_def
          split: if_splits prod.splits budget_decision.splits)
    with st3 calls have "adds_plain st st'" by (auto simp: adds_plain_def adds_def)
    then show ?thesis by (rule adds_plain_answered)
  qed
qed

text \<open>The provider reports calls only with the finish reason for them.\<close>

definition calls_announced :: "'w run_env \<Rightarrow> bool" where
  "calls_announced env \<longleftrightarrow>
     (\<forall>req w a r evs. fst (re_model env req w) = Inr a
        \<and> consume_stream (re_parse_text env) (re_process env = None) (la_stream a) = (Inr r, evs)
        \<longrightarrow> sr_calls r = [] \<or> sr_finish r = ''tool_calls'')"

lemma check_empty_adds:
  assumes "rc_compact (re_config env) = None" "check_empty env a r content st = Again b st'"
    and prov: "sr_calls r = [] \<or> sr_finish r = ''tool_calls''"
  shows "adds_answered st st'"
proof (cases "content = [] \<and> sr_calls r = [] \<and> sr_finish r = ''stop'' \<and> ls_empty st < 1")
  case True
  with assms(2) have "ls_messages st' = ls_messages st @ [user_message empty_nudge]" by (auto simp: check_empty_def)
  then have "adds_plain st st'" by (auto simp: adds_plain_def adds_def)
  then show ?thesis by (rule adds_plain_answered)
next
  case False
  with assms(2) obtain c st1 where "accept_answer env a r c st1 = Again b st'" "ls_messages st1 = ls_messages st"
    by (auto simp: check_empty_def split: if_splits)
  with accept_answer_adds [OF assms(1) _ prov] show ?thesis by (fastforce simp: adds_answered_def adds_def)
qed

lemma say_say: "say ys (say xs st) = say (xs @ ys) st"
  by (simp add: say_def)

lemma after_answer_adds:
  assumes "rc_compact (re_config env) = None" "after_answer env a st = Again b st'"
    and prov: "\<And>r evs. consume_stream (re_parse_text env) (re_process env = None) (la_stream a) = (Inr r, evs)
      \<Longrightarrow> sr_calls r = [] \<or> sr_finish r = ''tool_calls''"
  shows "adds_answered st st'"
proof -
  obtain res evs where res: "consume_stream (re_parse_text env) (re_process env = None) (la_stream a) = (res, evs)"
    by (cases "consume_stream (re_parse_text env) (re_process env = None) (la_stream a)")
  with assms(2) obtain r where r: "res = Inr r"
    by (cases res) (auto simp: after_answer_def fail_local_def Let_def)
  have "\<exists>c evs'. check_empty env a r c (note_chain a r (say evs' st)) = Again b st'"
    using assms(2) res r
    by (cases "re_process env";
        auto simp: after_answer_def fail_local_def Let_def say_say split: if_splits sum.splits; blast)
  then obtain c st1 where "check_empty env a r c st1 = Again b st'" "ls_messages st1 = ls_messages st"
    by fastforce
  with check_empty_adds [OF assms(1)] prov res r show ?thesis by (fastforce simp: adds_answered_def adds_def)
qed

lemma run_step_adds:
  assumes "rc_compact (re_config env) = None" "calls_announced env" "run_step env st = Again b st'"
  shows "adds_answered st st'"
proof -
  let ?st = "add_hints (drain_mailbox env st)"
  from assms(3) have c: "call_model env ?st = Again b st'"
    by (auto simp: run_step_def fail_local_def fail_plain_def Let_def split: if_splits option.splits)
  obtain res fs w where m: "re_model env (llm_request_of env ?st) (world ?st) = (res, fs, w)"
    by (cases "re_model env (llm_request_of env ?st) (world ?st)")
  let ?st1 = "say (map (\<lambda>(a, b, e). ModelFallback a b e) fs) (set_world w ?st)"
  have "adds_answered ?st1 st'"
  proof (cases res)
    case (Inl err)
    with c m have "after_failure env err ?st1 = Again b st'" by (simp add: call_model_def)
    then have "ls_messages st' = ls_messages ?st1"
      using assms(1) by (auto simp: after_failure_def fail_local_def Let_def split: if_splits)
    then show ?thesis using adds_plain_answered adds_plain_same by blast
  next
    case (Inr a)
    with c m have "after_answer env a ?st1 = Again b st'" by (simp add: call_model_def)
    moreover from m Inr have "fst (re_model env (llm_request_of env ?st) (world ?st)) = Inr a" by simp
    ultimately show ?thesis
      using after_answer_adds [OF assms(1)] assms(2) unfolding calls_announced_def by blast
  qed
  moreover have "adds_plain st ?st1" by (rule adds_plain_trans [OF adds_plain_before adds_plain_same]) simp
  ultimately show ?thesis using adds_answered_trans adds_plain_answered by blast
qed

text \<open>
  C12: in a run without compaction that starts with a history in which every call is answered, and with a provider that reports
  tool calls only with the finish reason for them, every call in the history the run sends to its model is followed by its
  result, in order, and no result lacks its call, after any number of iterations and whatever hooks, denials, nudges and
  retries happen. The second condition is needed: an answer cut off by the token limit can hold calls, which then stay unanswered
  (below).
\<close>

theorem history_stays_answered:
  assumes "answered ms" "rc_compact (re_config env) = None" "calls_announced env"
    and "run_steps env n (new_loop env ms sys i denials w) = (as, Inr st')"
  shows "answered (ls_messages st')"
proof -
  have "adds_answered st st'" if "run_steps env n st = (as, Inr st')" for st
    using that
  proof (induction n arbitrary: st as)
    case 0
    then show ?case using adds_plain_answered adds_plain_same by fastforce
  next
    case (Suc n)
    then obtain a st1 as' where "run_step env st = Again a st1" "run_steps env n st1 = (as', Inr st')"
      by (auto split: outcome.splits prod.splits)
    with Suc.IH run_step_adds [OF assms(2,3)] adds_answered_trans show ?case by blast
  qed
  from this [OF assms(4)] assms(1) answered_append show ?thesis
    by (auto simp: adds_answered_def adds_def new_loop_def)
qed

text \<open>
  Without that assumption it fails: an answer cut off by the token limit is kept with the calls it holds, and the model
  is called again without results for them. The raised limit is never above 32768, so it can be a lower one. And a
  provider that announces calls but gives none crashes the run at the third time.
\<close>

lemma length_keeps_calls:
  assumes "sr_finish r = ''length''" "accept_answer env a r content st = Again b st'"
  shows "b = RetryLonger \<and> last (ls_messages st') = assistant_message content (sr_calls r) \<and> ls_max_tokens st' \<le> 32768"
proof -
  let ?st1 = "record_usage env a r st" and ?m = "assistant_message content (sr_calls r)"
  obtain e st2 where st2: "persist env ?m ?st1 = (e, st2)" by (cases "persist env ?m ?st1")
  with assms have "finish_length env (add_message ?m st2) = Again b st'"
    by (cases e)
      (auto simp: accept_answer_def fail_local_def fail_plain_def Let_def by_finish_reason_def split: if_splits)
  then show ?thesis by (auto simp: finish_length_def fail_plain_def split: if_splits)
qed

lemma empty_tool_calls_panic:
  assumes "ls_signature st = []" "2 \<le> ls_streak st"
  shows "\<exists>st'. finish_tool_calls env content [] st = Ended RunPanic st'"
  using assms by (simp add: finish_tool_calls_def call_signature_def note_signature_def break_loop_def Let_def)

text \<open>The stop hooks cannot veto, and compaction never fails, so its circuit breaker never opens.\<close>

lemma never_vetoed: "\<not> sh_prevent (fst (handle_stop_hooks env b st))"
  by (simp add: handle_stop_hooks_def Let_def split_beta)

lemma compact_never_fails:
  assumes "snd (run_steps env n (new_loop env ms sys i denials w)) = Inr st'"
  shows "ls_compact_failures st' = 0"
proof -
  have "ls_compact_failures st' = 0" if "ls_compact_failures st = 0" "snd (run_steps env n st) = Inr st'" for st
    using that
  proof (induction n arbitrary: st)
    case (Suc n)
    then obtain a st1 where st1: "run_step env st = Again a st1" "snd (run_steps env n st1) = Inr st'"
      by (auto split: outcome.splits prod.splits)
    with run_step_Again(2) [OF st1(1)] Suc.prems(1) Suc.IH show ?case by (auto simp: goes_on_def)
  qed simp
  from this [OF _ assms] show ?thesis by (simp add: new_loop_def)
qed

text \<open>A model that first calls a tool and then answers with text.\<close>

definition say_chunk :: "string \<Rightarrow> stream_item" where
  "say_chunk t = Chunk \<lparr>ck_error = None, ck_usage = None, ck_thinking = [], ck_delta = t, ck_call = None,
     ck_response_id = [], ck_finish = ''stop''\<rparr>"

definition calling_model :: "nat \<Rightarrow> string + llm_answer" where
  "calling_model k = Inr \<lparr>la_model = ''m'', la_fallback = False,
     la_stream = (if k = 0 then [Chunk (delta_chunk ''a'' ''f'' ''{}'')] else [say_chunk ''done''])\<rparr>"

lemma calling_model_announced: "calls_announced (sample_run None calling_model)"
proof -
  have "sr_finish r = ''tool_calls''" if "consume_stream (\<lambda>_. None) True [Chunk (delta_chunk ''a'' ''f'' ''{}'')] = (Inr r, evs)" for r evs
    using that by (auto simp: consume_stream_def delta_chunk_def Let_def finish_stream_def read_rest_def read_text_def
        new_stream_def merge_delta_def replace_by_def)
  moreover have "sr_calls r = []" if "consume_stream (\<lambda>_. None) True [say_chunk ''done''] = (Inr r, evs)" for r evs
    using that by (auto simp: consume_stream_def say_chunk_def Let_def finish_stream_def read_rest_def read_text_def
        new_stream_def runaway_def)
  ultimately show ?thesis
    by (auto simp: calls_announced_def sample_run_def calling_model_def split: if_splits)
qed

lemma calling_turn:
  "fst (run_steps (sample_run None calling_model) 1
     (new_loop (sample_run None calling_model) [user_message ''hello''] [] [] None 0)) = [ToolTurn]"
  by code_simp

lemma history_stays_answered_witness:
  "\<exists>st'. run_steps (sample_run None calling_model) 1
       (new_loop (sample_run None calling_model) [user_message ''hello''] [] [] None 0) = ([ToolTurn], Inr st')
     \<and> answered (ls_messages st')"
proof -
  let ?env = "sample_run None calling_model"
  let ?st = "new_loop ?env [user_message ''hello''] [] [] None 0"
  from calling_turn obtain st' where st': "run_steps ?env 1 ?st = ([ToolTurn], Inr st')"
    by (cases "run_step ?env ?st") auto
  have "answered [user_message ''hello'']" "rc_compact (re_config ?env) = None"
    by (simp_all add: user_message_def sample_run_def sample_run_config_def)
  from history_stays_answered [OF this calling_model_announced st'] st' show ?thesis by blast
qed

end
