(* ===== verification/Sanitize.thy ===== *)
theory Sanitize
  imports Utf8
begin

text \<open>
  Cleaning of texts that users write: \<^verbatim>\<open>src/internal/sanitize/html.go\<close> removes markup, \<^verbatim>\<open>src/internal/sanitize/slug.go\<close>
  makes identifiers. Each regular expression of the code is a function that gives the length of its match at the start of
  a string: every one of them matches in at most one way there, so that greedy and reluctant choices do not matter. Unicode
  normalization and the random part of a slug are arguments.
\<close>

section \<open>Markup\<close>

definition is_letter :: "char \<Rightarrow> bool" where
  "is_letter c \<longleftrightarrow> char_between CHR ''A'' c CHR ''Z'' \<or> char_between CHR ''a'' c CHR ''z''"

definition is_blank :: "char \<Rightarrow> bool" where
  "is_blank c \<longleftrightarrow> c = CHR 0x09 \<or> c = CHR 0x0A \<or> c = CHR 0x0C \<or> c = CHR 0x0D \<or> c = CHR '' ''"

definition tag_char :: "char \<Rightarrow> bool" where
  "tag_char c \<longleftrightarrow> is_letter c \<or> is_digit c \<or> c = CHR '':'' \<or> c = CHR ''-''"

text \<open>After the name of a tag: attributes behind a blank, or the end, possibly with a slash.\<close>

definition tag_rest :: "string \<Rightarrow> nat option" where
  "tag_rest s =
     (case s of
        [] \<Rightarrow> None
      | c # r \<Rightarrow>
          if is_blank c
          then (let n = length (takeWhile (\<lambda>x. x \<noteq> CHR ''<'' \<and> x \<noteq> CHR ''>'') r)
                in if n < length r \<and> r ! n = CHR ''>'' then Some (n + 2) else None)
          else if c = CHR ''/'' then (if has_prefix r ''>'' then Some 2 else None)
          else if c = CHR ''>'' then Some 1 else None)"

definition tag_name :: "string \<Rightarrow> nat option" where
  "tag_name s =
     (case s of
        [] \<Rightarrow> None
      | c # r \<Rightarrow>
          if is_letter c
          then (let n = length (takeWhile tag_char r) in map_option (\<lambda>m. Suc n + m) (tag_rest (drop n r)))
          else None)"

definition tag_at :: "string \<Rightarrow> nat option" where
  "tag_at s =
     (case s of
        [] \<Rightarrow> None
      | c # r \<Rightarrow>
          if c \<noteq> CHR ''<'' then None
          else if has_prefix r ''/'' then map_option (\<lambda>m. m + 2) (tag_name (tl r))
          else map_option Suc (tag_name r))"

text \<open>
  Names of dangerous elements, without regard to case; in Go the letter s then also matches the long s, \<^verbatim>\<open>C5 BF\<close>.
\<close>

fun fold_prefix :: "string \<Rightarrow> string \<Rightarrow> nat option" where
  "fold_prefix [] s = Some 0"
| "fold_prefix (p # ps) [] = None"
| "fold_prefix (p # ps) (c # r) =
     (if lower_char c = p then map_option Suc (fold_prefix ps r)
      else if p = CHR ''s'' \<and> c = CHR 0xC5 \<and> has_prefix r [CHR 0xBF] then map_option (\<lambda>n. n + 2) (fold_prefix ps (tl r))
      else None)"

definition dangerous_names :: "string list" where
  "dangerous_names = [''script'', ''style'', ''iframe'', ''object'', ''embed'', ''noscript'']"

fun first_some :: "('a \<Rightarrow> 'b option) \<Rightarrow> 'a list \<Rightarrow> 'b option" where
  "first_some f [] = None"
| "first_some f (x # xs) = (case f x of Some y \<Rightarrow> Some y | None \<Rightarrow> first_some f xs)"

definition dangerous_name :: "string \<Rightarrow> nat option" where
  "dangerous_name s = first_some (\<lambda>w. fold_prefix w s) dangerous_names"

definition close_tag_at :: "string \<Rightarrow> nat option" where
  "close_tag_at s =
     (if has_prefix s ''</''
      then (case dangerous_name (drop 2 s) of
              Some n \<Rightarrow> if has_prefix (drop (n + 2) s) ''>'' then Some (n + 3) else None
            | None \<Rightarrow> None)
      else None)"

text \<open>The first match at or after a position.\<close>

fun find_at :: "(string \<Rightarrow> nat option) \<Rightarrow> string \<Rightarrow> (nat \<times> nat) option" where
  "find_at m [] = map_option (Pair 0) (m [])"
| "find_at m (c # r) =
     (case m (c # r) of
        Some n \<Rightarrow> Some (0, n)
      | None \<Rightarrow> map_option (\<lambda>(i, n). (Suc i, n)) (find_at m r))"

definition dangerous_at :: "string \<Rightarrow> nat option" where
  "dangerous_at s =
     (if \<not> has_prefix s ''<'' then None
      else case dangerous_name (tl s) of
        None \<Rightarrow> None
      | Some n \<Rightarrow>
          (case index_byte CHR ''>'' (drop (n + 1) s) of
             None \<Rightarrow> None
           | Some k \<Rightarrow>
               (case find_at close_tag_at (drop (n + k + 2) s) of
                  None \<Rightarrow> None
                | Some (i, l) \<Rightarrow> Some (n + k + 2 + i + l))))"

text \<open>\<^verbatim>\<open>ReplaceAllString\<close> with the empty string, for an expression that does not match the empty string.\<close>

function remove_matches :: "(string \<Rightarrow> nat option) \<Rightarrow> string \<Rightarrow> string" where
  "remove_matches m s =
     (case s of
        [] \<Rightarrow> []
      | c # r \<Rightarrow>
          (case m s of
             Some n \<Rightarrow> remove_matches m (drop (max 1 n) s)
           | None \<Rightarrow> c # remove_matches m r))"
  by pat_completeness auto
termination
  by (relation "measure (\<lambda>(m, s). length s)") auto

declare remove_matches.simps [simp del]

definition contains_html :: "string \<Rightarrow> bool" where
  "contains_html s \<longleftrightarrow> find_at tag_at s \<noteq> None"

lemma remove_matches_Nil [simp]: "remove_matches m [] = []"
  by (simp add: remove_matches.simps)

lemma length_remove_matches: "length (remove_matches m s) \<le> length s"
proof (induction m s rule: remove_matches.induct)
  case (1 m s)
  show ?case
  proof (cases s)
    case (Cons c r)
    show ?thesis
    proof (cases "m s")
      case None
      with 1 Cons show ?thesis by (simp add: remove_matches.simps [of m "c # r"])
    next
      case (Some n)
      with 1 Cons have "length (remove_matches m (drop (max 1 n) s)) \<le> length (drop (max 1 n) s)" by blast
      with Some Cons show ?thesis by (simp add: remove_matches.simps [of m "c # r"])
    qed
  qed (simp add: remove_matches.simps [of m s])
qed

lemma remove_matches_fix:
  assumes "length (remove_matches m s) = length s"
  shows "remove_matches m s = s"
  using assms
proof (induction s)
  case Nil
  then show ?case by (simp add: remove_matches.simps)
next
  case (Cons c r)
  show ?case
  proof (cases "m (c # r)")
    case None
    with Cons show ?thesis by (simp add: remove_matches.simps [of m "c # r"])
  next
    case (Some n)
    have "length (remove_matches m (drop (max 1 n) (c # r))) \<le> length (drop (max 1 n) (c # r))" by (rule length_remove_matches)
    with Some Cons.prems show ?thesis by (simp add: remove_matches.simps [of m "c # r"])
  qed
qed

definition strip_round :: "string \<Rightarrow> string" where
  "strip_round s = remove_matches tag_at (remove_matches dangerous_at s)"

lemma strip_round_length: "length (strip_round s) \<le> length s"
  unfolding strip_round_def
  using length_remove_matches [of tag_at "remove_matches dangerous_at s"] length_remove_matches [of dangerous_at s] by simp

lemma strip_round_fix:
  assumes "length (strip_round s) = length s"
  shows "remove_matches dangerous_at s = s" and "remove_matches tag_at s = s" and "strip_round s = s"
proof -
  have "length (remove_matches dangerous_at s) = length s"
    using assms length_remove_matches [of tag_at "remove_matches dangerous_at s"] length_remove_matches [of dangerous_at s]
    unfolding strip_round_def by simp
  then show a: "remove_matches dangerous_at s = s" by (rule remove_matches_fix)
  with assms show b: "remove_matches tag_at s = s" unfolding strip_round_def by (intro remove_matches_fix) simp
  show "strip_round s = s" by (simp add: strip_round_def a b)
qed

text \<open>\<^verbatim>\<open>StripHTML\<close>: rounds until nothing changes, then the blanks at both ends, those of Unicode included.\<close>

definition space_encodings :: "string list" where
  "space_encodings =
     [[CHR 0x09], [CHR 0x0A], [CHR 0x0B], [CHR 0x0C], [CHR 0x0D], '' '', [CHR 0xC2, CHR 0x85], [CHR 0xC2, CHR 0xA0],
      [CHR 0xE1, CHR 0x9A, CHR 0x80]]
     @ map (\<lambda>b. [CHR 0xE2, CHR 0x80, b]) [CHR 0x80, CHR 0x81, CHR 0x82, CHR 0x83, CHR 0x84, CHR 0x85, CHR 0x86, CHR 0x87,
         CHR 0x88, CHR 0x89, CHR 0x8A, CHR 0xA8, CHR 0xA9, CHR 0xAF]
     @ [[CHR 0xE2, CHR 0x81, CHR 0x9F], [CHR 0xE3, CHR 0x80, CHR 0x80]]"

function cut_front :: "string list \<Rightarrow> string \<Rightarrow> string" where
  "cut_front ws s =
     (case find (\<lambda>w. w \<noteq> [] \<and> has_prefix s w) ws of
        None \<Rightarrow> s
      | Some w \<Rightarrow> cut_front ws (drop (length w) s))"
  by pat_completeness auto
termination
proof (relation "measure (\<lambda>(ws, s). length s)", goal_cases)
  case (2 ws s w)
  then have "w \<noteq> []" "has_prefix s w" by (auto simp: find_Some_iff)
  then show ?case by (auto simp: has_prefix_iff)
qed simp

declare cut_front.simps [simp del]

definition trim_unicode :: "string \<Rightarrow> string" where
  "trim_unicode s = rev (cut_front (map rev space_encodings) (rev (cut_front space_encodings s)))"

function strip_rounds :: "string \<Rightarrow> string" where
  "strip_rounds s = (let next = strip_round s in if next = s then trim_unicode next else strip_rounds next)"
  by pat_completeness auto
termination
proof (relation "measure length", goal_cases)
  case (2 s x)
  then show ?case using strip_round_length [of s] strip_round_fix(3) [of s] by (auto simp: order_le_less)
qed simp

declare strip_rounds.simps [simp del]

definition strip_html :: "string \<Rightarrow> string" where
  "strip_html s = strip_rounds (to_valid_utf8 s)"

section \<open>A match does not look beyond its end\<close>

lemma takeWhile_append_stop: "length (takeWhile P s) < length s \<Longrightarrow> takeWhile P (s @ t) = takeWhile P s"
  by (induction s) auto

lemma tag_rest_append: "tag_rest s = Some n \<Longrightarrow> tag_rest (s @ t) = Some n \<and> n \<le> length s"
proof (cases s)
  case (Cons c r)
  assume a: "tag_rest s = Some n"
  show ?thesis
  proof (cases "is_blank c")
    case True
    let ?n = "length (takeWhile (\<lambda>x. x \<noteq> CHR ''<'' \<and> x \<noteq> CHR ''>'') r)"
    from a Cons True have b: "?n < length r" "r ! ?n = CHR ''>''" "n = ?n + 2" by (auto simp: tag_rest_def Let_def split: if_splits)
    then have "takeWhile (\<lambda>x. x \<noteq> CHR ''<'' \<and> x \<noteq> CHR ''>'') (r @ t) = takeWhile (\<lambda>x. x \<noteq> CHR ''<'' \<and> x \<noteq> CHR ''>'') r"
      by (intro takeWhile_append_stop)
    with b Cons True show ?thesis by (simp add: tag_rest_def Let_def nth_append)
  next
    case False
    with a Cons show ?thesis by (cases r) (auto simp: tag_rest_def split: if_splits)
  qed
qed (simp add: tag_rest_def)

lemma tag_name_append: "tag_name s = Some n \<Longrightarrow> tag_name (s @ t) = Some n \<and> n \<le> length s"
proof (cases s)
  case (Cons c r)
  let ?n = "length (takeWhile tag_char r)"
  assume a: "tag_name s = Some n"
  then obtain m where m: "is_letter c" "tag_rest (drop ?n r) = Some m" "n = Suc ?n + m"
    using Cons by (auto simp: tag_name_def Let_def split: if_splits)
  from m(2) have l: "?n < length r" by (cases "?n < length r") (auto simp: tag_rest_def)
  then have "takeWhile tag_char (r @ t) = takeWhile tag_char r" by (intro takeWhile_append_stop)
  with m l tag_rest_append [OF m(2), of t] Cons show ?thesis by (auto simp: tag_name_def Let_def)
qed (simp add: tag_name_def)

lemma tag_at_append: "tag_at s = Some n \<Longrightarrow> tag_at (s @ t) = Some n \<and> 0 < n \<and> n \<le> length s"
proof (cases s)
  case (Cons c r)
  assume a: "tag_at s = Some n"
  with Cons have c: "c = CHR ''<''" by (auto simp: tag_at_def split: if_splits)
  show ?thesis
  proof (cases "has_prefix r ''/''")
    case True
    then obtain r' where r: "r = CHR ''/'' # r'" by (auto simp: has_prefix_iff)
    from a obtain m where "tag_name r' = Some m" "n = m + 2" by (auto simp: Cons c r tag_at_def)
    with tag_name_append [of r' m t] show ?thesis by (simp add: Cons c r tag_at_def)
  next
    case False
    from a False obtain m where m: "tag_name r = Some m" "n = Suc m" by (auto simp: Cons c tag_at_def)
    then have "r \<noteq> []" by (auto simp: tag_name_def)
    with False have "\<not> has_prefix (r @ t) ''/''" by (cases r) auto
    with m tag_name_append [of r m t] show ?thesis by (simp add: Cons c tag_at_def)
  qed
qed (simp add: tag_at_def)

lemma tag_at_end: "tag_at s = Some n \<Longrightarrow> s ! (n - 1) = CHR ''>''"
proof -
  have rest: "u ! (m - 1) = CHR ''>'' \<and> 0 < m" if "tag_rest u = Some m" for u m
    using that by (auto simp: tag_rest_def Let_def has_prefix_iff split: list.splits if_splits)
  have name: "u ! (m - 1) = CHR ''>'' \<and> 0 < m" if "tag_name u = Some m" for u m
  proof -
    from that obtain c r k where u: "u = c # r" "tag_rest (drop (length (takeWhile tag_char r)) r) = Some k"
      "m = Suc (length (takeWhile tag_char r)) + k"
      by (auto simp: tag_name_def Let_def split: list.splits if_splits)
    have "length (takeWhile tag_char r) \<le> length r" by (rule length_takeWhile_le)
    moreover obtain k' where "k = Suc k'" using rest [OF u(2)] by (cases k) auto
    ultimately show ?thesis using rest [OF u(2)] u(1,3) by simp
  qed
  assume a: "tag_at s = Some n"
  then obtain r where s: "s = CHR ''<'' # r" by (auto simp: tag_at_def split: list.splits if_splits)
  show ?thesis
  proof (cases "has_prefix r ''/''")
    case True
    then obtain r' where r: "r = CHR ''/'' # r'" by (auto simp: has_prefix_iff)
    from a obtain m where m: "tag_name r' = Some m" "n = m + 2" by (auto simp: s r tag_at_def)
    from name [OF m(1)] m(2) show ?thesis by (cases m) (simp_all add: s r)
  next
    case False
    from a False obtain m where m: "tag_name r = Some m" "n = Suc m" by (auto simp: s tag_at_def)
    from name [OF m(1)] m(2) show ?thesis by (cases m) (simp_all add: s)
  qed
qed

lemma fold_prefix_append: "fold_prefix p s = Some n \<Longrightarrow> fold_prefix p (s @ t) = Some n \<and> n \<le> length s"
proof (induction p s arbitrary: n rule: fold_prefix.induct)
  case (3 p ps c r)
  show ?case
  proof (cases "lower_char c = p")
    case True
    with 3 show ?thesis by fastforce
  next
    case False
    with 3(3) have q: "p = CHR ''s''" "c = CHR 0xC5" "has_prefix r [CHR 0xBF]" by (auto split: if_splits)
    then obtain r' where r: "r = CHR 0xBF # r'" by (auto simp: has_prefix_iff)
    from 3(3) False q obtain m where m: "fold_prefix ps r' = Some m" "n = m + 2" by (auto simp: r)
    from 3(2) [OF False] q r m show ?thesis using False by fastforce
  qed
qed simp_all

text \<open>The text decides the name: two names that match there agree as far as they go.\<close>

lemma fold_prefix_unique:
  assumes "fold_prefix p s = Some n" "fold_prefix q (s @ t) = Some m" "CHR 0xC5 \<notin> set p" "CHR 0xC5 \<notin> set q"
  shows "take (min (length p) (length q)) p = take (min (length p) (length q)) q"
  using assms
proof (induction p s arbitrary: n m q rule: fold_prefix.induct)
  case (3 p ps c r)
  show ?case
  proof (cases q)
    case (Cons q0 qs)
    show ?thesis
    proof (cases "lower_char c = p")
      case True
      with 3(4) Cons have "lower_char c = q0 \<or> q0 = CHR ''s'' \<and> c = CHR 0xC5" by (auto split: if_splits)
      moreover have "lower_char (CHR 0xC5) = CHR 0xC5" by (simp add: lower_char_def char_between_def)
      ultimately have q: "lower_char c = q0" using True 3(5) by auto
      from True 3(3) obtain n' where n: "fold_prefix ps r = Some n'" by auto
      from q 3(4) Cons obtain m' where "fold_prefix qs (r @ t) = Some m'" by auto
      with 3(1) [OF True n, of qs m'] 3(5,6) Cons True q show ?thesis by simp
    next
      case False
      with 3(3) have s: "p = CHR ''s''" "c = CHR 0xC5" "has_prefix r [CHR 0xBF]" by (auto split: if_splits)
      have l: "lower_char (CHR 0xC5) = CHR 0xC5" by (simp add: lower_char_def char_between_def)
      from s(3) obtain r' where r: "r = CHR 0xBF # r'" by (auto simp: has_prefix_iff)
      from 3(4,6) Cons s(2) l have q: "q0 = CHR ''s''" by (auto split: if_splits)
      from False s 3(3) r obtain n' where n: "fold_prefix ps r' = Some n'" by auto
      from q 3(4) Cons s l r obtain m' where m: "fold_prefix qs (r' @ t) = Some m'" by (auto split: if_splits)
      from 3(2) [OF False, of n' qs m'] s n m r 3(5,6) Cons q show ?thesis by simp
    qed
  qed simp
qed simp_all

lemma first_some_None: "first_some f xs = None \<longleftrightarrow> (\<forall>x\<in>set xs. f x = None)"
  by (induction xs) (auto split: option.splits)

lemma first_some_unique:
  assumes "w \<in> set xs" "f w = Some y" and "\<forall>x\<in>set xs. f x \<noteq> None \<longrightarrow> x = w"
  shows "first_some f xs = Some y"
  using assms
proof (induction xs)
  case (Cons a xs)
  show ?case
  proof (cases "f a")
    case None
    then have "w \<in> set xs" "\<forall>x\<in>set xs. f x \<noteq> None \<longrightarrow> x = w" using Cons.prems by auto
    from Cons.IH [OF this(1) Cons.prems(2) this(2)] None show ?thesis by simp
  next
    case (Some z)
    have "f a \<noteq> None \<longrightarrow> a = w" using Cons.prems(3) by (meson list.set_intros(1))
    with Some have "a = w" by blast
    with Some Cons.prems(2) show ?thesis by simp
  qed
qed simp

lemma first_some_Some: "first_some f xs = Some y \<Longrightarrow> \<exists>w\<in>set xs. f w = Some y"
  by (induction xs) (auto split: option.splits)

lemma dangerous_names_free:
  "p \<in> set dangerous_names \<Longrightarrow> q \<in> set dangerous_names
   \<Longrightarrow> take (min (length p) (length q)) p = take (min (length p) (length q)) q \<Longrightarrow> p = q"
  by (auto simp: dangerous_names_def)

lemma dangerous_names_ascii: "p \<in> set dangerous_names \<Longrightarrow> CHR 0xC5 \<notin> set p"
  by (auto simp: dangerous_names_def)

lemma dangerous_name_append:
  assumes "dangerous_name s = Some n"
  shows "dangerous_name (s @ t) = Some n \<and> n \<le> length s"
proof -
  from assms obtain w where w: "w \<in> set dangerous_names" "fold_prefix w s = Some n"
    unfolding dangerous_name_def by (blast dest: first_some_Some)
  from fold_prefix_append [OF w(2)] have w': "fold_prefix w (s @ t) = Some n" "n \<le> length s" by auto
  have "x = w" if x: "x \<in> set dangerous_names" "fold_prefix x (s @ t) \<noteq> None" for x
  proof -
    from x(2) obtain m where "fold_prefix x (s @ t) = Some m" by auto
    from fold_prefix_unique [OF w(2) this] show ?thesis using dangerous_names_free [OF w(1) x(1)] dangerous_names_ascii w(1) x(1) by simp
  qed
  then have "dangerous_name (s @ t) = Some n"
    unfolding dangerous_name_def by (intro first_some_unique [where w = w] w(1) w'(1)) blast
  with w' show ?thesis by simp
qed

lemma has_prefix_extend: "has_prefix s p \<Longrightarrow> has_prefix (s @ t) p"
  by (auto simp: has_prefix_iff)

lemma close_tag_at_append:
  assumes "close_tag_at s = Some n"
  shows "close_tag_at (s @ t) = Some n \<and> 0 < n \<and> n \<le> length s \<and> s ! (n - 1) = CHR ''>''"
proof -
  from assms obtain k where k: "has_prefix s ''</''" "dangerous_name (drop 2 s) = Some k" "has_prefix (drop (k + 2) s) ''>''" "n = k + 3"
    by (auto simp: close_tag_at_def split: if_splits option.splits)
  then obtain u where s: "s = ''</'' @ u" by (auto simp: has_prefix_iff)
  from k(2) dangerous_name_append [of u k t] have d: "dangerous_name (u @ t) = Some k" "k \<le> length u" by (auto simp: s)
  from k(3) obtain v where v: "drop k u = CHR ''>'' # v" by (auto simp: s has_prefix_iff)
  then have "k < length u" by (cases "k < length u") auto
  moreover from v this have "u ! k = CHR ''>''" by (metis nth_via_drop)
  ultimately show ?thesis using d v k(4) by (simp add: s close_tag_at_def has_prefix_iff)
qed

lemma find_at_None: "find_at m s = None \<longleftrightarrow> (\<forall>a b. s = a @ b \<longrightarrow> m b = None)"
proof (induction s)
  case (Cons c r)
  have "(\<forall>a b. c # r = a @ b \<longrightarrow> m b = None) \<longleftrightarrow> m (c # r) = None \<and> (\<forall>a b. r = a @ b \<longrightarrow> m b = None)"
    by (auto simp: Cons_eq_append_conv)
  with Cons show ?case by (auto split: option.split)
qed simp

lemma find_at_Some: "find_at m s = Some (i, n) \<Longrightarrow> i \<le> length s \<and> m (drop i s) = Some n"
  by (induction s arbitrary: i) (auto split: option.splits)

lemma find_at_append:
  assumes "\<And>u n. m u = Some n \<Longrightarrow> m (u @ t) \<noteq> None" and "find_at m s \<noteq> None"
  shows "find_at m (s @ t) \<noteq> None"
proof -
  from assms(2) obtain a b where ab: "s = a @ b" "m b \<noteq> None" unfolding find_at_None by blast
  then obtain n where "m b = Some n" by auto
  then have "m (b @ t) \<noteq> None" by (rule assms(1))
  moreover have "s @ t = a @ (b @ t)" using ab by simp
  ultimately show ?thesis unfolding find_at_None by metis
qed

text \<open>A dangerous element: where it ends, and that it is still found in a longer text.\<close>

lemma dangerous_at_Some:
  assumes "dangerous_at s = Some n"
  obtains r k j i l where "s = CHR ''<'' # r" "dangerous_name r = Some k" "index_byte CHR ''>'' (drop k r) = Some j"
    "find_at close_tag_at (drop (k + j + 1) r) = Some (i, l)" "n = k + j + 2 + i + l"
  using assms by (fastforce simp: dangerous_at_def has_prefix_iff split: if_splits option.splits)

lemma index_byte_length: "index_byte c s = Some j \<Longrightarrow> j < length s"
  by (simp add: index_byte_Some)

lemma index_byte_extend: "index_byte c s = Some j \<Longrightarrow> index_byte c (s @ t) = Some j"
  by (induction s arbitrary: j) (auto split: if_splits)

lemma dangerous_at_end:
  assumes "dangerous_at s = Some n"
  shows "0 < n \<and> n \<le> length s \<and> s ! (n - 1) = CHR ''>'' \<and> hd s = CHR ''<''"
proof -
  from assms obtain r k j i l where s: "s = CHR ''<'' # r" "dangerous_name r = Some k" "index_byte CHR ''>'' (drop k r) = Some j"
    "find_at close_tag_at (drop (k + j + 1) r) = Some (i, l)" "n = k + j + 2 + i + l"
    by (rule dangerous_at_Some)
  let ?u = "drop (k + j + 1) r"
  from find_at_Some [OF s(4)] have f: "i \<le> length ?u" "close_tag_at (drop i ?u) = Some l" by auto
  from close_tag_at_append [OF f(2), of "[]"] have c: "0 < l" "l \<le> length (drop i ?u)" "drop i ?u ! (l - 1) = CHR ''>''" by auto
  have "k + j + 1 \<le> length r" using index_byte_length [OF s(3)] by simp
  with c f(1) show ?thesis by (cases l) (auto simp: s(1,5) nth_append ac_simps)
qed

lemma dangerous_at_append: "dangerous_at s = Some n \<Longrightarrow> dangerous_at (s @ t) \<noteq> None"
proof -
  assume "dangerous_at s = Some n"
  then obtain r k j i l where s: "s = CHR ''<'' # r" "dangerous_name r = Some k" "index_byte CHR ''>'' (drop k r) = Some j"
    "find_at close_tag_at (drop (k + j + 1) r) = Some (i, l)" by (rule dangerous_at_Some)
  from dangerous_name_append [OF s(2), of t] have d: "dangerous_name (r @ t) = Some k" "k \<le> length r" by auto
  have j: "k + j + 1 \<le> length r" using index_byte_length [OF s(3)] by simp
  have b: "index_byte CHR ''>'' (drop k r @ t) = Some j"
    using s(3) by (rule index_byte_extend)
  have "find_at close_tag_at (drop (k + j + 1) r @ t) \<noteq> None"
    by (rule find_at_append) (use close_tag_at_append s(4) in auto)
  with d b j show ?thesis by (auto simp: s(1) dangerous_at_def split: option.split)
qed

section \<open>The result has no markup\<close>

text \<open>No match at any position; it is inherited by the parts of a text.\<close>

definition no_match :: "(string \<Rightarrow> nat option) \<Rightarrow> string \<Rightarrow> bool" where
  "no_match m s \<longleftrightarrow> (\<forall>a b. s = a @ b \<longrightarrow> m b = None)"

lemma no_match_part:
  assumes "no_match m (x @ y @ z)" and "\<And>u n. m u = Some n \<Longrightarrow> m (u @ z) \<noteq> None"
  shows "no_match m y"
  unfolding no_match_def
proof (intro allI impI)
  fix a b
  assume "y = a @ b"
  then have "x @ y @ z = (x @ a) @ (b @ z)" by simp
  with assms(1) have "m (b @ z) = None" unfolding no_match_def by blast
  with assms(2) [of b] show "m b = None" by (cases "m b") auto
qed

lemma remove_matches_id: "no_match m s \<Longrightarrow> remove_matches m s = s"
proof (induction s)
  case (Cons c r)
  from Cons.prems have "m (c # r) = None" unfolding no_match_def by (metis append_Nil)
  moreover from Cons.prems have "no_match m r" unfolding no_match_def by (metis append_Cons)
  ultimately show ?case using Cons.IH by (simp add: remove_matches.simps [of m "c # r"])
qed simp

lemma remove_matches_no_match:
  assumes "remove_matches m s = s" and "m [] = None"
  shows "no_match m s"
  using assms(1)
proof (induction s)
  case Nil
  with assms(2) show ?case by (simp add: no_match_def)
next
  case (Cons c r)
  have none: "m (c # r) = None"
  proof (rule ccontr)
    assume "m (c # r) \<noteq> None"
    then obtain n where "m (c # r) = Some n" by auto
    with Cons.prems have "length (remove_matches m (drop (max 1 n) (c # r))) = Suc (length r)"
      by (simp add: remove_matches.simps [of m "c # r"])
    with length_remove_matches [of m "drop (max 1 n) (c # r)"] show False by simp
  qed
  with Cons.prems have "remove_matches m r = r" by (simp add: remove_matches.simps [of m "c # r"])
  then have "no_match m r" by (rule Cons.IH)
  with none show ?case by (auto simp: no_match_def Cons_eq_append_conv)
qed

definition clean :: "string \<Rightarrow> bool" where
  "clean s \<longleftrightarrow> no_match tag_at s \<and> no_match dangerous_at s"

lemma clean_part: "clean (x @ y @ z) \<Longrightarrow> clean y"
  unfolding clean_def using no_match_part [of tag_at x y z] no_match_part [of dangerous_at x y z] tag_at_append dangerous_at_append
  by fastforce

lemma clean_round: "clean s \<Longrightarrow> strip_round s = s"
  by (simp add: clean_def strip_round_def remove_matches_id)

lemma round_clean:
  assumes "strip_round s = s"
  shows "clean s"
  using strip_round_fix(1,2) [of s] assms by (auto simp: clean_def tag_at_def dangerous_at_def has_prefix_def intro: remove_matches_no_match)

lemma cut_front_suffix: "\<exists>x. s = x @ cut_front ws s"
proof (induction ws s rule: cut_front.induct)
  case (1 ws s)
  show ?case
  proof (cases "find (\<lambda>w. w \<noteq> [] \<and> has_prefix s w) ws")
    case None
    then show ?thesis by (simp add: cut_front.simps [of ws s])
  next
    case (Some w)
    with 1 obtain x where "drop (length w) s = x @ cut_front ws (drop (length w) s)" by blast
    then have "s = (take (length w) s @ x) @ cut_front ws (drop (length w) s)" by (metis append_assoc append_take_drop_id)
    moreover have "cut_front ws s = cut_front ws (drop (length w) s)" using Some by (simp add: cut_front.simps [of ws s])
    ultimately show ?thesis by metis
  qed
qed

lemma trim_unicode_part: "\<exists>x z. s = x @ trim_unicode s @ z"
proof -
  let ?f = "cut_front space_encodings s"
  obtain x where x: "s = x @ ?f" using cut_front_suffix by blast
  obtain z where "rev ?f = z @ cut_front (map rev space_encodings) (rev ?f)" using cut_front_suffix by blast
  then have "?f = trim_unicode s @ rev z" unfolding trim_unicode_def by (metis rev_append rev_rev_ident)
  with x show ?thesis by metis
qed

lemma strip_rounds_clean: "clean (strip_rounds s)"
proof (induction s rule: strip_rounds.induct)
  case (1 s)
  show ?case
  proof (cases "strip_round s = s")
    case True
    obtain x z where "s = x @ trim_unicode s @ z" using trim_unicode_part by blast
    with clean_part round_clean [OF True] have "clean (trim_unicode s)" by metis
    with True show ?thesis by (simp add: strip_rounds.simps [of s] Let_def)
  next
    case False
    with 1 show ?thesis by (simp add: strip_rounds.simps [of s] Let_def)
  qed
qed

section \<open>Cleaning twice\<close>

lemma to_valid_length: "length (to_valid_utf8 s) \<le> length s"
proof (induction s rule: to_valid_utf8.induct)
  case (1 s)
  show ?case
  proof (cases "s = []")
    case False
    show ?thesis
    proof (cases "rune_len s")
      case None
      then have "length (to_valid_utf8 s) \<le> length (tl s)" using 1 False by (simp add: to_valid_utf8.simps [of s])
      then show ?thesis by simp
    next
      case (Some n)
      with 1 False have "length (to_valid_utf8 (drop n s)) \<le> length (drop n s)" by blast
      with Some False rune_len_bounds [OF Some] show ?thesis by (auto simp: to_valid_utf8.simps [of s])
    qed
  qed (simp add: to_valid_utf8.simps)
qed

lemma valid_Nil [simp]: "valid_utf8 []"
  by (simp add: valid_utf8_def to_valid_utf8.simps)

lemma valid_unfold: "s \<noteq> [] \<Longrightarrow> valid_utf8 s \<longleftrightarrow> (\<exists>n. rune_len s = Some n \<and> valid_utf8 (drop n s))"
proof (cases "rune_len s")
  case None
  assume s: "s \<noteq> []"
  with None have "length (to_valid_utf8 s) < length s"
    using to_valid_length [of "tl s"] by (cases s) (simp_all add: to_valid_utf8.simps [of s] to_valid_utf8.simps [of "_ # _"])
  with None show ?thesis by (auto simp: valid_utf8_def)
next
  case (Some n)
  assume s: "s \<noteq> []"
  have "take n s @ to_valid_utf8 (drop n s) = s \<longleftrightarrow> to_valid_utf8 (drop n s) = drop n s"
    by (metis append_take_drop_id same_append_eq)
  with s Some show ?thesis by (simp add: valid_utf8_def to_valid_utf8.simps [of s])
qed

lemma rune_len_take:
  assumes "rune_len s = Some n"
  shows "rune_len (take n s @ x) = Some n"
proof (cases s)
  case (Cons c r)
  have n: "n = lead_len c" using assms Cons by (auto simp: rune_len_def Let_def split: if_splits)
  show ?thesis
  proof (cases "n = 1")
    case True
    with n [symmetric] Cons show ?thesis by (simp add: rune_len_def)
  next
    case False
    with assms Cons n have a: "n \<noteq> 0" "n - 1 \<le> length r" "second_ok (byte c) (r ! 0)" "list_all continuation (take (n - 2) (tl r))"
      by (auto simp: rune_len_def Let_def split: if_splits)
    with False obtain k where k: "n = Suc (Suc k)" by (metis One_nat_def not0_implies_Suc)
    with a(2) obtain d r' where r: "r = d # r'" by (cases r) auto
    with a k Cons n False show ?thesis by (simp add: rune_len_def Let_def)
  qed
qed (use assms in \<open>simp add: rune_len_def\<close>)

lemma valid_rune: "rune_len s = Some n \<Longrightarrow> valid_utf8 x \<Longrightarrow> valid_utf8 (take n s @ x)"
  using rune_len_bounds [of s n] rune_len_take [of s n x] by (subst valid_unfold) (cases s, auto)

lemma to_valid_valid: "valid_utf8 (to_valid_utf8 s)"
proof (induction s rule: to_valid_utf8.induct)
  case (1 s)
  show ?case
  proof (cases "s = []")
    case True
    then show ?thesis by (simp add: to_valid_utf8.simps)
  next
    case False
    with 1 show ?thesis by (cases "rune_len s") (simp_all add: to_valid_utf8.simps [of s] valid_rune)
  qed
qed

text \<open>A character that starts with a byte other than a continuation is a boundary.\<close>

lemma rune_len_boundary:
  assumes "\<not> continuation c" and "a \<noteq> []"
  shows "rune_len (a @ c # r) = rune_len a"
proof -
  obtain d a' where a: "a = d # a'" using assms(2) by (cases a) auto
  let ?n = "lead_len d"
  show ?thesis
  proof (cases "?n \<le> 1 \<or> ?n - 1 \<le> length a'")
    case True
    then consider "?n \<le> 1" | k where "?n = Suc (Suc k)" "k < length a'" by (cases ?n; cases "?n - 1") auto
    then show ?thesis
    proof cases
      case 1
      then show ?thesis by (cases ?n) (simp_all add: a rune_len_def)
    next
      case (2 k)
      then obtain e b where "a' = e # b" "k \<le> length b" by (cases a') auto
      with 2 show ?thesis by (simp add: a rune_len_def)
    qed
  next
    case False
    then have short: "1 < ?n" "length a' < ?n - 1" by auto
    have "\<not> (second_ok (byte d) ((a' @ c # r) ! 0) \<and> list_all continuation (take (?n - 2) (tl (a' @ c # r))))"
    proof (cases a')
      case Nil
      with assms(1) show ?thesis by (simp add: second_ok_def)
    next
      case (Cons e b)
      with short have "length b < ?n - 2" by simp
      then have "c \<in> set (take (?n - 2) (b @ c # r))" by (cases "?n - 2 - length b") simp_all
      with Cons assms(1) show ?thesis by (auto simp: list_all_iff)
    qed
    with short show ?thesis by (auto simp: a rune_len_def Let_def)
  qed
qed

lemma valid_boundary:
  assumes "\<not> continuation c"
  shows "valid_utf8 (a @ c # r) \<longleftrightarrow> valid_utf8 a \<and> valid_utf8 (c # r)"
proof (induction a rule: length_induct)
  case (1 a)
  show ?case
  proof (cases "a = []")
    case False
    note b = rune_len_boundary [OF assms False]
    show ?thesis
    proof (cases "rune_len a")
      case None
      with b False show ?thesis by (simp add: valid_unfold [of a] valid_unfold [of "a @ c # r"])
    next
      case (Some n)
      with rune_len_bounds [OF Some] False have "length (drop n a) < length a" by (cases a) auto
      with 1 have "valid_utf8 (drop n a @ c # r) \<longleftrightarrow> valid_utf8 (drop n a) \<and> valid_utf8 (c # r)" by blast
      with Some b False rune_len_bounds [OF Some] show ?thesis
        by (simp add: valid_unfold [of a] valid_unfold [of "a @ c # r"])
    qed
  qed simp
qed

lemma valid_ascii: "byte c < 128 \<Longrightarrow> valid_utf8 (c # r) \<longleftrightarrow> valid_utf8 r"
  by (simp add: valid_unfold rune_len_def lead_len_def)

text \<open>Removing markup keeps a text valid.\<close>

definition ascii_match :: "(string \<Rightarrow> nat option) \<Rightarrow> bool" where
  "ascii_match m \<longleftrightarrow> (\<forall>s n. m s = Some n \<longrightarrow> 0 < n \<and> n \<le> length s \<and> hd s = CHR ''<'' \<and> s ! (n - 1) = CHR ''>'')"

lemma ascii_matches: "ascii_match tag_at" "ascii_match dangerous_at"
proof -
  have "hd s = CHR ''<''" if "tag_at s = Some n" for s n
    using that by (auto simp: tag_at_def split: list.splits if_splits)
  then show "ascii_match tag_at" unfolding ascii_match_def using tag_at_append tag_at_end by blast
  show "ascii_match dangerous_at" unfolding ascii_match_def using dangerous_at_end by blast
qed

lemma byte_markup [simp]: "byte CHR ''<'' = 60" "byte CHR ''>'' = 62"
  by (simp_all add: byte_def)

lemma valid_after_match:
  assumes "ascii_match m" "m s = Some n" "valid_utf8 s"
  shows "valid_utf8 (drop n s)"
proof -
  from assms(1,2) have n: "0 < n" "n \<le> length s" "s ! (n - 1) = CHR ''>''" by (auto simp: ascii_match_def)
  then have "drop (n - 1) s = CHR ''>'' # drop n s" by (simp flip: Cons_nth_drop_Suc)
  then have s: "s = take (n - 1) s @ CHR ''>'' # drop n s" by (metis append_take_drop_id)
  have "\<not> continuation CHR ''>''" by (simp add: continuation_def)
  with assms(3) s have "valid_utf8 (CHR ''>'' # drop n s)" by (metis valid_boundary)
  then show ?thesis by (simp add: valid_ascii)
qed

lemma remove_matches_skip:
  assumes "ascii_match m" and "CHR ''<'' \<notin> set a"
  shows "remove_matches m (a @ b) = a @ remove_matches m b"
  using assms(2)
proof (induction a)
  case (Cons c a)
  have "m (c # a @ b) = None"
  proof (rule ccontr)
    assume "m (c # a @ b) \<noteq> None"
    then obtain n where "m (c # a @ b) = Some n" by auto
    with assms(1) have "hd (c # a @ b) = CHR ''<''" unfolding ascii_match_def by blast
    with Cons.prems show False by simp
  qed
  with Cons show ?case by (simp add: remove_matches.simps [of m "c # a @ b"])
qed simp

lemma rune_no_markup: "rune_len s = Some n \<Longrightarrow> n \<noteq> 1 \<Longrightarrow> CHR ''<'' \<notin> set (take n s)"
proof (cases s)
  case (Cons c r)
  assume n: "rune_len s = Some n" "n \<noteq> 1"
  have lead: "n = lead_len c" "n \<noteq> 0" "n - 1 \<le> length r" "second_ok (byte c) (r ! 0)" "list_all continuation (take (n - 2) (tl r))"
    using n Cons by (auto simp: rune_len_def Let_def split: if_splits)
  then obtain k where k: "n = Suc (Suc k)" using n(2) by (metis One_nat_def not0_implies_Suc)
  with lead(3) obtain d r' where r: "r = d # r'" by (cases r) auto
  have "c \<noteq> CHR ''<''" using lead(1) n(2) by (auto simp: lead_len_def)
  moreover have "d \<noteq> CHR ''<''" using lead(4) by (auto simp: r second_ok_def continuation_def)
  moreover have "CHR ''<'' \<notin> set (take k r')" using lead(5) by (auto simp: r k list_all_iff continuation_def)
  ultimately show ?thesis by (simp add: Cons r k)
qed simp

lemma valid_remove:
  assumes "ascii_match m" and "valid_utf8 s"
  shows "valid_utf8 (remove_matches m s)"
  using assms(2)
proof (induction s rule: length_induct)
  case (1 s)
  show ?case
  proof (cases "s = []")
    case False
    then obtain c r where s: "s = c # r" by (cases s) auto
    from 1(2) False obtain n where n: "rune_len s = Some n" "valid_utf8 (drop n s)" by (auto simp: valid_unfold)
    show ?thesis
    proof (cases "m s")
      case (Some k)
      with assms(1) have k: "0 < k" "k \<le> length s" by (auto simp: ascii_match_def)
      then have "length (drop k s) < length s" by simp
      with 1(1) valid_after_match [OF assms(1) Some 1(2)] have "valid_utf8 (remove_matches m (drop k s))" by blast
      moreover have "max 1 k = k" using k by simp
      ultimately show ?thesis using Some s by (simp add: remove_matches.simps [of m "c # r"])
    next
      case None
      have less: "length (drop n s) < length s" using rune_len_bounds [OF n(1)] by auto
      with 1(1) n(2) have v: "valid_utf8 (remove_matches m (drop n s))" by blast
      have "remove_matches m s = take n s @ remove_matches m (drop n s)"
      proof (cases "n = 1")
        case True
        with None s show ?thesis by (simp add: remove_matches.simps [of m "c # r"])
      next
        case False
        then show ?thesis
          using remove_matches_skip [OF assms(1) rune_no_markup [OF n(1)], of "drop n s"] by simp
      qed
      with valid_rune [OF n(1) v] show ?thesis by simp
    qed
  qed simp
qed

lemma valid_round: "valid_utf8 s \<Longrightarrow> valid_utf8 (strip_round s)"
  by (simp add: strip_round_def valid_remove ascii_matches)

text \<open>Blanks are whole characters.\<close>

lemma space_encodings_runes: "w \<in> set space_encodings \<Longrightarrow> rune_len w = Some (length w) \<and> \<not> continuation (hd w)"
  by (auto simp: space_encodings_def rune_len_def lead_len_def second_ok_def continuation_def byte_def)

lemma valid_cut_front:
  assumes "\<And>w. w \<in> set ws \<Longrightarrow> rune_len w = Some (length w)" and "valid_utf8 s"
  shows "valid_utf8 (cut_front ws s)"
  using assms
proof (induction ws s rule: cut_front.induct)
  case (1 ws s)
  show ?case
  proof (cases "find (\<lambda>w. w \<noteq> [] \<and> has_prefix s w) ws")
    case None
    with 1(3) show ?thesis by (simp add: cut_front.simps [of ws s])
  next
    case (Some w)
    then have w: "w \<in> set ws" "w \<noteq> []" "has_prefix s w" by (auto simp: find_Some_iff)
    then obtain r where s: "s = w @ r" by (auto simp: has_prefix_iff)
    from 1(2) w have "rune_len w = Some (length w)" by blast
    from rune_len_take [OF this, of r] have "rune_len s = Some (length w)" by (simp add: s)
    with 1(3) w(2) s have "valid_utf8 (drop (length w) s)" by (simp add: valid_unfold)
    with 1(1) [OF Some] 1(2) Some show ?thesis by (simp add: cut_front.simps [of ws s])
  qed
qed

lemma valid_cut_back:
  assumes "\<And>w. w \<in> set ws \<Longrightarrow> w \<noteq> [] \<Longrightarrow> \<not> continuation (hd (rev w))" and "valid_utf8 (rev s)"
  shows "valid_utf8 (rev (cut_front ws s))"
  using assms
proof (induction ws s rule: cut_front.induct)
  case (1 ws s)
  show ?case
  proof (cases "find (\<lambda>w. w \<noteq> [] \<and> has_prefix s w) ws")
    case None
    with 1(3) show ?thesis by (simp add: cut_front.simps [of ws s])
  next
    case (Some w)
    then have w: "w \<in> set ws" "w \<noteq> []" "has_prefix s w" by (auto simp: find_Some_iff)
    then obtain r where s: "s = w @ r" by (auto simp: has_prefix_iff)
    obtain c u where u: "rev w = c # u" using w(2) by (cases "rev w") auto
    with 1(2) w have "\<not> continuation c" by fastforce
    with 1(3) have "valid_utf8 (rev r)" by (simp add: s u valid_boundary)
    then have "valid_utf8 (rev (drop (length w) s))" by (simp add: s)
    with 1(1) [OF Some] 1(2) Some show ?thesis by (simp add: cut_front.simps [of ws s])
  qed
qed

lemma valid_trim: "valid_utf8 s \<Longrightarrow> valid_utf8 (trim_unicode s)"
  unfolding trim_unicode_def by (rule valid_cut_back) (auto simp: space_encodings_runes intro: valid_cut_front)

lemma valid_rounds: "valid_utf8 s \<Longrightarrow> valid_utf8 (strip_rounds s)"
proof (induction s rule: strip_rounds.induct)
  case (1 s)
  then show ?case by (simp add: strip_rounds.simps [of s] Let_def valid_trim valid_round)
qed

lemma cut_front_stop: "find (\<lambda>w. w \<noteq> [] \<and> has_prefix (cut_front ws s) w) ws = None"
proof (induction ws s rule: cut_front.induct)
  case (1 ws s)
  show ?case
    using 1 by (cases "find (\<lambda>w. w \<noteq> [] \<and> has_prefix s w) ws") (simp_all add: cut_front.simps [of ws s])
qed

lemma cut_front_id: "find (\<lambda>w. w \<noteq> [] \<and> has_prefix s w) ws = None \<Longrightarrow> cut_front ws s = s"
  by (simp add: cut_front.simps)

lemma trim_twice: "trim_unicode (trim_unicode s) = trim_unicode s"
proof -
  let ?f = "cut_front space_encodings s" and ?b = "map rev space_encodings"
  obtain z where "rev ?f = z @ cut_front ?b (rev ?f)" using cut_front_suffix by blast
  then have f: "?f = trim_unicode s @ rev z" unfolding trim_unicode_def by (metis rev_append rev_rev_ident)
  have "find (\<lambda>w. w \<noteq> [] \<and> has_prefix (trim_unicode s) w) space_encodings = None"
    using cut_front_stop [of space_encodings s] f has_prefix_extend [of "trim_unicode s"] by (fastforce simp: find_None_iff)
  then have "cut_front space_encodings (trim_unicode s) = trim_unicode s" by (rule cut_front_id)
  moreover have "cut_front ?b (rev (trim_unicode s)) = rev (trim_unicode s)"
    unfolding trim_unicode_def rev_rev_ident by (rule cut_front_id [OF cut_front_stop])
  ultimately show ?thesis by (simp add: trim_unicode_def [of "trim_unicode s"])
qed

lemma strip_rounds_trimmed: "trim_unicode (strip_rounds s) = strip_rounds s"
proof (induction s rule: strip_rounds.induct)
  case (1 s)
  then show ?case by (simp add: strip_rounds.simps [of s] Let_def trim_twice)
qed

text \<open>
  C23: However tags are nested or split, the cleaned text has no tag and no dangerous element that the patterns of the code
  recognize, it is valid UTF-8, and cleaning it again changes nothing.
\<close>

theorem strip_html_clean:
  "\<not> contains_html (strip_html s) \<and> find_at dangerous_at (strip_html s) = None \<and> valid_utf8 (strip_html s)
   \<and> strip_html (strip_html s) = strip_html s"
proof -
  have c: "clean (strip_html s)" unfolding strip_html_def by (rule strip_rounds_clean)
  have v: "valid_utf8 (strip_html s)" unfolding strip_html_def by (intro valid_rounds to_valid_valid)
  then have "to_valid_utf8 (strip_html s) = strip_html s" by (simp add: valid_utf8_def)
  then have "strip_html (strip_html s) = strip_rounds (strip_html s)" by (simp add: strip_html_def [of "strip_html s"])
  also have "\<dots> = trim_unicode (strip_html s)" by (simp add: strip_rounds.simps [of "strip_html s"] clean_round c)
  also have "\<dots> = strip_html s" by (simp add: strip_html_def strip_rounds_trimmed)
  finally show ?thesis using c v by (simp add: contains_html_def find_at_None clean_def no_match_def)
qed
text \<open>A text without markup loses the blanks at its ends only.\<close>

lemma strip_html_keeps:
  assumes "valid_utf8 s" "find_at tag_at s = None" "find_at dangerous_at s = None"
  shows "strip_html s = trim_unicode s"
proof -
  have "clean s" using assms(2,3) by (simp add: clean_def no_match_def find_at_None)
  with assms(1) show ?thesis
    by (simp add: strip_html_def valid_utf8_def strip_rounds.simps [of s] clean_round)
qed

lemma strip_html_examples:
  "strip_html ''<img src=x onerror=1>Agent'' = ''Agent''"
  "strip_html ''<scr<b>ipt>x</script> 2 < 3 and 4 > 1'' = ''x 2 < 3 and 4 > 1''"
  "strip_html ''a<iframe x>b</OBJECT>c'' = ''ac''"
  by code_simp+

section \<open>Slugs\<close>

definition slug_char :: "char \<Rightarrow> bool" where
  "slug_char c \<longleftrightarrow> char_between CHR ''a'' c CHR ''z'' \<or> is_digit c"

definition slug_max_length :: nat where
  "slug_max_length = 64"

text \<open>The pattern \<^verbatim>\<open>^[a-z0-9][a-z0-9-]{0,62}[a-z0-9]$\<close>.\<close>

definition valid_slug :: "string \<Rightarrow> bool" where
  "valid_slug s \<longleftrightarrow> 2 \<le> length s \<and> length s \<le> 64 \<and> slug_char (hd s) \<and> slug_char (last s)
     \<and> list_all (\<lambda>c. slug_char c \<or> c = CHR ''-'') s"

definition trim_right_hyphens :: "string \<Rightarrow> string" where
  "trim_right_hyphens s = rev (dropWhile (\<lambda>c. c = CHR ''-'') (rev s))"

definition trim_hyphens :: "string \<Rightarrow> string" where
  "trim_hyphens s = trim_right_hyphens (dropWhile (\<lambda>c. c = CHR ''-'') s)"

definition trim_slug :: "string \<Rightarrow> string" where
  "trim_slug s = (if length s \<le> slug_max_length then trim_hyphens s else trim_hyphens (take slug_max_length s))"

text \<open>
  The loop over the characters; a character outside ASCII is one or more bytes that are no slug characters, which gives the
  same hyphen. \<open>plain\<close> is lower case without diacritics.
\<close>

fun slug_loop :: "bool \<Rightarrow> string \<Rightarrow> string" where
  "slug_loop prev_hyphen [] = []"
| "slug_loop prev_hyphen (c # cs) =
     (if slug_char c then c # slug_loop False cs
      else if \<not> prev_hyphen then CHR ''-'' # slug_loop True cs
      else slug_loop prev_hyphen cs)"

definition slug_body :: "(string \<Rightarrow> string) \<Rightarrow> string \<Rightarrow> string" where
  "slug_body plain input = trim_slug (slug_loop True (plain (trim_unicode input)))"

text \<open>\<open>u1\<close> and \<open>u2\<close> are the first eight characters of new UUIDs.\<close>

definition to_slug :: "(string \<Rightarrow> string) \<Rightarrow> string \<Rightarrow> string \<Rightarrow> string \<Rightarrow> string \<Rightarrow> string" where
  "to_slug plain u1 u2 name fallback =
     (let result = slug_body plain name;
          result = (if result = '''' then
                      (let prefix = slug_body plain fallback;
                           prefix = (if prefix = '''' then ''slug'' else prefix)
                       in prefix @ ''-'' @ u1)
                    else result);
          result = (if length result = 1 then
                      (let suffix = slug_body plain fallback;
                           suffix = (if suffix = '''' \<or> suffix = result then ''slug'' else suffix)
                       in result @ ''-'' @ suffix)
                    else result);
          result = trim_slug result;
          result = (if \<not> valid_slug result then ''slug-'' @ u2 else result)
      in trim_slug result)"

definition slug_with_numeric_suffix :: "string \<Rightarrow> int \<Rightarrow> string" where
  "slug_with_numeric_suffix base n =
     (let base = trim_slug base;
          base = (if base = '''' then ''slug'' else base);
          suffix = ''-'' @ itoa n
      in if length base + length suffix \<le> slug_max_length then base @ suffix
         else let max_base = int slug_max_length - int (length suffix);
                  max_base = (if max_base < 1 then 1 else max_base)
              in trim_right_hyphens (take (nat max_base) base) @ suffix)"

text \<open>Slug text: slug characters and hyphens.\<close>

definition slug_text :: "string \<Rightarrow> bool" where
  "slug_text s \<longleftrightarrow> list_all (\<lambda>c. slug_char c \<or> c = CHR ''-'') s"

definition edged :: "string \<Rightarrow> bool" where
  "edged s \<longleftrightarrow> (s \<noteq> [] \<longrightarrow> slug_char (hd s) \<and> slug_char (last s))"

lemma hyphen_no_slug_char [simp]: "\<not> slug_char CHR ''-''"
  by (simp add: slug_char_def char_between_def is_digit_def)

lemma slug_loop_text: "slug_text (slug_loop b s)"
  by (induction b s rule: slug_loop.induct) (auto simp: slug_text_def)

lemma trim_right_facts:
  "slug_text s \<Longrightarrow> slug_text (trim_right_hyphens s)"
  "slug_text s \<Longrightarrow> trim_right_hyphens s \<noteq> [] \<Longrightarrow> slug_char (last (trim_right_hyphens s))"
  "length (trim_right_hyphens s) \<le> length s"
  "\<exists>z. s = trim_right_hyphens s @ z \<and> set z \<subseteq> {CHR ''-''}"
proof -
  let ?d = "dropWhile (\<lambda>c. c = CHR ''-'') (rev s)"
  show "slug_text s \<Longrightarrow> slug_text (trim_right_hyphens s)"
    by (fastforce simp: slug_text_def trim_right_hyphens_def list_all_iff dest: set_dropWhileD)
  show "slug_char (last (trim_right_hyphens s))" if "slug_text s" "trim_right_hyphens s \<noteq> []"
  proof -
    from that(2) have "?d \<noteq> []" by (simp add: trim_right_hyphens_def)
    then have "hd ?d \<noteq> CHR ''-''" by (rule hd_dropWhile)
    moreover have "hd ?d \<in> set s" using \<open>?d \<noteq> []\<close> by (metis hd_in_set set_dropWhileD set_rev)
    ultimately show ?thesis using that(1) \<open>?d \<noteq> []\<close> by (auto simp: slug_text_def list_all_iff trim_right_hyphens_def last_rev)
  qed
  show "length (trim_right_hyphens s) \<le> length s" by (metis trim_right_hyphens_def length_dropWhile_le length_rev)
  have "rev s = takeWhile (\<lambda>c. c = CHR ''-'') (rev s) @ ?d" by simp
  then have "s = rev ?d @ rev (takeWhile (\<lambda>c. c = CHR ''-'') (rev s))" by (metis rev_append rev_rev_ident)
  then show "\<exists>z. s = trim_right_hyphens s @ z \<and> set z \<subseteq> {CHR ''-''}"
    unfolding trim_right_hyphens_def by (intro exI [of _ "rev (takeWhile (\<lambda>c. c = CHR ''-'') (rev s))"]) (auto dest: set_takeWhileD)
qed

lemma trim_hyphens_facts:
  assumes "slug_text s"
  shows "slug_text (trim_hyphens s) \<and> edged (trim_hyphens s) \<and> length (trim_hyphens s) \<le> length s"
proof -
  let ?d = "dropWhile (\<lambda>c. c = CHR ''-'') s"
  have d: "slug_text ?d" using assms by (auto simp: slug_text_def list_all_iff dest: set_dropWhileD)
  note f = trim_right_facts [of ?d]
  have "slug_char (hd (trim_hyphens s))" if "trim_hyphens s \<noteq> []"
  proof -
    from f(4) obtain z where z: "?d = trim_hyphens s @ z" by (auto simp: trim_hyphens_def)
    with that have "?d \<noteq> []" "hd ?d = hd (trim_hyphens s)" by auto
    then have "hd (trim_hyphens s) \<noteq> CHR ''-''" using hd_dropWhile [of "\<lambda>c. c = CHR ''-''" s] by auto
    moreover have "hd (trim_hyphens s) \<in> set ?d" using that z by auto
    ultimately show ?thesis using d by (auto simp: slug_text_def list_all_iff)
  qed
  with f d show ?thesis using length_dropWhile_le [of "\<lambda>c. c = CHR ''-''" s] by (auto simp: trim_hyphens_def edged_def)
qed

lemma trim_slug_facts:
  assumes "slug_text s"
  shows "slug_text (trim_slug s) \<and> edged (trim_slug s) \<and> length (trim_slug s) \<le> 64 \<and> length (trim_slug s) \<le> length s"
proof -
  have "slug_text (take 64 s)" using assms by (auto simp: slug_text_def list_all_iff dest: in_set_takeD)
  with assms show ?thesis using trim_hyphens_facts [of s] trim_hyphens_facts [of "take 64 s"] by (auto simp: trim_slug_def slug_max_length_def)
qed
lemma slug_body_facts: "slug_text (slug_body plain s) \<and> edged (slug_body plain s) \<and> length (slug_body plain s) \<le> 64"
  using trim_slug_facts [OF slug_loop_text] by (auto simp: slug_body_def)

lemma trim_hyphens_edged: "edged s \<Longrightarrow> trim_hyphens s = s"
proof (cases "s = []")
  case False
  assume e: "edged s"
  have h: "hd s \<noteq> CHR ''-''" "hd (rev s) \<noteq> CHR ''-''" using e False by (auto simp: edged_def hd_rev)
  have "dropWhile (\<lambda>c. c = CHR ''-'') s = s" using h(1) False by (cases s) auto
  moreover have "dropWhile (\<lambda>c. c = CHR ''-'') (rev s) = rev s" using h(2) False by (cases "rev s") auto
  ultimately show ?thesis by (simp add: trim_hyphens_def trim_right_hyphens_def)
qed (simp add: trim_hyphens_def trim_right_hyphens_def)

lemma valid_slugI:
  "slug_text s \<Longrightarrow> edged s \<Longrightarrow> 2 \<le> length s \<Longrightarrow> length s \<le> 64 \<Longrightarrow> valid_slug s"
  by (auto simp: valid_slug_def slug_text_def edged_def)

lemma trim_valid_slug: "valid_slug s \<Longrightarrow> trim_slug s = s"
  by (auto simp: valid_slug_def trim_slug_def slug_max_length_def edged_def intro: trim_hyphens_edged)

text \<open>Two parts joined by a hyphen, cut to the limit, are a slug.\<close>

lemma dropWhile_hyphen_keep: "slug_char (hd a) \<Longrightarrow> a \<noteq> [] \<Longrightarrow> dropWhile (\<lambda>c. c = CHR ''-'') (a @ b) = a @ b"
  by (cases a) auto

lemma trim_right_keep:
  assumes "slug_char (last a)" "a \<noteq> []"
  shows "length a \<le> length (trim_right_hyphens (a @ b))"
proof -
  let ?P = "\<lambda>c. c = CHR ''-''"
  have "dropWhile ?P (rev b @ rev a) = (if dropWhile ?P (rev b) = [] then dropWhile ?P (rev a) else dropWhile ?P (rev b) @ rev a)"
    by (auto simp: dropWhile_append dropWhile_eq_Nil_conv)
  moreover have "dropWhile ?P (rev a) = rev a" using assms by (cases "rev a") (auto simp: last_rev dest: arg_cong [where f = hd] simp flip: hd_rev)
  ultimately show ?thesis by (simp add: trim_right_hyphens_def)
qed

lemma trim_slug_joined:
  assumes "slug_text p" "edged p" "p \<noteq> []" "length p \<le> 64" "slug_text q" "edged q" "q \<noteq> []" and "length p = 1 \<or> 2 \<le> length p"
    and "length p = 1 \<longrightarrow> length q \<le> 64"
  shows "valid_slug (trim_slug (p @ ''-'' @ q))"
proof -
  let ?s = "p @ ''-'' @ q"
  have t: "slug_text ?s" using assms by (auto simp: slug_text_def)
  note f = trim_slug_facts [OF t]
  have "2 \<le> length (trim_slug ?s)"
  proof (cases "length ?s \<le> 64")
    case True
    have "edged ?s" using assms by (auto simp: edged_def)
    with True show ?thesis using assms(3,7) by (simp add: trim_slug_def slug_max_length_def trim_hyphens_edged Suc_le_eq)
  next
    case False
    let ?c = "take 64 ?s"
    obtain b where b: "?c = p @ b" using assms(4) by (metis append_take_drop_id take_all take_append)
    have h: "slug_char (hd p)" "slug_char (last p)" using assms(2,3) by (auto simp: edged_def)
    show ?thesis
    proof (cases "2 \<le> length p")
      case True
      have "trim_slug ?s = trim_right_hyphens (p @ b)"
        unfolding trim_slug_def slug_max_length_def trim_hyphens_def b using False h assms(3) by (simp add: dropWhile_hyphen_keep)
      with trim_right_keep [OF h(2) assms(3), of b] True show ?thesis by simp
    next
      case F: False
      with assms(3,8) have p: "length p = 1" by (cases p) auto
      then obtain c where c: "p = [c]" by (cases p) auto
      from assms(7) obtain d q' where q: "q = d # q'" by (cases q) auto
      have d: "slug_char d" using assms(6) q by (simp add: edged_def)
      have "?c = (p @ ''-'' @ [d]) @ take 61 q'" by (simp add: c q)
      then have "trim_slug ?s = trim_right_hyphens ((p @ ''-'' @ [d]) @ take 61 q')"
        using False h by (auto simp: trim_slug_def slug_max_length_def trim_hyphens_def c q)
      with trim_right_keep [of "p @ ''-'' @ [d]" "take 61 q'"] d show ?thesis by (simp add: c)
    qed
  qed
  with f show ?thesis by (auto intro: valid_slugI)
qed

text \<open>
  C24: Whatever the name and the fallback are, and whatever removing diacritics does, the slug is canonical, when UUIDs start
  with eight lower-case hexadecimal digits; so the last resort of the code is never used.
\<close>

theorem to_slug_valid:
  assumes "length u = 8" "list_all slug_char u"
  shows "valid_slug (to_slug plain u v name fallback) \<and> to_slug plain u v name fallback = to_slug plain u v' name fallback"
proof -
  let ?b = "slug_body plain name" and ?f = "slug_body plain fallback"
  define p where "p = (if ?f = '''' then ''slug'' else ?f)"
  define q where "q = (if ?f = '''' \<or> ?f = ?b then ''slug'' else ?f)"
  define r where "r = (if ?b = '''' then p @ ''-'' @ u else if length ?b = 1 then ?b @ ''-'' @ q else ?b)"
  have slug: "slug_text ''slug''" "edged ''slug''" by (simp_all add: slug_text_def edged_def slug_char_def char_between_def)
  have u: "slug_text u" "edged u" "u \<noteq> []" using assms by (auto simp: slug_text_def edged_def list_all_iff)
  note b = slug_body_facts [of plain name] and f = slug_body_facts [of plain fallback]
  have pq: "slug_text p" "edged p" "p \<noteq> []" "length p \<le> 64" "slug_text q" "edged q" "q \<noteq> []" "length q \<le> 64"
    using f slug by (auto simp: p_def q_def)
  have lp: "length p = 1 \<or> 2 \<le> length p" using pq(3) by (cases p; cases "tl p") auto
  have valid: "valid_slug (trim_slug r)"
  proof (cases "?b = ''''")
    case True
    then show ?thesis using trim_slug_joined [OF pq(1-4) u lp] assms(1) by (simp add: r_def)
  next
    case False
    then have lb: "length ?b = 1 \<or> 2 \<le> length ?b" by (cases ?b; cases "tl ?b") auto
    show ?thesis
    proof (cases "length ?b = 1")
      case True
      then show ?thesis using trim_slug_joined [of ?b q] b pq False lb by (simp add: r_def)
    next
      case F: False
      with lb b have "valid_slug ?b" by (auto intro: valid_slugI)
      with False F show ?thesis by (simp add: r_def trim_valid_slug)
    qed
  qed
  have l: "length (p @ ''-'' @ u) \<noteq> 1" using pq(3) by simp
  have "to_slug plain u w name fallback = trim_slug r" for w
    using valid l trim_valid_slug [OF valid] unfolding to_slug_def Let_def r_def p_def q_def by (simp split: if_splits)
  with valid show ?thesis by simp
qed
theorem to_slug_valid_witness:
  "valid_slug (to_slug (\<lambda>s. to_lower s) ''0a1b2c3d'' '''' ''--- <script>'' '''')
   \<and> to_slug (\<lambda>s. to_lower s) ''0a1b2c3d'' '''' ''--- <script>'' '''' = to_slug (\<lambda>s. to_lower s) ''0a1b2c3d'' ''x'' ''--- <script>'' ''''
   \<and> to_slug (\<lambda>s. to_lower s) ''0a1b2c3d'' '''' '' HTTP.User Lookup!'' '''' = ''http-user-lookup''
   \<and> to_slug (\<lambda>s. to_lower s) ''0a1b2c3d'' '''' ''...'' ''tool'' = ''tool-0a1b2c3d''"
proof -
  have "length ''0a1b2c3d'' = 8" "list_all slug_char ''0a1b2c3d''" by (simp, code_simp)
  from to_slug_valid [OF this, of "\<lambda>s. to_lower s" "''''" "''--- <script>''" "''''" "''x''"]
  have "valid_slug (to_slug (\<lambda>s. to_lower s) ''0a1b2c3d'' '''' ''--- <script>'' '''')
   \<and> to_slug (\<lambda>s. to_lower s) ''0a1b2c3d'' '''' ''--- <script>'' '''' = to_slug (\<lambda>s. to_lower s) ''0a1b2c3d'' ''x'' ''--- <script>'' ''''" .
  moreover have "to_slug (\<lambda>s. to_lower s) ''0a1b2c3d'' '''' '' HTTP.User Lookup!'' '''' = ''http-user-lookup''" by code_simp
  moreover have "to_slug (\<lambda>s. to_lower s) ''0a1b2c3d'' '''' ''...'' ''tool'' = ''tool-0a1b2c3d''" by code_simp
  ultimately show ?thesis by blast
qed

lemma length_nat_digits: "n < 10 ^ Suc k \<Longrightarrow> length (nat_digits n) \<le> Suc k"
proof (induction k arbitrary: n)
  case 0
  then show ?case by (simp add: nat_digits.simps [of n])
next
  case (Suc k)
  have "n div 10 < 10 ^ Suc k" using Suc.prems by (simp add: less_mult_imp_div_less ac_simps)
  then have "length (nat_digits (n div 10)) \<le> Suc k" by (rule Suc.IH)
  then show ?case by (simp add: nat_digits.simps [of n])
qed

lemma slug_text_digits: "list_all is_digit s \<Longrightarrow> slug_text s"
  by (auto simp: slug_text_def slug_char_def list_all_iff)

lemma itoa_suffix:
  assumes "int64_ok n"
  shows "slug_text (itoa n) \<and> itoa n \<noteq> [] \<and> slug_char (last (itoa n)) \<and> length (itoa n) \<le> 20"
proof -
  have d: "slug_text (nat_digits k) \<and> nat_digits k \<noteq> [] \<and> slug_char (last (nat_digits k))" for k
    using nat_digits_correct [of k] by (auto simp: all_digits_def slug_text_digits list_all_iff slug_char_def)
  have l: "length (nat_digits k) \<le> 19" if "k \<le> 2 ^ 63" for k
    using that length_nat_digits [of k 18] by simp
  have "length (nat_digits (nat n)) \<le> 19" "length (nat_digits (nat (- n))) \<le> 19"
    using assms by (auto simp: int64_ok_def nat_le_iff intro!: l)
  with d show ?thesis by (auto simp: itoa_def slug_text_def)
qed

lemma slug_base: "trim_slug s = s \<Longrightarrow> s \<noteq> '''' \<Longrightarrow> (if trim_slug s = '''' then ''slug'' else trim_slug s) = s"
  by simp

text \<open>
  A number added to a canonical slug gives a canonical slug, and different numbers give different slugs; so numbering can
  always resolve a clash of names.
\<close>

theorem numeric_suffix_valid:
  assumes "valid_slug base" and "int64_ok n" "int64_ok m" and "0 \<le> n" "0 \<le> m"
  shows "valid_slug (slug_with_numeric_suffix base n)
    \<and> (slug_with_numeric_suffix base n = slug_with_numeric_suffix base m \<longrightarrow> n = m)"
proof -
  have b: "trim_slug base = base" "base \<noteq> ''''" "length base \<le> 64" using assms(1) by (auto simp: trim_valid_slug valid_slug_def)
  have eb: "slug_text base" "slug_char (hd base)" "slug_char (last base)" using assms(1) by (auto simp: valid_slug_def slug_text_def)
  have form: "\<exists>p. slug_with_numeric_suffix base k = p @ ''-'' @ itoa k \<and> p \<noteq> [] \<and> slug_text p \<and> hd p = hd base
      \<and> length p + length (itoa k) < 64" if k: "int64_ok k" for k
  proof (cases "length base + length (itoa k) < 64")
    case True
    with b eb show ?thesis by (auto simp: slug_with_numeric_suffix_def slug_max_length_def Let_def)
  next
    case False
    let ?m = "63 - length (itoa k)"
    have l: "length (itoa k) \<le> 20" using itoa_suffix [OF k] by blast
    let ?p = "trim_right_hyphens (take ?m base)"
    have t: "slug_text (take ?m base)" using eb(1) by (auto simp: slug_text_def list_all_iff dest: in_set_takeD)
    have "take ?m base \<noteq> []" using b(2) l by simp
    moreover have "hd (take ?m base) = hd base" using l by simp
    ultimately have "take ?m base = [hd base] @ tl (take ?m base)" by (metis append_Cons append_Nil list.collapse)
    then have keep: "1 \<le> length ?p" using trim_right_keep [of "[hd base]" "tl (take ?m base)"] eb(2) by simp
    obtain z where "take ?m base = ?p @ z" using trim_right_facts(4) by blast
    moreover have "?p \<noteq> []" using keep by auto
    ultimately have "hd ?p = hd base" using \<open>hd (take ?m base) = hd base\<close> by (metis hd_append2)
    moreover have "slug_with_numeric_suffix base k = ?p @ ''-'' @ itoa k"
    proof -
      have "nat (int 64 - int (Suc (length (itoa k)))) = ?m" by simp
      moreover have "\<not> int 64 - int (Suc (length (itoa k))) < 1" using l by simp
      ultimately show ?thesis
        using False b by (simp add: slug_with_numeric_suffix_def slug_max_length_def Let_def)
    qed
    moreover have "length ?p \<le> ?m" using trim_right_facts(3) [of "take ?m base"] by simp
    ultimately show ?thesis using \<open>?p \<noteq> []\<close> trim_right_facts(1) [OF t] l by (intro exI [of _ ?p]) auto
  qed
  obtain p where p: "slug_with_numeric_suffix base n = p @ ''-'' @ itoa n" "p \<noteq> []" "slug_text p" "hd p = hd base"
    "length p + length (itoa n) < 64" using form [OF assms(2)] by blast
  obtain q where q: "slug_with_numeric_suffix base m = q @ ''-'' @ itoa m" using form [OF assms(3)] by blast
  note i = itoa_suffix [OF assms(2)]
  have "valid_slug (slug_with_numeric_suffix base n)"
    unfolding p(1) using p(2-5) i eb(2) by (auto simp: valid_slug_def slug_text_def Suc_le_eq)
  moreover have "n = m" if "slug_with_numeric_suffix base n = slug_with_numeric_suffix base m"
  proof -
    have free: "CHR ''-'' \<notin> set (itoa k)" if "0 \<le> k" for k
      using that nat_digits_correct [of "nat k"]
      by (auto simp: itoa_def all_digits_def list_all_iff is_digit_def char_between_def)
    have "takeWhile (\<lambda>c. c \<noteq> CHR ''-'') (rev (itoa k) @ CHR ''-'' # r) = rev (itoa k)" if "0 \<le> k" for k r
      using free [OF that] by (subst takeWhile_append2) auto
    with that p(1) q assms(4,5) have "rev (itoa n) = rev (itoa m)" by (metis append.assoc append_Cons append_Nil rev.simps(2) rev_append)
    then have "atoi (itoa n) = atoi (itoa m)" by simp
    with atoi_itoa assms(2,3) show ?thesis by simp
  qed
  ultimately show ?thesis by blast
qed

theorem numeric_suffix_valid_witness:
  "valid_slug (slug_with_numeric_suffix ''web-search'' 7) \<and> slug_with_numeric_suffix ''web-search'' 7 \<noteq> slug_with_numeric_suffix ''web-search'' 8"
proof -
  have "valid_slug ''web-search''" by code_simp
  from numeric_suffix_valid [OF this, of 7 8] show ?thesis by (simp add: int64_ok_def)
qed


end
