(* ===== verification/SemVer.thy ===== *)
theory SemVer
  imports GoStrings "HOL-Library.List_Lexorder" "HOL-Library.Char_ord"
begin

text \<open>
  Semantic versions (\<^verbatim>\<open>src/internal/domain/chat/agentic/semver.go\<close>): loose parsing, printing, and the
  comparison with its rules for pre-releases. Identifiers of a pre-release are given an order of their own,
  and the comparison is shown to be the one this order induces.
\<close>

section \<open>Parsing and printing\<close>

record sem_ver =
  sv_major :: int
  sv_minor :: int
  sv_patch :: int
  sv_pre :: string

text \<open>The text before and after the first occurrence of a byte.\<close>

definition cut_at :: "char \<Rightarrow> string \<Rightarrow> string \<times> string option" where
  "cut_at c s = (case index_byte c s of None \<Rightarrow> (s, None) | Some i \<Rightarrow> (take i s, Some (drop (Suc i) s)))"

definition split_pre_release :: "string \<Rightarrow> string \<times> string" where
  "split_pre_release s =
     (case cut_at CHR ''-'' s of
        (core, Some pre) \<Rightarrow> (core, fst (cut_at CHR ''+'' pre))
      | (_, None) \<Rightarrow> (fst (cut_at CHR ''+'' s), []))"

definition version_number :: "string \<Rightarrow> int option" where
  "version_number s = (case atoi s of Some n \<Rightarrow> if n < 0 then None else Some n | None \<Rightarrow> None)"

definition number_at :: "nat \<Rightarrow> string list \<Rightarrow> int option" where
  "number_at i parts = (if i < length parts then version_number (parts ! i) else Some 0)"

definition parse_sem_ver :: "string \<Rightarrow> sem_ver option" where
  "parse_sem_ver version =
     (let s = trim_prefix (trim_space version) ''v''
      in if s = [] then None
         else case split_pre_release s of
                (core, pre) \<Rightarrow>
                  (let parts = split_on CHR ''.'' core
                   in if length parts < 1 \<or> 3 < length parts then None
                      else case version_number (parts ! 0) of
                             None \<Rightarrow> None
                           | Some major \<Rightarrow>
                               (case number_at 1 parts of
                                  None \<Rightarrow> None
                                | Some minor \<Rightarrow>
                                    (case number_at 2 parts of
                                       None \<Rightarrow> None
                                     | Some patch \<Rightarrow>
                                         Some \<lparr>sv_major = major, sv_minor = minor, sv_patch = patch, sv_pre = pre\<rparr>))))"

definition sem_ver_string :: "sem_ver \<Rightarrow> string" where
  "sem_ver_string v =
     itoa (sv_major v) @ ''.'' @ itoa (sv_minor v) @ ''.'' @ itoa (sv_patch v)
     @ (if sv_pre v \<noteq> [] then ''-'' @ sv_pre v else [])"

section \<open>Comparison\<close>

definition cmp_int :: "int \<Rightarrow> int \<Rightarrow> int" where
  "cmp_int a b = (if a < b then -1 else if b < a then 1 else 0)"

text \<open>The loop over the identifiers both have, then the number of identifiers.\<close>

fun compare_identifiers :: "string list \<Rightarrow> string list \<Rightarrow> int" where
  "compare_identifiers (a # as) (b # bs) =
     (case (atoi a, atoi b) of
        (Some m, Some n) \<Rightarrow> if cmp_int m n \<noteq> 0 then cmp_int m n else compare_identifiers as bs
      | (Some _, None) \<Rightarrow> -1
      | (None, Some _) \<Rightarrow> 1
      | (None, None) \<Rightarrow> if a < b then -1 else if b < a then 1 else compare_identifiers as bs)"
| "compare_identifiers as bs = cmp_int (int (length as)) (int (length bs))"

definition compare_pre_release :: "string \<Rightarrow> string \<Rightarrow> int" where
  "compare_pre_release a b =
     (if a = [] \<and> b = [] then 0
      else if a = [] then 1
      else if b = [] then -1
      else compare_identifiers (split_on CHR ''.'' a) (split_on CHR ''.'' b))"

definition sem_ver_compare :: "sem_ver \<Rightarrow> sem_ver \<Rightarrow> int" where
  "sem_ver_compare v w =
     (if cmp_int (sv_major v) (sv_major w) \<noteq> 0 then cmp_int (sv_major v) (sv_major w)
      else if cmp_int (sv_minor v) (sv_minor w) \<noteq> 0 then cmp_int (sv_minor v) (sv_minor w)
      else if cmp_int (sv_patch v) (sv_patch w) \<noteq> 0 then cmp_int (sv_patch v) (sv_patch w)
      else compare_pre_release (sv_pre v) (sv_pre w))"

definition compare_sem_ver :: "string \<Rightarrow> string \<Rightarrow> int" where
  "compare_sem_ver a b =
     (case (parse_sem_ver a, parse_sem_ver b) of
        (Some v, Some w) \<Rightarrow> sem_ver_compare v w
      | _ \<Rightarrow> 0)"

definition sem_ver_gt :: "string \<Rightarrow> string \<Rightarrow> bool" where
  "sem_ver_gt a b = (compare_sem_ver a b = 1)"

definition sem_ver_gte :: "string \<Rightarrow> string \<Rightarrow> bool" where
  "sem_ver_gte a b = (0 \<le> compare_sem_ver a b)"

definition sem_ver_lt :: "string \<Rightarrow> string \<Rightarrow> bool" where
  "sem_ver_lt a b = (compare_sem_ver a b = -1)"

definition sem_ver_lte :: "string \<Rightarrow> string \<Rightarrow> bool" where
  "sem_ver_lte a b = (compare_sem_ver a b \<le> 0)"

definition sem_ver_eq :: "string \<Rightarrow> string \<Rightarrow> bool" where
  "sem_ver_eq a b = (compare_sem_ver a b = 0)"

section \<open>The order behind the comparison\<close>

text \<open>Numeric identifiers come before the others; a version without pre-release after all of its pre-releases.\<close>

datatype pre_ident = Numeric int | Alpha string

instantiation pre_ident :: linorder
begin

fun less_pre_ident :: "pre_ident \<Rightarrow> pre_ident \<Rightarrow> bool" where
  "less_pre_ident (Numeric a) (Numeric b) = (a < b)"
| "less_pre_ident (Numeric _) (Alpha _) = True"
| "less_pre_ident (Alpha _) (Numeric _) = False"
| "less_pre_ident (Alpha a) (Alpha b) = (a < b)"

definition less_eq_pre_ident :: "pre_ident \<Rightarrow> pre_ident \<Rightarrow> bool" where
  "less_eq_pre_ident a b = (a = b \<or> a < b)"

instance
proof
  fix a b c :: pre_ident
  show "a < b \<longleftrightarrow> a \<le> b \<and> \<not> b \<le> a"
    by (cases a; cases b) (auto simp: less_eq_pre_ident_def)
  show "a \<le> a" by (simp add: less_eq_pre_ident_def)
  show "a \<le> c" if "a \<le> b" "b \<le> c"
    using that by (cases a; cases b; cases c) (auto simp: less_eq_pre_ident_def)
  show "a = b" if "a \<le> b" "b \<le> a"
    using that by (cases a; cases b) (auto simp: less_eq_pre_ident_def)
  show "a \<le> b \<or> b \<le> a"
    by (cases a; cases b) (auto simp: less_eq_pre_ident_def)
qed

end

datatype precedence = PreRelease "pre_ident list" | Release

instantiation precedence :: linorder
begin

fun less_precedence :: "precedence \<Rightarrow> precedence \<Rightarrow> bool" where
  "less_precedence (PreRelease a) (PreRelease b) = (a < b)"
| "less_precedence (PreRelease _) Release = True"
| "less_precedence Release _ = False"

definition less_eq_precedence :: "precedence \<Rightarrow> precedence \<Rightarrow> bool" where
  "less_eq_precedence a b = (a = b \<or> a < b)"

instance
proof
  fix a b c :: precedence
  show "a < b \<longleftrightarrow> a \<le> b \<and> \<not> b \<le> a"
    by (cases a; cases b) (auto simp: less_eq_precedence_def)
  show "a \<le> a" by (simp add: less_eq_precedence_def)
  show "a \<le> c" if "a \<le> b" "b \<le> c"
    using that by (cases a; cases b; cases c) (auto simp: less_eq_precedence_def)
  show "a = b" if "a \<le> b" "b \<le> a"
    using that by (cases a; cases b) (auto simp: less_eq_precedence_def)
  show "a \<le> b \<or> b \<le> a"
    by (cases a; cases b) (auto simp: less_eq_precedence_def)
qed

end

definition identifier_of :: "string \<Rightarrow> pre_ident" where
  "identifier_of s = (case atoi s of Some n \<Rightarrow> Numeric n | None \<Rightarrow> Alpha s)"

definition precedence_of :: "string \<Rightarrow> precedence" where
  "precedence_of pre = (if pre = [] then Release else PreRelease (map identifier_of (split_on CHR ''.'' pre)))"

text \<open>The key a version is compared by, as a list so that the order is lexicographic.\<close>

definition number_key :: "sem_ver \<Rightarrow> int list" where
  "number_key v = [sv_major v, sv_minor v, sv_patch v]"

definition version_less :: "sem_ver \<Rightarrow> sem_ver \<Rightarrow> bool" where
  "version_less v w \<longleftrightarrow>
     number_key v < number_key w
     \<or> number_key v = number_key w \<and> precedence_of (sv_pre v) < precedence_of (sv_pre w)"

definition same_version :: "sem_ver \<Rightarrow> sem_ver \<Rightarrow> bool" where
  "same_version v w \<longleftrightarrow> number_key v = number_key w \<and> precedence_of (sv_pre v) = precedence_of (sv_pre w)"

lemma compare_identifiers_order:
  "compare_identifiers as bs =
     (if map identifier_of as < map identifier_of bs then -1
      else if map identifier_of bs < map identifier_of as then 1 else 0)"
proof (induction as bs rule: compare_identifiers.induct)
  case (1 a as b bs)
  then show ?case
    by (cases "atoi a"; cases "atoi b") (auto simp: identifier_of_def cmp_int_def)
qed (auto simp: cmp_int_def not_less)

lemma compare_pre_release_order:
  "compare_pre_release a b =
     (if precedence_of a < precedence_of b then -1 else if precedence_of b < precedence_of a then 1 else 0)"
  by (simp add: compare_pre_release_def precedence_of_def compare_identifiers_order)

lemma sem_ver_compare_order:
  "sem_ver_compare v w = (if version_less v w then -1 else if version_less w v then 1 else 0)"
  by (auto simp: sem_ver_compare_def cmp_int_def version_less_def number_key_def compare_pre_release_order)

lemma version_less_irrefl: "\<not> version_less v v"
  by (simp add: version_less_def)

lemma version_less_trans: "version_less u v \<Longrightarrow> version_less v w \<Longrightarrow> version_less u w"
  by (auto simp: version_less_def dest: order.strict_trans)

lemma version_trichotomy:
  "version_less v w \<or> version_less w v \<or> same_version v w"
  by (auto simp: version_less_def same_version_def)

lemma version_less_same:
  "same_version u v \<Longrightarrow> version_less u w = version_less v w \<and> version_less w u = version_less w v"
  by (simp add: version_less_def same_version_def)

lemma version_not_less_trans: "\<not> version_less v u \<Longrightarrow> \<not> version_less w v \<Longrightarrow> \<not> version_less w u"
  by (metis version_less_same version_less_trans version_trichotomy)

lemma compare_signs:
  "sem_ver_compare v w \<le> 0 \<longleftrightarrow> \<not> version_less w v" "sem_ver_compare v w < 0 \<longleftrightarrow> version_less v w"
  using version_less_trans [of v w v] version_less_irrefl by (auto simp: sem_ver_compare_order)

text \<open>
  \<^verbatim>\<open>Compare\<close> is the comparison of a total preorder: comparing a version with itself gives 0, swapping
  the arguments negates the result, the result is transitive, 0 means the same numbers and the same
  identifiers, and a version comes after each of its pre-releases.
\<close>

theorem sem_ver_compare_total_preorder:
  "sem_ver_compare v v = 0
   \<and> sem_ver_compare w v = - sem_ver_compare v w
   \<and> (sem_ver_compare u v \<le> 0 \<and> sem_ver_compare v w \<le> 0 \<longrightarrow> sem_ver_compare u w \<le> 0)
   \<and> (sem_ver_compare u v < 0 \<and> sem_ver_compare v w \<le> 0 \<longrightarrow> sem_ver_compare u w < 0)
   \<and> (sem_ver_compare v w = 0 \<longleftrightarrow> same_version v w)
   \<and> (sv_pre v \<noteq> [] \<longrightarrow> sem_ver_compare v (v\<lparr>sv_pre := []\<rparr>) = -1)"
proof (intro conjI)
  show "sem_ver_compare v v = 0" by (simp add: sem_ver_compare_order version_less_irrefl)
  show "sem_ver_compare w v = - sem_ver_compare v w"
    using version_less_trans [of v w v] version_less_irrefl by (auto simp: sem_ver_compare_order)
  show "sem_ver_compare u v \<le> 0 \<and> sem_ver_compare v w \<le> 0 \<longrightarrow> sem_ver_compare u w \<le> 0"
    unfolding compare_signs using version_not_less_trans by blast
  show "sem_ver_compare u v < 0 \<and> sem_ver_compare v w \<le> 0 \<longrightarrow> sem_ver_compare u w < 0"
    unfolding compare_signs by (metis version_less_same version_less_trans version_trichotomy)
  show "sem_ver_compare v w = 0 \<longleftrightarrow> same_version v w"
    using version_trichotomy [of v w] version_less_same [of v w w] version_less_irrefl
    by (auto simp: sem_ver_compare_order)
  show "sv_pre v \<noteq> [] \<longrightarrow> sem_ver_compare v (v\<lparr>sv_pre := []\<rparr>) = -1"
    by (simp add: sem_ver_compare_order version_less_def number_key_def precedence_of_def)
qed

lemma sem_ver_compare_total_preorder_witness:
  "sem_ver_compare \<lparr>sv_major = 1, sv_minor = 0, sv_patch = 0, sv_pre = ''rc.1''\<rparr>
     \<lparr>sv_major = 1, sv_minor = 0, sv_patch = 0, sv_pre = []\<rparr> = -1"
  using sem_ver_compare_total_preorder [of "\<lparr>sv_major = 1, sv_minor = 0, sv_patch = 0, sv_pre = ''rc.1''\<rparr>"] by simp

text \<open>An unparseable string is equal to every version, so comparing strings is not transitive.\<close>

lemma unparseable_equals_all:
  "parse_sem_ver a = None \<Longrightarrow> compare_sem_ver a b = 0 \<and> sem_ver_gte a b \<and> sem_ver_lte a b \<and> sem_ver_eq a b"
  by (simp add: compare_sem_ver_def sem_ver_gte_def sem_ver_lte_def sem_ver_eq_def)

text \<open>A hyphen in the build metadata is taken for the start of a pre-release, so a valid version is rejected.\<close>

lemma hyphen_in_build_rejected: "parse_sem_ver ''1.0.0+build-1'' = None"
proof -
  have "trim_prefix (trim_space ''1.0.0+build-1'') ''v'' = ''1.0.0+build-1''"
    "split_pre_release ''1.0.0+build-1'' = (''1.0.0+build'', ''1'')"
    "split_on CHR ''.'' ''1.0.0+build'' = [''1'', ''0'', ''0+build'']" by code_simp+
  moreover have "number_at 2 [''1'', ''0'', ''0+build''] = None"
    by (simp add: number_at_def version_number_def atoi_def has_prefix_def all_digits_def is_digit_def char_between_def)
  ultimately show ?thesis by (simp add: parse_sem_ver_def Let_def split: option.splits)
qed

section \<open>Printing and parsing\<close>

lemma cut_at_absent: "c \<notin> set s \<Longrightarrow> cut_at c s = (s, None)"
  by (simp add: cut_at_def index_byte_None [THEN iffD2])

lemma cut_at_present: "c \<notin> set s \<Longrightarrow> cut_at c (s @ c # t) = (s, Some t)"
  by (simp add: cut_at_def)

lemma number_digits:
  assumes "0 \<le> n"
  shows "c \<in> set (itoa n) \<Longrightarrow> is_digit c" "itoa n \<noteq> []"
  using nat_digits_correct [of "nat n"] assms by (auto simp: itoa_def all_digits_def list_all_iff)

lemma version_number_itoa: "0 \<le> n \<Longrightarrow> int64_ok n \<Longrightarrow> version_number (itoa n) = Some n"
  by (simp add: version_number_def atoi_itoa)

lemma digit_not:
  "is_digit c \<Longrightarrow> c \<noteq> CHR ''.'' \<and> c \<noteq> CHR ''-'' \<and> c \<noteq> CHR ''+'' \<and> c \<noteq> CHR ''v'' \<and> \<not> is_space c"
  by (auto simp: is_digit_def char_between_def is_space_def)

text \<open>What parsing needs to give a printed version back.\<close>

definition printable_version :: "sem_ver \<Rightarrow> bool" where
  "printable_version v \<longleftrightarrow>
     0 \<le> sv_major v \<and> 0 \<le> sv_minor v \<and> 0 \<le> sv_patch v
     \<and> int64_ok (sv_major v) \<and> int64_ok (sv_minor v) \<and> int64_ok (sv_patch v)
     \<and> CHR ''+'' \<notin> set (sv_pre v) \<and> (sv_pre v = [] \<or> \<not> is_space (last (sv_pre v)))"

definition core_string :: "sem_ver \<Rightarrow> string" where
  "core_string v = itoa (sv_major v) @ ''.'' @ itoa (sv_minor v) @ ''.'' @ itoa (sv_patch v)"

lemma trim_space_ends: "s \<noteq> [] \<Longrightarrow> \<not> is_space (hd s) \<Longrightarrow> \<not> is_space (last s) \<Longrightarrow> trim_space s = s"
proof -
  assume s: "s \<noteq> []" "\<not> is_space (hd s)" "\<not> is_space (last s)"
  then have "dropWhile is_space s = s" by (cases s) auto
  moreover have "dropWhile is_space (rev s) = rev s" using s by (cases "rev s") (auto simp: hd_rev [symmetric])
  ultimately show ?thesis by (simp add: trim_space_def)
qed

lemma core_string_chars:
  assumes "printable_version v" "c \<in> set (core_string v)"
  shows "is_digit c \<or> c = CHR ''.''"
  using assms number_digits(1) by (auto simp: core_string_def printable_version_def)

lemma core_string_digits:
  assumes "printable_version v"
  shows "core_string v \<noteq> []" "is_digit (hd (core_string v))" "is_digit (last (core_string v))"
  using assms number_digits [of "sv_major v"] number_digits [of "sv_patch v"] hd_in_set last_in_set
  by (auto simp: core_string_def printable_version_def)

lemma core_string_split:
  assumes "printable_version v"
  shows "split_on CHR ''.'' (core_string v) = [itoa (sv_major v), itoa (sv_minor v), itoa (sv_patch v)]"
proof -
  have no: "CHR ''.'' \<notin> set (itoa n)" if "0 \<le> n" for n
    using number_digits(1) [OF that] digit_not by blast
  then show ?thesis
    using assms by (simp add: core_string_def printable_version_def split_on_append split_on_single)
qed

text \<open>
  A version with numbers in range, a pre-release without a plus sign and no space at its end is what parsing its
  printed form gives; so printing loses nothing, and parsing then printing is idempotent on such versions.
\<close>

theorem sem_ver_roundtrip:
  assumes "printable_version v"
  shows "parse_sem_ver (sem_ver_string v) = Some v"
proof -
  let ?core = "core_string v"
  have s: "sem_ver_string v = ?core @ (if sv_pre v \<noteq> [] then ''-'' @ sv_pre v else [])"
    by (simp add: sem_ver_string_def core_string_def)
  note ends = core_string_digits [OF assms]
  have "\<not> is_space (hd ?core)" "\<not> is_space (last ?core)" using ends(2,3) digit_not by blast+
  then have trim: "trim_space (sem_ver_string v) = sem_ver_string v"
    using ends(1) assms unfolding s by (intro trim_space_ends) (auto simp: printable_version_def)
  have "hd ?core \<noteq> CHR ''v''" using ends(2) digit_not by blast
  then have pre: "trim_prefix (sem_ver_string v) ''v'' = sem_ver_string v"
    using ends(1) unfolding s by (cases ?core) (auto simp: trim_prefix_def)
  have no: "CHR ''-'' \<notin> set ?core" "CHR ''+'' \<notin> set ?core"
    using core_string_chars [OF assms] digit_not by fastforce+
  have split: "split_pre_release (sem_ver_string v) = (?core, sv_pre v)"
    using no assms unfolding s
    by (auto simp: split_pre_release_def cut_at_absent cut_at_present printable_version_def)
  show ?thesis
    using ends(1) assms unfolding parse_sem_ver_def trim pre Let_def split
    by (simp add: s core_string_split [OF assms] number_at_def version_number_itoa printable_version_def)
qed

lemma sem_ver_roundtrip_witness:
  "parse_sem_ver ''1.20.3-rc-1'' = Some \<lparr>sv_major = 1, sv_minor = 20, sv_patch = 3, sv_pre = ''rc-1''\<rparr>"
proof -
  let ?v = "\<lparr>sv_major = 1, sv_minor = 20, sv_patch = 3, sv_pre = ''rc-1''\<rparr>"
  have "printable_version ?v" "sem_ver_string ?v = ''1.20.3-rc-1''" by code_simp+
  with sem_ver_roundtrip [of ?v] show ?thesis by simp
qed

end
