(* ===== verification/Ssrf.thy ===== *)
theory Ssrf
  imports GoStrings "HOL-Library.Word"
begin

unbundle bit_operations_syntax

text \<open>
  The guards against requests to internal addresses: \<^verbatim>\<open>ValidateURL\<close> and \<^verbatim>\<open>ValidateHost\<close> of
  \<^verbatim>\<open>src/internal/ssrf/ssrf.go\<close> and \<^verbatim>\<open>IsBlockedAddress\<close> of
  \<^verbatim>\<open>src/internal/domain/chat/agentic/ssrfguard.go\<close>. Addresses are lists of 16 bytes, as \<^verbatim>\<open>net.ParseIP\<close>
  gives them (an IPv4 address in its mapped form); that parser and the test for membership in a network are modelled. A
  URL is what \<^verbatim>\<open>net/url\<close> parses it to, None if it does not. Each error is a constructor.
\<close>

section \<open>Addresses\<close>

type_synonym ip_bytes = "8 word list"

definition octet :: "string \<Rightarrow> 8 word option" where
  "octet s = (if canonical_digits s \<and> digits_val s \<le> 255 then Some (of_nat (digits_val s)) else None)"

definition parse_ipv4 :: "string \<Rightarrow> ip_bytes option" where
  "parse_ipv4 s = (let parts = split_on CHR ''.'' s in if length parts = 4 then those (map octet parts) else None)"

definition v4_in_v6 :: "ip_bytes \<Rightarrow> ip_bytes" where
  "v4_in_v6 v = replicate 10 0 @ [0xff, 0xff] @ v"

definition is_hex :: "char \<Rightarrow> bool" where
  "is_hex c = (is_digit c \<or> char_between CHR ''a'' (lower_char c) CHR ''f'')"

definition hex_val :: "char \<Rightarrow> nat" where
  "hex_val c = (if is_digit c then digit_val c else of_char (lower_char c) - 87)"

definition group_bytes :: "string \<Rightarrow> ip_bytes" where
  "group_bytes h = (let n = foldl (\<lambda>acc c. 16 * acc + hex_val c) 0 h in [of_nat (n div 256), of_nat (n mod 256)])"

lemma dropWhile_Cons_shorter: "dropWhile P s = c # rest \<Longrightarrow> length rest < length s"
  by (induction s) (auto split: if_splits)

text \<open>The loop over the groups: the bytes so far, and where the double colon was.\<close>

function parse_groups :: "ip_bytes \<Rightarrow> nat option \<Rightarrow> string \<Rightarrow> (ip_bytes \<times> nat option) option" where
  "parse_groups acc ellipsis s =
     (if 16 \<le> length acc then (if s = [] then Some (acc, ellipsis) else None)
      else let h = takeWhile is_hex s; acc' = acc @ group_bytes h
           in if h = [] \<or> 4 < length h then None
              else case dropWhile is_hex s of
                     [] \<Rightarrow> Some (acc', ellipsis)
                   | c # rest \<Rightarrow>
                       if c = CHR ''.''
                       then (if ellipsis = None \<and> length acc \<noteq> 12 \<or> 16 < length acc + 4 then None
                             else map_option (\<lambda>v. (acc @ v, ellipsis)) (parse_ipv4 s))
                       else if c \<noteq> CHR '':'' \<or> rest = [] then None
                       else if hd rest = CHR '':''
                       then (if ellipsis \<noteq> None then None
                             else if tl rest = [] then Some (acc', Some (length acc'))
                             else parse_groups acc' (Some (length acc')) (tl rest))
                       else parse_groups acc' ellipsis rest)"
  by pat_completeness auto

termination
  by (relation "measure (\<lambda>(acc, e, s). length s)") (auto dest: dropWhile_Cons_shorter simp: less_imp_diff_less)

declare parse_groups.simps [simp del]

definition expand_ellipsis :: "ip_bytes \<times> nat option \<Rightarrow> ip_bytes option" where
  "expand_ellipsis r =
     (case r of (acc, ellipsis) \<Rightarrow>
        if length acc < 16
        then map_option (\<lambda>e. take e acc @ replicate (16 - length acc) 0 @ drop e acc) ellipsis
        else if ellipsis \<noteq> None then None else Some acc)"

definition parse_ipv6 :: "string \<Rightarrow> ip_bytes option" where
  "parse_ipv6 s =
     (if CHR ''%'' \<in> set s then None
      else if has_prefix s ''::''
      then (if drop 2 s = [] then Some (replicate 16 0)
            else Option.bind (parse_groups [] (Some 0) (drop 2 s)) expand_ellipsis)
      else Option.bind (parse_groups [] None s) expand_ellipsis)"

definition parse_ip :: "string \<Rightarrow> ip_bytes option" where
  "parse_ip s =
     (case find (\<lambda>c. c \<in> {CHR ''.'', CHR '':'', CHR ''%''}) s of
        Some c \<Rightarrow> if c = CHR ''.'' then map_option v4_in_v6 (parse_ipv4 s)
                  else if c = CHR '':'' then parse_ipv6 s else None
      | None \<Rightarrow> None)"

definition to4 :: "ip_bytes \<Rightarrow> ip_bytes option" where
  "to4 ip =
     (if length ip = 4 then Some ip
      else if length ip = 16 \<and> list_all ((=) 0) (take 10 ip) \<and> ip ! 10 = 0xff \<and> ip ! 11 = 0xff then Some (drop 12 ip)
      else None)"

definition ipv6_loopback :: ip_bytes where
  "ipv6_loopback = replicate 15 0 @ [1]"

definition is_loopback :: "ip_bytes \<Rightarrow> bool" where
  "is_loopback ip = (case to4 ip of Some v \<Rightarrow> v ! 0 = 127 | None \<Rightarrow> ip = ipv6_loopback)"

definition is_link_local_unicast :: "ip_bytes \<Rightarrow> bool" where
  "is_link_local_unicast ip =
     (case to4 ip of
        Some v \<Rightarrow> v ! 0 = 169 \<and> v ! 1 = 254
      | None \<Rightarrow> length ip = 16 \<and> ip ! 0 = 0xfe \<and> ip ! 1 AND 0xc0 = 0x80)"

section \<open>Networks\<close>

text \<open>A network: its address and the number of leading bits that count.\<close>

type_synonym cidr = "ip_bytes \<times> nat"

definition mask_byte :: "nat \<Rightarrow> nat \<Rightarrow> 8 word" where
  "mask_byte ones i = (if 8 * i + 8 \<le> ones then 0xff else if ones \<le> 8 * i then 0 else push_bit (8 * i + 8 - ones) 0xff)"

definition cidr_contains :: "cidr \<Rightarrow> ip_bytes \<Rightarrow> bool" where
  "cidr_contains net ip =
     (case net of (nn, ones) \<Rightarrow>
        let x = (case to4 ip of Some v \<Rightarrow> v | None \<Rightarrow> ip)
        in length x = length nn
           \<and> list_all (\<lambda>i. nn ! i AND mask_byte ones i = x ! i AND mask_byte ones i) [0..<length nn])"

definition private_cidrs :: "cidr list" where
  "private_cidrs =
     [([10, 0, 0, 0], 8), ([172, 16, 0, 0], 12), ([192, 168, 0, 0], 16), ([127, 0, 0, 0], 8), ([169, 254, 0, 0], 16),
      (ipv6_loopback, 128), (0xfc # replicate 15 0, 7), ([100, 64, 0, 0], 10)]"

section \<open>Hosts and URLs\<close>

datatype ssrf_error =
  HostEmpty | LoopbackName | ClusterDns | LoopbackAddress | LinkLocalAddress
| InvalidUrl | UnsupportedScheme string | UrlWithoutHost | PrivateAddress

definition canonical_host :: "string \<Rightarrow> string" where
  "canonical_host h = rev (dropWhile (\<lambda>c. c = CHR ''.'') (rev (to_lower (trim_space h))))"

text \<open>The allowlist as \<^verbatim>\<open>init\<close> and \<^verbatim>\<open>AllowHost\<close> fill it.\<close>

definition allowed_from_env :: "string \<Rightarrow> string set" where
  "allowed_from_env v = set (filter (\<lambda>h. h \<noteq> []) (map (\<lambda>h. canonical_host (trim_space h)) (split_on CHR '','' v)))"

definition allow_host :: "string \<Rightarrow> string set \<Rightarrow> string set" where
  "allow_host h allowed =
     (if h = [] then allowed else if canonical_host h \<noteq> [] then insert (canonical_host h) allowed else allowed)"

definition loopback_name :: "string \<Rightarrow> bool" where
  "loopback_name h = (h = ''localhost'' \<or> h = ''ip6-localhost'' \<or> h = ''ip6-loopback'')"

definition cluster_name :: "string \<Rightarrow> bool" where
  "cluster_name h = (has_suffix h ''.svc.cluster.local'' \<or> has_suffix h ''.cluster.local'')"

definition validate_host :: "string set \<Rightarrow> string \<Rightarrow> ssrf_error + unit" where
  "validate_host allowed host0 =
     (let host = trim_space host0; h = canonical_host host
      in if host = [] then Inl HostEmpty
         else if h = [] then Inl HostEmpty
         else if h \<in> allowed then Inr ()
         else if loopback_name h then Inl LoopbackName
         else if cluster_name h then Inl ClusterDns
         else case parse_ip h of
                Some ip \<Rightarrow> if is_loopback ip then Inl LoopbackAddress
                           else if is_link_local_unicast ip then Inl LinkLocalAddress else Inr ()
              | None \<Rightarrow> Inr ())"

record parsed_url =
  pu_scheme :: string
  pu_host :: string
  pu_hostname :: string

definition validate_url :: "string set \<Rightarrow> parsed_url option \<Rightarrow> ssrf_error + unit" where
  "validate_url allowed url =
     (case url of
        None \<Rightarrow> Inl InvalidUrl
      | Some u \<Rightarrow>
          if to_lower (pu_scheme u) \<noteq> ''http'' \<and> to_lower (pu_scheme u) \<noteq> ''https''
          then Inl (UnsupportedScheme (pu_scheme u))
          else if pu_host u = [] then Inl UrlWithoutHost
          else let h = canonical_host (pu_hostname u)
               in if h = [] then Inl UrlWithoutHost
                  else if h \<in> allowed then Inr ()
                  else if cluster_name h then Inl ClusterDns
                  else if loopback_name h then Inl LoopbackName
                  else case parse_ip h of
                         Some ip \<Rightarrow> if list_ex (\<lambda>net. cidr_contains net ip) private_cidrs then Inl PrivateAddress else Inr ()
                       | None \<Rightarrow> Inr ())"

section \<open>The guard of hooks\<close>

definition is_blocked_v4 :: "ip_bytes \<Rightarrow> bool" where
  "is_blocked_v4 v =
     (let a = v ! 0; b = v ! 1
      in if a = 127 then False
         else if a = 0 then True
         else if a = 10 then True
         else if a = 169 \<and> b = 254 then True
         else if a = 172 \<and> 16 \<le> b \<and> b \<le> 31 then True
         else if a = 100 \<and> 64 \<le> b \<and> b \<le> 127 then True
         else a = 192 \<and> b = 168)"

definition extract_mapped_ipv4 :: "ip_bytes \<Rightarrow> ip_bytes option" where
  "extract_mapped_ipv4 ip =
     (if length ip \<noteq> 16 then None
      else if list_ex (\<lambda>x. x \<noteq> 0) (take 10 ip) then None
      else if ip ! 10 \<noteq> 0xff \<or> ip ! 11 \<noteq> 0xff then None
      else Some (drop 12 ip))"

definition is_blocked_v6 :: "ip_bytes \<Rightarrow> string \<Rightarrow> bool" where
  "is_blocked_v6 ip address =
     (let lower = to_lower address
      in if ip = ipv6_loopback then False
         else if ip = replicate 16 0 then True
         else case extract_mapped_ipv4 ip of
                Some v \<Rightarrow> is_blocked_v4 v
              | None \<Rightarrow>
                  if has_prefix lower ''fc'' \<or> has_prefix lower ''fd'' then True
                  else if length ip = 16 \<and> (ip ! 0 = 0xfc \<or> ip ! 0 = 0xfd) then True
                  else length ip = 16 \<and> ip ! 0 = 0xfe \<and> ip ! 1 AND 0xc0 = 0x80)"

definition is_blocked_address :: "string \<Rightarrow> bool" where
  "is_blocked_address address =
     (case parse_ip address of
        None \<Rightarrow> False
      | Some ip \<Rightarrow> (case to4 ip of Some v \<Rightarrow> is_blocked_v4 v | None \<Rightarrow> is_blocked_v6 ip address))"

definition is_private_ipv4_string :: "string \<Rightarrow> bool" where
  "is_private_ipv4_string address =
     (let parts = split_on CHR ''.'' address
      in if length parts \<noteq> 4 then False
         else case (atoi (parts ! 0), atoi (parts ! 1)) of
                (Some a, Some b) \<Rightarrow> a = 10 \<or> a = 172 \<and> 16 \<le> b \<and> b \<le> 31 \<or> a = 192 \<and> b = 168
              | _ \<Rightarrow> False)"

section \<open>Addresses and their text\<close>

lemma octet_iff: "octet s = Some w \<longleftrightarrow> s = nat_digits (unat w)"
proof
  assume "octet s = Some w"
  then have s: "canonical_digits s" "digits_val s \<le> 255" "w = of_nat (digits_val s)"
    by (auto simp: octet_def split: if_splits)
  then have "unat w = digits_val s" by (simp add: unat_of_nat)
  with s(1) show "s = nat_digits (unat w)" by (simp add: nat_digits_digits_val)
next
  assume s: "s = nat_digits (unat w)"
  have "unat w < 2 ^ 8" by (rule order.strict_trans2 [OF unsigned_less]) simp
  then have "unat w \<le> 255" by simp
  with s show "octet s = Some w" using nat_digits_correct [of "unat w"] nat_digits_canonical [of "unat w"]
    by (simp add: octet_def)
qed

lemma split_on_join: "ws \<noteq> [] \<Longrightarrow> \<forall>w\<in>set ws. c \<notin> set w \<Longrightarrow> split_on c (join_with [c] ws) = ws"
  by (induction ws) (auto simp: join_with_Cons split_on_single split_on_append)

lemma those_map_iff: "those (map f xs) = Some ys \<longleftrightarrow> list_all2 (\<lambda>x y. f x = Some y) xs ys"
  by (induction xs arbitrary: ys) (auto simp: list_all2_Cons1 split: option.splits)

lemma digits_no_dot: "CHR ''.'' \<notin> set (nat_digits n)"
  using nat_digits_correct [of n] by (auto simp: all_digits_def list_all_iff is_digit_def char_between_def)

lemma octets_iff: "list_all2 (\<lambda>x y. octet x = Some y) xs v \<longleftrightarrow> xs = map (\<lambda>w. nat_digits (unat w)) v"
  by (induction v arbitrary: xs) (auto simp: octet_iff list_all2_Cons2)

lemma parse_ipv4_iff:
  "parse_ipv4 s = Some v \<longleftrightarrow> length v = 4 \<and> s = join_with ''.'' (map (\<lambda>w. nat_digits (unat w)) v)"
proof -
  let ?ds = "map (\<lambda>w. nat_digits (unat w)) v"
  have "parse_ipv4 s = Some v \<longleftrightarrow> length v = 4 \<and> split_on CHR ''.'' s = ?ds"
    by (auto simp: parse_ipv4_def Let_def those_map_iff octets_iff split: if_splits)
  moreover have "split_on CHR ''.'' s = ?ds \<longleftrightarrow> s = join_with ''.'' ?ds" if "length v = 4"
  proof
    assume "split_on CHR ''.'' s = ?ds"
    then show "s = join_with ''.'' ?ds" using join_split [of "CHR ''.''" s] by simp
  next
    assume "s = join_with ''.'' ?ds"
    then show "split_on CHR ''.'' s = ?ds"
      using split_on_join [of ?ds "CHR ''.''"] that digits_no_dot by fastforce
  qed
  ultimately show ?thesis by blast
qed

lemma group_bytes_length [simp]: "length (group_bytes h) = 2"
  by (simp add: group_bytes_def Let_def)

lemma parse_ipv4_length: "parse_ipv4 s = Some v \<Longrightarrow> length v = 4"
  by (simp add: parse_ipv4_iff)

text \<open>The bytes parsed so far and the place of the double colon fit an address.\<close>

definition groups_ok :: "ip_bytes \<times> nat option \<Rightarrow> bool" where
  "groups_ok r = (even (length (fst r)) \<and> length (fst r) \<le> 16 \<and> (case snd r of None \<Rightarrow> True | Some k \<Rightarrow> k \<le> length (fst r)))"

lemma groups_ok_group:
  assumes "groups_ok (acc, e)" and "\<not> 16 \<le> length acc"
  shows "groups_ok (acc @ group_bytes h, e)" and "groups_ok (acc @ group_bytes h, Some (length (acc @ group_bytes h)))"
proof -
  have "even (length acc)" using assms(1) by (simp add: groups_ok_def)
  with assms(2) have "length acc + 2 \<le> 16" by presburger
  with assms show "groups_ok (acc @ group_bytes h, e)"
    and "groups_ok (acc @ group_bytes h, Some (length (acc @ group_bytes h)))"
    by (auto simp: groups_ok_def split: option.splits)
qed

lemma groups_ok_ipv4:
  "groups_ok (acc, e) \<Longrightarrow> \<not> 16 < length acc + 4 \<Longrightarrow> parse_ipv4 s = Some v \<Longrightarrow> groups_ok (acc @ v, e)"
  by (auto simp: groups_ok_def dest!: parse_ipv4_length split: option.splits)

lemma parse_groups_ok: "groups_ok (acc, e) \<Longrightarrow> parse_groups acc e s = Some r \<Longrightarrow> groups_ok r"
proof (induction acc e s rule: parse_groups.induct)
  case (1 acc e s)
  define h where "h = takeWhile is_hex s"
  define acc' where "acc' = acc @ group_bytes h"
  note run = 1(4) [unfolded parse_groups.simps [of acc e s] Let_def, folded h_def, folded acc'_def]
  note IH = "1.IH" [OF _ refl refl, folded h_def, folded acc'_def]
  show ?case
  proof (cases "16 \<le> length acc")
    case True
    with 1(3) run show ?thesis by (auto split: if_splits)
  next
    case False
    have grown: "groups_ok (acc', e)" "groups_ok (acc', Some (length acc'))"
      using groups_ok_group [OF 1(3) False] by (simp_all add: acc'_def)
    show ?thesis
    proof (cases "dropWhile is_hex s")
      case Nil
      with run [unfolded Nil] False grown show ?thesis by (auto split: if_splits)
    next
      case (Cons c rest)
      show ?thesis
      proof (cases "c = CHR ''.''")
        case True
        with run False Cons groups_ok_ipv4 [OF 1(3)] show ?thesis by (auto split: if_splits)
      next
        case nodot: False
        show ?thesis using run False Cons nodot grown IH(1) [OF False _ Cons nodot] IH(2) [OF False _ Cons nodot]
          by (auto split: if_splits)
      qed
    qed
  qed
qed

lemma parse_ipv6_length: "parse_ipv6 s = Some ip \<Longrightarrow> length ip = 16"
proof -
  have expand: "expand_ellipsis r = Some ip \<Longrightarrow> groups_ok r \<Longrightarrow> length ip = 16" for r
    by (cases r) (auto simp: expand_ellipsis_def groups_ok_def split: if_splits)
  have "groups_ok ([], Some 0)" "groups_ok ([], None)" by (simp_all add: groups_ok_def)
  then show "length ip = 16" if "parse_ipv6 s = Some ip"
    using that by (auto simp: parse_ipv6_def bind_eq_Some_conv split: if_splits dest: parse_groups_ok expand)
qed

lemma parse_ip_length: "parse_ip s = Some ip \<Longrightarrow> length ip = 16"
  by (auto simp: parse_ip_def v4_in_v6_def dest: parse_ipv4_length parse_ipv6_length split: option.splits if_splits)

section \<open>The private networks, in numbers\<close>

text \<open>Clearing the low bits of a byte, in numbers.\<close>

lemma and_high_bits:
  fixes w :: "8 word"
  shows "unat (w AND NOT (mask n)) = 2 ^ n * (unat w div 2 ^ n)"
proof -
  have "unat w < 2 ^ 8" by (rule order.strict_trans2 [OF unsigned_less]) simp
  with times_div_less_eq_dividend [of "2 ^ n" "unat w"] have "2 ^ n * (unat w div 2 ^ n) < 2 ^ 8" by linarith
  then have le: "push_bit n (drop_bit n (unat w)) < 2 ^ 8"
    by (simp add: push_bit_eq_mult drop_bit_eq_div mult.commute)
  have "w AND NOT (mask n) = push_bit n (drop_bit n w)"
    by (rule bit_eqI) (auto simp: bit_simps)
  then have "unat (w AND NOT (mask n)) = push_bit n (drop_bit n (unat w))"
    using le by (simp only: unsigned_push_bit_eq unat_drop_bit_eq) (simp add: take_bit_nat_eq_self)
  then show ?thesis by (simp add: push_bit_eq_mult drop_bit_eq_div mult.commute)
qed

lemma high_masks: "(0xf0 :: 8 word) = NOT (mask 4)" "(0xc0 :: 8 word) = NOT (mask 6)" "(0xfe :: 8 word) = NOT (mask 1)"
  by (simp_all add: mask_eq_exp_minus_1)

lemma mask_bytes:
  fixes w :: "8 word"
  shows "w AND 0xf0 = 0x10 \<longleftrightarrow> 16 \<le> unat w \<and> unat w \<le> 31"
    and "w AND 0xc0 = 0x40 \<longleftrightarrow> 64 \<le> unat w \<and> unat w \<le> 127"
    and "w AND 0xfe = 0xfc \<longleftrightarrow> w = 0xfc \<or> w = 0xfd"
    and "w AND 0xc0 = 0x80 \<longleftrightarrow> 0x80 \<le> unat w \<and> unat w \<le> 0xbf"
  using and_high_bits [of w 4] and_high_bits [of w 6] and_high_bits [of w 1]
  unfolding high_masks [symmetric] by (auto simp: word_unat_eq_iff)

lemma length_4: "length v = 4 \<longleftrightarrow> (\<exists>a b c d. v = [a, b, c, d])"
  by (auto simp: length_Suc_conv numeral_eq_Suc)

text \<open>The literal addresses the blocklist stands for.\<close>

definition internal_v4 :: "nat \<Rightarrow> nat \<Rightarrow> bool" where
  "internal_v4 a b =
     (a = 10 \<or> a = 127 \<or> a = 172 \<and> 16 \<le> b \<and> b \<le> 31 \<or> a = 192 \<and> b = 168 \<or> a = 169 \<and> b = 254
      \<or> a = 100 \<and> 64 \<le> b \<and> b \<le> 127)"

definition internal_ip :: "ip_bytes \<Rightarrow> bool" where
  "internal_ip ip =
     (case to4 ip of
        Some v \<Rightarrow> internal_v4 (unat (v ! 0)) (unat (v ! 1))
      | None \<Rightarrow> ip = ipv6_loopback \<or> ip ! 0 \<in> {0xfc, 0xfd})"

lemma to4_length: "to4 ip = Some v \<Longrightarrow> length v = 4"
  by (auto simp: to4_def split: if_splits)
lemma and_all_ones [simp]: "(w :: 8 word) AND 0xff = w"
proof -
  have "(0xff :: 8 word) = -1" by simp
  then show ?thesis by (simp only: word_and_max)
qed

lemma cidr_v4:
  assumes "to4 ip = Some [a, b, c, d]" and "mask_byte k 2 = 0" and "mask_byte k 3 = 0"
  shows "cidr_contains ([m, n, x, y], k) ip
     \<longleftrightarrow> m AND mask_byte k 0 = a AND mask_byte k 0 \<and> n AND mask_byte k 1 = b AND mask_byte k 1"
proof -
  have "[0..<4] = [0, 1, 2, 3 :: nat]" by code_simp
  with assms show ?thesis by (auto simp: cidr_contains_def numeral_2_eq_2 numeral_3_eq_3)
qed

lemma cidr_v4_long: "to4 ip = Some v \<Longrightarrow> length net = 16 \<Longrightarrow> \<not> cidr_contains (net, k) ip"
  by (auto simp: cidr_contains_def dest: to4_length)

lemma private_v4:
  assumes "to4 ip = Some v"
  shows "list_ex (\<lambda>net. cidr_contains net ip) private_cidrs \<longleftrightarrow> internal_v4 (unat (v ! 0)) (unat (v ! 1))"
proof -
  obtain a b c d where v: "v = [a, b, c, d]" using to4_length [OF assms] by (auto simp: length_4)
  have e: "10 = a \<longleftrightarrow> unat a = 10" "127 = a \<longleftrightarrow> unat a = 127" "172 = a \<longleftrightarrow> unat a = 172" "192 = a \<longleftrightarrow> unat a = 192"
    "169 = a \<longleftrightarrow> unat a = 169" "100 = a \<longleftrightarrow> unat a = 100" "168 = b \<longleftrightarrow> unat b = 168" "254 = b \<longleftrightarrow> unat b = 254"
    by (auto simp: word_unat_eq_iff)
  have f: "(4080 :: 8 word) = 0xf0" "(960 :: 8 word) = 0xc0" by simp_all
  show ?thesis unfolding private_cidrs_def v internal_v4_def
    using assms mask_bytes [of b] by (simp add: v cidr_v4 cidr_v4_long mask_byte_def ipv6_loopback_def e f) blast
qed

lemma to4_16: "length ip = 4 \<Longrightarrow> to4 ip = Some ip"
  by (simp add: to4_def)

lemma private_v6:
  assumes "to4 ip = None" and "length ip = 16"
  shows "list_ex (\<lambda>net. cidr_contains net ip) private_cidrs \<longleftrightarrow> ip = ipv6_loopback \<or> ip ! 0 \<in> {0xfc, 0xfd}"
proof -
  have short: "\<not> cidr_contains (net, k) ip" if "length net = 4" for net k
    using assms that by (simp add: cidr_contains_def)
  have "cidr_contains (ipv6_loopback, 128) ip \<longleftrightarrow> (\<forall>i<16. ipv6_loopback ! i = ip ! i)"
    using assms by (simp add: cidr_contains_def ipv6_loopback_def list_all_iff mask_byte_def Ball_def)
  also have "\<dots> \<longleftrightarrow> ip = ipv6_loopback"
    using assms(2) by (auto simp: list_eq_iff_nth_eq ipv6_loopback_def)
  finally have loop: "cidr_contains (ipv6_loopback, 128) ip \<longleftrightarrow> ip = ipv6_loopback" .
  have "cidr_contains (0xfc # replicate 15 0, 7) ip \<longleftrightarrow>
      (\<forall>i<16. (0xfc # replicate 15 0) ! i AND mask_byte 7 i = ip ! i AND mask_byte 7 i)"
    using assms by (simp add: cidr_contains_def list_all_iff Ball_def)
  also have "\<dots> \<longleftrightarrow> 0xfc = ip ! 0 AND 0xfe"
  proof -
    have "mask_byte 7 0 = 0xfe" by code_simp
    moreover have "0 < i \<Longrightarrow> mask_byte 7 i = 0" for i by (simp add: mask_byte_def)
    ultimately show ?thesis by (metis (no_types, lifting) and_zero_eq neq0_conv nth_Cons_0 zero_less_numeral mask_bytes(3))
  qed
  also have "\<dots> \<longleftrightarrow> ip ! 0 \<in> {0xfc, 0xfd}" using mask_bytes(3) [of "ip ! 0"] by auto
  finally show ?thesis using loop by (simp add: private_cidrs_def short)
qed

lemma private_iff:
  "length ip = 16 \<Longrightarrow> list_ex (\<lambda>net. cidr_contains net ip) private_cidrs \<longleftrightarrow> internal_ip ip"
  by (cases "to4 ip") (simp_all add: internal_ip_def private_v4 private_v6)

section \<open>What the guards accept\<close>

lemma internal_v4_in_v6: "length v = 4 \<Longrightarrow> to4 (v4_in_v6 v) = Some v"
  by (simp add: to4_def v4_in_v6_def list_all_iff nth_append)

lemma validate_url_iff:
  "validate_url allowed (Some u) = Inr () \<longleftrightarrow>
     to_lower (pu_scheme u) \<in> {''http'', ''https''} \<and> pu_host u \<noteq> [] \<and> canonical_host (pu_hostname u) \<noteq> []
     \<and> (canonical_host (pu_hostname u) \<in> allowed
        \<or> \<not> cluster_name (canonical_host (pu_hostname u)) \<and> \<not> loopback_name (canonical_host (pu_hostname u))
          \<and> \<not> (\<exists>ip. parse_ip (canonical_host (pu_hostname u)) = Some ip \<and> internal_ip ip))"
  by (auto simp: validate_url_def Let_def private_iff parse_ip_length split: option.splits)

text \<open>
  C25: the check of a tool's URL accepts exactly the http and https URLs with a host that is on the allowlist, or that is
  neither a cluster name nor a loopback name nor the text of an address of the blocked networks, which are in numbers:
  10.x, 127.x, 172.16 to 172.31, 192.168, 169.254, 100.64 to 100.127, the loopback \<^verbatim>\<open>::1\<close> and everything whose
  first byte is fc or fd. IPv4 addresses written in their mapped IPv6 form are judged as IPv4.
\<close>

theorem validate_url_exact:
  "validate_url allowed url = Inr () \<longleftrightarrow>
     (\<exists>u. url = Some u \<and> to_lower (pu_scheme u) \<in> {''http'', ''https''} \<and> pu_host u \<noteq> []
        \<and> (let h = canonical_host (pu_hostname u) in
             h \<noteq> [] \<and> (h \<in> allowed
               \<or> \<not> cluster_name h \<and> \<not> loopback_name h \<and> \<not> (\<exists>ip. parse_ip h = Some ip \<and> internal_ip ip))))"
  by (cases url) (simp_all add: validate_url_iff Let_def, simp add: validate_url_def)

subsection \<open>Dotted addresses\<close>

definition dotted :: "ip_bytes \<Rightarrow> string" where
  "dotted v = join_with ''.'' (map (\<lambda>w. nat_digits (unat w)) v)"

lemma nat_digits_ends: "is_digit (hd (nat_digits n)) \<and> is_digit (last (nat_digits n)) \<and> nat_digits n \<noteq> []"
  using nat_digits_correct [of n] by (auto simp: all_digits_def list_all_iff)

lemma dotted_chars: "c \<in> set (dotted v) \<Longrightarrow> is_digit c \<or> c = CHR ''.''"
  unfolding dotted_def
proof (induction v)
  case (Cons w v)
  then show ?case using nat_digits_correct [of "unat w"]
    by (auto simp: join_with_Cons all_digits_def list_all_iff split: if_splits)
qed simp

lemma dotted_last: "v \<noteq> [] \<Longrightarrow> dotted v \<noteq> [] \<and> is_digit (last (dotted v))"
  unfolding dotted_def
proof (induction v)
  case (Cons w v)
  then show ?case using nat_digits_ends [of "unat w"]
    by (cases "v = []") (auto simp: join_with_Cons)
qed simp

lemma digit_or_dot_plain:
  "is_digit c \<or> c = CHR ''.'' \<Longrightarrow> \<not> is_space c \<and> lower_char c = c \<and> c \<notin> {CHR '':'', CHR ''%'', CHR ''l''}"
  by (auto simp: is_digit_def is_space_def lower_char_def char_between_def)

lemma canonical_dotted:
  assumes "v \<noteq> []"
  shows "canonical_host (dotted v @ replicate n CHR ''.'') = dotted v"
proof -
  let ?s = "dotted v @ replicate n CHR ''.''"
  have plain: "\<not> is_space c \<and> lower_char c = c" if "c \<in> set ?s" for c
    using that dotted_chars digit_or_dot_plain by (auto split: if_splits)
  have "trim_space ?s = ?s" by (rule trim_space_id) (use plain in auto)
  moreover have "to_lower ?s = ?s" unfolding to_lower_def by (rule map_idI) (use plain in auto)
  moreover obtain w d where d: "dotted v = w @ [d]" "is_digit d"
    using dotted_last [OF assms] by (metis append_butlast_last_id)
  moreover have "d \<noteq> CHR ''.''" using d(2) by (auto simp: is_digit_def char_between_def)
  moreover have "dropWhile (\<lambda>c. c = CHR ''.'') (replicate n CHR ''.'' @ xs) = dropWhile (\<lambda>c. c = CHR ''.'') xs" for xs
    by (induction n) simp_all
  ultimately show ?thesis by (simp add: canonical_host_def)
qed

lemma parse_ip_dotted:
  assumes "length v = 4"
  shows "parse_ip (dotted v) = Some (v4_in_v6 v)"
proof -
  have "CHR ''.'' \<in> set (dotted v)" using assms by (auto simp: dotted_def length_4)
  then have "\<exists>c. find (\<lambda>c. c \<in> {CHR ''.'', CHR '':'', CHR ''%''}) (dotted v) = Some c"
    by (cases "find (\<lambda>c. c \<in> {CHR ''.'', CHR '':'', CHR ''%''}) (dotted v)") (auto simp: find_None_iff)
  moreover have "c = CHR ''.''" if "find (\<lambda>c. c \<in> {CHR ''.'', CHR '':'', CHR ''%''}) (dotted v) = Some c" for c
    using that dotted_chars [of _ v] digit_or_dot_plain by (auto simp: find_Some_iff dest!: nth_mem)
  moreover have "parse_ipv4 (dotted v) = Some v" using assms by (simp add: parse_ipv4_iff dotted_def)
  ultimately show ?thesis by (auto simp: parse_ip_def)
qed

lemma dotted_no_name:
  assumes "v \<noteq> []"
  shows "\<not> cluster_name (dotted v)" and "\<not> loopback_name (dotted v)"
proof -
  have last: "last (dotted v) \<noteq> CHR ''l''" "last (dotted v) \<noteq> CHR ''t''" "last (dotted v) \<noteq> CHR ''k''"
    using dotted_last [OF assms] by (auto simp: is_digit_def char_between_def)
  have suf: "has_suffix s p \<Longrightarrow> p \<noteq> [] \<Longrightarrow> last s = last p" for s p
    by (auto simp: has_suffix_def) (metis last_drop length_greater_0_conv diff_less le_less_trans not_less zero_less_diff length_drop)
  show "\<not> cluster_name (dotted v)" using last suf [of "dotted v"] by (auto simp: cluster_name_def)
  show "\<not> loopback_name (dotted v)" using last by (auto simp: loopback_name_def)
qed

definition http_url :: "string \<Rightarrow> parsed_url" where
  "http_url h = \<lparr>pu_scheme = ''http'', pu_host = h, pu_hostname = h\<rparr>"

text \<open>
  A URL whose host is an IPv4 address in dotted form, also with dots behind it, is refused with the
  private-network error exactly when the address is one of those of the blocked networks; the four numbers of the text
  are the four bytes that are compared, so no spelling of a blocked address (an octal or a shortened one) reaches the
  comparison as another address.
\<close>

theorem dotted_url_refused:
  "validate_url {} (Some (http_url (dotted [a, b, c, d] @ replicate n CHR ''.''))) =
     (if internal_v4 (unat a) (unat b) then Inl PrivateAddress else Inr ())
   \<and> (parse_ipv4 s = Some [a, b, c, d]) = (s = dotted [a, b, c, d])"
proof
  let ?v = "[a, b, c, d]"
  have "list_ex (\<lambda>net. cidr_contains net (v4_in_v6 ?v)) private_cidrs = internal_v4 (unat a) (unat b)"
    by (simp add: private_v4 internal_v4_in_v6)
  then show "validate_url {} (Some (http_url (dotted ?v @ replicate n CHR ''.''))) =
     (if internal_v4 (unat a) (unat b) then Inl PrivateAddress else Inr ())"
    using dotted_last [of ?v]
    by (simp add: validate_url_def http_url_def to_lower_def lower_char_def char_between_def canonical_dotted
        parse_ip_dotted dotted_no_name Let_def)
  show "(parse_ipv4 s = Some ?v) = (s = dotted ?v)" by (simp add: parse_ipv4_iff dotted_def)
qed

section \<open>The hook guard\<close>

definition zero_network :: "ip_bytes \<Rightarrow> bool" where
  "zero_network ip = (case to4 ip of Some v \<Rightarrow> v ! 0 = 0 | None \<Rightarrow> ip = replicate 16 0)"

lemma blocked_v4_iff:
  "is_blocked_v4 v \<longleftrightarrow> v ! 0 \<noteq> 127 \<and> (v ! 0 = 0 \<or> internal_v4 (unat (v ! 0)) (unat (v ! 1)))"
  by (auto simp: is_blocked_v4_def internal_v4_def Let_def word_unat_eq_iff word_le_nat_alt)

lemma mapped_None: "to4 ip = None \<Longrightarrow> length ip = 16 \<Longrightarrow> extract_mapped_ipv4 ip = None"
  by (auto simp: to4_def extract_mapped_ipv4_def list_ex_iff list_all_iff split: if_splits)

lemma blocked_v6_iff:
  assumes "to4 ip = None" and "length ip = 16"
  shows "is_blocked_v6 ip s \<longleftrightarrow> ip \<noteq> ipv6_loopback
     \<and> (ip = replicate 16 0 \<or> has_prefix (to_lower s) ''fc'' \<or> has_prefix (to_lower s) ''fd''
        \<or> ip ! 0 \<in> {0xfc, 0xfd} \<or> is_link_local_unicast ip)"
  using assms by (auto simp: is_blocked_v6_def mapped_None is_link_local_unicast_def Let_def)

subsection \<open>An address and its canonical form\<close>

lemma char_code: "c = d \<longleftrightarrow> (of_char c :: nat) = of_char d"
  by (metis char_of_char)

lemma lower_code:
  "(of_char (lower_char c) :: nat) = (if 65 \<le> (of_char c :: nat) \<and> (of_char c :: nat) \<le> 90 then of_char c + 32 else of_char c)"
  by (simp add: lower_char_def char_between_def)

lemma lower_chars:
  shows lower_twice [simp]: "lower_char (lower_char c) = lower_char c"
    and hex_lower [simp]: "is_hex (lower_char c) = is_hex c"
    and lower_marks [simp]: "lower_char c = CHR ''.'' \<longleftrightarrow> c = CHR ''.''" "lower_char c = CHR '':'' \<longleftrightarrow> c = CHR '':''"
      "lower_char c = CHR ''%'' \<longleftrightarrow> c = CHR ''%''"
    and digit_lower [simp]: "is_digit (lower_char c) = is_digit c"
    and lower_digit: "is_digit c \<or> c = CHR ''.'' \<Longrightarrow> lower_char c = c"
    and digit_is_hex: "is_digit c \<Longrightarrow> is_hex c"
    and hex_not: "is_hex c \<Longrightarrow> \<not> is_space c \<and> c \<notin> {CHR ''.'', CHR '':'', CHR ''%'', CHR ''l'', CHR ''t'', CHR ''k''}"
  by (auto simp: char_code [of "lower_char c"] char_code [of "lower_char (lower_char c)"] char_code [of c] lower_code is_hex_def
      is_digit_def is_space_def char_between_def)

lemma hex_val_lower [simp]: "hex_val (lower_char c) = hex_val c"
  by (simp add: hex_val_def digit_val_def lower_digit)

lemma group_lower: "group_bytes (to_lower h) = group_bytes h"
proof -
  have "foldl (\<lambda>acc c. 16 * acc + hex_val c) n (map lower_char h) = foldl (\<lambda>acc c. 16 * acc + hex_val c) n h" for n
    by (induction h arbitrary: n) simp_all
  then show ?thesis by (simp add: group_bytes_def to_lower_def)
qed

lemma dotted_lower: "to_lower s = dotted v \<longleftrightarrow> s = dotted v"
proof
  assume a: "to_lower s = dotted v"
  have "lower_char c = c" if "c \<in> set s" for c
  proof -
    have "lower_char c \<in> set (dotted v)" using that by (metis a imageI list.set_map to_lower_def)
    then have "is_digit (lower_char c) \<or> lower_char c = CHR ''.''" by (rule dotted_chars)
    then show ?thesis by (auto simp: lower_digit)
  qed
  then have "to_lower s = s" unfolding to_lower_def by (rule map_idI)
  with a show "s = dotted v" by simp
next
  assume "s = dotted v"
  then show "to_lower s = dotted v" unfolding to_lower_def using dotted_chars lower_digit by (metis map_idI)
qed

lemma parse_ipv4_lower: "parse_ipv4 (to_lower s) = parse_ipv4 s"
proof -
  have "parse_ipv4 (to_lower s) = Some v \<longleftrightarrow> parse_ipv4 s = Some v" for v
    by (simp add: parse_ipv4_iff dotted_lower [unfolded dotted_def])
  then show ?thesis by (metis not_Some_eq)
qed

lemma spans_lower:
  "takeWhile is_hex (to_lower s) = to_lower (takeWhile is_hex s)" "dropWhile is_hex (to_lower s) = to_lower (dropWhile is_hex s)"
  by (simp_all add: to_lower_def takeWhile_map dropWhile_map o_def)

lemma lower_Nil [simp]: "to_lower s = [] \<longleftrightarrow> s = []"
  by (simp add: to_lower_def)

lemma parse_groups_lower: "parse_groups acc e (to_lower s) = parse_groups acc e s"
proof (induction acc e s rule: parse_groups.induct)
  case (1 acc e s)
  define h d where "h = takeWhile is_hex s" and "d = dropWhile is_hex s"
  note IH = "1.IH" [OF _ refl refl, folded h_def d_def]
  note u = parse_groups.simps [of acc e s, unfolded Let_def, folded h_def d_def]
  have u': "parse_groups acc e (to_lower s) =
     (if 16 \<le> length acc then (if s = [] then Some (acc, e) else None)
      else if h = [] \<or> 4 < length h then None
      else case to_lower d of
             [] \<Rightarrow> Some (acc @ group_bytes h, e)
           | c # rest \<Rightarrow>
               if c = CHR ''.''
               then (if e = None \<and> length acc \<noteq> 12 \<or> 16 < length acc + 4 then None
                     else map_option (\<lambda>v. (acc @ v, e)) (parse_ipv4 s))
               else if c \<noteq> CHR '':'' \<or> rest = [] then None
               else if hd rest = CHR '':''
               then (if e \<noteq> None then None
                     else if tl rest = [] then Some (acc @ group_bytes h, Some (length (acc @ group_bytes h)))
                     else parse_groups (acc @ group_bytes h) (Some (length (acc @ group_bytes h))) (tl rest))
               else parse_groups (acc @ group_bytes h) e rest)"
    unfolding parse_groups.simps [of acc e "to_lower s"] Let_def spans_lower group_lower parse_ipv4_lower lower_Nil length_to_lower
      h_def [symmetric] d_def [symmetric] ..
  show ?case
  proof (cases d)
    case Nil
    then show ?thesis by (simp only: u u' Nil) (simp add: to_lower_def)
  next
    case (Cons c rest)
    have low: "to_lower d = lower_char c # to_lower rest" by (simp add: Cons to_lower_def)
    have rest: "rest \<noteq> [] \<Longrightarrow> hd (to_lower rest) = CHR '':'' \<longleftrightarrow> hd rest = CHR '':''" "tl (to_lower rest) = to_lower (tl rest)"
      by (cases rest; simp add: to_lower_def)+
    show ?thesis unfolding u u' low unfolding Cons list.case
      using IH(1) [OF _ _ Cons] IH(2) [OF _ _ Cons] by (simp add: rest)
  qed
qed

lemma parse_ip_lower: "parse_ip (to_lower s) = parse_ip s"
proof -
  have pre: "has_prefix (to_lower s) ''::'' = has_prefix s ''::''"
    by (cases s; cases "tl s") (auto simp: to_lower_def has_prefix_def)
  have "CHR ''%'' \<in> set (to_lower s) \<longleftrightarrow> CHR ''%'' \<in> set s"
    unfolding to_lower_def by (auto simp: image_iff) (metis lower_marks(3))+
  moreover have "drop 2 (to_lower s) = to_lower (drop 2 s)" by (simp add: to_lower_def drop_map)
  ultimately have v6: "parse_ipv6 (to_lower s) = parse_ipv6 s" by (simp add: parse_ipv6_def pre parse_groups_lower)
  have "find (\<lambda>c. c \<in> {CHR ''.'', CHR '':'', CHR ''%''}) (to_lower s) = find (\<lambda>c. c \<in> {CHR ''.'', CHR '':'', CHR ''%''}) s"
    unfolding to_lower_def by (induction s) auto
  then show ?thesis by (simp add: parse_ip_def v6 parse_ipv4_lower split: option.split)
qed

text \<open>The text of an address has only digits, letters to f, dots and colons, and ends with no dot.\<close>

definition address_text :: "string \<Rightarrow> bool" where
  "address_text s \<longleftrightarrow> list_all (\<lambda>c. is_hex c \<or> c = CHR ''.'' \<or> c = CHR '':'') s \<and> (s = [] \<or> last s \<noteq> CHR ''.'')"

lemma address_text_append: "s \<noteq> [] \<Longrightarrow> address_text (h @ s) \<longleftrightarrow> list_all (\<lambda>c. is_hex c \<or> c = CHR ''.'' \<or> c = CHR '':'') h \<and> address_text s"
  by (auto simp: address_text_def)

lemma parse_ipv4_text: "parse_ipv4 s = Some v \<Longrightarrow> address_text s"
proof -
  assume "parse_ipv4 s = Some v"
  then have s: "s = dotted v" "v \<noteq> []" by (auto simp: parse_ipv4_iff dotted_def)
  have "last s \<noteq> CHR ''.''" using dotted_last [OF s(2)] s(1) by (auto simp: is_digit_def char_between_def)
  then show "address_text s" using dotted_chars digit_is_hex unfolding address_text_def s(1) list_all_iff by blast
qed

lemma parse_groups_text: "parse_groups acc e s = Some r \<Longrightarrow> address_text s"
proof (induction acc e s rule: parse_groups.induct)
  case (1 acc e s)
  define h d where "h = takeWhile is_hex s" and "d = dropWhile is_hex s"
  note IH = "1.IH" [OF _ refl refl, folded h_def d_def]
  note u = 1(3) [unfolded parse_groups.simps [of acc e s] Let_def, folded h_def d_def]
  have s: "s = h @ d" and h: "list_all is_hex h" by (auto simp: h_def d_def list_all_iff dest: set_takeWhileD)
  have hex: "list_all (\<lambda>c. is_hex c \<or> c = CHR ''.'' \<or> c = CHR '':'') h" using h by (simp add: list_all_iff)
  show ?case
  proof (cases d)
    case Nil
    have "last h \<noteq> CHR ''.''" if "h \<noteq> []" using h hex_not last_in_set [OF that] unfolding list_all_iff by blast
    with hex Nil s show ?thesis by (auto simp: address_text_def)
  next
    case (Cons c rest)
    note u' = u [unfolded Cons list.case]
    consider "s = []" | "c = CHR ''.''" "parse_ipv4 s \<noteq> None" | "c = CHR '':''" "rest \<noteq> []" "hd rest = CHR '':''" "tl rest = []"
      | "c = CHR '':''" "rest \<noteq> []" "hd rest = CHR '':''" "tl rest \<noteq> []" "address_text (tl rest)"
      | "c = CHR '':''" "rest \<noteq> []" "hd rest \<noteq> CHR '':''" "address_text rest"
      using u' IH(1) [OF _ _ Cons] IH(2) [OF _ _ Cons] by (auto split: if_splits)
    then show ?thesis
    proof cases
      case 2
      then show ?thesis using parse_ipv4_text by blast
    qed (use hex s Cons in \<open>auto simp: address_text_def neq_Nil_conv split: if_splits\<close>)
  qed
qed

lemma parse_ip_text: "parse_ip s = Some ip \<Longrightarrow> address_text s \<and> s \<noteq> []"
proof -
  assume a: "parse_ip s = Some ip"
  have "address_text s" if v6: "parse_ipv6 s = Some ip"
  proof (cases "has_prefix s ''::''")
    case True
    then obtain t where t: "s = ''::'' @ t" by (auto simp: has_prefix_iff)
    have "t = [] \<or> address_text t" using v6 True by (auto simp: parse_ipv6_def t bind_eq_Some_conv split: if_splits dest: parse_groups_text)
    then show ?thesis by (auto simp: t address_text_def)
  next
    case False
    then show ?thesis using v6 by (auto simp: parse_ipv6_def bind_eq_Some_conv split: if_splits dest: parse_groups_text)
  qed
  with a show ?thesis
    by (auto simp: parse_ip_def dest: parse_ipv4_text split: option.splits if_splits)
qed

lemma address_canonical:
  assumes "parse_ip s = Some ip"
  shows "canonical_host s = to_lower s" and "parse_ip (canonical_host s) = Some ip" and "canonical_host s \<noteq> []"
    and "\<not> cluster_name (canonical_host s)" and "\<not> loopback_name (canonical_host s)"
proof -
  have t: "address_text s" "s \<noteq> []" using parse_ip_text [OF assms] by simp_all
  have chars: "is_hex c \<or> c = CHR ''.'' \<or> c = CHR '':''" if "c \<in> set s" for c
    using t(1) that by (auto simp: address_text_def list_all_iff)
  have "trim_space s = s" by (rule trim_space_id) (use chars hex_not in \<open>auto simp: is_space_def\<close>)
  moreover obtain w d where d: "to_lower s = w @ [d]" using t(2) by (metis append_butlast_last_id lower_Nil)
  have last: "d = lower_char (last s)" using d t(2) by (metis last_map last_snoc to_lower_def)
  with t have "d \<noteq> CHR ''.''" by (simp add: address_text_def)
  ultimately show c: "canonical_host s = to_lower s" using d by (simp add: canonical_host_def)
  show "parse_ip (canonical_host s) = Some ip" "canonical_host s \<noteq> []" using assms t(2) by (simp_all add: c parse_ip_lower)
  have "is_hex d \<or> d = CHR '':''" using chars [OF last_in_set [OF t(2)]] t last by (auto simp: address_text_def)
  then have no: "d \<noteq> CHR ''l''" "d \<noteq> CHR ''t''" "d \<noteq> CHR ''k''" using hex_not [of d] by auto
  have suf: "has_suffix u p \<Longrightarrow> p \<noteq> [] \<Longrightarrow> last u = last p" for u p by (auto simp: has_suffix_iff)
  have fin: "last (canonical_host s) = d" by (simp add: c d)
  show "\<not> cluster_name (canonical_host s)" using no suf [of "canonical_host s"] by (auto simp: cluster_name_def fin)
  show "\<not> loopback_name (canonical_host s)" using no fin by (auto simp: loopback_name_def)
qed

lemma validate_url_address:
  assumes "parse_ip s = Some ip" and "canonical_host s \<notin> allowed"
    and "to_lower (pu_scheme u) \<in> {''http'', ''https''}" and "pu_host u \<noteq> []" and "pu_hostname u = s"
  shows "validate_url allowed (Some u) = (if internal_ip ip then Inl PrivateAddress else Inr ())"
  using assms(2-) address_canonical [OF assms(1)] private_iff [OF parse_ip_length [OF assms(1)]]
  by (auto simp: validate_url_def Let_def)

lemma blocked_address_iff:
  "is_blocked_address s \<longleftrightarrow>
     (\<exists>ip. parse_ip s = Some ip \<and> \<not> is_loopback ip
        \<and> (internal_ip ip \<or> zero_network ip \<or> is_link_local_unicast ip
           \<or> to4 ip = None \<and> (has_prefix (to_lower s) ''fc'' \<or> has_prefix (to_lower s) ''fd'')))"
proof (cases "parse_ip s")
  case None
  then show ?thesis by (simp add: is_blocked_address_def)
next
  case (Some ip)
  show ?thesis
  proof (cases "to4 ip")
    case None
    with Some show ?thesis
      by (auto simp: is_blocked_address_def blocked_v6_iff parse_ip_length internal_ip_def zero_network_def is_loopback_def)
  next
    case v: (Some v)
    with Some show ?thesis
      by (auto simp: is_blocked_address_def blocked_v4_iff internal_ip_def zero_network_def is_loopback_def
          is_link_local_unicast_def internal_v4_def)
  qed
qed

lemma loopback_internal: "parse_ip s = Some ip \<Longrightarrow> is_loopback ip \<Longrightarrow> internal_ip ip"
  by (auto simp: is_loopback_def internal_ip_def internal_v4_def split: option.splits)

text \<open>The addresses that only the guard of hooks blocks.\<close>

definition only_hooks_block :: "string \<Rightarrow> ip_bytes \<Rightarrow> bool" where
  "only_hooks_block s ip \<longleftrightarrow>
     \<not> internal_ip ip
     \<and> (zero_network ip \<or> is_link_local_unicast ip
        \<or> to4 ip = None \<and> (has_prefix (to_lower s) ''fc'' \<or> has_prefix (to_lower s) ''fd''))"

text \<open>
  C26: for the text of an address, and an http or https URL with this text as the name of its host that is not on the
  allowlist: the check of URLs refuses the URL exactly if the address is in the blocked networks, and always as a private address.
  The guard of hooks gives the same verdict on the text except in two cases: a loopback address, which it lets through and
  the check refuses; and an address outside the blocked networks that is in 0.0.0.0/8, unspecified, link-local, or an
  IPv6 address whose text begins with fc or fd, which it blocks and the check accepts. A text that is no address is never
  blocked by the guard of hooks.
\<close>

theorem hook_guard_exact:
  assumes "to_lower (pu_scheme u) \<in> {''http'', ''https''}" and "pu_host u \<noteq> []" and "canonical_host (pu_hostname u) \<notin> allowed"
  shows "case parse_ip (pu_hostname u) of
      None \<Rightarrow> \<not> is_blocked_address (pu_hostname u)
    | Some ip \<Rightarrow>
        validate_url allowed (Some u) = (if internal_ip ip then Inl PrivateAddress else Inr ())
        \<and> (is_blocked_address (pu_hostname u) \<longleftrightarrow>
             (if is_loopback ip then False
              else if only_hooks_block (pu_hostname u) ip then True
              else validate_url allowed (Some u) \<noteq> Inr ()))
        \<and> (is_loopback ip \<longrightarrow> validate_url allowed (Some u) \<noteq> Inr ())
        \<and> (only_hooks_block (pu_hostname u) ip \<longrightarrow> validate_url allowed (Some u) = Inr ())"
proof (cases "parse_ip (pu_hostname u)")
  case None
  then show ?thesis by (simp add: is_blocked_address_def)
next
  case (Some ip)
  note v = validate_url_address [OF Some assms(3,1,2) refl]
  show ?thesis
    using loopback_internal [OF Some] by (auto simp: Some v blocked_address_iff only_hooks_block_def)
qed

text \<open>The metadata address in its mapped form with capital letters, and the loopback address.\<close>

theorem hook_guard_exact_witness:
  "is_blocked_address ''::FFFF:169.254.169.254''
   \<and> validate_url {} (Some \<lparr>pu_scheme = ''https'', pu_host = ''[::FFFF:169.254.169.254]'', pu_hostname = ''::FFFF:169.254.169.254''\<rparr>)
       = Inl PrivateAddress"
proof -
  let ?s = "''::FFFF:169.254.169.254''"
  let ?u = "\<lparr>pu_scheme = ''https'', pu_host = ''[::FFFF:169.254.169.254]'', pu_hostname = ?s\<rparr>"
  have ip: "parse_ip ?s = Some (v4_in_v6 [169, 254, 169, 254])"
    by (simp add: parse_ip_def parse_ipv4_def parse_ipv6_def octet_def canonical_digits_def all_digits_def digits_val_def
        digit_val_def is_digit_def char_between_def has_prefix_def parse_groups.simps is_hex_def hex_val_def lower_char_def
        group_bytes_def expand_ellipsis_def v4_in_v6_def)
  have "internal_ip (v4_in_v6 [169, 254, 169, 254])" "\<not> is_loopback (v4_in_v6 [169, 254, 169, 254])"
    by (simp_all add: internal_ip_def is_loopback_def internal_v4_in_v6 internal_v4_def)
  moreover have "to_lower ''https'' = ''https''" by code_simp
  ultimately show ?thesis
    using hook_guard_exact [of ?u "{}"] ip by (simp add: only_hooks_block_def)
qed

lemma parsed_examples:
  "parse_ip ''0.0.0.0'' = Some (v4_in_v6 [0, 0, 0, 0])"
  "parse_ip ''::'' = Some (replicate 16 0)"
  "parse_ip ''fe80::1'' = Some ([0xfe, 0x80] @ replicate 12 0 @ [0, 1])"
  "parse_ip ''fc::1'' = Some ([0, 0xfc] @ replicate 12 0 @ [0, 1])"
  by (simp_all add: parse_ip_def parse_ipv4_def parse_ipv6_def octet_def canonical_digits_def all_digits_def digits_val_def
      digit_val_def is_digit_def char_between_def has_prefix_def parse_groups.simps is_hex_def hex_val_def lower_char_def
      group_bytes_def expand_ellipsis_def)

lemma canonical_examples:
  "canonical_host ''0.0.0.0'' = ''0.0.0.0''" "canonical_host ''::'' = ''::''" "canonical_host ''fe80::1'' = ''fe80::1''"
  by code_simp+

lemma not_loopback:
  "last ip \<noteq> 1 \<Longrightarrow> ip \<noteq> ipv6_loopback" "ip ! 0 \<noteq> 0 \<Longrightarrow> ip \<noteq> ipv6_loopback" "ip ! 1 \<noteq> 0 \<Longrightarrow> ip \<noteq> ipv6_loopback"
  by (auto simp: ipv6_loopback_def nth_append)

lemma address_examples:
  "\<not> internal_ip (v4_in_v6 [0, 0, 0, 0])" "\<not> internal_ip (replicate 16 0)"
  "\<not> internal_ip ([0xfe, 0x80] @ replicate 12 0 @ [0, 1])" "\<not> is_loopback ([0xfe, 0x80] @ replicate 12 0 @ [0, 1])"
  "\<not> is_loopback ([0, 0xfc] @ replicate 12 0 @ [0, 1])" "is_link_local_unicast ([0xfe, 0x80] @ replicate 12 0 @ [0, 1])"
  "to4 ([0, 0xfc] @ replicate 12 0 @ [0, 1]) = None"
  by (simp add: internal_ip_def internal_v4_in_v6 internal_v4_def,
      simp_all add: internal_ip_def is_loopback_def is_link_local_unicast_def to4_def not_loopback nth_append)

lemma reserved_url_accepted:
  "validate_url {} (Some (http_url ''0.0.0.0'')) = Inr ()"
  "validate_url {} (Some \<lparr>pu_scheme = ''http'', pu_host = ''[::]'', pu_hostname = ''::''\<rparr>) = Inr ()"
  "validate_url {} (Some \<lparr>pu_scheme = ''http'', pu_host = ''[fe80::1]'', pu_hostname = ''fe80::1''\<rparr>) = Inr ()"
  using address_examples
  by (simp_all add: validate_url_iff http_url_def canonical_examples parsed_examples to_lower_def lower_char_def
      char_between_def cluster_name_def loopback_name_def has_suffix_def)

lemma link_local_host_refused: "validate_host {} ''fe80::1'' = Inl LinkLocalAddress"
proof -
  have "trim_space ''fe80::1'' = ''fe80::1''" by code_simp
  then show ?thesis using address_examples
    by (simp add: validate_host_def canonical_examples parsed_examples cluster_name_def loopback_name_def has_suffix_def)
qed

text \<open>The text test blocks an address whose first group is written without its zeros: its first byte is 0.\<close>

lemma short_group_blocked: "is_blocked_address ''fc::1'' \<and> map_option hd (parse_ip ''fc::1'') = Some 0"
  using address_examples
  by (simp add: blocked_address_iff parsed_examples to_lower_def lower_char_def char_between_def has_prefix_def)

text \<open>The string test looks at the first two numbers only: the rest need not be numbers.\<close>

lemma private_string_lax:
  "is_private_ipv4_string ''10.0.a.b'' \<and> parse_ip ''10.0.a.b'' = None \<and> is_private_ipv4_string ''10.0.0.300''"
  by (simp add: is_private_ipv4_string_def parse_ip_def parse_ipv4_def octet_def canonical_digits_def all_digits_def
      atoi_def int64_ok_def digits_val_def digit_val_def is_digit_def char_between_def has_prefix_def)

end
