(* ===== verification/ToolCache.thy ===== *)
theory ToolCache
  imports RunState "HOL-Library.AList"
begin

text \<open>
  The cache of tool results of a run, \<^verbatim>\<open>src/internal/domain/chat/agentic/toolcache.go\<close>: a map from keys to results (here an association list) and
  the list of its keys in the order of their last use. The digest that makes a key of a tool's name and input is an
  argument.
\<close>

record tool_cache =
  tk_capacity :: int
  tk_entries :: "(string \<times> tool_exec_result) list"
  tk_order :: "string list"
  tk_hits :: int
  tk_misses :: int

abbreviation cache_entry :: "tool_cache \<Rightarrow> string \<Rightarrow> tool_exec_result option" where
  "cache_entry c \<equiv> map_of (tk_entries c)"

definition new_tool_cache :: "int \<Rightarrow> tool_cache" where
  "new_tool_cache capacity =
     \<lparr>tk_capacity = (if capacity \<le> 0 then 64 else capacity), tk_entries = [], tk_order = [], tk_hits = 0, tk_misses = 0\<rparr>"

text \<open>What is hashed: the name, a zero byte, the input; of the digest 16 digits are kept.\<close>

definition cache_key :: "(string \<Rightarrow> string) \<Rightarrow> string \<Rightarrow> string \<Rightarrow> string" where
  "cache_key digest tool input = take 16 (digest (tool @ [CHR 0x00] @ input))"

fun move_to_end :: "string \<Rightarrow> string list \<Rightarrow> string list" where
  "move_to_end key [] = []"
| "move_to_end key (k # ks) = (if k = key then ks @ [key] else k # move_to_end key ks)"

definition cache_get :: "string \<Rightarrow> tool_cache \<Rightarrow> tool_exec_result option \<times> tool_cache" where
  "cache_get key c =
     (case cache_entry c key of
        None \<Rightarrow> (None, c\<lparr>tk_misses := tk_misses c + 1\<rparr>)
      | Some r \<Rightarrow> (Some r, c\<lparr>tk_order := move_to_end key (tk_order c), tk_hits := tk_hits c + 1\<rparr>))"

definition evict_oldest :: "tool_cache \<Rightarrow> tool_cache" where
  "evict_oldest c =
     (case tk_order c of
        [] \<Rightarrow> c
      | oldest # rest \<Rightarrow> c\<lparr>tk_order := rest, tk_entries := AList.delete oldest (tk_entries c)\<rparr>)"

definition cache_size :: "tool_cache \<Rightarrow> int" where
  "cache_size c = int (length (tk_entries c))"

definition cache_put :: "string \<Rightarrow> tool_exec_result \<Rightarrow> tool_cache \<Rightarrow> tool_cache" where
  "cache_put key r c =
     (if cache_entry c key \<noteq> None
      then c\<lparr>tk_entries := AList.update key r (tk_entries c), tk_order := move_to_end key (tk_order c)\<rparr>
      else let c1 = (if tk_capacity c \<le> cache_size c then evict_oldest c else c)
           in c1\<lparr>tk_entries := AList.update key r (tk_entries c1), tk_order := tk_order c1 @ [key]\<rparr>)"

definition cache_stats :: "tool_cache \<Rightarrow> int \<times> int" where
  "cache_stats c = (tk_hits c, tk_misses c)"

definition is_cacheable :: "string \<Rightarrow> bool" where
  "is_cacheable tool = (tool = ''document_search'' \<or> tool = ''memory_recall'')"

section \<open>The invariant\<close>

definition cache_inv :: "tool_cache \<Rightarrow> bool" where
  "cache_inv c \<longleftrightarrow>
     0 < tk_capacity c \<and> distinct (tk_order c) \<and> distinct (map fst (tk_entries c)) \<and> dom (cache_entry c) = set (tk_order c)
     \<and> int (length (tk_order c)) \<le> tk_capacity c"

lemmas alist_simps [simp] = update_conv' delete_conv' distinct_update distinct_delete

lemma alist_length: "distinct (map fst al) \<Longrightarrow> length al = card (dom (map_of al))"
  by (metis distinct_card dom_map_of_conv_image_fst length_map list.set_map)

lemma cache_inv_size: "cache_inv c \<Longrightarrow> cache_size c = int (length (tk_order c))"
  by (simp add: cache_inv_def cache_size_def distinct_card alist_length)

lemma move_to_end_split: "key \<notin> set xs \<Longrightarrow> move_to_end key (xs @ key # ys) = xs @ ys @ [key]"
  by (induction xs) auto

lemma move_to_end_facts:
  assumes "key \<in> set ks" and "distinct ks"
  shows "set (move_to_end key ks) = set ks" and "distinct (move_to_end key ks)"
    and "length (move_to_end key ks) = length ks"
proof -
  obtain xs ys where ks: "ks = xs @ key # ys" "key \<notin> set xs" using split_list_first [OF assms(1)] by blast
  with assms(2) show "set (move_to_end key ks) = set ks" "distinct (move_to_end key ks)"
    "length (move_to_end key ks) = length ks" by (auto simp: move_to_end_split)
qed

lemma cache_inv_new: "cache_inv (new_tool_cache n)"
  by (simp add: cache_inv_def new_tool_cache_def)

lemma cache_inv_get:
  assumes "cache_inv c"
  shows "cache_inv (snd (cache_get key c))"
proof (cases "cache_entry c key")
  case None
  with assms show ?thesis by (simp add: cache_get_def cache_inv_def)
next
  case (Some r)
  then have "key \<in> set (tk_order c)" using assms by (auto simp: cache_inv_def)
  with Some assms show ?thesis by (simp add: cache_get_def cache_inv_def move_to_end_facts)
qed

lemma cache_inv_put:
  assumes "cache_inv c"
  shows "cache_inv (cache_put key r c)"
proof (cases "cache_entry c key")
  case None
  then have new: "key \<notin> set (tk_order c)" using assms by (auto simp: cache_inv_def)
  show ?thesis
  proof (cases "tk_capacity c \<le> cache_size c")
    case True
    with assms obtain k ks where o: "tk_order c = k # ks"
      by (cases "tk_order c") (auto simp: cache_inv_size cache_inv_def)
    with True None new assms show ?thesis
      by (auto simp: cache_put_def cache_inv_def evict_oldest_def Let_def)
  next
    case False
    with None new assms show ?thesis
      by (auto simp: cache_put_def cache_inv_size Let_def) (auto simp: cache_inv_def)
  qed
next
  case (Some r')
  then have "key \<in> set (tk_order c)" using assms by (auto simp: cache_inv_def)
  with Some assms show ?thesis by (auto simp: cache_put_def cache_inv_def move_to_end_facts insert_absorb)
qed

section \<open>What the cache returns\<close>

datatype cache_op = CachePut string tool_exec_result | CacheGet string

definition cache_step :: "cache_op \<Rightarrow> tool_cache \<Rightarrow> tool_cache" where
  "cache_step p c = (case p of CachePut k r \<Rightarrow> cache_put k r c | CacheGet k \<Rightarrow> snd (cache_get k c))"

text \<open>The result last put for a key, and the other keys put or looked up since.\<close>

definition put_step :: "string \<Rightarrow> cache_op \<Rightarrow> (tool_exec_result \<times> string set) option \<Rightarrow> (tool_exec_result \<times> string set) option" where
  "put_step k p t =
     (case p of
        CachePut k' r \<Rightarrow> if k' = k then Some (r, {}) else map_option (\<lambda>(r, ks). (r, insert k' ks)) t
      | CacheGet k' \<Rightarrow> if k' = k then t else map_option (\<lambda>(r, ks). (r, insert k' ks)) t)"

definition last_put :: "string \<Rightarrow> cache_op list \<Rightarrow> (tool_exec_result \<times> string set) option" where
  "last_put k ops = fold (put_step k) ops None"

text \<open>The keys behind a key in the order.\<close>

definition newer :: "string \<Rightarrow> tool_cache \<Rightarrow> string set" where
  "newer k c = set (tl (dropWhile (\<lambda>x. x \<noteq> k) (tk_order c)))"

definition tracked_ok :: "string \<Rightarrow> tool_cache \<Rightarrow> (tool_exec_result \<times> string set) option \<Rightarrow> bool" where
  "tracked_ok k c t \<longleftrightarrow>
     (case t of
        None \<Rightarrow> cache_entry c k = None
      | Some (r, ks) \<Rightarrow> finite ks \<and> k \<notin> ks
          \<and> (case cache_entry c k of Some r' \<Rightarrow> r' = r \<and> newer k c \<subseteq> ks | None \<Rightarrow> tk_capacity c \<le> int (card ks)))"

lemma newer_split: "k \<notin> set xs \<Longrightarrow> tk_order c = xs @ k # ys \<Longrightarrow> newer k c = set ys"
proof -
  assume out: "k \<notin> set xs" and o: "tk_order c = xs @ k # ys"
  from out have "dropWhile (\<lambda>x. x \<noteq> k) (xs @ k # ys) = k # ys" by (induct xs) auto
  with o show ?thesis by (simp add: newer_def)
qed

lemma tracked_touch:
  assumes inv: "cache_inv c" and old: "cache_entry c key = Some r'" and ok: "tracked_ok k c (Some (r, ks))" and ne: "key \<noteq> k"
    and c': "tk_order c' = move_to_end key (tk_order c)" "cache_entry c' k = cache_entry c k" "tk_capacity c' = tk_capacity c"
  shows "tracked_ok k c' (Some (r, insert key ks))"
proof (cases "cache_entry c k")
  case None
  then show ?thesis using ok ne c' by (auto simp: tracked_ok_def card_insert_if)
next
  case (Some v)
  have "key \<in> set (tk_order c)" "k \<in> set (tk_order c)" using inv old Some by (auto simp: cache_inv_def)
  then obtain xs ys where o: "tk_order c = xs @ k # ys" "k \<notin> set xs" using split_list_first by metis
  have "newer k c' \<subseteq> insert key (newer k c)"
  proof (cases "key \<in> set xs")
    case True
    then obtain us vs where xs: "xs = us @ key # vs" "key \<notin> set us" using split_list_first by metis
    then have "tk_order c' = (us @ vs) @ k # (ys @ [key])" using c'(1) o by (simp add: move_to_end_split)
    then have "newer k c' = set (ys @ [key])" using o xs by (intro newer_split) auto
    moreover have "newer k c = set ys" by (rule newer_split [OF o(2,1)])
    ultimately show ?thesis by auto
  next
    case False
    then have "key \<in> set ys" using \<open>key \<in> set (tk_order c)\<close> o ne by auto
    then obtain us vs where ys: "ys = us @ key # vs" "key \<notin> set us" using split_list_first by metis
    have "move_to_end key ((xs @ k # us) @ key # vs) = (xs @ k # us) @ vs @ [key]"
      by (rule move_to_end_split) (use False ne ys in auto)
    then have "tk_order c' = xs @ k # (us @ vs @ [key])" using c'(1) o ys by simp
    then have "newer k c' = set (us @ vs @ [key])" by (rule newer_split [OF o(2)])
    moreover have "newer k c = set ys" by (rule newer_split [OF o(2,1)])
    ultimately show ?thesis using ys by auto
  qed
  then show ?thesis using Some ok ne c' by (auto simp: tracked_ok_def)
qed

lemma tracked_put_new:
  assumes inv: "cache_inv c" and new: "cache_entry c key = None" and ok: "tracked_ok k c (Some (r, ks))" and ne: "key \<noteq> k"
  shows "tracked_ok k (cache_put key v c) (Some (r, insert key ks))"
proof (cases "cache_entry c k")
  case None
  then show ?thesis using new ok ne
    by (auto simp: tracked_ok_def cache_put_def Let_def evict_oldest_def card_insert_if split: list.splits)
next
  case (Some w)
  then have "k \<in> set (tk_order c)" using inv by (auto simp: cache_inv_def)
  then obtain xs ys where o: "tk_order c = xs @ k # ys" "k \<notin> set xs" using split_list_first by metis
  have n: "newer k c = set ys" by (rule newer_split [OF o(2,1)])
  have key: "key \<notin> set ys" using new inv o by (auto simp: cache_inv_def)
  have ks: "finite ks" "k \<notin> ks" "set ys \<subseteq> ks" "w = r" using ok Some n by (auto simp: tracked_ok_def)
  let ?full = "tk_capacity c \<le> cache_size c"
  show ?thesis
  proof (cases "?full \<and> xs = []")
    case True
    then have e: "cache_entry (cache_put key v c) k = None" using new o ne by (simp add: cache_put_def evict_oldest_def Let_def)
    have "tk_capacity c \<le> int (Suc (length ys))" using True inv o by (auto simp: cache_inv_size)
    also have "Suc (length ys) = card (insert key (set ys))"
      using inv o key by (auto simp: cache_inv_def distinct_card card_insert_if)
    also have "\<dots> \<le> card (insert key ks)" using ks by (intro card_mono) auto
    finally show ?thesis using e ks ne new
      by (auto simp: tracked_ok_def cache_put_def evict_oldest_def Let_def split: list.splits)
  next
    case False
    then obtain xs' where o': "tk_order (cache_put key v c) = xs' @ k # ys @ [key]" "k \<notin> set xs'"
      and e: "cache_entry (cache_put key v c) k = Some w"
    proof (cases "?full")
      case True
      with False obtain x xs' where "xs = x # xs'" by (cases xs) auto
      with that [of xs'] True new o ne Some show thesis by (simp add: cache_put_def evict_oldest_def Let_def)
    next
      case False
      with that [of xs] new o ne Some show thesis by (simp add: cache_put_def Let_def)
    qed
    have "newer k (cache_put key v c) = set (ys @ [key])" by (rule newer_split [OF o'(2,1)])
    with e ks ne show ?thesis by (auto simp: tracked_ok_def)
  qed
qed

lemma tracked_put_same:
  assumes inv: "cache_inv c"
  shows "tracked_ok k (cache_put k r c) (Some (r, {}))"
proof -
  have "\<exists>xs. tk_order (cache_put k r c) = xs @ [k] \<and> k \<notin> set xs"
  proof (cases "cache_entry c k")
    case None
    then have "k \<notin> set (tk_order c)" using inv by (auto simp: cache_inv_def)
    with None show ?thesis
      by (auto simp: cache_put_def evict_oldest_def Let_def split: list.splits)
  next
    case (Some w)
    then have "k \<in> set (tk_order c)" using inv by (auto simp: cache_inv_def)
    then obtain xs ys where o: "tk_order c = xs @ k # ys" "k \<notin> set xs" using split_list_first by metis
    have "k \<notin> set ys" using inv o by (auto simp: cache_inv_def)
    with Some o show ?thesis by (auto simp: cache_put_def move_to_end_split intro!: exI [of _ "xs @ ys"])
  qed
  then obtain xs where "tk_order (cache_put k r c) = xs @ [k]" "k \<notin> set xs" by blast
  then have "newer k (cache_put k r c) = {}" using newer_split [of k xs _ "[]"] by simp
  moreover have "cache_entry (cache_put k r c) k = Some r" by (simp add: cache_put_def Let_def)
  ultimately show ?thesis by (simp add: tracked_ok_def)
qed

lemma cache_step_inv: "cache_inv c \<Longrightarrow> cache_inv (cache_step p c)"
  by (cases p) (simp_all add: cache_step_def cache_inv_put cache_inv_get)

lemma cache_step_capacity: "tk_capacity (cache_step p c) = tk_capacity c"
  by (cases p) (auto simp: cache_step_def cache_put_def cache_get_def evict_oldest_def Let_def split: option.splits list.splits)

lemma tracked_step:
  assumes inv: "cache_inv c" and ok: "tracked_ok k c t"
  shows "tracked_ok k (cache_step p c) (put_step k p t)"
proof (cases p)
  case (CachePut key v)
  show ?thesis
  proof (cases "key = k")
    case True
    with tracked_put_same [OF inv] CachePut show ?thesis by (simp add: cache_step_def put_step_def)
  next
    case ne: False
    show ?thesis
    proof (cases t)
      case None
      with ne ok CachePut show ?thesis
        by (auto simp: tracked_ok_def cache_step_def put_step_def cache_put_def evict_oldest_def Let_def split: list.splits)
    next
      case (Some q)
      obtain r ks where q: "q = (r, ks)" by (cases q)
      show ?thesis
      proof (cases "cache_entry c key")
        case None
        with tracked_put_new [OF inv None] ok ne Some q CachePut show ?thesis
          by (simp add: cache_step_def put_step_def)
      next
        case old: (Some w)
        have "tracked_ok k (cache_put key v c) (Some (r, insert key ks))"
          by (rule tracked_touch [OF inv old _ ne]) (use ok Some q old ne in \<open>auto simp: cache_put_def\<close>)
        with ne Some q CachePut show ?thesis by (simp add: cache_step_def put_step_def)
      qed
    qed
  qed
next
  case (CacheGet key)
  have same: "tk_entries (snd (cache_get key c)) = tk_entries c" "tk_capacity (snd (cache_get key c)) = tk_capacity c"
    by (auto simp: cache_get_def split: option.splits)
  show ?thesis
  proof (cases t)
    case None
    with ok CacheGet same(1) show ?thesis by (auto simp: tracked_ok_def cache_step_def put_step_def)
  next
    case (Some q)
    obtain r ks where q: "q = (r, ks)" by (cases q)
    show ?thesis
    proof (cases "cache_entry c key")
      case None
      then have "tk_order (snd (cache_get key c)) = tk_order c" by (simp add: cache_get_def)
      then have "newer k (snd (cache_get key c)) = newer k c" by (simp add: newer_def)
      with same ok Some q CacheGet show ?thesis
        by (auto simp: tracked_ok_def cache_step_def put_step_def card_insert_if split: option.splits)
    next
      case old: (Some w)
      show ?thesis
      proof (cases "key = k")
        case True
        have "k \<in> set (tk_order c)" using inv old True by (auto simp: cache_inv_def)
        then obtain xs ys where o: "tk_order c = xs @ k # ys" "k \<notin> set xs" using split_list_first by metis
        then have "tk_order (snd (cache_get k c)) = (xs @ ys) @ k # []"
          using old True by (simp add: cache_get_def move_to_end_split)
        moreover have "k \<notin> set ys" using inv o by (auto simp: cache_inv_def)
        ultimately have "newer k (snd (cache_get k c)) = {}" using o newer_split [of k "xs @ ys" _ "[]"] by simp
        with same ok Some q CacheGet True old show ?thesis by (simp add: tracked_ok_def cache_step_def put_step_def)
      next
        case False
        have "tracked_ok k (snd (cache_get key c)) (Some (r, insert key ks))"
          by (rule tracked_touch [OF inv old _ False]) (use ok Some q old in \<open>auto simp: cache_get_def\<close>)
        with False Some q CacheGet show ?thesis by (simp add: cache_step_def put_step_def)
      qed
    qed
  qed
qed

lemma cache_run:
  "cache_inv (fold cache_step ops (new_tool_cache n))
   \<and> tracked_ok k (fold cache_step ops (new_tool_cache n)) (last_put k ops)
   \<and> tk_capacity (fold cache_step ops (new_tool_cache n)) = tk_capacity (new_tool_cache n)"
proof (induction ops rule: rev_induct)
  case Nil
  then show ?case using cache_inv_new [of n] by (simp add: last_put_def tracked_ok_def new_tool_cache_def)
next
  case (snoc p ops)
  then show ?case using tracked_step cache_step_inv by (simp add: last_put_def cache_step_capacity)
qed

text \<open>
  After any sequence of lookups and stores a lookup returns the result stored last under the key, or nothing: nothing
  if none was stored, and otherwise only if at least as many other keys as the cache has room for were stored or looked
  up since. The cache never has more entries than its capacity, and its order is a list of its keys.
\<close>

theorem cache_returns_last_put:
  "let c = fold cache_step ops (new_tool_cache n); cap = (if n \<le> 0 then 64 else n) in
     (case last_put k ops of
        None \<Rightarrow> fst (cache_get k c) = None
      | Some (r, others) \<Rightarrow>
          fst (cache_get k c) = Some r \<or> fst (cache_get k c) = None \<and> k \<notin> others \<and> cap \<le> int (card others))
     \<and> cache_size c \<le> cap \<and> set (tk_order c) = dom (cache_entry c)"
proof -
  let ?c = "fold cache_step ops (new_tool_cache n)"
  have inv: "cache_inv ?c" and ok: "tracked_ok k ?c (last_put k ops)"
    and cap: "tk_capacity ?c = (if n \<le> 0 then 64 else n)"
    using cache_run [of ops n k] by (simp_all add: new_tool_cache_def)
  have get: "fst (cache_get k ?c) = cache_entry ?c k" by (simp add: cache_get_def split: option.splits)
  have "cache_size ?c \<le> tk_capacity ?c" "set (tk_order ?c) = dom (cache_entry ?c)"
    using inv by (simp_all add: cache_inv_size) (simp_all add: cache_inv_def)
  with ok cap get show ?thesis by (auto simp: Let_def tracked_ok_def split: option.splits)
qed

end
