(* ===== verification/ToolDedup.thy ===== *)
theory ToolDedup
  imports ToolPool
begin

text \<open>
  Aliases, versions and per-tool policies of the tool pool
  (\<^verbatim>\<open>src/internal/domain/chat/agentic/tool_dedup.go\<close>, with \<^verbatim>\<open>splitSemver\<close> of
  \<^verbatim>\<open>plugin_manifest.go\<close>): which copies of one capability survive. The maps of the configuration
  are association lists, in the order in which they are visited. The regular expression for versioned names is a
  recognizer.
\<close>

section \<open>Versioned names\<close>

datatype dedup_error =
  DedupEmptyName | DedupBadName string | DedupBadPolicy string | DedupBadPin
| DedupVersionConflict string nat | DedupEntry string dedup_error

record versioned_name =
  vn_name :: string
  vn_version :: string

definition is_letter :: "char \<Rightarrow> bool" where
  "is_letter c = (char_between CHR ''A'' c CHR ''Z'' \<or> char_between CHR ''a'' c CHR ''z'')"

definition name_ok :: "string \<Rightarrow> bool" where
  "name_ok s =
     (case s of
        [] \<Rightarrow> False
      | c # cs \<Rightarrow> is_letter c \<and> list_all (\<lambda>c. is_letter c \<or> is_digit c \<or> c = CHR ''_'') cs)"

definition version_ok :: "string \<Rightarrow> bool" where
  "version_ok s = (length (split_on CHR ''.'' s) \<le> 3 \<and> list_all all_digits (split_on CHR ''.'' s))"

text \<open>Neither part may contain the separator, so the first one splits.\<close>

definition match_versioned :: "string \<Rightarrow> versioned_name option" where
  "match_versioned raw =
     (case index_byte CHR ''@'' raw of
        None \<Rightarrow> if name_ok raw then Some \<lparr>vn_name = raw, vn_version = []\<rparr> else None
      | Some i \<Rightarrow>
          if name_ok (take i raw) \<and> version_ok (drop (Suc i) raw)
          then Some \<lparr>vn_name = take i raw, vn_version = drop (Suc i) raw\<rparr> else None)"

definition parse_versioned_name :: "string \<Rightarrow> (dedup_error, versioned_name) result" where
  "parse_versioned_name raw0 =
     (let raw = trim_space raw0
      in if raw = [] then Inl DedupEmptyName
         else case match_versioned raw of None \<Rightarrow> Inl (DedupBadName raw) | Some v \<Rightarrow> Inr v)"

definition versioned_name_string :: "versioned_name \<Rightarrow> string" where
  "versioned_name_string v = (if vn_version v = [] then vn_name v else vn_name v @ ''@'' @ vn_version v)"

text \<open>\<^verbatim>\<open>Sscanf\<close> of a component that is empty or all digits; a number out of range is not stored.\<close>

definition scan_component :: "string \<Rightarrow> int" where
  "scan_component s =
     (if all_digits s \<and> int64_ok (int (digits_val s)) then int (digits_val s) else 0)"

definition split_semver :: "string \<Rightarrow> int list" where
  "split_semver v =
     (let parts = take 3 (split_on CHR ''.'' v)
      in map scan_component parts @ replicate (3 - length parts) 0)"

fun compare_components :: "int list \<Rightarrow> int list \<Rightarrow> int" where
  "compare_components (a # as) (b # bs) =
     (if a < b then -1 else if b < a then 1 else compare_components as bs)"
| "compare_components _ _ = 0"

definition compare_semver :: "string \<Rightarrow> string \<Rightarrow> int" where
  "compare_semver a b = compare_components (split_semver a) (split_semver b)"

section \<open>Configuration\<close>

datatype dedup_policy =
  DenyCollision | PreferSourceRank | PreferLatestVersion | PreferPinned | KeepAllVersions | PolicyOther string

fun policy_name :: "dedup_policy \<Rightarrow> string" where
  "policy_name DenyCollision = ''deny_collision''"
| "policy_name PreferSourceRank = ''prefer_source_rank''"
| "policy_name PreferLatestVersion = ''prefer_latest_version''"
| "policy_name PreferPinned = ''prefer_pinned''"
| "policy_name KeepAllVersions = ''keep_all_versions''"
| "policy_name (PolicyOther s) = s"

definition is_valid_dedup_policy :: "dedup_policy \<Rightarrow> bool" where
  "is_valid_dedup_policy p =
     (p \<in> {DenyCollision, PreferSourceRank, PreferLatestVersion, PreferPinned, KeepAllVersions})"

record dedup_config =
  dc_policy :: dedup_policy
  dc_aliases :: "(string \<times> string) list"
  dc_pins :: "(string \<times> string) list"
  dc_per_tool :: "(string \<times> dedup_policy) list"
  dc_stateful :: "string list"

definition canonical_name :: "dedup_config \<Rightarrow> string \<Rightarrow> string" where
  "canonical_name cfg name = (case map_of (dc_aliases cfg) name of Some c \<Rightarrow> c | None \<Rightarrow> name)"

fun validate_per_tool :: "(string \<times> dedup_policy) list \<Rightarrow> (dedup_error, unit) result" where
  "validate_per_tool [] = Inr ()"
| "validate_per_tool ((k, v) # ps) =
     (if trim_space k = [] then Inl DedupEmptyName
      else if \<not> is_valid_dedup_policy v then Inl (DedupBadPolicy (policy_name v))
      else validate_per_tool ps)"

definition validate_dedup_config :: "dedup_config \<Rightarrow> (dedup_error, unit) result" where
  "validate_dedup_config c =
     (if \<not> is_valid_dedup_policy (dc_policy c) then Inl (DedupBadPolicy (policy_name (dc_policy c)))
      else case validate_per_tool (dc_per_tool c) of
             Inl e \<Rightarrow> Inl e
           | Inr _ \<Rightarrow>
               if list_ex (\<lambda>p. trim_space (fst p) = [] \<or> trim_space (snd p) = []) (dc_pins c)
               then Inl DedupBadPin else Inr ())"

text \<open>The first pin of a name; the empty string if there is none.\<close>

definition pin_for :: "dedup_config \<Rightarrow> string \<Rightarrow> string" where
  "pin_for cfg name = (case map_of (dc_pins cfg) name of Some v \<Rightarrow> v | None \<Rightarrow> [])"

definition policy_for :: "dedup_config \<Rightarrow> string \<Rightarrow> dedup_policy" where
  "policy_for cfg name = (case map_of (dc_per_tool cfg) name of Some p \<Rightarrow> p | None \<Rightarrow> dc_policy cfg)"

section \<open>Resolution\<close>

record dedup_parsed =
  dp_entry :: tool_pool_entry
  dp_canonical :: string
  dp_version :: string

record dedup_result =
  dd_canonical :: string
  dd_versions :: "string list"
  dd_kept :: "tool_pool_entry list"
  dd_dropped :: "tool_pool_entry list"
  dd_reason :: string

fun parse_entries :: "dedup_config \<Rightarrow> tool_pool_entry list \<Rightarrow> (dedup_error, dedup_parsed list) result" where
  "parse_entries cfg [] = Inr []"
| "parse_entries cfg (e # es) =
     (case parse_versioned_name (tpe_name e) of
        Inl err \<Rightarrow> Inl (DedupEntry (tpe_name e) err)
      | Inr v \<Rightarrow>
          (case parse_entries cfg es of
             Inl err \<Rightarrow> Inl err
           | Inr ps \<Rightarrow>
               Inr (\<lparr>dp_entry = e, dp_canonical = canonical_name cfg (vn_name v), dp_version = vn_version v\<rparr> # ps)))"

definition unique_versions :: "dedup_parsed list \<Rightarrow> string list" where
  "unique_versions bucket =
     sort_key split_semver (unique_strings (filter (\<lambda>v. v \<noteq> []) (map dp_version bucket)))"

definition has_multiple_versions :: "dedup_parsed list \<Rightarrow> bool" where
  "has_multiple_versions bucket = list_ex (\<lambda>p. dp_version p \<noteq> dp_version (hd bucket)) (tl bucket)"

definition newer :: "dedup_parsed \<Rightarrow> dedup_parsed \<Rightarrow> bool" where
  "newer p w = (0 < compare_semver (dp_version p) (dp_version w))"

definition better_rank :: "dedup_parsed \<Rightarrow> dedup_parsed \<Rightarrow> bool" where
  "better_rank p w = (tool_source_rank (tpe_source (dp_entry p)) < tool_source_rank (tpe_source (dp_entry w)))"

definition pick_latest_semver :: "dedup_parsed list \<Rightarrow> dedup_parsed" where
  "pick_latest_semver bucket = scan_winner newer (hd bucket) (tl bucket)"

definition pick_by_source_rank :: "dedup_parsed list \<Rightarrow> dedup_parsed" where
  "pick_by_source_rank bucket = scan_winner better_rank (hd bucket) (tl bucket)"

definition same_entry :: "tool_pool_entry \<Rightarrow> tool_pool_entry \<Rightarrow> bool" where
  "same_entry a b = (tpe_name a = tpe_name b \<and> tpe_source a = tpe_source b \<and> tpe_provider a = tpe_provider b)"

definition keep_one :: "string \<Rightarrow> dedup_parsed list \<Rightarrow> dedup_parsed \<Rightarrow> string \<Rightarrow> dedup_result" where
  "keep_one key bucket winner reason =
     \<lparr>dd_canonical = key, dd_versions = unique_versions bucket, dd_kept = [dp_entry winner],
      dd_dropped = filter (\<lambda>e. \<not> same_entry e (dp_entry winner)) (map dp_entry bucket), dd_reason = reason\<rparr>"

definition keep_all :: "string \<Rightarrow> dedup_parsed list \<Rightarrow> string \<Rightarrow> dedup_result" where
  "keep_all key bucket reason =
     \<lparr>dd_canonical = key, dd_versions = unique_versions bucket, dd_kept = map dp_entry bucket,
      dd_dropped = [], dd_reason = reason\<rparr>"

fun source_name :: "tool_source \<Rightarrow> string" where
  "source_name SrcBuiltin = ''builtin''"
| "source_name SrcSkill = ''skill''"
| "source_name SrcMCP = ''mcp''"
| "source_name SrcSubagent = ''subagent''"
| "source_name SrcExtension = ''extension''"
| "source_name (SrcOther s) = s"

definition resolve_bucket :: "dedup_config \<Rightarrow> string \<Rightarrow> dedup_parsed list \<Rightarrow> (dedup_error, dedup_result) result" where
  "resolve_bucket cfg key bucket =
     (if key \<in> set (dc_stateful cfg) then Inr (keep_all key bucket ''stateful: dedup skipped'')
      else case policy_for cfg key of
             KeepAllVersions \<Rightarrow>
               Inr (keep_all key bucket (''policy \"keep_all_versions\" kept ''
                      @ itoa (int (length (unique_versions bucket))) @ '' versions''))
           | DenyCollision \<Rightarrow>
               if 1 < length bucket \<and> has_multiple_versions bucket
               then Inl (DedupVersionConflict key (length (unique_versions bucket)))
               else Inr \<lparr>dd_canonical = key, dd_versions = unique_versions bucket, dd_kept = [dp_entry (hd bucket)],
                         dd_dropped = map dp_entry (tl bucket),
                         dd_reason = ''policy deny_collision: only one version present, first wins''\<rparr>
           | PreferLatestVersion \<Rightarrow>
               (let w = pick_latest_semver bucket
                in Inr (keep_one key bucket w (''policy prefer_latest_version: kept '' @ dp_version w)))
           | PreferPinned \<Rightarrow>
               (let pin = pin_for cfg key;
                    matched = (if pin = [] then None else find (\<lambda>p. dp_version p = pin) bucket)
                in case matched of
                     Some w \<Rightarrow> Inr (keep_one key bucket w (''policy prefer_pinned: matched pin '' @ key @ ''@'' @ pin))
                   | None \<Rightarrow> Inr (keep_one key bucket (pick_by_source_rank bucket)
                                 ''policy prefer_pinned: source rank fallback''))
           | _ \<Rightarrow>
               (let w = pick_by_source_rank bucket
                in Inr (keep_one key bucket w
                     (''policy prefer_source_rank: '' @ source_name (tpe_source (dp_entry w)) @ '' won''))))"

definition bucket_of :: "string \<Rightarrow> dedup_parsed list \<Rightarrow> dedup_parsed list" where
  "bucket_of key ps = filter (\<lambda>p. dp_canonical p = key) ps"

fun resolve_buckets ::
  "dedup_config \<Rightarrow> dedup_parsed list \<Rightarrow> string list \<Rightarrow> (dedup_error, dedup_result list) result" where
  "resolve_buckets cfg ps [] = Inr []"
| "resolve_buckets cfg ps (key # keys) =
     (case resolve_bucket cfg key (bucket_of key ps) of
        Inl err \<Rightarrow> Inl err
      | Inr r \<Rightarrow> (case resolve_buckets cfg ps keys of Inl err \<Rightarrow> Inl err | Inr rs \<Rightarrow> Inr (r # rs)))"

definition dedup_resolve ::
  "dedup_config \<Rightarrow> tool_pool_entry list \<Rightarrow> (dedup_error, tool_pool_entry list \<times> dedup_result list) result" where
  "dedup_resolve cfg es =
     (case parse_entries cfg es of
        Inl err \<Rightarrow> Inl err
      | Inr ps \<Rightarrow>
          (case resolve_buckets cfg ps (unique_strings (map dp_canonical ps)) of
             Inl err \<Rightarrow> Inl err
           | Inr rs \<Rightarrow> Inr (concat (map dd_kept rs), rs)))"

section \<open>Versioned names round trip\<close>

definition well_formed_name :: "versioned_name \<Rightarrow> bool" where
  "well_formed_name v = (name_ok (vn_name v) \<and> (vn_version v = [] \<or> version_ok (vn_version v)))"

lemma name_ok_chars: "name_ok s \<Longrightarrow> c \<in> set s \<Longrightarrow> is_letter c \<or> is_digit c \<or> c = CHR ''_''"
  by (auto simp: name_ok_def list_all_iff split: list.splits)

lemma name_char: "is_letter c \<or> is_digit c \<or> c = CHR ''_'' \<Longrightarrow> c \<noteq> CHR ''@'' \<and> \<not> is_space c"
  by (auto simp: is_letter_def is_digit_def char_between_def is_space_def)

lemma version_ok_chars:
  assumes "version_ok s" "c \<in> set s"
  shows "is_digit c \<or> c = CHR ''.''"
proof -
  have "set (join_with sep ws) \<subseteq> set sep \<union> \<Union> (set ` set ws)" for sep :: string and ws
    by (induction ws) (auto simp: join_with_Cons)
  from this [of "[CHR ''.'']" "split_on CHR ''.'' s"] assms show ?thesis
    unfolding join_split by (auto simp: version_ok_def list_all_iff all_digits_def)
qed

lemma version_char: "is_digit c \<or> c = CHR ''.'' \<Longrightarrow> \<not> is_space c"
  by (auto simp: is_digit_def char_between_def is_space_def)

text \<open>
  \<^verbatim>\<open>ParseVersionedToolName\<close> accepts exactly the printed forms of well-formed names, up to
  surrounding space, and gives the name and version back.
\<close>

theorem versioned_name_roundtrip:
  "parse_versioned_name raw = Inr v \<longleftrightarrow> well_formed_name v \<and> trim_space raw = versioned_name_string v"
proof
  assume a: "parse_versioned_name raw = Inr v"
  then have m: "match_versioned (trim_space raw) = Some v"
    by (auto simp: parse_versioned_name_def Let_def split: if_splits option.splits)
  show "well_formed_name v \<and> trim_space raw = versioned_name_string v"
  proof (cases "index_byte CHR ''@'' (trim_space raw)")
    case None
    with m show ?thesis
      by (auto simp: match_versioned_def well_formed_name_def versioned_name_string_def split: if_splits)
  next
    case (Some i)
    have "i < length (trim_space raw)" "trim_space raw ! i = CHR ''@''" using index_byte_Some [OF Some] by auto
    with id_take_nth_drop have "take i (trim_space raw) @ CHR ''@'' # drop (Suc i) (trim_space raw) = trim_space raw"
      by metis
    with Some m show ?thesis
      by (auto simp: match_versioned_def well_formed_name_def versioned_name_string_def version_ok_def all_digits_def
          split: if_splits)
  qed
next
  assume a: "well_formed_name v \<and> trim_space raw = versioned_name_string v"
  then have n: "name_ok (vn_name v)" "CHR ''@'' \<notin> set (vn_name v)" "versioned_name_string v \<noteq> []"
    using name_ok_chars name_char by (auto simp: well_formed_name_def versioned_name_string_def name_ok_def)
  show "parse_versioned_name raw = Inr v"
  proof (cases "vn_version v = []")
    case True
    with a n show ?thesis
      by (simp add: parse_versioned_name_def Let_def versioned_name_string_def match_versioned_def
          index_byte_None [THEN iffD2])
  next
    case False
    with a have "version_ok (vn_version v)" by (simp add: well_formed_name_def)
    with False a n show ?thesis
      by (simp add: parse_versioned_name_def Let_def versioned_name_string_def match_versioned_def)
  qed
qed

section \<open>The survivors\<close>

lemma compare_components_order:
  "length a = length b \<Longrightarrow> compare_components a b = (if a < b then -1 else if b < a then 1 else 0)"
  by (induction a b rule: compare_components.induct) auto

lemma length_split_semver: "length (split_semver v) = 3"
  using split_on_not_Nil [of "CHR ''.''" v]
  by (simp add: split_semver_def Let_def del: split_on_not_Nil)

lemma newer_order: "newer p w \<longleftrightarrow> split_semver (dp_version w) < split_semver (dp_version p)"
  by (auto simp: newer_def compare_semver_def compare_components_order length_split_semver)

interpretation latest: strict_preference newer
  by unfold_locales (auto simp: newer_order)

interpretation ranked: strict_preference better_rank
  by unfold_locales (auto simp: better_rank_def)

text \<open>What a policy promises of the survivors of a bucket.\<close>

definition policy_keeps :: "dedup_config \<Rightarrow> string \<Rightarrow> dedup_parsed list \<Rightarrow> tool_pool_entry list \<Rightarrow> bool" where
  "policy_keeps cfg key bucket kept \<longleftrightarrow>
     (if key \<in> set (dc_stateful cfg) \<or> policy_for cfg key = KeepAllVersions then kept = map dp_entry bucket
      else \<exists>w. kept = [dp_entry w] \<and>
        (case policy_for cfg key of
           DenyCollision \<Rightarrow> w = hd bucket \<and> (\<forall>p \<in> set bucket. dp_version p = dp_version w)
         | PreferLatestVersion \<Rightarrow> first_best newer bucket w
         | PreferPinned \<Rightarrow>
             if pin_for cfg key \<noteq> [] \<and> (\<exists>p \<in> set bucket. dp_version p = pin_for cfg key)
             then find (\<lambda>p. dp_version p = pin_for cfg key) bucket = Some w
             else first_best better_rank bucket w
         | _ \<Rightarrow> first_best better_rank bucket w))"

lemma pick_first_best:
  assumes "bucket \<noteq> []"
  shows "first_best newer bucket (pick_latest_semver bucket)" "first_best better_rank bucket (pick_by_source_rank bucket)"
  using assms latest.winner_first_best [of "hd bucket" "tl bucket"] ranked.winner_first_best [of "hd bucket" "tl bucket"]
  by (simp_all add: pick_latest_semver_def pick_by_source_rank_def)

lemma find_None_pin: "find P xs = None \<longleftrightarrow> (\<forall>x \<in> set xs. \<not> P x)"
  by (auto simp: find_None_iff)

lemma versions_agree:
  "bucket \<noteq> [] \<Longrightarrow> \<not> (1 < length bucket \<and> has_multiple_versions bucket)
     \<longleftrightarrow> (\<forall>p \<in> set bucket. dp_version p = dp_version (hd bucket))"
  by (cases bucket) (auto simp: has_multiple_versions_def list_ex_iff)

lemma resolve_bucket_keeps:
  assumes "bucket \<noteq> []" "resolve_bucket cfg key bucket = Inr r"
  shows "policy_keeps cfg key bucket (dd_kept r)"
proof (cases "key \<in> set (dc_stateful cfg)")
  case True
  with assms(2) show ?thesis by (auto simp: resolve_bucket_def policy_keeps_def keep_all_def)
next
  case False
  note pick = pick_first_best [OF assms(1)]
  show ?thesis
  proof (cases "policy_for cfg key")
    case DenyCollision
    with False assms(2) versions_agree [OF assms(1)] show ?thesis
      by (auto simp: resolve_bucket_def policy_keeps_def split: if_splits)
  next
    case PreferPinned
    show ?thesis
    proof (cases "pin_for cfg key \<noteq> [] \<and> (\<exists>p \<in> set bucket. dp_version p = pin_for cfg key)")
      case True
      then obtain w where w: "find (\<lambda>p. dp_version p = pin_for cfg key) bucket = Some w"
        using find_None_pin [of "\<lambda>p. dp_version p = pin_for cfg key" bucket] by blast
      with PreferPinned False True assms(2) show ?thesis
        by (auto simp: resolve_bucket_def policy_keeps_def keep_one_def Let_def)
    next
      case none: False
      then have "(if pin_for cfg key = [] then None else find (\<lambda>p. dp_version p = pin_for cfg key) bucket) = None"
        by (auto simp: find_None_pin)
      with PreferPinned False none assms(2) pick(2) show ?thesis
        by (auto simp: resolve_bucket_def policy_keeps_def keep_one_def Let_def)
    qed
  qed (use False assms(2) pick in \<open>auto simp: resolve_bucket_def policy_keeps_def keep_one_def keep_all_def Let_def\<close>)
qed

lemma resolve_bucket_dropped:
  assumes "bucket \<noteq> []" "resolve_bucket cfg key bucket = Inr r" "p \<in> set bucket"
  shows "dp_entry p \<in> set (dd_kept r) \<or> dp_entry p \<in> set (dd_dropped r)
    \<or> (\<exists>e \<in> set (dd_kept r). same_entry (dp_entry p) e)"
proof -
  have one: "dp_entry p \<in> set (dd_kept (keep_one key bucket w s)) \<or> dp_entry p \<in> set (dd_dropped (keep_one key bucket w s))
      \<or> (\<exists>e \<in> set (dd_kept (keep_one key bucket w s)). same_entry (dp_entry p) e)" for w s
    using assms(3) by (auto simp: keep_one_def)
  have all: "dp_entry p \<in> set (dd_kept (keep_all key bucket s))" for s
    using assms(3) by (simp add: keep_all_def)
  have p: "p = hd bucket \<or> p \<in> set (tl bucket)" using assms(1,3) by (cases bucket) auto
  from assms(2) show ?thesis
    unfolding resolve_bucket_def Let_def
    using one all p by (auto split: if_splits dedup_policy.splits option.splits)
qed

lemma resolve_bucket_error:
  assumes "bucket \<noteq> []"
  shows "(\<exists>err. resolve_bucket cfg key bucket = Inl err) \<longleftrightarrow>
    key \<notin> set (dc_stateful cfg) \<and> policy_for cfg key = DenyCollision
    \<and> (\<exists>p \<in> set bucket. dp_version p \<noteq> dp_version (hd bucket))"
  using versions_agree [OF assms]
  by (auto simp: resolve_bucket_def Let_def split: dedup_policy.splits option.splits)

lemma resolve_bucket_canonical: "resolve_bucket cfg key bucket = Inr r \<Longrightarrow> dd_canonical r = key"
  by (auto simp: resolve_bucket_def keep_one_def keep_all_def Let_def
      split: if_splits dedup_policy.splits option.splits)

lemma resolve_buckets_Inr:
  "resolve_buckets cfg ps keys = Inr rs \<longleftrightarrow>
     list_all2 (\<lambda>key r. resolve_bucket cfg key (bucket_of key ps) = Inr r) keys rs"
proof (induction keys arbitrary: rs)
  case (Cons key keys)
  show ?case by (cases rs) (auto simp flip: Cons.IH split: sum.splits)
qed auto

lemma parse_entries_Inr:
  "parse_entries cfg es = Inr ps \<Longrightarrow>
     map dp_entry ps = es
     \<and> (\<forall>p \<in> set ps. \<exists>v. parse_versioned_name (tpe_name (dp_entry p)) = Inr v
            \<and> dp_canonical p = canonical_name cfg (vn_name v) \<and> dp_version p = vn_version v)"
  by (induction cfg es arbitrary: ps rule: parse_entries.induct) (auto split: sum.splits)

text \<open>
  \<^verbatim>\<open>Resolve\<close> gives one result for each canonical name, in the order of first occurrence. From the entries
  of that name the policy keeps: all of them for a stateful tool or when all versions are kept; the first one, if all
  have the same version, when collisions are denied; otherwise the first of the highest version, the pinned one, or the
  first of the best source. Every other entry is reported as dropped or names the same tool of the same provider as a kept one.
\<close>

theorem dedup_keeps_by_policy:
  assumes "dedup_resolve cfg es = Inr (kept, results)"
  shows "\<exists>ps. parse_entries cfg es = Inr ps \<and> map dp_entry ps = es
    \<and> map dd_canonical results = unique_strings (map dp_canonical ps)
    \<and> kept = concat (map dd_kept results)
    \<and> (\<forall>r \<in> set results. policy_keeps cfg (dd_canonical r) (bucket_of (dd_canonical r) ps) (dd_kept r)
         \<and> (\<forall>p \<in> set (bucket_of (dd_canonical r) ps).
               dp_entry p \<in> set (dd_kept r) \<or> dp_entry p \<in> set (dd_dropped r)
               \<or> (\<exists>e \<in> set (dd_kept r). same_entry (dp_entry p) e)))"
proof -
  from assms obtain ps where ps: "parse_entries cfg es = Inr ps"
    "resolve_buckets cfg ps (unique_strings (map dp_canonical ps)) = Inr results" "kept = concat (map dd_kept results)"
    by (auto simp: dedup_resolve_def split: sum.splits)
  let ?keys = "unique_strings (map dp_canonical ps)"
  from ps(2) have each: "list_all2 (\<lambda>key r. resolve_bucket cfg key (bucket_of key ps) = Inr r) ?keys results"
    by (simp add: resolve_buckets_Inr)
  then have names: "map dd_canonical results = ?keys"
    by (induction rule: list_all2_induct) (auto dest: resolve_bucket_canonical)
  have "policy_keeps cfg (dd_canonical r) (bucket_of (dd_canonical r) ps) (dd_kept r)
      \<and> (\<forall>p \<in> set (bucket_of (dd_canonical r) ps). dp_entry p \<in> set (dd_kept r) \<or> dp_entry p \<in> set (dd_dropped r)
               \<or> (\<exists>e \<in> set (dd_kept r). same_entry (dp_entry p) e))" if r: "r \<in> set results" for r
  proof -
    from each r obtain key where "resolve_bucket cfg key (bucket_of key ps) = Inr r"
      by (auto simp: list_all2_conv_all_nth in_set_conv_nth)
    then have res: "resolve_bucket cfg (dd_canonical r) (bucket_of (dd_canonical r) ps) = Inr r"
      using resolve_bucket_canonical by metis
    have "dd_canonical r \<in> set (map dp_canonical ps)"
      using names r by (metis image_eqI list.set_map set_unique_strings)
    then have "bucket_of (dd_canonical r) ps \<noteq> []" by (auto simp: bucket_of_def filter_empty_conv)
    with res resolve_bucket_keeps resolve_bucket_dropped show ?thesis by blast
  qed
  with ps names parse_entries_Inr [OF ps(1)] show ?thesis by blast
qed

text \<open>Resolution fails only on a name that is not well formed, or on a denied collision.\<close>

lemma dedup_resolve_fails:
  assumes "parse_entries cfg es = Inr ps"
  shows "(\<exists>err. dedup_resolve cfg es = Inl err) \<longleftrightarrow>
    (\<exists>key \<in> set (map dp_canonical ps). key \<notin> set (dc_stateful cfg) \<and> policy_for cfg key = DenyCollision
       \<and> (\<exists>p \<in> set (bucket_of key ps). dp_version p \<noteq> dp_version (hd (bucket_of key ps))))"
proof -
  have "(\<exists>err. resolve_buckets cfg ps keys = Inl err) \<longleftrightarrow>
      (\<exists>key \<in> set keys. \<exists>err. resolve_bucket cfg key (bucket_of key ps) = Inl err)" for keys
    by (induction keys) (auto split: sum.splits)
  note some = this [of "unique_strings (map dp_canonical ps)"]
  have "(\<exists>err. dedup_resolve cfg es = Inl err) \<longleftrightarrow> (\<exists>err. resolve_buckets cfg ps (unique_strings (map dp_canonical ps)) = Inl err)"
    using assms by (auto simp: dedup_resolve_def split: sum.splits)
  also have "\<dots> \<longleftrightarrow> (\<exists>key \<in> set (map dp_canonical ps). \<exists>err. resolve_bucket cfg key (bucket_of key ps) = Inl err)"
    unfolding some set_unique_strings ..
  also have "\<dots> \<longleftrightarrow> (\<exists>key \<in> set (map dp_canonical ps). key \<notin> set (dc_stateful cfg) \<and> policy_for cfg key = DenyCollision
       \<and> (\<exists>p \<in> set (bucket_of key ps). dp_version p \<noteq> dp_version (hd (bucket_of key ps))))"
  proof (intro bex_cong refl)
    fix key assume "key \<in> set (map dp_canonical ps)"
    then have "bucket_of key ps \<noteq> []" by (auto simp: bucket_of_def filter_empty_conv)
    then show "(\<exists>err. resolve_bucket cfg key (bucket_of key ps) = Inl err) \<longleftrightarrow>
        key \<notin> set (dc_stateful cfg) \<and> policy_for cfg key = DenyCollision
        \<and> (\<exists>p \<in> set (bucket_of key ps). dp_version p \<noteq> dp_version (hd (bucket_of key ps)))"
      by (rule resolve_bucket_error)
  qed
  finally show ?thesis .
qed

definition sample_entry :: "string \<Rightarrow> tool_source \<Rightarrow> tool_pool_entry" where
  "sample_entry n src = \<lparr>tpe_name = n, tpe_source = src, tpe_provider = ''p'', tpe_description = [], tpe_effect = []\<rparr>"

definition latest_config :: dedup_config where
  "latest_config = \<lparr>dc_policy = PreferLatestVersion, dc_aliases = [(''read_file'', ''Read'')], dc_pins = [],
     dc_per_tool = [], dc_stateful = []\<rparr>"

lemma dedup_keeps_by_policy_witness:
  "\<exists>results. dedup_resolve latest_config
      [sample_entry ''Read@1.2'' SrcBuiltin, sample_entry ''read_file@1.10'' SrcSkill] = Inr ([sample_entry ''read_file@1.10'' SrcSkill], results)
    \<and> map dd_canonical results = [''Read'']"
proof -
  let ?es = "[sample_entry ''Read@1.2'' SrcBuiltin, sample_entry ''read_file@1.10'' SrcSkill]"
  have k: "map_sum id fst (dedup_resolve latest_config ?es) = Inr [sample_entry ''read_file@1.10'' SrcSkill]"
    by code_simp
  then obtain kept results where r: "dedup_resolve latest_config ?es = Inr (kept, results)"
    by (cases "dedup_resolve latest_config ?es") auto
  with k have kept: "kept = [sample_entry ''read_file@1.10'' SrcSkill]" by simp
  have n: "map_sum id (map dp_canonical) (parse_entries latest_config ?es) = Inr [''Read'', ''Read'']" by code_simp
  from dedup_keeps_by_policy [OF r] obtain ps where "parse_entries latest_config ?es = Inr ps"
    "map dd_canonical results = unique_strings (map dp_canonical ps)" by blast
  with n have "map dd_canonical results = unique_strings [''Read'', ''Read'']"
    by (simp only: map_sum.simps sum.inject)
  then have c: "map dd_canonical results = [''Read'']" by (simp add: unique_strings_def)
  show ?thesis by (rule exI [of _ results], rule conjI [OF r [unfolded kept] c])
qed

end
