(* ===== verification/ToolExec.thy ===== *)
theory ToolExec
  imports Dispatch InputSchema ToolCache
begin

text \<open>
  The tool runtime that \<^verbatim>\<open>executeWithPermissions\<close> hands its regular calls to:
  \<^verbatim>\<open>src/internal/domain/chat/agentic/toolexec.go\<close>. The indexes of the tools, the partition of the calls into batches,
  the execution of a single call, and a concurrent batch as a relation with every interleaving of its goroutines.
  Validation is in the theory InputSchema, the cache in ToolCache. The services (document search, MCP, the skill
  runtime, the hooks) are arguments over a world; times, durations and the stall detector, whose events come from a
  timer, are left out.
\<close>

section \<open>Indexes of the tools\<close>

record exec_tool =
  xt_name :: string
  xt_read_only :: bool
  xt_concurrency_safe :: bool
  xt_destructive :: bool
  xt_max_result_chars :: int
  xt_allowed_tools :: "string list"
  xt_context_mode :: string
  xt_interrupt_behavior :: string
  xt_search_or_read :: bool
  xt_input_schema :: string

text \<open>Each builder writes the entries of the tools that have something to say, later tools over earlier ones.\<close>

definition build_index :: "(exec_tool \<Rightarrow> 'v option) \<Rightarrow> exec_tool list \<Rightarrow> string \<Rightarrow> 'v option" where
  "build_index entry tools =
     fold (\<lambda>t idx. case entry t of None \<Rightarrow> idx | Some v \<Rightarrow> idx(xt_name t \<mapsto> v)) tools (\<lambda>_. None)"

definition build_read_only_index :: "exec_tool list \<Rightarrow> string \<Rightarrow> bool option" where
  "build_read_only_index = build_index (\<lambda>t. if xt_read_only t \<or> xt_concurrency_safe t then Some True else None)"

definition build_destructive_index :: "exec_tool list \<Rightarrow> string \<Rightarrow> bool option" where
  "build_destructive_index = build_index (\<lambda>t. if xt_destructive t then Some True else None)"

definition build_max_result_index :: "exec_tool list \<Rightarrow> string \<Rightarrow> int option" where
  "build_max_result_index = build_index (\<lambda>t. if 0 < xt_max_result_chars t then Some (xt_max_result_chars t) else None)"

definition build_allowed_tools_index :: "exec_tool list \<Rightarrow> string \<Rightarrow> string list option" where
  "build_allowed_tools_index = build_index (\<lambda>t. if 0 < length (xt_allowed_tools t) then Some (xt_allowed_tools t) else None)"

definition forked :: "exec_tool \<Rightarrow> bool" where
  "forked t = (xt_context_mode t \<noteq> '''' \<and> xt_context_mode t \<noteq> ''inline'')"

definition build_context_mode_index :: "exec_tool list \<Rightarrow> string \<Rightarrow> string option" where
  "build_context_mode_index = build_index (\<lambda>t. if forked t then Some (xt_context_mode t) else None)"

definition build_context_mode_tool_index :: "exec_tool list \<Rightarrow> string \<Rightarrow> exec_tool option" where
  "build_context_mode_tool_index = build_index (\<lambda>t. if forked t then Some t else None)"

definition build_interrupt_behavior_index :: "exec_tool list \<Rightarrow> string \<Rightarrow> string option" where
  "build_interrupt_behavior_index = build_index (\<lambda>t. if xt_interrupt_behavior t = ''block'' then Some ''block'' else None)"

definition build_search_or_read_index :: "exec_tool list \<Rightarrow> string \<Rightarrow> bool option" where
  "build_search_or_read_index = build_index (\<lambda>t. if xt_search_or_read t then Some True else None)"

definition build_input_schema_index :: "exec_tool list \<Rightarrow> string \<Rightarrow> string option" where
  "build_input_schema_index =
     build_index (\<lambda>t. if is_empty_json_schema (xt_input_schema t) then None else Some (xt_input_schema t))"

text \<open>The entry of a name is that of the last tool of this name that has one.\<close>

lemma build_index_eq:
  "build_index entry tools name = map_of (rev (List.map_filter (\<lambda>t. map_option (Pair (xt_name t)) (entry t)) tools)) name"
proof -
  have "fold (\<lambda>t idx. case entry t of None \<Rightarrow> idx | Some v \<Rightarrow> idx(xt_name t \<mapsto> v)) tools m name =
      (m ++ map_of (rev (List.map_filter (\<lambda>t. map_option (Pair (xt_name t)) (entry t)) tools))) name" for m
    by (induction tools arbitrary: m) (auto simp: map_filter_simps map_add_def split: option.splits)
  then show ?thesis by (simp add: build_index_def)
qed

section \<open>Batches\<close>

definition is_read_only_tool :: "string \<Rightarrow> bool" where
  "is_read_only_tool name =
     (name \<in> {''document-search'', ''document_search'', ''web-scraper'', ''http-get'', ''memory-recall'', ''troubleshoot'',
              ''tool_search'', ''ask_user''})"

record tool_batch =
  tb_safe :: bool
  tb_indices :: "nat list"

definition concurrency_safe :: "(string \<Rightarrow> bool) \<Rightarrow> tool_call \<Rightarrow> bool" where
  "concurrency_safe read_only tc = (is_read_only_tool (tc_name tc) \<or> read_only (tc_name tc))"

text \<open>One turn of the loop of \<^verbatim>\<open>PartitionToolCalls\<close>: the call \<open>i\<close> extends the last batch or opens a new one.\<close>

definition partition_step :: "(string \<Rightarrow> bool) \<Rightarrow> nat \<times> tool_call \<Rightarrow> tool_batch list \<Rightarrow> tool_batch list" where
  "partition_step read_only p batches =
     (let safe = concurrency_safe read_only (snd p) in
      if safe \<and> batches \<noteq> [] \<and> tb_safe (last batches)
      then butlast batches @ [(last batches)\<lparr>tb_indices := tb_indices (last batches) @ [fst p]\<rparr>]
      else batches @ [\<lparr>tb_safe = safe, tb_indices = [fst p]\<rparr>])"

definition partition_tool_calls :: "(string \<Rightarrow> bool) \<Rightarrow> tool_call list \<Rightarrow> tool_batch list" where
  "partition_tool_calls read_only tcs = fold (partition_step read_only) (zip [0..<length tcs] tcs) []"

definition batch_ok :: "(string \<Rightarrow> bool) \<Rightarrow> tool_call list \<Rightarrow> tool_batch \<Rightarrow> bool" where
  "batch_ok read_only tcs b \<longleftrightarrow>
     tb_indices b \<noteq> [] \<and> (\<forall>i\<in>set (tb_indices b). i < length tcs \<and> concurrency_safe read_only (tcs ! i) = tb_safe b)
     \<and> (tb_safe b \<or> length (tb_indices b) = 1)"

text \<open>No two neighbours are both safe.\<close>

fun separated :: "tool_batch list \<Rightarrow> bool" where
  "separated (a # b # bs) = (\<not> (tb_safe a \<and> tb_safe b) \<and> separated (b # bs))"
| "separated bs = True"

lemma separated_snoc: "separated (bs @ [b]) \<longleftrightarrow> separated bs \<and> (bs = [] \<or> \<not> (tb_safe (last bs) \<and> tb_safe b))"
  by (induction bs rule: separated.induct) auto

lemma partition_prefix:
  assumes "n \<le> length tcs"
  shows "let bs = fold (partition_step read_only) (zip [0..<n] (take n tcs)) [] in
     concat (map tb_indices bs) = [0..<n] \<and> (\<forall>b\<in>set bs. batch_ok read_only tcs b) \<and> separated bs"
  using assms
proof (induction n)
  case 0
  then show ?case by simp
next
  case (Suc n)
  let ?bs = "fold (partition_step read_only) (zip [0..<n] (take n tcs)) []"
  let ?safe = "concurrency_safe read_only (tcs ! n)"
  have IH: "concat (map tb_indices ?bs) = [0..<n]" "\<forall>b\<in>set ?bs. batch_ok read_only tcs b" "separated ?bs"
    using Suc by (simp_all add: Let_def)
  have n: "n < length tcs" using Suc.prems by simp
  have step: "fold (partition_step read_only) (zip [0..<Suc n] (take (Suc n) tcs)) [] = partition_step read_only (n, tcs ! n) ?bs"
    using n by (simp add: take_Suc_conv_app_nth zip_append1 min_def)
  show ?case
  proof (cases "?safe \<and> ?bs \<noteq> [] \<and> tb_safe (last ?bs)")
    case True
    then obtain bs b where bs: "?bs = bs @ [b]" by (metis append_butlast_last_id)
    have new: "partition_step read_only (n, tcs ! n) (bs @ [b]) = bs @ [b\<lparr>tb_indices := tb_indices b @ [n]\<rparr>]"
      using True unfolding bs by (simp add: partition_step_def Let_def)
    show ?thesis using IH True n unfolding step bs new
      by (auto simp: batch_ok_def separated_snoc Let_def)
  next
    case False
    have new: "partition_step read_only (n, tcs ! n) ?bs = ?bs @ [\<lparr>tb_safe = ?safe, tb_indices = [n]\<rparr>]"
      using False by (simp only: partition_step_def Let_def fst_conv snd_conv if_False)
    show ?thesis using IH False n unfolding step new
      by (auto simp: batch_ok_def separated_snoc Let_def)
  qed
qed

text \<open>
  The batches are the calls cut in their order: every call is in exactly one batch, a batch has either one call that
  is not safe to run beside others or only safe ones, and no two neighbouring batches are both safe, so each safe batch
  is as long as the order of the calls allows.
\<close>

theorem partition_exact:
  "concat (map tb_indices (partition_tool_calls read_only tcs)) = [0..<length tcs]
   \<and> list_all (batch_ok read_only tcs) (partition_tool_calls read_only tcs)
   \<and> separated (partition_tool_calls read_only tcs)"
  using partition_prefix [of "length tcs" tcs read_only] by (simp add: partition_tool_calls_def Let_def list_all_iff)

section \<open>Long error messages\<close>

text \<open>Division of Go integers rounds towards zero; a slice expression whose bounds are out of range panics (None).\<close>

definition half_of :: "int \<Rightarrow> int" where
  "half_of x = (if x < 0 then - (- x div 2) else x div 2)"

definition slice_to :: "string \<Rightarrow> int \<Rightarrow> string option" where
  "slice_to s n = (if 0 \<le> n \<and> n \<le> int (length s) then Some (take (nat n) s) else None)"

definition slice_from :: "string \<Rightarrow> int \<Rightarrow> string option" where
  "slice_from s n = (if 0 \<le> n \<and> n \<le> int (length s) then Some (drop (nat n) s) else None)"

definition cut_notice :: "int \<Rightarrow> string" where
  "cut_notice n = CHR 0x0A # ''... ['' @ itoa n @ '' chars truncated] ...'' @ [CHR 0x0A]"

definition format_tool_error :: "string \<Rightarrow> int \<Rightarrow> string option" where
  "format_tool_error msg max_chars =
     (if max_chars \<le> 0 \<or> int (length msg) \<le> max_chars then Some msg
      else let half = half_of max_chars;
               notice = cut_notice (int (length msg) - max_chars);
               n = int (length notice);
               (h, t) = (if max_chars < half + half + n
                         then (half_of (max_chars - n), max_chars - n - half_of (max_chars - n))
                         else (half, half))
           in case (slice_to msg h, slice_from msg (int (length msg) - t)) of
                (Some a, Some b) \<Rightarrow> Some (a @ notice @ b)
              | _ \<Rightarrow> None)"

lemma half_nonneg: "0 \<le> x \<Longrightarrow> half_of x = x div 2"
  by (simp add: half_of_def)

lemma cut_notice_pos: "2 \<le> length (cut_notice n)"
  by (simp add: cut_notice_def)

text \<open>
  An error message is returned as it is when it fits; a longer one becomes a message of exactly the limit, with the
  start of the message, the notice and the end of the message, if the limit leaves room for the notice; with a limit below
  the length of the notice the function panics.
\<close>

theorem format_tool_error_exact:
  fixes msg :: string and m :: int
  defines "notice \<equiv> cut_notice (int (length msg) - m)"
  shows "if m \<le> 0 \<or> int (length msg) \<le> m then format_tool_error msg m = Some msg
    else if int (length notice) \<le> m
    then (\<exists>a b c. format_tool_error msg m = Some (a @ notice @ c) \<and> msg = a @ b @ c
            \<and> int (length (a @ notice @ c)) = m \<and> \<bar>int (length c) - int (length a)\<bar> \<le> 1)
    else format_tool_error msg m = None"
proof -
  define n where "n = int (length notice)"
  have n: "2 \<le> n" using cut_notice_pos [of "int (length msg) - m"] by (simp add: n_def notice_def)
  consider "m \<le> 0 \<or> int (length msg) \<le> m" | "0 < m" "m < int (length msg)" "n \<le> m" | "0 < m" "m < int (length msg)" "m < n"
    by linarith
  then show ?thesis
  proof cases
    case 1
    then show ?thesis by (simp add: format_tool_error_def)
  next
    case 2
    define h where "h = (m - n) div 2"
    define t where "t = m - n - h"
    have over: "m < half_of m + half_of m + n" using 2 n by (simp add: half_nonneg)
    have ht: "0 \<le> h" "0 \<le> t" "h + t = m - n" "\<bar>t - h\<bar> \<le> 1" "h \<le> int (length msg)" "t \<le> int (length msg)"
      unfolding h_def t_def using 2 n by linarith+
    have f: "format_tool_error msg m = Some (take (nat h) msg @ notice @ drop (nat (int (length msg) - t)) msg)"
      using 2 over ht by (simp add: format_tool_error_def Let_def n_def [symmetric] notice_def [symmetric] half_nonneg
          h_def [symmetric] t_def [symmetric] slice_to_def slice_from_def)
    have split: "msg = take (nat h) msg @ take (nat (int (length msg) - t) - nat h) (drop (nat h) msg)
        @ drop (nat (int (length msg) - t)) msg"
    proof -
      have "nat h \<le> nat (int (length msg) - t)" using ht 2 n by linarith
      then have "drop (nat (int (length msg) - t)) msg = drop (nat (int (length msg) - t) - nat h) (drop (nat h) msg)" by simp
      then show ?thesis by (metis append_take_drop_id)
    qed
    have len: "int (length (take (nat h) msg)) = h" "int (length (drop (nat (int (length msg) - t)) msg)) = t"
      using ht by auto
    have "int (length (take (nat h) msg @ notice @ drop (nat (int (length msg) - t)) msg)) = m"
      using len ht unfolding length_append of_nat_add n_def [symmetric] by linarith
    then show ?thesis using 2 f split len ht unfolding n_def by (auto intro!: exI)
  next
    case 3
    define h where "h = half_of (m - n)"
    have over: "m < half_of m + half_of m + n" using 3 n by (simp add: half_nonneg)
    have neg: "h < 0 \<or> m - n - h < 0" using 3 by (auto simp: h_def half_of_def)
    have "format_tool_error msg m = None"
      using 3 over neg by (auto simp: format_tool_error_def Let_def n_def [symmetric] notice_def [symmetric]
          h_def [symmetric] slice_to_def slice_from_def split: option.splits)
    then show ?thesis using 3 unfolding n_def by simp
  qed
qed

section \<open>The document search\<close>

record doc_args =
  da_query :: string
  da_top_k :: "int option"
  da_limit :: "int option"
  da_kb_id :: string
  da_filter :: string

text \<open>
  The search client and the decoders. \<open>dc_decode\<close> is the JSON decoder of the arguments, \<open>dc_filter\<close> the parser of the
  metadata filter, \<open>dc_uuid\<close> the parser of UUIDs, which yields the canonical form; a search is told whether its context is
  cancelled. No list of knowledge bases (None) is a nil slice.
\<close>

record ('w, 'f, 'r) doc_client =
  dc_decode :: "string \<Rightarrow> (string, doc_args) result"
  dc_filter :: "string \<Rightarrow> (string, 'f) result"
  dc_uuid :: "string \<Rightarrow> string option"
  dc_search :: "bool \<Rightarrow> string \<Rightarrow> string list option \<Rightarrow> int \<Rightarrow> 'f \<Rightarrow> 'w \<Rightarrow> (string, 'r list) result \<times> 'w"
  dc_marshal :: "'r list \<Rightarrow> (string, string) result"
  dc_marshal_empty :: "(string, string) result"

definition positive_value :: "int option \<Rightarrow> int option" where
  "positive_value v = (case v of None \<Rightarrow> None | Some n \<Rightarrow> if n \<le> 0 then None else Some n)"

definition resolve_document_search_limit_aliases :: "int option \<Rightarrow> int option \<Rightarrow> (string, int) result" where
  "resolve_document_search_limit_aliases top_k limit =
     (case (positive_value top_k, positive_value limit) of
        (Some t, Some l) \<Rightarrow> if t \<noteq> l then Inl ''document_search: conflicting aliases top_k and limit'' else Inr l
      | (None, Some l) \<Rightarrow> Inr l
      | (Some t, None) \<Rightarrow> Inr t
      | (None, None) \<Rightarrow> Inr 5)"

text \<open>The knowledge bases a call is restricted to.\<close>

definition effective_kb_ids :: "(string \<Rightarrow> string option) \<Rightarrow> string list option \<Rightarrow> string \<Rightarrow> string list option" where
  "effective_kb_ids uuid kb_ids requested =
     (if requested = [] then kb_ids
      else case uuid requested of
             None \<Rightarrow> kb_ids
           | Some kb \<Rightarrow> (case kb_ids of
                           None \<Rightarrow> Some [kb]
                         | Some ids \<Rightarrow> if kb \<in> set ids then Some [kb] else kb_ids))"

definition execute_document_search ::
  "('w, 'f, 'r) doc_client \<Rightarrow> string list option \<Rightarrow> string \<Rightarrow> bool \<Rightarrow> 'w \<Rightarrow> (string, tool_exec_result) result \<times> 'w" where
  "execute_document_search c kb_ids raw cancelled w =
     (case dc_decode c raw of
        Inl e \<Rightarrow> (Inl (''document_search: invalid arguments: '' @ e), w)
      | Inr a \<Rightarrow>
     (case dc_filter c (da_filter a) of
        Inl e \<Rightarrow> (Inl (''document_search: invalid metadataFilter: '' @ e), w)
      | Inr f \<Rightarrow>
     (case resolve_document_search_limit_aliases (da_top_k a) (da_limit a) of
        Inl e \<Rightarrow> (Inl e, w)
      | Inr top_k \<Rightarrow>
     (case dc_search c cancelled (da_query a) (effective_kb_ids (dc_uuid c) kb_ids (da_kb_id a)) top_k f w of
        (Inl e, w') \<Rightarrow> (Inl (''document_search: search failed: '' @ e), w')
      | (Inr rs, w') \<Rightarrow>
          if rs = []
          then (case dc_marshal_empty c of
                  Inl e \<Rightarrow> (Inl (''document_search: failed to marshal empty result: '' @ e), w')
                | Inr out \<Rightarrow> (Inr (output_result ''document_search'' out), w'))
          else (case dc_marshal c rs of
                  Inl e \<Rightarrow> (Inl (''document_search: failed to marshal results: '' @ e), w')
                | Inr out \<Rightarrow> (Inr (output_result ''document_search'' out), w'))))))"

text \<open>
  The client is asked at most once, and only for knowledge bases of the agent's list, when it has one: a client that
  answers every search within the list like another one gives the same answers.
\<close>

definition kb_within :: "string list option \<Rightarrow> string list option \<Rightarrow> bool" where
  "kb_within kb_ids asked = (case kb_ids of None \<Rightarrow> True | Some ids \<Rightarrow> (case asked of None \<Rightarrow> False | Some ks \<Rightarrow> set ks \<subseteq> set ids \<and> (ids \<noteq> [] \<longrightarrow> ks \<noteq> [])))"

lemma effective_kb_ids_within: "kb_within kb_ids (effective_kb_ids uuid kb_ids requested)"
  by (auto simp: kb_within_def effective_kb_ids_def split: option.splits)

lemma limit_positive: "resolve_document_search_limit_aliases t l = Inr n \<Longrightarrow> 0 < n"
  by (auto simp: resolve_document_search_limit_aliases_def positive_value_def split: option.splits if_splits)

text \<open>
  C9: whatever the arguments of the model, the search runs on knowledge bases of the agent's list and asks for a positive
  number of results: two search clients that agree on these searches cannot be told apart by a call.
\<close>

theorem document_search_confined:
  assumes "\<And>ids n q f w. kb_within kb_ids ids \<Longrightarrow> 0 < n \<Longrightarrow> search cancelled q ids n f w = dc_search c cancelled q ids n f w"
  shows "execute_document_search (c\<lparr>dc_search := search\<rparr>) kb_ids raw cancelled w = execute_document_search c kb_ids raw cancelled w"
proof (cases "dc_decode c raw")
  case (Inr a)
  let ?ids = "effective_kb_ids (dc_uuid c) kb_ids (da_kb_id a)"
  have "search cancelled (da_query a) ?ids n f w = dc_search c cancelled (da_query a) ?ids n f w"
    if "resolve_document_search_limit_aliases (da_top_k a) (da_limit a) = Inr n" for n f
    by (rule assms [OF effective_kb_ids_within limit_positive [OF that]])
  with Inr show ?thesis
    by (cases "dc_filter c (da_filter a)"; cases "resolve_document_search_limit_aliases (da_top_k a) (da_limit a)")
      (simp_all add: execute_document_search_def split: prod.splits sum.splits)
qed (simp add: execute_document_search_def)

text \<open>Without a list every knowledge base can be searched, and so it is when the list is there but empty: the client takes an
  empty list for no restriction (\<^verbatim>\<open>pg_search_client.go\<close>).\<close>

lemma no_list_no_restriction: "effective_kb_ids uuid None requested = (if requested = [] then None else map_option (\<lambda>k. [k]) (uuid requested))"
  by (simp add: effective_kb_ids_def split: option.splits)

text \<open>A knowledge base outside the list does not make the call fail: the whole list is searched.\<close>

lemma foreign_kb_ignored: "uuid requested = Some kb \<Longrightarrow> kb \<notin> set ids \<Longrightarrow> effective_kb_ids uuid (Some ids) requested = Some ids"
  by (simp add: effective_kb_ids_def)

definition sample_client :: "(nat, nat, string) doc_client" where
  "sample_client =
     \<lparr>dc_decode = (\<lambda>raw. Inr \<lparr>da_query = raw, da_top_k = Some 3, da_limit = None, da_kb_id = ''kb-9'', da_filter = ''''\<rparr>),
      dc_filter = (\<lambda>_. Inr 0), dc_uuid = Some,
      dc_search = (\<lambda>_ q ids n _ w. (Inr (case ids of Some ks \<Rightarrow> q # ks | None \<Rightarrow> [q]), Suc w)),
      dc_marshal = Inr \<circ> concat, dc_marshal_empty = Inr ''[]''\<rparr>"

theorem document_search_confined_witness:
  "execute_document_search
     (sample_client\<lparr>dc_search := \<lambda>c q ids n f w.
        if ids = Some [''kb-9''] then (Inl ''leak'', w) else dc_search sample_client c q ids n f w\<rparr>)
     (Some [''kb-1'', ''kb-2'']) ''q'' False 7
   = (Inr (output_result ''document_search'' ''qkb-1kb-2''), 8)"
proof -
  let ?search = "\<lambda>c q ids n f w.
    if ids = Some [''kb-9''] then (Inl ''leak'', w) else dc_search sample_client c q ids n f w"
  have "execute_document_search (sample_client\<lparr>dc_search := ?search\<rparr>) (Some [''kb-1'', ''kb-2'']) ''q'' False 7
      = execute_document_search sample_client (Some [''kb-1'', ''kb-2'']) ''q'' False 7"
    by (rule document_search_confined) (auto simp: kb_within_def)
  also have "\<dots> = (Inr (output_result ''document_search'' ''qkb-1kb-2''), 8)" by code_simp
  finally show ?thesis .
qed

end
