(* ===== verification/ToolRuntime.thy ===== *)
theory ToolRuntime
  imports ToolExec
begin

text \<open>
  The executor of \<^verbatim>\<open>src/internal/domain/chat/agentic/toolexec.go\<close>: a single call (\<^verbatim>\<open>executeToolCall\<close>), a concurrent
  batch (\<^verbatim>\<open>executeParallel\<close>) as a machine whose steps are those of its goroutines in any order, and the sequence of the
  batches (\<^verbatim>\<open>ExecuteAll\<close>).
\<close>

section \<open>Tracked tools\<close>

datatype tool_state = ToolQueued | ToolExecuting | ToolCompleted | ToolStalled | ToolAborted

definition state_name :: "tool_state \<Rightarrow> string" where
  "state_name s =
     (case s of ToolQueued \<Rightarrow> ''queued'' | ToolExecuting \<Rightarrow> ''executing'' | ToolCompleted \<Rightarrow> ''completed''
      | ToolStalled \<Rightarrow> ''stalled'' | ToolAborted \<Rightarrow> ''aborted'')"

record tracked_tool =
  tt_id :: string
  tt_name :: string
  tt_input :: string
  tt_state :: tool_state
  tt_result :: "tool_exec_result option"
  tt_auto_collapse :: bool
  tt_block :: bool

definition new_tracked_tool :: "string \<Rightarrow> string \<Rightarrow> string \<Rightarrow> tracked_tool" where
  "new_tracked_tool i name input =
     \<lparr>tt_id = i, tt_name = name, tt_input = input, tt_state = ToolQueued, tt_result = None,
      tt_auto_collapse = False, tt_block = False\<rparr>"

definition tt_transition :: "tool_state \<Rightarrow> tracked_tool \<Rightarrow> tracked_tool" where
  "tt_transition s t = t\<lparr>tt_state := s\<rparr>"

definition tt_complete :: "tool_exec_result \<Rightarrow> tracked_tool \<Rightarrow> tracked_tool" where
  "tt_complete r t = t\<lparr>tt_result := Some r, tt_state := ToolCompleted\<rparr>"

definition tt_abort :: "tracked_tool \<Rightarrow> tracked_tool" where
  "tt_abort t = (if tt_state t = ToolQueued \<or> tt_state t = ToolExecuting then t\<lparr>tt_state := ToolAborted\<rparr> else t)"

definition progress_event :: "tool_state \<Rightarrow> tracked_tool \<Rightarrow> run_event" where
  "progress_event s t = ToolProgress (tt_id t) (tt_name t) (state_name s)"

section \<open>The executor\<close>

record 'w tool_hooks =
  th_pre :: "tool_call \<Rightarrow> 'w \<Rightarrow> 'w"
  th_post :: "tool_call \<Rightarrow> string \<Rightarrow> string option \<Rightarrow> 'w \<Rightarrow> string list \<times> 'w"
  th_failure :: "tool_call \<Rightarrow> string option \<Rightarrow> 'w \<Rightarrow> 'w"

text \<open>
  A service is told whether the context of the call is cancelled by the time it returns. \<open>xe_room\<close> is the capacity of the
  slice that holds an output, at least its length. \<open>xe_cap\<close> is \<^verbatim>\<open>ConcurrentReadTools\<close>. \<open>xs_cancelled\<close> is the context of the
  run; it is set from outside.
\<close>

type_synonym 'w tool_service = "tool_call \<Rightarrow> bool \<Rightarrow> 'w \<Rightarrow> (string, tool_exec_result) result \<times> 'w"

record 'w exec_env =
  xe_decode :: object_decoder
  xe_error_text :: "input_error \<Rightarrow> string"
  xe_digest :: "string \<Rightarrow> string"
  xe_redact :: "string \<Rightarrow> string"
  xe_room :: "string \<Rightarrow> nat"
  xe_cap :: nat
  xe_max_chars :: int
  xe_doc_search :: "'w tool_service option"
  xe_mcp :: "'w tool_service option"
  xe_skill :: "'w tool_service"
  xe_hooks :: "'w tool_hooks option"
  xe_read_only :: "string \<Rightarrow> bool"
  xe_schema :: "string \<Rightarrow> string option"
  xe_search_or_read :: "string \<Rightarrow> bool"
  xe_interrupt :: "string \<Rightarrow> string option"

record 'w exec_state =
  xs_tracked :: "tracked_tool list"
  xs_results :: "tool_exec_result list"
  xs_cache :: "tool_cache option"
  xs_cancelled :: bool
  xs_events :: "run_event list"
  xs_world :: 'w

definition track_call :: "'w exec_env \<Rightarrow> tool_call \<Rightarrow> tracked_tool" where
  "track_call env tc =
     (new_tracked_tool (tc_id tc) (tc_name tc) (tc_args tc))
       \<lparr>tt_auto_collapse := xe_search_or_read env (tc_name tc),
        tt_block := (xe_interrupt env (tc_name tc) = Some ''block'')\<rparr>"

definition xs_emit :: "run_event list \<Rightarrow> ('w, 'x) exec_state_scheme \<Rightarrow> ('w, 'x) exec_state_scheme" where
  "xs_emit evs st = st\<lparr>xs_events := xs_events st @ evs\<rparr>"

definition xs_track :: "nat \<Rightarrow> (tracked_tool \<Rightarrow> tracked_tool) \<Rightarrow> ('w, 'x) exec_state_scheme \<Rightarrow> ('w, 'x) exec_state_scheme" where
  "xs_track i f st = st\<lparr>xs_tracked := (xs_tracked st)[i := f (xs_tracked st ! i)]\<rparr>"

definition xs_store :: "nat \<Rightarrow> tool_exec_result \<Rightarrow> ('w, 'x) exec_state_scheme \<Rightarrow> ('w, 'x) exec_state_scheme" where
  "xs_store i r st = st\<lparr>xs_results := (xs_results st)[i := r]\<rparr>"

text \<open>\<^verbatim>\<open>emitToolResult\<close>.\<close>

definition result_event :: "'w exec_env \<Rightarrow> tracked_tool \<Rightarrow> tool_exec_result \<Rightarrow> run_event" where
  "result_event env t r = ToolResultEvent (tt_id t) (tt_name t) (xe_redact env (er_output r)) (er_error r)"

definition is_mcp_tool_call :: "string \<Rightarrow> bool" where
  "is_mcp_tool_call name = has_prefix name ''mcp__''"

definition doc_search_missing :: string where
  "doc_search_missing =
     ''Document search is not available for this agent. The knowledge base search client is not connected. ''
     @ ''Please check that the agent has an active knowledge base linked.''"

text \<open>Where a call is executed: the local document search, the MCP bridge, the skill runtime.\<close>

definition run_tool :: "'w exec_env \<Rightarrow> 'w tool_service" where
  "run_tool env tc cancelled w =
     (if tc_name tc = ''document_search''
      then (case xe_doc_search env of
              Some search \<Rightarrow> search tc cancelled w
            | None \<Rightarrow> (Inr (zero_result\<lparr>er_error := Some doc_search_missing\<rparr>), w))
      else case (is_mcp_tool_call (tc_name tc), xe_mcp env) of
             (True, Some mcp) \<Rightarrow> mcp tc cancelled w
           | _ \<Rightarrow> xe_skill env tc cancelled w)"

definition validation_error :: "'w exec_env \<Rightarrow> tool_call \<Rightarrow> tool_exec_result option" where
  "validation_error env tc =
     map_option (\<lambda>e. (error_result (tc_name tc) (xe_error_text env e))\<lparr>er_emitted := True\<rparr>)
       (validate_tool_input (xe_decode env) (tc_name tc) (tc_args tc)
          [case xe_schema env (tc_name tc) of None \<Rightarrow> '''' | Some s \<Rightarrow> s])"

definition pre_hook :: "'w exec_env \<Rightarrow> tool_call \<Rightarrow> 'w \<Rightarrow> 'w" where
  "pre_hook env tc w = (case xe_hooks env of None \<Rightarrow> w | Some h \<Rightarrow> th_pre h tc w)"

text \<open>The texts of the prompt hooks are joined by line feeds.\<close>

definition inject_texts :: "string list \<Rightarrow> tool_exec_result \<Rightarrow> tool_exec_result" where
  "inject_texts texts r =
     foldl (\<lambda>r t. if t = [] then r
                  else if er_inject r = [] then r\<lparr>er_inject := t\<rparr>
                  else r\<lparr>er_inject := er_inject r @ CHR 0x0A # t\<rparr>) r texts"

definition post_hook :: "'w exec_env \<Rightarrow> tool_call \<Rightarrow> tool_exec_result \<Rightarrow> 'w \<Rightarrow> tool_exec_result \<times> 'w" where
  "post_hook env tc r w =
     (case xe_hooks env of
        None \<Rightarrow> (r, w)
      | Some h \<Rightarrow> (case th_post h tc (er_output r) (er_error r) w of (texts, w') \<Rightarrow> (inject_texts texts r, w')))"

definition failure_hook :: "'w exec_env \<Rightarrow> tool_call \<Rightarrow> tool_exec_result \<Rightarrow> 'w \<Rightarrow> 'w" where
  "failure_hook env tc r w = (case xe_hooks env of None \<Rightarrow> w | Some h \<Rightarrow> th_failure h tc (er_error r) w)"

text \<open>
  \<^verbatim>\<open>truncateToolResult\<close> appends the note to a prefix of the output, in place when the slice has room for it: the result it was
  given, which the tracked tool and the cache keep, then has the note in the middle of its output.
\<close>

definition overwritten :: "'w exec_env \<Rightarrow> tool_exec_result \<Rightarrow> tool_exec_result" where
  "overwritten env r =
     (let m = xe_max_chars env; out = er_output r in
      if m \<le> 0 \<or> int (length out) \<le> m then r
      else let note = truncation_note m (length out);
               shown = nat (m - int (length note))
           in if shown + length note \<le> xe_room env out
              then r\<lparr>er_output := take (length out) (take shown out @ note @ drop (shown + length note) out)\<rparr>
              else r)"

section \<open>A call of its own\<close>

text \<open>
  \<^verbatim>\<open>executeToolCall\<close> for the call of index \<open>i\<close>; \<open>late\<close> says that the context of the run is cancelled during the call. The
  flag of the answer says that the call failed.
\<close>

definition execute_tool_call :: "'w exec_env \<Rightarrow> bool \<Rightarrow> nat \<Rightarrow> tool_call \<Rightarrow> 'w exec_state \<Rightarrow> bool \<times> 'w exec_state" where
  "execute_tool_call env late i tc st =
     (case validation_error env tc of
        Some r \<Rightarrow>
          let st1 = xs_store i r (xs_track i (tt_complete r) st);
              t = xs_tracked st1 ! i
          in (True, xs_emit [progress_event ToolCompleted t, result_event env t r] st1)
      | None \<Rightarrow>
          let st1 = xs_track i (tt_transition ToolExecuting) st;
              t = xs_tracked st1 ! i;
              st2 = xs_emit [progress_event ToolExecuting t] st1;
              w1 = pre_hook env tc (xs_world st2);
              cancelled = (late \<or> xs_cancelled st);
              (answer, w2) = run_tool env tc (\<not> tt_block t \<and> cancelled) w1;
              full = (case answer of Inl e \<Rightarrow> error_result (tc_name tc) e | Inr r \<Rightarrow> r\<lparr>er_tool_name := tc_name tc\<rparr>);
              failed = (case answer of Inl _ \<Rightarrow> True | Inr _ \<Rightarrow> False);
              r = truncate_tool_result full (xe_max_chars env);
              st3 = xs_emit [progress_event ToolCompleted t, result_event env t r] (xs_track i (tt_complete (overwritten env full)) st2);
              (r', w3) = post_hook env tc (r\<lparr>er_emitted := True\<rparr>) w2;
              w4 = (if failed then failure_hook env tc r' w3 else w3)
          in (failed, xs_store i r' (st3\<lparr>xs_cancelled := cancelled, xs_world := w4\<rparr>)))"

section \<open>A concurrent batch\<close>

text \<open>
  Where a goroutine of \<^verbatim>\<open>executeParallel\<close> is: started; waiting for a slot of the semaphore; with a slot, before the second
  look at the context; past it; marked as executing; in the call of the service; back from it; with its result set and its
  siblings aborted or the cache filled; with its events emitted; finished.
\<close>

datatype par_outcome = OutAborted | OutInvalid | OutCached | OutAnswered bool

datatype par_phase =
  Spawned | Waiting | Admitted | Accepted | Executing | Calling | Returned "(string, tool_exec_result) result"
| Settled bool | Reported bool | Finished par_outcome

record 'w par_state = "'w exec_state" +
  ps_phase :: "nat \<Rightarrow> par_phase"
  ps_slots :: nat
  ps_abort :: bool

definition start_parallel :: "'w exec_state \<Rightarrow> 'w par_state" where
  "start_parallel st = exec_state.extend st \<lparr>ps_phase = (\<lambda>_. Spawned), ps_slots = 0, ps_abort = False\<rparr>"

definition ps_enter :: "nat \<Rightarrow> par_phase \<Rightarrow> 'w par_state \<Rightarrow> 'w par_state" where
  "ps_enter i p s = s\<lparr>ps_phase := (ps_phase s)(i := p)\<rparr>"

definition ps_release :: "'w par_state \<Rightarrow> 'w par_state" where
  "ps_release s = s\<lparr>ps_slots := ps_slots s - 1\<rparr>"

definition abort_result :: tool_exec_result where
  "abort_result = error_result '''' ''aborted: sibling tool failed''"

definition abort_call :: "nat \<Rightarrow> 'w par_state \<Rightarrow> 'w par_state" where
  "abort_call i s =
     (let s1 = xs_track i tt_abort s
      in ps_enter i (Finished OutAborted)
           (xs_store i abort_result (xs_emit [progress_event ToolAborted (xs_tracked s1 ! i)] s1)))"

text \<open>The input is checked, and the cache asked when the tool's results are cached.\<close>

definition accept_call :: "'w exec_env \<Rightarrow> tool_call \<Rightarrow> nat \<Rightarrow> 'w par_state \<Rightarrow> 'w par_state" where
  "accept_call env tc i s =
     (case validation_error env tc of
        Some r \<Rightarrow>
          let s1 = xs_store i r (xs_track i (tt_complete r) s);
              t = xs_tracked s1 ! i
          in ps_release (ps_enter i (Finished OutInvalid) (xs_emit [progress_event ToolCompleted t, result_event env t r] s1))
      | None \<Rightarrow>
     (let (hit, cache') = (case xs_cache s of
                             Some c \<Rightarrow> if is_cacheable (tc_name tc)
                                       then map_prod id Some (cache_get (cache_key (xe_digest env) (tc_name tc) (tc_args tc)) c)
                                       else (None, Some c)
                           | None \<Rightarrow> (None, None));
          s0 = s\<lparr>xs_cache := cache'\<rparr>
      in case hit of
           Some cached \<Rightarrow>
             let r = (truncate_tool_result cached (xe_max_chars env))\<lparr>er_emitted := True\<rparr>;
                 s1 = xs_store i r (xs_track i (tt_complete (overwritten env cached)) s0);
                 t = xs_tracked s1 ! i
             in ps_release (ps_enter i (Finished OutCached) (xs_emit [progress_event ToolCompleted t, result_event env t r] s1))
         | None \<Rightarrow>
             let s1 = xs_track i (tt_transition ToolExecuting) s0
             in ps_enter i Executing (xs_emit [progress_event ToolExecuting (xs_tracked s1 ! i)] s1)))"

definition settle_call :: "'w exec_env \<Rightarrow> tool_call \<Rightarrow> nat \<Rightarrow> (string, tool_exec_result) result \<Rightarrow> 'w par_state \<Rightarrow> 'w par_state" where
  "settle_call env tc i answer s =
     (case answer of
        Inl e \<Rightarrow>
          let r = error_result '''' e
          in ps_enter i (Settled True)
               ((xs_store i (truncate_tool_result r (xe_max_chars env)) (xs_track i (tt_complete r) s))\<lparr>ps_abort := True\<rparr>)
      | Inr r \<Rightarrow>
          let full = overwritten env r;
              s1 = xs_store i (truncate_tool_result r (xe_max_chars env)) (xs_track i (tt_complete full) s)
          in ps_enter i (Settled False)
               (case xs_cache s1 of
                  Some c \<Rightarrow>
                    if is_cacheable (tc_name tc) \<and> er_error r = None
                    then s1\<lparr>xs_cache := Some (cache_put (cache_key (xe_digest env) (tc_name tc) (tc_args tc)) full c)\<rparr>
                    else s1
                | None \<Rightarrow> s1))"

definition report_call :: "'w exec_env \<Rightarrow> nat \<Rightarrow> bool \<Rightarrow> 'w par_state \<Rightarrow> 'w par_state" where
  "report_call env i failed s =
     (let t = xs_tracked s ! i; r = (xs_results s ! i)\<lparr>er_emitted := True\<rparr>
      in ps_enter i (Reported failed)
           (xs_emit [progress_event ToolCompleted t, result_event env t r] (xs_store i r s)))"

definition par_advance :: "'w exec_env \<Rightarrow> tool_call list \<Rightarrow> nat \<Rightarrow> 'w par_state \<Rightarrow> 'w par_state option" where
  "par_advance env tcs i s =
     (let tc = tcs ! i; stop = (ps_abort s \<or> xs_cancelled s) in
      case ps_phase s i of
        Spawned \<Rightarrow> Some (if stop then abort_call i s else ps_enter i Waiting s)
      | Waiting \<Rightarrow> if ps_slots s < xe_cap env then Some (ps_enter i Admitted (s\<lparr>ps_slots := ps_slots s + 1\<rparr>)) else None
      | Admitted \<Rightarrow> Some (if stop then ps_release (abort_call i s) else ps_enter i Accepted s)
      | Accepted \<Rightarrow> Some (accept_call env tc i s)
      | Executing \<Rightarrow> Some (ps_enter i Calling (s\<lparr>xs_world := pre_hook env tc (xs_world s)\<rparr>))
      | Calling \<Rightarrow>
          (case run_tool env tc (if tt_block (xs_tracked s ! i) then False else stop) (xs_world s) of
             (answer, w) \<Rightarrow> Some (ps_enter i (Returned answer) (s\<lparr>xs_world := w\<rparr>)))
      | Returned answer \<Rightarrow> Some (settle_call env tc i answer s)
      | Settled failed \<Rightarrow> Some (report_call env i failed s)
      | Reported failed \<Rightarrow>
          (case post_hook env tc (xs_results s ! i) (xs_world s) of
             (r, w) \<Rightarrow> Some (ps_release (ps_enter i (Finished (OutAnswered failed)) (xs_store i r (s\<lparr>xs_world := w\<rparr>)))))
      | Finished _ \<Rightarrow> None)"

text \<open>A move is the next step of a goroutine, the cancellation of the run, or something that happens outside.\<close>

datatype 'w par_move = Go nat | Cancel | Outside 'w

definition par_apply :: "'w exec_env \<Rightarrow> tool_call list \<Rightarrow> nat list \<Rightarrow> 'w par_move \<Rightarrow> 'w par_state \<Rightarrow> 'w par_state option" where
  "par_apply env tcs idx m s =
     (case m of
        Go i \<Rightarrow> if i \<in> set idx then par_advance env tcs i s else None
      | Cancel \<Rightarrow> Some (s\<lparr>xs_cancelled := True\<rparr>)
      | Outside w \<Rightarrow> Some (s\<lparr>xs_world := w\<rparr>))"

fun par_run :: "'w exec_env \<Rightarrow> tool_call list \<Rightarrow> nat list \<Rightarrow> 'w par_move list \<Rightarrow> 'w par_state \<Rightarrow> 'w par_state option" where
  "par_run env tcs idx [] s = Some s"
| "par_run env tcs idx (m # ms) s = (case par_apply env tcs idx m s of None \<Rightarrow> None | Some s' \<Rightarrow> par_run env tcs idx ms s')"

fun is_finished :: "par_phase \<Rightarrow> bool" where
  "is_finished (Finished _) = True"
| "is_finished _ = False"

definition all_finished :: "nat list \<Rightarrow> 'w par_state \<Rightarrow> bool" where
  "all_finished idx s = list_all (\<lambda>i. is_finished (ps_phase s i)) idx"

section \<open>All calls\<close>

definition cancel_call :: "nat \<Rightarrow> 'w exec_state \<Rightarrow> 'w exec_state" where
  "cancel_call i st =
     (let st1 = xs_track i tt_abort st
      in xs_store i (error_result '''' ''aborted: context cancelled'')
           (xs_emit [progress_event ToolAborted (xs_tracked st1 ! i)] st1))"

text \<open>One call of a serial batch.\<close>

definition serial_call :: "'w exec_env \<Rightarrow> tool_call list \<Rightarrow> bool \<Rightarrow> nat \<Rightarrow> 'w exec_state \<Rightarrow> 'w exec_state" where
  "serial_call env tcs late i st =
     (if xs_cancelled st then cancel_call i st else snd (execute_tool_call env late i (tcs ! i) st))"

definition queue_events :: "tracked_tool \<Rightarrow> run_event list" where
  "queue_events t = [ToolCallStart (tt_id t) (tt_name t) (tt_input t), progress_event ToolQueued t]"

definition initial_exec :: "'w exec_env \<Rightarrow> tool_call list \<Rightarrow> tool_cache option \<Rightarrow> bool \<Rightarrow> 'w \<Rightarrow> 'w exec_state" where
  "initial_exec env tcs cache cancelled w =
     \<lparr>xs_tracked = map (track_call env) tcs, xs_results = replicate (length tcs) zero_result, xs_cache = cache,
      xs_cancelled = cancelled, xs_events = concat (map (queue_events \<circ> track_call env) tcs), xs_world = w\<rparr>"

text \<open>
  The loop of \<^verbatim>\<open>ExecuteAll\<close> over the batches, whose outcome depends on the schedule of the concurrent ones and on when the
  run is cancelled.
\<close>

definition runs_concurrently :: "tool_batch \<Rightarrow> bool" where
  "runs_concurrently b = (tb_safe b \<and> 1 < length (tb_indices b))"

inductive exec_serial :: "'w exec_env \<Rightarrow> tool_call list \<Rightarrow> nat list \<Rightarrow> 'w exec_state \<Rightarrow> 'w exec_state \<Rightarrow> bool"
  for env :: "'w exec_env" and tcs :: "tool_call list" where
  serial_done: "exec_serial env tcs [] st st"
| serial_interrupt: "exec_serial env tcs is (st\<lparr>xs_cancelled := True\<rparr>) st' \<Longrightarrow> exec_serial env tcs is st st'"
| serial_next: "exec_serial env tcs is (serial_call env tcs late i st) st' \<Longrightarrow> exec_serial env tcs (i # is) st st'"

inductive exec_batches :: "'w exec_env \<Rightarrow> tool_call list \<Rightarrow> tool_batch list \<Rightarrow> 'w exec_state \<Rightarrow> 'w exec_state \<Rightarrow> bool"
  for env :: "'w exec_env" and tcs :: "tool_call list" where
  batches_done: "exec_batches env tcs [] st st"
| batch_serial:
    "\<not> runs_concurrently b \<Longrightarrow> exec_serial env tcs (tb_indices b) st st' \<Longrightarrow> exec_batches env tcs bs st' st''
     \<Longrightarrow> exec_batches env tcs (b # bs) st st''"
| batch_parallel:
    "runs_concurrently b \<Longrightarrow> par_run env tcs (tb_indices b) ms (start_parallel st) = Some s
     \<Longrightarrow> all_finished (tb_indices b) s \<Longrightarrow> exec_batches env tcs bs (exec_state.truncate s) st''
     \<Longrightarrow> exec_batches env tcs (b # bs) st st''"

definition execute_all ::
  "'w exec_env \<Rightarrow> tool_call list \<Rightarrow> tool_cache option \<Rightarrow> bool \<Rightarrow> 'w \<Rightarrow> 'w exec_state \<Rightarrow> bool" where
  "execute_all env tcs cache cancelled w st' \<longleftrightarrow>
     exec_batches env tcs (partition_tool_calls (xe_read_only env) tcs) (initial_exec env tcs cache cancelled w) st'"

section \<open>The invariant of a concurrent batch\<close>

fun holds_slot :: "par_phase \<Rightarrow> bool" where
  "holds_slot Spawned = False"
| "holds_slot Waiting = False"
| "holds_slot (Finished _) = False"
| "holds_slot _ = True"

fun has_failed :: "par_phase \<Rightarrow> bool" where
  "has_failed (Settled f) = f"
| "has_failed (Reported f) = f"
| "has_failed (Finished (OutAnswered f)) = f"
| "has_failed _ = False"

fun has_reported :: "par_phase \<Rightarrow> bool" where
  "has_reported (Reported _) = True"
| "has_reported (Finished out) = (out \<noteq> OutAborted)"
| "has_reported _ = False"

text \<open>The steps a goroutine has left at most.\<close>

fun steps_left :: "par_phase \<Rightarrow> nat" where
  "steps_left Spawned = 9"
| "steps_left Waiting = 8"
| "steps_left Admitted = 7"
| "steps_left Accepted = 6"
| "steps_left Executing = 5"
| "steps_left Calling = 4"
| "steps_left (Returned _) = 3"
| "steps_left (Settled _) = 2"
| "steps_left (Reported _) = 1"
| "steps_left (Finished _) = 0"

text \<open>What the phase of a call says of its tracked tool and its result.\<close>

fun phase_ok :: "'w exec_env \<Rightarrow> tool_call \<Rightarrow> par_phase \<Rightarrow> tracked_tool \<Rightarrow> tool_exec_result \<Rightarrow> bool" where
  "phase_ok env tc (Settled f) t r = (tt_state t = ToolCompleted \<and> (f \<longrightarrow> er_error r \<noteq> None))"
| "phase_ok env tc (Reported f) t r = (tt_state t = ToolCompleted \<and> er_emitted r \<and> (f \<longrightarrow> er_error r \<noteq> None))"
| "phase_ok env tc (Finished OutAborted) t r = (tt_state t = ToolAborted \<and> r = abort_result)"
| "phase_ok env tc (Finished OutInvalid) t r = (tt_state t = ToolCompleted \<and> validation_error env tc = Some r)"
| "phase_ok env tc (Finished OutCached) t r = (tt_state t = ToolCompleted \<and> er_emitted r)"
| "phase_ok env tc (Finished (OutAnswered f)) t r =
     (tt_state t = ToolCompleted \<and> er_emitted r \<and> (f \<longrightarrow> er_error r \<noteq> None))"
| "phase_ok env tc Executing t r = (tt_state t = ToolExecuting \<and> r = zero_result)"
| "phase_ok env tc Calling t r = (tt_state t = ToolExecuting \<and> r = zero_result)"
| "phase_ok env tc (Returned _) t r = (tt_state t = ToolExecuting \<and> r = zero_result)"
| "phase_ok env tc _ t r = (t = track_call env tc \<and> r = zero_result)"

definition call_ok :: "'w exec_env \<Rightarrow> tool_call \<Rightarrow> par_phase \<Rightarrow> tracked_tool \<Rightarrow> tool_exec_result \<Rightarrow> bool" where
  "call_ok env tc p t r \<longleftrightarrow>
     tt_id t = tc_id tc \<and> tt_name t = tc_name tc \<and> phase_ok env tc p t r"

fun is_result :: "run_event \<Rightarrow> bool" where
  "is_result (ToolResultEvent _ _ _ _) = True"
| "is_result _ = False"

definition call_result_event :: "'w exec_env \<Rightarrow> tool_call \<Rightarrow> tool_exec_result \<Rightarrow> run_event" where
  "call_result_event env tc r = ToolResultEvent (tc_id tc) (tc_name tc) (xe_redact env (er_output r)) (er_error r)"

abbreviation held :: "par_phase \<Rightarrow> nat" where
  "held p \<equiv> of_bool (holds_slot p)"

text \<open>What a step of the goroutine \<open>i\<close> changes: its own tool, result and phase, and its share of what is common.\<close>

definition local_change :: "'w exec_env \<Rightarrow> tool_call list \<Rightarrow> nat \<Rightarrow> 'w par_state \<Rightarrow> 'w par_state \<Rightarrow> bool" where
  "local_change env tcs i s s' \<longleftrightarrow>
     (let p = ps_phase s' i; t = xs_tracked s' ! i; r = xs_results s' ! i in
     length (xs_tracked s') = length (xs_tracked s) \<and> length (xs_results s') = length (xs_results s)
     \<and> (\<forall>j. j \<noteq> i \<longrightarrow> ps_phase s' j = ps_phase s j \<and> xs_tracked s' ! j = xs_tracked s ! j \<and> xs_results s' ! j = xs_results s ! j)
     \<and> call_ok env (tcs ! i) p t r \<and> steps_left p < steps_left (ps_phase s i)
     \<and> ps_slots s' = ps_slots s + held p - held (ps_phase s i) \<and> (ps_slots s' \<le> ps_slots s \<or> ps_slots s' \<le> xe_cap env)
     \<and> (ps_abort s' \<longleftrightarrow> ps_abort s \<or> has_failed p \<and> \<not> has_failed (ps_phase s i)) \<and> (has_failed (ps_phase s i) \<longrightarrow> has_failed p)
     \<and> (p = Finished OutAborted \<longrightarrow> ps_abort s \<or> xs_cancelled s) \<and> xs_cancelled s' = xs_cancelled s
     \<and> filter is_result (xs_events s')
       = filter is_result (xs_events s) @ (if has_reported p \<and> \<not> has_reported (ps_phase s i) then [call_result_event env (tcs ! i) r] else [])
     \<and> (has_reported (ps_phase s i) \<longrightarrow> has_reported p \<and> er_output r = er_output (xs_results s ! i) \<and> er_error r = er_error (xs_results s ! i)))"

lemmas xs_defs = xs_track_def xs_store_def xs_emit_def ps_enter_def ps_release_def

lemma progress_no_result [simp]: "\<not> is_result (progress_event st t)"
  by (simp add: progress_event_def)

lemma call_result_event_result [simp]: "is_result (call_result_event env tc r)"
  by (simp add: call_result_event_def)

lemma result_event_call: "tt_id t = tc_id tc \<Longrightarrow> tt_name t = tc_name tc \<Longrightarrow> result_event env t r = call_result_event env tc r"
  by (simp add: result_event_def call_result_event_def)

lemma tracked_simps [simp]:
  "tt_id (tt_complete r t) = tt_id t" "tt_name (tt_complete r t) = tt_name t" "tt_state (tt_complete r t) = ToolCompleted"
  "tt_block (tt_complete r t) = tt_block t" "tt_id (tt_transition s t) = tt_id t" "tt_name (tt_transition s t) = tt_name t"
  "tt_state (tt_transition s t) = s" "tt_block (tt_transition s t) = tt_block t" "tt_id (tt_abort t) = tt_id t"
  "tt_name (tt_abort t) = tt_name t" "tt_block (tt_abort t) = tt_block t"
  by (simp_all add: tt_complete_def tt_transition_def tt_abort_def)

lemma track_call_simps [simp]:
  "tt_id (track_call env tc) = tc_id tc" "tt_name (track_call env tc) = tc_name tc" "tt_state (track_call env tc) = ToolQueued"
  by (simp_all add: track_call_def new_tracked_tool_def)

lemma inject_texts_simps [simp]:
  "er_output (inject_texts ts r) = er_output r" "er_error (inject_texts ts r) = er_error r"
  "er_emitted (inject_texts ts r) = er_emitted r"
  by (induction ts arbitrary: r) (simp_all add: inject_texts_def)

lemma post_hook_simps [simp]:
  "er_output (fst (post_hook env tc r w)) = er_output r" "er_error (fst (post_hook env tc r w)) = er_error r"
  "er_emitted (fst (post_hook env tc r w)) = er_emitted r"
  by (simp_all add: post_hook_def split: option.splits prod.splits)

lemma truncate_error [simp]: "er_error (truncate_tool_result r m) = er_error r"
  by (simp add: truncate_tool_result_def Let_def)

lemma validation_error_emitted: "validation_error env tc = Some r \<Longrightarrow> er_emitted r"
  by (auto simp: validation_error_def)

lemma abort_local:
  assumes "call_ok env (tcs ! i) (ps_phase s i) (xs_tracked s ! i) (xs_results s ! i)"
    and "i < length (xs_tracked s)" "i < length (xs_results s)" and "ps_abort s \<or> xs_cancelled s"
  shows "ps_phase s i = Spawned \<Longrightarrow> local_change env tcs i s (abort_call i s)"
    and "ps_phase s i = Admitted \<Longrightarrow> local_change env tcs i s (ps_release (abort_call i s))"
  using assms
  by (auto simp: local_change_def abort_call_def xs_defs call_ok_def Let_def tt_abort_def)

lemma accept_local:
  assumes "call_ok env (tcs ! i) (ps_phase s i) (xs_tracked s ! i) (xs_results s ! i)"
    and "i < length (xs_tracked s)" "i < length (xs_results s)" and "ps_phase s i = Accepted"
  shows "local_change env tcs i s (accept_call env (tcs ! i) i s)"
proof (cases "validation_error env (tcs ! i)")
  case (Some r)
  with assms show ?thesis
    by (auto simp: local_change_def accept_call_def xs_defs call_ok_def Let_def result_event_call)
next
  case None
  with assms show ?thesis
    by (auto simp: local_change_def accept_call_def xs_defs call_ok_def Let_def result_event_call
        split: option.splits prod.splits)
qed

lemma settle_local:
  assumes "call_ok env (tcs ! i) (ps_phase s i) (xs_tracked s ! i) (xs_results s ! i)"
    and "i < length (xs_tracked s)" "i < length (xs_results s)" and "ps_phase s i = Returned answer"
  shows "local_change env tcs i s (settle_call env (tcs ! i) i answer s)"
  using assms
  by (cases answer; cases "xs_cache s")
    (auto simp: local_change_def settle_call_def xs_defs call_ok_def Let_def error_result_def)

lemma report_local:
  assumes "call_ok env (tcs ! i) (ps_phase s i) (xs_tracked s ! i) (xs_results s ! i)"
    and "i < length (xs_tracked s)" "i < length (xs_results s)" and "ps_phase s i = Settled failed"
  shows "local_change env tcs i s (report_call env i failed s)"
  using assms by (auto simp: local_change_def report_call_def xs_defs call_ok_def Let_def result_event_call)

lemma finish_local:
  assumes "call_ok env (tcs ! i) (ps_phase s i) (xs_tracked s ! i) (xs_results s ! i)"
    and "i < length (xs_tracked s)" "i < length (xs_results s)" and "ps_phase s i = Reported failed"
    and "post_hook env (tcs ! i) (xs_results s ! i) (xs_world s) = (r, w)"
  shows "local_change env tcs i s
    (ps_release (ps_enter i (Finished (OutAnswered failed)) (xs_store i r (s\<lparr>xs_world := w\<rparr>))))"
proof -
  have "er_output r = er_output (xs_results s ! i)" "er_error r = er_error (xs_results s ! i)"
    "er_emitted r = er_emitted (xs_results s ! i)"
    using post_hook_simps [of env "tcs ! i" "xs_results s ! i" "xs_world s"] assms(5) by simp_all
  with assms show ?thesis by (auto simp: local_change_def xs_defs call_ok_def Let_def)
qed

lemma advance_local:
  assumes adv: "par_advance env tcs i s = Some s'"
    and ok: "call_ok env (tcs ! i) (ps_phase s i) (xs_tracked s ! i) (xs_results s ! i)"
    and i: "i < length (xs_tracked s)" "i < length (xs_results s)"
  shows "local_change env tcs i s s'"
proof (cases "ps_phase s i")
  case Spawned
  show ?thesis
  proof (cases "ps_abort s \<or> xs_cancelled s")
    case True
    with adv Spawned abort_local(1) [OF ok i] show ?thesis by (simp add: par_advance_def)
  next
    case False
    with adv Spawned have "s' = ps_enter i Waiting s" by (simp add: par_advance_def)
    with Spawned ok i show ?thesis by (simp add: local_change_def xs_defs call_ok_def)
  qed
next
  case Waiting
  with adv ok i show ?thesis
    by (auto simp: par_advance_def Let_def local_change_def xs_defs call_ok_def split: if_splits)
next
  case Admitted
  show ?thesis
  proof (cases "ps_abort s \<or> xs_cancelled s")
    case True
    with adv Admitted abort_local(2) [OF ok i] show ?thesis by (simp add: par_advance_def)
  next
    case False
    with adv Admitted have "s' = ps_enter i Accepted s" by (simp add: par_advance_def)
    with Admitted ok i show ?thesis by (simp add: local_change_def xs_defs call_ok_def)
  qed
next
  case Accepted
  with adv accept_local [OF ok i] show ?thesis by (simp add: par_advance_def Let_def)
next
  case Executing
  with adv ok i show ?thesis by (auto simp: par_advance_def Let_def local_change_def xs_defs call_ok_def)
next
  case Calling
  with adv ok i show ?thesis
    by (auto simp: par_advance_def Let_def local_change_def xs_defs call_ok_def split: prod.splits)
next
  case (Returned answer)
  with adv settle_local [OF ok i] show ?thesis by (simp add: par_advance_def Let_def)
next
  case (Settled failed)
  with adv report_local [OF ok i] show ?thesis by (simp add: par_advance_def Let_def)
next
  case (Reported failed)
  with adv finish_local [OF ok i] show ?thesis by (auto simp: par_advance_def Let_def split: prod.splits)
next
  case (Finished out)
  with adv show ?thesis by (simp add: par_advance_def Let_def)
qed

lemma sum_change:
  fixes f g :: "'a \<Rightarrow> 'b::comm_monoid_add"
  assumes "finite A" "i \<in> A" "\<And>j. j \<in> A \<Longrightarrow> j \<noteq> i \<Longrightarrow> g j = f j"
  shows "sum g A + f i = sum f A + g i"
proof -
  have "sum g (A - {i}) = sum f (A - {i})" using assms(3) by (intro sum.cong) auto
  then show ?thesis using assms(1,2) by (simp add: sum.remove ac_simps)
qed

definition slots_held :: "nat list \<Rightarrow> 'w par_state \<Rightarrow> nat" where
  "slots_held idx s = (\<Sum>i\<in>set idx. held (ps_phase s i))"

definition par_left :: "nat list \<Rightarrow> 'w par_state \<Rightarrow> nat" where
  "par_left idx s = (\<Sum>i\<in>set idx. steps_left (ps_phase s i))"

definition reported_event :: "'w exec_env \<Rightarrow> tool_call list \<Rightarrow> 'w par_state \<Rightarrow> nat \<Rightarrow> run_event multiset" where
  "reported_event env tcs s i =
     (if has_reported (ps_phase s i) then {#call_result_event env (tcs ! i) (xs_results s ! i)#} else {#})"

definition reported_events :: "'w exec_env \<Rightarrow> tool_call list \<Rightarrow> nat list \<Rightarrow> 'w par_state \<Rightarrow> run_event multiset" where
  "reported_events env tcs idx s = (\<Sum>i\<in>set idx. reported_event env tcs s i)"

abbreviation result_events :: "('w, 'x) exec_state_scheme \<Rightarrow> run_event multiset" where
  "result_events s \<equiv> mset (filter is_result (xs_events s))"

definition batch_inv :: "'w exec_env \<Rightarrow> tool_call list \<Rightarrow> nat list \<Rightarrow> 'w exec_state \<Rightarrow> 'w par_state \<Rightarrow> bool" where
  "batch_inv env tcs idx st s \<longleftrightarrow>
     length (xs_tracked s) = length (xs_tracked st) \<and> length (xs_results s) = length (xs_results st)
     \<and> (\<forall>i\<in>set idx. i < length (xs_tracked s) \<and> i < length (xs_results s)
          \<and> call_ok env (tcs ! i) (ps_phase s i) (xs_tracked s ! i) (xs_results s ! i))
     \<and> (\<forall>j. j \<notin> set idx \<longrightarrow> xs_tracked s ! j = xs_tracked st ! j \<and> xs_results s ! j = xs_results st ! j)
     \<and> ps_slots s = slots_held idx s \<and> ps_slots s \<le> xe_cap env
     \<and> (ps_abort s \<longleftrightarrow> (\<exists>i\<in>set idx. has_failed (ps_phase s i)))
     \<and> ((\<exists>i\<in>set idx. ps_phase s i = Finished OutAborted) \<longrightarrow> ps_abort s \<or> xs_cancelled s)
     \<and> (xs_cancelled st \<longrightarrow> xs_cancelled s)
     \<and> result_events s = result_events st + reported_events env tcs idx s"

text \<open>What a batch finds before it starts.\<close>

definition batch_ready :: "'w exec_env \<Rightarrow> tool_call list \<Rightarrow> nat list \<Rightarrow> 'w exec_state \<Rightarrow> bool" where
  "batch_ready env tcs idx st \<longleftrightarrow>
     (\<forall>i\<in>set idx. i < length (xs_tracked st) \<and> i < length (xs_results st)
        \<and> xs_tracked st ! i = track_call env (tcs ! i) \<and> xs_results st ! i = zero_result)"

lemma start_parallel_simps [simp]:
  "xs_tracked (start_parallel st) = xs_tracked st" "xs_results (start_parallel st) = xs_results st"
  "xs_events (start_parallel st) = xs_events st" "xs_cancelled (start_parallel st) = xs_cancelled st"
  "ps_phase (start_parallel st) = (\<lambda>_. Spawned)" "ps_slots (start_parallel st) = 0" "\<not> ps_abort (start_parallel st)"
  by (simp_all add: start_parallel_def exec_state.extend_def)

lemma batch_inv_start: "batch_ready env tcs idx st \<Longrightarrow> batch_inv env tcs idx st (start_parallel st)"
  by (auto simp: batch_inv_def batch_ready_def call_ok_def slots_held_def reported_events_def reported_event_def)

lemma local_left:
  assumes "local_change env tcs i s s'" and "i \<in> set idx"
  shows "par_left idx s' < par_left idx s"
proof -
  have "par_left idx s' + steps_left (ps_phase s i) = par_left idx s + steps_left (ps_phase s' i)"
    unfolding par_left_def by (rule sum_change) (use assms in \<open>auto simp: local_change_def Let_def\<close>)
  moreover have "steps_left (ps_phase s' i) < steps_left (ps_phase s i)" using assms(1) by (simp add: local_change_def Let_def)
  ultimately show ?thesis by linarith
qed

lemma local_slots:
  assumes "local_change env tcs i s s'" and "i \<in> set idx" and "ps_slots s = slots_held idx s"
  shows "ps_slots s' = slots_held idx s'"
proof -
  have "slots_held idx s' + held (ps_phase s i) = slots_held idx s + held (ps_phase s' i)"
    unfolding slots_held_def by (rule sum_change) (use assms in \<open>auto simp: local_change_def Let_def\<close>)
  then show ?thesis using assms(1,3) by (simp add: local_change_def Let_def)
qed

lemma local_events:
  assumes "local_change env tcs i s s'" and "i \<in> set idx" and "result_events s = E + reported_events env tcs idx s"
  shows "result_events s' = E + reported_events env tcs idx s'"
proof -
  have "reported_events env tcs idx s' + reported_event env tcs s i = reported_events env tcs idx s + reported_event env tcs s' i"
    unfolding reported_events_def
    by (rule sum_change) (use assms in \<open>auto simp: local_change_def Let_def reported_event_def\<close>)
  moreover have "result_events s' + reported_event env tcs s i = result_events s + reported_event env tcs s' i"
    using assms(1) by (auto simp: local_change_def Let_def reported_event_def call_result_event_def)
  ultimately have "result_events s' + reported_event env tcs s i = E + reported_events env tcs idx s' + reported_event env tcs s i"
    using assms(3) by (simp add: ac_simps)
  then show ?thesis by simp
qed

lemma batch_inv_local:
  assumes inv: "batch_inv env tcs idx st s" and ch: "local_change env tcs i s s'" and i: "i \<in> set idx"
  shows "batch_inv env tcs idx st s'"
proof -
  have eq: "ps_phase s' j = ps_phase s j" "xs_tracked s' ! j = xs_tracked s ! j" "xs_results s' ! j = xs_results s ! j" if "j \<noteq> i" for j
    using ch that by (simp_all add: local_change_def Let_def)
  have len: "length (xs_tracked s') = length (xs_tracked s)" "length (xs_results s') = length (xs_results s)"
    using ch by (simp_all add: local_change_def Let_def)
  have a: "length (xs_tracked s') = length (xs_tracked st) \<and> length (xs_results s') = length (xs_results st)"
    using inv len by (simp add: batch_inv_def)
  have b: "\<forall>j\<in>set idx. j < length (xs_tracked s') \<and> j < length (xs_results s')
      \<and> call_ok env (tcs ! j) (ps_phase s' j) (xs_tracked s' ! j) (xs_results s' ! j)"
  proof
    fix j assume j: "j \<in> set idx"
    have "call_ok env (tcs ! i) (ps_phase s' i) (xs_tracked s' ! i) (xs_results s' ! i)"
      using ch by (simp add: local_change_def Let_def)
    moreover have "j < length (xs_tracked s) \<and> j < length (xs_results s)
        \<and> call_ok env (tcs ! j) (ps_phase s j) (xs_tracked s ! j) (xs_results s ! j)"
      using inv j unfolding batch_inv_def by blast
    ultimately show "j < length (xs_tracked s') \<and> j < length (xs_results s')
        \<and> call_ok env (tcs ! j) (ps_phase s' j) (xs_tracked s' ! j) (xs_results s' ! j)"
      using eq len by (cases "j = i") simp_all
  qed
  have c: "\<forall>j. j \<notin> set idx \<longrightarrow> xs_tracked s' ! j = xs_tracked st ! j \<and> xs_results s' ! j = xs_results st ! j"
  proof (intro allI impI)
    fix j assume j: "j \<notin> set idx"
    with i have "j \<noteq> i" by blast
    moreover have "xs_tracked s ! j = xs_tracked st ! j \<and> xs_results s ! j = xs_results st ! j"
      using inv j unfolding batch_inv_def by blast
    ultimately show "xs_tracked s' ! j = xs_tracked st ! j \<and> xs_results s' ! j = xs_results st ! j" using eq by simp
  qed
  have d: "ps_slots s' = slots_held idx s'" using local_slots [OF ch i] inv by (simp add: batch_inv_def)
  have e: "ps_slots s' \<le> xe_cap env"
  proof -
    have "ps_slots s \<le> xe_cap env" using inv unfolding batch_inv_def by blast
    moreover have "ps_slots s' \<le> ps_slots s \<or> ps_slots s' \<le> xe_cap env" using ch unfolding local_change_def Let_def by blast
    ultimately show ?thesis by linarith
  qed
  have ab: "ps_abort s' \<longleftrightarrow> ps_abort s \<or> has_failed (ps_phase s' i) \<and> \<not> has_failed (ps_phase s i)"
    "has_failed (ps_phase s i) \<longrightarrow> has_failed (ps_phase s' i)" "xs_cancelled s' = xs_cancelled s"
    "ps_phase s' i = Finished OutAborted \<longrightarrow> ps_abort s \<or> xs_cancelled s"
    using ch unfolding local_change_def Let_def by blast+
  have f: "ps_abort s' \<longleftrightarrow> (\<exists>j\<in>set idx. has_failed (ps_phase s' j))"
  proof -
    have old: "ps_abort s \<longleftrightarrow> (\<exists>j\<in>set idx. has_failed (ps_phase s j))" using inv unfolding batch_inv_def by blast
    show ?thesis
    proof
      assume "ps_abort s'"
      then show "\<exists>j\<in>set idx. has_failed (ps_phase s' j)" using ab old i eq(1) by metis
    next
      assume "\<exists>j\<in>set idx. has_failed (ps_phase s' j)"
      then obtain j where "j \<in> set idx" "has_failed (ps_phase s' j)" by blast
      then show "ps_abort s'" using ab old i eq(1) [of j] by (cases "j = i") auto
    qed
  qed
  have g: "(\<exists>j\<in>set idx. ps_phase s' j = Finished OutAborted) \<longrightarrow> ps_abort s' \<or> xs_cancelled s'"
  proof
    assume "\<exists>j\<in>set idx. ps_phase s' j = Finished OutAborted"
    then obtain j where j: "j \<in> set idx" "ps_phase s' j = Finished OutAborted" by blast
    have "(\<exists>j\<in>set idx. ps_phase s j = Finished OutAborted) \<longrightarrow> ps_abort s \<or> xs_cancelled s"
      using inv unfolding batch_inv_def by blast
    with j have "ps_abort s \<or> xs_cancelled s" using ab(4) eq(1) [of j] by (cases "j = i") auto
    then show "ps_abort s' \<or> xs_cancelled s'" using ab by blast
  qed
  have h: "xs_cancelled st \<longrightarrow> xs_cancelled s'" using inv ab(3) unfolding batch_inv_def by simp
  have k: "result_events s' = result_events st + reported_events env tcs idx s'"
    by (rule local_events [OF ch i]) (use inv in \<open>simp add: batch_inv_def\<close>)
  show ?thesis unfolding batch_inv_def
    by (intro conjI a [THEN conjunct1] a [THEN conjunct2]) (fact b c d e f g h k)+
qed

lemma reported_event_outside [simp]:
  "reported_event env tcs (s\<lparr>xs_cancelled := b\<rparr>) i = reported_event env tcs s i"
  "reported_event env tcs (s\<lparr>xs_world := w\<rparr>) i = reported_event env tcs s i"
  by (cases "has_reported (ps_phase s i)"; simp add: reported_event_def)+

lemma outside_simps [simp]:
  "slots_held idx (s\<lparr>xs_cancelled := b\<rparr>) = slots_held idx s" "slots_held idx (s\<lparr>xs_world := w\<rparr>) = slots_held idx s"
  "reported_events env tcs idx (s\<lparr>xs_cancelled := b\<rparr>) = reported_events env tcs idx s"
  "reported_events env tcs idx (s\<lparr>xs_world := w\<rparr>) = reported_events env tcs idx s"
  by (simp_all add: slots_held_def reported_events_def)

lemma batch_inv_outside: "batch_inv env tcs idx st s \<Longrightarrow> batch_inv env tcs idx st (s\<lparr>xs_cancelled := True\<rparr>)"
  "batch_inv env tcs idx st s \<Longrightarrow> batch_inv env tcs idx st (s\<lparr>xs_world := w\<rparr>)"
  by (unfold batch_inv_def, (elim conjE, intro conjI; simp)+)

fun is_go :: "'w par_move \<Rightarrow> bool" where
  "is_go (Go _) = True"
| "is_go _ = False"

lemma par_run_inv:
  assumes "par_run env tcs idx ms s = Some s'" and "batch_inv env tcs idx st s"
  shows "batch_inv env tcs idx st s' \<and> par_left idx s' + length (filter is_go ms) \<le> par_left idx s"
  using assms
proof (induction ms arbitrary: s)
  case Nil
  then show ?case by simp
next
  case (Cons m ms)
  then obtain s1 where s1: "par_apply env tcs idx m s = Some s1" and run: "par_run env tcs idx ms s1 = Some s'"
    by (auto split: option.splits)
  show ?case
  proof (cases m)
    case (Go i)
    with s1 have i: "i \<in> set idx" and adv: "par_advance env tcs i s = Some s1" by (auto simp: par_apply_def split: if_splits)
    from Cons.prems(2) i have "i < length (xs_tracked s) \<and> i < length (xs_results s)
        \<and> call_ok env (tcs ! i) (ps_phase s i) (xs_tracked s ! i) (xs_results s ! i)" unfolding batch_inv_def by blast
    with adv have ch: "local_change env tcs i s s1" by (blast intro: advance_local)
    from Cons.IH [OF run batch_inv_local [OF Cons.prems(2) ch i]] local_left [OF ch i] Go show ?thesis by simp
  next
    case Cancel
    with s1 have "s1 = s\<lparr>xs_cancelled := True\<rparr>" by (simp add: par_apply_def)
    with Cons.IH [OF run] batch_inv_outside(1) [OF Cons.prems(2)] Cancel show ?thesis by (simp add: par_left_def)
  next
    case (Outside w)
    with s1 have "s1 = s\<lparr>xs_world := w\<rparr>" by (simp add: par_apply_def)
    with Cons.IH [OF run] batch_inv_outside(2) [OF Cons.prems(2)] Outside show ?thesis by (simp add: par_left_def)
  qed
qed

lemmas batch_run_inv = par_run_inv [OF _ batch_inv_start]

lemma advance_blocked:
  "par_advance env tcs i s = None \<longleftrightarrow> is_finished (ps_phase s i) \<or> ps_phase s i = Waiting \<and> xe_cap env \<le> ps_slots s"
  by (cases "ps_phase s i") (auto simp: par_advance_def Let_def split: prod.splits)

lemma progress:
  assumes "batch_inv env tcs idx st s" and "0 < xe_cap env" and "\<And>i. i \<in> set idx \<Longrightarrow> par_advance env tcs i s = None"
  shows "all_finished idx s"
proof (rule ccontr)
  assume "\<not> all_finished idx s"
  then obtain i where "i \<in> set idx" "\<not> is_finished (ps_phase s i)" by (auto simp: all_finished_def list_all_iff)
  with assms(3) have full: "xe_cap env \<le> ps_slots s" by (auto simp: advance_blocked)
  have "held (ps_phase s j) = 0" if "j \<in> set idx" for j
    using assms(3) [OF that] by (cases "ps_phase s j") (auto simp: advance_blocked)
  then have "slots_held idx s = 0" by (simp add: slots_held_def)
  then have "ps_slots s = 0" using assms(1) by (simp add: batch_inv_def)
  with full assms(2) show False by simp
qed

text \<open>
  C6: while the calls of a concurrent batch run, in whatever order their goroutines take their steps, never more of them than
  the limit hold a slot, and those that are in a tool are among them.
\<close>

theorem parallel_calls_bounded:
  assumes "batch_ready env tcs idx st" and "par_run env tcs idx ms (start_parallel st) = Some s"
  shows "card {i \<in> set idx. holds_slot (ps_phase s i)} \<le> xe_cap env
    \<and> card {i \<in> set idx. ps_phase s i = Calling} \<le> xe_cap env"
proof -
  from batch_run_inv [OF assms(2,1)] have "slots_held idx s \<le> xe_cap env" by (simp add: batch_inv_def)
  moreover have "slots_held idx s = card {i \<in> set idx. holds_slot (ps_phase s i)}"
    by (simp add: slots_held_def of_bool_def sum.If_cases Int_def)
  ultimately have held: "card {i \<in> set idx. holds_slot (ps_phase s i)} \<le> xe_cap env" by simp
  have "{i \<in> set idx. ps_phase s i = Calling} \<subseteq> {i \<in> set idx. holds_slot (ps_phase s i)}" by auto
  then have "card {i \<in> set idx. ps_phase s i = Calling} \<le> card {i \<in> set idx. holds_slot (ps_phase s i)}"
    by (rule card_mono [rotated]) simp
  with held show ?thesis by simp
qed

text \<open>
  C7: if the limit of concurrent calls (\<^verbatim>\<open>ConcurrentReadTools\<close>) is positive, a concurrent batch ends: however its steps are
  scheduled, there are at most nine for a call, and no goroutine can take another one exactly when all of them have finished. The
  code does not check that the limit is positive; with zero the batch gets stuck, as shown below.
\<close>

theorem parallel_batch_terminates:
  assumes "batch_ready env tcs idx st" and "0 < xe_cap env" and "par_run env tcs idx ms (start_parallel st) = Some s"
  shows "length (filter is_go ms) \<le> 9 * card (set idx)
    \<and> ((\<forall>i\<in>set idx. par_advance env tcs i s = None) \<longleftrightarrow> all_finished idx s)"
proof -
  have inv: "batch_inv env tcs idx st s" and left: "par_left idx s + length (filter is_go ms) \<le> par_left idx (start_parallel st)"
    using batch_run_inv [OF assms(3,1)] by auto
  have "par_left idx (start_parallel st) = 9 * card (set idx)" by (simp add: par_left_def)
  moreover have "all_finished idx s" if "\<forall>i\<in>set idx. par_advance env tcs i s = None"
    by (rule progress [OF inv assms(2)]) (use that in simp)
  moreover have "\<forall>i\<in>set idx. par_advance env tcs i s = None" if "all_finished idx s"
    using that by (simp add: advance_blocked all_finished_def list_all_iff)
  ultimately show ?thesis using left by auto
qed

text \<open>With a limit of zero no call gets a slot: unless the run is cancelled in time, the batch never ends.\<close>

lemma no_slots_no_progress:
  assumes "xe_cap env = 0" and "par_run env tcs idx ms s = Some s'" and "Cancel \<notin> set ms" and "\<not> xs_cancelled s" "\<not> ps_abort s"
    and "\<forall>i\<in>set idx. ps_phase s i \<in> {Spawned, Waiting}"
  shows "\<forall>i\<in>set idx. ps_phase s' i \<in> {Spawned, Waiting}"
  using assms(2-)
proof (induction ms arbitrary: s)
  case Nil
  then show ?case by simp
next
  case (Cons m ms)
  then obtain s1 where s1: "par_apply env tcs idx m s = Some s1" and run: "par_run env tcs idx ms s1 = Some s'"
    by (auto split: option.splits)
  have "\<not> xs_cancelled s1 \<and> \<not> ps_abort s1 \<and> (\<forall>i\<in>set idx. ps_phase s1 i \<in> {Spawned, Waiting})"
  proof (cases m)
    case (Go i)
    with s1 have i: "i \<in> set idx" "par_advance env tcs i s = Some s1" by (auto simp: par_apply_def split: if_splits)
    with Cons.prems(5) have "ps_phase s i = Spawned \<or> ps_phase s i = Waiting" by auto
    then have "s1 = ps_enter i Waiting s" using i(2) Cons.prems(3,4) assms(1) by (auto simp: par_advance_def)
    with Cons.prems(3-5) show ?thesis by (simp add: ps_enter_def)
  qed (use s1 Cons.prems in \<open>auto simp: par_apply_def\<close>)
  then show ?case using Cons.IH [OF run] Cons.prems(2) by auto
qed

section \<open>All calls of a turn\<close>

text \<open>A call that is done: completed with its result emitted, or aborted with nothing emitted.\<close>

definition cancel_result :: tool_exec_result where
  "cancel_result = error_result '''' ''aborted: context cancelled''"

definition done_ok :: "tool_call \<Rightarrow> tracked_tool \<Rightarrow> tool_exec_result \<Rightarrow> bool" where
  "done_ok tc t r \<longleftrightarrow>
     tt_id t = tc_id tc \<and> tt_name t = tc_name tc
     \<and> (tt_state t = ToolCompleted \<and> er_emitted r \<or> tt_state t = ToolAborted \<and> r \<in> {abort_result, cancel_result})"

definition emitted_event :: "'w exec_env \<Rightarrow> tool_call list \<Rightarrow> ('w, 'x) exec_state_scheme \<Rightarrow> nat \<Rightarrow> run_event multiset" where
  "emitted_event env tcs st i =
     (if er_emitted (xs_results st ! i) then {#call_result_event env (tcs ! i) (xs_results st ! i)#} else {#})"

definition call_aborted :: "('w, 'x) exec_state_scheme \<Rightarrow> nat \<Rightarrow> bool" where
  "call_aborted st i \<longleftrightarrow> tt_state (xs_tracked st ! i) = ToolAborted"

definition call_failed :: "('w, 'x) exec_state_scheme \<Rightarrow> nat \<Rightarrow> bool" where
  "call_failed st i \<longleftrightarrow> tt_state (xs_tracked st ! i) = ToolCompleted \<and> er_error (xs_results st ! i) \<noteq> None"

definition turn_inv :: "'w exec_env \<Rightarrow> tool_call list \<Rightarrow> nat set \<Rightarrow> 'w exec_state \<Rightarrow> bool" where
  "turn_inv env tcs D st \<longleftrightarrow>
     length (xs_tracked st) = length tcs \<and> length (xs_results st) = length tcs \<and> D \<subseteq> {..<length tcs}
     \<and> (\<forall>i\<in>D. done_ok (tcs ! i) (xs_tracked st ! i) (xs_results st ! i))
     \<and> (\<forall>i<length tcs. i \<notin> D \<longrightarrow> xs_tracked st ! i = track_call env (tcs ! i) \<and> xs_results st ! i = zero_result)
     \<and> result_events st = (\<Sum>i\<in>D. emitted_event env tcs st i)
     \<and> ((\<exists>i\<in>D. call_aborted st i) \<longrightarrow> xs_cancelled st \<or> (\<exists>j\<in>D. call_failed st j))"

lemma turn_inv_initial: "turn_inv env tcs {} (initial_exec env tcs cache cancelled w)"
proof -
  have "filter is_result (concat (map (queue_events \<circ> track_call env) tcs)) = []"
    by (induction tcs) (simp_all add: queue_events_def)
  then show ?thesis by (simp add: turn_inv_def initial_exec_def)
qed

text \<open>A step that settles the call \<open>i\<close>.\<close>

lemma turn_inv_insert:
  assumes inv: "turn_inv env tcs D st" and i: "i < length tcs" "i \<notin> D"
    and len: "length (xs_tracked st') = length tcs" "length (xs_results st') = length tcs"
    and eq: "\<And>j. j \<noteq> i \<Longrightarrow> xs_tracked st' ! j = xs_tracked st ! j \<and> xs_results st' ! j = xs_results st ! j"
    and ok: "done_ok (tcs ! i) (xs_tracked st' ! i) (xs_results st' ! i)"
    and ev: "result_events st' = result_events st + emitted_event env tcs st' i"
    and ca: "xs_cancelled st \<longrightarrow> xs_cancelled st'" "call_aborted st' i \<longrightarrow> xs_cancelled st'"
  shows "turn_inv env tcs (insert i D) st'"
proof -
  have D: "D \<subseteq> {..<length tcs}" "finite D" "\<And>j. j \<in> D \<Longrightarrow> j \<noteq> i"
    using inv i finite_subset unfolding turn_inv_def by auto
  have "(\<Sum>j\<in>D. emitted_event env tcs st' j) = (\<Sum>j\<in>D. emitted_event env tcs st j)"
    by (intro sum.cong) (use D eq in \<open>auto simp: emitted_event_def\<close>)
  then have "result_events st' = (\<Sum>j\<in>insert i D. emitted_event env tcs st' j)"
    using inv ev i D by (simp add: turn_inv_def add.commute)
  moreover have "call_aborted st' j = call_aborted st j" "call_failed st' j = call_failed st j" if "j \<noteq> i" for j
    using eq [OF that] by (simp_all add: call_aborted_def call_failed_def)
  then have "(\<exists>j\<in>insert i D. call_aborted st' j) \<longrightarrow> xs_cancelled st' \<or> (\<exists>j\<in>insert i D. call_failed st' j)"
    using inv ca D(3) unfolding turn_inv_def by (metis insert_iff)
  moreover have "\<forall>j\<in>insert i D. done_ok (tcs ! j) (xs_tracked st' ! j) (xs_results st' ! j)"
    using inv ok eq D(3) unfolding turn_inv_def by (metis insert_iff)
  moreover have "\<forall>j<length tcs. j \<notin> insert i D \<longrightarrow> xs_tracked st' ! j = track_call env (tcs ! j) \<and> xs_results st' ! j = zero_result"
    using inv eq unfolding turn_inv_def by (metis insert_iff)
  ultimately show ?thesis using D i len unfolding turn_inv_def by blast
qed

lemma serial_call_inv:
  assumes inv: "turn_inv env tcs D st" and i: "i < length tcs" "i \<notin> D"
  shows "turn_inv env tcs (insert i D) (serial_call env tcs late i st)"
proof -
  have st: "xs_tracked st ! i = track_call env (tcs ! i)" "xs_results st ! i = zero_result"
    "length (xs_tracked st) = length tcs" "length (xs_results st) = length tcs"
    using inv i by (simp_all add: turn_inv_def)
  show ?thesis
  proof (cases "xs_cancelled st")
    case True
    show ?thesis
      by (rule turn_inv_insert [OF inv i])
        (use True st i in \<open>auto simp: serial_call_def cancel_call_def Let_def xs_defs done_ok_def tt_abort_def
          cancel_result_def emitted_event_def error_result_def zero_result_def\<close>)
  next
    case False
    show ?thesis
    proof (cases "validation_error env (tcs ! i)")
      case (Some r)
      then have "er_emitted r" by (rule validation_error_emitted)
      show ?thesis
        by (rule turn_inv_insert [OF inv i])
          (use False Some st i \<open>er_emitted r\<close> in \<open>auto simp: serial_call_def execute_tool_call_def Let_def xs_defs done_ok_def
            emitted_event_def call_aborted_def result_event_call\<close>)
    next
      case None
      let ?w1 = "pre_hook env (tcs ! i) (xs_world st)"
      obtain answer w2 where run: "run_tool env (tcs ! i) (\<not> tt_block (track_call env (tcs ! i)) \<and> late) ?w1 = (answer, w2)"
        by (cases "run_tool env (tcs ! i) (\<not> tt_block (track_call env (tcs ! i)) \<and> late) ?w1") blast
      let ?full = "case answer of Inl e \<Rightarrow> error_result (tc_name (tcs ! i)) e | Inr r \<Rightarrow> r\<lparr>er_tool_name := tc_name (tcs ! i)\<rparr>"
      let ?r = "(truncate_tool_result ?full (xe_max_chars env))\<lparr>er_emitted := True\<rparr>"
      obtain r' w3 where post: "post_hook env (tcs ! i) ?r w2 = (r', w3)"
        by (cases "post_hook env (tcs ! i) ?r w2") blast
      have r': "er_output r' = er_output ?r" "er_error r' = er_error ?r" "er_emitted r'"
        using post_hook_simps [of env "tcs ! i" ?r w2] by (simp_all add: post)
      show ?thesis
        by (rule turn_inv_insert [OF inv i])
          (use False None st i run post r' in \<open>auto simp: serial_call_def execute_tool_call_def Let_def xs_defs done_ok_def
            emitted_event_def call_aborted_def result_event_call call_result_event_def\<close>)
    qed
  qed
qed

lemma turn_inv_cancel: "turn_inv env tcs D st \<Longrightarrow> turn_inv env tcs D (st\<lparr>xs_cancelled := True\<rparr>)"
proof -
  have "emitted_event env tcs (st\<lparr>xs_cancelled := True\<rparr>) = emitted_event env tcs st"
    by (rule ext) (simp add: emitted_event_def)
  then show "turn_inv env tcs D st \<Longrightarrow> turn_inv env tcs D (st\<lparr>xs_cancelled := True\<rparr>)"
    by (simp add: turn_inv_def)
qed

lemma exec_serial_inv:
  assumes "exec_serial env tcs is st st'" and "turn_inv env tcs D st" and "distinct is" "set is \<subseteq> {..<length tcs} - D"
  shows "turn_inv env tcs (D \<union> set is) st'"
  using assms
proof (induction arbitrary: D rule: exec_serial.induct)
  case (serial_done st)
  then show ?case by simp
next
  case (serial_interrupt "is" st st')
  then show ?case by (simp add: turn_inv_cancel)
next
  case (serial_next "is" late i st st')
  have "turn_inv env tcs (insert i D) (serial_call env tcs late i st)"
    by (rule serial_call_inv) (use serial_next.prems in auto)
  then show ?case using serial_next.IH [of "insert i D"] serial_next.prems by auto
qed

lemma finished_done:
  assumes "call_ok env tc (Finished out) t r"
  shows "done_ok tc t r \<and> (er_emitted r \<longleftrightarrow> out \<noteq> OutAborted) \<and> (tt_state t = ToolAborted \<longleftrightarrow> out = OutAborted)
    \<and> (has_failed (Finished out) \<longrightarrow> tt_state t = ToolCompleted \<and> er_error r \<noteq> None)"
  using assms validation_error_emitted [of env tc r]
  by (cases out) (auto simp: call_ok_def done_ok_def abort_result_def error_result_def zero_result_def)

lemma turn_inv_ready: "turn_inv env tcs D st \<Longrightarrow> set idx \<subseteq> {..<length tcs} - D \<Longrightarrow> batch_ready env tcs idx st"
  by (auto simp: batch_ready_def turn_inv_def)

lemma parallel_inv:
  assumes inv: "turn_inv env tcs D st" and idx: "set idx \<subseteq> {..<length tcs} - D"
    and run: "par_run env tcs idx ms (start_parallel st) = Some s" and fin: "all_finished idx s"
  shows "turn_inv env tcs (D \<union> set idx) (exec_state.truncate s)"
proof -
  let ?t = "exec_state.truncate s"
  have simps: "xs_tracked ?t = xs_tracked s" "xs_results ?t = xs_results s" "xs_events ?t = xs_events s"
    "xs_cancelled ?t = xs_cancelled s" by (simp_all add: exec_state.truncate_def)
  have b: "batch_inv env tcs idx st s" using batch_run_inv [OF run turn_inv_ready [OF inv idx]] by simp
  have out: "\<exists>out. ps_phase s i = Finished out" if "i \<in> set idx" for i
    using fin that by (cases "ps_phase s i") (auto simp: all_finished_def list_all_iff)
  have ok: "call_ok env (tcs ! i) (ps_phase s i) (xs_tracked s ! i) (xs_results s ! i)" if "i \<in> set idx" for i
    using b that unfolding batch_inv_def by blast
  have same: "xs_tracked s ! i = xs_tracked st ! i \<and> xs_results s ! i = xs_results st ! i" if "i \<notin> set idx" for i
    using b that unfolding batch_inv_def by blast
  have D: "D \<subseteq> {..<length tcs}" "finite D" "\<And>i. i \<in> D \<Longrightarrow> i \<notin> set idx"
    using inv idx finite_subset unfolding turn_inv_def by auto
  have len: "length (xs_tracked s) = length tcs \<and> length (xs_results s) = length tcs"
    using b inv by (simp add: batch_inv_def turn_inv_def)
  have done_D: "done_ok (tcs ! i) (xs_tracked s ! i) (xs_results s ! i)" if "i \<in> D \<union> set idx" for i
  proof (cases "i \<in> set idx")
    case True
    then show ?thesis using out [OF True] ok [OF True] finished_done by metis
  next
    case False
    then show ?thesis using that same [OF False] inv unfolding turn_inv_def by auto
  qed
  have "reported_events env tcs idx s = (\<Sum>i\<in>set idx. emitted_event env tcs s i)"
    unfolding reported_events_def
  proof (rule sum.cong [OF refl])
    fix i assume i: "i \<in> set idx"
    obtain o' where o': "ps_phase s i = Finished o'" using out [OF i] by blast
    then show "reported_event env tcs s i = emitted_event env tcs s i"
      using finished_done [of env "tcs ! i" o' "xs_tracked s ! i" "xs_results s ! i"] ok [OF i]
      by (simp add: reported_event_def emitted_event_def)
  qed
  moreover have "(\<Sum>i\<in>D. emitted_event env tcs st i) = (\<Sum>i\<in>D. emitted_event env tcs s i)"
    by (rule sum.cong) (use same D(3) in \<open>auto simp: emitted_event_def\<close>)
  moreover have "result_events s = result_events st + reported_events env tcs idx s" using b unfolding batch_inv_def by blast
  moreover have "result_events st = (\<Sum>i\<in>D. emitted_event env tcs st i)" using inv unfolding turn_inv_def by blast
  moreover have "(\<Sum>i\<in>D \<union> set idx. emitted_event env tcs s i) = (\<Sum>i\<in>D. emitted_event env tcs s i) + (\<Sum>i\<in>set idx. emitted_event env tcs s i)"
    using D by (intro sum.union_disjoint) auto
  ultimately have ev: "result_events s = (\<Sum>i\<in>D \<union> set idx. emitted_event env tcs s i)" by simp
  have ab: "xs_cancelled s \<or> (\<exists>j\<in>D \<union> set idx. call_failed s j)" if i: "i \<in> D \<union> set idx" "call_aborted s i" for i
  proof (cases "i \<in> set idx")
    case True
    then have "ps_phase s i = Finished OutAborted" using out [OF True] ok [OF True] i(2) finished_done unfolding call_aborted_def by metis
    then have "ps_abort s \<or> xs_cancelled s" using b True unfolding batch_inv_def by blast
    then show ?thesis
    proof
      assume "ps_abort s"
      then obtain j where j: "j \<in> set idx" "has_failed (ps_phase s j)" using b unfolding batch_inv_def by blast
      then have "call_failed s j" using out [OF j(1)] ok [OF j(1)] finished_done unfolding call_failed_def by metis
      with j show ?thesis by blast
    qed simp
  next
    case False
    then have "xs_cancelled st \<or> (\<exists>j\<in>D. call_failed st j)"
      using i same [OF False] inv unfolding turn_inv_def call_aborted_def by auto
    moreover have "xs_cancelled st \<longrightarrow> xs_cancelled s" using b unfolding batch_inv_def by blast
    moreover have "call_failed st j = call_failed s j" if "j \<in> D" for j
      using same [OF D(3) [OF that]] by (simp add: call_failed_def)
    ultimately show ?thesis by blast
  qed
  have rest: "xs_tracked s ! i = track_call env (tcs ! i) \<and> xs_results s ! i = zero_result" if "i < length tcs" "i \<notin> D \<union> set idx" for i
    using that same [of i] inv unfolding turn_inv_def by auto
  have "emitted_event env tcs ?t = emitted_event env tcs s" "call_aborted ?t = call_aborted s" "call_failed ?t = call_failed s"
    by (rule ext; simp add: emitted_event_def call_aborted_def call_failed_def simps)+
  then show ?thesis unfolding turn_inv_def simps using len done_D ev ab rest D idx by auto
qed

text \<open>The indices of the batches that follow.\<close>

definition batch_indices :: "tool_batch list \<Rightarrow> nat list" where
  "batch_indices bs = concat (map tb_indices bs)"

lemma batch_indices_simps [simp]:
  "batch_indices [] = []" "batch_indices (b # bs) = tb_indices b @ batch_indices bs"
  by (simp_all add: batch_indices_def)

lemma exec_batches_inv:
  assumes "exec_batches env tcs bs st st'" and "turn_inv env tcs D st"
    and "distinct (batch_indices bs)" "set (batch_indices bs) \<subseteq> {..<length tcs} - D"
  shows "turn_inv env tcs (D \<union> set (batch_indices bs)) st'"
  using assms
proof (induction arbitrary: D rule: exec_batches.induct)
  case (batches_done st)
  then show ?case by simp
next
  case (batch_serial b st st' bs st'')
  have "turn_inv env tcs (D \<union> set (tb_indices b)) st'"
    by (rule exec_serial_inv [OF batch_serial.hyps(2) batch_serial.prems(1)]) (use batch_serial.prems in auto)
  then have "turn_inv env tcs (D \<union> set (tb_indices b) \<union> set (batch_indices bs)) st''"
    by (rule batch_serial.IH) (use batch_serial.prems in auto)
  then show ?case by (simp add: Un_assoc)
next
  case (batch_parallel b ms st s bs st'')
  have "turn_inv env tcs (D \<union> set (tb_indices b)) (exec_state.truncate s)"
    by (rule parallel_inv [OF batch_parallel.prems(1) _ batch_parallel.hyps(2,3)]) (use batch_parallel.prems in auto)
  then have "turn_inv env tcs (D \<union> set (tb_indices b) \<union> set (batch_indices bs)) st''"
    by (rule batch_parallel.IH) (use batch_parallel.prems in auto)
  then show ?case by (simp add: Un_assoc)
qed

lemma partition_indices: "batch_indices (partition_tool_calls read_only tcs) = [0..<length tcs]"
  using partition_prefix [of "length tcs" tcs read_only] by (simp add: partition_tool_calls_def batch_indices_def Let_def)

lemma execute_all_inv:
  assumes "execute_all env tcs cache cancelled w st"
  shows "turn_inv env tcs {..<length tcs} st"
  using exec_batches_inv [OF assms [unfolded execute_all_def] turn_inv_initial] by (simp add: partition_indices atLeast0LessThan)

text \<open>
  C5: when \<^verbatim>\<open>ExecuteAll\<close> returns, however its concurrent batches were scheduled and whenever the run was cancelled, every
  call has its result at its own place: it is completed and marked as emitted, or aborted, not marked and with the text that
  says so. A call is aborted only when the run is cancelled or another call failed. The result events of the stream are one
  for each marked result, with its redacted output and its error, and no others, so the runner can leave out just these.
\<close>

theorem every_call_answered_once:
  assumes "execute_all env tcs cache cancelled w st"
  shows "length (xs_results st) = length tcs
    \<and> (\<forall>i<length tcs. done_ok (tcs ! i) (xs_tracked st ! i) (xs_results st ! i))
    \<and> ((\<exists>i<length tcs. call_aborted st i) \<longrightarrow> xs_cancelled st \<or> (\<exists>j<length tcs. call_failed st j))
    \<and> result_events st = mset (map (\<lambda>i. call_result_event env (tcs ! i) (xs_results st ! i))
        (filter (\<lambda>i. er_emitted (xs_results st ! i)) [0..<length tcs]))"
proof -
  have inv: "turn_inv env tcs {..<length tcs} st" by (rule execute_all_inv [OF assms])
  have "(\<Sum>i\<in>{..<n}. emitted_event env tcs st i)
      = mset (map (\<lambda>i. call_result_event env (tcs ! i) (xs_results st ! i)) (filter (\<lambda>i. er_emitted (xs_results st ! i)) [0..<n]))" for n
    by (induction n) (auto simp: emitted_event_def lessThan_Suc add.commute)
  with inv show ?thesis unfolding turn_inv_def by (auto simp: Bex_def)
qed

lemma complete_run:
  assumes "batch_inv env tcs idx st s" and "0 < xe_cap env"
  shows "\<exists>ms s'. par_run env tcs idx ms s = Some s' \<and> all_finished idx s'"
  using assms
proof (induction "par_left idx s" arbitrary: s rule: less_induct)
  case less
  show ?case
  proof (cases "all_finished idx s")
    case True
    then show ?thesis by (intro exI [of _ "[]"] exI [of _ s]) simp
  next
    case False
    then obtain i s1 where i: "i \<in> set idx" and s1: "par_advance env tcs i s = Some s1"
      using progress [OF less.prems] by fastforce
    have "i < length (xs_tracked s) \<and> i < length (xs_results s)
        \<and> call_ok env (tcs ! i) (ps_phase s i) (xs_tracked s ! i) (xs_results s ! i)"
      using less.prems(1) i unfolding batch_inv_def by blast
    with s1 have ch: "local_change env tcs i s s1" by (blast intro: advance_local)
    from less.hyps [OF local_left [OF ch i] batch_inv_local [OF less.prems(1) ch i] less.prems(2)]
    obtain ms s' where "par_run env tcs idx ms s1 = Some s'" "all_finished idx s'" by blast
    with i s1 show ?thesis by (intro exI [of _ "Go i # ms"] exI [of _ s']) (simp add: par_apply_def)
  qed
qed

lemma exec_serial_exists: "\<exists>st'. exec_serial env tcs is st st'"
proof (induction "is" arbitrary: st)
  case Nil
  show ?case by (rule exI, rule serial_done)
next
  case (Cons i "is")
  then obtain st' where "exec_serial env tcs is (serial_call env tcs False i st) st'" by blast
  then show ?case by (intro exI [of _ st'] serial_next)
qed

lemma exec_batches_exists:
  assumes "0 < xe_cap env" and "turn_inv env tcs D st"
    and "distinct (batch_indices bs)" "set (batch_indices bs) \<subseteq> {..<length tcs} - D"
  shows "\<exists>st'. exec_batches env tcs bs st st'"
  using assms(2-)
proof (induction bs arbitrary: D st)
  case Nil
  show ?case by (rule exI, rule batches_done)
next
  case (Cons b bs)
  have "\<exists>st'. turn_inv env tcs (D \<union> set (tb_indices b)) st' \<and> (\<forall>st''. exec_batches env tcs bs st' st'' \<longrightarrow> exec_batches env tcs (b # bs) st st'')"
  proof (cases "runs_concurrently b")
    case True
    have sub: "set (tb_indices b) \<subseteq> {..<length tcs} - D" using Cons.prems by auto
    then obtain ms s where run: "par_run env tcs (tb_indices b) ms (start_parallel st) = Some s" "all_finished (tb_indices b) s"
      using complete_run [OF batch_inv_start [OF turn_inv_ready [OF Cons.prems(1)]] assms(1)] by blast
    with parallel_inv [OF Cons.prems(1) sub run] True show ?thesis by (blast intro: batch_parallel)
  next
    case False
    obtain st' where st': "exec_serial env tcs (tb_indices b) st st'" using exec_serial_exists by blast
    have "turn_inv env tcs (D \<union> set (tb_indices b)) st'"
      by (rule exec_serial_inv [OF st' Cons.prems(1)]) (use Cons.prems in auto)
    with st' False show ?thesis by (blast intro: batch_serial)
  qed
  then obtain st' where st': "turn_inv env tcs (D \<union> set (tb_indices b)) st'"
    and next_batches: "\<And>st''. exec_batches env tcs bs st' st'' \<Longrightarrow> exec_batches env tcs (b # bs) st st''" by blast
  have "\<exists>st''. exec_batches env tcs bs st' st''" by (rule Cons.IH [OF st']) (use Cons.prems in auto)
  then show ?case using next_batches by blast
qed

text \<open>With a positive limit \<^verbatim>\<open>ExecuteAll\<close> can always return.\<close>

lemma execute_all_returns: "0 < xe_cap env \<Longrightarrow> \<exists>st. execute_all env tcs cache cancelled w st"
  unfolding execute_all_def
  by (rule exec_batches_exists [OF _ turn_inv_initial]) (simp_all add: partition_indices atLeast0LessThan)

section \<open>The cache and the output in place\<close>

text \<open>
  The note written into the output of a result that is cached does no harm: the truncation of the overwritten result is that
  of the result, so a later call that finds it in the cache is answered with the same output.
\<close>

lemma in_place:
  assumes "n \<le> length xs"
  shows "length (take (length xs) (take n xs @ ys @ drop (n + length ys) xs)) = length xs"
    and "take n (take (length xs) (take n xs @ zs)) = take n xs"
  using assms by (auto simp: min_def)

lemma truncate_overwritten [simp]:
  "truncate_tool_result (overwritten env r) (xe_max_chars env) = truncate_tool_result r (xe_max_chars env)"
proof (cases "xe_max_chars env \<le> 0 \<or> int (length (er_output r)) \<le> xe_max_chars env")
  case True
  then have "overwritten env r = r" by (auto simp: overwritten_def)
  then show ?thesis by simp
next
  case False
  define m where "m = xe_max_chars env"
  define notice where "notice = truncation_note m (length (er_output r))"
  define shown where "shown = nat (m - int (length notice))"
  have short: "shown \<le> length (er_output r)" using False unfolding shown_def m_def by linarith
  define out where "out = take (length (er_output r)) (take shown (er_output r) @ notice @ drop (shown + length notice) (er_output r))"
  have o: "overwritten env r = r\<lparr>er_output := out\<rparr> \<or> overwritten env r = r"
    using False unfolding overwritten_def Let_def out_def shown_def notice_def m_def by auto
  have "length out = length (er_output r)" "take shown out = take shown (er_output r)"
    unfolding out_def by (rule in_place [OF short])+
  moreover have t: "truncate_tool_result q m = q\<lparr>er_output := take shown (er_output q) @ notice\<rparr>"
    if "length (er_output q) = length (er_output r)" for q
  proof -
    have shown: "nat (if m - int (length notice) < 0 then 0 else m - int (length notice)) = shown" by (simp add: shown_def)
    have long: "(m \<le> 0 \<or> int (length (er_output r)) \<le> m) = False" using False by (simp add: m_def)
    show ?thesis
      unfolding truncate_tool_result_def Let_def that long if_False notice_def [symmetric] shown by (rule refl)
  qed
  ultimately have "truncate_tool_result (r\<lparr>er_output := out\<rparr>) m = truncate_tool_result r m" by simp
  with o show ?thesis unfolding m_def by metis
qed

lemma hit_repeats_answer:
  fixes i :: nat
  assumes "xs_cache s = Some c" and "is_cacheable (tc_name tc)" and "er_error r = None" and "validation_error env tc = None"
    and "j < length (xs_results s)"
  defines "s' \<equiv> settle_call env tc i (Inr r) s"
  shows "er_output (xs_results (accept_call env tc j s') ! j) = er_output (truncate_tool_result r (xe_max_chars env))
    \<and> ps_phase (accept_call env tc j s') j = Finished OutCached"
proof -
  let ?k = "cache_key (xe_digest env) (tc_name tc) (tc_args tc)"
  have c': "xs_cache s' = Some (cache_put ?k (overwritten env r) c)"
    using assms(1-3) by (simp add: s'_def settle_call_def xs_defs Let_def)
  have len: "j < length (xs_results s')" using assms(1-3,5) by (simp add: s'_def settle_call_def xs_defs Let_def)
  have hit: "fst (cache_get ?k (cache_put ?k (overwritten env r) c)) = Some (overwritten env r)"
    by (simp add: cache_get_def cache_put_def Let_def)
  obtain c'' where g: "cache_get ?k (cache_put ?k (overwritten env r) c) = (Some (overwritten env r), c'')"
    using hit by (cases "cache_get ?k (cache_put ?k (overwritten env r) c)") auto
  show ?thesis using assms(2,4) len by (simp add: accept_call_def c' g xs_defs Let_def)
qed

text \<open>
  Only a concurrent batch asks the cache or fills it: a cacheable call that is alone in its batch runs each time.
\<close>

lemma serial_leaves_cache: "xs_cache (serial_call env tcs late i st) = xs_cache st"
  by (simp add: serial_call_def cancel_call_def execute_tool_call_def xs_defs Let_def split: option.splits sum.splits prod.splits)

section \<open>A run\<close>

definition sample_exec :: "nat exec_env" where
  "sample_exec =
     \<lparr>xe_decode = (\<lambda>_. Inr []), xe_error_text = (\<lambda>_. ''invalid''), xe_digest = id, xe_redact = id, xe_room = length,
      xe_cap = 2, xe_max_chars = 100, xe_doc_search = None, xe_mcp = None,
      xe_skill = (\<lambda>tc _ w. (if tc_name tc = ''web-scraper'' then Inl ''down'' else Inr (output_result ''x'' (tc_args tc)), Suc w)),
      xe_hooks = None, xe_read_only = (\<lambda>_. False), xe_schema = (\<lambda>_. None), xe_search_or_read = (\<lambda>_. False),
      xe_interrupt = (\<lambda>_. None)\<rparr>"

definition sample_turn :: "tool_call list" where
  "sample_turn =
     [\<lparr>tc_id = ''a'', tc_name = ''http-get'', tc_args = ''1''\<rparr>, \<lparr>tc_id = ''b'', tc_name = ''web-scraper'', tc_args = ''2''\<rparr>,
      \<lparr>tc_id = ''c'', tc_name = ''troubleshoot'', tc_args = ''3''\<rparr>]"

definition sample_start :: "nat exec_state" where
  "sample_start = initial_exec sample_exec sample_turn None False 0"

text \<open>Two calls get a slot, the second fails while the third still waits for one.\<close>

definition sample_moves :: "nat par_move list" where
  "sample_moves = map Go ([2, 0, 1] @ replicate 2 0 @ replicate 6 1)"

lemma sample_ready: "batch_ready sample_exec sample_turn [0, 1, 2] sample_start"
  by code_simp

lemma sample_run:
  "(case par_run sample_exec sample_turn [0, 1, 2] sample_moves (start_parallel sample_start) of
      None \<Rightarrow> False
    | Some s \<Rightarrow> map (ps_phase s) [0, 1, 2] = [Accepted, Settled True, Waiting] \<and> ps_slots s = 2 \<and> ps_abort s)"
  by code_simp

theorem parallel_calls_bounded_witness:
  "\<exists>s. par_run sample_exec sample_turn [0, 1, 2] sample_moves (start_parallel sample_start) = Some s
     \<and> map (ps_phase s) [0, 1, 2] = [Accepted, Settled True, Waiting]
     \<and> card {i \<in> set [0, 1, 2]. holds_slot (ps_phase s i)} \<le> 2 \<and> card {i \<in> set [0, 1, 2]. ps_phase s i = Calling} \<le> 2"
proof -
  obtain s where s: "par_run sample_exec sample_turn [0, 1, 2] sample_moves (start_parallel sample_start) = Some s"
    "map (ps_phase s) [0, 1, 2] = [Accepted, Settled True, Waiting]"
    using sample_run by (auto split: option.splits)
  have "xe_cap sample_exec = 2" by (simp add: sample_exec_def)
  with s parallel_calls_bounded [OF sample_ready s(1)] show ?thesis by (intro exI [of _ s] conjI) simp_all
qed

theorem parallel_batch_terminates_witness:
  "\<exists>s. par_run sample_exec sample_turn [0, 1, 2] sample_moves (start_parallel sample_start) = Some s
     \<and> length (filter is_go sample_moves) \<le> 27 \<and> \<not> all_finished [0, 1, 2] s
     \<and> (\<exists>i\<in>{0, 1, 2}. par_advance sample_exec sample_turn i s \<noteq> None)"
proof -
  obtain s where s: "par_run sample_exec sample_turn [0, 1, 2] sample_moves (start_parallel sample_start) = Some s"
    "map (ps_phase s) [0, 1, 2] = [Accepted, Settled True, Waiting]"
    using sample_run by (auto split: option.splits)
  have "0 < xe_cap sample_exec" by (simp add: sample_exec_def)
  from parallel_batch_terminates [OF sample_ready this s(1)] s(1,2) show ?thesis
    by (intro exI [of _ s]) (auto simp: all_finished_def)
qed

text \<open>A run of the whole turn: the third call is aborted because the second one failed.\<close>

definition sample_schedule :: "nat par_move list" where
  "sample_schedule = sample_moves @ map Go (replicate 2 1 @ replicate 2 2 @ replicate 6 0)"

lemma sample_partition: "partition_tool_calls (xe_read_only sample_exec) sample_turn = [\<lparr>tb_safe = True, tb_indices = [0, 1, 2]\<rparr>]"
  by code_simp

lemma sample_whole_run:
  "(case par_run sample_exec sample_turn [0, 1, 2] sample_schedule (start_parallel sample_start) of
      None \<Rightarrow> False
    | Some s \<Rightarrow> all_finished [0, 1, 2] s
        \<and> map er_error (xs_results s) = [None, Some ''down'', Some ''aborted: sibling tool failed'']
        \<and> filter is_result (xs_events s) = [ToolResultEvent ''b'' ''web-scraper'' '''' (Some ''down''), ToolResultEvent ''a'' ''http-get'' ''1'' None])"
  by code_simp

theorem every_call_answered_once_witness:
  "\<exists>st. execute_all sample_exec sample_turn None False 0 st
     \<and> map er_error (xs_results st) = [None, Some ''down'', Some ''aborted: sibling tool failed'']
     \<and> (\<exists>j<3. call_failed st j)
     \<and> result_events st = mset (map (\<lambda>i. call_result_event sample_exec (sample_turn ! i) (xs_results st ! i))
         (filter (\<lambda>i. er_emitted (xs_results st ! i)) [0..<3]))"
proof -
  obtain s where s: "par_run sample_exec sample_turn [0, 1, 2] sample_schedule (start_parallel sample_start) = Some s"
    "all_finished [0, 1, 2] s" "map er_error (xs_results s) = [None, Some ''down'', Some ''aborted: sibling tool failed'']"
    using sample_whole_run by (auto split: option.splits)
  let ?st = "exec_state.truncate s"
  have run: "execute_all sample_exec sample_turn None False 0 ?st"
    unfolding execute_all_def sample_partition sample_start_def [symmetric]
    by (rule batch_parallel [OF _ _ _ batches_done]) (use s in \<open>simp_all add: runs_concurrently_def\<close>)
  have n: "length sample_turn = 3" by (simp add: sample_turn_def)
  have res: "map er_error (xs_results ?st) = [None, Some ''down'', Some ''aborted: sibling tool failed'']"
    using s(3) by (simp add: exec_state.truncate_def)
  have out: "length (xs_results ?st) = 3 \<and> (\<forall>i<3. done_ok (sample_turn ! i) (xs_tracked ?st ! i) (xs_results ?st ! i))
      \<and> result_events ?st = mset (map (\<lambda>i. call_result_event sample_exec (sample_turn ! i) (xs_results ?st ! i))
        (filter (\<lambda>i. er_emitted (xs_results ?st ! i)) [0..<3]))"
    using every_call_answered_once [OF run] n by simp
  have "length (xs_results ?st) = 3" using out by blast
  then have "er_error (xs_results ?st ! 1) = map er_error (xs_results ?st) ! 1" by simp
  then have "er_error (xs_results ?st ! 1) = Some ''down''" by (simp add: res)
  moreover from this have "xs_results ?st ! 1 \<noteq> abort_result \<and> xs_results ?st ! 1 \<noteq> cancel_result"
    by (auto simp: abort_result_def cancel_result_def error_result_def zero_result_def)
  moreover have "done_ok (sample_turn ! 1) (xs_tracked ?st ! 1) (xs_results ?st ! 1)" using out by simp
  ultimately have "call_failed ?st 1" unfolding call_failed_def done_ok_def by auto
  then have failed: "\<exists>j<3. call_failed ?st j" by (intro exI [of _ 1]) simp
  show ?thesis by (rule exI, rule conjI, rule run, rule conjI, rule res, rule conjI, rule failed, rule out [THEN conjunct2, THEN conjunct2])
qed

end
