(* ===== verification/Triggers.thy ===== *)
theory Triggers
  imports Cron Sanitize
begin

text \<open>
  Scheduled runs of agents, \<^verbatim>\<open>src/internal/domain/trigger\<close>: the tables with their operations (\<^verbatim>\<open>repository.go\<close>), the
  service (\<^verbatim>\<open>service.go\<close>), the scheduler (\<^verbatim>\<open>scheduler.go\<close>) and the completion hook (\<^verbatim>\<open>completeTriggerRunForChatCompletion\<close>
  of \<^verbatim>\<open>src/internal/server/server.go\<close>). The parts are composed to a machine in which the schedulers of several processes, requests
  and hooks take turns at the tables.
\<close>

section \<open>The tables\<close>

record agent_trigger =
  at_id :: string
  at_agent :: string
  at_name :: string
  at_cron :: string
  at_enabled :: bool
  at_template :: string
  at_webhook :: "string option"
  at_last :: "int option"
  at_next :: "int option"
  at_count :: nat
  at_created :: int
  at_updated :: int

datatype trigger_status = TrRunning | TrCompleted | TrFailed

record trigger_run =
  tr_id :: string
  tr_trigger :: string
  tr_session :: string
  tr_status :: trigger_status
  tr_started :: int
  tr_completed :: "int option"
  tr_turns :: "int option"
  tr_tokens :: "int option"
  tr_error :: "string option"

record trigger_db =
  td_agents :: "string set"
  td_webhooks :: "string set"
  td_triggers :: "agent_trigger list"
  td_runs :: "trigger_run list"

datatype trigger_error =
  TriggerNotFound | TriggerAgentNotFound | DuplicateName | WebhookNotFound | NameRequired | NameTooLong nat | CronRequired
| InvalidCron cron_error | TemplateTooLong nat | ScanError | DbError

text \<open>
  \<open>te_scan\<close> says whether the database library reads a row with so many columns into so many variables, \<open>te_message\<close> is the
  text of the field \<^verbatim>\<open>message\<close> of a JSON object, \<open>te_loc\<close> the location of the process.
\<close>

record trigger_env =
  te_scan :: "nat \<Rightarrow> nat \<Rightarrow> bool"
  te_message :: "string \<Rightarrow> string option"
  te_loc :: location

definition trigger_columns :: "string list" where
  "trigger_columns =
     [''id'', ''agent_id'', ''name'', ''cron_expression'', ''enabled'', ''input_template'', ''notification_webhook_id'',
      ''last_run_at'', ''next_run_at'', ''run_count'', ''created_at'', ''updated_at'']"

text \<open>The variables of \<^verbatim>\<open>scanTrigger\<close>, for one row, and of \<^verbatim>\<open>scanTriggers\<close>, for several.\<close>

definition scan_trigger_fields :: "string list" where
  "scan_trigger_fields =
     [''ID'', ''AgentID'', ''Name'', ''CronExpression'', ''Enabled'', ''InputTemplate'', ''NotificationWebhookID'', ''LastRunAt'',
      ''NextRunAt'', ''RunCount'', ''CreatedAt'', ''UpdatedAt'']"

definition scan_triggers_fields :: "string list" where
  "scan_triggers_fields =
     [''ID'', ''AgentID'', ''Name'', ''CronExpression'', ''Enabled'', ''InputTemplate'', ''LastRunAt'', ''NextRunAt'', ''RunCount'',
      ''CreatedAt'', ''UpdatedAt'']"

definition scan_trigger :: "trigger_env \<Rightarrow> agent_trigger option \<Rightarrow> trigger_error + agent_trigger" where
  "scan_trigger env row =
     (case row of
        None \<Rightarrow> Inl TriggerNotFound
      | Some t \<Rightarrow> if te_scan env (length trigger_columns) (length scan_trigger_fields) then Inr t else Inl ScanError)"

fun scan_triggers :: "trigger_env \<Rightarrow> agent_trigger list \<Rightarrow> trigger_error + agent_trigger list" where
  "scan_triggers env [] = Inr []"
| "scan_triggers env (t # ts) =
     (if te_scan env (length trigger_columns) (length scan_triggers_fields)
      then (case scan_triggers env ts of Inl e \<Rightarrow> Inl e | Inr us \<Rightarrow> Inr (t # us))
      else Inl ScanError)"

definition find_trigger :: "string \<Rightarrow> trigger_db \<Rightarrow> agent_trigger option" where
  "find_trigger i db = find (\<lambda>t. at_id t = i) (td_triggers db)"

definition get_trigger :: "trigger_env \<Rightarrow> string \<Rightarrow> trigger_db \<Rightarrow> trigger_error + agent_trigger" where
  "get_trigger env i db = scan_trigger env (find_trigger i db)"

definition exists_by_name :: "string \<Rightarrow> string \<Rightarrow> trigger_db \<Rightarrow> bool" where
  "exists_by_name agent name db = list_ex (\<lambda>t. at_agent t = agent \<and> at_name t = name) (td_triggers db)"

text \<open>The references of a row, and the width of the column of the expression.\<close>

definition row_error :: "trigger_db \<Rightarrow> agent_trigger \<Rightarrow> trigger_error option" where
  "row_error db t =
     (if 100 < length (at_cron t) then Some DbError
      else if at_agent t \<notin> td_agents db then Some TriggerAgentNotFound
      else case at_webhook t of
        None \<Rightarrow> None
      | Some h \<Rightarrow> if h \<in> td_webhooks db then None else Some WebhookNotFound)"

definition insert_trigger :: "trigger_env \<Rightarrow> int \<Rightarrow> string \<Rightarrow> agent_trigger \<Rightarrow> trigger_db \<Rightarrow> (trigger_error + agent_trigger) \<times> trigger_db" where
  "insert_trigger env now i t db =
     (let row = t\<lparr>at_id := i, at_last := None, at_count := 0, at_created := now, at_updated := now\<rparr>
      in case row_error db row of
        Some e \<Rightarrow> (Inl e, db)
      | None \<Rightarrow> (scan_trigger env (Some row), db\<lparr>td_triggers := td_triggers db @ [row]\<rparr>))"

definition change_trigger :: "string \<Rightarrow> (agent_trigger \<Rightarrow> agent_trigger) \<Rightarrow> trigger_db \<Rightarrow> trigger_db" where
  "change_trigger i f db = db\<lparr>td_triggers := map (\<lambda>t. if at_id t = i then f t else t) (td_triggers db)\<rparr>"

definition write_trigger :: "trigger_env \<Rightarrow> int \<Rightarrow> agent_trigger \<Rightarrow> trigger_db \<Rightarrow> (trigger_error + agent_trigger) \<times> trigger_db" where
  "write_trigger env now t db =
     (case find_trigger (at_id t) db of
        None \<Rightarrow> (Inl TriggerNotFound, db)
      | Some old \<Rightarrow>
          (let new = old\<lparr>at_name := at_name t, at_cron := at_cron t, at_enabled := at_enabled t, at_template := at_template t,
                        at_webhook := at_webhook t, at_next := at_next t, at_updated := now\<rparr>
           in case row_error db new of
             Some e \<Rightarrow> (Inl e, db)
           | None \<Rightarrow> (scan_trigger env (Some new), change_trigger (at_id t) (\<lambda>_. new) db)))"

definition delete_trigger :: "string \<Rightarrow> trigger_db \<Rightarrow> trigger_error option \<times> trigger_db" where
  "delete_trigger i db =
     (if find_trigger i db = None then (Some TriggerNotFound, db)
      else (None, db\<lparr>td_triggers := filter (\<lambda>t. at_id t \<noteq> i) (td_triggers db),
                     td_runs := filter (\<lambda>r. tr_trigger r \<noteq> i) (td_runs db)\<rparr>))"

definition is_due :: "int \<Rightarrow> agent_trigger \<Rightarrow> bool" where
  "is_due now t \<longleftrightarrow> at_enabled t \<and> (case at_next t of None \<Rightarrow> False | Some n \<Rightarrow> n \<le> now)"

definition list_due :: "trigger_env \<Rightarrow> int \<Rightarrow> nat \<Rightarrow> trigger_db \<Rightarrow> trigger_error + agent_trigger list" where
  "list_due env now limit db =
     scan_triggers env (take limit (sort_key (\<lambda>t. case at_next t of None \<Rightarrow> 0 | Some n \<Rightarrow> n) (filter (is_due now) (td_triggers db))))"

definition mark_run :: "int \<Rightarrow> string \<Rightarrow> int \<Rightarrow> int \<Rightarrow> trigger_db \<Rightarrow> trigger_db" where
  "mark_run now i at next =
     change_trigger i (\<lambda>t. t\<lparr>at_last := Some at, at_next := Some next, at_count := at_count t + 1, at_updated := now\<rparr>)"

definition create_trigger_run :: "int \<Rightarrow> string \<Rightarrow> string \<Rightarrow> string \<Rightarrow> trigger_status \<Rightarrow> trigger_db \<Rightarrow> trigger_db option" where
  "create_trigger_run now i trigger session st db =
     (if find_trigger trigger db = None then None
      else Some (db\<lparr>td_runs := td_runs db @ [\<lparr>tr_id = i, tr_trigger = trigger, tr_session = session, tr_status = st, tr_started = now,
                   tr_completed = None, tr_turns = None, tr_tokens = None, tr_error = None\<rparr>]\<rparr>))"

definition close_trigger_run :: "int \<Rightarrow> trigger_status \<Rightarrow> int option \<Rightarrow> int option \<Rightarrow> string option \<Rightarrow> trigger_run \<Rightarrow> trigger_run" where
  "close_trigger_run now st turns tokens err r =
     r\<lparr>tr_status := st, tr_completed := Some now, tr_turns := turns, tr_tokens := tokens, tr_error := err\<rparr>"

definition change_run_row :: "string \<Rightarrow> (trigger_run \<Rightarrow> trigger_run) \<Rightarrow> trigger_db \<Rightarrow> trigger_db" where
  "change_run_row i f db = db\<lparr>td_runs := map (\<lambda>r. if tr_id r = i then f r else r) (td_runs db)\<rparr>"

definition complete_trigger_run :: "int \<Rightarrow> string \<Rightarrow> trigger_status \<Rightarrow> int option \<Rightarrow> int option \<Rightarrow> string option \<Rightarrow> trigger_db \<Rightarrow> trigger_db" where
  "complete_trigger_run now i st turns tokens err = change_run_row i (close_trigger_run now st turns tokens err)"

text \<open>The newest running run of the session is closed.\<close>

definition running_of_session :: "string \<Rightarrow> trigger_db \<Rightarrow> trigger_run option" where
  "running_of_session session db =
     (case rev (sort_key tr_started (filter (\<lambda>r. tr_session r = session \<and> tr_status r = TrRunning) (td_runs db))) of
        [] \<Rightarrow> None | r # _ \<Rightarrow> Some r)"

definition complete_run_by_session ::
  "int \<Rightarrow> string \<Rightarrow> trigger_status \<Rightarrow> int option \<Rightarrow> int option \<Rightarrow> string option \<Rightarrow> trigger_db \<Rightarrow> (trigger_run \<times> agent_trigger) option \<times> trigger_db" where
  "complete_run_by_session now session st turns tokens err db =
     (case running_of_session session db of
        None \<Rightarrow> (None, db)
      | Some r \<Rightarrow>
          (map_option (Pair (close_trigger_run now st turns tokens err r)) (find_trigger (tr_trigger r) db),
           change_run_row (tr_id r) (close_trigger_run now st turns tokens err) db))"
section \<open>The service\<close>

text \<open>A template that is blank or \<^verbatim>\<open>null\<close> counts as none.\<close>

definition normalize_input_template :: "string \<Rightarrow> string" where
  "normalize_input_template raw = (if trim_unicode raw = '''' \<or> trim_unicode raw = ''null'' then '''' else raw)"

record create_trigger_req =
  cq_name :: string
  cq_cron :: string
  cq_enabled :: "bool option"
  cq_template :: string
  cq_webhook :: "string option"

definition next_if_enabled :: "trigger_env \<Rightarrow> bool \<Rightarrow> string \<Rightarrow> int \<Rightarrow> int option \<Rightarrow> int option" where
  "next_if_enabled env enabled cron now before =
     (if enabled then (case cron_next_run (te_loc env) cron now of Inr t \<Rightarrow> Some t | Inl _ \<Rightarrow> before) else None)"

definition create_trigger ::
  "trigger_env \<Rightarrow> int \<Rightarrow> string \<Rightarrow> string \<Rightarrow> create_trigger_req \<Rightarrow> trigger_db \<Rightarrow> (trigger_error + agent_trigger) \<times> trigger_db" where
  "create_trigger env now i agent req db =
     (let template = normalize_input_template (cq_template req);
          name = strip_html (cq_name req);
          enabled = (case cq_enabled req of None \<Rightarrow> True | Some b \<Rightarrow> b)
      in if name = '''' then (Inl NameRequired, db)
         else if 255 < length name then (Inl (NameTooLong (length name)), db)
         else if cq_cron req = '''' then (Inl CronRequired, db)
         else case validate_cron (cq_cron req) of
           Some e \<Rightarrow> (Inl (InvalidCron e), db)
         | None \<Rightarrow>
             if 32000 < length template then (Inl (TemplateTooLong (length template)), db)
             else if exists_by_name agent name db then (Inl DuplicateName, db)
             else insert_trigger env now i
               \<lparr>at_id = '''', at_agent = agent, at_name = name, at_cron = cq_cron req, at_enabled = enabled, at_template = template,
                at_webhook = cq_webhook req, at_last = None, at_next = next_if_enabled env enabled (cq_cron req) now None,
                at_count = 0, at_created = 0, at_updated = 0\<rparr> db)"

record update_trigger_req =
  uq_name :: "string option"
  uq_cron :: "string option"
  uq_enabled :: "bool option"
  uq_template :: "string option"
  uq_webhook :: "string option option"
text \<open>The row that an update writes, made from the row that it has read.\<close>

definition then_ok :: "'e + 'a \<Rightarrow> ('a \<Rightarrow> 'e + 'b) \<Rightarrow> 'e + 'b" where
  "then_ok r f = (case r of Inl e \<Rightarrow> Inl e | Inr x \<Rightarrow> f x)"

definition set_trigger_name :: "string option \<Rightarrow> agent_trigger \<Rightarrow> trigger_error + agent_trigger" where
  "set_trigger_name name t =
     (case name of
        None \<Rightarrow> Inr t
      | Some n \<Rightarrow> if 255 < length n then Inl (NameTooLong (length n)) else Inr (t\<lparr>at_name := strip_html n\<rparr>))"

definition set_trigger_cron :: "string option \<Rightarrow> agent_trigger \<Rightarrow> trigger_error + agent_trigger" where
  "set_trigger_cron cron t =
     (case cron of
        None \<Rightarrow> Inr t
      | Some c \<Rightarrow> (case validate_cron c of Some e \<Rightarrow> Inl (InvalidCron e) | None \<Rightarrow> Inr (t\<lparr>at_cron := c\<rparr>)))"

definition set_trigger_template :: "string option \<Rightarrow> agent_trigger \<Rightarrow> trigger_error + agent_trigger" where
  "set_trigger_template template t =
     (case template of
        None \<Rightarrow> Inr t
      | Some raw \<Rightarrow>
          (let normalized = normalize_input_template raw
           in if 32000 < length normalized then Inl (TemplateTooLong (length normalized)) else Inr (t\<lparr>at_template := normalized\<rparr>)))"

definition updated_trigger :: "trigger_env \<Rightarrow> int \<Rightarrow> update_trigger_req \<Rightarrow> agent_trigger \<Rightarrow> trigger_error + agent_trigger" where
  "updated_trigger env now req t =
     then_ok (set_trigger_name (uq_name req) t) (\<lambda>t.
     then_ok (set_trigger_cron (uq_cron req) t) (\<lambda>t.
     then_ok (set_trigger_template (uq_template req) (case uq_enabled req of Some b \<Rightarrow> t\<lparr>at_enabled := b\<rparr> | None \<Rightarrow> t)) (\<lambda>t.
       (let t = (case uq_webhook req of Some h \<Rightarrow> t\<lparr>at_webhook := h\<rparr> | None \<Rightarrow> t)
        in Inr (t\<lparr>at_next := next_if_enabled env (at_enabled t) (at_cron t) now (at_next t)\<rparr>)))))"

section \<open>Firing\<close>

definition extract_message :: "trigger_env \<Rightarrow> string \<Rightarrow> string" where
  "extract_message env raw =
     (if raw = '''' then ''trigger fired''
      else case te_message env raw of
        Some m \<Rightarrow> if m \<noteq> '''' then m else raw
      | None \<Rightarrow> raw)"

text \<open>The next run is computed before the trigger fires; the scheduler works in UTC.\<close>

definition fire_next :: "string \<Rightarrow> int \<Rightarrow> int" where
  "fire_next cron now = (case cron_next_run (\<lambda>_. 0) cron now of Inr t \<Rightarrow> t | Inl _ \<Rightarrow> now + hour_ns)"

text \<open>The status of a chat run as that of a trigger run, with numbers and texts that are there only if they say something.\<close>

datatype chat_end = ChatCompleted | ChatFailed | ChatCancelled

definition complete_for_chat :: "int \<Rightarrow> string \<Rightarrow> chat_end \<Rightarrow> int \<Rightarrow> int \<Rightarrow> string \<Rightarrow> trigger_db \<Rightarrow> (trigger_run \<times> agent_trigger) option \<times> trigger_db" where
  "complete_for_chat now session st turns tokens msg =
     complete_run_by_session now session (if st = ChatCompleted then TrCompleted else TrFailed)
       (if 0 < turns then Some turns else None) (if 0 < tokens then Some tokens else None) (if msg \<noteq> '''' then Some msg else None)"

section \<open>The machine\<close>

text \<open>
  A scheduler goes through the list of due triggers. After a trigger has fired it is to be marked, with the run to be recorded
  if one was enqueued; then the run is recorded.
\<close>

datatype sched_phase = SchedIdle | SchedMark string int int "string option" | SchedRecord string string

record scheduler =
  sc_due :: "agent_trigger list"
  sc_phase :: sched_phase

record trigger_state =
  ts_now :: int
  ts_db :: trigger_db
  ts_ids :: "string set"
  ts_scheds :: "nat \<Rightarrow> scheduler"
  ts_fired :: "(string \<times> int) list"
  ts_enqueued :: "(string \<times> string) list"
  ts_updates :: "agent_trigger list"

datatype fire_answer = NoSession | NoRun string | FiredRun string

datatype trigger_label =
  TrClock int | TrTick nat bool | TrFire nat fire_answer | TrMark nat bool | TrRecord nat string bool
| TrComplete string chat_end int int string | TrCreate string string create_trigger_req | TrDelete string
| TrUpdateRead string update_trigger_req | TrUpdateWrite

definition put_sched :: "nat \<Rightarrow> scheduler \<Rightarrow> trigger_state \<Rightarrow> trigger_state" where
  "put_sched p c s = s\<lparr>ts_scheds := (ts_scheds s)(p := c)\<rparr>"

text \<open>\<^verbatim>\<open>tickTenant\<close>: the due triggers, unless the database fails.\<close>

definition tick_tenant :: "trigger_env \<Rightarrow> nat \<Rightarrow> bool \<Rightarrow> trigger_state \<Rightarrow> trigger_state option" where
  "tick_tenant env p ok s =
     (if ts_scheds s p \<noteq> \<lparr>sc_due = [], sc_phase = SchedIdle\<rparr> then None
      else case (ok, list_due env (ts_now s) 100 (ts_db s)) of
        (True, Inr due) \<Rightarrow> Some (put_sched p \<lparr>sc_due = due, sc_phase = SchedIdle\<rparr> s)
      | _ \<Rightarrow> Some s)"

text \<open>\<^verbatim>\<open>fireOne\<close>: the session and the run, the mark, the record.\<close>

definition fire_trigger :: "trigger_env \<Rightarrow> nat \<Rightarrow> fire_answer \<Rightarrow> trigger_state \<Rightarrow> trigger_state option" where
  "fire_trigger env p answer s =
     (case (sc_due (ts_scheds s p), sc_phase (ts_scheds s p)) of
        (t # ts, SchedIdle) \<Rightarrow>
          (let now = ts_now s;
               mark = SchedMark (at_id t) now (fire_next (at_cron t) now);
               s1 = s\<lparr>ts_fired := ts_fired s @ [(at_id t, now)]\<rparr>
           in Some (case answer of
                FiredRun session \<Rightarrow>
                  put_sched p \<lparr>sc_due = ts, sc_phase = mark (Some session)\<rparr>
                    (s1\<lparr>ts_enqueued := ts_enqueued s @ [(session, extract_message env (at_template t))]\<rparr>)
              | _ \<Rightarrow> put_sched p \<lparr>sc_due = ts, sc_phase = mark None\<rparr> s1))
      | _ \<Rightarrow> None)"

definition mark_fired :: "nat \<Rightarrow> bool \<Rightarrow> trigger_state \<Rightarrow> trigger_state option" where
  "mark_fired p ok s =
     (case sc_phase (ts_scheds s p) of
        SchedMark i now next session \<Rightarrow>
          (let s1 = (if ok then s\<lparr>ts_db := mark_run (ts_now s) i now next (ts_db s)\<rparr> else s);
               phase = (case session of Some x \<Rightarrow> SchedRecord i x | None \<Rightarrow> SchedIdle)
           in Some (put_sched p ((ts_scheds s p)\<lparr>sc_phase := phase\<rparr>) s1))
      | _ \<Rightarrow> None)"

definition record_fired :: "nat \<Rightarrow> string \<Rightarrow> bool \<Rightarrow> trigger_state \<Rightarrow> trigger_state option" where
  "record_fired p i ok s =
     (case sc_phase (ts_scheds s p) of
        SchedRecord t session \<Rightarrow>
          (let s1 = (case (ok, create_trigger_run (ts_now s) i t session TrRunning (ts_db s)) of
                       (True, Some db) \<Rightarrow> s\<lparr>ts_db := db\<rparr>
                     | _ \<Rightarrow> s)
           in Some (put_sched p ((ts_scheds s p)\<lparr>sc_phase := SchedIdle\<rparr>) s1))
      | _ \<Rightarrow> None)"

text \<open>A new row has an identifier that no row has had. An update reads the row and writes it later.\<close>

definition trigger_step :: "trigger_env \<Rightarrow> trigger_label \<Rightarrow> trigger_state \<Rightarrow> trigger_state option" where
  "trigger_step env l s =
     (case l of
        TrClock n \<Rightarrow> if 0 \<le> n then Some (s\<lparr>ts_now := ts_now s + n\<rparr>) else None
      | TrTick p ok \<Rightarrow> tick_tenant env p ok s
      | TrFire p answer \<Rightarrow> fire_trigger env p answer s
      | TrMark p ok \<Rightarrow> mark_fired p ok s
      | TrRecord p i ok \<Rightarrow> record_fired p i ok s
      | TrComplete session st turns tokens msg \<Rightarrow>
          Some (s\<lparr>ts_db := snd (complete_for_chat (ts_now s) session st turns tokens msg (ts_db s))\<rparr>)
      | TrCreate i agent req \<Rightarrow>
          if i \<in> ts_ids s then None
          else Some (s\<lparr>ts_db := snd (create_trigger env (ts_now s) i agent req (ts_db s)), ts_ids := insert i (ts_ids s)\<rparr>)
      | TrDelete i \<Rightarrow> Some (s\<lparr>ts_db := snd (delete_trigger i (ts_db s))\<rparr>)
      | TrUpdateRead i req \<Rightarrow>
          (case then_ok (get_trigger env i (ts_db s)) (updated_trigger env (ts_now s) req) of
             Inr t \<Rightarrow> Some (s\<lparr>ts_updates := ts_updates s @ [t]\<rparr>)
           | Inl _ \<Rightarrow> Some s)
      | TrUpdateWrite \<Rightarrow>
          (case ts_updates s of
             t # ts \<Rightarrow> Some (s\<lparr>ts_db := snd (write_trigger env (ts_now s) t (ts_db s)), ts_updates := ts\<rparr>)
           | [] \<Rightarrow> None))"

fun trigger_steps :: "trigger_env \<Rightarrow> trigger_label list \<Rightarrow> trigger_state \<Rightarrow> trigger_state option" where
  "trigger_steps env [] s = Some s"
| "trigger_steps env (l # ls) s = (case trigger_step env l s of None \<Rightarrow> None | Some s' \<Rightarrow> trigger_steps env ls s')"

definition new_triggers :: "int \<Rightarrow> string set \<Rightarrow> string set \<Rightarrow> trigger_state" where
  "new_triggers now agents webhooks =
     \<lparr>ts_now = now, ts_db = \<lparr>td_agents = agents, td_webhooks = webhooks, td_triggers = [], td_runs = []\<rparr>, ts_ids = {},
      ts_scheds = (\<lambda>_. \<lparr>sc_due = [], sc_phase = SchedIdle\<rparr>), ts_fired = [], ts_enqueued = [], ts_updates = []\<rparr>"


end
