(* ===== verification/TriggerFacts.thy ===== *)
theory TriggerFacts
  imports Triggers
begin

text \<open>
  What holds of scheduled runs: a trigger fires at most once a minute under one scheduler; with a database library that reads
  rows strictly no trigger fires at all, because the list of due triggers cannot be read; and what happens when schedulers,
  updates and completion hooks overtake each other.
\<close>

lemma trigger_steps_snoc:
  "trigger_steps env (ls @ [l]) s = (case trigger_steps env ls s of None \<Rightarrow> None | Some s' \<Rightarrow> trigger_step env l s')"
  by (induction ls arbitrary: s) (auto split: option.splits)

lemma trigger_invariant:
  assumes "trigger_steps env ls s0 = Some s" and "list_all P ls" and "I s0"
    and "\<And>l s s'. P l \<Longrightarrow> I s \<Longrightarrow> trigger_step env l s = Some s' \<Longrightarrow> I s'"
  shows "I s"
  using assms(1,2)
proof (induction ls arbitrary: s rule: rev_induct)
  case Nil
  then show ?case using assms(3) by simp
next
  case (snoc l ls)
  then show ?case using assms(4) by (auto simp: trigger_steps_snoc split: option.splits)
qed

section \<open>Reading the due triggers\<close>

lemma scan_triggers_Inr: "scan_triggers env ts = Inr us \<Longrightarrow> us = ts"
  by (induction ts arbitrary: us) (auto split: if_splits sum.splits)

lemma columns_and_fields: "length trigger_columns = 12" "length scan_triggers_fields = 11" "length scan_trigger_fields = 12"
  by (simp_all add: trigger_columns_def scan_triggers_fields_def scan_trigger_fields_def)

text \<open>
  C20: The list of due triggers has twelve columns and is read into eleven variables. If the database library refuses to read a
  row into fewer variables than it has columns, then no trigger ever fires, whatever schedulers and requests do.
\<close>

theorem strict_rows_never_fire:
  assumes "trigger_steps env ls (new_triggers now agents webhooks) = Some s" and "\<not> te_scan env 12 11"
  shows "ts_fired s = [] \<and> ts_enqueued s = []"
proof -
  let ?I = "\<lambda>s. ts_fired s = [] \<and> ts_enqueued s = [] \<and> (\<forall>p. sc_due (ts_scheds s p) = [])"
  have "?I s"
  proof (rule trigger_invariant [where P = "\<lambda>_. True" and I = ?I, OF assms(1)])
    fix l s s'
    assume i: "?I s" and step: "trigger_step env l s = Some s'"
    have due: "due = []" if "list_due env t n db = Inr due" for t n db due
      using that scan_triggers_Inr [of env] assms(2)
      by (cases "take n (sort_key (\<lambda>t. case at_next t of None \<Rightarrow> 0 | Some n \<Rightarrow> n) (filter (is_due t) (td_triggers db)))")
        (auto simp: list_due_def columns_and_fields)
    from i step due show "?I s'"
      by (cases l) (auto simp: trigger_step_def tick_tenant_def fire_trigger_def mark_fired_def record_fired_def put_sched_def Let_def
          split: if_splits option.splits sum.splits list.splits sched_phase.splits bool.splits prod.splits)
  qed (auto simp: new_triggers_def list_all_iff)
  then show ?thesis by simp
qed

section \<open>Firing once a minute\<close>

definition slot :: "int \<Rightarrow> int" where
  "slot t = t div minute_ns"

lemma slot_mono: "a \<le> b \<Longrightarrow> slot a \<le> slot b"
  using minute_pos by (simp add: slot_def zdiv_mono1)

lemma slot_less: "a < b \<Longrightarrow> b mod minute_ns = 0 \<Longrightarrow> slot a < slot b"
proof -
  assume a: "a < b" "b mod minute_ns = 0"
  have "b = slot b * minute_ns + b mod minute_ns" unfolding slot_def by (rule div_mult_mod_eq [symmetric])
  with a have "a < slot b * minute_ns" by simp
  moreover have "slot a * minute_ns \<le> a"
    using minute_pos pos_mod_sign [of minute_ns a] div_mult_mod_eq [of a minute_ns] unfolding slot_def by linarith
  ultimately have "slot a * minute_ns < slot b * minute_ns" by linarith
  then show ?thesis using minute_pos by simp
qed

lemma fire_next_slot: "slot now < slot (fire_next cron now)"
proof (cases "validate_cron cron")
  case None
  from cron_next_run_fixed [OF this, of 0 now] obtain t where "cron_next_run (\<lambda>_. 0) cron now = Inr t" "now < t" "t mod minute_ns = 0"
    by (elim exE conjE)
  then show ?thesis by (simp add: fire_next_def slot_less)
next
  case (Some e)
  have "slot (now + hour_ns) = 60 + slot now"
    unfolding slot_def hour_ns_def by (rule div_mult_self1) (use minute_pos in simp)
  with Some show ?thesis by (simp add: fire_next_def cron_next_run_def)
qed

text \<open>One scheduler, whose marks succeed; no schedule is changed.\<close>

definition one_scheduler :: "nat \<Rightarrow> trigger_label \<Rightarrow> bool" where
  "one_scheduler p l \<longleftrightarrow>
     (case l of
        TrTick q _ \<Rightarrow> q = p
      | TrFire q _ \<Rightarrow> q = p
      | TrMark q ok \<Rightarrow> q = p \<and> ok
      | TrRecord q _ _ \<Rightarrow> q = p
      | TrUpdateWrite \<Rightarrow> False
      | _ \<Rightarrow> True)"

definition fired_before :: "trigger_state \<Rightarrow> string \<Rightarrow> int \<Rightarrow> bool" where
  "fired_before s i n \<longleftrightarrow> (\<forall>(j, a)\<in>set (ts_fired s). j = i \<longrightarrow> slot a < n)"

definition marking :: "nat \<Rightarrow> trigger_state \<Rightarrow> string \<Rightarrow> bool" where
  "marking p s i \<longleftrightarrow> (\<exists>now nx x. sc_phase (ts_scheds s p) = SchedMark i now nx x)"

definition row_ok :: "nat \<Rightarrow> trigger_state \<Rightarrow> agent_trigger \<Rightarrow> bool" where
  "row_ok p s t \<longleftrightarrow> marking p s (at_id t)
     \<or> (case at_next t of None \<Rightarrow> at_id t \<notin> fst ` set (ts_fired s) | Some n \<Rightarrow> fired_before s (at_id t) (slot n))"

definition once_inv :: "nat \<Rightarrow> trigger_state \<Rightarrow> bool" where
  "once_inv p s \<longleftrightarrow>
     distinct (map at_id (td_triggers (ts_db s))) \<and> at_id ` set (td_triggers (ts_db s)) \<subseteq> ts_ids s
     \<and> fst ` set (ts_fired s) \<subseteq> ts_ids s \<and> at_id ` set (sc_due (ts_scheds s p)) \<subseteq> ts_ids s
     \<and> (\<forall>(i, a)\<in>set (ts_fired s). a \<le> ts_now s)
     \<and> distinct (map at_id (sc_due (ts_scheds s p)))
     \<and> distinct (map (\<lambda>(i, a). (i, slot a)) (ts_fired s))
     \<and> (\<forall>t\<in>set (sc_due (ts_scheds s p)). fired_before s (at_id t) (slot (ts_now s)))
     \<and> (\<forall>t\<in>set (td_triggers (ts_db s)). row_ok p s t)
     \<and> (\<forall>i now nx x. sc_phase (ts_scheds s p) = SchedMark i now nx x \<longrightarrow>
          fired_before s i (slot nx) \<and> i \<notin> at_id ` set (sc_due (ts_scheds s p)))"
lemma once_invI:
  assumes "distinct (map at_id (td_triggers (ts_db s)))" "at_id ` set (td_triggers (ts_db s)) \<subseteq> ts_ids s"
    "fst ` set (ts_fired s) \<subseteq> ts_ids s" "at_id ` set (sc_due (ts_scheds s p)) \<subseteq> ts_ids s"
    "\<And>i a. (i, a) \<in> set (ts_fired s) \<Longrightarrow> a \<le> ts_now s"
    "distinct (map at_id (sc_due (ts_scheds s p)))" "distinct (map (\<lambda>(i, a). (i, slot a)) (ts_fired s))"
    "\<And>t. t \<in> set (sc_due (ts_scheds s p)) \<Longrightarrow> fired_before s (at_id t) (slot (ts_now s))"
    "\<And>t. t \<in> set (td_triggers (ts_db s)) \<Longrightarrow> row_ok p s t"
    "\<And>i now nx x. sc_phase (ts_scheds s p) = SchedMark i now nx x \<Longrightarrow>
       fired_before s i (slot nx) \<and> i \<notin> at_id ` set (sc_due (ts_scheds s p))"
  shows "once_inv p s"
  using assms unfolding once_inv_def by (auto simp: split_def)

lemma once_invD:
  assumes "once_inv p s"
  shows "distinct (map at_id (td_triggers (ts_db s)))" "at_id ` set (td_triggers (ts_db s)) \<subseteq> ts_ids s"
    "fst ` set (ts_fired s) \<subseteq> ts_ids s" "at_id ` set (sc_due (ts_scheds s p)) \<subseteq> ts_ids s"
    "(i, a) \<in> set (ts_fired s) \<Longrightarrow> a \<le> ts_now s"
    "distinct (map at_id (sc_due (ts_scheds s p)))" "distinct (map (\<lambda>(i, a). (i, slot a)) (ts_fired s))"
    "t \<in> set (sc_due (ts_scheds s p)) \<Longrightarrow> fired_before s (at_id t) (slot (ts_now s))"
    "t \<in> set (td_triggers (ts_db s)) \<Longrightarrow> row_ok p s t"
    "sc_phase (ts_scheds s p) = SchedMark i now nx x \<Longrightarrow> fired_before s i (slot nx)"
    "sc_phase (ts_scheds s p) = SchedMark i now nx x \<Longrightarrow> i \<notin> at_id ` set (sc_due (ts_scheds s p))"
  using assms unfolding once_inv_def by auto

lemma fired_before_mono: "fired_before s i n \<Longrightarrow> n \<le> m \<Longrightarrow> fired_before s i m"
  unfolding fired_before_def by fastforce

lemma once_new: "once_inv p (new_triggers now agents webhooks)"
  by (rule once_invI) (simp_all add: new_triggers_def)

text \<open>Steps that leave the schedulers, the fires and the identifiers alone, and the triggers up to their next runs.\<close>

lemma once_cong:
  assumes inv: "once_inv p s" and rows: "td_triggers (ts_db s') = td_triggers (ts_db s)" and ids: "ts_ids s' = ts_ids s"
    and sc: "ts_scheds s' p = ts_scheds s p \<or> (sc_due (ts_scheds s' p) = sc_due (ts_scheds s p)
      \<and> sc_phase (ts_scheds s' p) = SchedIdle \<and> (\<forall>i. \<not> marking p s i))"
    and fired: "ts_fired s' = ts_fired s" and now: "ts_now s \<le> ts_now s'"
  shows "once_inv p s'"
proof -
  note d = once_invD [OF inv]
  have fb: "fired_before s' i n \<longleftrightarrow> fired_before s i n" for i n using fired by (simp add: fired_before_def)
  have due: "sc_due (ts_scheds s' p) = sc_due (ts_scheds s p)" using sc by auto
  have mark: "marking p s' i \<longleftrightarrow> marking p s i" for i using sc by (auto simp: marking_def)
  have row: "row_ok p s' t \<longleftrightarrow> row_ok p s t" for t unfolding row_ok_def mark fb fired ..
  show ?thesis
  proof (rule once_invI, unfold rows ids fired due fb row)
    show "fired_before s (at_id t) (slot (ts_now s'))" if "t \<in> set (sc_due (ts_scheds s p))" for t
      using fired_before_mono [OF d(8) [OF that] slot_mono [OF now]] .
    show "fired_before s i (slot nx) \<and> i \<notin> at_id ` set (sc_due (ts_scheds s p))"
      if "sc_phase (ts_scheds s' p) = SchedMark i n nx x" for i n nx x
      using sc that d(10,11) by auto
    show "a \<le> ts_now s'" if "(i, a) \<in> set (ts_fired s)" for i a using d(5) [OF that] now by simp
  qed (rule d(1-4,6,7,9), assumption?)+
qed

lemma distinct_sorted: "distinct (map f (sort_key k xs)) = distinct (map f xs)"
  by (metis mset_eq_imp_distinct_iff mset_map mset_sort)

lemma once_tick:
  assumes inv: "once_inv p s" and step: "tick_tenant env p ok s = Some s'"
  shows "once_inv p s'"
proof (cases "\<exists>due. ok \<and> list_due env (ts_now s) 100 (ts_db s) = Inr due")
  case False
  with step have "s' = s" by (auto simp: tick_tenant_def split: if_splits bool.splits sum.splits)
  with inv show ?thesis by simp
next
  case True
  then obtain due where l: "ok" "list_due env (ts_now s) 100 (ts_db s) = Inr due" by blast
  with step have idle: "sc_phase (ts_scheds s p) = SchedIdle" and s': "s' = put_sched p \<lparr>sc_due = due, sc_phase = SchedIdle\<rparr> s"
    by (auto simp: tick_tenant_def split: if_splits)
  note d = once_invD [OF inv]
  let ?k = "\<lambda>t. case at_next t of None \<Rightarrow> 0 | Some n \<Rightarrow> n"
  let ?l = "filter (is_due (ts_now s)) (td_triggers (ts_db s))"
  have due: "due = take 100 (sort_key ?k ?l)" using l(2) unfolding list_due_def by (rule scan_triggers_Inr)
  have "distinct (map at_id ?l)" using d(1) by (rule distinct_map_filter)
  then have "distinct (map at_id (sort_key ?k ?l))" by (simp add: distinct_sorted)
  then have dist: "distinct (map at_id due)" unfolding due take_map [symmetric] by (rule distinct_take)
  have sub: "t \<in> set (td_triggers (ts_db s)) \<and> is_due (ts_now s) t" if "t \<in> set due" for t
    using that unfolding due by (auto dest: in_set_takeD)
  have fb: "fired_before s' i n \<longleftrightarrow> fired_before s i n" for i n by (simp add: fired_before_def s' put_sched_def)
  have row: "row_ok p s' t \<longleftrightarrow> row_ok p s t" for t
    unfolding row_ok_def fb by (simp add: marking_def s' put_sched_def idle split: option.split)
  show ?thesis
  proof (rule once_invI, unfold fb row)
    fix t
    assume "t \<in> set (sc_due (ts_scheds s' p))"
    then have t: "t \<in> set due" by (simp add: s' put_sched_def)
    from sub [OF t] obtain n where n: "at_next t = Some n" "n \<le> ts_now s" by (auto simp: is_due_def split: option.splits)
    have "row_ok p s t" using d(9) sub [OF t] by blast
    with n idle have "fired_before s (at_id t) (slot n)" by (simp add: row_ok_def marking_def)
    from fired_before_mono [OF this slot_mono [OF n(2)]] show "fired_before s (at_id t) (slot (ts_now s'))"
      by (simp add: s' put_sched_def)
  qed (use d(1-3,5,7,9) dist sub in \<open>auto simp: s' put_sched_def\<close>)
qed

lemma once_fire:
  assumes inv: "once_inv p s" and step: "fire_trigger env p answer s = Some s'"
  shows "once_inv p s'"
proof -
  let ?now = "ts_now s"
  from step obtain t ts x where sc: "sc_due (ts_scheds s p) = t # ts" "sc_phase (ts_scheds s p) = SchedIdle"
    and s': "ts_scheds s' = (ts_scheds s)(p := \<lparr>sc_due = ts, sc_phase = SchedMark (at_id t) ?now (fire_next (at_cron t) ?now) x\<rparr>)"
      "ts_fired s' = ts_fired s @ [(at_id t, ?now)]" "ts_now s' = ?now" "ts_db s' = ts_db s" "ts_ids s' = ts_ids s"
    by (auto simp: fire_trigger_def put_sched_def Let_def split: list.splits sched_phase.splits fire_answer.splits)
  note d = once_invD [OF inv]
  have fb: "fired_before s' i n \<longleftrightarrow> fired_before s i n \<and> (i = at_id t \<longrightarrow> slot ?now < n)" for i n
    by (auto simp: fired_before_def s'(2))
  have before: "fired_before s (at_id t) (slot ?now)" using d(8) sc(1) by simp
  have nxt: "slot ?now < slot (fire_next (at_cron t) ?now)" by (rule fire_next_slot)
  have head: "at_id t \<notin> at_id ` set ts" "distinct (map at_id ts)" using d(6) sc(1) by simp_all
  show ?thesis
  proof (rule once_invI)
    show "distinct (map (\<lambda>(i, a). (i, slot a)) (ts_fired s'))"
      using before d(7) by (auto simp: s'(2) fired_before_def)
    show "fired_before s' (at_id u) (slot (ts_now s'))" if "u \<in> set (sc_due (ts_scheds s' p))" for u
    proof -
      from that have u: "u \<in> set ts" by (simp add: s'(1))
      have "at_id u \<noteq> at_id t" using head(1) imageI [OF u, of at_id] by metis
      with d(8) u sc(1) show ?thesis by (simp add: fb s'(3))
    qed
    show "row_ok p s' u" if "u \<in> set (td_triggers (ts_db s'))" for u
    proof (cases "at_id u = at_id t")
      case True
      then show ?thesis by (simp add: row_ok_def marking_def s'(1))
    next
      case False
      have "row_ok p s u" using d(9) that by (simp add: s'(4))
      with False show ?thesis by (auto simp: row_ok_def marking_def sc(2) fb s'(2) split: option.splits)
    qed
    show "fired_before s' i (slot nx) \<and> i \<notin> at_id ` set (sc_due (ts_scheds s' p))"
      if "sc_phase (ts_scheds s' p) = SchedMark i n nx y" for i n nx y
      using that nxt fired_before_mono [OF before less_imp_le [OF nxt]] head(1) by (auto simp: s'(1) fb)
    show "a \<le> ts_now s'" if "(i, a) \<in> set (ts_fired s')" for i a using that d(5) by (auto simp: s'(2,3))
  qed (use d(1-4) head sc(1) in \<open>auto simp: s'\<close>)
qed
lemma mark_run_rows:
  "td_triggers (mark_run t i at next db)
   = map (\<lambda>r. if at_id r = i then r\<lparr>at_last := Some at, at_next := Some next, at_count := at_count r + 1, at_updated := t\<rparr> else r) (td_triggers db)"
  by (simp add: mark_run_def change_trigger_def)

lemma once_mark:
  assumes inv: "once_inv p s" and step: "mark_fired p True s = Some s'"
  shows "once_inv p s'"
proof -
  from step obtain i now nx x where sc: "sc_phase (ts_scheds s p) = SchedMark i now nx x"
    and s': "ts_db s' = mark_run (ts_now s) i now nx (ts_db s)" "ts_now s' = ts_now s" "ts_fired s' = ts_fired s" "ts_ids s' = ts_ids s"
      "sc_due (ts_scheds s' p) = sc_due (ts_scheds s p)" "\<And>j n m y. sc_phase (ts_scheds s' p) \<noteq> SchedMark j n m y"
    by (auto simp: mark_fired_def put_sched_def Let_def split: sched_phase.splits option.splits)
  note d = once_invD [OF inv]
  have fb: "fired_before s' j n \<longleftrightarrow> fired_before s j n" for j n by (simp add: fired_before_def s'(3))
  have ids: "map at_id (td_triggers (ts_db s')) = map at_id (td_triggers (ts_db s))"
    by (simp add: s'(1) mark_run_rows)
  then have ids': "at_id ` set (td_triggers (ts_db s')) = at_id ` set (td_triggers (ts_db s))" by (metis set_map)
  show ?thesis
  proof (rule once_invI, unfold fb ids ids' s'(2-5))
    show "row_ok p s' u" if "u \<in> set (td_triggers (ts_db s'))" for u
    proof -
      from that obtain r where r: "r \<in> set (td_triggers (ts_db s))"
        "u = (if at_id r = i then r\<lparr>at_last := Some now, at_next := Some nx, at_count := at_count r + 1, at_updated := ts_now s\<rparr> else r)"
        by (auto simp: s'(1) mark_run_rows)
      show ?thesis
      proof (cases "at_id r = i")
        case True
        with r(2) d(10) [OF sc] show ?thesis by (simp add: row_ok_def fb)
      next
        case False
        have "row_ok p s r" using d(9) r(1) by blast
        with False r(2) show ?thesis by (auto simp: row_ok_def marking_def sc fb s'(3) split: option.splits)
      qed
    qed
  qed (use d(1-8) s'(6) in auto)
qed

lemma create_trigger_rows:
  obtains "td_triggers (snd (create_trigger env now i agent req db)) = td_triggers db"
  | row where "td_triggers (snd (create_trigger env now i agent req db)) = td_triggers db @ [row]" "at_id row = i"
proof -
  have "td_triggers (snd (insert_trigger env now i t db)) = td_triggers db
      \<or> (\<exists>row. td_triggers (snd (insert_trigger env now i t db)) = td_triggers db @ [row] \<and> at_id row = i)" for t
    by (auto simp: insert_trigger_def Let_def split: option.split)
  then have "td_triggers (snd (create_trigger env now i agent req db)) = td_triggers db
      \<or> (\<exists>row. td_triggers (snd (create_trigger env now i agent req db)) = td_triggers db @ [row] \<and> at_id row = i)"
    by (simp add: create_trigger_def Let_def split: option.split)
  with that show thesis by blast
qed

lemma once_create:
  assumes inv: "once_inv p s" and new: "i \<notin> ts_ids s"
  shows "once_inv p (s\<lparr>ts_db := snd (create_trigger env now i agent req (ts_db s)), ts_ids := insert i (ts_ids s)\<rparr>)" (is "once_inv p ?s")
proof -
  note d = once_invD [OF inv]
  have fb: "fired_before ?s j n \<longleftrightarrow> fired_before s j n" for j n by (simp add: fired_before_def)
  have row: "row_ok p ?s t \<longleftrightarrow> row_ok p s t" for t by (simp add: row_ok_def fb marking_def split: option.split)
  have fresh: "row_ok p s t" if "at_id t = i" for t
  proof -
    have "i \<notin> fst ` set (ts_fired s)" using new d(3) by blast
    moreover from this have "fired_before s i n" for n by (force simp: fired_before_def)
    ultimately show ?thesis using that by (simp add: row_ok_def split: option.split)
  qed
  show ?thesis
  proof (rule create_trigger_rows [of env now i agent req "ts_db s"])
    assume r: "td_triggers (snd (create_trigger env now i agent req (ts_db s))) = td_triggers (ts_db s)"
    show ?thesis
      by (rule once_invI, unfold fb row) (use d r in auto)
  next
    fix r
    assume r: "td_triggers (snd (create_trigger env now i agent req (ts_db s))) = td_triggers (ts_db s) @ [r]" "at_id r = i"
    show ?thesis
    proof (rule once_invI, unfold fb row)
      show "distinct (map at_id (td_triggers (ts_db ?s)))" using d(1,2) new r by auto
      show "row_ok p s t" if "t \<in> set (td_triggers (ts_db ?s))" for t
        using that r(1) d(9) fresh [of t] r(2) by auto
    qed (use d r in auto)
  qed
qed

lemma once_delete:
  assumes inv: "once_inv p s"
  shows "once_inv p (s\<lparr>ts_db := snd (delete_trigger i (ts_db s))\<rparr>)" (is "once_inv p ?s")
proof -
  note d = once_invD [OF inv]
  have fb: "fired_before ?s j n \<longleftrightarrow> fired_before s j n" for j n by (simp add: fired_before_def)
  have row: "row_ok p ?s t \<longleftrightarrow> row_ok p s t" for t by (simp add: row_ok_def fb marking_def split: option.split)
  have sub: "set (td_triggers (ts_db ?s)) \<subseteq> set (td_triggers (ts_db s))" "distinct (map at_id (td_triggers (ts_db ?s)))"
    using d(1) by (auto simp: delete_trigger_def distinct_map_filter)
  show ?thesis
  proof (rule once_invI, unfold fb row)
    show "at_id ` set (td_triggers (ts_db ?s)) \<subseteq> ts_ids ?s" using d(2) sub(1) by auto
    show "row_ok p s t" if "t \<in> set (td_triggers (ts_db ?s))" for t using that sub(1) d(9) by blast
  qed (use d sub(2) in auto)
qed

lemma once_step:
  assumes "one_scheduler p l" and inv: "once_inv p s" and step: "trigger_step env l s = Some s'"
  shows "once_inv p s'"
proof (cases l)
  case (TrClock n)
  with step show ?thesis by (intro once_cong [OF inv]) (auto simp: trigger_step_def split: if_splits)
next
  case (TrTick q ok)
  with assms step once_tick [OF inv] show ?thesis by (auto simp: trigger_step_def one_scheduler_def)
next
  case (TrFire q a)
  with assms step once_fire [OF inv] show ?thesis by (auto simp: trigger_step_def one_scheduler_def)
next
  case (TrMark q ok)
  with assms step once_mark [OF inv] show ?thesis by (auto simp: trigger_step_def one_scheduler_def)
next
  case (TrRecord q i ok)
  with assms(1) step have r: "record_fired p i ok s = Some s'" by (auto simp: trigger_step_def one_scheduler_def)
  have "td_triggers db' = td_triggers db" if "create_trigger_run n i t x st db = Some db'" for n i t x st db db'
    using that by (auto simp: create_trigger_run_def split: if_splits)
  with r show ?thesis
    by (intro once_cong [OF inv])
      (auto simp: record_fired_def put_sched_def Let_def marking_def split: sched_phase.splits bool.splits option.splits)
next
  case (TrComplete x st turns tokens msg)
  have "td_triggers (snd (complete_for_chat n x st turns tokens msg db)) = td_triggers db" for n db
    by (simp add: complete_for_chat_def complete_run_by_session_def change_run_row_def split: option.split)
  with TrComplete step show ?thesis by (intro once_cong [OF inv]) (auto simp: trigger_step_def)
next
  case (TrCreate i agent req)
  with step have "i \<notin> ts_ids s"
    "s' = s\<lparr>ts_db := snd (create_trigger env (ts_now s) i agent req (ts_db s)), ts_ids := insert i (ts_ids s)\<rparr>"
    by (auto simp: trigger_step_def split: if_splits)
  with once_create [OF inv] show ?thesis by simp
next
  case (TrDelete i)
  with step once_delete [OF inv] show ?thesis by (auto simp: trigger_step_def)
next
  case (TrUpdateRead i req)
  with step show ?thesis by (intro once_cong [OF inv]) (auto simp: trigger_step_def split: sum.splits)
next
  case TrUpdateWrite
  with assms(1) show ?thesis by (simp add: one_scheduler_def)
qed

text \<open>
  C21: With one scheduler whose marks reach the database, and without changes of schedules, no trigger fires twice in the same
  minute: whatever its expression, whatever is created and deleted, whichever sessions and runs cannot be created, and however
  often the scheduler looks.
\<close>

theorem fires_once_a_minute:
  assumes "trigger_steps env ls (new_triggers now agents webhooks) = Some s" and "list_all (one_scheduler p) ls"
  shows "distinct (map (\<lambda>(i, t). (i, t div minute_ns)) (ts_fired s))"
proof -
  have "once_inv p s" using assms by (rule trigger_invariant) (blast intro: once_new once_step)+
  from once_invD(7) [OF this] show ?thesis unfolding slot_def .
qed
section \<open>Examples\<close>

definition lenient_env :: trigger_env where
  "lenient_env = \<lparr>te_scan = (\<lambda>_ _. True), te_message = (\<lambda>_. None), te_loc = (\<lambda>_. 0)\<rparr>"

definition strict_env :: trigger_env where
  "strict_env = lenient_env\<lparr>te_scan := (=)\<rparr>"

definition minutely :: create_trigger_req where
  "minutely = \<lparr>cq_name = ''daily'', cq_cron = ''* * * * *'', cq_enabled = None, cq_template = '''', cq_webhook = None\<rparr>"

lemma minutely_next: "cron_next_run loc ''* * * * *'' t = Inr (t div minute_ns * minute_ns + minute_ns)"
proof -
  have v: "validate_cron ''* * * * *'' = None" "str_fields ''* * * * *'' = [''*'', ''*'', ''*'', ''*'', ''*'']" by code_simp+
  have "0 < n \<Longrightarrow> cron_search loc ''*'' ''*'' n u = Some u" for n u by (cases n) (simp_all add: match_field_def)
  then have "cron_search loc ''*'' ''*'' 1440 u = Some u" for u by simp
  with v show ?thesis by (simp add: cron_next_run_def)
qed

lemmas trigger_eval =
  trigger_step_def tick_tenant_def fire_trigger_def mark_fired_def record_fired_def put_sched_def Let_def new_triggers_def
  create_trigger_def minutely_def next_if_enabled_def insert_trigger_def row_error_def list_due_def is_due_def fire_next_def
  minutely_next mark_run_rows scan_trigger_def find_trigger_def exists_by_name_def columns_and_fields extract_message_def

definition once_trace :: "trigger_label list" where
  "once_trace = [TrCreate ''t1'' ''a'' minutely, TrClock (90 * 1000000000), TrTick 0 True, TrFire 0 (FiredRun ''s1''), TrMark 0 True,
     TrRecord 0 ''r1'' True, TrTick 0 True, TrClock (30 * 1000000000), TrTick 0 True, TrFire 0 NoSession, TrMark 0 True]"

lemma once_trace_fires:
  "\<exists>s. trigger_steps lenient_env once_trace (new_triggers 0 {''a''} {}) = Some s
     \<and> ts_fired s = [(''t1'', 90 * 1000000000), (''t1'', 120 * 1000000000)]"
proof -
  have "strip_html ''daily'' = ''daily''" "validate_cron ''* * * * *'' = None" "normalize_input_template '''' = ''''" by code_simp+
  then show ?thesis by (simp add: once_trace_def trigger_eval lenient_env_def minute_ns_def create_trigger_run_def mark_run_def change_trigger_def)
qed
theorem fires_once_a_minute_witness:
  "\<exists>s. trigger_steps lenient_env once_trace (new_triggers 0 {''a''} {}) = Some s
     \<and> ts_fired s = [(''t1'', 90 * 1000000000), (''t1'', 120 * 1000000000)]
     \<and> distinct (map (\<lambda>(i, t). (i, t div minute_ns)) (ts_fired s))"
proof -
  obtain s where s: "trigger_steps lenient_env once_trace (new_triggers 0 {''a''} {}) = Some s"
    "ts_fired s = [(''t1'', 90 * 1000000000), (''t1'', 120 * 1000000000)]"
    using once_trace_fires by (elim exE conjE)
  have "list_all (one_scheduler 0) once_trace" by (simp add: once_trace_def one_scheduler_def)
  from fires_once_a_minute [OF s(1) this] s show ?thesis by (intro exI conjI)
qed

text \<open>The same requests with strict rows: the trigger is in the table, enabled and due, and does not fire.\<close>

lemma strict_trace:
  "\<exists>s. trigger_steps strict_env [TrCreate ''t1'' ''a'' minutely, TrClock (90 * 1000000000), TrTick 0 True] (new_triggers 0 {''a''} {}) = Some s
     \<and> map at_next (filter (is_due (ts_now s)) (td_triggers (ts_db s))) = [Some (60 * 1000000000)]"
proof -
  have "strip_html ''daily'' = ''daily''" "validate_cron ''* * * * *'' = None" "normalize_input_template '''' = ''''" by code_simp+
  then show ?thesis by (simp add: trigger_eval lenient_env_def strict_env_def minute_ns_def)
qed

theorem strict_rows_never_fire_witness:
  "\<exists>s. trigger_steps strict_env [TrCreate ''t1'' ''a'' minutely, TrClock (90 * 1000000000), TrTick 0 True] (new_triggers 0 {''a''} {}) = Some s
     \<and> map at_next (filter (is_due (ts_now s)) (td_triggers (ts_db s))) = [Some (60 * 1000000000)] \<and> ts_fired s = []"
proof -
  obtain s where s: "trigger_steps strict_env [TrCreate ''t1'' ''a'' minutely, TrClock (90 * 1000000000), TrTick 0 True] (new_triggers 0 {''a''} {}) = Some s"
    "map at_next (filter (is_due (ts_now s)) (td_triggers (ts_db s))) = [Some (60 * 1000000000)]"
    using strict_trace by (elim exE conjE)
  have "\<not> te_scan strict_env 12 11" by (simp add: strict_env_def)
  then have "ts_fired s = []" by (rule strict_rows_never_fire [OF s(1), THEN conjunct1])
  with s show ?thesis by (intro exI conjI)
qed

text \<open>Two schedulers, as two processes have them, fire the same trigger for the same time.\<close>

lemma two_schedulers_fire_twice:
  "\<exists>s. trigger_steps lenient_env [TrCreate ''t1'' ''a'' minutely, TrClock (90 * 1000000000), TrTick 0 True, TrTick 1 True,
        TrFire 0 (FiredRun ''s1''), TrFire 1 (FiredRun ''s2''), TrMark 0 True, TrMark 1 True] (new_triggers 0 {''a''} {}) = Some s
     \<and> ts_fired s = [(''t1'', 90 * 1000000000), (''t1'', 90 * 1000000000)] \<and> map fst (ts_enqueued s) = [''s1'', ''s2'']"
proof -
  have "strip_html ''daily'' = ''daily''" "validate_cron ''* * * * *'' = None" "normalize_input_template '''' = ''''" by code_simp+
  then show ?thesis by (simp add: trigger_eval lenient_env_def minute_ns_def mark_run_def change_trigger_def)
qed

text \<open>A run that ends before its row is written leaves the row running for ever.\<close>

lemma early_end_stays_running:
  "\<exists>s. trigger_steps lenient_env [TrCreate ''t1'' ''a'' minutely, TrClock (90 * 1000000000), TrTick 0 True, TrFire 0 (FiredRun ''s1''),
        TrMark 0 True, TrComplete ''s1'' ChatCompleted 1 10 '''', TrRecord 0 ''r1'' True] (new_triggers 0 {''a''} {}) = Some s
     \<and> map tr_status (td_runs (ts_db s)) = [TrRunning]"
proof -
  have "strip_html ''daily'' = ''daily''" "validate_cron ''* * * * *'' = None" "normalize_input_template '''' = ''''" by code_simp+
  then show ?thesis
    by (simp add: trigger_eval lenient_env_def minute_ns_def mark_run_def change_trigger_def create_trigger_run_def
        complete_for_chat_def complete_run_by_session_def running_of_session_def)
qed

text \<open>An update that was read before a fire and is written after the mark brings back the old time: the trigger fires again.\<close>

definition no_change :: update_trigger_req where
  "no_change = \<lparr>uq_name = None, uq_cron = None, uq_enabled = None, uq_template = None, uq_webhook = None\<rparr>"

lemma update_fires_twice:
  "\<exists>s. trigger_steps lenient_env [TrCreate ''t1'' ''a'' minutely, TrClock (59 * 1000000000), TrUpdateRead ''t1'' no_change, TrClock (2 * 1000000000),
        TrTick 0 True, TrFire 0 (FiredRun ''s1''), TrMark 0 True, TrRecord 0 ''r1'' True, TrUpdateWrite,
        TrTick 0 True, TrFire 0 (FiredRun ''s2'')] (new_triggers 0 {''a''} {}) = Some s
     \<and> ts_fired s = [(''t1'', 61 * 1000000000), (''t1'', 61 * 1000000000)]"
proof -
  have "strip_html ''daily'' = ''daily''" "validate_cron ''* * * * *'' = None" "normalize_input_template '''' = ''''" by code_simp+
  then show ?thesis
    by (simp add: trigger_eval lenient_env_def minute_ns_def mark_run_def change_trigger_def create_trigger_run_def no_change_def
        get_trigger_def then_ok_def updated_trigger_def set_trigger_name_def set_trigger_cron_def set_trigger_template_def write_trigger_def)
qed

text \<open>An update can give a trigger an empty name, and the name of another trigger of the agent.\<close>

lemma update_accepts_empty_name:
  "set_trigger_name (Some ''<b>'') t = Inr (t\<lparr>at_name := ''''\<rparr>)"
proof -
  have "strip_html ''<b>'' = ''''" by code_simp
  then show ?thesis by (simp add: set_trigger_name_def)
qed

text \<open>The hook closes at most one row, the newest running one of its session.\<close>

lemma completion_closes_one:
  assumes "distinct (map tr_id (td_runs db))"
  shows "case running_of_session session db of
      None \<Rightarrow> snd (complete_run_by_session now session st turns tokens err db) = db
    | Some r \<Rightarrow> r \<in> set (td_runs db) \<and> tr_session r = session \<and> tr_status r = TrRunning
        \<and> (\<forall>x\<in>set (td_runs db). tr_session x = session \<and> tr_status x = TrRunning \<longrightarrow> tr_started x \<le> tr_started r)
        \<and> td_runs (snd (complete_run_by_session now session st turns tokens err db))
          = map (\<lambda>x. if x = r then close_trigger_run now st turns tokens err x else x) (td_runs db)"
proof (cases "running_of_session session db")
  case None
  then show ?thesis by (simp add: complete_run_by_session_def)
next
  case (Some r)
  let ?f = "filter (\<lambda>r. tr_session r = session \<and> tr_status r = TrRunning) (td_runs db)"
  from Some obtain rest where rest: "rev (sort_key tr_started ?f) = r # rest" by (auto simp: running_of_session_def split: list.splits)
  then have l: "sort_key tr_started ?f = rev rest @ [r]" by (metis rev.simps(2) rev_rev_ident)
  then have "r \<in> set (sort_key tr_started ?f)" by simp
  then have r: "r \<in> set (td_runs db)" "tr_session r = session" "tr_status r = TrRunning" by simp_all
  have "sorted (map tr_started (rev rest @ [r]))" using sorted_sort_key [of tr_started ?f] by (simp only: l)
  then have "\<forall>x\<in>set (rev rest @ [r]). tr_started x \<le> tr_started r" by (auto simp: sorted_append)
  moreover have "set (rev rest @ [r]) = set ?f" by (metis l set_sort)
  ultimately have newest: "\<forall>x\<in>set ?f. tr_started x \<le> tr_started r" by (simp only:)
  have "x = r" if "x \<in> set (td_runs db)" "tr_id x = tr_id r" for x
    using that r(1) assms by (auto simp: distinct_map dest: inj_onD)
  then have "td_runs (snd (complete_run_by_session now session st turns tokens err db))
      = map (\<lambda>x. if x = r then close_trigger_run now st turns tokens err x else x) (td_runs db)"
    by (auto simp: complete_run_by_session_def Some change_run_row_def)
  with Some r newest show ?thesis by simp
qed


end
