(* ===== verification/Uploader.thy ===== *)
theory Uploader
  imports GoStrings
begin

text \<open>
  The serial uploader of event batches (\<^verbatim>\<open>batchuploader.go\<close>), the gate that keeps messages back during an initial flush
  (\<^verbatim>\<open>flushgate.go\<close>) and the accumulator of outputs of bounded size (\<^verbatim>\<open>truncaccumulator.go\<close>), all under
  \<^verbatim>\<open>src/internal/domain/chat/agentic\<close>. The function that uploads is an argument over a world of its own, as are the sleep
  and the exponential delay with its jitter; an item is its serialized text, None what cannot be serialized. Uploads are
  the calls of one goroutine, with no enqueue between the steps of one upload or flush.
\<close>

section \<open>The uploader\<close>

record uploader_config =
  uc_max_batch_size :: int
  uc_max_batch_bytes :: int
  uc_max_queue_size :: int
  uc_max_failures :: int
  uc_base_delay :: int
  uc_max_delay :: int

definition default_uploader_config :: uploader_config where
  "default_uploader_config =
     \<lparr>uc_max_batch_size = 100, uc_max_batch_bytes = 1024 * 1024, uc_max_queue_size = 10000, uc_max_failures = 5,
      uc_base_delay = 1000000000, uc_max_delay = 30 * 1000000000\<rparr>"

record uploader =
  bu_config :: uploader_config
  bu_queue :: "string list"
  bu_failures :: int
  bu_dropped :: int
  bu_uploaded :: int
  bu_closed :: bool

definition or_default :: "int \<Rightarrow> int \<Rightarrow> int" where
  "or_default x d = (if x \<le> 0 then d else x)"

definition new_batch_uploader :: "uploader_config \<Rightarrow> uploader" where
  "new_batch_uploader cfg =
     \<lparr>bu_config =
        \<lparr>uc_max_batch_size = or_default (uc_max_batch_size cfg) 100,
         uc_max_batch_bytes = or_default (uc_max_batch_bytes cfg) (1024 * 1024),
         uc_max_queue_size = or_default (uc_max_queue_size cfg) 10000,
         uc_max_failures = or_default (uc_max_failures cfg) 5,
         uc_base_delay = or_default (uc_base_delay cfg) 1000000000,
         uc_max_delay = or_default (uc_max_delay cfg) (30 * 1000000000)\<rparr>,
      bu_queue = [], bu_failures = 0, bu_dropped = 0, bu_uploaded = 0, bu_closed = False\<rparr>"

text \<open>An enqueue that finds the queue full waits until a batch is taken or the uploader is closed.\<close>

datatype enqueue_outcome = EnqueueRefused | EnqueueWaits | Enqueued

definition enqueue_raw :: "string \<Rightarrow> uploader \<Rightarrow> enqueue_outcome \<times> uploader" where
  "enqueue_raw data u =
     (if bu_closed u then (EnqueueRefused, u)
      else if uc_max_queue_size (bu_config u) \<le> int (length (bu_queue u)) then (EnqueueWaits, u)
      else (Enqueued, u\<lparr>bu_queue := bu_queue u @ [data]\<rparr>))"

definition enqueue_item :: "string option \<Rightarrow> uploader \<Rightarrow> enqueue_outcome \<times> uploader" where
  "enqueue_item item u = (case item of None \<Rightarrow> (EnqueueRefused, u) | Some data \<Rightarrow> enqueue_raw data u)"

text \<open>The loop of \<^verbatim>\<open>TakeBatch\<close> over the first items: the bytes so far, and whether the batch has an item already.\<close>

fun batch_scan :: "int \<Rightarrow> int \<Rightarrow> bool \<Rightarrow> string list \<Rightarrow> string list" where
  "batch_scan max_bytes used started [] = []"
| "batch_scan max_bytes used started (d # ds) =
     (if max_bytes < used + int (length d) \<and> started then []
      else d # batch_scan max_bytes (used + int (length d)) True ds)"

definition take_batch :: "uploader \<Rightarrow> string list \<times> uploader" where
  "take_batch u =
     (if bu_queue u = [] then ([], u)
      else let n = min (int (length (bu_queue u))) (uc_max_batch_size (bu_config u));
               batch = batch_scan (uc_max_batch_bytes (bu_config u)) 0 False (take (nat n) (bu_queue u))
           in (batch, u\<lparr>bu_queue := drop (length batch) (bu_queue u)\<rparr>))"

text \<open>The delay before the next attempt, from the exponential delay with its jitter and the hint of the server.\<close>

definition upload_retry_delay :: "uploader_config \<Rightarrow> int \<Rightarrow> int \<Rightarrow> int" where
  "upload_retry_delay cfg backoff hint =
     (let delay = (if uc_max_delay cfg < backoff then uc_max_delay cfg else backoff)
      in if 0 < hint \<and> delay < hint then hint else delay)"

record 'w upload_env =
  ue_upload :: "string list \<Rightarrow> 'w \<Rightarrow> (int \<times> bool) \<times> 'w"
  ue_backoff :: "nat \<Rightarrow> int"
  ue_sleep :: "int \<Rightarrow> 'w \<Rightarrow> 'w"

text \<open>The attempts of \<^verbatim>\<open>UploadOnce\<close>: how many are left, and the number of the next one.\<close>

fun upload_loop :: "'w upload_env \<Rightarrow> string list \<Rightarrow> nat \<Rightarrow> nat \<Rightarrow> uploader \<Rightarrow> 'w \<Rightarrow> (int \<times> bool) \<times> uploader \<times> 'w" where
  "upload_loop env batch 0 attempt u w = ((0, False), u, w)"
| "upload_loop env batch (Suc n) attempt u w =
     (case ue_upload env batch w of
        ((retry_after, ok), w1) \<Rightarrow>
          if ok
          then ((int (length batch), False),
                u\<lparr>bu_failures := 0, bu_uploaded := bu_uploaded u + int (length batch)\<rparr>, w1)
          else let u1 = u\<lparr>bu_failures := bu_failures u + 1\<rparr>
               in if uc_max_failures (bu_config u) \<le> bu_failures u1
                  then ((0, True), u1\<lparr>bu_dropped := bu_dropped u1 + 1, bu_failures := 0\<rparr>, w1)
                  else upload_loop env batch n (Suc attempt) u1
                         (ue_sleep env (upload_retry_delay (bu_config u) (ue_backoff env attempt) retry_after) w1))"

definition upload_once :: "'w upload_env \<Rightarrow> uploader \<Rightarrow> 'w \<Rightarrow> (int \<times> bool) \<times> uploader \<times> 'w" where
  "upload_once env u w =
     (case take_batch u of
        (batch, u1) \<Rightarrow>
          if batch = [] then ((0, False), u1, w)
          else upload_loop env batch (nat (uc_max_failures (bu_config u1) + 1)) 0 u1 w)"

partial_function (option) flush :: "'w upload_env \<Rightarrow> uploader \<Rightarrow> 'w \<Rightarrow> (uploader \<times> 'w) option" where
  "flush env u w =
     (if bu_queue u = [] then Some (u, w)
      else case upload_once env u w of (r, u1, w1) \<Rightarrow> flush env u1 w1)"

definition close_uploader :: "uploader \<Rightarrow> uploader" where
  "close_uploader u = u\<lparr>bu_closed := True\<rparr>"

record uploader_stats =
  us_queue_len :: int
  us_uploaded :: int
  us_dropped :: int
  us_closed :: bool

definition stats :: "uploader \<Rightarrow> uploader_stats" where
  "stats u = \<lparr>us_queue_len = int (length (bu_queue u)), us_uploaded = bu_uploaded u, us_dropped = bu_dropped u,
              us_closed = bu_closed u\<rparr>"

subsection \<open>Batches\<close>

definition valid_config :: "uploader_config \<Rightarrow> bool" where
  "valid_config cfg = (0 < uc_max_batch_size cfg \<and> 0 < uc_max_failures cfg)"

definition batch_fits :: "uploader_config \<Rightarrow> string list \<Rightarrow> bool" where
  "batch_fits cfg b =
     (b \<noteq> [] \<and> int (length b) \<le> uc_max_batch_size cfg
      \<and> ((\<Sum>d\<leftarrow>b. int (length d)) \<le> uc_max_batch_bytes cfg \<or> length b = 1))"

lemma batch_scan_prefix: "take (length (batch_scan m used started ds)) ds = batch_scan m used started ds"
  by (induction ds arbitrary: used started) auto

lemma batch_scan_bytes: "batch_scan m used True ds = [] \<or> used + (\<Sum>d\<leftarrow>batch_scan m used True ds. int (length d)) \<le> m"
proof (induction ds arbitrary: used)
  case (Cons d ds)
  then show ?case using Cons.IH [of "used + int (length d)"] by (auto simp: add.assoc)
qed simp

lemma batch_scan_length: "length (batch_scan m used started ds) \<le> length ds"
  by (induction ds arbitrary: used started) auto

lemma take_batch_split:
  assumes "valid_config (bu_config u)" and "bu_queue u \<noteq> []"
  obtains b rest where "take_batch u = (b, u\<lparr>bu_queue := rest\<rparr>)" "bu_queue u = b @ rest" "batch_fits (bu_config u) b"
proof -
  let ?c = "bu_config u"
  let ?n = "min (int (length (bu_queue u))) (uc_max_batch_size ?c)"
  let ?b = "batch_scan (uc_max_batch_bytes ?c) 0 False (take (nat ?n) (bu_queue u))"
  have n: "0 < nat ?n" "nat ?n \<le> length (bu_queue u)" using assms by (auto simp: valid_config_def)
  then obtain d ds where q: "take (nat ?n) (bu_queue u) = d # ds" using assms(2) by (cases "bu_queue u"; cases "nat ?n") auto
  have b: "?b = d # batch_scan (uc_max_batch_bytes ?c) (int (length d)) True ds" by (simp add: q)
  have "take (length ?b) (take (nat ?n) (bu_queue u)) = ?b" by (rule batch_scan_prefix)
  moreover have len: "length ?b \<le> nat ?n"
    using batch_scan_length [of "uc_max_batch_bytes ?c" 0 False "take (nat ?n) (bu_queue u)"] by simp
  ultimately have pre: "take (length ?b) (bu_queue u) = ?b" by (simp add: min_absorb1)
  have "batch_fits ?c ?b"
    using batch_scan_bytes [of "uc_max_batch_bytes ?c" "int (length d)" ds] len n b by (auto simp: batch_fits_def)
  with that [of ?b "drop (length ?b) (bu_queue u)"] pre show thesis
    using assms(2) append_take_drop_id [of "length ?b" "bu_queue u"] by (simp add: take_batch_def Let_def)
qed

subsection \<open>Uploads\<close>

text \<open>The upload function with a log of its calls: the batch and whether it succeeded.\<close>

definition logged :: "'w upload_env \<Rightarrow> ((string list \<times> bool) list \<times> 'w) upload_env" where
  "logged env =
     \<lparr>ue_upload = (\<lambda>b (log, w). case ue_upload env b w of ((hint, ok), w') \<Rightarrow> ((hint, ok), log @ [(b, ok)], w')),
      ue_backoff = ue_backoff env,
      ue_sleep = (\<lambda>d (log, w). (log, ue_sleep env d w))\<rparr>"

text \<open>The calls for one batch, by the number of its failures.\<close>

definition batch_calls :: "nat \<Rightarrow> string list \<times> nat \<Rightarrow> (string list \<times> bool) list" where
  "batch_calls n g = (case g of (b, f) \<Rightarrow> replicate f (b, False) @ (if f < n then [(b, True)] else []))"

lemma upload_loop_logged:
  assumes "bu_failures u = int k" and "uc_max_failures (bu_config u) = int m" and "k < m" and "m < n + k"
  shows "\<exists>f w'. k + f \<le> m \<and>
    upload_loop (logged env) b n a u (log, w) =
      (if k + f < m
       then ((int (length b), False), u\<lparr>bu_failures := 0, bu_uploaded := bu_uploaded u + int (length b)\<rparr>,
             log @ replicate f (b, False) @ [(b, True)], w')
       else ((0, True), u\<lparr>bu_failures := 0, bu_dropped := bu_dropped u + 1\<rparr>, log @ replicate f (b, False), w'))"
  using assms
proof (induction n arbitrary: k a u log w)
  case 0
  then show ?case by simp
next
  case (Suc n)
  obtain hint ok w1 where up: "ue_upload env b w = ((hint, ok), w1)" by (metis prod.exhaust)
  have log: "ue_upload (logged env) b (log, w) = ((hint, ok), log @ [(b, ok)], w1)" by (simp add: logged_def up)
  show ?case
  proof (cases ok)
    case True
    then show ?thesis using Suc.prems by (intro exI [of _ 0] exI [of _ w1]) (simp add: log)
  next
    case False
    show ?thesis
    proof (cases "Suc k < m")
      case True
      let ?u = "u\<lparr>bu_failures := bu_failures u + 1\<rparr>"
      let ?d = "upload_retry_delay (bu_config u) (ue_backoff env a) hint"
      obtain f w' where f: "Suc k + f \<le> m" and run: "upload_loop (logged env) b n (Suc a) ?u (log @ [(b, ok)], ue_sleep env ?d w1) =
         (if Suc k + f < m
          then ((int (length b), False), ?u\<lparr>bu_failures := 0, bu_uploaded := bu_uploaded ?u + int (length b)\<rparr>,
                (log @ [(b, ok)]) @ replicate f (b, False) @ [(b, True)], w')
          else ((0, True), ?u\<lparr>bu_failures := 0, bu_dropped := bu_dropped ?u + 1\<rparr>,
                (log @ [(b, ok)]) @ replicate f (b, False), w'))"
        using Suc.IH [of ?u "Suc k" "Suc a" "log @ [(b, ok)]" "ue_sleep env ?d w1"] Suc.prems True by auto
      have "upload_loop (logged env) b (Suc n) a u (log, w) =
          upload_loop (logged env) b n (Suc a) ?u (log @ [(b, ok)], ue_sleep env ?d w1)"
        using False True Suc.prems(1,2) by (simp add: log) (simp add: logged_def)
      with run f False show ?thesis by (intro exI [of _ "Suc f"] exI [of _ w']) simp
    next
      case last: False
      then show ?thesis using False Suc.prems by (intro exI [of _ 1] exI [of _ w1]) (simp add: log)
    qed
  qed
qed

lemma upload_once_logged:
  assumes "valid_config (bu_config u)" and "bu_failures u = 0" and "bu_queue u \<noteq> []"
  obtains b rest f w' where "bu_queue u = b @ rest" "batch_fits (bu_config u) b" "f \<le> nat (uc_max_failures (bu_config u))"
    "upload_once (logged env) u (log, w) =
       ((if f < nat (uc_max_failures (bu_config u)) then (int (length b), False) else (0, True)),
        u\<lparr>bu_queue := rest,
          bu_uploaded := bu_uploaded u + (if f < nat (uc_max_failures (bu_config u)) then int (length b) else 0),
          bu_dropped := bu_dropped u + (if f < nat (uc_max_failures (bu_config u)) then 0 else 1)\<rparr>,
        log @ batch_calls (nat (uc_max_failures (bu_config u))) (b, f), w')"
proof -
  let ?m = "nat (uc_max_failures (bu_config u))"
  obtain b rest where b: "take_batch u = (b, u\<lparr>bu_queue := rest\<rparr>)" "bu_queue u = b @ rest" "batch_fits (bu_config u) b"
    using take_batch_split [OF assms(1,3)] .
  have m: "uc_max_failures (bu_config u) = int ?m" "0 < ?m" using assms(1) by (auto simp: valid_config_def)
  let ?v = "u\<lparr>bu_queue := rest\<rparr>"
  have "bu_failures ?v = int 0" "uc_max_failures (bu_config ?v) = int ?m" "?m < Suc ?m + 0" using m(1) assms(2) by simp_all
  from upload_loop_logged [OF this(1,2) m(2) this(3), of env b 0 log w]
  obtain f w' where f: "f \<le> ?m" and run: "upload_loop (logged env) b (Suc ?m) 0 ?v (log, w) =
      (if f < ?m
       then ((int (length b), False), ?v\<lparr>bu_failures := 0, bu_uploaded := bu_uploaded ?v + int (length b)\<rparr>,
             log @ replicate f (b, False) @ [(b, True)], w')
       else ((0, True), ?v\<lparr>bu_failures := 0, bu_dropped := bu_dropped ?v + 1\<rparr>, log @ replicate f (b, False), w'))"
    unfolding add_0 by blast
  have "nat (uc_max_failures (bu_config u) + 1) = Suc ?m" using m by simp
  moreover have "b \<noteq> []" using b(3) by (simp add: batch_fits_def)
  ultimately have "upload_once (logged env) u (log, w) = upload_loop (logged env) b (Suc ?m) 0 ?v (log, w)"
    by (simp only: upload_once_def b(1) prod.case if_False) simp
  with that [OF b(2,3) f] run assms(2) show thesis by (simp add: batch_calls_def)
qed

text \<open>
  C29: with a configuration as the constructor makes it, flushing ends and leaves the queue empty: the queue is cut, in
  order and without remainder, into batches within the limits of count and bytes (a batch above the byte limit is a
  single item), and each batch is uploaded by itself before the next one, attempted until it succeeds, and dropped
  after as many failures as allowed. The counters are those of the uploaded items and dropped batches. The last of the
  attempts that the loop provides for is never made.
\<close>

theorem flush_uploads_in_order:
  assumes "valid_config (bu_config u)" and "bu_failures u = 0"
  shows "\<exists>gs w'. let n = nat (uc_max_failures (bu_config u)) in
    concat (map fst gs) = bu_queue u
    \<and> list_all (\<lambda>(b, f). batch_fits (bu_config u) b \<and> f \<le> n) gs
    \<and> flush (logged env) u (log, w) =
        Some (u\<lparr>bu_queue := [],
                bu_uploaded := bu_uploaded u + (\<Sum>(b, f)\<leftarrow>gs. if f < n then int (length b) else 0),
                bu_dropped := bu_dropped u + (\<Sum>(b, f)\<leftarrow>gs. if f < n then 0 else 1)\<rparr>,
              log @ concat (map (batch_calls n) gs), w')"
  using assms
proof (induction "length (bu_queue u)" arbitrary: u log w rule: less_induct)
  case less
  let ?n = "nat (uc_max_failures (bu_config u))"
  show ?case
  proof (cases "bu_queue u = []")
    case True
    then show ?thesis by (intro exI [of _ "[]"] exI [of _ w]) (simp add: flush.simps)
  next
    case False
    obtain b rest f w1 where b: "bu_queue u = b @ rest" "batch_fits (bu_config u) b" "f \<le> ?n"
      and once: "upload_once (logged env) u (log, w) =
       ((if f < ?n then (int (length b), False) else (0, True)),
        u\<lparr>bu_queue := rest, bu_uploaded := bu_uploaded u + (if f < ?n then int (length b) else 0),
          bu_dropped := bu_dropped u + (if f < ?n then 0 else 1)\<rparr>, log @ batch_calls ?n (b, f), w1)"
      using upload_once_logged [OF less.prems False] .
    let ?u = "u\<lparr>bu_queue := rest, bu_uploaded := bu_uploaded u + (if f < ?n then int (length b) else 0),
          bu_dropped := bu_dropped u + (if f < ?n then 0 else 1)\<rparr>"
    have "length (bu_queue ?u) < length (bu_queue u)" using b(1,2) by (simp add: batch_fits_def)
    from less.hyps [OF this, of "log @ batch_calls ?n (b, f)" w1] less.prems
    obtain gs w' where gs: "concat (map fst gs) = rest" "list_all (\<lambda>(b, f). batch_fits (bu_config u) b \<and> f \<le> ?n) gs"
      and run: "flush (logged env) ?u (log @ batch_calls ?n (b, f), w1) =
        Some (?u\<lparr>bu_queue := [],
                bu_uploaded := bu_uploaded ?u + (\<Sum>(b, f)\<leftarrow>gs. if f < ?n then int (length b) else 0),
                bu_dropped := bu_dropped ?u + (\<Sum>(b, f)\<leftarrow>gs. if f < ?n then 0 else 1)\<rparr>,
              (log @ batch_calls ?n (b, f)) @ concat (map (batch_calls ?n) gs), w')"
      by (auto simp: Let_def)
    have "flush (logged env) u (log, w) = flush (logged env) ?u (log @ batch_calls ?n (b, f), w1)"
      by (subst flush.simps) (simp only: False if_False once prod.case)
    with run gs b show ?thesis by (intro exI [of _ "(b, f) # gs"] exI [of _ w']) (simp add: Let_def add.assoc)
  qed
qed

lemma new_uploader_valid: "valid_config (bu_config (new_batch_uploader cfg)) \<and> bu_failures (new_batch_uploader cfg) = 0"
  by (simp add: valid_config_def new_batch_uploader_def or_default_def)

definition sample_uploader :: uploader where
  "sample_uploader =
     snd (enqueue_raw ''c'' (snd (enqueue_raw ''b'' (snd (enqueue_raw ''a''
       (new_batch_uploader (default_uploader_config\<lparr>uc_max_batch_size := 2, uc_max_failures := 2\<rparr>)))))))"

definition failing_env :: "nat upload_env" where
  "failing_env = \<lparr>ue_upload = (\<lambda>b n. ((0, 2 \<le> n), Suc n)), ue_backoff = (\<lambda>_. 0), ue_sleep = (\<lambda>_ n. n)\<rparr>"

theorem flush_uploads_in_order_witness:
  "\<exists>gs w'. concat (map fst gs) = [''a'', ''b'', ''c'']
     \<and> map_option (\<lambda>(u, l, w). (bu_queue u, l, w)) (flush (logged failing_env) sample_uploader ([], 0))
       = Some ([], concat (map (batch_calls 2) gs), w')"
proof -
  have u: "valid_config (bu_config sample_uploader)" "bu_failures sample_uploader = 0"
    "bu_queue sample_uploader = [''a'', ''b'', ''c'']" "nat (uc_max_failures (bu_config sample_uploader)) = 2"
    by (simp_all add: sample_uploader_def enqueue_raw_def new_batch_uploader_def or_default_def default_uploader_config_def
        valid_config_def)
  from flush_uploads_in_order [OF u(1,2), of failing_env "[]" 0] u(3,4) show ?thesis by (auto simp: Let_def)
qed

section \<open>The flush gate\<close>

datatype gate_state = GateInactive | GateActive | GateDeactivated

record 'a flush_gate =
  fg_state :: gate_state
  fg_queue :: "'a list"

definition new_flush_gate :: "'a flush_gate" where
  "new_flush_gate = \<lparr>fg_state = GateInactive, fg_queue = []\<rparr>"

definition gate_start :: "'a flush_gate \<Rightarrow> 'a flush_gate" where
  "gate_start g = g\<lparr>fg_state := GateActive, fg_queue := []\<rparr>"

definition gate_send :: "'a \<Rightarrow> 'a flush_gate \<Rightarrow> bool \<times> 'a flush_gate" where
  "gate_send x g = (if fg_state g \<noteq> GateActive then (False, g) else (True, g\<lparr>fg_queue := fg_queue g @ [x]\<rparr>))"

definition gate_end :: "'a flush_gate \<Rightarrow> 'a list \<times> 'a flush_gate" where
  "gate_end g = (fg_queue g, g\<lparr>fg_queue := [], fg_state := GateInactive\<rparr>)"

definition gate_deactivate :: "'a flush_gate \<Rightarrow> 'a flush_gate" where
  "gate_deactivate g = g\<lparr>fg_queue := [], fg_state := GateDeactivated\<rparr>"

definition gate_is_active :: "'a flush_gate \<Rightarrow> bool" where
  "gate_is_active g = (fg_state g = GateActive)"

definition gate_queue_len :: "'a flush_gate \<Rightarrow> nat" where
  "gate_queue_len g = length (fg_queue g)"

text \<open>
  A client that forwards at once what the gate lets pass, and what \<^verbatim>\<open>End\<close> returns: the items that reach the
  transport, for a sequence of calls.
\<close>

datatype 'a gate_op = GateStart | GateSend 'a | GateEnd | GateDeactivate

fun gate_run :: "'a gate_op list \<Rightarrow> 'a flush_gate \<Rightarrow> 'a list \<times> 'a flush_gate" where
  "gate_run [] g = ([], g)"
| "gate_run (GateStart # ops) g = gate_run ops (gate_start g)"
| "gate_run (GateSend x # ops) g =
     (case gate_send x g of (queued, g1) \<Rightarrow> case gate_run ops g1 of (out, g2) \<Rightarrow> ((if queued then out else x # out), g2))"
| "gate_run (GateEnd # ops) g =
     (case gate_end g of (items, g1) \<Rightarrow> case gate_run ops g1 of (out, g2) \<Rightarrow> (items @ out, g2))"
| "gate_run (GateDeactivate # ops) g = gate_run ops (gate_deactivate g)"

fun gate_sent :: "'a gate_op list \<Rightarrow> 'a list" where
  "gate_sent [] = []"
| "gate_sent (GateSend x # ops) = x # gate_sent ops"
| "gate_sent (p # ops) = gate_sent ops"

text \<open>No call discards items: the gate is not started while it holds some, and not deactivated.\<close>

fun gate_keeps :: "'a gate_op list \<Rightarrow> 'a flush_gate \<Rightarrow> bool" where
  "gate_keeps [] g = True"
| "gate_keeps (GateStart # ops) g = (fg_queue g = [] \<and> gate_keeps ops (gate_start g))"
| "gate_keeps (GateSend x # ops) g = gate_keeps ops (snd (gate_send x g))"
| "gate_keeps (GateEnd # ops) g = gate_keeps ops (snd (gate_end g))"
| "gate_keeps (GateDeactivate # ops) g = False"

text \<open>The queue is empty unless the gate is active, so what passes never overtakes what waits.\<close>

definition gate_inv :: "'a flush_gate \<Rightarrow> bool" where
  "gate_inv g = (fg_state g \<noteq> GateActive \<longrightarrow> fg_queue g = [])"

lemma gate_inv_ops:
  "gate_inv new_flush_gate" "gate_inv (gate_start g)" "gate_inv g \<Longrightarrow> gate_inv (snd (gate_send x g))"
  "gate_inv (snd (gate_end g))" "gate_inv (gate_deactivate g)"
  by (simp_all add: gate_inv_def new_flush_gate_def gate_start_def gate_send_def gate_end_def gate_deactivate_def)

lemma gate_run_order:
  "gate_inv g \<Longrightarrow> gate_keeps ops g \<Longrightarrow>
   fst (gate_run ops g) @ fg_queue (snd (gate_run ops g)) = fg_queue g @ gate_sent ops"
proof (induction ops g rule: gate_run.induct)
  case (2 ops g)
  then show ?case using gate_inv_ops(2) [of g] by (simp add: gate_start_def)
next
  case (3 x ops g)
  then show ?case using gate_inv_ops(3) [of g x]
    by (auto simp: gate_send_def gate_inv_def split: prod.splits if_splits)
next
  case (4 ops g)
  then show ?case using gate_inv_ops(4) [of g] by (auto simp: gate_end_def split: prod.splits)
qed simp_all

lemma gate_restart_discards: "fst (gate_run [GateStart, GateSend x, GateStart, GateEnd] new_flush_gate) = []"
  by (simp add: gate_start_def gate_send_def gate_end_def)

section \<open>The truncating accumulator\<close>

record accumulator =
  ta_content :: string
  ta_max :: int
  ta_truncated :: bool
  ta_total :: int

definition new_accumulator :: "int \<Rightarrow> accumulator" where
  "new_accumulator m = \<lparr>ta_content = [], ta_max = (if m \<le> 0 then 2 ^ 25 else m), ta_truncated = False, ta_total = 0\<rparr>"

definition acc_append :: "string \<Rightarrow> accumulator \<Rightarrow> accumulator" where
  "acc_append data a0 =
     (let a = a0\<lparr>ta_total := ta_total a0 + int (length data)\<rparr>; n = int (length (ta_content a))
      in if ta_truncated a \<and> ta_max a \<le> n then a
         else if ta_max a < n + int (length data)
         then (let remaining = ta_max a - n
               in a\<lparr>ta_content := (if 0 < remaining then ta_content a @ take (nat remaining) data else ta_content a),
                    ta_truncated := True\<rparr>)
         else a\<lparr>ta_content := ta_content a @ data\<rparr>)"

definition acc_string :: "accumulator \<Rightarrow> string" where
  "acc_string a =
     (if \<not> ta_truncated a then ta_content a
      else ta_content a @ [CHR 0x0A] @ ''... [output truncated - '' @ itoa ((ta_total a - ta_max a + 512) div 1024) @ ''KB removed]'')"

definition acc_len :: "accumulator \<Rightarrow> int" where
  "acc_len a = int (length (ta_content a))"

definition acc_clear :: "accumulator \<Rightarrow> accumulator" where
  "acc_clear a = a\<lparr>ta_content := [], ta_truncated := False, ta_total := 0\<rparr>"

lemma accumulator_prefix_from:
  assumes "0 \<le> m" "a = \<lparr>ta_content = take (nat m) s, ta_max = m, ta_truncated = (m < int (length s)), ta_total = int (length s)\<rparr>"
  shows "fold acc_append ds a =
    \<lparr>ta_content = take (nat m) (s @ concat ds), ta_max = m, ta_truncated = (m < int (length (s @ concat ds))),
     ta_total = int (length (s @ concat ds))\<rparr>"
  using assms(2)
proof (induction ds arbitrary: a s)
  case (Cons d ds)
  have "acc_append d a =
    \<lparr>ta_content = take (nat m) (s @ d), ta_max = m, ta_truncated = (m < int (length (s @ d))), ta_total = int (length (s @ d))\<rparr>"
    using assms(1) Cons(2) by (auto simp: acc_append_def Let_def min_def nat_diff_distrib')
  from Cons.IH [OF this] show ?case by simp
qed simp

text \<open>
  Whatever is appended and in however many pieces, the accumulator holds the beginning of all of it, as long as its
  limit allows, counts all the bytes received, and is marked as truncated exactly when more was received than fits.
\<close>

theorem accumulator_keeps_prefix:
  "fold acc_append ds (new_accumulator m) =
     (let k = (if m \<le> 0 then 2 ^ 25 else m); s = concat ds
      in \<lparr>ta_content = take (nat k) s, ta_max = k, ta_truncated = (k < int (length s)), ta_total = int (length s)\<rparr>)"
  using accumulator_prefix_from [of "if m \<le> 0 then 2 ^ 25 else m" "new_accumulator m" "[]" ds]
  by (simp add: new_accumulator_def Let_def)

section \<open>Joining and cutting lines\<close>

definition truncated_marker :: string where
  "truncated_marker = ''...[truncated]''"

text \<open>The loop of \<^verbatim>\<open>SafeJoinLines\<close>: whether the line is the first one, and what is joined so far.\<close>

fun join_scan :: "string \<Rightarrow> int \<Rightarrow> bool \<Rightarrow> string \<Rightarrow> string list \<Rightarrow> string" where
  "join_scan delimiter m first acc [] = acc"
| "join_scan delimiter m first acc (line # rest) =
     (let delim = (if first then [] else delimiter); full = delim @ line
      in if int (length acc) + int (length full) \<le> m then join_scan delimiter m False (acc @ full) rest
         else let remaining = m - int (length acc) - int (length delim) - int (length truncated_marker)
              in if 0 < remaining then acc @ delim @ take (nat remaining) line @ truncated_marker
                 else acc @ truncated_marker)"

definition safe_join_lines :: "string list \<Rightarrow> string \<Rightarrow> int \<Rightarrow> string" where
  "safe_join_lines ls delimiter m = join_scan delimiter m True [] ls"

text \<open>\<^verbatim>\<open>strings.SplitN\<close> with a separator of one byte, for a positive number of parts.\<close>

fun split_n :: "nat \<Rightarrow> char \<Rightarrow> string \<Rightarrow> string list" where
  "split_n n c [] = [[]]"
| "split_n n c (x # xs) =
     (if n \<le> 1 then [x # xs]
      else if x = c then [] # split_n (n - 1) c xs
      else case split_n n c xs of [] \<Rightarrow> [[x]] | w # ws \<Rightarrow> (x # w) # ws)"

definition ellipsis :: string where
  "ellipsis = [CHR 0xE2, CHR 0x80, CHR 0xA6]"

text \<open>None is the panic of the slice expression with a negative bound.\<close>

definition truncate_to_lines :: "string \<Rightarrow> int \<Rightarrow> string option" where
  "truncate_to_lines s max_lines =
     (if max_lines < 0 then None
      else let parts = split_n (nat max_lines + 1) CHR 0x0A s
           in if int (length parts) \<le> max_lines then Some s
              else Some (join_with [CHR 0x0A] (take (nat max_lines) parts) @ ellipsis))"

lemma join_scan_rest:
  "int (length acc) + int (length (concat (map ((@) delimiter) ls))) \<le> m \<Longrightarrow>
   join_scan delimiter m False acc ls = acc @ concat (map ((@) delimiter) ls)"
  by (induction ls arbitrary: acc) (simp_all add: Let_def)

lemma safe_join_fits:
  assumes "int (length (join_with delimiter ls)) \<le> m"
  shows "safe_join_lines ls delimiter m = join_with delimiter ls"
proof (cases ls)
  case (Cons w ws)
  have "join_with delimiter (w # ws) = w @ concat (map ((@) delimiter) ws)"
    by (induction ws arbitrary: w) (simp_all add: join_with_Cons)
  with assms Cons show ?thesis using join_scan_rest [of w delimiter ws m] by (simp add: safe_join_lines_def)
qed (simp add: safe_join_lines_def)

lemma join_scan_length:
  "int (length acc) \<le> m \<Longrightarrow> int (length (join_scan delimiter m first acc ls)) \<le> m + 14"
  by (induction ls arbitrary: first acc) (auto simp: Let_def truncated_marker_def)

text \<open>The marker alone can make the result longer than the limit.\<close>

lemma safe_join_overshoots: "safe_join_lines [''aaaa'', ''bbb''] '','' 5 = ''aaaa...[truncated]''"
  by (simp add: safe_join_lines_def truncated_marker_def)

lemma truncate_to_no_lines: "truncate_to_lines [] 0 = Some ellipsis"
  by (simp add: truncate_to_lines_def)

end
