(* ===== verification/Spec2Isabelle.thy ===== *)
theory Spec2Isabelle
  imports AsyncExclusive AsyncHooks AsyncRunFacts AsyncRuns Budget CommandQueue ConcExecutor ConsumeStream ContextWindow Coordinator Cron Denial Dependency Dispatch DispatchSafety EventBuffer Glob GoStrings History InputSchema Mailbox Metadata MetadataFilter Permissions Prefilter Prelude QueryGuard Retry RetryStrategy RingBuffer RuleSyntax RunLoop RunLoopFacts RunState Sanitize SemVer Ssrf ToolCache ToolDedup ToolExec ToolPool ToolRuntime TriggerFacts Triggers Uploader Utf8
begin

text \<open>
  A verification library for the agentic core of the AgentHub API, a Go service that runs agents: a language model is called
  in a loop, its tool calls are checked against permissions and executed, their results go back into the conversation. The
  core is in \<^verbatim>\<open>src/internal/domain/chat/agentic\<close>; all file names below without a directory are of this package.

  \<^bold>\<open>The parts and how they interact.\<close> The main loop (\<^verbatim>\<open>runLoop\<close> of \<^verbatim>\<open>runner.go\<close>) repairs the stored history, assembles the
  tool pool, and then repeats: compact the messages when the context window fills, call the model with retries and
  fallback models, read the stream of the answer, hand its tool calls to \<^verbatim>\<open>executeWithPermissions\<close>, append the results,
  check budgets and stop hooks. The dispatch passes each call through gates (retry limit, allow-list, frontend tools,
  permission rules with the user's consent, destructive calls), answers the builtin tools itself, delegates calls of sub-agents
  and gives the rest to the tool runtime (\<^verbatim>\<open>toolexec.go\<close>), which validates inputs, runs safe calls concurrently and caches
  results. Beside the loop stand the queues and guards that the session layer uses (command queue, query guard, event
  buffer, mailboxes, uploader), the request forgery guards of tools that open URLs, and the dependency service of the package
  registry, a separate domain.

  \<^bold>\<open>Theories and the code they model.\<close>

  \<^item> Prelude, GoStrings, Glob: the collections \<open>gostr\<close>, \<open>inv_intro\<close>, \<open>abs_simp\<close>; the interfaces \<open>strict_preference\<close> and
    \<open>keyed_preference\<close> (a winner loop), the model of the used part of Go's \<^verbatim>\<open>strings\<close>, \<^verbatim>\<open>strconv\<close> and \<^verbatim>\<open>path.Match\<close>.
  \<^item> Permissions (\<^verbatim>\<open>permission.go\<close>), RuleSyntax (\<^verbatim>\<open>permruleparser.go\<close>, \<^verbatim>\<open>shellrulematch.go\<close>), Denial (\<^verbatim>\<open>denial.go\<close>), Prefilter
    (\<^verbatim>\<open>permission_prefilter.go\<close>, \<^verbatim>\<open>filterLLMToolsByPermission\<close>): \<open>evaluate_permission\<close> is \<^verbatim>\<open>EvaluatePermission\<close>, the trackers are
    records with one function per method. The lemmas show the order of deny, allow and mode, that the danger check only
    strengthens, that the tracker refines the event history, and the round trip of the rule syntax.
  \<^item> ToolPool (\<^verbatim>\<open>tool_pool.go\<close>), ToolDedup (\<^verbatim>\<open>tool_dedup.go\<close>), SemVer (\<^verbatim>\<open>semver.go\<close>): which of several tools of a name the model
    sees; the winner loops are interpretations of the preference locales; comparing versions is a total preorder.
  \<^item> RunState, Dispatch, DispatchSafety (\<^verbatim>\<open>executeWithPermissions\<close> and the handlers of \<^verbatim>\<open>runner.go\<close>): the loop body is a list of
    handlers in the order of the source, each a function of the environment, the call and the state; the locales \<open>retry_chain\<close>
    and \<open>handler_chain\<close> carry what holds of every chain. Shown: an executed call has passed every gate, a blocked call has
    no effect, a tool other than the two that store memories is executed at most three times in a run, results are in the order
    of the calls.
  \<^item> History, ContextWindow (\<^verbatim>\<open>context.go\<close>), Budget (\<^verbatim>\<open>budget.go\<close>), Retry (\<^verbatim>\<open>retry.go\<close>, \<^verbatim>\<open>streamfallback.go\<close>), RetryStrategy
    (\<^verbatim>\<open>retrystrategy.go\<close>), ConsumeStream (\<^verbatim>\<open>consumeStream\<close>), RunLoop, RunLoopFacts (\<^verbatim>\<open>runLoop\<close>): the services of the loop and
    the loop itself. \<open>run_step\<close> is one turn of the loop, \<open>run_steps\<close> iterates it with fuel. Shown: the number of iterations is
    at most eight times the configured turns besides retries after a compaction (so that fuel is enough), the case in which
    no limit ends the loop but only its context, that every call in the history is answered without compaction, and that a run
    announces its completion once.
  \<^item> InputSchema, ToolCache, ToolExec, ToolRuntime (\<^verbatim>\<open>toolexec.go\<close>, \<^verbatim>\<open>toolcache.go\<close>): validation, the cache, batches, single
    calls (\<open>execute_tool_call\<close>), and a concurrent batch as a machine: each goroutine of \<^verbatim>\<open>executeParallel\<close> is at one of ten
    phases, \<open>par_advance\<close> is its next step, and \<open>par_run\<close> follows any schedule of such steps, of the cancellation of the run
    and of changes outside. Shown: the semaphore's bound, termination (nine steps for a call), and that every call is answered
    and emitted once or aborted for a reason.
  \<^item> ConcExecutor (\<^verbatim>\<open>streamingtoolexec.go\<close>), QueryGuard (\<^verbatim>\<open>queryguard.go\<close>), CommandQueue (\<^verbatim>\<open>commandqueue.go\<close>), RingBuffer
    (\<^verbatim>\<open>circularbuffer.go\<close>), EventBuffer (\<^verbatim>\<open>src/internal/domain/chat/eventbuffer.go\<close>), Mailbox (\<^verbatim>\<open>mailbox.go\<close>), Uploader
    (\<^verbatim>\<open>batchuploader.go\<close>, \<^verbatim>\<open>flushgate.go\<close>, \<^verbatim>\<open>truncaccumulator.go\<close>): state machines with invariants over all sequences of
    operations; the two ring buffers interpret \<open>bounded_window\<close> (the buffer is the list of the last items); Mailbox
    interleaves the halves of send, receive and close.
  \<^item> Ssrf (\<^verbatim>\<open>src/internal/ssrf/ssrf.go\<close>, \<^verbatim>\<open>ssrfguard.go\<close>): both guards with the parser of IP addresses, and the
    addresses on which they differ; Dependency
    (\<^verbatim>\<open>src/internal/domain/registry/dependency\<close>): the service over its tables and the resolution of the dependency tree.
  \<^item> Coordinator (\<^verbatim>\<open>coordinator.go\<close>, \<^verbatim>\<open>src/internal/domain/chat/task/repository.go\<close>): workers, tasks and notifications in memory and
    in the table; a coordinator that starts anew recovers the tasks of the one before it.
  \<^item> Metadata, MetadataFilter (\<^verbatim>\<open>src/internal/metadata/document.go\<close>, \<^verbatim>\<open>src/internal/domain/knowledge/metadata_filter.go\<close>): the
    validation of document metadata (a number that is accepted fits the database) and the filter of a search: its parser with
    limits, and the SQL predicate, whose text has nothing of the caller in it.
  \<^item> AsyncRuns, AsyncRunFacts, AsyncExclusive, AsyncHooks (\<^verbatim>\<open>src/internal/domain/chat/async_executor.go\<close>, the table of runs in
    \<^verbatim>\<open>repository.go\<close>, \<^verbatim>\<open>cancelRun\<close> of \<^verbatim>\<open>handler.go\<close>): runs in the background. A request, a cancellation and a task are at one of
    their phases; \<open>async_step\<close> lets one of them, the clock, the queue or a shutdown do one access to what they share, and
    \<open>async_run\<close> follows any sequence of such steps. Shown: a cancellation on the run's process is heard, the runs of a session
    exclude each other under conditions of which each is needed (the traces in AsyncRunFacts show what happens without them),
    a task ends, and the completion hooks are called at most once if no message is delivered twice.
  \<^item> Cron, Triggers, TriggerFacts (\<^verbatim>\<open>src/internal/domain/trigger\<close>): scheduled runs. \<open>cron_next_run\<close> is \<^verbatim>\<open>NextRun\<close>; the machine
    \<open>trigger_step\<close> interleaves the schedulers of several processes, requests and the hook that closes the row of a run. The
    search for the next run is exact and always succeeds where the offset of the location does not change; a trigger fires at most once a minute under one scheduler; with the
    columns as they are written nothing fires at all.
  \<^item> Utf8, Sanitize (\<^verbatim>\<open>src/internal/sanitize\<close>): the removal of markup ends with a text that has none, and slugs are canonical; the
    regular expressions are matchers, UTF-8 is modelled byte by byte. Utf8 also has the quoting of \<^verbatim>\<open>%q\<close>.

  \<^bold>\<open>Conventions.\<close> Strings are lists of bytes (characters below 256); the code's characters outside ASCII are their UTF-8 bytes.
  A Go \<^verbatim>\<open>int\<close> is an \<open>int\<close> where it cannot overflow before memory ends, and written with its width where it can. Go maps are
  functions to options, or association lists where their size or order is used. Errors are the left values of a sum,
  panics are None. JSON codecs, digests, clocks, user dialogs, the model and the services behind tools are arguments,
  functions on a world \<open>'w\<close> that stands for all that is outside; a concurrent component is a machine whose steps are
  the atomic sections of the code, taken in any order. Prices are in whole units.

  \<^bold>\<open>Bounds and fuel.\<close> The resolution of dependencies runs with fuel one more than the number of packages, which is the
  longest path without a repetition; the loop with eight times the turns plus the retries after compaction; the upload loop
  with the attempts that its failure budget leaves. Each of these is shown to be enough. All other recursions are structural
  or have a measure.

  \<^bold>\<open>Order of the properties.\<close> First what can hurt: which calls are executed and how often; then whether runs end and keep
  their history in order; the tool runtime; the guards; the permission layer; then the queues, buffers and the registry. Lemmas without
  a number that follow a text are further facts about the code, several of them counterexamples to what its comments say.

  \<^bold>\<open>Not modelled.\<close> The HTTP server, the persistence, the queue and identity clients and the MCP processes
  (\<^verbatim>\<open>src/internal/server\<close>, \<^verbatim>\<open>infra\<close>, \<^verbatim>\<open>database\<close>, \<^verbatim>\<open>mcpruntime\<close>): input and output around other systems. Cryptography and
  redaction patterns are arguments. Of the run, the preparation before the loop (memories, slash commands, the prompt) and the
  text of prompts and tool schemas. Times: durations, backoff delays (up to their caps), timeouts and the stall detector, which
  emits progress events only. Floating point numbers are compared as the code compares them only where the comparison is
  the same for exact numbers; the theories say where. Data races: the code is assumed to hold the mutexes that it takes,
  and an operation under one mutex is one step.
\<close>

end
